(* ===== verification/Prelude.thy ===== *)
theory Prelude
  imports Main "HOL-Library.Word" "HOL-Library.Monad_Syntax" "HOL-Library.Signed_Division"
begin

text \<open>
  What every theory of the development shares: the machine's types, the byte-addressed memory
  with its little-endian loads and stores, C's \<open>int\<close> as \<open>int\<close>, and the frame lemmas that say
  which stores leave which loads alone.

  The data model is the one of the 32-bit kernel (\<open>i686\<close>): a pointer and \<open>u32\<close> are 32 bits wide,
  \<open>int\<close> is a signed 32-bit integer, and the memory is little-endian.  A result of type
  \<open>'a option\<close> is \<open>None\<close> where the C function has no result: a loop that never ends, a division by
  zero (whose handler, \<open>isr_division_error_handler\<close>, loops for ever), or signed overflow.
\<close>

unbundle bit_operations_syntax

declare of_nat_diff [simp del]

named_theorems layout \<open>address arithmetic of the structures the code keeps in memory\<close>
named_theorems memsimps \<open>loads after stores\<close>

type_synonym u8 = "8 word"
type_synonym u16 = "16 word"
type_synonym u32 = "32 word"
type_synonym u64 = "64 word"
type_synonym addr = "32 word"
type_synonym mem = "addr \<Rightarrow> u8"

abbreviation NULL :: addr where "NULL \<equiv> 0"

subsection \<open>Integers of C\<close>

text \<open>The conversions the C compiler inserts: \<open>int\<close> to \<open>u32\<close> and back.\<close>

definition to_u32 :: "int \<Rightarrow> u32" where
  "to_u32 i = word_of_int i"

definition to_s32 :: "u32 \<Rightarrow> int" where
  "to_s32 w = sint w"

abbreviation INT_MAX :: int where "INT_MAX \<equiv> 2147483647"
abbreviation INT_MIN :: int where "INT_MIN \<equiv> -2147483648"

text \<open>A signed result, defined only where it does not overflow.\<close>

definition s32_ok :: "int \<Rightarrow> int option" where
  "s32_ok i = (if INT_MIN \<le> i \<and> i \<le> INT_MAX then Some i else None)"

text \<open>Unsigned division and remainder trap on zero.\<close>

definition udiv :: "u32 \<Rightarrow> u32 \<Rightarrow> u32 option" where
  "udiv a b = (if b = 0 then None else Some (a div b))"

definition umod :: "u32 \<Rightarrow> u32 \<Rightarrow> u32 option" where
  "umod a b = (if b = 0 then None else Some (a mod b))"

lemma to_s32_to_u32 [simp]:
  "INT_MIN \<le> i \<Longrightarrow> i \<le> INT_MAX \<Longrightarrow> to_s32 (to_u32 i) = i"
  by (simp add: to_s32_def to_u32_def signed_of_int signed_take_bit_int_eq_self)

lemma to_u32_to_s32 [simp]: "to_u32 (to_s32 w) = w"
  by (simp add: to_s32_def to_u32_def)

lemma to_s32_of_nat [simp]: "n < 2147483648 \<Longrightarrow> to_s32 (word_of_nat n) = int n"
  using to_s32_to_u32 [of "int n"] by (simp add: to_u32_def)

lemma to_s32_small: "unat w < 2147483648 \<Longrightarrow> to_s32 w = int (unat w)"
  using to_s32_of_nat [of "unat w"] by simp

lemma udiv_Some [simp]: "b \<noteq> 0 \<Longrightarrow> udiv a b = Some (a div b)"
  by (simp add: udiv_def)

lemma umod_Some [simp]: "b \<noteq> 0 \<Longrightarrow> umod a b = Some (a mod b)"
  by (simp add: umod_def)

subsection \<open>Memory\<close>

definition st8 :: "mem \<Rightarrow> addr \<Rightarrow> u8 \<Rightarrow> mem" where
  "st8 m a v = m(a := v)"

definition ld16 :: "mem \<Rightarrow> addr \<Rightarrow> u16" where
  "ld16 m a = ucast (m a) OR push_bit 8 (ucast (m (a + 1)))"

definition st16 :: "mem \<Rightarrow> addr \<Rightarrow> u16 \<Rightarrow> mem" where
  "st16 m a v = m(a := ucast v, a + 1 := ucast (drop_bit 8 v))"

definition ld32 :: "mem \<Rightarrow> addr \<Rightarrow> u32" where
  "ld32 m a = ucast (m a) OR push_bit 8 (ucast (m (a + 1)))
     OR push_bit 16 (ucast (m (a + 2))) OR push_bit 24 (ucast (m (a + 3)))"

definition st32 :: "mem \<Rightarrow> addr \<Rightarrow> u32 \<Rightarrow> mem" where
  "st32 m a v = m(a := ucast v, a + 1 := ucast (drop_bit 8 v),
     a + 2 := ucast (drop_bit 16 v), a + 3 := ucast (drop_bit 24 v))"

text \<open>
  Two blocks of bytes do not meet.  Stated on address differences, so it is meaningful for
  blocks that wrap around the end of the address space too.
\<close>

definition apart :: "addr \<Rightarrow> nat \<Rightarrow> addr \<Rightarrow> nat \<Rightarrow> bool" where
  "apart a n b k \<longleftrightarrow> n \<le> unat (b - a) \<and> k \<le> unat (a - b)"

definition inside :: "addr \<Rightarrow> nat \<Rightarrow> addr \<Rightarrow> bool" where
  "inside a n x \<longleftrightarrow> unat (x - a) < n"


lemma unat_of_nat_lt: "i < 4294967296 \<Longrightarrow> unat (of_nat i :: u32) = i"
  by (simp add: unsigned_of_nat take_bit_nat_eq_self)

lemma unat_bound: "unat (w :: u32) < 4294967296"
  using unsigned_less [of w, where 'a = nat] by simp

lemma unat_inc: "i < (d :: u32) \<Longrightarrow> unat (i + 1) = Suc (unat i)"
  using unat_bound [of d] by (simp add: unat_word_ariths word_less_nat_alt)

lemma u32_eq_iff: "(a :: u32) = b \<longleftrightarrow> unat a = unat b"
  by (metis of_nat_unat ucast_id)

lemma unat_ucast_8_32 [simp]: "unat (ucast (b :: u8) :: u32) = unat b"
  using unsigned_less [of b, where 'a = nat] by (simp add: unsigned_ucast_eq take_bit_nat_eq_self)

lemma u32_of_nat_eqI: "unat (w :: u32) = n \<Longrightarrow> w = of_nat n"
  by (metis of_nat_unat ucast_id)

lemma u32_div: "a < 4294967296 \<Longrightarrow> b < 4294967296 \<Longrightarrow> (of_nat a :: u32) div of_nat b = of_nat (a div b)"
  by (rule u32_of_nat_eqI) (simp add: unat_div unat_of_nat_lt)

lemma u32_mod: "a < 4294967296 \<Longrightarrow> b < 4294967296 \<Longrightarrow> (of_nat a :: u32) mod of_nat b = of_nat (a mod b)"
  by (rule u32_of_nat_eqI) (simp add: unat_mod unat_of_nat_lt)

lemma of_nat_div2: "n < 4294967296 \<Longrightarrow> (of_nat n :: u32) div 2 = of_nat (n div 2)"
  using u32_div [of n 2] by simp

lemma apart_sym: "apart a n b k \<longleftrightarrow> apart b k a n"
  by (auto simp: apart_def)

lemma apart_no_wrap: "0 < n \<Longrightarrow> unat a + n \<le> unat b \<Longrightarrow> unat b + k \<le> 2 ^ 32 \<Longrightarrow> apart a n b k"
  by (auto simp: apart_def unat_sub_if' word_le_nat_alt)

lemma inside_iff: "n \<le> 2 ^ 32 \<Longrightarrow> inside a n x \<longleftrightarrow> (\<exists>i<n. x = a + of_nat i)"
proof
  assume "inside a n x"
  then have "unat (x - a) < n" by (simp add: inside_def)
  moreover have "x = a + of_nat (unat (x - a))" by simp
  ultimately show "\<exists>i<n. x = a + of_nat i" by blast
next
  assume "n \<le> 2 ^ 32" and "\<exists>i<n. x = a + of_nat i"
  then show "inside a n x" by (auto simp: inside_def unat_of_nat_lt)
qed

lemma apart_inside: "apart a n b k \<Longrightarrow> inside a n x \<Longrightarrow> \<not> inside b k x"
proof -
  assume ap: "apart a n b k" and "inside a n x"
  define p q where "p = x - a" and "q = b - a"
  have "x - b = p - q" "a - b = - q" by (simp_all add: p_def q_def)
  moreover have "unat p < n" "n \<le> unat q" "k \<le> unat (- q)"
    using ap \<open>inside a n x\<close> by (auto simp: inside_def apart_def p_def q_def)
  moreover have "unat (- q) = 2 ^ 32 - unat q"
    using \<open>unat p < n\<close> \<open>n \<le> unat q\<close> unat_sub_if' [of 0 q] by auto
  ultimately show ?thesis by (simp add: inside_def unat_sub_if')
qed

lemma inside_apartI:
  assumes "n \<le> 2 ^ 32" "k \<le> 2 ^ 32" "0 < n" "0 < k"
    and disj: "\<And>x. inside a n x \<Longrightarrow> \<not> inside b k x"
  shows "apart a n b k"
proof -
  have "\<not> inside b k a" using disj [of a] assms by (simp add: inside_def)
  moreover have "\<not> inside a n b" using disj [of b] assms by (auto simp: inside_def)
  ultimately show ?thesis by (auto simp: inside_def apart_def)
qed

lemma inside_sub: "inside a n x \<Longrightarrow> a = b + of_nat d \<Longrightarrow> d + n \<le> k \<Longrightarrow> k \<le> 2 ^ 32 \<Longrightarrow> inside b k x"
proof -
  assume "inside a n x" and a: "a = b + of_nat d" and d: "d + n \<le> k" "k \<le> 2 ^ 32"
  then have lt: "unat (x - a) < n" by (simp add: inside_def)
  have "x - b = (x - a) + of_nat d" by (simp add: a)
  moreover have "unat ((x - a) + of_nat d) \<le> unat (x - a) + unat (of_nat d :: u32)"
    by (simp add: unat_word_ariths)
  moreover have "unat (of_nat d :: u32) \<le> d"
    by (simp add: unsigned_of_nat)
  ultimately have "unat (x - b) \<le> unat (x - a) + d" by (metis add_left_mono le_trans)
  with lt d show "inside b k x" by (simp add: inside_def)
qed

lemma inside_offset: "inside (a + of_nat d) n x \<Longrightarrow> d + n \<le> k \<Longrightarrow> k \<le> 2 ^ 32 \<Longrightarrow> inside a k x"
  by (rule inside_sub [OF _ refl])

lemma inside_mono: "inside a n x \<Longrightarrow> n \<le> k \<Longrightarrow> inside a k x"
  by (simp add: inside_def)

text \<open>A part of a block is apart from whatever the block is apart from.\<close>

lemma apart_sub:
  assumes "apart a n b k" "d + n' \<le> n" "e + k' \<le> k" "n \<le> 2 ^ 32" "k \<le> 2 ^ 32"
    and "0 < n'" "0 < k'"
  shows "apart (a + of_nat d) n' (b + of_nat e) k'"
proof (rule inside_apartI)
  fix x assume "inside (a + of_nat d) n' x"
  then have "inside a n x" by (rule inside_sub [OF _ refl]) (use assms in auto)
  then have "\<not> inside b k x" using assms(1) by (auto dest: apart_inside)
  then show "\<not> inside (b + of_nat e) k' x"
    using inside_sub [OF _ refl, of b e k' x k] assms by blast
qed (use assms in auto)

lemma apart_field:
  "n \<le> unat d \<Longrightarrow> k \<le> unat (- d) \<Longrightarrow> apart a n (a + d) k"
  by (simp add: apart_def)

text \<open>Blocks at different offsets of one base.\<close>

lemma apart_offsets:
  assumes "d + n \<le> e" "e + k \<le> d + 2 ^ 32" "0 < n" "0 < k"
  shows "apart (a + of_nat d) n (a + of_nat e) k"
proof -
  have e: "(of_nat e :: u32) = of_nat d + of_nat (e - d)"
    using assms(1) by (simp flip: of_nat_add)
  show ?thesis
  proof (cases "e - d < 2 ^ 32")
    case True
    then have u: "unat (of_nat (e - d) :: u32) = e - d" by (simp add: unat_of_nat_lt)
    then have "unat (- of_nat (e - d) :: u32) = 2 ^ 32 - (e - d)"
      using unat_sub_if' [of 0 "of_nat (e - d) :: u32"] assms(1,3) by auto
    moreover have "n \<le> e - d" "k \<le> 2 ^ 32 - (e - d)" using assms by linarith+
    ultimately show ?thesis using u by (simp add: apart_def e)
  qed (use assms in simp)
qed

subsection \<open>Loads after stores\<close>

lemma st32_other: "\<not> inside a 4 x \<Longrightarrow> st32 m a v x = m x"
  by (auto simp: st32_def inside_def)

lemma st16_other: "\<not> inside a 2 x \<Longrightarrow> st16 m a v x = m x"
  by (auto simp: st16_def inside_def)

lemma ld32_cong: "(\<And>x. inside a 4 x \<Longrightarrow> m x = m' x) \<Longrightarrow> ld32 m a = ld32 m' a"
  by (simp add: ld32_def inside_def)

lemma ld16_cong: "(\<And>x. inside a 2 x \<Longrightarrow> m x = m' x) \<Longrightarrow> ld16 m a = ld16 m' a"
  by (simp add: ld16_def inside_def)

lemma le_bytes32:
  "ucast (ucast v :: u8) OR push_bit 8 (ucast (ucast (drop_bit 8 v) :: u8))
     OR push_bit 16 (ucast (ucast (drop_bit 16 v) :: u8))
     OR push_bit 24 (ucast (ucast (drop_bit 24 v) :: u8)) = (v :: u32)"
proof (rule bit_word_eqI)
  fix n assume "n < LENGTH(32)"
  then consider "n < 8" | "8 \<le> n" "n < 16" | "16 \<le> n" "n < 24" | "24 \<le> n" "n < 32"
    by (auto simp: not_le [symmetric])
  then show "bit (ucast (ucast v :: u8) OR push_bit 8 (ucast (ucast (drop_bit 8 v) :: u8))
     OR push_bit 16 (ucast (ucast (drop_bit 16 v) :: u8))
     OR push_bit 24 (ucast (ucast (drop_bit 24 v) :: u8)) :: u32) n \<longleftrightarrow> bit v n"
    by cases (simp_all only: bit_simps, auto)
qed

lemma le_bytes16:
  "ucast (ucast v :: u8) OR push_bit 8 (ucast (ucast (drop_bit 8 v) :: u8)) = (v :: u16)"
proof (rule bit_word_eqI)
  fix n assume "n < LENGTH(16)"
  then consider "n < 8" | "8 \<le> n" "n < 16" by (auto simp: not_le [symmetric])
  then show "bit (ucast (ucast v :: u8) OR push_bit 8 (ucast (ucast (drop_bit 8 v) :: u8)) :: u16) n
      \<longleftrightarrow> bit v n"
    by cases (simp_all only: bit_simps, auto)
qed

lemma offset_neq:
  "a \<noteq> a + 1" "a \<noteq> a + 2" "a \<noteq> a + 3" "a + 1 \<noteq> a + 2" "a + 1 \<noteq> a + 3" "a + 2 \<noteq> a + (3 :: u32)"
  by simp_all

lemma ld32_st32 [simp, memsimps]: "ld32 (st32 m a v) a = v"
  by (simp only: ld32_def st32_def fun_upd_apply offset_neq offset_neq [symmetric]
      if_True if_False refl le_bytes32)

lemma ld16_st16 [simp, memsimps]: "ld16 (st16 m a v) a = v"
  by (simp only: ld16_def st16_def fun_upd_apply offset_neq offset_neq [symmetric]
      if_True if_False refl le_bytes16)

lemma ld32_st32_apart [memsimps]: "apart a 4 b 4 \<Longrightarrow> ld32 (st32 m b v) a = ld32 m a"
  by (rule ld32_cong) (auto intro!: st32_other dest: apart_inside)

lemma ld32_st8_apart [memsimps]: "apart a 4 b 1 \<Longrightarrow> ld32 (st8 m b v) a = ld32 m a"
  by (rule ld32_cong) (auto simp: st8_def inside_def [of b] dest: apart_inside)

lemma st32_eq_apart: "apart a 1 b 4 \<Longrightarrow> st32 m b v a = m a"
  by (rule st32_other) (auto simp: inside_def apart_def dest: apart_inside)

lemma apart_self [simp]: "0 < n \<Longrightarrow> \<not> apart a n a k"
  by (simp add: apart_def)


subsection \<open>Blocks of bytes\<close>

text \<open>
  The contents of a block, a block filled with one byte, a block copied to another place, and
  the strings of C.
\<close>

definition rd :: "mem \<Rightarrow> addr \<Rightarrow> nat \<Rightarrow> u8 list" where
  "rd m a n = map (\<lambda>i. m (a + of_nat i)) [0..<n]"

definition fill :: "mem \<Rightarrow> addr \<Rightarrow> nat \<Rightarrow> u8 \<Rightarrow> mem" where
  "fill m a n v = (\<lambda>x. if inside a n x then v else m x)"

definition blit :: "mem \<Rightarrow> addr \<Rightarrow> addr \<Rightarrow> nat \<Rightarrow> mem" where
  "blit m d s n = (\<lambda>x. if inside d n x then m (s + (x - d)) else m x)"

definition cstr :: "mem \<Rightarrow> addr \<Rightarrow> u8 list \<Rightarrow> bool" where
  "cstr m a bs \<longleftrightarrow> rd m a (Suc (length bs)) = bs @ [0] \<and> 0 \<notin> set bs"

lemma length_rd [simp]: "length (rd m a n) = n"
  by (simp add: rd_def)

lemma nth_rd [simp]: "i < n \<Longrightarrow> rd m a n ! i = m (a + of_nat i)"
  by (simp add: rd_def)

lemma rd_Suc: "rd m a (Suc n) = rd m a n @ [m (a + of_nat n)]"
  by (simp add: rd_def)

lemma rd_0 [simp]: "rd m a 0 = []"
  by (simp add: rd_def)

lemma inside_add [simp]: "n \<le> 2 ^ 32 \<Longrightarrow> i < n \<Longrightarrow> inside a n (a + of_nat i)"
  by (auto simp: inside_iff)

lemma rd_eq_iff: "rd m a n = bs \<longleftrightarrow> length bs = n \<and> (\<forall>i<n. m (a + of_nat i) = bs ! i)"
  by (auto simp: list_eq_iff_nth_eq)

lemma rd_cong: "n \<le> 2 ^ 32 \<Longrightarrow> (\<And>x. inside a n x \<Longrightarrow> m x = m' x) \<Longrightarrow> rd m a n = rd m' a n"
  by (simp add: rd_eq_iff)

lemma fill_apart: "n \<le> 2 ^ 32 \<Longrightarrow> apart a n b k \<Longrightarrow> rd (fill m b k v) a n = rd m a n"
  by (rule rd_cong) (auto simp: fill_def dest: apart_inside)

lemma rd_fill: "n \<le> 2 ^ 32 \<Longrightarrow> rd (fill m a n v) a n = replicate n v"
  by (simp add: rd_eq_iff fill_def)

lemma rd_blit: "n \<le> 2 ^ 32 \<Longrightarrow> rd (blit m d s n) d n = rd m s n"
  by (simp add: rd_eq_iff blit_def)

lemma blit_other: "\<not> inside d n x \<Longrightarrow> blit m d s n x = m x"
  by (simp add: blit_def)

lemma rd_blit_apart: "n \<le> 2 ^ 32 \<Longrightarrow> apart a n d k \<Longrightarrow> rd (blit m d s k) a n = rd m a n"
  by (rule rd_cong) (auto simp: blit_def dest: apart_inside)

lemma cstr_iff:
  "cstr m a bs \<longleftrightarrow> (\<forall>i<length bs. m (a + of_nat i) = bs ! i) \<and> m (a + of_nat (length bs)) = 0
     \<and> 0 \<notin> set bs"
  by (auto simp: cstr_def rd_eq_iff less_Suc_eq nth_append)

lemma cstr_unique: "cstr m a bs \<Longrightarrow> cstr m a cs \<Longrightarrow> bs = cs"
proof -
  assume *: "cstr m a bs" "cstr m a cs"
  have "\<not> length xs < length ys" if "cstr m a xs" "cstr m a ys" for xs ys
  proof
    assume lt: "length xs < length ys"
    then have "ys ! length xs \<noteq> 0" using that(2) by (metis cstr_iff nth_mem)
    then show False using that lt by (simp add: cstr_iff)
  qed
  with * have "length bs = length cs" by (meson linorder_neqE_nat)
  then show ?thesis using * by (intro nth_equalityI) (auto simp: cstr_iff)
qed


lemma inside_0 [simp]: "\<not> inside a 0 x"
  by (simp add: inside_def)

lemma unat_diff_iff: "k < 2 ^ 32 \<Longrightarrow> unat (x - a) = k \<longleftrightarrow> x = (a :: u32) + of_nat k"
proof
  assume "unat (x - a) = k"
  then have "of_nat (unat (x - a)) = (of_nat k :: u32)" by simp
  then have "x - a = of_nat k" by (simp add: ucast_id del: diff_eq_eq)
  then show "x = a + of_nat k" by (simp add: diff_eq_eq add.commute)
qed (simp add: unat_of_nat_lt)

lemma inside_Suc: "k < 2 ^ 32 \<Longrightarrow> inside a (Suc k) x \<longleftrightarrow> inside a k x \<or> x = a + of_nat k"
  by (auto simp: inside_def less_Suc_eq unat_diff_iff)


text \<open>A list of bytes written at an address.\<close>

definition put :: "mem \<Rightarrow> addr \<Rightarrow> u8 list \<Rightarrow> mem" where
  "put m a bs = (\<lambda>x. if inside a (length bs) x then bs ! unat (x - a) else m x)"

lemma put_Nil [simp]: "put m a [] = m"
  by (simp add: put_def)

lemma put_snoc: "length bs < 2 ^ 32 \<Longrightarrow> st8 (put m a bs) (a + of_nat (length bs)) b = put m a (bs @ [b])"
proof (rule ext)
  fix x assume "length bs < 2 ^ 32"
  then show "st8 (put m a bs) (a + of_nat (length bs)) b x = put m a (bs @ [b]) x"
    using unat_diff_iff [of "length bs" x a] inside_Suc [of "length bs" a x]
    by (auto simp: st8_def put_def nth_append inside_def)
qed

lemma put_Cons: "length bs < 2 ^ 32 - 1 \<Longrightarrow> put (st8 m a b) (a + 1) bs = put m a (b # bs)"
proof (induction bs rule: rev_induct)
  case Nil
  show ?case using put_snoc [of "[]" m a b] by simp
next
  case (snoc c bs)
  have "put (st8 m a b) (a + 1) (bs @ [c]) =
      st8 (put (st8 m a b) (a + 1) bs) (a + 1 + of_nat (length bs)) c"
    using snoc.prems by (subst put_snoc) auto
  also have "\<dots> = st8 (put m a (b # bs)) (a + of_nat (length (b # bs))) c"
    using snoc by (simp add: add.assoc)
  also have "\<dots> = put m a ((b # bs) @ [c])" using snoc.prems by (subst put_snoc) auto
  finally show ?case by simp
qed

lemma put_other: "\<not> inside a (length bs) x \<Longrightarrow> put m a bs x = m x"
  by (simp add: put_def)

lemma put_nth: "length bs \<le> 2 ^ 32 \<Longrightarrow> i < length bs \<Longrightarrow> put m a bs (a + of_nat i) = bs ! i"
  by (simp add: put_def unat_of_nat_lt)

lemma rd_put: "length bs \<le> 2 ^ 32 \<Longrightarrow> rd (put m a bs) a (length bs) = bs"
  by (simp add: rd_eq_iff put_nth)

lemma cstr_cong:
  "length bs < 2 ^ 32 \<Longrightarrow> (\<And>x. inside a (Suc (length bs)) x \<Longrightarrow> m x = m' x) \<Longrightarrow> cstr m a bs = cstr m' a bs"
  unfolding cstr_def using rd_cong [of "Suc (length bs)" a m m'] by simp

end
