(* ===== verification/Cmath.thy ===== *)
theory Cmath
  imports Prelude
begin

text \<open>
  \<open>math.c\<close>: absolute value, maximum, minimum, integer logarithm and power.  The error codes of
  \<open>errno.h\<close> that the code returns come first.
\<close>

abbreviation EIO :: int where "EIO \<equiv> 5"
abbreviation ENOMEM :: int where "ENOMEM \<equiv> 12"
abbreviation EBUSY :: int where "EBUSY \<equiv> 16"
abbreviation ENODEV :: int where "ENODEV \<equiv> 19"
abbreviation EINVAL :: int where "EINVAL \<equiv> 22"

definition c_abs :: "int \<Rightarrow> int option" where
  "c_abs n = (if n < 0 then s32_ok (n * -1) else Some n)"

definition c_max :: "int \<Rightarrow> int \<Rightarrow> int" where
  "c_max a b = (if a \<ge> b then a else b)"

definition c_min :: "int \<Rightarrow> int \<Rightarrow> int" where
  "c_min a b = (if a \<ge> b then b else a)"

text \<open>\<open>do { tmp = tmp / base; exp++; } while(tmp);\<close>\<close>

partial_function (option) log_loop :: "u32 \<Rightarrow> u32 \<Rightarrow> u32 \<Rightarrow> u32 option" where
  "log_loop base tmp exp = do {
     tmp' \<leftarrow> udiv tmp base;
     if tmp' \<noteq> 0 then log_loop base tmp' (exp + 1) else Some (exp + 1) }"

definition c_log :: "u32 \<Rightarrow> u32 \<Rightarrow> int option" where
  "c_log base arg =
     (if base = 1 \<or> base \<le> 0 then Some (- EINVAL)
      else if arg < 1 then Some (- EINVAL)
      else do { exp \<leftarrow> log_loop base arg 0; Some (to_s32 (exp - 1)) })"

text \<open>\<open>while(exp--) ret *= base;\<close> on \<open>int\<close>, so an overflow has no defined result.\<close>

fun power_loop :: "int \<Rightarrow> int \<Rightarrow> nat \<Rightarrow> int option" where
  "power_loop base ret 0 = Some ret"
| "power_loop base ret (Suc exp) = do { r \<leftarrow> s32_ok (ret * base); power_loop base r exp }"

definition power :: "int \<Rightarrow> int \<Rightarrow> u32 option" where
  "power base exp =
     (if base = 1 \<or> base \<le> 0 then Some (to_u32 (- EINVAL))
      else if exp < 0 then Some (to_u32 (- EINVAL))
      else if exp = 0 then Some 1
      else map_option to_u32 (power_loop base 1 (nat exp)))"

lemma c_min_eq [simp]: "c_min a b = min a b"
  by (simp add: c_min_def)

lemma c_max_eq [simp]: "c_max a b = max a b"
  by (simp add: c_max_def)

lemma log_loop_correct:
  assumes "1 < unat base" "0 < unat tmp" "unat exp + unat tmp < 2 ^ 32"
  shows "\<exists>k. log_loop base tmp exp = Some (exp + 1 + of_nat k) \<and> k < unat tmp
     \<and> unat base ^ k \<le> unat tmp \<and> unat tmp < unat base ^ Suc k"
  using assms(2,3)
proof (induction "unat tmp" arbitrary: tmp exp rule: less_induct)
  case less
  have b: "base \<noteq> 0" using assms(1) by auto
  have dv: "unat (tmp div base) = unat tmp div unat base" by (simp add: unat_div)
  have dec: "unat tmp div unat base < unat tmp" using assms(1) less.prems(1) by simp
  show ?case
  proof (cases "tmp div base = 0")
    case True
    then have "unat tmp < unat base"
      using dv assms(1) by (auto simp: div_eq_0_iff)
    with True b less.prems(1) show ?thesis
      by (intro exI [of _ 0]) (simp add: log_loop.simps [of base tmp])
  next
    case False
    then have pos: "0 < unat (tmp div base)" by (simp add: unat_gt_0)
    have e1: "unat (exp + 1) \<le> unat exp + 1" by (simp add: unat_word_ariths)
    with less.prems dec dv have "unat (exp + 1) + unat (tmp div base) < 2 ^ 32" by simp
    from less.hyps [OF _ pos this] dec dv obtain k
      where k: "log_loop base (tmp div base) (exp + 1) = Some (exp + 1 + 1 + of_nat k)"
        "k < unat tmp div unat base" "unat base ^ k \<le> unat tmp div unat base"
        "unat tmp div unat base < unat base ^ Suc k" by auto
    have "unat base ^ Suc k \<le> unat tmp"
      using k(3) assms(1) by (simp add: less_eq_div_iff_mult_less_eq mult.commute)
    moreover have "unat tmp < unat base ^ Suc (Suc k)"
      using k(4) assms(1) by (simp add: div_less_iff_less_mult mult.commute)
    moreover have "Suc k < unat tmp" using k(2) dec by simp
    ultimately show ?thesis
      using False b k(1) by (intro exI [of _ "Suc k"]) (simp add: log_loop.simps [of base tmp])
  qed
qed

text \<open>The logarithm is the exponent of the largest power not above the argument.\<close>

lemma c_log_correct:
  assumes "1 < unat base" "0 < unat arg" "unat arg < 2147483648"
  shows "\<exists>k. c_log base arg = Some (int k) \<and> unat base ^ k \<le> unat arg
     \<and> unat arg < unat base ^ Suc k"
proof -
  obtain k where "log_loop base arg 0 = Some (0 + 1 + of_nat k)" "k < unat arg"
    "unat base ^ k \<le> unat arg" "unat arg < unat base ^ Suc k"
    using log_loop_correct [of base arg 0] assms by auto
  moreover have "base \<noteq> 1" "\<not> base \<le> 0" "\<not> arg < 1"
    using assms(1,2) by (auto simp: word_less_nat_alt word_le_nat_alt)
  ultimately show ?thesis using assms(3)
    by (intro exI [of _ k]) (simp add: c_log_def)
qed

lemma power_loop_correct:
  "0 < base \<Longrightarrow> 0 < ret \<Longrightarrow> ret \<le> INT_MAX \<Longrightarrow> power_loop base ret n =
     (if ret * base ^ n \<le> INT_MAX then Some (ret * base ^ n) else None)"
proof (induction n arbitrary: ret)
  case 0
  then show ?case by simp
next
  case (Suc n)
  have pos: "0 < ret * base" using Suc.prems by simp
  show ?case
  proof (cases "ret * base \<le> INT_MAX")
    case True
    then show ?thesis using Suc.IH [of "ret * base"] Suc.prems pos
      by (simp add: s32_ok_def mult.assoc order_trans [OF _ less_imp_le [OF pos]])
  next
    case False
    have "ret * base * 1 \<le> ret * base * base ^ n"
      using Suc.prems pos by (intro mult_left_mono) auto
    with False show ?thesis using pos by (simp add: s32_ok_def mult.assoc)
  qed
qed

lemma power_correct:
  assumes "1 < base" "0 \<le> exp"
  shows "power base exp = (if base ^ nat exp \<le> INT_MAX then Some (to_u32 (base ^ nat exp)) else None)"
  using assms power_loop_correct [of base 1 "nat exp"]
  by (auto simp: power_def to_u32_def)

lemma power_2: "n < 31 \<Longrightarrow> power 2 (int n) = Some (2 ^ n)"
proof -
  assume "n < 31"
  then have "(2::int) ^ n \<le> 2 ^ 30" by (intro power_increasing) auto
  then show ?thesis by (simp add: power_correct to_u32_def)
qed

end
