(* ===== verification/Cstring.thy ===== *)
theory Cstring
  imports Cmath
begin

text \<open>
  \<open>string.c\<close> (of the 32-bit kernel, \<open>archtecture/x86/p32/string.c\<close>) and \<open>stdlib.c\<close>: the string and
  memory functions and the number printers, on the byte memory.  A local array whose address the
  code passes on has its address as a parameter (\<open>buf\<close>, \<open>rb\<close>).
  \<open>strcmp_root\<close> is the older \<open>strcmp\<close> of the top-level \<open>string.c\<close>.
\<close>

subsection \<open>Lengths and searches\<close>

text \<open>
  \<open>for(i=0; str[n] && (i<=INT_MAX); i++) n++;\<close>: the bound never fails for an \<open>int\<close>, and counting
  past \<open>INT_MAX\<close> overflows.
\<close>

function strlen_loop :: "mem \<Rightarrow> addr \<Rightarrow> nat \<Rightarrow> nat option" where
  "strlen_loop m str n =
     (if n > 2147483647 then None
      else if m (str + of_nat n) = 0 then Some n
      else strlen_loop m str (Suc n))"
  by pat_completeness auto
termination
  by (relation "measure (\<lambda>(m, str, n). 2147483648 - n)") auto

declare strlen_loop.simps [simp del]

definition strlen :: "mem \<Rightarrow> addr \<Rightarrow> int option" where
  "strlen m str =
     (if str = NULL then Some 0
      else map_option (\<lambda>n. if int n \<noteq> INT_MAX then int n else 0) (strlen_loop m str 0))"

text \<open>\<open>for(i=len; i>-1; i--) if(str[i]==ch) return str+i;\<close>\<close>

fun strrchr_loop :: "mem \<Rightarrow> addr \<Rightarrow> u8 \<Rightarrow> nat \<Rightarrow> addr" where
  "strrchr_loop m str ch 0 = (if m str = ch then str else NULL)"
| "strrchr_loop m str ch (Suc i) =
     (if m (str + of_nat (Suc i)) = ch then str + of_nat (Suc i) else strrchr_loop m str ch i)"

definition strrchr :: "mem \<Rightarrow> addr \<Rightarrow> u8 \<Rightarrow> addr option" where
  "strrchr m str ch =
     (if str = NULL then Some NULL
      else do { len \<leftarrow> strlen m str; Some (strrchr_loop m str ch (nat len)) })"

function strchr_loop :: "mem \<Rightarrow> addr \<Rightarrow> u8 \<Rightarrow> nat \<Rightarrow> nat \<Rightarrow> addr" where
  "strchr_loop m str ch len i =
     (if i < len then
        (if m (str + of_nat i) = ch then str + of_nat i else strchr_loop m str ch len (Suc i))
      else NULL)"
  by pat_completeness auto
termination
  by (relation "measure (\<lambda>(m, str, ch, len, i). len - i)") auto

declare strchr_loop.simps [simp del]

definition strchr :: "mem \<Rightarrow> addr \<Rightarrow> u8 \<Rightarrow> addr option" where
  "strchr m str ch = do {
     len \<leftarrow> strlen m str;
     if str = NULL \<or> len = 0 then Some NULL
     else Some (strchr_loop m str ch (nat len) 0) }"

subsection \<open>Copies\<close>

text \<open>The result is the returned pointer and the memory after the call.\<close>

definition memset :: "mem \<Rightarrow> addr \<Rightarrow> int \<Rightarrow> int \<Rightarrow> addr \<times> mem" where
  "memset m dst ch cnt =
     (if cnt < 1 then (NULL, m)
      else (dst, fold (\<lambda>n m. st8 m (dst + of_nat n) (word_of_int ch)) (rev [0..<nat cnt]) m))"

definition memcpy :: "mem \<Rightarrow> addr \<Rightarrow> addr \<Rightarrow> int \<Rightarrow> addr \<times> mem" where
  "memcpy m dst src cnt =
     (if dst = NULL \<or> src = NULL then (NULL, m)
      else if cnt < 1 then (NULL, m)
      else (dst, fold (\<lambda>i m. st8 m (dst + of_nat i) (m (src + of_nat i))) [0..<nat cnt] m))"

definition strncpy :: "mem \<Rightarrow> addr \<Rightarrow> addr \<Rightarrow> int \<Rightarrow> (addr \<times> mem) option" where
  "strncpy m dst src cnt =
     (if dst = NULL \<or> src = NULL then Some (NULL, m)
      else if cnt < 1 then Some (NULL, m)
      else do {
        n \<leftarrow> strlen m src;
        let len = c_min n cnt;
        Some (dst, fold (\<lambda>i m. st8 m (dst + of_nat i) (m (src + of_nat i))) [0..<nat len] m) })"

definition reverse :: "mem \<Rightarrow> addr \<Rightarrow> addr \<Rightarrow> mem option" where
  "reverse m rb str = do {
     len \<leftarrow> strlen m str;
     let n = nat len;
     let m = fold (\<lambda>i m. st8 m (rb + of_nat (n - 1 - i)) (m (str + of_nat i))) [0..<n] m;
     Some (snd (memcpy m str rb len)) }"

subsection \<open>Comparisons\<close>

text \<open>\<open>char\<close> is signed, so the difference of two characters is that of their signed values.\<close>

function strncmp_loop :: "mem \<Rightarrow> addr \<Rightarrow> addr \<Rightarrow> nat \<Rightarrow> nat \<Rightarrow> int" where
  "strncmp_loop m s1 s2 num i =
     (if i < num then
        (let s = sint (m (s1 + of_nat i)) - sint (m (s2 + of_nat i)) in
         if s \<noteq> 0 then s else strncmp_loop m s1 s2 num (Suc i))
      else 0)"
  by pat_completeness auto
termination
  by (relation "measure (\<lambda>(m, s1, s2, num, i). num - i)") auto

declare strncmp_loop.simps [simp del]

definition strncmp :: "mem \<Rightarrow> addr \<Rightarrow> addr \<Rightarrow> int \<Rightarrow> int" where
  "strncmp m s1 s2 num = strncmp_loop m s1 s2 (nat num) 0"

definition strcmp :: "mem \<Rightarrow> addr \<Rightarrow> addr \<Rightarrow> int option" where
  "strcmp m s1 s2 = do {
     n1 \<leftarrow> strlen m s1;
     n2 \<leftarrow> strlen m s2;
     let len = c_min n1 n2;
     if len = 0 then Some (sint (m s1) - sint (m s2))
     else Some (strncmp m s1 s2 len) }"

text \<open>The top-level \<open>string.c\<close> has the loop inside \<open>strcmp\<close>.\<close>

fun strcmp_root_loop :: "mem \<Rightarrow> addr \<Rightarrow> addr \<Rightarrow> nat list \<Rightarrow> int" where
  "strcmp_root_loop m s1 s2 [] = 0"
| "strcmp_root_loop m s1 s2 (i # is) =
     (let s = sint (m (s1 + of_nat i)) - sint (m (s2 + of_nat i)) in
      if s \<noteq> 0 then s else strcmp_root_loop m s1 s2 is)"

definition strcmp_root :: "mem \<Rightarrow> addr \<Rightarrow> addr \<Rightarrow> int option" where
  "strcmp_root m s1 s2 = do {
     n1 \<leftarrow> strlen m s1;
     n2 \<leftarrow> strlen m s2;
     let len = c_min n1 n2;
     if len = 0 then Some (sint (m s1) - sint (m s2))
     else Some (strcmp_root_loop m s1 s2 [0..<nat len]) }"

subsection \<open>strtok\<close>

text \<open>The three \<open>static\<close> variables of \<open>strtok\<close>.\<close>

record strtok_state =
  tk_stk :: addr
  tk_len :: int
  tk_i :: int

text \<open>\<open>for(; i<len; i++) if(stk[i]==delim[0]) { stk[i++]=0; break; }\<close>\<close>

function strtok_loop :: "mem \<Rightarrow> addr \<Rightarrow> u8 \<Rightarrow> int \<Rightarrow> int \<Rightarrow> int \<times> mem" where
  "strtok_loop m stk delim len i =
     (if i < len then
        (if m (stk + word_of_int i) = delim then (i + 1, st8 m (stk + word_of_int i) 0)
         else strtok_loop m stk delim len (i + 1))
      else (i, m))"
  by pat_completeness auto
termination
  by (relation "measure (\<lambda>(m, stk, delim, len, i). nat (len - i))") auto

declare strtok_loop.simps [simp del]

definition strtok :: "mem \<Rightarrow> strtok_state \<Rightarrow> addr \<Rightarrow> addr \<Rightarrow> (addr \<times> mem \<times> strtok_state) option" where
  "strtok m s str delim =
     (if tk_stk s = NULL \<and> str = NULL then Some (NULL, m, s)
      else do {
        s \<leftarrow> (if str \<noteq> NULL then
                 map_option (\<lambda>l. s\<lparr>tk_i := 0, tk_stk := str, tk_len := l\<rparr>) (strlen m str)
               else Some s);
        let tmp = (if tk_i s < tk_len s then tk_stk s + word_of_int (tk_i s) else NULL);
        let (i, m) = strtok_loop m (tk_stk s) (m delim) (tk_len s) (tk_i s);
        Some (tmp, m, s\<lparr>tk_i := i\<rparr>) })"

subsection \<open>Numbers\<close>

abbreviation INT_MAX_DIG :: nat where "INT_MAX_DIG \<equiv> 12"

text \<open>\<open>do { buf[i++] = nxt%10 + '0'; nxt /= 10; } while(nxt);\<close>, \<open>nxt\<close> not negative.\<close>

function itoa_loop :: "mem \<Rightarrow> addr \<Rightarrow> nat \<Rightarrow> nat \<Rightarrow> nat \<times> mem" where
  "itoa_loop m buf i nxt =
     (let m' = st8 m (buf + of_nat i) (of_nat (nxt mod 10) + 48) in
      if nxt div 10 \<noteq> 0 then itoa_loop m' buf (Suc i) (nxt div 10) else (Suc i, m'))"
  by pat_completeness auto
termination
  by (relation "measure (\<lambda>(m, buf, i, nxt). nxt)") auto

declare itoa_loop.simps [simp del]

definition itoa :: "mem \<Rightarrow> addr \<Rightarrow> addr \<Rightarrow> int \<Rightarrow> addr \<Rightarrow> mem option" where
  "itoa m buf rb n s = do {
     nxt \<leftarrow> (if n < 0 then s32_ok (- n) else Some n);
     let m = snd (memset m buf 0 (int INT_MAX_DIG));
     let (i, m) = itoa_loop m buf 0 (nat nxt);
     let m = (if n < 0 then st8 m (buf + of_nat i) 45 else m);
     m \<leftarrow> reverse m rb buf;
     Some (snd (memcpy m s buf (int INT_MAX_DIG))) }"

function itoh_loop :: "mem \<Rightarrow> addr \<Rightarrow> nat \<Rightarrow> nat \<Rightarrow> nat \<times> mem" where
  "itoh_loop m buf i d =
     (let r = d mod 16;
          m' = st8 m (buf + of_nat i) (if r < 10 then of_nat r + 48 else of_nat (r - 10) + 65) in
      if d div 16 \<noteq> 0 then itoh_loop m' buf (Suc i) (d div 16) else (Suc i, m'))"
  by pat_completeness auto
termination
  by (relation "measure (\<lambda>(m, buf, i, d). d)") auto

declare itoh_loop.simps [simp del]

definition itoh :: "mem \<Rightarrow> addr \<Rightarrow> addr \<Rightarrow> u32 \<Rightarrow> addr \<Rightarrow> mem option" where
  "itoh m buf rb n s = do {
     let m = snd (memset m buf 0 (int INT_MAX_DIG));
     let (i, m) = itoh_loop m buf 0 (unat n);
     m \<leftarrow> reverse m rb buf;
     Some (snd (memcpy m s buf (int INT_MAX_DIG))) }"


subsection \<open>Behaviour\<close>

lemma fill_step:
  "k < 2 ^ 32 \<Longrightarrow> st8 (fill m d k v) (d + of_nat k) v = fill m d (Suc k) v"
  by (rule ext) (simp add: st8_def fill_def inside_Suc)

lemma fill_step_down:
  "n < 2 ^ 32 \<Longrightarrow> fill (st8 m (d + of_nat n) v) d n v = fill m d (Suc n) v"
  by (rule ext) (simp add: st8_def fill_def inside_Suc)

lemma memset_loop:
  "n \<le> 2 ^ 32 \<Longrightarrow> fold (\<lambda>n m. st8 m (d + of_nat n) v) (rev [0..<n]) m = fill m d n v"
proof (induction n arbitrary: m)
  case 0
  then show ?case by (simp add: fill_def)
next
  case (Suc n)
  then show ?case by (simp add: fill_step_down)
qed

lemma memset_eq [simp]:
  "1 \<le> cnt \<Longrightarrow> cnt \<le> INT_MAX \<Longrightarrow>
     memset m d ch cnt = (d, fill m d (nat cnt) (word_of_int ch))"
  by (simp add: memset_def memset_loop)

lemma memcpy_loop:
  assumes "apart d n s n" "n \<le> 2 ^ 32"
  shows "k \<le> n \<Longrightarrow>
    fold (\<lambda>i m. st8 m (d + of_nat i) (m (s + of_nat i))) [0..<k] m = blit m d s k"
proof (induction k)
  case 0
  then show ?case by (simp add: blit_def)
next
  case (Suc k)
  have "inside s n (s + of_nat k)" using Suc.prems assms(2) by simp
  then have "\<not> inside d n (s + of_nat k)" using apart_inside [OF assms(1)] by blast
  then have "\<not> inside d k (s + of_nat k)" using Suc.prems by (simp add: inside_def)
  moreover have "k < 2 ^ 32" using Suc.prems assms(2) by simp
  ultimately have "st8 (blit m d s k) (d + of_nat k) (blit m d s k (s + of_nat k))
      = blit m d s (Suc k)"
    by (intro ext) (auto simp: st8_def blit_def inside_Suc)
  then show ?case using Suc by simp
qed

lemma memcpy_eq:
  assumes "d \<noteq> NULL" "s \<noteq> NULL" "1 \<le> cnt" "cnt \<le> INT_MAX" "apart d (nat cnt) s (nat cnt)"
  shows "memcpy m d s cnt = (d, blit m d s (nat cnt))"
  using assms memcpy_loop [OF assms(5), of "nat cnt" m] by (simp add: memcpy_def)

lemma strlen_loop_cstr:
  assumes "cstr m a bs" "length bs \<le> 2147483647" "n \<le> length bs"
  shows "strlen_loop m a n = Some (length bs)"
  using assms(3)
proof (induction "length bs - n" arbitrary: n)
  case 0
  then show ?case using assms by (simp add: strlen_loop.simps [of m a n] cstr_iff)
next
  case (Suc d)
  then have n: "n < length bs" by simp
  then have "m (a + of_nat n) \<noteq> 0" using assms(1) by (metis cstr_iff nth_mem)
  then show ?case using Suc.hyps(1) [of "Suc n"] Suc.hyps(2) n assms(2)
    by (simp add: strlen_loop.simps [of m a n])
qed

lemma strlen_cstr:
  "cstr m a bs \<Longrightarrow> a \<noteq> NULL \<Longrightarrow> length bs < 2147483647 \<Longrightarrow> strlen m a = Some (int (length bs))"
  by (simp add: strlen_def strlen_loop_cstr)

lemma strlen_NULL [simp]: "strlen m NULL = Some 0"
  by (simp add: strlen_def)

lemma strncpy_eq:
  assumes "cstr m src bs" "dst \<noteq> NULL" "src \<noteq> NULL" "1 \<le> cnt" "cnt \<le> INT_MAX"
    "length bs < 2147483647" "apart dst (length bs) src (length bs)" "bs \<noteq> []"
  shows "strncpy m dst src cnt = Some (dst, blit m dst src (min (length bs) (nat cnt)))"
proof -
  have "nat (min (int (length bs)) cnt) = min (length bs) (nat cnt)"
    using assms(4) by auto
  then show ?thesis
    using assms memcpy_loop [OF assms(7), of "min (length bs) (nat cnt)" m]
    by (simp add: strncpy_def strlen_cstr)
qed

text \<open>\<open>reverse\<close> puts the string back to front, in place.\<close>

lemma reverse_loop:
  assumes "apart rb n str n" "n \<le> 2 ^ 32"
  shows "k \<le> n \<Longrightarrow>
    fold (\<lambda>i m. st8 m (rb + of_nat (n - 1 - i)) (m (str + of_nat i))) [0..<k] m =
    (\<lambda>x. if inside rb n x \<and> n - k \<le> unat (x - rb) then m (str + of_nat (n - 1 - unat (x - rb)))
         else m x)"
proof (induction k)
  case 0
  then show ?case by (intro ext) (auto simp: inside_def)
next
  case (Suc k)
  have "inside str n (str + of_nat k)" using Suc.prems assms(2) by simp
  then have out: "\<not> inside rb n (str + of_nat k)" using apart_inside [OF assms(1)] by blast
  have pos: "x = rb + of_nat (n - Suc k) \<longleftrightarrow> unat (x - rb) = n - Suc k" for x
    using Suc.prems assms(2) unat_diff_iff [of "n - Suc k" x rb] by simp
  have "n - Suc (n - Suc k) = k" using Suc.prems by simp
  moreover have "unat (word_of_nat (n - Suc k) :: u32) = n - Suc k"
    using Suc.prems assms(2) by (simp add: unat_of_nat_lt)
  ultimately show ?case using Suc out
    by (intro ext) (auto simp: st8_def pos inside_def)
qed

lemma reverse_correct:
  assumes s: "cstr m str bs" "str \<noteq> NULL" "rb \<noteq> NULL" "length bs < 2147483647"
    and ap: "apart rb (length bs) str (Suc (length bs))"
  shows "\<exists>m'. reverse m rb str = Some m' \<and> cstr m' str (rev bs) \<and>
    (\<forall>x. \<not> inside rb (length bs) x \<longrightarrow> \<not> inside str (length bs) x \<longrightarrow> m' x = m x)"
proof (cases "bs = []")
  case True
  then show ?thesis using s by (simp add: reverse_def strlen_cstr memcpy_def)
next
  case False
  let ?n = "length bs"
  have ap1: "apart rb ?n str ?n" using ap by (simp add: apart_def)
  then have ap2: "apart str ?n rb ?n" by (simp add: apart_sym)
  let ?m1 = "\<lambda>x. if inside rb ?n x then m (str + of_nat (?n - 1 - unat (x - rb))) else m x"
  have loop: "fold (\<lambda>i m. st8 m (rb + of_nat (?n - 1 - i)) (m (str + of_nat i))) [0..<?n] m = ?m1"
    using reverse_loop [OF ap1, of ?n m] s(4) by (auto simp: fun_eq_iff)
  have m': "reverse m rb str = Some (blit ?m1 str rb ?n)"
    using s False loop memcpy_eq [OF s(2,3), of "int ?n" ?m1] ap2
    by (simp add: reverse_def strlen_cstr Let_def Suc_le_eq)
  have end_out: "\<not> inside rb ?n (str + of_nat ?n)"
    using apart_inside [of str "Suc ?n" rb ?n] ap s(4) by (simp add: apart_sym)
  have "cstr (blit ?m1 str rb ?n) str (rev bs)"
    unfolding cstr_iff
  proof (intro conjI allI impI)
    fix i assume i: "i < length (rev bs)"
    then have "blit ?m1 str rb ?n (str + of_nat i) = m (str + of_nat (?n - 1 - i))"
      using s(4) by (simp add: blit_def inside_def unat_of_nat_lt)
    also have "\<dots> = bs ! (?n - 1 - i)" using s(1) i by (simp add: cstr_iff)
    finally show "blit ?m1 str rb ?n (str + of_nat i) = rev bs ! i"
      using i by (simp add: rev_nth)
  next
    have "\<not> inside str ?n (str + of_nat ?n)" using s(4) by (simp add: inside_def unat_of_nat_lt)
    then show "blit ?m1 str rb ?n (str + of_nat (length (rev bs))) = 0"
      using end_out s(1) by (simp add: blit_def cstr_iff)
  qed (use s(1) in \<open>simp add: cstr_iff\<close>)
  with m' show ?thesis by (auto simp: blit_def)
qed


text \<open>
  What \<open>strcmp\<close> computes on strings: the first difference among the characters both strings
  have, so a string and a longer one that starts with it compare equal.
\<close>

fun first_diff :: "u8 list \<Rightarrow> u8 list \<Rightarrow> int" where
  "first_diff (x # xs) (y # ys) = (if x \<noteq> y then sint x - sint y else first_diff xs ys)"
| "first_diff _ _ = 0"

lemma sint_eq_iff [simp]: "sint (x :: u8) = sint y \<longleftrightarrow> x = y"
  using word_eq_iff_signed [of x y] by auto

lemma first_diff_eq_0: "first_diff xs ys = 0 \<longleftrightarrow> take (length ys) xs = take (length xs) ys"
  by (induction xs ys rule: first_diff.induct) auto

lemma first_diff_drop:
  "i < length xs \<Longrightarrow> i < length ys \<Longrightarrow> first_diff (drop i xs) (drop i ys) =
     (if xs ! i \<noteq> ys ! i then sint (xs ! i) - sint (ys ! i)
      else first_diff (drop (Suc i) xs) (drop (Suc i) ys))"
  by (simp add: Cons_nth_drop_Suc [symmetric])

lemma strncmp_loop_correct:
  assumes "\<forall>i<length xs. m (s1 + of_nat i) = xs ! i" "\<forall>i<length ys. m (s2 + of_nat i) = ys ! i"
  shows "i \<le> min (length xs) (length ys) \<Longrightarrow>
    strncmp_loop m s1 s2 (min (length xs) (length ys)) i = first_diff (drop i xs) (drop i ys)"
proof (induction "min (length xs) (length ys) - i" arbitrary: i)
  case 0
  then have "drop i xs = [] \<or> drop i ys = []" by auto
  with 0 show ?case by (auto simp: strncmp_loop.simps [of m s1 s2 _ i])
next
  case (Suc d)
  then have i: "i < length xs" "i < length ys" by auto
  with Suc.hyps(1) [of "Suc i"] Suc.hyps(2) assms show ?case
    by (simp add: strncmp_loop.simps [of m s1 s2 _ i] first_diff_drop Let_def)
qed

lemma strcmp_correct:
  assumes "cstr m s1 xs" "cstr m s2 ys" "s1 \<noteq> NULL" "s2 \<noteq> NULL"
    "length xs < 2147483647" "length ys < 2147483647"
  shows "strcmp m s1 s2 =
    Some (if xs = [] \<or> ys = [] then sint (m s1) - sint (m s2) else first_diff xs ys)"
proof -
  have "nat (min (int (length xs)) (int (length ys))) = min (length xs) (length ys)" by simp
  then show ?thesis
    using assms strncmp_loop_correct [of xs m s1 ys s2 0]
    by (auto simp: strcmp_def strlen_cstr strncmp_def cstr_iff Let_def min_def split: if_splits)
qed

lemma strcmp_root_loop_eq:
  "i \<le> n \<Longrightarrow> strcmp_root_loop m s1 s2 [i..<n] = strncmp_loop m s1 s2 n i"
proof (induction "n - i" arbitrary: i)
  case 0
  then show ?case by (subst strncmp_loop.simps) simp
next
  case (Suc d)
  then have "i < n" by simp
  with Suc.hyps(1) [of "Suc i"] Suc.hyps(2) show ?case
    by (simp add: strncmp_loop.simps [of m s1 s2 n i] upt_conv_Cons Let_def)
qed

lemma strcmp_root_eq: "strcmp_root m s1 s2 = strcmp m s1 s2"
  unfolding strcmp_root_def strcmp_def strncmp_def strcmp_root_loop_eq [OF le0] ..

subsection \<open>Numbers as strings\<close>

fun digs :: "nat \<Rightarrow> nat list" where
  "digs n = (if n div 10 \<noteq> 0 then n mod 10 # digs (n div 10) else [n mod 10])"

fun hexs :: "nat \<Rightarrow> nat list" where
  "hexs n = (if n div 16 \<noteq> 0 then n mod 16 # hexs (n div 16) else [n mod 16])"

declare digs.simps [simp del] hexs.simps [simp del]

definition hexdig :: "nat \<Rightarrow> u8" where
  "hexdig r = (if r < 10 then of_nat r + 48 else of_nat (r - 10) + 65)"

text \<open>The decimal string of an \<open>int\<close> and the hexadecimal one of a \<open>u32\<close>.\<close>

definition dec_string :: "int \<Rightarrow> u8 list" where
  "dec_string n = (if n < 0 then [45] else []) @ rev (map (\<lambda>d. of_nat d + 48) (digs (nat \<bar>n\<bar>)))"

definition hex_string :: "u32 \<Rightarrow> u8 list" where
  "hex_string n = rev (map hexdig (hexs (unat n)))"

definition undec :: "u8 list \<Rightarrow> int" where
  "undec bs =
     (let v = (\<lambda>ds. foldl (\<lambda>a b. 10 * a + (uint b - 48)) 0 ds) in
      if bs \<noteq> [] \<and> hd bs = 45 then - v (tl bs) else v bs)"

lemma digs_lt: "d \<in> set (digs n) \<Longrightarrow> d < 10"
  by (induction n rule: digs.induct) (subst (asm) (2) digs.simps, auto split: if_splits)

lemma hexs_lt: "d \<in> set (hexs n) \<Longrightarrow> d < 16"
  by (induction n rule: hexs.induct) (subst (asm) (2) hexs.simps, auto split: if_splits)

lemma digs_not_Nil [simp]: "digs n \<noteq> []"
  by (subst digs.simps) simp

lemma hexs_not_Nil [simp]: "hexs n \<noteq> []"
  by (subst hexs.simps) simp

lemma length_digs: "0 < k \<Longrightarrow> n < 10 ^ k \<Longrightarrow> length (digs n) \<le> k"
proof (induction k arbitrary: n)
  case 0
  then show ?case by simp
next
  case (Suc k)
  show ?case
  proof (cases "n div 10 = 0")
    case True
    then show ?thesis by (subst digs.simps) simp
  next
    case False
    then have "0 < k" using Suc.prems by (cases k) (auto simp: div_eq_0_iff)
    moreover have "n div 10 < 10 ^ k" using Suc.prems by (simp add: less_mult_imp_div_less)
    ultimately show ?thesis using Suc.IH [of "n div 10"] False by (subst digs.simps) simp
  qed
qed

lemma length_hexs: "0 < k \<Longrightarrow> n < 16 ^ k \<Longrightarrow> length (hexs n) \<le> k"
proof (induction k arbitrary: n)
  case 0
  then show ?case by simp
next
  case (Suc k)
  show ?case
  proof (cases "n div 16 = 0")
    case True
    then show ?thesis by (subst hexs.simps) simp
  next
    case False
    then have "0 < k" using Suc.prems by (cases k) (auto simp: div_eq_0_iff)
    moreover have "n div 16 < 16 ^ k" using Suc.prems by (simp add: less_mult_imp_div_less)
    ultimately show ?thesis using Suc.IH [of "n div 16"] False by (subst hexs.simps) simp
  qed
qed

lemma digit_byte: "d < 10 \<Longrightarrow> unat (of_nat d + 48 :: u8) = d + 48"
  by (simp add: unat_word_ariths unsigned_of_nat take_bit_nat_eq_self)

lemma digit_byte_int: "d < 10 \<Longrightarrow> uint (of_nat d + 48 :: u8) = int d + 48"
  using digit_byte [of d] by (metis of_nat_add of_nat_numeral uint_nat)

lemma undec_digits:
  "foldl (\<lambda>a b. 10 * a + (uint b - 48)) 0 (rev (map (\<lambda>d. of_nat d + 48 :: u8) (digs n))) = int n"
proof (induction n rule: digs.induct)
  case (1 n)
  have "int n = 10 * (int n div 10) + int n mod 10" by simp
  with 1 show ?case by (subst digs.simps) (auto simp: digit_byte_int zdiv_int zmod_int div_eq_0_iff)
qed

lemma undec_dec_string: "undec (dec_string n) = n"
proof -
  have "hd (rev (map (\<lambda>d. of_nat d + 48 :: u8) (digs (nat \<bar>n\<bar>)))) \<noteq> 45"
  proof -
    have "last (digs (nat \<bar>n\<bar>)) < 10" by (rule digs_lt [OF last_in_set]) simp
    then have "unat (of_nat (last (digs (nat \<bar>n\<bar>))) + 48 :: u8) \<noteq> unat (45 :: u8)"
      by (simp add: digit_byte)
    then have "of_nat (last (digs (nat \<bar>n\<bar>))) + 48 \<noteq> (45 :: u8)" by metis
    moreover have "hd (rev (map (\<lambda>d. of_nat d + 48 :: u8) (digs (nat \<bar>n\<bar>)))) =
        of_nat (last (digs (nat \<bar>n\<bar>))) + 48" by (simp add: hd_rev last_map)
    ultimately show ?thesis by metis
  qed
  then show ?thesis by (auto simp: undec_def dec_string_def undec_digits)
qed


lemma put_Cons_offset:
  "length bs < 2 ^ 32 - 1 \<Longrightarrow>
     put (st8 m (a + of_nat i) b) (a + (1 + of_nat i)) bs = put m (a + of_nat i) (b # bs)"
  using put_Cons [of bs m "a + of_nat i" b] by (simp add: ac_simps)

lemma put_single: "put m a [b] = st8 m a b"
  using put_Cons [of "[]" m a b] by simp

lemma itoa_loop_eq:
  "i + length (digs n) < 2 ^ 32 \<Longrightarrow> itoa_loop m buf i n =
     (i + length (digs n), put m (buf + of_nat i) (map (\<lambda>d. of_nat d + 48) (digs n)))"
proof (induction m buf i n rule: itoa_loop.induct)
  case (1 m buf i n)
  show ?case
  proof (cases "n div 10 = 0")
    case True
    then show ?thesis
      by (subst itoa_loop.simps, subst (1 2) digs.simps) (simp add: put_single)
  next
    case False
    then have d: "digs n = n mod 10 # digs (n div 10)" by (subst digs.simps) simp
    with 1 False show ?thesis
      by (subst itoa_loop.simps) (simp add: put_Cons_offset)
  qed
qed

lemma itoh_loop_eq:
  "i + length (hexs n) < 2 ^ 32 \<Longrightarrow> itoh_loop m buf i n =
     (i + length (hexs n), put m (buf + of_nat i) (map hexdig (hexs n)))"
proof (induction m buf i n rule: itoh_loop.induct)
  case (1 m buf i n)
  note step = itoh_loop.simps [of m buf i n, folded hexdig_def]
  show ?case
  proof (cases "n div 16 = 0")
    case True
    then show ?thesis
      by (subst step, subst (1 2) hexs.simps) (simp add: put_single)
  next
    case False
    then have d: "hexs n = n mod 16 # hexs (n div 16)" by (subst hexs.simps) simp
    with 1(2) 1(1) [folded hexdig_def, OF refl refl] False show ?thesis
      by (subst step) (simp add: put_Cons_offset Let_def)
  qed
qed

text \<open>The buffer both printers fill: zeros, then the characters, last digit first.\<close>

lemma cstr_put_fill:
  assumes "length bs < n" "n < 2 ^ 32" "0 \<notin> set bs"
  shows "cstr (put (fill m a n 0) a bs) a bs"
  using assms by (auto simp: cstr_iff put_nth put_def fill_def inside_def unat_of_nat_lt)

lemma cstr_blit:
  assumes "cstr m s bs" "length bs < n" "n < 2 ^ 32"
  shows "cstr (blit m d s n) d bs"
  using assms by (auto simp: cstr_iff blit_def)

lemma print_buffer:
  assumes bs: "length bs < 12" "0 \<notin> set bs"
    and nn: "buf \<noteq> NULL" "rb \<noteq> NULL" "s \<noteq> NULL"
    and ap: "apart rb 12 buf 12" "apart s 12 buf 12"
  shows "\<exists>m'. (do { m \<leftarrow> reverse (put (fill m buf 12 0) buf bs) rb buf;
      Some (snd (memcpy m s buf 12)) }) = Some m' \<and> cstr m' s (rev bs)
      \<and> (\<forall>i<12. length bs \<le> i \<longrightarrow> m' (s + of_nat i) = 0)
      \<and> (\<forall>x. \<not> inside rb 12 x \<longrightarrow> \<not> inside buf 12 x \<longrightarrow> \<not> inside s 12 x \<longrightarrow> m' x = m x)"
proof -
  let ?m1 = "put (fill m buf 12 0) buf bs"
  have "cstr ?m1 buf bs" using bs by (intro cstr_put_fill) auto
  moreover have "apart rb (length bs) buf (Suc (length bs))" using ap(1) bs by (simp add: apart_def)
  ultimately obtain m2 where m2: "reverse ?m1 rb buf = Some m2" "cstr m2 buf (rev bs)"
    "\<forall>x. \<not> inside rb (length bs) x \<longrightarrow> \<not> inside buf (length bs) x \<longrightarrow> m2 x = ?m1 x"
    using reverse_correct [of ?m1 buf bs rb] nn bs by auto
  have "memcpy m2 s buf 12 = (s, blit m2 s buf 12)"
    using nn ap(2) by (subst memcpy_eq) auto
  moreover have "cstr (blit m2 s buf 12) s (rev bs)"
    using m2(2) bs by (intro cstr_blit) auto
  moreover have "blit m2 s buf 12 (s + of_nat i) = 0" if i: "i < 12" "length bs \<le> i" for i
  proof -
    have "inside buf 12 (buf + of_nat i)" using i by simp
    then have "\<not> inside rb 12 (buf + of_nat i)" using apart_inside [OF ap(1)] by blast
    then have "\<not> inside rb (length bs) (buf + of_nat i)" using bs(1) by (simp add: inside_def)
    moreover have "\<not> inside buf (length bs) (buf + of_nat i)" using i by (simp add: inside_def unat_of_nat_lt)
    ultimately have "m2 (buf + of_nat i) = ?m1 (buf + of_nat i)" using m2(3) by blast
    then show ?thesis using i by (simp add: blit_def put_def fill_def inside_def unat_of_nat_lt)
  qed
  moreover have "blit m2 s buf 12 x = m x"
    if "\<not> inside rb 12 x" "\<not> inside buf 12 x" "\<not> inside s 12 x" for x
  proof -
    have "m2 x = ?m1 x" using m2(3) that bs by (simp add: inside_def)
    then show ?thesis using that bs by (simp add: blit_def put_def fill_def inside_def)
  qed
  ultimately show ?thesis using m2(1) by auto
qed

lemma digit_byte_nz: "d < 10 \<Longrightarrow> (of_nat d + 48 :: u8) \<noteq> 0"
  using digit_byte [of d] by (metis add_is_0 unsigned_0 zero_neq_numeral)

lemma hexdig_nz: "d < 16 \<Longrightarrow> hexdig d \<noteq> 0"
proof -
  assume d: "d < 16"
  have "unat (of_nat (d - 10) + 65 :: u8) = d - 10 + 65"
    using d by (simp add: unat_word_ariths unsigned_of_nat take_bit_nat_eq_self)
  then have "(of_nat (d - 10) + 65 :: u8) \<noteq> 0" by (metis add_is_0 unsigned_0 zero_neq_numeral)
  with d show ?thesis by (simp add: hexdig_def digit_byte_nz)
qed

lemma dec_bytes_nz: "0 \<notin> (\<lambda>d. of_nat d + 48 :: u8) ` set (digs n)"
  by (metis (no_types, lifting) digs_lt digit_byte_nz imageE)

lemma hex_bytes_nz: "0 \<notin> hexdig ` set (hexs n)"
  by (metis hexs_lt hexdig_nz imageE)

text \<open>
  \<open>itoa\<close> leaves the decimal string at \<open>s\<close> and changes nothing but \<open>s\<close> and its own buffers; the
  smallest \<open>int\<close>, whose negation overflows, has no result.
\<close>

lemma itoa_correct:
  assumes n: "INT_MIN < n" "n \<le> INT_MAX"
    and nn: "buf \<noteq> NULL" "rb \<noteq> NULL" "s \<noteq> NULL"
    and ap: "apart rb 12 buf 12" "apart s 12 buf 12"
  shows "\<exists>m'. itoa m buf rb n s = Some m' \<and> cstr m' s (dec_string n) \<and> length (dec_string n) < 12
      \<and> (\<forall>i<12. length (dec_string n) \<le> i \<longrightarrow> m' (s + of_nat i) = 0)
      \<and> (\<forall>x. \<not> inside rb 12 x \<longrightarrow> \<not> inside buf 12 x \<longrightarrow> \<not> inside s 12 x \<longrightarrow> m' x = m x)"
proof -
  let ?ds = "map (\<lambda>d. of_nat d + 48 :: u8) (digs (nat \<bar>n\<bar>))"
  let ?bs = "?ds @ (if n < 0 then [45] else [])"
  have len: "length (digs (nat \<bar>n\<bar>)) \<le> 10"
  proof (rule length_digs)
    have "nat \<bar>n\<bar> < 2147483648" using n by linarith
    also have "(2147483648 :: nat) < 10 ^ 10" by simp
    finally show "nat \<bar>n\<bar> < 10 ^ 10" .
  qed simp
  have z: "0 \<notin> set ?bs" using dec_bytes_nz by simp
  have lt: "length ?bs < 12" using len by (cases "n < 0") simp_all
  from print_buffer [OF lt z nn ap, of m] obtain m' where m': "(do { m \<leftarrow> reverse (put (fill m buf 12 0) buf ?bs) rb buf;
      Some (snd (memcpy m s buf 12)) }) = Some m'" "cstr m' s (rev ?bs)" "\<forall>i<12. length ?bs \<le> i \<longrightarrow> m' (s + of_nat i) = 0"
      "\<forall>x. \<not> inside rb 12 x \<longrightarrow> \<not> inside buf 12 x \<longrightarrow> \<not> inside s 12 x \<longrightarrow> m' x = m x"
    by blast
  have "(if n < 0 then s32_ok (- n) else Some n) = Some \<bar>n\<bar>" using n by (simp add: s32_ok_def)
  moreover have "itoa_loop (fill m buf 12 0) buf 0 (nat \<bar>n\<bar>) =
      (length (digs (nat \<bar>n\<bar>)), put (fill m buf 12 0) buf ?ds)"
    using itoa_loop_eq [of 0 "nat \<bar>n\<bar>" "fill m buf 12 0" buf] len by simp
  moreover have "st8 (put (fill m buf 12 0) buf ?ds) (buf + of_nat (length (digs (nat \<bar>n\<bar>)))) 45
      = put (fill m buf 12 0) buf (?ds @ [45])"
    using put_snoc [of ?ds "fill m buf 12 0" buf 45] len by simp
  ultimately have "itoa m buf rb n s = Some m'"
    using m'(1) by (cases "n < 0") (simp_all add: itoa_def Let_def)
  moreover have "dec_string n = rev ?bs" by (simp add: dec_string_def)
  ultimately show ?thesis using m'(2,3,4) lt by (intro exI [of _ m']) (simp del: length_map)
qed

lemma itoh_correct:
  assumes nn: "buf \<noteq> NULL" "rb \<noteq> NULL" "s \<noteq> NULL"
    and ap: "apart rb 12 buf 12" "apart s 12 buf 12"
  shows "\<exists>m'. itoh m buf rb n s = Some m' \<and> cstr m' s (hex_string n) \<and> length (hex_string n) < 12
      \<and> (\<forall>i<12. length (hex_string n) \<le> i \<longrightarrow> m' (s + of_nat i) = 0)
      \<and> (\<forall>x. \<not> inside rb 12 x \<longrightarrow> \<not> inside buf 12 x \<longrightarrow> \<not> inside s 12 x \<longrightarrow> m' x = m x)"
proof -
  let ?bs = "map hexdig (hexs (unat n))"
  have "unat n < 16 ^ 8" using unsigned_less [of n] by simp
  then have len: "length (hexs (unat n)) \<le> 8" by (rule length_hexs [rotated]) (rule zero_less_numeral)
  have z: "0 \<notin> set ?bs" using hex_bytes_nz by simp
  have lt: "length ?bs < 12" using len by simp
  from print_buffer [OF lt z nn ap, of m] obtain m' where m': "(do { m \<leftarrow> reverse (put (fill m buf 12 0) buf ?bs) rb buf;
      Some (snd (memcpy m s buf 12)) }) = Some m'" "cstr m' s (rev ?bs)" "\<forall>i<12. length ?bs \<le> i \<longrightarrow> m' (s + of_nat i) = 0"
      "\<forall>x. \<not> inside rb 12 x \<longrightarrow> \<not> inside buf 12 x \<longrightarrow> \<not> inside s 12 x \<longrightarrow> m' x = m x"
    by blast
  have "itoh_loop (fill m buf 12 0) buf 0 (unat n) =
      (length (hexs (unat n)), put (fill m buf 12 0) buf ?bs)"
    using itoh_loop_eq [of 0 "unat n" "fill m buf 12 0" buf] len by simp
  then have "itoh m buf rb n s = Some m'"
    using m'(1) by (auto simp: itoh_def Let_def)
  moreover have "hex_string n = rev ?bs" by (simp add: hex_string_def)
  ultimately show ?thesis using m'(2,3,4) lt by (intro exI [of _ m']) (simp del: length_map)
qed

end
