(* ===== verification/Lists.thy ===== *)
theory Lists
  imports Prelude
begin

text \<open>
  \<open>list.c\<close>: the circular doubly linked list through nodes that live inside other structures.  A
  node is 8 bytes, \<open>next\<close> at offset 0 and \<open>prev\<close> at offset 4.  The definitions follow the copy of
  the 32-bit kernel; \<open>list_get_root\<close> and \<open>list_add_root\<close> are the ones of the older top-level file
  where the two differ.  The locale \<open>node_queue\<close> states what the allocator's page lists and the
  scheduler's ready list rely on.
\<close>

definition l_next :: "mem \<Rightarrow> addr \<Rightarrow> addr" where "l_next m p = ld32 m p"
definition l_prev :: "mem \<Rightarrow> addr \<Rightarrow> addr" where "l_prev m p = ld32 m (p + 4)"
definition set_next :: "mem \<Rightarrow> addr \<Rightarrow> addr \<Rightarrow> mem" where "set_next m p v = st32 m p v"
definition set_prev :: "mem \<Rightarrow> addr \<Rightarrow> addr \<Rightarrow> mem" where "set_prev m p v = st32 m (p + 4) v"

subsection \<open>Operations\<close>

definition list_init_head :: "mem \<Rightarrow> addr \<Rightarrow> mem" where
  "list_init_head m head =
     (let m = set_prev m head head;
          m = set_next m head head in m)"

definition list_add_head :: "mem \<Rightarrow> addr \<Rightarrow> addr \<Rightarrow> addr \<times> mem" where
  "list_add_head m head new =
     (if head = NULL \<or> new = NULL then (NULL, m)
      else
        let m = set_prev m new head;
            m = set_next m new (l_next m head);
            m = set_prev m (l_next m head) new;
            m = set_next m head new
        in (new, m))"

definition list_add_root :: "mem \<Rightarrow> addr \<Rightarrow> addr \<Rightarrow> addr \<times> mem" where
  "list_add_root m head new =
     (if head = NULL \<or> new = NULL then (NULL, m)
      else
        let m = set_prev m new (l_prev m head);
            m = set_next m new head;
            m = set_next m (l_prev m head) new;
            m = set_prev m head new
        in (new, m))"

definition list_add :: "mem \<Rightarrow> addr \<Rightarrow> addr \<Rightarrow> addr \<times> mem" where
  "list_add m head new =
     (if head = NULL \<or> new = NULL then (NULL, m)
      else if l_prev m head = NULL \<or> l_next m head = NULL then (NULL, m)
      else
        let m = set_prev m new (l_prev m head);
            m = set_next m new head;
            m = set_next m (l_prev m head) new;
            m = set_prev m head new
        in (new, m))"

definition list_del :: "mem \<Rightarrow> addr \<Rightarrow> addr \<Rightarrow> addr \<times> mem" where
  "list_del m head node =
     (if head = NULL \<or> node = NULL then (NULL, m)
      else if l_prev m head = head \<and> l_next m head = head then (NULL, m)
      else
        let m = set_prev m (l_next m node) (l_prev m node);
            m = set_next m (l_prev m node) (l_next m node)
        in (node, m))"

definition list_get :: "mem \<Rightarrow> addr \<Rightarrow> addr \<times> mem" where
  "list_get m head =
     (if head = NULL then (NULL, m)
      else if l_prev m head = head \<and> l_next m head = head then (NULL, m)
      else
        let node = l_next m head;
            m = set_next m head (l_next m (l_next m head));
            m = set_prev m (l_next m head) head
        in (node, m))"

text \<open>The top-level \<open>list.c\<close> follows the new \<open>head->next\<close> once more before it stores \<open>head\<close>.\<close>

definition list_get_root :: "mem \<Rightarrow> addr \<Rightarrow> addr \<times> mem" where
  "list_get_root m head =
     (if head = NULL then (NULL, m)
      else if l_prev m head = head \<and> l_next m head = head then (NULL, m)
      else
        let node = l_next m head;
            m = set_next m head (l_next m (l_next m head));
            m = set_prev m (l_next m (l_next m head)) head
        in (node, m))"

text \<open>The nodes \<open>list_for_each\<close> visits; \<open>None\<close> where the chain never comes back to the head.\<close>

partial_function (option) list_nodes :: "mem \<Rightarrow> addr \<Rightarrow> addr \<Rightarrow> addr list option" where
  "list_nodes m head node =
     (if node \<noteq> NULL \<and> node \<noteq> head
      then do { ns \<leftarrow> list_nodes m head (l_next m node); Some (node # ns) }
      else Some [])"

definition list_for_each :: "mem \<Rightarrow> addr \<Rightarrow> addr list option" where
  "list_for_each m head = list_nodes m head (l_next m head)"

subsection \<open>The list a head stands for\<close>

definition nodes_ok :: "addr list \<Rightarrow> bool" where
  "nodes_ok ns \<longleftrightarrow> 0 \<notin> set ns \<and> sorted_wrt (\<lambda>a b. apart a 8 b 8) ns"

fun dseg :: "mem \<Rightarrow> addr \<Rightarrow> addr list \<Rightarrow> addr \<Rightarrow> bool" where
  "dseg m p [] q \<longleftrightarrow> l_next m p = q \<and> l_prev m q = p"
| "dseg m p (x # xs) q \<longleftrightarrow> l_next m p = x \<and> l_prev m x = p \<and> dseg m x xs q"

definition dlist :: "mem \<Rightarrow> addr \<Rightarrow> addr list \<Rightarrow> bool" where
  "dlist m head xs \<longleftrightarrow> dseg m head xs head \<and> nodes_ok (head # xs)"

text \<open>Two nodes are the same one or do not overlap.\<close>

definition sep :: "addr \<Rightarrow> addr \<Rightarrow> bool" where
  "sep a b \<longleftrightarrow> a = b \<or> apart a 8 b 8"

lemma sep_refl [simp]: "sep a a"
  by (simp add: sep_def)

lemma sep_sym: "sep a b \<longleftrightarrow> sep b a"
  by (auto simp: sep_def apart_sym)

lemma sep_fields:
  assumes "apart a 8 b 8"
  shows "apart a 4 b 4" "apart a 4 (b + 4) 4" "apart (a + 4) 4 b 4" "apart (a + 4) 4 (b + 4) 4"
  using apart_sub [OF assms, of 0 4 0 4] apart_sub [OF assms, of 0 4 4 4]
    apart_sub [OF assms, of 4 4 0 4] apart_sub [OF assms, of 4 4 4 4] by simp_all

lemma own_fields: "apart a 4 (a + 4) 4" "apart (a + 4) 4 a 4"
  by (simp_all add: apart_def)

lemma next_set_next: "sep a b \<Longrightarrow> l_next (set_next m a v) b = (if b = a then v else l_next m b)"
  by (auto simp: sep_def l_next_def set_next_def ld32_st32_apart dest: sep_fields simp: apart_sym)

lemma next_set_prev: "sep a b \<Longrightarrow> l_next (set_prev m a v) b = l_next m b"
  unfolding sep_def l_next_def set_prev_def
  by (metis ld32_st32_apart sep_fields(2) own_fields(1) apart_sym)

lemma prev_set_next: "sep a b \<Longrightarrow> l_prev (set_next m a v) b = l_prev m b"
  unfolding sep_def l_prev_def set_next_def
  by (metis ld32_st32_apart sep_fields(3) own_fields(2) apart_sym)

lemma prev_set_prev: "sep a b \<Longrightarrow> l_prev (set_prev m a v) b = (if b = a then v else l_prev m b)"
  unfolding sep_def l_prev_def set_prev_def
  by (metis ld32_st32_apart sep_fields(4) apart_sym ld32_st32)

lemmas node_upd = next_set_next next_set_prev prev_set_next prev_set_prev

lemma nodes_ok_sep: "nodes_ok ns \<Longrightarrow> a \<in> set ns \<Longrightarrow> b \<in> set ns \<Longrightarrow> sep a b"
  unfolding nodes_ok_def sep_def in_set_conv_nth sorted_wrt_iff_nth_less
  by (metis apart_sym linorder_neqE_nat)

lemma nodes_ok_distinct: "nodes_ok ns \<Longrightarrow> distinct ns"
  unfolding nodes_ok_def
  by (induction ns) auto

lemma nodes_ok_append:
  "nodes_ok (xs @ ys) \<longleftrightarrow> nodes_ok xs \<and> nodes_ok ys \<and> (\<forall>x\<in>set xs. \<forall>y\<in>set ys. apart x 8 y 8)"
  by (auto simp: nodes_ok_def sorted_wrt_append)

lemma nodes_ok_Cons:
  "nodes_ok (x # xs) \<longleftrightarrow> x \<noteq> 0 \<and> (\<forall>y\<in>set xs. apart x 8 y 8) \<and> nodes_ok xs"
  by (auto simp: nodes_ok_def)

lemma dseg_append: "dseg m p (xs @ y # ys) q \<longleftrightarrow> dseg m p xs y \<and> dseg m y ys q"
  by (induction xs arbitrary: p) auto

lemma dseg_cong:
  assumes "\<forall>x\<in>set (p # xs). l_next m' x = l_next m x" "\<forall>x\<in>set (xs @ [q]). l_prev m' x = l_prev m x"
  shows "dseg m' p xs q = dseg m p xs q"
  using assms by (induction xs arbitrary: p) auto

lemma dlist_init: "head \<noteq> NULL \<Longrightarrow> dlist (list_init_head m head) head []"
  by (simp add: dlist_def list_init_head_def node_upd nodes_ok_def)

lemma dseg_last: "dseg m p xs q \<Longrightarrow> l_prev m q = last (p # xs)"
  by (induction xs arbitrary: p) auto

lemma dseg_next: "dseg m p xs q \<Longrightarrow> l_next m p = hd (xs @ [q])"
  by (cases xs) auto

lemma dlist_empty_iff:
  assumes "dlist m head xs"
  shows "l_prev m head = head \<and> l_next m head = head \<longleftrightarrow> xs = []"
proof -
  have d: "dseg m head xs head" "head \<notin> set xs"
    using assms nodes_ok_distinct [of "head # xs"] by (simp_all add: dlist_def)
  show ?thesis
  proof (cases xs)
    case Nil
    with d show ?thesis by simp
  next
    case (Cons y ys)
    with d have "l_next m head = y" "y \<noteq> head" by auto
    with Cons show ?thesis by simp
  qed
qed

lemma dlist_nonnull: "dlist m head xs \<Longrightarrow> head \<noteq> NULL \<and> l_prev m head \<noteq> NULL \<and> l_next m head \<noteq> NULL"
proof -
  assume a: "dlist m head xs"
  then have "0 \<notin> set (head # xs)" by (simp add: dlist_def nodes_ok_def)
  moreover have "l_prev m head \<in> set (head # xs)" "l_next m head \<in> set (head # xs)"
    using a dseg_last [of m head xs head] dseg_next [of m head xs head]
    by (auto simp: dlist_def hd_append)
  ultimately show ?thesis by (metis list.set_intros(1))
qed

text \<open>A new node goes to the end of the list.\<close>

lemma list_add_stores:
  assumes d: "dlist m head xs" and ok: "nodes_ok (head # xs @ [new])"
  defines "l \<equiv> l_prev m head"
  defines "m' \<equiv> set_prev (set_next (set_next (set_prev m new l) new head) l new) head new"
  shows "dlist m' head (xs @ [new])"
proof -
  have l: "l = last (head # xs)" using d dseg_last by (simp add: dlist_def l_def)
  then have lin: "l \<in> set (head # xs)" by (metis last_in_set list.distinct(1))
  let ?N = "head # xs @ [new]"
  have sp: "a \<in> set ?N \<Longrightarrow> b \<in> set ?N \<Longrightarrow> sep a b" for a b
    using nodes_ok_sep [OF ok] by blast
  have dist: "new \<notin> set (head # xs)" "head \<notin> set xs" "distinct xs"
    using nodes_ok_distinct [OF ok] by auto
  have nx: "l_next m' x = (if x = l then new else if x = new then head else l_next m x)"
    if "x \<in> set ?N" for x
    using that lin sp dist unfolding m'_def by (auto simp: node_upd)
  have pv: "l_prev m' x = (if x = head then new else if x = new then l else l_prev m x)"
    if "x \<in> set ?N" for x
    using that lin sp dist unfolding m'_def by (auto simp: node_upd)
  have "dseg m' head (xs @ [new]) head"
  proof (cases xs rule: rev_cases)
    case Nil
    then show ?thesis using nx pv dist l by (auto simp: dseg_append)
  next
    case (snoc ys y)
    then have y: "l = y" using l by simp
    have "dseg m head ys y" "l_prev m y = last (head # ys)"
      using d snoc dseg_append [of m head ys y "[]" head] dseg_last [of m head ys y]
      by (auto simp: dlist_def)
    moreover have "dseg m' head ys y = dseg m head ys y"
      by (rule dseg_cong) (use snoc y dist nx pv in auto)
    ultimately show ?thesis
      using nx pv dist snoc y by (auto simp: dseg_append)
  qed
  with ok show ?thesis by (simp add: dlist_def)
qed

lemma list_add_correct:
  assumes "dlist m head xs" "nodes_ok (head # xs @ [new])"
  shows "fst (list_add m head new) = new \<and> dlist (snd (list_add m head new)) head (xs @ [new])"
proof -
  have "new \<noteq> NULL" using assms(2) by (auto simp: nodes_ok_def)
  moreover have "l_prev (set_next (set_prev m new (l_prev m head)) new head) head = l_prev m head"
    using nodes_ok_sep [OF assms(2), of new head] assms(2) nodes_ok_distinct [OF assms(2)]
    by (auto simp: node_upd)
  ultimately show ?thesis
    using list_add_stores [OF assms] dlist_nonnull [OF assms(1)]
    by (simp add: list_add_def Let_def)
qed

text \<open>The first node leaves the list.\<close>

lemma list_get_correct:
  assumes d: "dlist m head (x # xs)"
  shows "fst (list_get m head) = x \<and> dlist (snd (list_get m head)) head xs"
proof -
  let ?N = "head # x # xs"
  have ok: "nodes_ok ?N" using d by (simp add: dlist_def)
  have sp: "a \<in> set ?N \<Longrightarrow> b \<in> set ?N \<Longrightarrow> sep a b" for a b
    using nodes_ok_sep [OF ok] by blast
  have dist: "head \<notin> set (x # xs)" "x \<notin> set xs" "distinct xs" using nodes_ok_distinct [OF ok] by auto
  define y where "y = l_next m x"
  have nxt: "l_next m head = x" and seg: "dseg m x xs head" using d by (simp_all add: dlist_def)
  have y: "y = hd (xs @ [head])" using dseg_next [OF seg] by (simp add: y_def)
  then have yin: "y \<in> set ?N" by (cases xs) auto
  define m1 where "m1 = set_next m head y"
  define m2 where "m2 = set_prev m1 (l_next m1 head) head"
  have n1: "l_next m1 head = y" by (simp add: m1_def node_upd)
  have nx: "l_next m2 a = (if a = head then y else l_next m a)" if "a \<in> set ?N" for a
    using that yin sp n1 unfolding m2_def m1_def by (auto simp: node_upd)
  have pv: "l_prev m2 a = (if a = y then head else l_prev m a)" if "a \<in> set ?N" for a
    using that yin sp n1 unfolding m2_def m1_def by (auto simp: node_upd)
  have "list_get m head = (x, m2)"
    using dlist_empty_iff [OF d] dlist_nonnull [OF d] nxt
    by (simp add: list_get_def Let_def m2_def m1_def y_def)
  moreover have "dseg m2 head xs head"
  proof (cases xs)
    case Nil
    then show ?thesis using y nx pv by simp
  next
    case (Cons z zs)
    have "dseg m2 z zs head = dseg m z zs head"
      by (rule dseg_cong) (use Cons dist nx pv y in auto)
    then show ?thesis using Cons seg y nx pv by simp
  qed
  ultimately show ?thesis using ok by (auto simp: dlist_def nodes_ok_def)
qed

lemma list_get_empty: "dlist m head [] \<Longrightarrow> list_get m head = (NULL, m)"
  using dlist_empty_iff [of m head "[]"] by (auto simp: list_get_def)

lemma list_del_correct:
  assumes d: "dlist m head (xs @ x # ys)"
  shows "fst (list_del m head x) = x \<and> dlist (snd (list_del m head x)) head (xs @ ys)"
proof -
  let ?N = "head # xs @ x # ys"
  have ok: "nodes_ok ?N" using d by (simp add: dlist_def)
  have sp: "a \<in> set ?N \<Longrightarrow> b \<in> set ?N \<Longrightarrow> sep a b" for a b
    using nodes_ok_sep [OF ok] by blast
  have dist: "distinct ?N" by (rule nodes_ok_distinct [OF ok])
  have segs: "dseg m head xs x" "dseg m x ys head"
    using d by (simp_all add: dlist_def dseg_append)
  define p q where "p = l_prev m x" and "q = l_next m x"
  have p: "p = last (head # xs)" using dseg_last [OF segs(1)] by (simp add: p_def)
  have q: "q = hd (ys @ [head])" using dseg_next [OF segs(2)] by (simp add: q_def)
  have pin: "p \<in> set (head # xs)" using p by (metis last_in_set list.distinct(1))
  have qin: "q \<in> set (ys @ [head])" using q by (cases ys) auto
  have pN: "p \<in> set ?N" and qN: "q \<in> set ?N" using pin qin by auto
  have ne: "p \<noteq> x" "q \<noteq> x" using pin qin dist by auto
  define m1 where "m1 = set_prev m q p"
  define m2 where "m2 = set_next m1 p q"
  have nx: "l_next m2 a = (if a = p then q else l_next m a)" if "a \<in> set ?N" for a
    using that pN qN sp unfolding m2_def m1_def by (auto simp: node_upd)
  have pv: "l_prev m2 a = (if a = q then p else l_prev m a)" if "a \<in> set ?N" for a
    using that pN qN sp unfolding m2_def m1_def by (auto simp: node_upd)
  have x1: "l_prev m1 x = p" "l_next m1 x = q"
    using sp [OF qN, of x] ne by (auto simp: m1_def node_upd p_def q_def)
  have "list_del m head x = (x, m2)"
    using dlist_empty_iff [OF d] dlist_nonnull [OF d] ok x1
    by (auto simp: list_del_def Let_def m2_def m1_def p_def [symmetric] q_def [symmetric] nodes_ok_def)
  moreover have "dseg m2 p ys head"
  proof (cases ys)
    case Nil
    then show ?thesis using q nx pv pN by auto
  next
    case (Cons z zs)
    have "dseg m2 z zs head = dseg m z zs head"
      by (rule dseg_cong) (use Cons dist pin nx pv q in auto)
    then show ?thesis using Cons segs(2) q nx pv pN by auto
  qed
  moreover have "dseg m2 head (xs @ ys) head" if "dseg m2 p ys head"
  proof (cases xs rule: rev_cases)
    case Nil
    then show ?thesis using that p by simp
  next
    case (snoc as w)
    have "dseg m2 head as w = dseg m head as w"
      by (rule dseg_cong) (use snoc dist qin nx pv p in auto)
    then show ?thesis using that snoc segs(1) p by (simp add: dseg_append)
  qed
  moreover have "nodes_ok (head # xs @ ys)"
    using ok by (simp add: nodes_ok_Cons nodes_ok_append)
  ultimately show ?thesis by (simp add: dlist_def)
qed


lemma list_add_head_correct:
  assumes d: "dlist m head xs" and ok: "nodes_ok (head # new # xs)"
  shows "fst (list_add_head m head new) = new \<and> dlist (snd (list_add_head m head new)) head (new # xs)"
proof -
  let ?N = "head # new # xs"
  have sp: "a \<in> set ?N \<Longrightarrow> b \<in> set ?N \<Longrightarrow> sep a b" for a b
    using nodes_ok_sep [OF ok] by blast
  have dist: "distinct ?N" by (rule nodes_ok_distinct [OF ok])
  have seg: "dseg m head xs head" using d by (simp add: dlist_def)
  define q where "q = l_next m head"
  have q: "q = hd (xs @ [head])" using dseg_next [OF seg] by (simp add: q_def)
  then have qin: "q \<in> set (xs @ [head])" by (cases xs) auto
  then have qN: "q \<in> set ?N" by auto
  define m1 where "m1 = set_next (set_prev m new head) new q"
  define m2 where "m2 = set_next (set_prev m1 q new) head new"
  have nx: "l_next m2 a = (if a = head then new else if a = new then q else l_next m a)"
    if "a \<in> set ?N" for a
    using that qN sp dist unfolding m2_def m1_def by (auto simp: node_upd)
  have pv: "l_prev m2 a = (if a = q then new else if a = new then head else l_prev m a)"
    if "a \<in> set ?N" for a
    using that qN sp dist unfolding m2_def m1_def by (auto simp: node_upd)
  have "l_next (set_prev m new head) head = q" "l_next m1 head = q"
    using sp [of new head] dist by (auto simp: m1_def node_upd q_def)
  then have "list_add_head m head new = (new, m2)"
    using dlist_nonnull [OF d] ok
    by (simp add: list_add_head_def Let_def m2_def m1_def nodes_ok_def)
  moreover have "dseg m2 new xs head"
  proof (cases xs)
    case Nil
    then show ?thesis using q nx pv dist by auto
  next
    case (Cons z zs)
    have "dseg m2 z zs head = dseg m z zs head"
      by (rule dseg_cong) (use Cons dist nx pv q in auto)
    then show ?thesis using Cons seg q nx pv dist by auto
  qed
  moreover have "new \<noteq> q" using qin dist by auto
  ultimately show ?thesis using ok nx [of head] pv [of new] dist by (auto simp: dlist_def)
qed

text \<open>
  The top-level \<open>list_get\<close> stores the head in the \<open>prev\<close> of the second remaining node: the first
  one still points back at the node that left, so the chain is no list any more.
\<close>

lemma list_get_root_breaks:
  assumes d: "dlist m head (x # y # xs)"
  shows "fst (list_get_root m head) = x \<and> l_prev (snd (list_get_root m head)) y = x
    \<and> \<not> dlist (snd (list_get_root m head)) head (y # xs)"
proof -
  let ?N = "head # x # y # xs"
  have ok: "nodes_ok ?N" using d by (simp add: dlist_def)
  have sp: "a \<in> set ?N \<Longrightarrow> b \<in> set ?N \<Longrightarrow> sep a b" for a b
    using nodes_ok_sep [OF ok] by blast
  have dist: "distinct ?N" by (rule nodes_ok_distinct [OF ok])
  have seg: "dseg m y xs head" and n: "l_next m head = x" "l_next m x = y" "l_prev m y = x"
    using d by (simp_all add: dlist_def)
  define z where "z = l_next m y"
  have "z \<in> set (xs @ [head])" using dseg_next [OF seg] by (cases xs) (auto simp: z_def)
  then have zN: "z \<in> set ?N" and zy: "z \<noteq> y" using dist by auto
  define m1 where "m1 = set_next m head y"
  have m1: "l_next m1 head = y" "l_next m1 y = z"
    using sp dist by (auto simp: m1_def node_upd z_def)
  have g: "list_get_root m head = (x, set_prev m1 z head)"
    using dlist_empty_iff [OF d] dlist_nonnull [OF d] n m1
    by (simp add: list_get_root_def Let_def m1_def)
  moreover have "l_prev (set_prev m1 z head) y = x"
    using sp zN zy n by (auto simp: m1_def node_upd)
  ultimately show ?thesis using dist by (auto simp: dlist_def)
qed

lemma list_nodes_dseg:
  assumes "dseg m p xs head" "NULL \<notin> set xs" "head \<notin> set xs"
  shows "list_nodes m head (l_next m p) = Some xs"
  using assms
proof (induction xs arbitrary: p)
  case Nil
  then show ?case by (simp add: list_nodes.simps [of m head head])
next
  case (Cons x xs)
  then show ?case by (auto simp: list_nodes.simps [of m head x])
qed

lemma list_for_each_dlist: "dlist m head xs \<Longrightarrow> list_for_each m head = Some xs"
  using nodes_ok_distinct [of "head # xs"]
  by (auto simp: list_for_each_def dlist_def nodes_ok_def intro!: list_nodes_dseg)

text \<open>Nothing outside the nodes of a list and the new node changes.\<close>

definition in_nodes :: "addr list \<Rightarrow> addr \<Rightarrow> bool" where
  "in_nodes ns x \<longleftrightarrow> (\<exists>a\<in>set ns. inside a 8 x)"

lemma set_next_other: "\<not> inside a 8 x \<Longrightarrow> set_next m a v x = m x"
  unfolding set_next_def by (rule st32_other) (simp add: inside_def)

lemma set_prev_other: "\<not> inside a 8 x \<Longrightarrow> set_prev m a v x = m x"
  unfolding set_prev_def using inside_offset [of a 4 4 x 8] by (auto intro!: st32_other)

lemma dlist_cong:
  assumes "\<And>x. in_nodes (head # xs) x \<Longrightarrow> m x = m' x"
  shows "dlist m head xs \<longleftrightarrow> dlist m' head xs"
proof -
  have nx: "l_next m a = l_next m' a" if "a \<in> set (head # xs)" for a
    unfolding l_next_def using that
    by (intro ld32_cong assms) (auto simp: in_nodes_def dest: inside_mono [of _ 4 _ 8])
  have pv: "l_prev m a = l_prev m' a" if "a \<in> set (head # xs)" for a
    unfolding l_prev_def using that inside_offset [of a 4 4 _ 8]
    by (intro ld32_cong assms) (auto simp: in_nodes_def)
  have "dseg m head xs head = dseg m' head xs head" by (rule dseg_cong) (use nx pv in auto)
  then show ?thesis unfolding dlist_def by simp
qed


subsection \<open>The queue interface\<close>

text \<open>
  Callers use a list as a queue: append at one end, take from the other.  \<open>rep m h xs\<close> says that
  the head \<open>h\<close> stands for \<open>xs\<close> in memory \<open>m\<close>, \<open>ok\<close> that the nodes do not overlap.
\<close>

definition push_all :: "(mem \<Rightarrow> addr \<Rightarrow> addr \<Rightarrow> addr \<times> mem) \<Rightarrow> mem \<Rightarrow> addr \<Rightarrow> addr list \<Rightarrow> mem" where
  "push_all enq m h ns = fold (\<lambda>n m. snd (enq m h n)) ns m"

fun pop_all :: "(mem \<Rightarrow> addr \<Rightarrow> addr \<times> mem) \<Rightarrow> mem \<Rightarrow> addr \<Rightarrow> nat \<Rightarrow> addr list \<times> mem" where
  "pop_all deq m h 0 = ([], m)"
| "pop_all deq m h (Suc k) =
     (let (x, m) = deq m h; (xs, m) = pop_all deq m h k in (x # xs, m))"

locale node_queue =
  fixes enq :: "mem \<Rightarrow> addr \<Rightarrow> addr \<Rightarrow> addr \<times> mem"
    and deq :: "mem \<Rightarrow> addr \<Rightarrow> addr \<times> mem"
    and rep :: "mem \<Rightarrow> addr \<Rightarrow> addr list \<Rightarrow> bool"
    and ok :: "addr list \<Rightarrow> bool"
  assumes enq_rep: "rep m h xs \<Longrightarrow> ok (h # xs @ [n]) \<Longrightarrow>
      fst (enq m h n) = n \<and> rep (snd (enq m h n)) h (xs @ [n])"
    and deq_rep: "rep m h (x # xs) \<Longrightarrow> fst (deq m h) = x \<and> rep (snd (deq m h)) h xs"
    and deq_empty: "rep m h [] \<Longrightarrow> deq m h = (NULL, m)"
    and ok_prefix: "ok (xs @ ys) \<Longrightarrow> ok xs"
begin

lemma push_all_rep: "rep m h xs \<Longrightarrow> ok (h # xs @ ns) \<Longrightarrow> rep (push_all enq m h ns) h (xs @ ns)"
proof (induction ns arbitrary: m xs)
  case Nil
  then show ?case by (simp add: push_all_def)
next
  case (Cons n ns)
  have "ok (h # xs @ [n])" using ok_prefix [of "h # xs @ [n]" ns] Cons.prems(2) by simp
  then have "rep (snd (enq m h n)) h (xs @ [n])" using enq_rep Cons.prems(1) by blast
  then show ?case using Cons.IH [of "snd (enq m h n)" "xs @ [n]"] Cons.prems(2)
    by (simp add: push_all_def)
qed

lemma pop_all_rep: "rep m h xs \<Longrightarrow> \<exists>m'. pop_all deq m h (length xs) = (xs, m') \<and> rep m' h []"
proof (induction xs arbitrary: m)
  case Nil
  then show ?case by simp
next
  case (Cons x xs)
  obtain m1 where "deq m h = (x, m1)" "rep m1 h xs"
    using deq_rep [OF Cons.prems] by (metis prod.collapse)
  with Cons.IH show ?case by fastforce
qed

text \<open>First in, first out; and a queue that has been emptied answers \<open>NULL\<close>.\<close>

lemma fifo:
  assumes "rep m h xs" "ok (h # xs @ ns)"
  shows "\<exists>m'. pop_all deq (push_all enq m h ns) h (length (xs @ ns)) = (xs @ ns, m')
    \<and> deq m' h = (NULL, m')"
  using pop_all_rep [OF push_all_rep [OF assms]] deq_empty by blast

end

text \<open>A queue from whose middle a node can be taken.\<close>

locale node_list = node_queue +
  fixes del :: "mem \<Rightarrow> addr \<Rightarrow> addr \<Rightarrow> addr \<times> mem"
  assumes del_rep: "rep m h (xs @ x # ys) \<Longrightarrow>
      fst (del m h x) = x \<and> rep (snd (del m h x)) h (xs @ ys)"
begin

text \<open>A node moved from one queue to the end of another one, whose nodes the deletion keeps.\<close>

lemma move:
  assumes "rep m h (xs @ x # ys)" "rep (snd (del m h x)) g zs" "ok (g # zs @ [x])"
  shows "rep (snd (del m h x)) h (xs @ ys) \<and> rep (snd (enq (snd (del m h x)) g x)) g (zs @ [x])"
  using del_rep [OF assms(1)] enq_rep [OF assms(2,3)] by blast

end

lemma nodes_ok_prefix: "nodes_ok (xs @ ys) \<Longrightarrow> nodes_ok xs"
  by (simp add: nodes_ok_append)

interpretation lq: node_list list_add list_get dlist nodes_ok list_del
proof unfold_locales
  fix m h xs n
  assume "dlist m h xs" "nodes_ok (h # xs @ [n])"
  then show "fst (list_add m h n) = n \<and> dlist (snd (list_add m h n)) h (xs @ [n])"
    by (rule list_add_correct)
next
  fix m h x xs
  assume "dlist m h (x # xs)"
  then show "fst (list_get m h) = x \<and> dlist (snd (list_get m h)) h xs" by (rule list_get_correct)
next
  fix m h
  assume "dlist m h []"
  then show "list_get m h = (NULL, m)" by (rule list_get_empty)
next
  fix xs ys :: "addr list"
  assume "nodes_ok (xs @ ys)"
  then show "nodes_ok xs" by (rule nodes_ok_prefix)
next
  fix m h xs x ys
  assume "dlist m h (xs @ x # ys)"
  then show "fst (list_del m h x) = x \<and> dlist (snd (list_del m h x)) h (xs @ ys)"
    by (rule list_del_correct)
qed

end
