(* ===== verification/Bitmap.thy ===== *)
theory Bitmap
  imports Cstring
begin

text \<open>
  \<open>bitmap.c\<close>: bitmaps in memory, \<open>bmp_size\<close> words of which the low \<open>bmp_bit\<close> bits are in use.
  A \<open>struct bitmap *\<close> is an option, \<open>None\<close> for \<open>NULL\<close>.  The lemmas are about 32-bit words, the
  width every caller asks for.  \<open>bitmap_alloc\<close> needs the allocator and stands in \<open>Mmi\<close>.
\<close>

record bitmap =
  bmp_base :: addr
  bmp_bit :: u32
  bmp_size :: u32

abbreviation BITMAP_DEF_BIT :: u32 where "BITMAP_DEF_BIT \<equiv> 32"
abbreviation BITMAP_DEF_BYTE :: u32 where "BITMAP_DEF_BYTE \<equiv> 4"

text \<open>The table \<open>bit_cmp[64]\<close>: 33 initialisers, the rest zero.\<close>

definition bit_cmp :: "u32 list" where
  "bit_cmp = [
     0x00000000,
     0x00000001, 0x00000003, 0x00000007, 0x0000000F,
     0x0000001F, 0x0000003F, 0x0000007F, 0x000000FF,
     0x000001FF, 0x000003FF, 0x000007FF, 0x00000FFF,
     0x00001FFF, 0x00003FFF, 0x00007FFF, 0x0000FFFF,
     0x0001FFFF, 0x0003FFFF, 0x0007FFFF, 0x000FFFFF,
     0x001FFFFF, 0x003FFFFF, 0x007FFFFF, 0x00FFFFFF,
     0x01FFFFFF, 0x03FFFFFF, 0x07FFFFFF, 0x0FFFFFFF,
     0x1FFFFFFF, 0x3FFFFFFF, 0x7FFFFFFF, 0xFFFFFFFF] @ replicate 31 0"

text \<open>\<open>0x1 << k\<close> on a 32-bit operand.\<close>

definition shl1 :: "nat \<Rightarrow> u32 option" where
  "shl1 k = (if k < 32 then Some (push_bit k 1) else None)"

subsection \<open>Operations\<close>

definition bitmap_set :: "mem \<Rightarrow> bitmap option \<Rightarrow> u32 \<Rightarrow> bool \<Rightarrow> (int \<times> mem) option" where
  "bitmap_set m bmp ost f =
     (case bmp of
        None \<Rightarrow> Some (-1, m)
      | Some b \<Rightarrow>
          if bmp_base b = NULL then Some (-1, m)
          else do {
            w \<leftarrow> udiv ost (bmp_bit b);
            r \<leftarrow> umod ost (bmp_bit b);
            mask \<leftarrow> shl1 (unat r);
            let p = bmp_base b + 4 * w;
            let m = (if f then st32 m p (ld32 m p OR mask) else st32 m p (ld32 m p AND NOT mask));
            Some (to_s32 ost, m) })"

function free_word :: "mem \<Rightarrow> addr \<Rightarrow> u32 \<Rightarrow> int \<Rightarrow> int \<Rightarrow> int" where
  "free_word m bits full n i =
     (if i < n then
        (if ld32 m (bits + 4 * to_u32 i) \<noteq> full then i else free_word m bits full n (i + 1))
      else i)"
  by pat_completeness auto
termination
  by (relation "measure (\<lambda>(m, bits, full, n, i). nat (n - i))") auto

function free_bit :: "u32 \<Rightarrow> int \<Rightarrow> int \<Rightarrow> int" where
  "free_bit w nbit j =
     (if j < nbit then
        (if drop_bit (nat j) w AND 1 = 0 then j else free_bit w nbit (j + 1))
      else j)"
  by pat_completeness auto
termination
  by (relation "measure (\<lambda>(w, nbit, j). nat (nbit - j))") auto

declare free_word.simps [simp del] free_bit.simps [simp del]

definition bitmap_get_free :: "mem \<Rightarrow> bitmap option \<Rightarrow> int option" where
  "bitmap_get_free m bmp =
     (case bmp of
        None \<Rightarrow> Some (-1)
      | Some b \<Rightarrow>
          if bmp_base b = NULL then Some (-1)
          else
            let nbit = to_s32 (bmp_bit b); n = to_s32 (bmp_size b) in
            if 0 \<le> nbit \<and> nbit < 64 then
              let i = free_word m (bmp_base b) (bit_cmp ! nat nbit) n 0 in
              if i = n then Some (-4)
              else
                let w = ld32 m (bmp_base b + 4 * to_u32 i); j = free_bit w nbit 0
                in s32_ok (i * nbit + j)
            else None)"

definition bitmap_get :: "mem \<Rightarrow> bitmap option \<Rightarrow> int \<Rightarrow> int option" where
  "bitmap_get m bmp ost =
     (case bmp of
        None \<Rightarrow> Some (-1)
      | Some b \<Rightarrow>
          if bmp_base b = NULL then Some (-1)
          else
            let nbit = to_s32 (bmp_bit b) in
            if ost < 0 then Some (- EINVAL)
            else if nbit = 0 then None
            else do {
              mask \<leftarrow> shl1 (nat (ost smod nbit));
              let w = ld32 m (bmp_base b + 4 * to_u32 (ost sdiv nbit));
              Some (if w AND mask \<noteq> 0 then 1 else 0) })"

subsection \<open>The set of bits a bitmap stands for\<close>

definition bm_wf :: "bitmap \<Rightarrow> bool" where
  "bm_wf b \<longleftrightarrow> bmp_base b \<noteq> NULL \<and> bmp_bit b = 32 \<and> 32 * unat (bmp_size b) < 2147483648"

definition bm_cap :: "bitmap \<Rightarrow> nat" where
  "bm_cap b = 32 * unat (bmp_size b)"

definition bm_word :: "bitmap \<Rightarrow> nat \<Rightarrow> addr" where
  "bm_word b i = bmp_base b + 4 * of_nat (i div 32)"

definition bm_bit :: "mem \<Rightarrow> bitmap \<Rightarrow> nat \<Rightarrow> bool" where
  "bm_bit m b i = bit (ld32 m (bm_word b i)) (i mod 32)"

definition bm_put :: "mem \<Rightarrow> bitmap \<Rightarrow> nat \<Rightarrow> bool \<Rightarrow> mem" where
  "bm_put m b i f = st32 m (bm_word b i)
     (if f then ld32 m (bm_word b i) OR push_bit (i mod 32) 1
      else ld32 m (bm_word b i) AND NOT (push_bit (i mod 32) 1))"


lemma mask_push: "(2 :: u32) ^ k = push_bit k 1"
  by simp

lemma bit_set_mask: "k < 32 \<Longrightarrow> bit ((w :: u32) OR 2 ^ k) l \<longleftrightarrow> bit w l \<or> l = k"
  unfolding mask_push by (simp only: bit_or_iff bit_push_bit_iff) (auto simp: bit_1_iff)

lemma bit_clear_mask: "l < 32 \<Longrightarrow> bit ((w :: u32) AND NOT (2 ^ k)) l \<longleftrightarrow> bit w l \<and> l \<noteq> k"
  unfolding mask_push by (simp only: bit_and_iff bit_not_iff bit_push_bit_iff) (auto simp: bit_1_iff)

lemma bm_word_apart:
  assumes "bm_wf b" "i < bm_cap b" "j < bm_cap b" "i div 32 \<noteq> j div 32"
  shows "apart (bm_word b i) 4 (bm_word b j) 4"
proof -
  have *: "apart (bm_word b i) 4 (bm_word b j) 4" if "i div 32 < j div 32" "j < bm_cap b" for i j
  proof -
    have j: "j div 32 < unat (bmp_size b)" using that by (simp add: bm_cap_def)
    have "4 * (i div 32) + 4 \<le> 4 * (j div 32)" using that by simp
    moreover have "4 * (j div 32) + 4 \<le> 4 * (i div 32) + 2 ^ 32"
      using j assms(1) by (simp add: bm_wf_def)
    ultimately show ?thesis
      using apart_offsets [of "4 * (i div 32)" 4 "4 * (j div 32)" 4 "bmp_base b"]
      by (simp add: bm_word_def)
  qed
  show ?thesis using *[of i j] *[of j i] assms by (auto simp: apart_sym neq_iff)
qed

lemma bm_bit_put:
  assumes "bm_wf b" "i < bm_cap b" "j < bm_cap b"
  shows "bm_bit (bm_put m b i f) b j = (if j = i then f else bm_bit m b j)"
proof (cases "i div 32 = j div 32")
  case True
  then have "bm_word b j = bm_word b i" by (simp add: bm_word_def)
  moreover have "j = i \<longleftrightarrow> j mod 32 = i mod 32" using True by (metis div_mult_mod_eq)
  ultimately show ?thesis
    by (auto simp: bm_bit_def bm_put_def bit_set_mask bit_clear_mask)
next
  case False
  then have "apart (bm_word b j) 4 (bm_word b i) 4" using bm_word_apart assms by metis
  then show ?thesis using False by (auto simp: bm_bit_def bm_put_def ld32_st32_apart)
qed

lemma bm_word_inside:
  assumes "bm_wf b" "i < bm_cap b" "inside (bm_word b i) 4 x"
  shows "inside (bmp_base b) (4 * unat (bmp_size b)) x"
proof -
  have "i div 32 < unat (bmp_size b)" using assms(2) by (simp add: bm_cap_def)
  then have "4 * (i div 32) + 4 \<le> 4 * unat (bmp_size b)" by simp
  then show ?thesis
    using inside_offset [of "bmp_base b" "4 * (i div 32)" 4 x "4 * unat (bmp_size b)"] assms
    by (simp add: bm_word_def bm_wf_def)
qed

lemma bm_put_other:
  assumes "bm_wf b" "i < bm_cap b" "\<not> inside (bmp_base b) (4 * unat (bmp_size b)) x"
  shows "bm_put m b i f x = m x"
  using assms bm_word_inside by (auto simp: bm_put_def intro: st32_other)

lemma bm_bit_cong:
  assumes "bm_wf b" "i < bm_cap b"
    and "\<And>x. inside (bmp_base b) (4 * unat (bmp_size b)) x \<Longrightarrow> m x = m' x"
  shows "bm_bit m b i = bm_bit m' b i"
  using assms bm_word_inside [OF assms(1,2)] by (auto simp: bm_bit_def intro!: arg_cong2 [where f = bit] ld32_cong)

text \<open>The operations in terms of bits.\<close>

lemma bm_index:
  assumes "bm_wf b" "i < bm_cap b"
  shows "unat (of_nat i div bmp_bit b) = i div 32" "unat (of_nat i mod bmp_bit b) = i mod 32"
    "of_nat i div bmp_bit b = (of_nat (i div 32) :: u32)" "to_s32 (of_nat i) = int i"
proof -
  have i: "unat (of_nat i :: u32) = i" using assms by (simp add: bm_wf_def bm_cap_def unat_of_nat_lt)
  have b: "bmp_bit b = 32" using assms by (simp add: bm_wf_def)
  show *: "unat (of_nat i div bmp_bit b) = i div 32" by (simp add: b unat_div i)
  show "unat (of_nat i mod bmp_bit b) = i mod 32" by (simp add: b unat_mod i)
  show "of_nat i div bmp_bit b = (of_nat (i div 32) :: u32)"
    using * by (metis of_nat_unat ucast_id)
  show "to_s32 (of_nat i) = int i" using assms by (simp add: bm_wf_def bm_cap_def)
qed

lemma bitmap_set_eq:
  assumes "bm_wf b" "i < bm_cap b"
  shows "bitmap_set m (Some b) (of_nat i) f = Some (int i, bm_put m b i f)"
  using assms bm_index [OF assms]
  by (simp add: bitmap_set_def bm_put_def bm_word_def shl1_def bm_wf_def Let_def)

lemma bitmap_get_eq:
  assumes "bm_wf b" "i < bm_cap b"
  shows "bitmap_get m (Some b) (int i) = Some (if bm_bit m b i then 1 else 0)"
proof -
  have i: "to_s32 (bmp_bit b) = 32" "bmp_base b \<noteq> NULL" using assms(1) by (simp_all add: bm_wf_def to_s32_def)
  have d: "int i sdiv 32 = int (i div 32)" "int i smod 32 = int (i mod 32)"
    by (simp_all add: signed_divide_int_def signed_modulo_int_def zdiv_int zmod_int sgn_if)
  have "w AND push_bit k 1 \<noteq> 0 \<longleftrightarrow> bit w k" for w :: u32 and k
    by (simp add: bit_iff_and_push_bit_not_eq_0)
  then show ?thesis
    using i d by (simp add: bitmap_get_def bm_bit_def bm_word_def shl1_def to_u32_def)
qed


subsection \<open>The search for a free bit\<close>

lemma free_word_spec:
  assumes "0 \<le> i" "i \<le> n"
  shows "let k = free_word m bits full n i in i \<le> k \<and> k \<le> n
    \<and> (\<forall>j. i \<le> j \<and> j < k \<longrightarrow> ld32 m (bits + 4 * to_u32 j) = full)
    \<and> (k < n \<longrightarrow> ld32 m (bits + 4 * to_u32 k) \<noteq> full)"
  using assms
proof (induction "nat (n - i)" arbitrary: i)
  case 0
  then show ?case by (auto simp: free_word.simps)
next
  case (Suc d)
  then have i: "i < n" "d = nat (n - (i + 1))" "0 \<le> i + 1" "i + 1 \<le> n" by auto
  note IH = Suc(1) [OF i(2) i(3) i(4)]
  show ?case
  proof (cases "ld32 m (bits + 4 * to_u32 i) = full")
    case True
    then have e: "free_word m bits full n i = free_word m bits full n (i + 1)"
      using i by (subst free_word.simps) simp
    have "i \<le> j \<longleftrightarrow> j = i \<or> i + 1 \<le> j" for j by auto
    then show ?thesis using IH True unfolding e Let_def by auto
  next
    case False
    then have "free_word m bits full n i = i" using i by (subst free_word.simps) simp
    then show ?thesis using i False by auto
  qed
qed

lemma shifted_bit: "drop_bit k w AND 1 = (0 :: u32) \<longleftrightarrow> \<not> bit w k"
  by (simp add: and_one_eq bit_iff_odd_drop_bit odd_iff_mod_2_eq_one)

lemma free_bit_spec:
  assumes "0 \<le> j" "j \<le> n"
  shows "let k = free_bit w n j in j \<le> k \<and> k \<le> n
    \<and> (\<forall>l. j \<le> l \<and> l < k \<longrightarrow> bit w (nat l)) \<and> (k < n \<longrightarrow> \<not> bit w (nat k))"
  using assms
proof (induction "nat (n - j)" arbitrary: j)
  case 0
  then show ?case by (auto simp: free_bit.simps)
next
  case (Suc d)
  then have j: "j < n" "d = nat (n - (j + 1))" "0 \<le> j + 1" "j + 1 \<le> n" by auto
  note IH = Suc(1) [OF j(2) j(3) j(4)]
  show ?case
  proof (cases "bit w (nat j)")
    case True
    then have e: "free_bit w n j = free_bit w n (j + 1)"
      using j by (subst free_bit.simps) (simp add: shifted_bit)
    have "j \<le> l \<longleftrightarrow> l = j \<or> j + 1 \<le> l" for l by auto
    then show ?thesis using IH True unfolding e Let_def by auto
  next
    case False
    then have "free_bit w n j = j" using j by (subst free_bit.simps) (simp add: shifted_bit)
    then show ?thesis using j False by auto
  qed
qed

lemma full_word: "(w :: u32) = 0xFFFFFFFF \<longleftrightarrow> (\<forall>k<32. bit w k)"
proof -
  have "(0xFFFFFFFF :: u32) = - 1" by simp
  then show ?thesis by (auto simp: bit_eq_iff)
qed


text \<open>The first clear bit, by a search over the indices.\<close>

definition first_free :: "(nat \<Rightarrow> bool) \<Rightarrow> nat \<Rightarrow> nat option" where
  "first_free P n = find (\<lambda>i. \<not> P i) [0..<n]"

lemma first_free_Some:
  "first_free P n = Some i \<longleftrightarrow> i < n \<and> \<not> P i \<and> (\<forall>j<i. P j)"
proof
  assume "first_free P n = Some i"
  then show "i < n \<and> \<not> P i \<and> (\<forall>j<i. P j)"
    by (auto simp: first_free_def find_Some_iff)
next
  assume "i < n \<and> \<not> P i \<and> (\<forall>j<i. P j)"
  then show "first_free P n = Some i"
    by (auto simp: first_free_def find_Some_iff intro!: exI [of _ i])
qed

lemma first_free_None: "first_free P n = None \<longleftrightarrow> (\<forall>j<n. P j)"
  by (auto simp: first_free_def find_None_iff)

lemma first_free_cong: "(\<And>i. i < n \<Longrightarrow> P i = Q i) \<Longrightarrow> first_free P n = first_free Q n"
  unfolding first_free_def by (rule find_cong) auto

lemma bitmap_get_free_eq:
  assumes wf: "bm_wf b"
  shows "bitmap_get_free m (Some b) =
    Some (case first_free (bm_bit m b) (bm_cap b) of Some i \<Rightarrow> int i | None \<Rightarrow> -4)"
proof -
  define n where "n = to_s32 (bmp_size b)"
  have u: "unat (bmp_size b) < 67108864" using wf by (simp add: bm_wf_def)
  have sz: "n = int (unat (bmp_size b))" unfolding n_def by (rule to_s32_small) (use u in simp)
  have n0: "0 \<le> n" "n < 67108864" unfolding sz using u by linarith+
  have b: "to_s32 (bmp_bit b) = 32" "bmp_base b \<noteq> NULL" "bit_cmp ! 32 = 0xFFFFFFFF"
    using wf by (simp_all add: bm_wf_def to_s32_def bit_cmp_def)
  define i where "i = free_word m (bmp_base b) 0xFFFFFFFF n 0"
  have i: "0 \<le> i" "i \<le> n" "\<And>j. 0 \<le> j \<Longrightarrow> j < i \<Longrightarrow> ld32 m (bmp_base b + 4 * to_u32 j) = 0xFFFFFFFF"
    "i < n \<Longrightarrow> ld32 m (bmp_base b + 4 * to_u32 i) \<noteq> 0xFFFFFFFF"
    using free_word_spec [of 0 n m "bmp_base b" "0xFFFFFFFF"] n0 by (auto simp: Let_def i_def)
  have word: "bm_word b k = bmp_base b + 4 * to_u32 (int (k div 32))" for k
    by (simp add: bm_word_def to_u32_def)
  have below: "bm_bit m b k" if "k < 32 * nat i" for k
  proof -
    have "int (k div 32) < i" using that i(1) by linarith
    then have "ld32 m (bm_word b k) = 0xFFFFFFFF" using i(3) by (simp add: word)
    then show ?thesis unfolding bm_bit_def by (simp add: full_word)
  qed
  show ?thesis
  proof (cases "i = n")
    case True
    then have "first_free (bm_bit m b) (bm_cap b) = None"
      using below sz by (simp add: first_free_None bm_cap_def)
    then show ?thesis using True b by (simp add: bitmap_get_free_def Let_def flip: n_def i_def)
  next
    case False
    then have lt: "i < n" using i by simp
    define w where "w = ld32 m (bmp_base b + 4 * to_u32 i)"
    define j where "j = free_bit w 32 0"
    have j0: "0 \<le> j" "j \<le> 32" "\<And>l. 0 \<le> l \<Longrightarrow> l < j \<Longrightarrow> bit w (nat l)" "j < 32 \<Longrightarrow> \<not> bit w (nat j)"
      using free_bit_spec [of 0 32 w] by (auto simp: Let_def j_def)
    have "j < 32"
    proof (rule ccontr)
      assume "\<not> j < 32"
      then have "\<forall>k<32. bit w k" using j0(2) j0(3) [of "int k" for k] by auto
      then show False using i(4) lt full_word [of w] by (simp add: w_def)
    qed
    define k where "k = 32 * nat i + nat j"
    have k: "k div 32 = nat i" "k mod 32 = nat j" using \<open>j < 32\<close> j0 by (auto simp: k_def)
    have w: "ld32 m (bm_word b l) = w" if "l div 32 = nat i" for l
      using that i(1) by (simp add: word w_def)
    have "\<not> bm_bit m b k" using w [OF k(1)] k(2) j0(4) \<open>j < 32\<close> by (simp add: bm_bit_def)
    moreover have "bm_bit m b l" if "l < k" for l
    proof (cases "l < 32 * nat i")
      case False
      then obtain d where d: "l = 32 * nat i + d" by (auto simp: not_less le_iff_add)
      then have "d < nat j" "d < 32" using that \<open>j < 32\<close> unfolding k_def by simp_all
      then have l: "l div 32 = nat i" "l mod 32 < nat j" using d by simp_all
      then show ?thesis using w [OF l(1)] j0(3) [of "int (l mod 32)"] by (simp add: bm_bit_def)
    qed (rule below)
    moreover have "k < bm_cap b"
    proof -
      have "nat i < unat (bmp_size b)" using lt i(1) unfolding sz by linarith
      moreover have "nat j < 32" using \<open>j < 32\<close> j0(1) by simp
      ultimately show ?thesis unfolding k_def bm_cap_def by linarith
    qed
    ultimately have "first_free (bm_bit m b) (bm_cap b) = Some k" by (simp add: first_free_Some)
    moreover have "i * 32 + j = int k" using i(1) j0(1) by (simp add: k_def)
    moreover have "s32_ok (int k) = Some (int k)"
      using \<open>k < bm_cap b\<close> wf by (simp add: s32_ok_def bm_wf_def bm_cap_def)
    ultimately show ?thesis
      using False b by (simp add: bitmap_get_free_def Let_def flip: n_def i_def w_def j_def)
  qed
qed


subsection \<open>The interface of a set of indices\<close>

text \<open>
  What a client of a bitmap relies on: marking changes one index, and the search returns the first
  index that is not marked.  \<open>claim\<close> searches and marks, as a client that hands out slots does.
\<close>

fun claim :: "('s \<Rightarrow> 'b \<Rightarrow> nat option) \<Rightarrow> ('s \<Rightarrow> 'b \<Rightarrow> nat \<Rightarrow> bool \<Rightarrow> 's) \<Rightarrow> 's \<Rightarrow> 'b \<Rightarrow> nat
    \<Rightarrow> nat list \<times> 's" where
  "claim search mark s b 0 = ([], s)"
| "claim search mark s b (Suc k) =
     (case search s b of
        None \<Rightarrow> ([], s)
      | Some i \<Rightarrow> let (is, s') = claim search mark (mark s b i True) b k in (i # is, s'))"

locale index_set =
  fixes wf :: "'b \<Rightarrow> bool" and cap :: "'b \<Rightarrow> nat"
    and holds :: "'s \<Rightarrow> 'b \<Rightarrow> nat \<Rightarrow> bool"
    and mark :: "'s \<Rightarrow> 'b \<Rightarrow> nat \<Rightarrow> bool \<Rightarrow> 's"
    and search :: "'s \<Rightarrow> 'b \<Rightarrow> nat option"
  assumes mark_holds: "wf b \<Longrightarrow> i < cap b \<Longrightarrow> j < cap b \<Longrightarrow>
      holds (mark s b i f) b j = (if j = i then f else holds s b j)"
    and search_first: "wf b \<Longrightarrow> search s b = first_free (holds s b) (cap b)"
begin

lemma search_SomeD: "wf b \<Longrightarrow> search s b = Some i \<Longrightarrow> i < cap b \<and> \<not> holds s b i \<and> (\<forall>j<i. holds s b j)"
  by (simp add: search_first first_free_Some)

lemma claim_spec:
  assumes "wf b" "claim search mark s b k = (is, s')"
  shows "sorted_wrt (<) is \<and> (\<forall>i\<in>set is. i < cap b \<and> \<not> holds s b i)
    \<and> (\<forall>j<cap b. holds s' b j \<longleftrightarrow> holds s b j \<or> j \<in> set is)
    \<and> (length is < k \<longrightarrow> (\<forall>j<cap b. holds s' b j))"
  using assms(2)
proof (induction k arbitrary: s "is")
  case 0
  then show ?case by simp
next
  case (Suc k)
  show ?case
  proof (cases "search s b")
    case None
    then have "is = []" "s' = s" using Suc.prems by simp_all
    moreover have "\<forall>j<cap b. holds s b j"
      using None search_first [OF assms(1), of s] by (simp add: first_free_None)
    ultimately show ?thesis by simp
  next
    case (Some i)
    obtain js where js: "claim search mark (mark s b i True) b k = (js, s')" "is = i # js"
      using Suc.prems Some by (auto split: prod.splits)
    note IH = Suc.IH [OF js(1)]
    have i: "i < cap b" "\<not> holds s b i" "\<forall>j<i. holds s b j"
      using search_SomeD [OF assms(1) Some] by auto
    have m: "j < cap b \<Longrightarrow> holds (mark s b i True) b j \<longleftrightarrow> holds s b j \<or> j = i" for j
      using mark_holds [OF assms(1) i(1)] by auto
    have js_new: "\<forall>j\<in>set js. j < cap b \<and> \<not> holds s b j \<and> j \<noteq> i" using IH m by blast
    then have "\<forall>j\<in>set js. i < j" using i(3) by (metis linorder_neqE_nat)
    then show ?thesis using IH i js js_new m by auto
  qed
qed

end

definition bitmap_mark :: "mem \<Rightarrow> bitmap \<Rightarrow> nat \<Rightarrow> bool \<Rightarrow> mem" where
  "bitmap_mark m b i f = (case bitmap_set m (Some b) (of_nat i) f of Some (r, m') \<Rightarrow> m' | None \<Rightarrow> m)"

definition bitmap_search :: "mem \<Rightarrow> bitmap \<Rightarrow> nat option" where
  "bitmap_search m b =
     (case bitmap_get_free m (Some b) of
        Some r \<Rightarrow> if r < 0 then None else Some (nat r) | None \<Rightarrow> None)"

definition bitmap_holds :: "mem \<Rightarrow> bitmap \<Rightarrow> nat \<Rightarrow> bool" where
  "bitmap_holds m b i \<longleftrightarrow> bitmap_get m (Some b) (int i) = Some 1"

lemma bitmap_holds_eq: "bm_wf b \<Longrightarrow> i < bm_cap b \<Longrightarrow> bitmap_holds m b i = bm_bit m b i"
  by (simp add: bitmap_holds_def bitmap_get_eq)

interpretation bits: index_set bm_wf bm_cap bitmap_holds bitmap_mark bitmap_search
proof unfold_locales
  fix b i j m f assume wf: "bm_wf b" "i < bm_cap b" "j < bm_cap b"
  then show "bitmap_holds (bitmap_mark m b i f) b j = (if j = i then f else bitmap_holds m b j)"
    by (simp add: bitmap_holds_eq bitmap_mark_def bitmap_set_eq bm_bit_put)
next
  fix b m assume wf: "bm_wf b"
  then have "bitmap_search m b = first_free (bm_bit m b) (bm_cap b)"
    by (simp add: bitmap_search_def bitmap_get_free_eq split: option.splits)
  also have "\<dots> = first_free (bitmap_holds m b) (bm_cap b)"
    using wf by (auto intro: first_free_cong simp: bitmap_holds_eq)
  finally show "bitmap_search m b = first_free (bitmap_holds m b) (bm_cap b)" .
qed

end
