(* ===== verification/Bstree.thy ===== *)
theory Bstree
  imports Prelude "HOL-Library.Tree"
begin

text \<open>
  \<open>bstree.c\<close>: binary search trees of nodes in memory.  A node is three pointers, \<open>node[BST_LEFT]\<close>,
  \<open>node[BST_RIGHT]\<close> and \<open>node[BST_MATCH]\<close>; the last one stays \<open>NULL\<close>, so a walk that a comparison
  sends there stops.  The comparison function is an argument, as in the code; a comparison need not
  return (\<open>None\<close>).
\<close>

abbreviation BST_LEFT :: int where "BST_LEFT \<equiv> 0"
abbreviation BST_RIGHT :: int where "BST_RIGHT \<equiv> 1"
abbreviation BST_MATCH :: int where "BST_MATCH \<equiv> 2"
abbreviation BST_ERROR :: int where "BST_ERROR \<equiv> 2"

definition bst_child :: "mem \<Rightarrow> addr \<Rightarrow> int \<Rightarrow> addr" where
  "bst_child m p d = ld32 m (p + 4 * to_u32 d)"

definition set_child :: "mem \<Rightarrow> addr \<Rightarrow> int \<Rightarrow> addr \<Rightarrow> mem" where
  "set_child m p d v = st32 m (p + 4 * to_u32 d) v"

subsection \<open>Operations\<close>

definition bst_node_init :: "mem \<Rightarrow> addr \<Rightarrow> int \<times> mem" where
  "bst_node_init m node =
     (if node = NULL then (-1, m)
      else
        let m = set_child m node BST_LEFT NULL;
            m = set_child m node BST_RIGHT NULL;
            m = set_child m node BST_MATCH NULL
        in (0, m))"

partial_function (option) bst_walk :: "mem \<Rightarrow> (addr \<Rightarrow> int option) \<Rightarrow> addr \<Rightarrow> int \<Rightarrow> (addr \<times> int) option" where
  "bst_walk m cmp tmp d =
     (if bst_child m tmp d \<noteq> NULL
      then do { d' \<leftarrow> cmp (bst_child m tmp d); bst_walk m cmp (bst_child m tmp d) d' }
      else Some (tmp, d))"

definition bst_insert :: "mem \<Rightarrow> addr \<Rightarrow> addr \<Rightarrow> (mem \<Rightarrow> addr \<Rightarrow> addr \<Rightarrow> int option) option
    \<Rightarrow> (addr \<times> mem) option" where
  "bst_insert m root new cmp =
     (if root = NULL then Some (NULL, m)
      else if new = NULL then Some (NULL, m)
      else case cmp of
        None \<Rightarrow> Some (NULL, m)
      | Some cmp \<Rightarrow>
          let (r, m) = bst_node_init m new in
          if r < 0 then Some (to_u32 (-1), m)
          else do {
            d \<leftarrow> cmp m root new;
            (tmp, dir) \<leftarrow> bst_walk m (\<lambda>p. cmp m p new) root d;
            let m = set_child m tmp dir (if dir = BST_ERROR then NULL else new);
            Some (bst_child m tmp dir, m) })"

definition bst_search :: "mem \<Rightarrow> addr \<Rightarrow> addr \<Rightarrow> (mem \<Rightarrow> addr \<Rightarrow> addr \<Rightarrow> int option) option \<Rightarrow> addr option" where
  "bst_search m root key cmp =
     (if root = NULL then Some NULL
      else if key = NULL then Some NULL
      else case cmp of
        None \<Rightarrow> Some NULL
      | Some cmp \<Rightarrow> do {
          d \<leftarrow> cmp m root key;
          (tmp, dir) \<leftarrow> bst_walk m (\<lambda>p. cmp m p key) root d;
          Some (if dir = BST_MATCH then tmp else NULL) })"

subsection \<open>The tree a root stands for\<close>

fun is_bst :: "mem \<Rightarrow> addr \<Rightarrow> addr tree \<Rightarrow> bool" where
  "is_bst m p Leaf \<longleftrightarrow> p = NULL"
| "is_bst m p (Node l a r) \<longleftrightarrow> p = a \<and> a \<noteq> NULL \<and> bst_child m a BST_MATCH = NULL
     \<and> is_bst m (bst_child m a BST_LEFT) l \<and> is_bst m (bst_child m a BST_RIGHT) r"

definition bst_nodes_ok :: "addr list \<Rightarrow> bool" where
  "bst_nodes_ok ns \<longleftrightarrow> sorted_wrt (\<lambda>a b. apart a 12 b 12) ns"

text \<open>Insertion and search by the directions a comparison gives.\<close>

fun t_insert :: "('a \<Rightarrow> int) \<Rightarrow> 'a \<Rightarrow> 'a tree \<Rightarrow> 'a tree" where
  "t_insert dir x Leaf = Node Leaf x Leaf"
| "t_insert dir x (Node l a r) =
     (if dir a = BST_LEFT then Node (t_insert dir x l) a r
      else if dir a = BST_RIGHT then Node l a (t_insert dir x r)
      else Node l a r)"

fun t_find :: "('a \<Rightarrow> int) \<Rightarrow> 'a tree \<Rightarrow> 'a option" where
  "t_find dir Leaf = None"
| "t_find dir (Node l a r) =
     (if dir a = BST_LEFT then t_find dir l
      else if dir a = BST_RIGHT then t_find dir r
      else Some a)"

abbreviation dirs :: "int set" where "dirs \<equiv> {BST_LEFT, BST_RIGHT, BST_MATCH}"

lemma child_fields:
  assumes "d \<in> dirs" "e \<in> dirs" "(a, d) \<noteq> (b, e)" "a = b \<or> apart a 12 b 12"
  shows "apart (a + 4 * to_u32 d) 4 (b + 4 * to_u32 e) 4"
proof -
  have f: "\<exists>k. 4 * to_u32 d = of_nat (4 * k) \<and> k < 3 \<and> int k = d" if "d \<in> dirs" for d
    using that by (intro exI [of _ "nat d"]) (auto simp: to_u32_def)
  obtain i where i: "4 * to_u32 d = of_nat (4 * i)" "i < 3" "int i = d" using f [OF assms(1)] by blast
  obtain j where j: "4 * to_u32 e = of_nat (4 * j)" "j < 3" "int j = e" using f [OF assms(2)] by blast
  have *: "4 * i + 4 \<le> 12" "4 * j + 4 \<le> 12" using i j by auto
  show ?thesis
  proof (cases "a = b")
    case True
    then have "i \<noteq> j" using assms(3) i(3) j(3) by auto
    then consider "i < j" | "j < i" by linarith
    then show ?thesis
    proof cases
      case 1
      then show ?thesis unfolding i(1) j(1) True by (intro apart_offsets) (use * in auto)
    next
      case 2
      then have "apart (b + of_nat (4 * j)) 4 (a + of_nat (4 * i)) 4"
        unfolding True by (intro apart_offsets) (use * in auto)
      then show ?thesis unfolding i(1) j(1) by (simp only: apart_sym)
    qed
  next
    case False
    then have "apart a 12 b 12" using assms(4) by simp
    then show ?thesis unfolding i(1) j(1) using * by (intro apart_sub) auto
  qed
qed

lemma child_set_child:
  assumes "d \<in> dirs" "e \<in> dirs" "a = b \<or> apart a 12 b 12"
  shows "bst_child (set_child m b e v) a d = (if (a, d) = (b, e) then v else bst_child m a d)"
proof (cases "(a, d) = (b, e)")
  case False
  then show ?thesis using child_fields [OF assms(1,2) False assms(3)]
    by (simp only: bst_child_def set_child_def ld32_st32_apart if_False)
qed (simp add: bst_child_def set_child_def)

lemma is_bst_cong:
  "(\<And>a d. a \<in> set_tree t \<Longrightarrow> d \<in> dirs \<Longrightarrow> bst_child m a d = bst_child m' a d)
   \<Longrightarrow> is_bst m p t \<longleftrightarrow> is_bst m' p t"
  by (induction t arbitrary: p) auto

lemma is_bst_root: "is_bst m p t \<Longrightarrow> p \<noteq> NULL \<longleftrightarrow> t \<noteq> Leaf"
  by (cases t) auto

lemma is_bst_match: "is_bst m p t \<Longrightarrow> a \<in> set_tree t \<Longrightarrow> bst_child m a BST_MATCH = NULL"
  by (induction t arbitrary: p) auto

lemma is_bst_notnull: "is_bst m p t \<Longrightarrow> a \<in> set_tree t \<Longrightarrow> a \<noteq> NULL"
  by (induction t arbitrary: p) auto

text \<open>The node a walk stops at.\<close>

fun t_stop :: "('a \<Rightarrow> int) \<Rightarrow> 'a tree \<Rightarrow> 'a" where
  "t_stop dir Leaf = undefined"
| "t_stop dir (Node l a r) =
     (if dir a = BST_LEFT \<and> l \<noteq> Leaf then t_stop dir l
      else if dir a = BST_RIGHT \<and> r \<noteq> Leaf then t_stop dir r
      else a)"

lemma t_stop_in: "t \<noteq> Leaf \<Longrightarrow> t_stop dir t \<in> set_tree t"
  by (induction t) auto

lemma t_find_stop:
  "t \<noteq> Leaf \<Longrightarrow> (\<forall>a\<in>set_tree t. dir a \<in> dirs) \<Longrightarrow>
   t_find dir t = (if dir (t_stop dir t) = BST_MATCH then Some (t_stop dir t) else None)"
proof (induction t)
  case (Node l a r)
  then show ?case by (cases "l = Leaf"; cases "r = Leaf") auto
qed simp

lemma t_insert_stop:
  "t \<noteq> Leaf \<Longrightarrow> dir (t_stop dir t) = BST_MATCH \<Longrightarrow> t_insert dir x t = t"
proof (induction t)
  case (Node l a r)
  then show ?case by (cases "l = Leaf"; cases "r = Leaf") auto
qed simp

lemma walk_stop:
  assumes "is_bst m p t" "t \<noteq> Leaf" "\<forall>a\<in>set_tree t. cmp a = Some (dir a) \<and> dir a \<in> dirs"
  shows "bst_walk m cmp p (dir p) = Some (t_stop dir t, dir (t_stop dir t))"
  using assms
proof (induction t arbitrary: p)
  case (Node l a r)
  have *: "bst_child m a BST_LEFT = NULL \<longleftrightarrow> l = Leaf" "bst_child m a BST_RIGHT = NULL \<longleftrightarrow> r = Leaf"
    using Node.prems(1) is_bst_root by auto
  have p: "p = a" "bst_child m a BST_MATCH = NULL" using Node.prems(1) by auto
  have IH: "bst_walk m cmp (bst_child m a BST_LEFT) (dir (bst_child m a BST_LEFT)) =
      Some (t_stop dir l, dir (t_stop dir l))" if "l \<noteq> Leaf"
    using Node.IH(1) that Node.prems by simp
  have IH': "bst_walk m cmp (bst_child m a BST_RIGHT) (dir (bst_child m a BST_RIGHT)) =
      Some (t_stop dir r, dir (t_stop dir r))" if "r \<noteq> Leaf"
    using Node.IH(2) that Node.prems by simp
  have step: "bst_walk m cmp p (dir p) = (if bst_child m a (dir a) \<noteq> NULL
      then do { d' \<leftarrow> cmp (bst_child m a (dir a)); bst_walk m cmp (bst_child m a (dir a)) d' } else Some (a, dir a))"
    unfolding p(1) by (rule bst_walk.simps)
  have cl: "cmp (bst_child m a BST_LEFT) = Some (dir (bst_child m a BST_LEFT))" if "l \<noteq> Leaf"
    using Node.prems(1,3) that by (cases l) auto
  have cr: "cmp (bst_child m a BST_RIGHT) = Some (dir (bst_child m a BST_RIGHT))" if "r \<noteq> Leaf"
    using Node.prems(1,3) that by (cases r) auto
  have "dir a \<in> dirs" using Node.prems(3) by simp
  then consider "dir a = BST_LEFT" | "dir a = BST_RIGHT" | "dir a = BST_MATCH" by blast
  then show ?case
    unfolding step by cases (use IH IH' * p cl cr in simp_all)
qed simp

lemma insert_at_stop:
  assumes "is_bst m p t" "t \<noteq> Leaf" "\<forall>a\<in>set_tree t. dir a \<in> dirs" "distinct (inorder t)"
    and "dir (t_stop dir t) \<noteq> BST_MATCH" "is_bst m' new (Node Leaf new Leaf)"
    and "\<forall>a\<in>set_tree t. \<forall>d\<in>dirs. bst_child m' a d =
          (if a = t_stop dir t \<and> d = dir (t_stop dir t) then new else bst_child m a d)"
  shows "is_bst m' p (t_insert dir new t)"
  using assms
proof (induction t arbitrary: p)
  case (Node l a r)
  have sub: "is_bst m' q s" if "is_bst m q s" "set_tree s \<subseteq> set_tree (Node l a r)"
    "t_stop dir (Node l a r) \<notin> set_tree s" for q s
  proof -
    have "bst_child m' a' d = bst_child m a' d" if "a' \<in> set_tree s" "d \<in> dirs" for a' d
    proof -
      have "a' \<in> set_tree (Node l a r)" "a' \<noteq> t_stop dir (Node l a r)"
        using \<open>set_tree s \<subseteq> _\<close> \<open>t_stop _ _ \<notin> _\<close> that(1) by blast+
      then show ?thesis using Node.prems(7) [rule_format, of a' d] that(2) by (simp only: if_False simp_thms)
    qed
    then show ?thesis using that(1) is_bst_cong [of s m m' q] by simp
  qed
  have notin: "a \<notin> set_tree l" "a \<notin> set_tree r" "set_tree l \<inter> set_tree r = {}"
    using Node.prems(4) by auto
  have down: "is_bst m' q (t_insert dir new s)"
    if "s = l \<or> s = r" "s \<noteq> Leaf" "is_bst m q s" "t_stop dir (Node l a r) = t_stop dir s" for q s
  proof -
    have "\<forall>a\<in>set_tree s. dir a \<in> dirs" "distinct (inorder s)" "dir (t_stop dir s) \<noteq> BST_MATCH"
      "set_tree s \<subseteq> set_tree (Node l a r)"
      using that(1,4) Node.prems(3-5) by auto
    moreover from this(4) have "\<forall>a\<in>set_tree s. \<forall>d\<in>dirs. bst_child m' a d =
        (if a = t_stop dir s \<and> d = dir (t_stop dir s) then new else bst_child m a d)"
      using Node.prems(7) unfolding that(4) by blast
    ultimately show ?thesis using that(1) Node.IH(1,2) [OF _ _ _ _ _ Node.prems(6)] that(2,3) by metis
  qed
  have stop: "t_stop dir s \<in> set_tree s" if "s \<noteq> Leaf" for s :: "addr tree" using that by (rule t_stop_in)
  have d: "dir a \<in> dirs" using Node.prems(3) by simp
  consider "dir a = BST_LEFT" "l \<noteq> Leaf" | "dir a = BST_RIGHT" "r \<noteq> Leaf"
    | "t_stop dir (Node l a r) = a" "dir a \<noteq> BST_MATCH" "dir a = BST_LEFT \<longrightarrow> l = Leaf" "dir a = BST_RIGHT \<longrightarrow> r = Leaf"
    using d Node.prems(5) by (auto split: if_splits)
  then show ?case
  proof cases
    case 1
    then show ?thesis using Node.prems(1,7) down [of l] sub [of _ r] stop [of l] notin by auto
  next
    case 2
    then show ?thesis using Node.prems(1,7) down [of r] sub [of _ l] stop [of r] notin by auto
  next
    case 3
    then show ?thesis using Node.prems(1,6,7) d sub [of _ l] sub [of _ r] notin by auto
  qed
qed simp


subsection \<open>What the operations do to the tree\<close>

lemma bst_nodes_distinct: "bst_nodes_ok ns \<Longrightarrow> distinct ns"
  by (induction ns) (auto simp: bst_nodes_ok_def)

lemma bst_nodes_apart:
  "bst_nodes_ok ns \<Longrightarrow> a \<in> set ns \<Longrightarrow> b \<in> set ns \<Longrightarrow> a = b \<or> apart a 12 b 12"
  unfolding bst_nodes_ok_def in_set_conv_nth sorted_wrt_iff_nth_less
  by (metis apart_sym linorder_neqE_nat)

lemma set_child_other: "d \<in> dirs \<Longrightarrow> \<not> inside p 12 x \<Longrightarrow> set_child m p d v x = m x"
  unfolding set_child_def using inside_offset [of p 4 4 x 12] inside_offset [of p 8 4 x 12]
  by (auto intro!: st32_other simp: to_u32_def inside_def [of p])

lemma node_init_children:
  assumes "new \<noteq> NULL" "d \<in> dirs" "a = new \<or> apart a 12 new 12"
  shows "bst_child (snd (bst_node_init m new)) a d = (if a = new then NULL else bst_child m a d)"
proof (cases "a = new")
  case True
  then show ?thesis using assms(1,2) by (auto simp: bst_node_init_def Let_def child_set_child)
next
  case False
  have "bst_child (set_child m' new e v) a d = bst_child m' a d" if "e \<in> dirs" for m' e v
    using child_set_child [OF assms(2) that assms(3)] False by simp
  then show ?thesis using assms(1) False by (simp add: bst_node_init_def Let_def)
qed

lemma node_init_other:
  "\<not> inside new 12 x \<Longrightarrow> snd (bst_node_init m new) x = m x"
  by (simp add: bst_node_init_def Let_def set_child_other)

lemma bst_search_eq:
  assumes "is_bst m root t" "root \<noteq> NULL" "key \<noteq> NULL"
    and "\<forall>a\<in>set_tree t. cmp m a key = Some (dir a) \<and> dir a \<in> dirs"
  shows "bst_search m root key (Some cmp) =
    Some (case t_find dir t of Some q \<Rightarrow> q | None \<Rightarrow> NULL)"
proof -
  have t: "t \<noteq> Leaf" using assms(1,2) is_bst_root by auto
  have c: "cmp m root key = Some (dir root)" using assms(1,2,4) by (cases t) auto
  have w: "bst_walk m (\<lambda>p. cmp m p key) root (dir root) = Some (t_stop dir t, dir (t_stop dir t))"
    by (rule walk_stop [OF assms(1) t assms(4)])
  show ?thesis
    using t_find_stop [OF t, of dir] assms(4) by (simp add: bst_search_def assms(2,3) c w)
qed

text \<open>
  \<open>bst_insert\<close> inserts where the comparisons send it, returns the node, or \<open>NULL\<close> when one of them
  says \<open>BST_ERROR\<close>, and writes nothing but the links of the tree and of the new node.
\<close>

lemma bst_insert_eq:
  fixes m root new t cmp dir
  defines "m1 \<equiv> snd (bst_node_init m new)"
  assumes bst: "is_bst m root t" and root: "root \<noteq> NULL" and new: "new \<noteq> NULL"
    and ok: "bst_nodes_ok (new # inorder t)"
    and cmp: "\<forall>a\<in>set_tree t. cmp m1 a new = Some (dir a) \<and> dir a \<in> dirs"
  shows "\<exists>m2. bst_insert m root new (Some cmp) = Some (if t_find dir t = None then new else NULL, m2)
    \<and> is_bst m2 root (t_insert dir new t)
    \<and> (\<forall>x. (\<forall>a\<in>set (new # inorder t). \<not> inside a 12 x) \<longrightarrow> m2 x = m x)"
proof -
  have t: "t \<noteq> Leaf" using bst root is_bst_root by auto
  have dirs: "\<forall>a\<in>set_tree t. dir a \<in> dirs" using cmp by blast
  have c: "cmp m1 root new = Some (dir root)" using bst t cmp by (cases t) auto
  have distinct: "distinct (new # inorder t)" using ok by (rule bst_nodes_distinct)
  have apart: "a = b \<or> apart a 12 b 12" if "a \<in> insert new (set_tree t)" "b \<in> insert new (set_tree t)" for a b
    using bst_nodes_apart [OF ok] that by auto
  have m1: "bst_child m1 a d = (if a = new then NULL else bst_child m a d)"
    if "a \<in> insert new (set_tree t)" "d \<in> dirs" for a d
    unfolding m1_def by (rule node_init_children [OF new that(2) apart]) (use that in auto)
  have bst1: "is_bst m1 root t"
  proof -
    have "bst_child m a d = bst_child m1 a d" if "a \<in> set_tree t" "d \<in> dirs" for a d
      using m1 [of a d] that distinct by auto
    then show ?thesis using bst is_bst_cong by metis
  qed
  define q where "q = t_stop dir t"
  have q: "q \<in> set_tree t" "q \<noteq> new" using t_stop_in [OF t] distinct by (auto simp: q_def)
  have dq: "dir q \<in> dirs" using dirs q by simp
  have w: "bst_walk m1 (\<lambda>p. cmp m1 p new) root (dir root) = Some (q, dir q)"
    using walk_stop [OF bst1 t cmp] by (simp add: q_def)
  define v where "v = (if dir q = BST_ERROR then NULL else new)"
  define m2 where "m2 = set_child m1 q (dir q) v"
  have m2: "bst_child m2 a d = (if a = q \<and> d = dir q then v else bst_child m1 a d)"
    if "a \<in> insert new (set_tree t)" "d \<in> dirs" for a d
    unfolding m2_def using child_set_child [OF that(2) dq apart [of a q]] that q(1) by auto
  have "bst_insert m root new (Some cmp) = Some (v, m2)"
  proof -
    have "bst_child m2 q (dir q) = v" using m2 [of q "dir q"] q(1) dq by simp
    moreover have "bst_node_init m new = (0, m1)" using new by (simp add: m1_def bst_node_init_def Let_def)
    ultimately show ?thesis
      using w c root new by (simp add: bst_insert_def case_prod_beta flip: v_def m2_def)
  qed
  moreover have "v = (if t_find dir t = None then new else NULL)"
    using t_find_stop [OF t dirs] by (simp add: v_def q_def)
  moreover have "is_bst m2 root (t_insert dir new t)"
  proof (cases "dir q = BST_ERROR")
    case True
    have "is_bst m2 root t"
    proof -
      have "bst_child m1 a d = bst_child m2 a d" if "a \<in> set_tree t" "d \<in> dirs" for a d
        using m2 [of a d] that True is_bst_match [OF bst1 q(1)] by (auto simp: v_def)
      then show ?thesis using bst1 is_bst_cong by metis
    qed
    then show ?thesis using t_insert_stop [OF t] True by (simp add: q_def)
  next
    case False
    have "is_bst m2 new (Node Leaf new Leaf)" using m2 [of new] m1 [of new] new q by simp
    moreover have "\<forall>a\<in>set_tree t. \<forall>d\<in>dirs. bst_child m2 a d =
          (if a = t_stop dir t \<and> d = dir (t_stop dir t) then new else bst_child m1 a d)"
      using m2 False by (simp add: q_def [symmetric] v_def)
    ultimately show ?thesis
      using insert_at_stop [OF bst1 t dirs] distinct False by (simp add: q_def [symmetric])
  qed
  moreover have "m2 x = m x" if "\<forall>a\<in>set (new # inorder t). \<not> inside a 12 x" for x
    using that q(1) dq by (simp add: m2_def m1_def set_child_other node_init_other)
  ultimately show ?thesis by auto
qed


subsection \<open>The contract of the comparison functions\<close>

text \<open>
  \<open>icmp a new\<close> is the direction the insertion of \<open>new\<close> takes at \<open>a\<close>, \<open>scmp a k\<close> that of the
  search for \<open>k\<close>.  The two have to agree, and a node has to match its own key.
\<close>

locale bst_order =
  fixes ok :: "'a \<Rightarrow> bool" and key :: "'a \<Rightarrow> 'k"
    and icmp :: "'a \<Rightarrow> 'a \<Rightarrow> int" and scmp :: "'a \<Rightarrow> 'k \<Rightarrow> int"
  assumes agree: "ok a \<Longrightarrow> ok b \<Longrightarrow> scmp a (key b) = icmp a b"
    and match_self: "ok a \<Longrightarrow> scmp a (key a) = BST_MATCH"
    and scmp_dirs: "scmp a k \<in> dirs"
begin

abbreviation insert_node :: "'a \<Rightarrow> 'a tree \<Rightarrow> 'a tree" where
  "insert_node x \<equiv> t_insert (\<lambda>a. icmp a x) x"

abbreviation find_key :: "'k \<Rightarrow> 'a tree \<Rightarrow> 'a option" where
  "find_key k \<equiv> t_find (\<lambda>a. scmp a k)"

lemma set_insert_node: "set_tree (insert_node x t) \<subseteq> insert x (set_tree t)"
  by (induction t) auto

lemma find_agree: "ok x \<Longrightarrow> \<forall>a\<in>set_tree t. ok a \<Longrightarrow> t_find (\<lambda>a. icmp a x) t = find_key (key x) t"
  by (induction t) (auto simp: agree)

text \<open>A node that was inserted is found under its key; what was found before still is.\<close>

lemma icmp_self: "ok a \<Longrightarrow> icmp a a = BST_MATCH"
  using agree [of a a] match_self by simp

lemma find_inserted:
  "ok x \<Longrightarrow> \<forall>a\<in>set_tree t. ok a \<Longrightarrow> find_key (key x) t = None \<Longrightarrow> find_key (key x) (insert_node x t) = Some x"
  by (induction t) (auto simp: agree icmp_self)

lemma find_kept: "find_key k t = Some a \<Longrightarrow> find_key k (insert_node x t) = Some a"
  by (induction t) (auto split: if_splits)

lemma insert_duplicate:
  "ok x \<Longrightarrow> \<forall>a\<in>set_tree t. ok a \<Longrightarrow> find_key (key x) t = Some a \<Longrightarrow> insert_node x t = t"
  by (induction t) (auto simp: agree split: if_splits)

text \<open>Every node of a tree built by insertion is found under its own key.\<close>

definition reachable :: "'a tree \<Rightarrow> bool" where
  "reachable t \<longleftrightarrow> (\<forall>a\<in>set_tree t. ok a \<and> find_key (key a) t = Some a)"

lemma reachable_insert: "reachable t \<Longrightarrow> ok x \<Longrightarrow> reachable (insert_node x t)"
proof -
  assume r: "reachable t" and x: "ok x"
  then have ok: "\<forall>a\<in>set_tree t. ok a" by (simp add: reachable_def)
  show ?thesis
  proof (cases "find_key (key x) t")
    case None
    then show ?thesis
      using r x find_inserted [OF x ok] find_kept set_insert_node [of x t] by (auto simp: reachable_def)
  next
    case (Some a)
    then show ?thesis using insert_duplicate [OF x ok] r by simp
  qed
qed

lemma reachable_fold: "\<forall>x\<in>set xs. ok x \<Longrightarrow> reachable t \<Longrightarrow> reachable (fold insert_node xs t)"
  by (induction xs arbitrary: t) (auto simp: reachable_insert)

end

end
