(* ===== verification/Base_Props.thy ===== *)
theory Base_Props
  imports Cmath Cstring Lists Bitmap Bstree
begin

text \<open>What the string routines, the lists, the bitmaps and the search trees promise.\<close>

subsection \<open>Strings and numbers\<close>

lemma cstr_put:
  assumes "0 \<notin> set bs" "length bs < 4294967295"
  shows "cstr (put m a (bs @ [0])) a bs"
proof -
  have n: "put m a (bs @ [0]) (a + of_nat i) = (bs @ [0]) ! i" if "i \<le> length bs" for i
    using put_nth [of "bs @ [0]" i m a] that assms(2) by simp
  show ?thesis using assms n by (auto simp: cstr_iff nth_append)
qed

lemma cstr_put_other:
  assumes "cstr m a bs" "length bs < 4294967295" "apart a (Suc (length bs)) b (length cs)"
  shows "cstr (put m b cs) a bs"
proof -
  have "cstr m a bs = cstr (put m b cs) a bs"
    by (rule cstr_cong) (use assms(2) in simp, use assms(3) in \<open>auto simp: put_other dest: apart_inside\<close>)
  then show ?thesis using assms(1) by simp
qed

lemma cstr_first: "cstr m a bs \<Longrightarrow> m a = 0 \<longleftrightarrow> bs = []"
  by (cases bs) (auto simp: cstr_iff)

text \<open>C17: \<open>itoa\<close> writes the decimal digits of every \<open>int\<close> but \<open>INT_MIN\<close>, from which the number can
  be read back, and touches nothing outside its buffers.\<close>

theorem itoa_roundtrip:
  assumes "INT_MIN < n" "n \<le> INT_MAX" and "buf \<noteq> NULL" "rb \<noteq> NULL" "s \<noteq> NULL"
    and "apart rb 12 buf 12" "apart s 12 buf 12"
  shows "\<exists>m' ds. itoa m buf rb n s = Some m' \<and> cstr m' s ds \<and> undec ds = n
      \<and> (\<forall>x. \<not> inside rb 12 x \<longrightarrow> \<not> inside buf 12 x \<longrightarrow> \<not> inside s 12 x \<longrightarrow> m' x = m x)"
  using itoa_correct [OF assms] undec_dec_string by blast

lemma itoa_roundtrip_witness:
  "\<exists>m' ds. itoa (\<lambda>_. 0) 0x100 0x200 (-120) 0x300 = Some m' \<and> cstr m' 0x300 ds \<and> undec ds = -120"
proof -
  have "apart 0x200 12 0x100 12" "apart 0x300 12 0x100 12" by (simp_all add: apart_def)
  from itoa_roundtrip [OF _ _ _ _ _ this, of "-120" "\<lambda>_. 0"] show ?thesis by auto
qed

text \<open>\<open>strcmp\<close> returns zero when one string is a prefix of the other and not empty: it compares
  the common length only; the empty string equals just itself.\<close>

theorem strcmp_zero:
  assumes "cstr m s1 xs" "cstr m s2 ys" "s1 \<noteq> NULL" "s2 \<noteq> NULL"
    "length xs < 2147483647" "length ys < 2147483647"
  shows "\<exists>d. strcmp m s1 s2 = Some d
    \<and> (d = 0 \<longleftrightarrow> (if xs = [] \<or> ys = [] then xs = ys else take (length ys) xs = take (length xs) ys))"
proof -
  have e: "m s1 = 0 \<longleftrightarrow> xs = []" "m s2 = 0 \<longleftrightarrow> ys = []"
    using assms(1,2) by (simp_all add: cstr_first)
  have "sint (m s1) - sint (m s2) = 0 \<longleftrightarrow> xs = ys" if "xs = [] \<or> ys = []"
  proof -
    have "sint (m s1) - sint (m s2) = 0 \<longleftrightarrow> m s1 = m s2" by (metis eq_iff_diff_eq_0 sint_eq_iff)
    then show ?thesis using that e by metis
  qed
  then show ?thesis using strcmp_correct [OF assms] first_diff_eq_0 [of xs ys] by auto
qed

lemma strcmp_zero_witness:
  "strcmp (put (put (\<lambda>_. 0) 0x100 ([97, 98] @ [0])) 0x200 ([97] @ [0])) 0x100 0x200 = Some 0"
proof -
  let ?m1 = "put (\<lambda>_. 0) 0x100 ([97, 98] @ [0])"
  have "cstr (put ?m1 0x200 ([97] @ [0])) 0x200 [97]" by (rule cstr_put) auto
  moreover have "cstr (put ?m1 0x200 ([97] @ [0])) 0x100 [97, 98]"
    by (rule cstr_put_other [OF cstr_put]) (auto simp: apart_def)
  ultimately show ?thesis using strcmp_zero [of _ "0x100" "[97, 98]" "0x200" "[97]"] by auto
qed

text \<open>The two versions of \<open>strcmp\<close> in the tree, one calling \<open>strncmp\<close> and one with its own loop, agree on
  every memory and every two pointers, also in whether they return.\<close>

theorem strcmp_versions_agree: "strcmp_root m s1 s2 = strcmp m s1 s2"
  by (rule strcmp_root_eq)

text \<open>\<open>reverse\<close> twice gives the string back.\<close>

theorem reverse_reverse:
  assumes "cstr m str bs" "str \<noteq> NULL" "rb \<noteq> NULL" "length bs < 2147483647"
    and "apart rb (length bs) str (Suc (length bs))"
  shows "\<exists>m1 m2. reverse m rb str = Some m1 \<and> cstr m1 str (rev bs) \<and> reverse m1 rb str = Some m2 \<and> cstr m2 str bs"
proof -
  obtain m1 where m1: "reverse m rb str = Some m1" "cstr m1 str (rev bs)"
    using reverse_correct [OF assms] by blast
  moreover obtain m2 where "reverse m1 rb str = Some m2" "cstr m2 str (rev (rev bs))"
    using reverse_correct [OF m1(2) assms(2,3), of] assms(4,5) by auto
  ultimately show ?thesis by auto
qed

lemma reverse_reverse_witness:
  "\<exists>m1 m2. reverse (put (\<lambda>_. 0) 0x100 [1, 2, 3, 0]) 0x200 0x100 = Some m1 \<and> cstr m1 0x100 [3, 2, 1]
     \<and> reverse m1 0x200 0x100 = Some m2 \<and> cstr m2 0x100 [1, 2, 3]"
proof -
  have "cstr (put (\<lambda>_. 0) 0x100 ([1, 2, 3] @ [0])) 0x100 [1, 2, 3]" by (rule cstr_put) auto
  from reverse_reverse [OF this, of "0x200"] show ?thesis by (simp add: apart_def)
qed

subsection \<open>Lists\<close>

text \<open>C16: a list is a queue: any nodes added by \<open>list_add\<close> come back from \<open>list_get\<close> in order,
  behind those that were there, and then \<open>list_get\<close> answers \<open>NULL\<close> and leaves memory alone.\<close>

theorem list_fifo:
  assumes "dlist m head xs" "nodes_ok (head # xs @ ns)"
  shows "\<exists>m'. pop_all list_get (push_all list_add m head ns) head (length (xs @ ns)) = (xs @ ns, m')
    \<and> list_get m' head = (NULL, m')"
  by (rule lq.fifo [OF assms])

lemma init_dlist: "head \<noteq> NULL \<Longrightarrow> dlist (list_init_head m head) head []"
  by (rule dlist_init)

lemma list_fifo_witness:
  "\<exists>m'. pop_all list_get (push_all list_add (list_init_head (\<lambda>_. 0) 0x1000) 0x1000 [0x2000, 0x3000, 0x4000]) 0x1000 3
     = ([0x2000, 0x3000, 0x4000], m') \<and> list_get m' 0x1000 = (NULL, m')"
  using list_fifo [of "list_init_head (\<lambda>_. 0) 0x1000" "0x1000" "[]" "[0x2000, 0x3000, 0x4000]"]
  by (simp add: dlist_init nodes_ok_def apart_def numeral_3_eq_3 del: pop_all.simps)

text \<open>Taking a node out of the middle of one list and adding it to another keeps both lists, each
  in order, and walking them with \<open>list_for_each\<close> visits exactly their nodes.\<close>

theorem list_move:
  assumes "dlist m h (xs @ x # ys)" "dlist (snd (list_del m h x)) g zs" "nodes_ok (g # zs @ [x])"
  shows "list_for_each (snd (list_del m h x)) h = Some (xs @ ys)
    \<and> list_for_each (snd (list_add (snd (list_del m h x)) g x)) g = Some (zs @ [x])"
  using lq.move [OF assms] list_for_each_dlist by blast

text \<open>The witness: two nodes on one list, an empty one beside it.\<close>

lemma list_move_witness:
  "\<exists>m. list_for_each m 0x1000 = Some [0x2000, 0x3000]
     \<and> list_for_each (snd (list_del m 0x1000 0x2000)) 0x1000 = Some [0x3000]
     \<and> list_for_each (snd (list_add (snd (list_del m 0x1000 0x2000)) 0x5000 0x2000)) 0x5000 = Some [0x2000]"
proof -
  let ?start = "list_init_head (list_init_head (\<lambda>_. 0) 0x5000) 0x1000"
  let ?two = "push_all list_add ?start 0x1000 [0x2000, 0x3000]"
  have d: "dlist ?two 0x1000 ([] @ 0x2000 # [0x3000])"
    using lq.push_all_rep [of ?start "0x1000" "[]" "[0x2000, 0x3000]"] by (simp add: dlist_init nodes_ok_def apart_def)
  have g: "dlist (snd (list_del ?two 0x1000 0x2000)) 0x5000 []"
    by code_simp
  show ?thesis
    using list_move [OF d g] list_for_each_dlist [OF d] by (simp add: nodes_ok_def apart_def) blast
qed

text \<open>the top-level \<open>list_get\<close> leaves a list of more than one node broken: the first remaining
  node still points back at the node that was taken.\<close>

theorem list_get_root_stale:
  assumes "dlist m head (x # y # xs)"
  shows "fst (list_get_root m head) = x \<and> l_prev (snd (list_get_root m head)) y = x
    \<and> \<not> dlist (snd (list_get_root m head)) head (y # xs)"
  by (rule list_get_root_breaks [OF assms])

lemma list_get_root_stale_witness:
  "l_prev (snd (list_get_root (push_all list_add (list_init_head (\<lambda>_. 0) 0x1000) 0x1000 [0x2000, 0x3000]) 0x1000)) 0x3000
     = 0x2000"
proof -
  let ?start = "list_init_head (\<lambda>_. 0) 0x1000"
  have "dlist (push_all list_add ?start 0x1000 [0x2000, 0x3000]) 0x1000 [0x2000, 0x3000]"
    using lq.push_all_rep [of ?start "0x1000" "[]" "[0x2000, 0x3000]"] by (simp add: dlist_init nodes_ok_def apart_def)
  from list_get_root_stale [OF this] show ?thesis by blast
qed

subsection \<open>Bitmaps and trees\<close>

text \<open>C23: a client that searches a bitmap for a clear bit and sets it, \<open>k\<close> times, gets ascending
  indices that were clear, each once; the bits set afterwards are the old ones and these; fewer than
  \<open>k\<close> indices mean that the bitmap is full.\<close>

theorem bitmap_claims:
  assumes "bm_wf b" "claim bitmap_search bitmap_mark m b k = (is, m')"
  shows "sorted_wrt (<) is \<and> (\<forall>i\<in>set is. i < bm_cap b \<and> \<not> bitmap_holds m b i)
    \<and> (\<forall>j<bm_cap b. bitmap_holds m' b j \<longleftrightarrow> bitmap_holds m b j \<or> j \<in> set is)
    \<and> (length is < k \<longrightarrow> (\<forall>j<bm_cap b. bitmap_holds m' b j))"
  by (rule bits.claim_spec [OF assms])

lemma bitmap_claims_witness:
  "\<exists>(b :: bitmap) is m'. bmp_size b = 2 \<and> claim bitmap_search bitmap_mark (\<lambda>_. 0) b 3 = (is, m')
     \<and> sorted_wrt (<) is \<and> (\<forall>i\<in>set is. bitmap_holds m' b i)"
proof -
  let ?b = "\<lparr>bmp_base = 0x1000, bmp_bit = 32, bmp_size = 2\<rparr> :: bitmap"
  obtain "is" m' where c: "claim bitmap_search bitmap_mark (\<lambda>_. 0) ?b 3 = (is, m')" by fastforce
  have wf: "bm_wf ?b" by (simp add: bm_wf_def)
  show ?thesis using bitmap_claims [OF wf c] c by (intro exI [of _ ?b] exI [of _ "is"] exI [of _ m']) auto
qed

text \<open>C24: \<open>bst_insert\<close> hangs the new node where the comparisons lead and returns it, or returns
  \<open>NULL\<close> when a node compares as equal; memory outside the nodes is untouched.\<close>

theorem bst_insert_refines:
  assumes "is_bst m root t" "root \<noteq> NULL" "new \<noteq> NULL" "bst_nodes_ok (new # inorder t)"
    and "\<forall>a\<in>set_tree t. cmp (snd (bst_node_init m new)) a new = Some (dir a) \<and> dir a \<in> dirs"
  shows "\<exists>m'. bst_insert m root new (Some cmp) =
      Some (if t_find dir t = None then new else NULL, m')
    \<and> is_bst m' root (t_insert dir new t)
    \<and> (\<forall>x. (\<forall>a\<in>set (new # inorder t). \<not> inside a 12 x) \<longrightarrow> m' x = m x)"
  using bst_insert_eq [OF assms(1-4), of cmp dir] assms(5) by blast

lemma bst_insert_refines_witness:
  "\<exists>m'. bst_insert (\<lambda>_. 0) 0x1000 0x2000 (Some (\<lambda>m a b. Some (if a < b then 1 else if b < a then 0 else 2)))
      = Some (0x2000, m')
    \<and> is_bst m' 0x1000 (Node Leaf 0x1000 (Node Leaf 0x2000 Leaf))"
proof -
  have "is_bst (\<lambda>_. 0) 0x1000 (Node Leaf 0x1000 Leaf)" by (simp add: bst_child_def ld32_def)
  moreover have "bst_nodes_ok (0x2000 # inorder (Node Leaf 0x1000 Leaf))" by (simp add: bst_nodes_ok_def apart_def)
  ultimately show ?thesis
    using bst_insert_refines [of "\<lambda>_. 0" "0x1000" "Node Leaf 0x1000 Leaf" "0x2000"
      "\<lambda>m a b. Some (if a < b then 1 else if b < a then 0 else 2)"
      "\<lambda>a. if a < 0x2000 then 1 else if 0x2000 < a then 0 else 2"] by auto
qed

text \<open>\<open>log\<close> inverts \<open>power\<close>: where the power does not overflow, the logarithm of \<open>base ^ exp\<close> is
  \<open>exp\<close>.\<close>

theorem log_power:
  assumes "1 < base" "0 \<le> exp" "base ^ nat exp \<le> INT_MAX"
  shows "\<exists>p. power base exp = Some p \<and> (base \<le> INT_MAX \<longrightarrow> c_log (to_u32 base) p = Some exp)"
proof -
  let ?b = "nat base" and ?e = "nat exp"
  let ?p = "to_u32 (base ^ ?e)"
  have p: "power base exp = Some ?p" using power_correct [OF assms(1,2)] assms(3) by simp
  have "c_log (to_u32 base) ?p = Some exp" if b: "base \<le> INT_MAX"
  proof -
    have "base ^ ?e = int (?b ^ ?e)" using assms(1) by simp
    then have lt: "?b ^ ?e < 2147483648" using assms(3) by linarith
    then have u: "unat ?p = ?b ^ ?e"
      using \<open>base ^ ?e = int (?b ^ ?e)\<close> by (simp add: to_u32_def unat_of_nat_lt del: of_nat_power)
    have ub: "unat (to_u32 base) = ?b" using assms(1) b by (simp add: to_u32_def unsigned_of_int take_bit_int_eq_self)
    have b1: "1 < ?b" using assms(1) by simp
    have "1 < unat (to_u32 base)" "0 < unat ?p" "unat ?p < 2147483648" using u ub b1 lt by simp_all
    then obtain k where k: "c_log (to_u32 base) ?p = Some (int k)" "?b ^ k \<le> ?b ^ ?e" "?b ^ ?e < ?b ^ Suc k"
      using c_log_correct [of "to_u32 base" ?p] unfolding u ub by blast
    then have "k \<le> ?e" "?e < Suc k" using power_increasing_iff [OF b1] power_strict_increasing_iff [OF b1] by blast+
    then show ?thesis using k(1) assms(2) by auto
  qed
  then show ?thesis using p by blast
qed

lemma log_power_witness: "\<exists>p. power 3 7 = Some p \<and> c_log 3 p = Some 7"
  using log_power [of 3 7] by (simp add: to_u32_def)

end
