(* ===== verification/Mm.thy ===== *)
theory Mm
  imports Cstring Cmath
begin

text \<open>
  \<open>mm.c\<close>: the memory manager's book-keeping, where the primary (buddy) and the secondary (pool)
  allocator lie and how large they are, and the table of memory areas.  The kernel's memory and the
  record \<open>mmm\<close> are the first fields of the state that the allocators extend.  \<open>mm_init\<close>, which
  starts the allocators, stands in \<open>Mmi\<close>.  A function without a return statement leaves its result
  to the caller's register: that value is the argument \<open>junk\<close>.
\<close>

abbreviation MM_BASE :: u32 where "MM_BASE \<equiv> 0x2000000"
abbreviation MM_META_SIZE :: u32 where "MM_META_SIZE \<equiv> 0x10000"
abbreviation MM_PAGE_SIZE :: int where "MM_PAGE_SIZE \<equiv> 0x800"
abbreviation MM_HEAP_MIN_SIZE :: int where "MM_HEAP_MIN_SIZE \<equiv> 0x20000"
abbreviation MM_PRI_CHUNK_LLC :: int where "MM_PRI_CHUNK_LLC \<equiv> 2048"
abbreviation MM_PRI_CHUNK_ULC :: int where "MM_PRI_CHUNK_ULC \<equiv> 2048 * 2 ^ 11"
abbreviation MM_SEC_CHUNK_ULC :: int where "MM_SEC_CHUNK_ULC \<equiv> 1024"
abbreviation MM_SEC_CHUNK_LLC :: int where "MM_SEC_CHUNK_LLC \<equiv> 16"
abbreviation MM_PRI :: int where "MM_PRI \<equiv> 0"
abbreviation MM_SEC :: int where "MM_SEC \<equiv> 1"

record mm =
  mm_base :: addr
  mm_size :: int
  mm_llc :: int
  mm_ulc :: int

record mm_mgr =
  org_size :: int
  heap_size :: int
  used_size :: int
  free_size :: int
  rmd_size :: int
  pri :: mm
  sec :: mm
  ml :: addr
  ml_list :: addr
  mem_num :: u32

record kernel =
  km :: mem
  mmm :: mm_mgr

text \<open>\<open>struct memory_layout\<close>: a name of 64 bytes, a base and a size, 72 bytes in all.\<close>

definition ml_at :: "mm_mgr \<Rightarrow> u32 \<Rightarrow> addr" where
  "ml_at g i = ml g + 72 * i"

definition mm_get_ml :: "'a kernel_scheme \<Rightarrow> addr" where
  "mm_get_ml s =
     (let e = ml_at (mmm s) (mem_num (mmm s) - 1)
      in ld32 (km s) (e + 64) + ld32 (km s) (e + 68))"

definition mm_set_info :: "'a kernel_scheme \<Rightarrow> int \<Rightarrow> addr \<Rightarrow> addr \<Rightarrow> u32 \<Rightarrow> (int \<times> 'a kernel_scheme) option" where
  "mm_set_info s junk name base sz =
     (if sz < 1 then Some (- EINVAL, s)
      else do {
        n \<leftarrow> strlen (km s) name;
        let len = to_u32 n;
        if len < 0 \<or> len > 64 then Some (- EINVAL, s)
        else if mem_num (mmm s) * 72 \<ge> MM_META_SIZE then Some (- ENOMEM, s)
        else
          let lout = ml_at (mmm s) (mem_num (mmm s));
              m = snd (memcpy (km s) lout name (to_s32 len));
              m = st32 m (lout + 64) base;
              m = st32 m (lout + 68) sz
          in Some (junk, s\<lparr>km := m, mmm := (mmm s)\<lparr>mem_num := mem_num (mmm s) + 1\<rparr>\<rparr>) })"

definition mm_where_is_addr :: "'a kernel_scheme \<Rightarrow> addr \<Rightarrow> int" where
  "mm_where_is_addr s addr =
     (if addr = NULL then -1
      else if addr \<ge> mm_base (sec (mmm s))
        \<and> addr < mm_base (sec (mmm s)) + to_u32 (mm_size (sec (mmm s))) then MM_SEC
      else MM_PRI)"

definition mm_get_pri_size :: "'a kernel_scheme \<Rightarrow> int" where
  "mm_get_pri_size s = mm_size (pri (mmm s))"

definition mm_set_pri_size :: "'a kernel_scheme \<Rightarrow> int \<Rightarrow> int \<Rightarrow> int \<times> 'a kernel_scheme" where
  "mm_set_pri_size s junk sz =
     (if sz < 1 then (-1, s)
      else (junk, s\<lparr>mmm := (mmm s)\<lparr>pri := (pri (mmm s))\<lparr>mm_size := sz\<rparr>\<rparr>\<rparr>))"

definition mm_set_pri_base :: "'a kernel_scheme \<Rightarrow> int \<Rightarrow> addr \<Rightarrow> int \<times> 'a kernel_scheme" where
  "mm_set_pri_base s junk base =
     (if base = NULL then (-1, s)
      else (junk, s\<lparr>mmm := (mmm s)\<lparr>pri := (pri (mmm s))\<lparr>mm_base := base\<rparr>\<rparr>\<rparr>))"

definition mm_get_sec_size :: "'a kernel_scheme \<Rightarrow> int" where
  "mm_get_sec_size s = mm_size (sec (mmm s))"

definition mm_set_sec_size :: "'a kernel_scheme \<Rightarrow> int \<Rightarrow> int \<Rightarrow> int \<times> 'a kernel_scheme" where
  "mm_set_sec_size s junk sz =
     (if sz < 1 then (-1, s)
      else (junk, s\<lparr>mmm := (mmm s)\<lparr>sec := (sec (mmm s))\<lparr>mm_size := sz\<rparr>\<rparr>\<rparr>))"

definition mm_set_sec_base :: "'a kernel_scheme \<Rightarrow> int \<Rightarrow> addr \<Rightarrow> int \<times> 'a kernel_scheme" where
  "mm_set_sec_base s junk base =
     (if base = NULL then (-1, s)
      else (junk, s\<lparr>mmm := (mmm s)\<lparr>sec := (sec (mmm s))\<lparr>mm_base := base\<rparr>\<rparr>\<rparr>))"

definition mm_get_pri_ulc :: int where "mm_get_pri_ulc = MM_PRI_CHUNK_ULC"
definition mm_get_pri_llc :: int where "mm_get_pri_llc = MM_PRI_CHUNK_LLC"
definition mm_get_sec_ulc :: int where "mm_get_sec_ulc = MM_SEC_CHUNK_ULC"
definition mm_get_sec_llc :: int where "mm_get_sec_llc = MM_SEC_CHUNK_LLC"

text \<open>An address is secondary exactly when it lies in the block the pool allocator was given.\<close>

lemma mm_where_sec:
  assumes "mm_base (sec (mmm s)) \<noteq> NULL" "0 \<le> mm_size (sec (mmm s))" "mm_size (sec (mmm s)) \<le> INT_MAX"
    and "unat (mm_base (sec (mmm s))) + nat (mm_size (sec (mmm s))) < 2 ^ 32"
  shows "mm_where_is_addr s a = MM_SEC \<longleftrightarrow> inside (mm_base (sec (mmm s))) (nat (mm_size (sec (mmm s)))) a"
proof -
  define b n where "b = mm_base (sec (mmm s))" and "n = nat (mm_size (sec (mmm s)))"
  have n: "to_u32 (mm_size (sec (mmm s))) = of_nat n" using assms(2) by (simp add: to_u32_def n_def)
  have u: "unat (b + of_nat n) = unat b + n"
    using assms(4) by (simp add: b_def [symmetric] n_def [symmetric] unat_word_ariths unsigned_of_nat take_bit_nat_eq_self)
  have "b \<le> a \<and> a < b + of_nat n \<longleftrightarrow> inside b n a"
    using assms(4) u by (auto simp: inside_def word_le_nat_alt word_less_nat_alt unat_sub_if' b_def [symmetric] n_def [symmetric])
  moreover have "b \<le> a \<Longrightarrow> a \<noteq> NULL" using assms(1) by (auto simp: b_def)
  ultimately show ?thesis by (auto simp: mm_where_is_addr_def n b_def [symmetric] n_def [symmetric])
qed

end
