(* ===== verification/Buddy.thy ===== *)
theory Buddy
  imports Mm Bitmap Lists
begin

text \<open>
  \<open>buddy.c\<close>: the primary allocator.  The heap is cut into blocks of \<open>ll * 2^ord\<close> bytes for every
  order below \<open>dep\<close>; each order has a bitmap in memory, and a byte per smallest block records the
  order a block was allocated at.  Single pages go through \<open>lazy\<close>, a list of pages kept ready.

  The array \<open>bud\<close> of \<open>struct bitmaps\<close>, which lies at the start of the heap's meta data, is a list
  of records; the bitmaps' words, the headers and the list nodes are in the kernel's memory.
\<close>

abbreviation BUD_FREE :: int where "BUD_FREE \<equiv> 0"
abbreviation BUD_USED :: int where "BUD_USED \<equiv> 1"
abbreviation BUD_MAX_ORD :: nat where "BUD_MAX_ORD \<equiv> 11"
abbreviation BUD_MIN_CHUNK :: int where "BUD_MIN_CHUNK \<equiv> 8"
abbreviation BITMAPS_SIZE :: u32 where "BITMAPS_SIZE \<equiv> 24"
abbreviation LAZY_PAGE_SIZE :: int where "LAZY_PAGE_SIZE \<equiv> 12"

record bitmaps =
  bs_ord :: u32
  bs_num :: u32
  bs_frees :: u32
  bs_bmp :: bitmap

record bud_manager =
  bm_dep :: u32
  bm_bitmap_size :: u8
  bm_ll :: u32
  bm_ul :: u32
  bm_hdr_base :: addr
  bm_hdr_size :: u32
  bm_org_size :: int
  bm_heap_meta_base :: addr
  bm_heap_meta_size :: int
  bm_heap_base :: addr
  bm_heap_size :: int
  bm_rmd_size :: int

record lazy_buddy =
  lz_frees :: addr
  lz_inuses :: addr
  lz_batch :: int
  lz_wmk :: int
  lz_unum :: int
  lz_fnum :: int

record bud_state = kernel +
  bm :: bud_manager
  bud :: "bitmaps list"
  lazy :: lazy_buddy

text \<open>\<open>IS_MEM_ERR\<close>: null, or outside of \<open>[MM_BASE, MM_BASE + heap_size)\<close>.\<close>

definition is_mem_err :: "'a bud_state_scheme \<Rightarrow> addr \<Rightarrow> bool" where
  "is_mem_err s x \<longleftrightarrow> x = NULL \<or> x \<ge> MM_BASE + to_u32 (bm_heap_size (bm s)) \<or> x < MM_BASE"

subsection \<open>Sizes, orders and depth\<close>

fun dbl :: "u32 \<Rightarrow> nat \<Rightarrow> u32" where
  "dbl chunk 0 = chunk"
| "dbl chunk (Suc dep) = dbl (chunk * 2) dep"

definition bud_get_chunk :: "'a bud_state_scheme \<Rightarrow> int \<Rightarrow> int" where
  "bud_get_chunk s dep = (if dep < 0 then -1 else to_s32 (dbl (bm_ll (bm s)) (nat dep)))"

text \<open>The loop ends by \<open>BUD_MAX_ORD\<close>, so \<open>ll\<close> never grows beyond an eighth of the heap.\<close>

function get_dep_loop :: "int \<Rightarrow> int \<Rightarrow> nat \<Rightarrow> int option" where
  "get_dep_loop heap ll i =
     (if ll \<le> heap then
        (if ll = 0 then None
         else if heap sdiv ll < BUD_MIN_CHUNK then Some (int i)
         else if i \<ge> BUD_MAX_ORD then Some (int i)
         else do { ll' \<leftarrow> s32_ok (ll * 2); get_dep_loop heap ll' (Suc i) })
      else Some (int i))"
  by pat_completeness auto
termination
  by (relation "measure (\<lambda>(heap, ll, i). 12 - i)") auto

definition bud_get_dep :: "int \<Rightarrow> int \<Rightarrow> int option" where
  "bud_get_dep heap ll =
     (if heap < 1 \<or> ll < 1 then Some (- EINVAL)
      else if heap \<le> ll then Some (-1)
      else get_dep_loop heap ll 0)"

function rndup_loop :: "u32 \<Rightarrow> u32 \<Rightarrow> u32 \<Rightarrow> u32 \<Rightarrow> int" where
  "rndup_loop sz dep block i =
     (if i < dep then
        (if sz \<le> block then to_s32 block else rndup_loop sz dep (block * 2) (i + 1))
      else -1)"
  by pat_completeness auto
termination
  by (relation "measure (\<lambda>(sz, dep, block, i). unat dep - unat i)")
    (auto simp: unat_inc word_less_nat_alt)

definition bud_rndup :: "'a bud_state_scheme \<Rightarrow> int \<Rightarrow> int" where
  "bud_rndup s sz =
     (if sz < 1 \<or> sz > bm_heap_size (bm s) then - EINVAL
      else rndup_loop (to_u32 sz) (bm_dep (bm s)) (bm_ll (bm s)) 0)"

function get_ord_loop :: "u32 \<Rightarrow> u32 \<Rightarrow> u32 \<Rightarrow> u32 \<Rightarrow> int" where
  "get_ord_loop chunk dep sz i =
     (if i < dep then
        (if chunk = sz then to_s32 i else get_ord_loop chunk dep (sz * 2) (i + 1))
      else 0)"
  by pat_completeness auto
termination
  by (relation "measure (\<lambda>(chunk, dep, sz, i). unat dep - unat i)")
    (auto simp: unat_inc word_less_nat_alt)

definition bud_get_ord :: "'a bud_state_scheme \<Rightarrow> u32 \<Rightarrow> int" where
  "bud_get_ord s chunk =
     (if chunk < bm_ll (bm s) \<or> chunk > bm_ul (bm s) then - EINVAL
      else get_ord_loop chunk (bm_dep (bm s)) (bm_ll (bm s)) 0)"

declare get_dep_loop.simps [simp del] rndup_loop.simps [simp del] get_ord_loop.simps [simp del]

subsection \<open>The bits of a block, its children and its ancestors\<close>

text \<open>
  The first argument of the C functions is \<open>&bud[ord]\<close>; it is \<open>NULL\<close> only for order 0 before the
  initialisation.  An order outside the array is \<open>None\<close>.
\<close>

definition bud_get :: "'a bud_state_scheme \<Rightarrow> nat \<Rightarrow> int \<Rightarrow> int option" where
  "bud_get s i ost =
     (if i < length (bud s) then bitmap_get (km s) (Some (bs_bmp (bud s ! i))) ost else None)"

definition bud_set_bit :: "'a bud_state_scheme \<Rightarrow> nat \<Rightarrow> int \<Rightarrow> int \<Rightarrow> (int \<times> 'a bud_state_scheme) option" where
  "bud_set_bit s i ost f =
     (if bud s = [] \<and> i = 0 then Some (-1, s)
      else if i \<ge> length (bud s) then None
      else if ost < 0 then Some (- EINVAL, s)
      else if f \<noteq> BUD_FREE \<and> f \<noteq> BUD_USED then Some (- EINVAL, s)
      else do {
        err \<leftarrow> bitmap_get (km s) (Some (bs_bmp (bud s ! i))) ost;
        if err < 0 then Some (-1, s)
        else if err = f then Some (0, s)
        else do {
          let b = bud s ! i;
          let b = b\<lparr>bs_frees := bs_frees b + (if f \<noteq> 0 then -1 else 1)\<rparr>;
          (err, m) \<leftarrow> bitmap_set (km s) (Some (bs_bmp b)) (to_u32 ost) (f \<noteq> 0);
          Some (if err < 0 then err else 0, s\<lparr>km := m, bud := (bud s)[i := b]\<rparr>) } })"

definition bud_is_bud_used :: "'a bud_state_scheme \<Rightarrow> u32 \<Rightarrow> u32 \<Rightarrow> int option" where
  "bud_is_bud_used s ord ost =
     (let bud_ost = ost + (if ost mod 2 \<noteq> 0 then -1 else 1) in bud_get s (unat ord) (to_s32 bud_ost))"

definition bud_merge :: "'a bud_state_scheme \<Rightarrow> u8 \<Rightarrow> u32 \<Rightarrow> int \<Rightarrow> (bool \<times> 'a bud_state_scheme) option" where
  "bud_merge s ord ost f = do {
     (_, s) \<leftarrow> bud_set_bit s (unat ord) (to_s32 ost) (if f \<noteq> 0 then 1 else 0);
     if (ucast ord :: u32) = bm_dep (bm s) - 1 then Some (False, s)
     else do {
       u \<leftarrow> bud_is_bud_used s (ucast ord) ost;
       Some (u \<noteq> 0, s) } }"

definition bud_search :: "'a bud_state_scheme \<Rightarrow> u8 \<Rightarrow> u32 \<Rightarrow> int \<Rightarrow> (bool \<times> 'a bud_state_scheme) option" where
  "bud_search s ord ost f = do {
     u \<leftarrow> bud_get s (unat ord) (to_s32 ost);
     if u \<noteq> 0 then Some (True, s)
     else do {
       (_, s) \<leftarrow> bud_set_bit s (unat ord) (to_s32 ost) (if f \<noteq> 0 then 1 else 0);
       Some (False, s) } }"

function parent_loop :: "('a bud_state_scheme \<Rightarrow> u8 \<Rightarrow> u32 \<Rightarrow> int \<Rightarrow> (bool \<times> 'a bud_state_scheme) option)
    \<Rightarrow> u32 \<Rightarrow> 'a bud_state_scheme \<Rightarrow> u32 \<Rightarrow> u32 \<Rightarrow> int \<Rightarrow> 'a bud_state_scheme option" where
  "parent_loop stop dep s i n f =
     (if i < dep then do {
        (b, s) \<leftarrow> stop s (ucast i) n f;
        if b then Some s else parent_loop stop dep s (i + 1) (n div 2) f }
      else Some s)"
  by pat_completeness auto
termination
  by (relation "measure (\<lambda>(stop, dep, s, i, n, f). unat dep - unat i)")
    (auto simp: unat_inc word_less_nat_alt)

definition bud_chk_parent :: "'a bud_state_scheme \<Rightarrow> u32 \<Rightarrow> u32 \<Rightarrow> int
    \<Rightarrow> ('a bud_state_scheme \<Rightarrow> u8 \<Rightarrow> u32 \<Rightarrow> int \<Rightarrow> (bool \<times> 'a bud_state_scheme) option)
    \<Rightarrow> (int \<times> 'a bud_state_scheme) option" where
  "bud_chk_parent s ord ost f stop =
     (if ord < 0 \<or> ord \<ge> bm_dep (bm s) then Some (- EINVAL, s)
      else if ost < 0 then Some (- EINVAL, s)
      else do {
        s \<leftarrow> parent_loop stop (bm_dep (bm s)) s (ord + 1) (ost div 2) f;
        Some (0, s) })"

function child_row :: "'a bud_state_scheme \<Rightarrow> nat \<Rightarrow> int \<Rightarrow> int \<Rightarrow> int \<Rightarrow> 'a bud_state_scheme option" where
  "child_row s i j hi f =
     (if j < hi then do {
        (_, s) \<leftarrow> bud_set_bit s i j (if f \<noteq> 0 then 1 else 0);
        child_row s i (j + 1) hi f }
      else Some s)"
  by pat_completeness auto
termination
  by (relation "measure (\<lambda>(s, i, j, hi, f). nat (hi - j))") auto

text \<open>\<open>child_rows s i\<close> runs the loop of \<open>bud_chk_childs\<close> for the orders below \<open>i\<close>.\<close>

fun child_rows :: "'a bud_state_scheme \<Rightarrow> nat \<Rightarrow> int \<Rightarrow> int \<Rightarrow> int \<Rightarrow> 'a bud_state_scheme option" where
  "child_rows s 0 n k f = Some s"
| "child_rows s (Suc i) n k f = do {
     n \<leftarrow> s32_ok (n * 2);
     k \<leftarrow> s32_ok (k * 2);
     hi \<leftarrow> s32_ok (n + k);
     s \<leftarrow> child_row s i n hi f;
     child_rows s i n k f }"

definition bud_chk_childs :: "'a bud_state_scheme \<Rightarrow> u32 \<Rightarrow> u32 \<Rightarrow> int \<Rightarrow> (int \<times> 'a bud_state_scheme) option" where
  "bud_chk_childs s ord ost f =
     (if ord < 0 \<or> ord \<ge> bm_dep (bm s) then Some (- EINVAL, s)
      else if ost < 0 then Some (- EINVAL, s)
      else do { s \<leftarrow> child_rows s (nat (to_s32 ord)) (to_s32 ost) 1 f; Some (0, s) })"

declare parent_loop.simps [simp del] child_row.simps [simp del]

definition bud_find_free :: "'a bud_state_scheme \<Rightarrow> int \<Rightarrow> (int \<times> 'a bud_state_scheme) option" where
  "bud_find_free s ord =
     (if ord < 0 then Some (- EINVAL, s)
      else if nat ord \<ge> length (bud s) then None
      else do {
        ost \<leftarrow> bitmap_get_free (km s) (Some (bs_bmp (bud s ! nat ord)));
        if ost < 0 then Some (-4, s)
        else do {
          (_, s) \<leftarrow> bud_set_bit s (nat ord) ost BUD_USED;
          (_, s) \<leftarrow> bud_chk_childs s (to_u32 ord) (to_u32 ost) BUD_USED;
          (_, s) \<leftarrow> bud_chk_parent s (to_u32 ord) (to_u32 ost) BUD_USED bud_search;
          Some (ost, s) } })"

subsection \<open>Blocks\<close>

definition bud_encode :: "'a bud_state_scheme \<Rightarrow> u32 \<Rightarrow> u32 \<Rightarrow> u8 \<Rightarrow> (addr \<times> 'a bud_state_scheme) option" where
  "bud_encode s chunk ost dep = do {
     let addr = bm_heap_base (bm s) + chunk * ost;
     off \<leftarrow> udiv (chunk * ost) (bm_ll (bm s));
     let hdr = bm_hdr_base (bm s) + off;
     let s = s\<lparr>km := st8 (km s) hdr dep\<rparr>;
     if addr + chunk > bm_heap_base (bm s) + to_u32 (bm_heap_size (bm s)) then Some (NULL, s)
     else Some (addr, s) }"

text \<open>When no block is free, \<open>err_dbg\<close> reports it but nothing returns: \<open>ost\<close> goes on negative.\<close>

definition bud_alloc_raw :: "'a bud_state_scheme \<Rightarrow> int \<Rightarrow> (addr \<times> 'a bud_state_scheme) option" where
  "bud_alloc_raw s sz =
     (if sz < 1 then Some (NULL, s)
      else
        let chunk = bud_rndup s sz in
        if chunk < 0 then Some (NULL, s)
        else
          let ord = bud_get_ord s (to_u32 chunk) in
          if ord < 0 then Some (NULL, s)
          else do {
            (ost, s) \<leftarrow> bud_find_free s ord;
            (addr, s) \<leftarrow> bud_encode s (to_u32 chunk) (to_u32 ost) (ucast (to_u32 ord));
            if addr = NULL then Some (NULL, s) else Some (addr, s) })"

definition bud_decode :: "'a bud_state_scheme \<Rightarrow> addr \<Rightarrow> addr option" where
  "bud_decode s addr = do {
     off \<leftarrow> udiv (addr - bm_heap_base (bm s)) (bm_ll (bm s));
     Some (bm_hdr_base (bm s) + off) }"

definition bud_free_raw :: "'a bud_state_scheme \<Rightarrow> addr \<Rightarrow> 'a bud_state_scheme option" where
  "bud_free_raw s addr =
     (if addr = NULL \<or> bm_heap_base (bm s) > addr then Some s
      else do {
        hdr \<leftarrow> bud_decode s addr;
        let ord = (ucast (km s hdr) :: u32);
        let chunk = bud_get_chunk s (to_s32 ord);
        if chunk < 0 then Some s
        else if chunk = 0 then None
        else do {
          let chunk_ost = to_s32 (addr - bm_heap_base (bm s));
          let ost = chunk_ost sdiv chunk;
          (_, s) \<leftarrow> bud_set_bit s (unat ord) ost BUD_FREE;
          (_, s) \<leftarrow> bud_chk_childs s ord (to_u32 ost) BUD_FREE;
          u \<leftarrow> bud_is_bud_used s ord (to_u32 ost);
          if u = 0 then do {
            (_, s) \<leftarrow> bud_chk_parent s ord (to_u32 ost) BUD_FREE bud_merge;
            Some s }
          else Some s } })"


subsection \<open>Pages kept ready\<close>

function lazy_fill :: "'a bud_state_scheme \<Rightarrow> addr \<Rightarrow> int \<Rightarrow> int \<Rightarrow> (bool \<times> 'a bud_state_scheme) option" where
  "lazy_fill s pages batch i =
     (if i < batch then do {
        (a, s) \<leftarrow> bud_alloc_raw s MM_PAGE_SIZE;
        let p = pages + 12 * to_u32 i;
        let s = s\<lparr>km := st32 (km s) (p + 8) a\<rparr>;
        if is_mem_err s a then Some (False, s)
        else do {
          let s = s\<lparr>km := snd (list_add (km s) (lz_frees (lazy s)) p)\<rparr>;
          n \<leftarrow> s32_ok (lz_fnum (lazy s) + 1);
          let s = s\<lparr>lazy := (lazy s)\<lparr>lz_fnum := n\<rparr>\<rparr>;
          lazy_fill s pages batch (i + 1) } }
      else Some (True, s))"
  by pat_completeness auto
termination
  by (relation "measure (\<lambda>(s, pages, batch, i). nat (batch - i))") auto

declare lazy_fill.simps [simp del]

text \<open>Refilling the list of free pages: the nodes first, then a page for each.\<close>

definition lazy_refill :: "'a bud_state_scheme \<Rightarrow> (bool \<times> 'a bud_state_scheme) option" where
  "lazy_refill s = do {
     let batch = lz_batch (lazy s);
     (pages, s) \<leftarrow> bud_alloc_raw s (to_s32 (to_u32 LAZY_PAGE_SIZE * to_u32 batch));
     if is_mem_err s pages then Some (False, s) else lazy_fill s pages batch 0 }"

definition bud_lazy_alloc :: "'a bud_state_scheme \<Rightarrow> int \<Rightarrow> (addr \<times> 'a bud_state_scheme) option" where
  "bud_lazy_alloc s sz = do {
     (ok, s) \<leftarrow> (if lz_fnum (lazy s) = 0 then lazy_refill s else Some (True, s));
     if \<not> ok then Some (NULL, s)
     else do {
       let (node, m) = list_get (km s) (lz_frees (lazy s));
       let s = s\<lparr>km := m\<rparr>;
       if is_mem_err s node then Some (NULL, s)
       else do {
         let page = node;
         let s = s\<lparr>km := snd (list_add (km s) (lz_inuses (lazy s)) node)\<rparr>;
         f \<leftarrow> s32_ok (lz_fnum (lazy s) - 1);
         u \<leftarrow> s32_ok (lz_unum (lazy s) + 1);
         let s = s\<lparr>lazy := (lazy s)\<lparr>lz_fnum := f, lz_unum := u\<rparr>\<rparr>;
         Some (ld32 (km s) (page + 8), s) } } }"

definition bud_alloc :: "'a bud_state_scheme \<Rightarrow> int \<Rightarrow> (addr \<times> 'a bud_state_scheme) option" where
  "bud_alloc s sz =
     (if sz < 1 then Some (to_u32 (- EINVAL), s)
      else do {
        (addr, s) \<leftarrow> (if sz > MM_PAGE_SIZE then bud_alloc_raw s sz else bud_lazy_alloc s sz);
        if addr = NULL then Some (to_u32 (-4), s) else Some (addr, s) })"

text \<open>The node in use whose page is \<open>addr\<close>, with the node looked at last; \<open>Inl\<close> for a bad node.\<close>

partial_function (option) lazy_find ::
  "'a bud_state_scheme \<Rightarrow> addr \<Rightarrow> addr \<Rightarrow> addr \<Rightarrow> addr \<Rightarrow> (int + addr \<times> addr) option" where
  "lazy_find s head addr node lp =
     (if node \<noteq> NULL \<and> node \<noteq> head then
        (let lp = node in
         if is_mem_err s lp then Some (Inl (-8))
         else if ld32 (km s) (lp + 8) = addr then Some (Inr (node, lp))
         else lazy_find s head addr (l_next (km s) node) lp)
      else Some (Inr (node, lp)))"

partial_function (option) lazy_drain ::
  "'a bud_state_scheme \<Rightarrow> int \<Rightarrow> (int \<times> 'a bud_state_scheme) option" where
  "lazy_drain s batch =
     (if batch = 0 then Some (0, s)
      else do {
        batch \<leftarrow> s32_ok (batch - 1);
        let (node, m) = list_get (km s) (lz_frees (lazy s));
        let s = s\<lparr>km := m\<rparr>;
        if is_mem_err s node then Some (-8, s)
        else do {
          s \<leftarrow> bud_free_raw s (ld32 (km s) (node + 8));
          f \<leftarrow> s32_ok (lz_fnum (lazy s) - 1);
          lazy_drain (s\<lparr>lazy := (lazy s)\<lparr>lz_fnum := f\<rparr>\<rparr>) batch } })"

definition bud_lazy_free :: "'a bud_state_scheme \<Rightarrow> addr \<Rightarrow> (int \<times> 'a bud_state_scheme) option" where
  "bud_lazy_free s addr =
     (if is_mem_err s addr then Some (-1, s)
      else if lz_unum (lazy s) = 0 then Some (-4, s)
      else do {
        r \<leftarrow> lazy_find s (lz_inuses (lazy s)) addr (l_next (km s) (lz_inuses (lazy s))) NULL;
        case r of
          Inl e \<Rightarrow> Some (e, s)
        | Inr (node, lp) \<Rightarrow>
            if ld32 (km s) (lp + 8) \<noteq> addr then Some (-12, s)
            else do {
              let s = s\<lparr>km := snd (list_del (km s) (lz_inuses (lazy s)) node)\<rparr>;
              let s = s\<lparr>km := snd (list_add (km s) (lz_frees (lazy s)) node)\<rparr>;
              f \<leftarrow> s32_ok (lz_fnum (lazy s) + 1);
              u \<leftarrow> s32_ok (lz_unum (lazy s) - 1);
              let s = s\<lparr>lazy := (lazy s)\<lparr>lz_fnum := f, lz_unum := u\<rparr>\<rparr>;
              if lz_fnum (lazy s) > lz_wmk (lazy s) then lazy_drain s (lz_batch (lazy s))
              else Some (0, s) } })"

definition bud_free :: "'a bud_state_scheme \<Rightarrow> addr \<Rightarrow> 'a bud_state_scheme option" where
  "bud_free s addr =
     (if addr = NULL \<or> bm_heap_base (bm s) > addr then Some s
      else do {
        hdr \<leftarrow> bud_decode s addr;
        let chunk = bud_get_chunk s (to_s32 (ucast (km s hdr)));
        if chunk < 0 then Some s
        else if chunk \<le> MM_PAGE_SIZE then map_option snd (bud_lazy_free s addr)
        else bud_free_raw s addr })"

subsection \<open>Initialisation\<close>

text \<open>
  \<open>num[i]\<close> is the bytes of the bitmap of order \<open>i\<close>.  The sizes mix \<open>int\<close> and \<open>unsigned\<close>: an
  \<open>unsigned\<close> operand makes the operation unsigned.
\<close>

fun real_size_loop :: "bud_manager \<Rightarrow> int \<Rightarrow> nat \<Rightarrow> int \<Rightarrow> int \<Rightarrow> int option" where
  "real_size_loop b sz0 0 ll sz = Some sz"
| "real_size_loop b sz0 (Suc k) ll sz =
     (let bits = int (unat (bm_bitmap_size b)) in
      if ll = 0 \<or> bits = 0 then None
      else do {
        q \<leftarrow> s32_ok (sz0 sdiv ll + (bits - 1));
        num \<leftarrow> s32_ok (q sdiv bits * 4);
        ll \<leftarrow> s32_ok (ll * 2);
        real_size_loop b sz0 k ll (to_s32 (to_u32 sz - to_u32 num)) })"

definition bud_get_real_size :: "'a bud_state_scheme \<Rightarrow> int \<Rightarrow> int \<Rightarrow> int option" where
  "bud_get_real_size s sz0 ll =
     (if ll < 1 \<or> sz0 < 1 then Some (-1)
      else do {
        dep \<leftarrow> bud_get_dep sz0 (to_s32 (bm_ll (bm s)));
        if dep < 0 then Some (-4)
        else do {
          let sz = to_s32 (to_u32 sz0 - BITMAPS_SIZE * to_u32 dep);
          sz \<leftarrow> real_size_loop (bm s) sz0 (nat dep) ll sz;
          q \<leftarrow> udiv (to_u32 sz0) (bm_ll (bm s));
          let sz = to_s32 (to_u32 sz - q * 1);
          if sz < 0 then Some (-8) else Some sz } })"

text \<open>The bits after the last block of an order are marked used, up to the end of the last word.\<close>

function mark_pad :: "mem \<Rightarrow> bitmap \<Rightarrow> u32 \<Rightarrow> int \<Rightarrow> int \<Rightarrow> mem option" where
  "mark_pad m b num j hi =
     (if j < hi then do {
        (_, m) \<leftarrow> bitmap_set m (Some b) ((num - 1) * to_u32 hi + to_u32 j) True;
        mark_pad m b num (j + 1) hi }
      else Some m)"
  by pat_completeness auto
termination
  by (relation "measure (\<lambda>(m, b, num, j, hi). nat (hi - j))") auto

declare mark_pad.simps [simp del]

definition bud_init_order :: "'a bud_state_scheme \<Rightarrow> nat \<Rightarrow> int \<Rightarrow> u32 \<Rightarrow> addr \<Rightarrow> 'a bud_state_scheme option" where
  "bud_init_order s i data_size ll base = do {
     let bits = (ucast (bm_bitmap_size (bm s)) :: u32);
     q \<leftarrow> udiv (to_u32 data_size) ll;
     num \<leftarrow> udiv (q + (bits - 1)) bits;
     let b = (bud s ! i)\<lparr>bs_num := q, bs_frees := q,
         bs_bmp := \<lparr>bmp_base = base, bmp_bit = bits, bmp_size = num\<rparr>\<rparr>;
     let m = snd (memset (km s) base 0 (to_s32 (num * (bits div 8))));
     m \<leftarrow> mark_pad m (bs_bmp b) num (to_s32 (q mod bits)) (to_s32 bits);
     Some (s\<lparr>km := m, bud := (bud s)[i := b]\<rparr>) }"

text \<open>The loop over the orders; the result is the bytes of all bitmaps with the state.\<close>

fun bud_init_orders :: "'a bud_state_scheme \<Rightarrow> nat list \<Rightarrow> int \<Rightarrow> u32 \<Rightarrow> addr \<Rightarrow> int
    \<Rightarrow> (int \<times> 'a bud_state_scheme) option" where
  "bud_init_orders s [] data_size ll base sz = Some (sz, s)"
| "bud_init_orders s (i # is) data_size ll base sz = do {
     s \<leftarrow> bud_init_order s i data_size ll base;
     let b = bs_bmp (bud s ! i);
     let bytes = bmp_size b * (bmp_bit b div 8);
     bud_init_orders s is data_size (ll * 2) (base + bytes) (to_s32 (to_u32 sz + bytes)) }"

definition bud_init_raw :: "'a bud_state_scheme \<Rightarrow> addr \<Rightarrow> int \<Rightarrow> int \<Rightarrow> (int \<times> 'a bud_state_scheme) option" where
  "bud_init_raw s base hsize llc =
     (if base = NULL then Some (-1, s)
      else if hsize < MM_HEAP_MIN_SIZE then Some (-4, s)
      else if llc < 1 then Some (-8, s)
      else do {
        let s = s\<lparr>bm := (bm s)\<lparr>bm_org_size := hsize, bm_heap_meta_base := base,
            bm_ll := to_u32 llc, bm_bitmap_size := 32\<rparr>\<rparr>;
        data_size \<leftarrow> bud_get_real_size s hsize (to_s32 (bm_ll (bm s)));
        if data_size < 0 then Some (-4, s)
        else do {
          dep \<leftarrow> bud_get_dep data_size (to_s32 (bm_ll (bm s)));
          p \<leftarrow> power 2 (to_s32 (to_u32 dep - 1));
          let s = s\<lparr>bm := (bm s)\<lparr>bm_heap_size := data_size, bm_dep := to_u32 dep,
              bm_ul := bm_ll (bm s) * p\<rparr>\<rparr>;
          let n = unat (bm_dep (bm s));
          let s = s\<lparr>bud := replicate n
              \<lparr>bs_ord = 0, bs_num = 0, bs_frees = 0, bs_bmp = \<lparr>bmp_base = 0, bmp_bit = 0, bmp_size = 0\<rparr>\<rparr>\<rparr>;
          (sz, s) \<leftarrow> bud_init_orders s [0..<n] data_size (bm_ll (bm s)) (base + BITMAPS_SIZE * bm_dep (bm s)) 0;
          if n = 0 then None
          else do {
            let hdr_base = bmp_base (bs_bmp (bud s ! 0)) + to_u32 sz;
            hdr_size \<leftarrow> udiv (to_u32 data_size) (bm_ll (bm s));
            let heap_base = hdr_base + hdr_size;
            let meta = to_s32 (heap_base - base);
            used \<leftarrow> s32_ok (bm_heap_size (bm s) + meta);
            rmd \<leftarrow> s32_ok (hsize - used);
            pages \<leftarrow> s32_ok (bm_heap_size (bm s) sdiv MM_PAGE_SIZE - 1);
            let batch = c_min pages 31;
            wmk \<leftarrow> s32_ok (batch * 6);
            let s = s\<lparr>bm := (bm s)\<lparr>bm_hdr_base := hdr_base, bm_hdr_size := hdr_size,
                bm_heap_base := heap_base, bm_heap_meta_size := meta, bm_rmd_size := rmd\<rparr>,
                lazy := (lazy s)\<lparr>lz_batch := batch, lz_wmk := wmk\<rparr>\<rparr>;
            let s = s\<lparr>km := list_init_head (km s) (lz_frees (lazy s))\<rparr>;
            let s = s\<lparr>km := list_init_head (km s) (lz_inuses (lazy s))\<rparr>;
            Some (rmd, s) } } })"

text \<open>\<open>bud_init\<close> has no return statement.\<close>

definition bud_init :: "'a bud_state_scheme \<Rightarrow> int \<Rightarrow> addr \<Rightarrow> int \<Rightarrow> (int \<times> 'a bud_state_scheme) option" where
  "bud_init s junk base hsize = do { (_, s) \<leftarrow> bud_init_raw s base hsize 2048; Some (junk, s) }"

end
