(* ===== verification/Pool.thy ===== *)
theory Pool
  imports Buddy
begin

text \<open>
  \<open>pool.c\<close>: the secondary allocator.  A pool holds slots of one size, each behind a header of four
  bytes.  \<open>head\<close> is the next slot to hand out: its header is the address of the slot after that, or
  zero when that is simply the following one, which has never been used.  The array of the seven
  \<open>struct pool\<close> is the list \<open>pools\<close>; the slots are in memory.
\<close>

abbreviation POOL_CHUNK_LL_NUM :: u32 where "POOL_CHUNK_LL_NUM \<equiv> 128"
abbreviation POOL_HEADER_SIZE :: u32 where "POOL_HEADER_SIZE \<equiv> 4"
abbreviation POOL_SIZE :: u32 where "POOL_SIZE \<equiv> 24"

record pool =
  po_base :: addr
  po_head :: addr
  po_size :: u32
  po_frees :: u32
  po_chunk :: u32
  po_ll :: int

record mm_pool =
  pm_base :: addr
  pm_size :: int
  pm_data_base :: addr
  pm_llc :: int
  pm_ulc :: int
  pm_rmd :: u32
  pm_meta_size :: int
  pm_data_size :: int
  pm_num :: int

record pool_state = bud_state +
  pmm :: mm_pool
  pools :: "pool list"

text \<open>The conversion of an \<open>s64\<close> to an \<open>int\<close> parameter or result.\<close>

definition to_int :: "int \<Rightarrow> int" where
  "to_int z = to_s32 (to_u32 z)"

subsection \<open>Sizes and orders\<close>

text \<open>
  The memory goes to the pools in turn, a portion of 128 slots at a time, as long as a portion of the
  first pool fits.  The loop need not end when portions are not positive.
\<close>

partial_function (option) calc_loop :: "int \<Rightarrow> pool list \<Rightarrow> int \<Rightarrow> int \<Rightarrow> (int \<times> pool list) option" where
  "calc_loop num ps rmd i =
     (if rmd \<ge> po_ll (ps ! 0) then
        (if num = 0 then None
         else do {
           let k = nat (i mod num);
           let (ps', rmd') =
             (if rmd - po_ll (ps ! k) \<ge> 0
              then (ps[k := (ps ! k)\<lparr>po_size := po_size (ps ! k) + to_u32 (po_ll (ps ! k))\<rparr>], rmd - po_ll (ps ! k))
              else (ps, rmd));
           i \<leftarrow> s32_ok (i + 1);
           calc_loop num ps' rmd' i })
      else Some (rmd, ps))"

definition pool_calc_size :: "'a pool_state_scheme \<Rightarrow> int \<Rightarrow> (int \<times> 'a pool_state_scheme) option" where
  "pool_calc_size s sz =
     (if sz < 1 then Some (-1, s)
      else do {
        (rmd, ps) \<leftarrow> calc_loop (pm_num (pmm s)) (pools s) sz 0;
        Some (to_int rmd, s\<lparr>pools := ps\<rparr>) })"

function pool_ord_loop :: "int \<Rightarrow> u32 \<Rightarrow> int \<Rightarrow> int \<Rightarrow> int option" where
  "pool_ord_loop num chunk sz i =
     (if i < num then
        (if chunk = to_u32 sz then Some i
         else do { sz \<leftarrow> s32_ok (sz * 2); pool_ord_loop num chunk sz (i + 1) })
      else Some 0)"
  by pat_completeness auto
termination
  by (relation "measure (\<lambda>(num, chunk, sz, i). nat (num - i))") auto

declare pool_ord_loop.simps [simp del]

definition pool_get_ord :: "'a pool_state_scheme \<Rightarrow> u32 \<Rightarrow> int option" where
  "pool_get_ord s chunk =
     (if chunk < to_u32 (pm_llc (pmm s)) \<or> chunk > to_u32 (pm_ulc (pmm s)) then Some (- EINVAL)
      else pool_ord_loop (pm_num (pmm s)) chunk (pm_llc (pmm s)) 0)"

fun pool_id_loop :: "pool list \<Rightarrow> u32 \<Rightarrow> int \<Rightarrow> int" where
  "pool_id_loop [] addr i = -1"
| "pool_id_loop (p # ps) addr i =
     (let diff = addr - po_base p in if diff < po_size p then i else pool_id_loop ps addr (i + 1))"

definition pool_get_id :: "'a pool_state_scheme \<Rightarrow> u32 \<Rightarrow> int" where
  "pool_get_id s addr = pool_id_loop (take (nat (pm_num (pmm s))) (pools s)) addr 0"

function pl_chunk_loop :: "u32 \<Rightarrow> u32 \<Rightarrow> u32 \<Rightarrow> u32 \<Rightarrow> int" where
  "pl_chunk_loop sz num block i =
     (if i < num then if sz \<le> block then to_s32 block else pl_chunk_loop sz num (block * 2) (i + 1)
      else -1)"
  by pat_completeness auto
termination
  by (relation "measure (\<lambda>(sz, num, block, i). unat (num - i))")
    (auto simp: word_less_nat_alt unat_sub_if' unat_inc [unfolded word_less_nat_alt])

declare pl_chunk_loop.simps [simp del]

definition pl_get_chunk :: "'a pool_state_scheme \<Rightarrow> int \<Rightarrow> int" where
  "pl_get_chunk s sz =
     (if sz < 1 then - EINVAL
      else pl_chunk_loop (to_u32 sz) (to_u32 (pm_num (pmm s))) (po_chunk (pools s ! 0)) 0)"

subsection \<open>Allocating and freeing a slot\<close>

text \<open>Errors are returned as pointers that are not null.  Nothing checks that the pool has a slot left.\<close>

definition pl_alloc :: "'a pool_state_scheme \<Rightarrow> int \<Rightarrow> (addr \<times> 'a pool_state_scheme) option" where
  "pl_alloc s sz =
     (if sz < 1 then Some (to_u32 (-1), s)
      else
        let chunk = pl_get_chunk s sz in
        if chunk < 0 then Some (to_u32 chunk, s)
        else do {
          id \<leftarrow> pool_get_ord s (to_u32 chunk);
          if id < 0 then Some (to_u32 id, s)
          else if length (pools s) \<le> nat id then None
          else
            let p = pools s ! nat id;
                addr = po_head p + POOL_HEADER_SIZE;
                next = ld32 (km s) (po_head p);
                p = (if next = 0 then p\<lparr>po_head := po_head p + (po_chunk p + POOL_HEADER_SIZE)\<rparr>
                     else p\<lparr>po_head := next\<rparr>);
                p = p\<lparr>po_frees := po_frees p - 1\<rparr>
            in Some (addr, s\<lparr>pools := (pools s)[nat id := p]\<rparr>) })"

definition pl_free :: "'a pool_state_scheme \<Rightarrow> addr \<Rightarrow> 'a pool_state_scheme" where
  "pl_free s addr =
     (if addr = NULL then s
      else
        let hdr = addr - POOL_HEADER_SIZE;
            id = pool_get_id s hdr
        in if id < 0 then s
           else
             let p = pools s ! nat id;
                 s = s\<lparr>km := st32 (km s) hdr (po_head p)\<rparr>;
                 p = p\<lparr>po_head := hdr, po_frees := po_frees p + 1\<rparr>
             in s\<lparr>pools := (pools s)[nat id := p]\<rparr>)"

subsection \<open>Initialisation\<close>

definition pl_get_data_size :: "'a pool_state_scheme \<Rightarrow> int \<Rightarrow> int" where
  "pl_get_data_size s sz =
     (if sz < 1 then -1
      else if pm_num (pmm s) < 1 then -4
      else to_int (sz - int (unat (POOL_SIZE * to_u32 (pm_num (pmm s))))))"

fun init_size_loop :: "nat \<Rightarrow> int \<Rightarrow> int \<Rightarrow> int option" where
  "init_size_loop 0 llc sz = Some sz"
| "init_size_loop (Suc n) llc sz = do {
     let sz = sz + int (unat ((POOL_HEADER_SIZE + to_u32 llc) * POOL_CHUNK_LL_NUM));
     llc \<leftarrow> s32_ok (llc * 2);
     init_size_loop n llc sz }"

text \<open>The number of pools: one for each power of two from \<open>llc\<close> to \<open>ulc\<close>.\<close>

definition pool_count :: "int \<Rightarrow> int \<Rightarrow> int option" where
  "pool_count llc ulc = do {
     a \<leftarrow> c_log 2 (to_u32 ulc);
     b \<leftarrow> c_log 2 (to_u32 llc);
     Some ((a - b) + 1) }"

definition pl_get_init_size :: "int option" where
  "pl_get_init_size = do {
     let llc = mm_get_sec_llc;
     let ulc = mm_get_sec_ulc;
     num \<leftarrow> pool_count llc ulc;
     init_size_loop (nat num) llc (int (unat (POOL_SIZE * to_u32 num))) }"

fun pool_chunks :: "nat \<Rightarrow> int \<Rightarrow> pool list option" where
  "pool_chunks 0 llc = Some []"
| "pool_chunks (Suc n) llc = do {
     let p = \<lparr>po_base = NULL, po_head = NULL, po_size = 0, po_frees = 0, po_chunk = to_u32 llc,
       po_ll = to_s32 ((POOL_HEADER_SIZE + to_u32 llc) * POOL_CHUNK_LL_NUM)\<rparr>;
     llc \<leftarrow> s32_ok (llc * 2);
     ps \<leftarrow> pool_chunks n llc;
     Some (p # ps) }"

fun pool_layout :: "mem \<Rightarrow> pool list \<Rightarrow> addr \<Rightarrow> (mem \<times> pool list) option" where
  "pool_layout m [] data_addr = Some (m, [])"
| "pool_layout m (p # ps) data_addr = do {
     frees \<leftarrow> udiv (po_size p) (po_chunk p + POOL_HEADER_SIZE);
     let p = p\<lparr>po_base := data_addr, po_head := data_addr, po_frees := frees\<rparr>;
     let m = snd (memset m data_addr 0 (to_s32 (po_size p)));
     (m, ps) \<leftarrow> pool_layout m ps (data_addr + po_size p);
     Some (m, p # ps) }"

definition pl_init :: "'a pool_state_scheme \<Rightarrow> addr \<Rightarrow> int \<Rightarrow> (int \<times> 'a pool_state_scheme) option" where
  "pl_init s base sz =
     (if base = NULL then Some (-1, s)
      else if sz < 1 then Some (-4, s)
      else do {
        num \<leftarrow> pool_count mm_get_sec_llc mm_get_sec_ulc;
        let s = s\<lparr>pmm := (pmm s)\<lparr>pm_base := base, pm_size := sz, pm_llc := mm_get_sec_llc,
            pm_ulc := mm_get_sec_ulc, pm_num := num\<rparr>\<rparr>;
        let (_, s) = mm_set_sec_base s 0 base;
        let (_, s) = mm_set_sec_size s 0 (to_int sz);
        let data_size = pl_get_data_size s sz;
        if data_size < 0 then Some (-6, s)
        else do {
          let s = s\<lparr>pmm := (pmm s)\<lparr>pm_data_size := data_size\<rparr>\<rparr>;
          ps \<leftarrow> pool_chunks (nat num) (pm_llc (pmm s));
          (rmd, s) \<leftarrow> pool_calc_size (s\<lparr>pools := ps\<rparr>) data_size;
          (m, ps) \<leftarrow> pool_layout (km s) (pools s) (base + POOL_SIZE * to_u32 num);
          Some (rmd, s\<lparr>km := m, pools := ps\<rparr>) } })"

end
