(* ===== verification/Alloc.thy ===== *)
theory Alloc
  imports Prelude
begin

text \<open>
  The interface of an allocator (\<open>struct mmif\<close>): a state stands for the set of regions that are
  handed out, \<open>(address, size)\<close>; allocation adds a region of at least the size asked for, freeing
  removes one, the regions never meet, and the owner of a region may write into it.  A heap also keeps
  what was written: \<open>heap_memory\<close>.
\<close>

type_synonym region = "addr \<times> nat"

text \<open>What is asked of an allocator, by address.\<close>

datatype request = Get nat | Put addr | Write addr u8

text \<open>What a byte holds after a run in which nothing but the writes changes it.\<close>

fun last_write :: "request list \<Rightarrow> addr \<Rightarrow> u8 \<Rightarrow> u8" where
  "last_write [] x v = v"
| "last_write (Write y w # rs) x v = last_write rs x (if y = x then w else v)"
| "last_write (Get z # rs) x v = last_write rs x v"
| "last_write (Put a # rs) x v = last_write rs x v"

locale heap_alloc =
  fixes rep :: "'s \<Rightarrow> region set \<Rightarrow> bool"
    and fits :: "'s \<Rightarrow> region set \<Rightarrow> nat \<Rightarrow> bool"
    and alloc :: "'s \<Rightarrow> nat \<Rightarrow> (addr \<times> 's) option"
    and free :: "'s \<Rightarrow> addr \<Rightarrow> 's option"
    and poke :: "'s \<Rightarrow> addr \<Rightarrow> u8 \<Rightarrow> 's"
  assumes rep_apart: "rep s R \<Longrightarrow> r \<in> R \<Longrightarrow> q \<in> R \<Longrightarrow> r \<noteq> q \<Longrightarrow> apart (fst r) (snd r) (fst q) (snd q)"
    and alloc_rep: "rep s R \<Longrightarrow> fits s R z \<Longrightarrow>
      \<exists>a n s'. alloc s z = Some (a, s') \<and> z \<le> n \<and> (a, n) \<notin> R \<and> rep s' (insert (a, n) R)"
    and free_rep: "rep s R \<Longrightarrow> (a, n) \<in> R \<Longrightarrow> \<exists>s'. free s a = Some s' \<and> rep s' (R - {(a, n)})"
    and poke_rep: "rep s R \<Longrightarrow> (a, n) \<in> R \<Longrightarrow> inside a n x \<Longrightarrow> rep (poke s x v) R"
begin

text \<open>Two regions share no address, so a write into one leaves the other alone.\<close>

lemma regions_disjoint: "rep s R \<Longrightarrow> r \<in> R \<Longrightarrow> q \<in> R \<Longrightarrow> r \<noteq> q \<Longrightarrow>
    inside (fst r) (snd r) x \<Longrightarrow> \<not> inside (fst q) (snd q) x"
  using rep_apart apart_inside by blast

lemma alloc_new_region:
  assumes "rep s R" "fits s R z"
  shows "\<exists>a n s'. alloc s z = Some (a, s') \<and> z \<le> n \<and> rep s' (insert (a, n) R)
    \<and> (\<forall>r\<in>R. apart a n (fst r) (snd r))"
proof -
  obtain a n s' where a: "alloc s z = Some (a, s')" "z \<le> n" "(a, n) \<notin> R" "rep s' (insert (a, n) R)"
    using alloc_rep [OF assms] by blast
  have "apart a n (fst r) (snd r)" if "r \<in> R" for r
    using rep_apart [OF a(4), of "(a, n)" r] that a(3) by auto
  then show ?thesis using a by blast
qed

text \<open>Allocating and freeing at once leaves the set of regions as it was.\<close>

lemma alloc_free:
  assumes "rep s R" "fits s R z"
  shows "\<exists>a s' s''. alloc s z = Some (a, s') \<and> free s' a = Some s'' \<and> rep s'' R"
proof -
  obtain a n s' where a: "alloc s z = Some (a, s')" "(a, n) \<notin> R" "rep s' (insert (a, n) R)"
    using alloc_rep [OF assms] by blast
  obtain s'' where "free s' a = Some s''" "rep s'' (insert (a, n) R - {(a, n)})"
    using free_rep [OF a(3), of a n] by blast
  then show ?thesis using a by auto
qed

text \<open>The owners of regions write what they like into them; the allocator is not disturbed.\<close>

lemma pokes_rep:
  "rep s R \<Longrightarrow> \<forall>(x, v)\<in>set ws. \<exists>(a, n)\<in>R. inside a n x \<Longrightarrow> rep (fold (\<lambda>(x, v) s. poke s x v) ws s) R"
proof (induction ws arbitrary: s)
  case (Cons w ws)
  then show ?case using poke_rep by (cases w) fastforce
qed simp

text \<open>A run of requests and writes that are in order, with the regions before and after each of them.\<close>

inductive runs :: "'s \<Rightarrow> region set \<Rightarrow> request list \<Rightarrow> addr list \<Rightarrow> 's \<Rightarrow> region set \<Rightarrow> bool" where
  Done: "runs s R [] [] s R"
| Get: "fits s R z \<Longrightarrow> alloc s z = Some (a, s') \<Longrightarrow> z \<le> n \<Longrightarrow> (a, n) \<notin> R \<Longrightarrow> rep s' (insert (a, n) R)
    \<Longrightarrow> runs s' (insert (a, n) R) rs as s'' R'' \<Longrightarrow> runs s R (Get z # rs) (a # as) s'' R''"
| Put: "(a, n) \<in> R \<Longrightarrow> free s a = Some s' \<Longrightarrow> runs s' (R - {(a, n)}) rs as s'' R''
    \<Longrightarrow> runs s R (Put a # rs) as s'' R''"
| Write: "(a, n) \<in> R \<Longrightarrow> inside a n x \<Longrightarrow> runs (poke s x v) R rs as s' R'
    \<Longrightarrow> runs s R (Write x v # rs) as s' R'"

lemma runs_rep: "runs s R rs as s' R' \<Longrightarrow> rep s R \<Longrightarrow> rep s' R'"
proof (induction rule: runs.induct)
  case (Put a n R s s' rs as s'' R'')
  then show ?case using free_rep by fastforce
next
  case (Write a n R x s v rs as s' R')
  then show ?case using poke_rep by blast
qed simp_all

end

text \<open>The memory behind the regions: only its owner changes what a region holds.\<close>

locale heap_memory = heap_alloc rep fits alloc free poke
  for rep :: "'s \<Rightarrow> region set \<Rightarrow> bool" and fits and alloc and free and poke +
  fixes view :: "'s \<Rightarrow> mem"
  assumes poke_view: "view (poke s x v) = (view s)(x := v)"
    and alloc_keeps: "rep s R \<Longrightarrow> fits s R z \<Longrightarrow> alloc s z = Some (a, s') \<Longrightarrow> r \<in> R \<Longrightarrow> inside (fst r) (snd r) x
      \<Longrightarrow> view s' x = view s x"
    and free_keeps: "rep s R \<Longrightarrow> (a, n) \<in> R \<Longrightarrow> free s a = Some s' \<Longrightarrow> r \<in> R \<Longrightarrow> inside (fst r) (snd r) x
      \<Longrightarrow> view s' x = view s x"
begin

lemma runs_reads:
  "runs s R rs as s' R' \<Longrightarrow> rep s R \<Longrightarrow> r \<in> R \<Longrightarrow> Put (fst r) \<notin> set rs \<Longrightarrow> inside (fst r) (snd r) x
     \<Longrightarrow> r \<in> R' \<and> view s' x = last_write rs x (view s x)"
proof (induction rule: runs.induct)
  case (Done s R)
  then show ?case by simp
next
  case (Get s R z a s' n rs as s'' R'')
  then show ?case using alloc_keeps [OF Get.prems(1) Get.hyps(1,2) Get.prems(2,4)] by simp
next
  case (Put a n R s s' rs as s'' R'')
  have "rep s' (R - {(a, n)})" using free_rep [OF Put.prems(1) Put.hyps(1)] Put.hyps(2) by auto
  moreover have "r \<noteq> (a, n)" using Put.prems(3) by auto
  ultimately show ?case
    using Put free_keeps [OF Put.prems(1) Put.hyps(1,2) Put.prems(2,4)] by simp
next
  case (Write a n R y s v rs as s' R')
  then show ?case using poke_rep [OF Write.prems(1) Write.hyps(1,2)] by (simp add: poke_view)
qed

end

subsection \<open>Sessions\<close>

text \<open>
  What a client does, without knowing addresses: it asks for memory, gives back what it got at the \<open>k\<close>-th time of
  asking, and writes to byte \<open>d\<close> of that.  \<open>serve\<close> does it, with the addresses handed out so far.
\<close>

datatype call = Ask nat | Return nat | Store nat nat u8

fun serve :: "('s \<Rightarrow> nat \<Rightarrow> (addr \<times> 's) option) \<Rightarrow> ('s \<Rightarrow> addr \<Rightarrow> 's option) \<Rightarrow> ('s \<Rightarrow> addr \<Rightarrow> u8 \<Rightarrow> 's)
    \<Rightarrow> call list \<Rightarrow> addr list \<Rightarrow> 's \<Rightarrow> (addr list \<times> 's) option" where
  "serve alloc free poke [] as s = Some (as, s)"
| "serve alloc free poke (Ask z # cs) as s = do { (a, s) \<leftarrow> alloc s z; serve alloc free poke cs (as @ [a]) s }"
| "serve alloc free poke (Return k # cs) as s = do { s \<leftarrow> free s (as ! k); serve alloc free poke cs as s }"
| "serve alloc free poke (Store k d v # cs) as s = serve alloc free poke cs as (poke s (as ! k + of_nat d) v)"

text \<open>
  What was asked for so far and is still in use: the size, or \<open>None\<close> once it has been given back.  Calls are in order
  when every size is fine, no more than \<open>q\<close> pieces are in use at a time, and only what is in use is given back or
  written to, within the size asked for.  That says nothing of what the allocator answers.
\<close>

definition in_use :: "nat option list \<Rightarrow> nat set" where
  "in_use live = {k. k < length live \<and> live ! k \<noteq> None}"

fun after :: "nat option list \<Rightarrow> call list \<Rightarrow> nat option list" where
  "after live [] = live"
| "after live (Ask z # cs) = after (live @ [Some z]) cs"
| "after live (Return k # cs) = after (live[k := None]) cs"
| "after live (Store k d v # cs) = after live cs"

fun in_order :: "(nat \<Rightarrow> bool) \<Rightarrow> nat \<Rightarrow> nat option list \<Rightarrow> call list \<Rightarrow> bool" where
  "in_order fine q live [] \<longleftrightarrow> True"
| "in_order fine q live (Ask z # cs) \<longleftrightarrow> fine z \<and> length (filter (\<lambda>x. x \<noteq> None) live) < q \<and> in_order fine q (live @ [Some z]) cs"
| "in_order fine q live (Return k # cs) \<longleftrightarrow> k < length live \<and> live ! k \<noteq> None \<and> in_order fine q (live[k := None]) cs"
| "in_order fine q live (Store k d v # cs) \<longleftrightarrow> k < length live \<and> (case live ! k of Some z \<Rightarrow> d < z | None \<Rightarrow> False)
     \<and> in_order fine q live cs"

text \<open>What was last written to byte \<open>d\<close> of the \<open>k\<close>-th piece.\<close>

fun stored :: "call list \<Rightarrow> (nat \<times> nat \<Rightarrow> u8 option) \<Rightarrow> nat \<times> nat \<Rightarrow> u8 option" where
  "stored [] f = f"
| "stored (Store k d v # cs) f = stored cs (f((k, d) := Some v))"
| "stored (Ask z # cs) f = stored cs f"
| "stored (Return k # cs) f = stored cs f"

lemma card_in_use: "card (in_use live) = length (filter (\<lambda>x. x \<noteq> None) live)"
  by (simp add: in_use_def length_filter_conv_card)

text \<open>An allocator that serves every request of a fine size while fewer than \<open>quota\<close> regions are in use.\<close>

locale heap_quota = heap_memory rep "\<lambda>s R z. fine z \<and> card R < quota" alloc free poke view
  for rep :: "'s \<Rightarrow> region set \<Rightarrow> bool" and alloc and free and poke and view and fine :: "nat \<Rightarrow> bool" and quota :: nat +
  assumes rep_finite: "rep s R \<Longrightarrow> finite R"
    and rep_size: "rep s R \<Longrightarrow> r \<in> R \<Longrightarrow> snd r \<le> 2 ^ 32"
begin

text \<open>
  The regions behind the calls so far: the \<open>k\<close>-th, of \<open>ns ! k\<close> bytes, is at least as large as what was asked for; those
  in use are different regions, none of them among those others hold (\<open>R0\<close>); and they hold what was written (\<open>f\<close>).
\<close>

definition tracks :: "region set \<Rightarrow> nat option list \<Rightarrow> addr list \<Rightarrow> nat list \<Rightarrow> (nat \<times> nat \<Rightarrow> u8 option) \<Rightarrow> mem \<Rightarrow> region set \<Rightarrow> bool" where
  "tracks R0 live as ns f m R \<longleftrightarrow> length as = length live \<and> length ns = length live
     \<and> (\<forall>k\<in>in_use live. the (live ! k) \<le> ns ! k \<and> (as ! k, ns ! k) \<notin> R0)
     \<and> inj_on (\<lambda>k. (as ! k, ns ! k)) (in_use live) \<and> R = R0 \<union> (\<lambda>k. (as ! k, ns ! k)) ` in_use live
     \<and> (\<forall>k\<in>in_use live. \<forall>d v. f (k, d) = Some v \<longrightarrow> d < the (live ! k) \<and> m (as ! k + of_nat d) = v)
     \<and> (\<forall>k d. length live \<le> k \<longrightarrow> f (k, d) = None)"

lemma in_use_simps:
  "in_use (live @ [Some z]) = insert (length live) (in_use live)" "k < length live \<Longrightarrow> in_use (live[k := None]) = in_use live - {k}"
  by (auto simp: in_use_def nth_append nth_list_update less_Suc_eq split: if_splits)

lemma tracks_finite: "tracks R0 live as ns f m R \<Longrightarrow> card R \<le> card R0 + card (in_use live)"
proof -
  assume t: "tracks R0 live as ns f m R"
  have "card R \<le> card R0 + card ((\<lambda>k. (as ! k, ns ! k)) ` in_use live)" using t card_Un_le by (simp add: tracks_def)
  also have "\<dots> \<le> card R0 + card (in_use live)" by (simp add: card_image_le in_use_def)
  finally show ?thesis .
qed

lemma tracksD:
  assumes "tracks R0 live as ns f m R" "k \<in> in_use live"
  shows "k < length live" "live ! k \<noteq> None" "the (live ! k) \<le> ns ! k" "(as ! k, ns ! k) \<in> R" "(as ! k, ns ! k) \<notin> R0"
    "f (k, d) = Some v \<Longrightarrow> d < the (live ! k) \<and> m (as ! k + of_nat d) = v"
  using assms by (auto simp: tracks_def in_use_def)

text \<open>A byte written to a region in use is inside that region.\<close>

lemma byte_in_region:
  "rep s R \<Longrightarrow> tracks R0 live as ns f m R \<Longrightarrow> k \<in> in_use live \<Longrightarrow> d < the (live ! k) \<Longrightarrow> inside (as ! k) (ns ! k) (as ! k + of_nat d)"
  using tracksD(3,4) rep_size [of s R "(as ! k, ns ! k)"] by (intro inside_add) fastforce+

lemma tracks_view:
  assumes rep: "rep s R" and t: "tracks R0 live as ns f m R" and same: "\<And>r x. r \<in> R \<Longrightarrow> inside (fst r) (snd r) x \<Longrightarrow> m' x = m x"
  shows "tracks R0 live as ns f m' R"
proof -
  have "m' (as ! k + of_nat d) = m (as ! k + of_nat d)" if "k \<in> in_use live" "f (k, d) = Some v" for k d v
    by (rule same [of "(as ! k, ns ! k)"]) (use tracksD [OF t that(1)] byte_in_region [OF rep t that(1)] that(2) in auto)
  then show ?thesis using t unfolding tracks_def by (metis (no_types, lifting))
qed

lemma ask_step:
  assumes rep: "rep s R" and t: "tracks R0 live as ns f (view s) R" and z: "fine z" and q: "card (in_use live) < q" "card R0 + q \<le> quota"
  obtains a n s' where "alloc s z = Some (a, s')" "rep s' (insert (a, n) R)"
    "tracks R0 (live @ [Some z]) (as @ [a]) (ns @ [n]) f (view s') (insert (a, n) R)"
    "\<forall>r\<in>R. \<forall>x. inside (fst r) (snd r) x \<longrightarrow> view s' x = view s x"
proof -
  have fits: "fine z \<and> card R < quota" using tracks_finite [OF t] q z by simp
  obtain a n s' where a: "alloc s z = Some (a, s')" "z \<le> n" "(a, n) \<notin> R" "rep s' (insert (a, n) R)"
    using alloc_rep [OF rep fits] by blast
  have keep: "view s' x = view s x" if "r \<in> R" "inside (fst r) (snd r) x" for r x
    by (rule alloc_keeps [OF rep fits a(1) that])
  have T: "tracks R0 live as ns f (view s') R" by (rule tracks_view [OF rep t]) (use keep in blast)
  have len: "length as = length live" "length ns = length live" using t by (simp_all add: tracks_def)
  have new: "f (length live, d) = None" for d using t by (simp add: tracks_def)
  have old: "k \<in> in_use live \<Longrightarrow> k < length live" for k by (simp add: in_use_def)
  have im: "(\<lambda>k. ((as @ [a]) ! k, (ns @ [n]) ! k)) ` in_use live = (\<lambda>k. (as ! k, ns ! k)) ` in_use live"
    using len old by (auto simp: nth_append image_iff)
  have "inj_on (\<lambda>k. ((as @ [a]) ! k, (ns @ [n]) ! k)) (in_use live)"
    using T len old by (auto simp: tracks_def inj_on_def nth_append)
  moreover have "(a, n) \<notin> (\<lambda>k. (as ! k, ns ! k)) ` in_use live" "(a, n) \<notin> R0" using a(3) t by (auto simp: tracks_def)
  ultimately have inj: "inj_on (\<lambda>k. ((as @ [a]) ! k, (ns @ [n]) ! k)) (in_use (live @ [Some z]))"
    unfolding in_use_simps using len im by (auto simp: nth_append image_iff dest: old)
  have "tracks R0 (live @ [Some z]) (as @ [a]) (ns @ [n]) f (view s') (insert (a, n) R)"
    unfolding tracks_def
  proof (intro conjI)
    show "insert (a, n) R = R0 \<union> (\<lambda>k. ((as @ [a]) ! k, (ns @ [n]) ! k)) ` in_use (live @ [Some z])"
      unfolding in_use_simps image_insert im using t len by (auto simp: tracks_def nth_append)
    show "\<forall>k\<in>in_use (live @ [Some z]). the ((live @ [Some z]) ! k) \<le> (ns @ [n]) ! k \<and> ((as @ [a]) ! k, (ns @ [n]) ! k) \<notin> R0"
      unfolding in_use_simps using a(2) \<open>(a, n) \<notin> R0\<close> T len old by (auto simp: tracks_def nth_append)
    show "\<forall>k\<in>in_use (live @ [Some z]). \<forall>d v. f (k, d) = Some v \<longrightarrow> d < the ((live @ [Some z]) ! k) \<and> view s' ((as @ [a]) ! k + of_nat d) = v"
      unfolding in_use_simps using new T len old by (auto simp: tracks_def nth_append)
    show "\<forall>k d. length (live @ [Some z]) \<le> k \<longrightarrow> f (k, d) = None" using t by (simp add: tracks_def)
  qed (use len inj in simp_all)
  then show ?thesis using that a(1,4) keep by blast
qed

lemma return_step:
  assumes rep: "rep s R" and t: "tracks R0 live as ns f (view s) R" and k: "k < length live" "live ! k \<noteq> None"
  obtains s' where "free s (as ! k) = Some s'" "rep s' (R - {(as ! k, ns ! k)})"
    "tracks R0 (live[k := None]) as ns f (view s') (R - {(as ! k, ns ! k)})"
    "\<forall>r\<in>R. \<forall>x. inside (fst r) (snd r) x \<longrightarrow> view s' x = view s x"
proof -
  have ku: "k \<in> in_use live" using k by (simp add: in_use_def)
  note kD = tracksD [OF t ku]
  obtain s' where s': "free s (as ! k) = Some s'" "rep s' (R - {(as ! k, ns ! k)})" using free_rep [OF rep kD(4)] by blast
  have keep: "view s' x = view s x" if "r \<in> R" "inside (fst r) (snd r) x" for r x
    by (rule free_keeps [OF rep kD(4) s'(1) that])
  have T: "tracks R0 live as ns f (view s') R" by (rule tracks_view [OF rep t]) (use keep in blast)
  have inj: "inj_on (\<lambda>k. (as ! k, ns ! k)) (in_use live)" and R: "R = R0 \<union> (\<lambda>k. (as ! k, ns ! k)) ` in_use live"
    using t by (simp_all add: tracks_def)
  have "(\<lambda>k. (as ! k, ns ! k)) ` (in_use live - {k}) = (\<lambda>k. (as ! k, ns ! k)) ` in_use live - {(as ! k, ns ! k)}"
    using inj_on_image_set_diff [OF inj, of "in_use live" "{k}"] ku by simp
  then have "R - {(as ! k, ns ! k)} = R0 \<union> (\<lambda>k. (as ! k, ns ! k)) ` (in_use live - {k})" using R kD(5) by blast
  then have "tracks R0 (live[k := None]) as ns f (view s') (R - {(as ! k, ns ! k)})"
    using T inj_on_subset [OF inj, of "in_use live - {k}"] unfolding tracks_def in_use_simps(2) [OF k(1)] by auto
  then show ?thesis using that s' keep by blast
qed

lemma store_step:
  assumes rep: "rep s R" and t: "tracks R0 live as ns f (view s) R" and k: "k < length live" "live ! k = Some z" "d < z"
  shows "rep (poke s (as ! k + of_nat d) v) R" "tracks R0 live as ns (f((k, d) := Some v)) (view (poke s (as ! k + of_nat d) v)) R"
    "\<forall>r\<in>R0. \<forall>x. inside (fst r) (snd r) x \<longrightarrow> view (poke s (as ! k + of_nat d) v) x = view s x"
proof -
  let ?x = "as ! k + of_nat d"
  have ku: "k \<in> in_use live" using k by (simp add: in_use_def)
  note kD = tracksD [OF t ku]
  have x: "inside (as ! k) (ns ! k) ?x" by (rule byte_in_region [OF rep t ku]) (simp add: k)
  show "rep (poke s ?x v) R" by (rule poke_rep [OF rep kD(4) x])
  have other: "y \<noteq> ?x" if "r \<in> R" "r \<noteq> (as ! k, ns ! k)" "inside (fst r) (snd r) y" for r y
    using regions_disjoint [OF rep that(1) kD(4) that(2,3)] x by auto
  have "r \<noteq> (as ! k, ns ! k)" "r \<in> R" if "r \<in> R0" for r using that kD(5) t by (auto simp: tracks_def)
  then show "\<forall>r\<in>R0. \<forall>x. inside (fst r) (snd r) x \<longrightarrow> view (poke s ?x v) x = view s x"
    using other unfolding poke_view fun_upd_def by metis
  have "e < the (live ! l) \<and> view (poke s ?x v) (as ! l + of_nat e) = w"
    if l: "l \<in> in_use live" and f: "(f((k, d) := Some v)) (l, e) = Some w" for l e w
  proof (cases "(l, e) = (k, d)")
    case True
    then show ?thesis using f k by (simp add: poke_view)
  next
    case False
    then have fe: "f (l, e) = Some w" using f by (auto split: if_splits)
    note lD = tracksD [OF t l]
    have e: "e < the (live ! l)" "view s (as ! l + of_nat e) = w" using lD(6) [OF fe] by simp_all
    have y: "inside (as ! l) (ns ! l) (as ! l + of_nat e)" by (rule byte_in_region [OF rep t l e(1)])
    have "as ! l + of_nat e \<noteq> ?x"
    proof (cases "l = k")
      case True
      have "ns ! k \<le> 2 ^ 32" using rep_size [OF rep kD(4)] by simp
      then have "e < 4294967296" "d < 4294967296" using e(1) kD(3) k True by simp_all
      then show ?thesis using False True by (simp add: word_of_nat_eq_iff take_bit_nat_eq_self)
    next
      case False
      then have "(as ! l, ns ! l) \<noteq> (as ! k, ns ! k)" using t l ku unfolding tracks_def inj_on_def by blast
      then show ?thesis using other [OF lD(4)] y by simp
    qed
    then show ?thesis using e by (simp add: poke_view)
  qed
  then show "tracks R0 live as ns (f((k, d) := Some v)) (view (poke s ?x v)) R"
    using t k(1) unfolding tracks_def by auto
qed

lemma same_view:
  assumes "\<exists>as s' ns R'. P as s' \<and> Q s' R' \<and> T as ns s' R' \<and> (\<forall>r\<in>R0. \<forall>x. inside (fst r) (snd r) x \<longrightarrow> view s' x = view s1 x)"
    and "\<forall>r\<in>R0. \<forall>x. inside (fst r) (snd r) x \<longrightarrow> view s1 x = view s x"
  shows "\<exists>as s' ns R'. P as s' \<and> Q s' R' \<and> T as ns s' R' \<and> (\<forall>r\<in>R0. \<forall>x. inside (fst r) (snd r) x \<longrightarrow> view s' x = view s x)"
  using assms by metis

lemma session_runs:
  "rep s R \<Longrightarrow> in_order fine q live cs \<Longrightarrow> tracks R0 live as ns f (view s) R \<Longrightarrow> card R0 + q \<le> quota \<Longrightarrow>
   \<exists>as' s' ns' R'. serve alloc free poke cs as s = Some (as', s') \<and> rep s' R'
     \<and> tracks R0 (after live cs) as' ns' (stored cs f) (view s') R'
     \<and> (\<forall>r\<in>R0. \<forall>x. inside (fst r) (snd r) x \<longrightarrow> view s' x = view s x)"
proof (induction cs arbitrary: live s R as ns f)
  case Nil
  then show ?case by auto
next
  case (Cons c cs)
  show ?case
  proof (cases c)
    case (Ask z)
    have z: "fine z" "card (in_use live) < q" "in_order fine q (live @ [Some z]) cs" using Cons.prems(2) Ask by (simp_all add: card_in_use)
    obtain a n s1 where s1: "alloc s z = Some (a, s1)" "rep s1 (insert (a, n) R)"
      "tracks R0 (live @ [Some z]) (as @ [a]) (ns @ [n]) f (view s1) (insert (a, n) R)"
      "\<forall>r\<in>R. \<forall>x. inside (fst r) (snd r) x \<longrightarrow> view s1 x = view s x"
      by (rule ask_step [OF Cons.prems(1,3) z(1,2) Cons.prems(4)])
    have "R0 \<subseteq> R" using Cons.prems(3) by (auto simp: tracks_def)
    then have keep: "\<forall>r\<in>R0. \<forall>x. inside (fst r) (snd r) x \<longrightarrow> view s1 x = view s x" using s1(4) by blast
    show ?thesis unfolding Ask serve.simps after.simps stored.simps s1(1) Option.bind.bind_lunit prod.case
      by (rule same_view [OF Cons.IH [OF s1(2) z(3) s1(3) Cons.prems(4)] keep])
  next
    case (Return k)
    have k: "k < length live" "live ! k \<noteq> None" "in_order fine q (live[k := None]) cs" using Cons.prems(2) Return by simp_all
    obtain s1 where s1: "free s (as ! k) = Some s1" "rep s1 (R - {(as ! k, ns ! k)})"
      "tracks R0 (live[k := None]) as ns f (view s1) (R - {(as ! k, ns ! k)})"
      "\<forall>r\<in>R. \<forall>x. inside (fst r) (snd r) x \<longrightarrow> view s1 x = view s x"
      by (rule return_step [OF Cons.prems(1,3) k(1,2)])
    have "R0 \<subseteq> R" using Cons.prems(3) by (auto simp: tracks_def)
    then have keep: "\<forall>r\<in>R0. \<forall>x. inside (fst r) (snd r) x \<longrightarrow> view s1 x = view s x" using s1(4) by blast
    show ?thesis unfolding Return serve.simps after.simps stored.simps s1(1) Option.bind.bind_lunit
      by (rule same_view [OF Cons.IH [OF s1(2) k(3) s1(3) Cons.prems(4)] keep])
  next
    case (Store k d v)
    obtain z where k: "k < length live" "live ! k = Some z" "d < z" "in_order fine q live cs"
      using Cons.prems(2) Store by (auto split: option.splits)
    note st = store_step [OF Cons.prems(1,3) k(1-3), of v]
    show ?thesis unfolding Store serve.simps after.simps stored.simps
      by (rule same_view [OF Cons.IH [OF st(1) k(4) st(2) Cons.prems(4)] st(3)])
  qed
qed

text \<open>
  A session from the start: every call is served; what is in use at its end are regions of at least the size asked
  for, apart from each other and from those others hold, they hold what was last written to them, and what others
  hold has not changed.
\<close>

lemma session:
  assumes rep: "rep s R" and ord: "in_order fine q [] cs" and q: "card R + q \<le> quota" and shows_as: "\<And>s R. rep s R \<Longrightarrow> P s R"
  shows "\<exists>as s' ns. serve alloc free poke cs [] s = Some (as, s') \<and> length as = length (after [] cs)
     \<and> P s' (R \<union> (\<lambda>k. (as ! k, ns k)) ` in_use (after [] cs))
     \<and> (\<forall>k\<in>in_use (after [] cs). the (after [] cs ! k) \<le> ns k
         \<and> (\<forall>r\<in>R. apart (as ! k) (ns k) (fst r) (snd r))
         \<and> (\<forall>l\<in>in_use (after [] cs). l \<noteq> k \<longrightarrow> apart (as ! k) (ns k) (as ! l) (ns l))
         \<and> (\<forall>d v. stored cs (\<lambda>_. None) (k, d) = Some v \<longrightarrow> view s' (as ! k + of_nat d) = v))
     \<and> (\<forall>r\<in>R. \<forall>x. inside (fst r) (snd r) x \<longrightarrow> view s' x = view s x)"
proof -
  have "tracks R [] [] [] (\<lambda>_. None) (view s) R" by (simp add: tracks_def in_use_def)
  from session_runs [OF rep ord this q] obtain as s' ns R' where S: "serve alloc free poke cs [] s = Some (as, s')" "rep s' R'"
    "tracks R (after [] cs) as ns (stored cs (\<lambda>_. None)) (view s') R'" "\<forall>r\<in>R. \<forall>x. inside (fst r) (snd r) x \<longrightarrow> view s' x = view s x"
    by blast
  have len: "length as = length (after [] cs)" and R': "R' = R \<union> (\<lambda>k. (as ! k, ns ! k)) ` in_use (after [] cs)"
    and inj: "inj_on (\<lambda>k. (as ! k, ns ! k)) (in_use (after [] cs))"
    using S(3) by (simp_all add: tracks_def)
  have "the (after [] cs ! k) \<le> ns ! k
         \<and> (\<forall>r\<in>R. apart (as ! k) (ns ! k) (fst r) (snd r))
         \<and> (\<forall>l\<in>in_use (after [] cs). l \<noteq> k \<longrightarrow> apart (as ! k) (ns ! k) (as ! l) (ns ! l))
         \<and> (\<forall>d v. stored cs (\<lambda>_. None) (k, d) = Some v \<longrightarrow> view s' (as ! k + of_nat d) = v)"
    if k: "k \<in> in_use (after [] cs)" for k
  proof (intro conjI ballI impI allI)
    note kD = tracksD [OF S(3) k]
    show "the (after [] cs ! k) \<le> ns ! k" by (rule kD(3))
    show "apart (as ! k) (ns ! k) (fst r) (snd r)" if "r \<in> R" for r
      using rep_apart [OF S(2) kD(4), of r] that kD(5) R' by auto
    show "apart (as ! k) (ns ! k) (as ! l) (ns ! l)" if l: "l \<in> in_use (after [] cs)" "l \<noteq> k" for l
      using rep_apart [OF S(2) kD(4) tracksD(4) [OF S(3) l(1)]] inj_onD [OF inj _ k l(1)] l(2) by auto
    show "view s' (as ! k + of_nat d) = v" if "stored cs (\<lambda>_. None) (k, d) = Some v" for d v using kD(6) [OF that] by simp
  qed
  then show ?thesis using S(1,4) len shows_as [OF S(2)] R' by (intro exI [of _ as] exI [of _ s'] exI [of _ "\<lambda>k. ns ! k"]) simp
qed

end

end
