(* ===== verification/Pool_Spec.thy ===== *)
theory Pool_Spec
  imports Pool Alloc
begin

text \<open>
  What the pools stand for: each pool \<open>i\<close> has handed out the slots below \<open>T i\<close> that are not on its
  free list \<open>F i\<close>; the slots from \<open>T i\<close> on have never been used and their headers are zero.
\<close>

subsection \<open>Slots\<close>

definition slot_w :: "pool \<Rightarrow> nat" where
  "slot_w p = unat (po_chunk p) + 4"

definition slot_addr :: "pool \<Rightarrow> nat \<Rightarrow> addr" where
  "slot_addr p k = po_base p + of_nat (k * slot_w p)"

definition nslots :: "pool \<Rightarrow> nat" where
  "nslots p = unat (po_size p) div slot_w p"

text \<open>The chain of free slots from a head: through the slots \<open>F\<close> to the first unused slot.\<close>

fun free_chain :: "mem \<Rightarrow> pool \<Rightarrow> nat list \<Rightarrow> nat \<Rightarrow> addr \<Rightarrow> bool" where
  "free_chain m p [] t h \<longleftrightarrow> h = slot_addr p t"
| "free_chain m p (f # F) t h \<longleftrightarrow> h = slot_addr p f \<and> free_chain m p F t (ld32 m (slot_addr p f))"

definition pool_ok :: "mem \<Rightarrow> pool \<Rightarrow> nat list \<Rightarrow> nat \<Rightarrow> bool" where
  "pool_ok m p F t \<longleftrightarrow> t \<le> nslots p \<and> distinct F \<and> set F \<subseteq> {..<t} \<and> free_chain m p F t (po_head p)
     \<and> (\<forall>k. t \<le> k \<and> k < nslots p \<longrightarrow> ld32 m (slot_addr p k) = 0)"

definition pools_wf :: "'a pool_state_scheme \<Rightarrow> bool" where
  "pools_wf s \<longleftrightarrow> length (pools s) = 7 \<and> pm_num (pmm s) = 7 \<and> pm_llc (pmm s) = 16 \<and> pm_ulc (pmm s) = 1024
     \<and> (\<forall>i<7. unat (po_chunk (pools s ! i)) = 16 * 2 ^ i
          \<and> unat (po_size (pools s ! i)) = nslots (pools s ! i) * slot_w (pools s ! i)
          \<and> 0 < unat (po_base (pools s ! i))
          \<and> unat (po_base (pools s ! i)) + unat (po_size (pools s ! i)) < 4294967296)
     \<and> (\<forall>i<7. \<forall>j<7. i < j \<longrightarrow>
          unat (po_base (pools s ! i)) + unat (po_size (pools s ! i)) \<le> unat (po_base (pools s ! j)))"

abbreviation cell :: "'a pool_state_scheme \<Rightarrow> nat \<times> nat \<Rightarrow> addr" where
  "cell s a \<equiv> slot_addr (pools s ! fst a) (snd a)"

definition cells :: "'a pool_state_scheme \<Rightarrow> (nat \<times> nat) set" where
  "cells s = {(i, k). i < 7 \<and> k < nslots (pools s ! i)}"

definition cell_region :: "'a pool_state_scheme \<Rightarrow> nat \<times> nat \<Rightarrow> region" where
  "cell_region s a = (cell s a + 4, 16 * 2 ^ fst a)"

definition used_cells :: "(nat \<Rightarrow> nat list) \<Rightarrow> (nat \<Rightarrow> nat) \<Rightarrow> (nat \<times> nat) set" where
  "used_cells F T = {(i, k). i < 7 \<and> k < T i \<and> k \<notin> set (F i)}"

definition pool_rep :: "'a pool_state_scheme \<Rightarrow> (nat \<Rightarrow> nat list) \<Rightarrow> (nat \<Rightarrow> nat) \<Rightarrow> bool" where
  "pool_rep s F T \<longleftrightarrow> pools_wf s \<and> (\<forall>i<7. pool_ok (km s) (pools s ! i) (F i) (T i))"

lemma pools_wfD:
  assumes "pools_wf s" "i < 7"
  shows "length (pools s) = 7" "slot_w (pools s ! i) = 16 * 2 ^ i + 4"
    "po_chunk (pools s ! i) = of_nat (16 * 2 ^ i)"
    "unat (po_size (pools s ! i)) = nslots (pools s ! i) * slot_w (pools s ! i)"
    "0 < unat (po_base (pools s ! i))"
    "unat (po_base (pools s ! i)) + nslots (pools s ! i) * slot_w (pools s ! i) < 4294967296"
proof -
  show "length (pools s) = 7" "slot_w (pools s ! i) = 16 * 2 ^ i + 4" "0 < unat (po_base (pools s ! i))"
    and sz: "unat (po_size (pools s ! i)) = nslots (pools s ! i) * slot_w (pools s ! i)"
    using assms by (auto simp: pools_wf_def slot_w_def)
  show "po_chunk (pools s ! i) = of_nat (16 * 2 ^ i)"
    by (rule u32_of_nat_eqI) (use assms in \<open>auto simp: pools_wf_def\<close>)
  show "unat (po_base (pools s ! i)) + nslots (pools s ! i) * slot_w (pools s ! i) < 4294967296"
    using assms unfolding sz [symmetric] by (auto simp: pools_wf_def)
qed

lemma slot_unat:
  assumes "pools_wf s" "i < 7" "k \<le> nslots (pools s ! i)"
  shows "unat (slot_addr (pools s ! i) k) = unat (po_base (pools s ! i)) + k * slot_w (pools s ! i)"
proof -
  note w = pools_wfD [OF assms(1,2)]
  have le: "k * slot_w (pools s ! i) \<le> nslots (pools s ! i) * slot_w (pools s ! i)"
    using assms(3) by (rule mult_le_mono1)
  then have c: "unat (of_nat (k * slot_w (pools s ! i)) :: u32) = k * slot_w (pools s ! i)"
    using w(6) by (intro unat_of_nat_lt) linarith
  have "unat (po_base (pools s ! i)) + k * slot_w (pools s ! i) < 4294967296" using le w(6) by linarith
  then show ?thesis unfolding slot_addr_def unat_word_ariths c by (simp add: mod_less)
qed

lemma slot_nonzero: "pools_wf s \<Longrightarrow> i < 7 \<Longrightarrow> k \<le> nslots (pools s ! i) \<Longrightarrow> slot_addr (pools s ! i) k \<noteq> NULL"
  using slot_unat [of s i k] pools_wfD(5) [of s i] by auto

text \<open>Cells of all pools are apart from each other.\<close>

lemma cells_order:
  assumes wf: "pools_wf s" and c: "(i, k) \<in> cells s" "(j, l) \<in> cells s" and lt: "i < j \<or> i = j \<and> k < l"
  shows "unat (cell s (i, k)) + slot_w (pools s ! i) \<le> unat (cell s (j, l))
    \<and> unat (cell s (j, l)) + slot_w (pools s ! j) < 4294967296"
proof -
  have b: "i < 7" "j < 7" "k < nslots (pools s ! i)" "l < nslots (pools s ! j)" using c by (auto simp: cells_def)
  note u = slot_unat [OF wf b(1), of k] slot_unat [OF wf b(2), of l]
  have wi: "k * slot_w (pools s ! i) + slot_w (pools s ! i) \<le> nslots (pools s ! i) * slot_w (pools s ! i)"
    using mult_le_mono1 [of "Suc k" "nslots (pools s ! i)" "slot_w (pools s ! i)"] b(3) by simp
  have wj: "l * slot_w (pools s ! j) + slot_w (pools s ! j) \<le> nslots (pools s ! j) * slot_w (pools s ! j)"
    using mult_le_mono1 [of "Suc l" "nslots (pools s ! j)" "slot_w (pools s ! j)"] b(4) by simp
  have "unat (cell s (i, k)) + slot_w (pools s ! i) \<le> unat (cell s (j, l))"
    using lt
  proof
    assume "i < j"
    then have "unat (po_base (pools s ! i)) + unat (po_size (pools s ! i)) \<le> unat (po_base (pools s ! j))"
      using wf b by (auto simp: pools_wf_def)
    then show ?thesis using u b wi pools_wfD(4) [OF wf b(1)] by simp
  next
    assume "i = j \<and> k < l"
    then have "Suc k * slot_w (pools s ! i) \<le> l * slot_w (pools s ! i)" by (intro mult_le_mono1) simp
    then show ?thesis using u b \<open>i = j \<and> k < l\<close> by simp
  qed
  moreover have "unat (cell s (j, l)) + slot_w (pools s ! j) < 4294967296"
    using u(2) b(4) wj pools_wfD(6) [OF wf b(2)] by simp
  ultimately show ?thesis ..
qed

lemma cells_apart:
  assumes wf: "pools_wf s" and c: "a \<in> cells s" "b \<in> cells s" "a \<noteq> b"
  shows "apart (cell s a) (slot_w (pools s ! fst a)) (cell s b) (slot_w (pools s ! fst b))"
proof -
  have *: "apart (cell s (i, k)) (slot_w (pools s ! i)) (cell s (j, l)) (slot_w (pools s ! j))"
    if "(i, k) \<in> cells s" "(j, l) \<in> cells s" "i < j \<or> i = j \<and> k < l" for i k j l
    using cells_order [OF wf that] by (intro apart_no_wrap) (auto simp: slot_w_def)
  obtain i k j l where ab: "a = (i, k)" "b = (j, l)" by (cases a, cases b)
  have "i < j \<or> i = j \<and> k < l \<or> j < i \<or> j = i \<and> l < k" using c(3) ab by auto
  then show ?thesis using *[of i k j l] *[of j l i k] c ab apart_sym by auto
qed

text \<open>Headers and slots as parts of cells.\<close>

lemma cell_parts:
  assumes wf: "pools_wf s" and c: "a \<in> cells s" "b \<in> cells s"
  shows "a \<noteq> b \<Longrightarrow> apart (cell s a) 4 (cell s b) 4"
    "apart (cell s a + 4) (16 * 2 ^ fst a) (cell s b) 4"
    "a \<noteq> b \<Longrightarrow> apart (cell s a + 4) (16 * 2 ^ fst a) (cell s b + 4) (16 * 2 ^ fst b)"
proof -
  have w: "slot_w (pools s ! fst d) = 16 * 2 ^ fst d + 4" "slot_w (pools s ! fst d) \<le> 2 ^ 32"
    if "d \<in> cells s" for d
  proof -
    have d: "fst d < 7" using that by (auto simp: cells_def)
    show "slot_w (pools s ! fst d) = 16 * 2 ^ fst d + 4" by (rule pools_wfD(2) [OF wf d])
    moreover have "(2::nat) ^ fst d \<le> 2 ^ 7" using d by (intro power_increasing) auto
    ultimately show "slot_w (pools s ! fst d) \<le> 2 ^ 32" by simp
  qed
  note wa = w [OF c(1)] and wb = w [OF c(2)]
  show "a \<noteq> b \<Longrightarrow> apart (cell s a) 4 (cell s b) 4"
    using apart_sub [OF cells_apart [OF wf c], of 0 4 0 4] wa wb by simp
  show ne: "a \<noteq> b \<Longrightarrow> apart (cell s a + 4) (16 * 2 ^ fst a) (cell s b + 4) (16 * 2 ^ fst b)"
    using apart_sub [OF cells_apart [OF wf c], of 4 "16 * 2 ^ fst a" 4 "16 * 2 ^ fst b"] wa wb by simp
  show "apart (cell s a + 4) (16 * 2 ^ fst a) (cell s b) 4"
  proof (cases "a = b")
    case True
    have "apart (cell s a + of_nat 0) 4 (cell s a + of_nat 4) (16 * 2 ^ fst a)"
      by (rule apart_offsets) (use wa in auto)
    then show ?thesis using True by (simp add: apart_sym)
  next
    case False
    then show ?thesis
      using apart_sub [OF cells_apart [OF wf c], of 4 "16 * 2 ^ fst a" 0 4] wa wb by simp
  qed
qed

subsection \<open>The order of a request and the pool of an address\<close>

definition slot_ord :: "nat \<Rightarrow> nat option" where
  "slot_ord z = find (\<lambda>i. z \<le> 16 * 2 ^ i) [0..<7]"

lemma upt7: "[0..<7] = [0, 1, 2, 3, 4, 5, 6 :: nat]"
  by (simp add: upt_rec)

lemma lt7: "i < 7 \<longleftrightarrow> i = 0 \<or> i = 1 \<or> i = 2 \<or> i = 3 \<or> i = 4 \<or> i = 5 \<or> i = (6 :: nat)"
  by auto

lemma slot_ord_Some: "slot_ord z = Some i \<Longrightarrow> i < 7 \<and> z \<le> 16 * 2 ^ i"
  by (auto simp: slot_ord_def find_Some_iff)

lemma slot_ord_None: "slot_ord z = None \<longleftrightarrow> 1024 < z"
  by (auto simp: slot_ord_def upt7)

lemma pl_get_chunk_eq:
  assumes "pools_wf s" "0 < z" "z < 2147483648"
  shows "pl_get_chunk s (int z) = (case slot_ord z of Some i \<Rightarrow> int (16 * 2 ^ i) | None \<Rightarrow> -1)"
proof -
  have c: "po_chunk (pools s ! 0) = 16" using pools_wfD(3) [OF assms(1), of 0] by simp
  have z: "to_u32 (int z) \<le> of_nat k \<longleftrightarrow> z \<le> k" if "k \<le> 2048" for k
    using that assms(3) by (simp add: to_u32_def word_le_nat_alt unat_of_nat_lt)
  have z': "to_u32 (int z) \<le> 16 \<longleftrightarrow> z \<le> 16" "to_u32 (int z) \<le> 32 \<longleftrightarrow> z \<le> 32" "to_u32 (int z) \<le> 64 \<longleftrightarrow> z \<le> 64"
    "to_u32 (int z) \<le> 128 \<longleftrightarrow> z \<le> 128" "to_u32 (int z) \<le> 256 \<longleftrightarrow> z \<le> 256" "to_u32 (int z) \<le> 512 \<longleftrightarrow> z \<le> 512"
    "to_u32 (int z) \<le> 1024 \<longleftrightarrow> z \<le> 1024"
    using z [of 16] z [of 32] z [of 64] z [of 128] z [of 256] z [of 512] z [of 1024] by simp_all
  have n: "to_u32 (pm_num (pmm s)) = 7" using assms(1) by (simp add: pools_wf_def to_u32_def)
  have v: "to_s32 16 = 16" "to_s32 32 = 32" "to_s32 64 = 64" "to_s32 128 = 128" "to_s32 256 = 256"
    "to_s32 512 = 512" "to_s32 1024 = 1024" by (simp_all add: to_s32_def)
  show ?thesis
    using assms(2)
    by (simp add: pl_get_chunk_def n c pl_chunk_loop.simps z' v slot_ord_def upt7)
qed

lemma pool_get_ord_eq:
  assumes "pools_wf s" "i < 7"
  shows "pool_get_ord s (of_nat (16 * 2 ^ i)) = Some (int i)"
proof -
  have c: "pm_llc (pmm s) = 16" "pm_ulc (pmm s) = 1024" "pm_num (pmm s) = 7"
    using assms(1) by (simp_all add: pools_wf_def)
  have "i = 0 \<or> i = 1 \<or> i = 2 \<or> i = 3 \<or> i = 4 \<or> i = 5 \<or> i = 6" using assms(2) by auto
  then show ?thesis
    by (elim disjE) (simp_all add: pool_get_ord_def c pool_ord_loop.simps to_u32_def s32_ok_def)
qed

text \<open>The first pool whose memory contains the address; the pools do not overlap, so it is the only one.\<close>

lemma pool_id_loop_eq:
  assumes "i < length ps" "inside (po_base (ps ! i)) (unat (po_size (ps ! i))) a"
    and "\<And>j. j < i \<Longrightarrow> \<not> inside (po_base (ps ! j)) (unat (po_size (ps ! j))) a"
  shows "pool_id_loop ps a k = k + int i"
  using assms
proof (induction ps arbitrary: i k)
  case (Cons p ps)
  show ?case
  proof (cases i)
    case 0
    then show ?thesis using Cons.prems(2) by (simp add: inside_def word_less_nat_alt)
  next
    case (Suc j)
    have "\<not> a - po_base p < po_size p"
      using Cons.prems(3) [of 0] Suc by (simp add: inside_def word_less_nat_alt)
    moreover have "pool_id_loop ps a (k + 1) = k + 1 + int j"
      using Cons.prems(1,2) Cons.prems(3) [of "Suc _"] Suc by (intro Cons.IH) auto
    ultimately show ?thesis using Suc by simp
  qed
qed simp

lemma pool_get_id_cell:
  assumes wf: "pools_wf s" and c: "(i, k) \<in> cells s"
  shows "pool_get_id s (cell s (i, k)) = int i"
proof -
  have i: "i < 7" "k < nslots (pools s ! i)" using c by (auto simp: cells_def)
  note w = pools_wfD [OF wf i(1)]
  have u: "unat (cell s (i, k)) = unat (po_base (pools s ! i)) + k * slot_w (pools s ! i)"
    using slot_unat [OF wf i(1)] i(2) by simp
  have kw: "k * slot_w (pools s ! i) + slot_w (pools s ! i) \<le> nslots (pools s ! i) * slot_w (pools s ! i)"
    using mult_le_mono1 [of "Suc k" "nslots (pools s ! i)" "slot_w (pools s ! i)"] i(2) by simp
  have "inside (po_base (pools s ! i)) (unat (po_size (pools s ! i))) (cell s (i, k))"
    unfolding inside_def unat_sub_if' using u kw w(2) i(2) by (simp add: w(4) word_le_nat_alt)
  moreover have "\<not> inside (po_base (pools s ! j)) (unat (po_size (pools s ! j))) (cell s (i, k))" if "j < i" for j
  proof -
    have "unat (po_base (pools s ! j)) + unat (po_size (pools s ! j)) \<le> unat (po_base (pools s ! i))"
      using wf that i by (auto simp: pools_wf_def)
    then show ?thesis unfolding inside_def unat_sub_if' using u by (simp add: word_le_nat_alt)
  qed
  moreover have "take (nat (pm_num (pmm s))) (pools s) = pools s" using wf by (simp add: pools_wf_def)
  ultimately show ?thesis
    using pool_id_loop_eq [of i "pools s" "cell s (i, k)" 0] i w(1) by (simp add: pool_get_id_def)
qed

subsection \<open>Allocation and freeing\<close>

lemma free_chain_cong:
  "(\<And>f. f \<in> set F \<Longrightarrow> ld32 m' (slot_addr p f) = ld32 m (slot_addr p f)) \<Longrightarrow> free_chain m' p F t h = free_chain m p F t h"
  by (induction F arbitrary: h) auto

lemma pool_ok_cong:
  "(\<And>k. k < nslots p \<Longrightarrow> ld32 m' (slot_addr p k) = ld32 m (slot_addr p k)) \<Longrightarrow> pool_ok m p F t \<Longrightarrow> pool_ok m' p F t"
proof -
  assume same: "\<And>k. k < nslots p \<Longrightarrow> ld32 m' (slot_addr p k) = ld32 m (slot_addr p k)" and ok: "pool_ok m p F t"
  have "free_chain m' p F t (po_head p) = free_chain m p F t (po_head p)"
    by (rule free_chain_cong, rule same) (use ok in \<open>auto simp: pool_ok_def\<close>)
  then show ?thesis using ok same by (simp add: pool_ok_def)
qed

text \<open>A pool whose head and count change keeps its slots.\<close>

lemma slots_head [simp]:
  "slot_w (p\<lparr>po_head := h\<rparr>) = slot_w p" "slot_addr (p\<lparr>po_head := h\<rparr>) k = slot_addr p k" "nslots (p\<lparr>po_head := h\<rparr>) = nslots p"
  "slot_w (p\<lparr>po_frees := f\<rparr>) = slot_w p" "slot_addr (p\<lparr>po_frees := f\<rparr>) k = slot_addr p k" "nslots (p\<lparr>po_frees := f\<rparr>) = nslots p"
  by (simp_all add: slot_w_def slot_addr_def nslots_def)

lemma chain_head [simp]: "free_chain m (p\<lparr>po_head := h'\<rparr>) F t h = free_chain m p F t h"
  "free_chain m (p\<lparr>po_frees := f\<rparr>) F t h = free_chain m p F t h"
  by (induction F arbitrary: h) auto

lemma pools_wf_update:
  assumes "pools_wf s" "i < 7"
  shows "pools_wf (s\<lparr>km := m, pools := (pools s)[i := (pools s ! i)\<lparr>po_head := h, po_frees := f\<rparr>]\<rparr>)"
  using assms by (auto simp: pools_wf_def nth_list_update)

lemma update_cells:
  fixes s :: "'a pool_state_scheme" and m h f
  assumes "length (pools s) = 7" "i < 7"
  defines "s' \<equiv> s\<lparr>km := m, pools := (pools s)[i := (pools s ! i)\<lparr>po_head := h, po_frees := f\<rparr>]\<rparr>"
  shows "cell s' a = cell s a" "cells s' = cells s" "cell_region s' = cell_region s"
proof -
  have p: "slot_addr (pools s' ! j) k = slot_addr (pools s ! j) k" "nslots (pools s' ! j) = nslots (pools s ! j)" for j k
    using assms(1,2) by (cases "j = i"; simp add: s'_def)+
  show "cell s' a = cell s a" "cells s' = cells s" "cell_region s' = cell_region s"
    by (simp_all add: p cells_def cell_region_def fun_eq_iff)
qed

text \<open>Allocation takes the head of the free list, or else the first slot never used.\<close>

lemma pl_alloc_eq:
  assumes rep: "pool_rep s F T" and z: "0 < z" "slot_ord z = Some i"
    and room: "F i \<noteq> [] \<or> T i < nslots (pools s ! i)"
  defines "k \<equiv> hd (F i @ [T i])"
  shows "\<exists>s' F' T'. pl_alloc s (int z) = Some (cell s (i, k) + 4, s') \<and> pool_rep s' F' T' \<and> (i, k) \<in> cells s
    \<and> used_cells F' T' = insert (i, k) (used_cells F T) \<and> (i, k) \<notin> used_cells F T
    \<and> km s' = km s \<and> cell_region s' = cell_region s \<and> (\<exists>ps. s' = s\<lparr>pools := ps\<rparr>) \<and> cells s' = cells s \<and> cell s' = cell s
    \<and> F' = F(i := tl (F i)) \<and> T' = (if F i = [] then T(i := Suc (T i)) else T)"
proof -
  have wf: "pools_wf s" and i: "i < 7" and ok: "\<And>j. j < 7 \<Longrightarrow> pool_ok (km s) (pools s ! j) (F j) (T j)"
    using rep slot_ord_Some [OF z(2)] by (auto simp: pool_rep_def)
  note w = pools_wfD [OF wf i]
  let ?p = "pools s ! i"
  have oki: "T i \<le> nslots ?p" "distinct (F i)" "set (F i) \<subseteq> {..<T i}" "free_chain (km s) ?p (F i) (T i) (po_head ?p)"
    "\<And>k. T i \<le> k \<Longrightarrow> k < nslots ?p \<Longrightarrow> ld32 (km s) (slot_addr ?p k) = 0"
    using ok [OF i] by (auto simp: pool_ok_def)
  have zb: "z < 2147483648" using slot_ord_None [of z] z(2) by (cases "1024 < z") auto
  have head: "po_head ?p = slot_addr ?p k" using oki(4) by (cases "F i") (auto simp: k_def)
  have k: "k < nslots ?p"
    using oki(1,3) room by (cases "F i") (auto simp: k_def)
  have cell: "(i, k) \<in> cells s" using i k by (simp add: cells_def)
  have "(16 * 2 ^ i :: nat) < 2147483648"
    using power_increasing [of i 6 "2 :: nat"] i by simp
  then have chunk: "pl_get_chunk s (int z) = int (16 * 2 ^ i)" "to_u32 (int (16 * 2 ^ i)) = of_nat (16 * 2 ^ i)"
    using pl_get_chunk_eq [OF wf z(1) zb] z(2) by (simp_all add: to_u32_def)
  define h where "h = (if F i = [] then slot_addr ?p (Suc k) else slot_addr ?p (hd (tl (F i) @ [T i])))"
  define p' where "p' = ?p\<lparr>po_head := h, po_frees := po_frees ?p - 1\<rparr>"
  define s' where "s' = s\<lparr>km := km s, pools := (pools s)[i := p']\<rparr>"
  have next0: "ld32 (km s) (slot_addr ?p k) = (if F i = [] then 0 else h)"
    using oki(4) oki(5) [of "T i"] room by (cases "F i"; cases "tl (F i)") (auto simp: k_def h_def)
  have step: "slot_addr ?p k + (po_chunk ?p + 4) = slot_addr ?p (Suc k)"
    by (simp add: slot_addr_def w(2,3) algebra_simps)
  have hnz: "h \<noteq> 0" if "F i \<noteq> []"
  proof -
    have "hd (tl (F i) @ [T i]) \<le> nslots ?p"
      using oki(1,3) that by (cases "F i"; cases "tl (F i)") auto
    then show ?thesis using slot_nonzero [OF wf i] that by (simp add: h_def)
  qed
  have alloc: "pl_alloc s (int z) = Some (slot_addr ?p k + 4, s')"
    using z(1) chunk pool_get_ord_eq [OF wf i] next0 step hnz i w(1)
    by (simp add: pl_alloc_def Let_def head s'_def p'_def h_def)
  define F' T' where "F' = F(i := tl (F i))" and "T' = (if F i = [] then T(i := Suc (T i)) else T)"
  have "pool_ok (km s) p' (tl (F i)) (T' i)"
  proof (cases "F i")
    case Nil
    then show ?thesis using k oki(5) by (auto simp: pool_ok_def p'_def T'_def h_def k_def)
  next
    case (Cons f G)
    then have "free_chain (km s) ?p G (T i) h"
      using oki(4) next0 by (simp add: k_def)
    then show ?thesis using Cons oki by (auto simp: pool_ok_def p'_def T'_def)
  qed
  moreover have "pools_wf s'" unfolding s'_def p'_def by (rule pools_wf_update [OF wf i])
  ultimately have rep': "pool_rep s' F' T'"
    using ok w(1) by (auto simp: pool_rep_def s'_def F'_def T'_def nth_list_update)
  have used: "used_cells F' T' = insert (i, k) (used_cells F T)" "(i, k) \<notin> used_cells F T"
  proof -
    have iff: "(j, l) \<in> used_cells F' T' \<longleftrightarrow> (j, l) = (i, k) \<or> (j, l) \<in> used_cells F T" for j l
    proof (cases "j = i")
      case True
      then show ?thesis using oki(2,3) i
        by (cases "F i") (auto simp: used_cells_def F'_def T'_def k_def less_Suc_eq)
    next
      case False
      then show ?thesis by (auto simp: used_cells_def F'_def T'_def)
    qed
    then show "used_cells F' T' = insert (i, k) (used_cells F T)" by auto
    show "(i, k) \<notin> used_cells F T"
      by (cases "F i") (simp_all add: used_cells_def k_def)
  qed
  have reg: "cell_region s' = cell_region s" unfolding s'_def p'_def by (rule update_cells(3) [OF w(1) i])
  have frame: "km s' = km s" "\<exists>ps. s' = s\<lparr>pools := ps\<rparr>" by (auto simp: s'_def)
  have geo: "cells s' = cells s" "cell s' = cell s"
    unfolding s'_def p'_def by (rule update_cells(2) [OF w(1) i], rule ext, rule update_cells(1) [OF w(1) i])
  show ?thesis
    by (rule exI [of _ s'], rule exI [of _ F'], rule exI [of _ T'])
      (intro conjI rep' cell used reg frame geo F'_def T'_def, simp add: alloc)
qed

text \<open>Freeing pushes the slot on the free list.\<close>

lemma pl_free_eq:
  assumes rep: "pool_rep s F T" and c: "(i, k) \<in> used_cells F T"
  shows "pool_rep (pl_free s (cell s (i, k) + 4)) (F(i := k # F i)) T
    \<and> cell_region (pl_free s (cell s (i, k) + 4)) = cell_region s
    \<and> (\<forall>x. \<not> inside (cell s (i, k)) 4 x \<longrightarrow> km (pl_free s (cell s (i, k) + 4)) x = km s x)
    \<and> (\<exists>m ps. pl_free s (cell s (i, k) + 4) = s\<lparr>km := m, pools := ps\<rparr>)
    \<and> cells (pl_free s (cell s (i, k) + 4)) = cells s \<and> cell (pl_free s (cell s (i, k) + 4)) = cell s"
proof -
  have wf: "pools_wf s" and i: "i < 7" "k < T i" "k \<notin> set (F i)"
    and ok: "\<And>j. j < 7 \<Longrightarrow> pool_ok (km s) (pools s ! j) (F j) (T j)"
    using rep c by (auto simp: pool_rep_def used_cells_def)
  note w = pools_wfD [OF wf i(1)]
  let ?p = "pools s ! i" and ?a = "cell s (i, k)"
  have k: "k < nslots ?p" using ok [OF i(1)] i(2) by (auto simp: pool_ok_def)
  then have cell: "(i, k) \<in> cells s" using i(1) by (simp add: cells_def)
  define m where "m = st32 (km s) ?a (po_head ?p)"
  define p' where "p' = ?p\<lparr>po_head := ?a, po_frees := po_frees ?p + 1\<rparr>"
  define s' where "s' = s\<lparr>km := m, pools := (pools s)[i := p']\<rparr>"
  have "unat (po_base ?p) + nslots ?p * slot_w ?p < 4294967296" "0 < unat (po_base ?p)" using w by auto
  moreover have "k * slot_w ?p + slot_w ?p \<le> nslots ?p * slot_w ?p"
    using mult_le_mono1 [of "Suc k" "nslots ?p" "slot_w ?p"] k by simp
  moreover have "unat ?a = unat (po_base ?p) + k * slot_w ?p" using slot_unat [OF wf i(1)] k by simp
  ultimately have "unat (?a + 4) = unat ?a + 4" using w(2) by (subst unat_word_ariths) simp
  then have "?a + 4 \<noteq> NULL" by auto
  then have free: "pl_free s (?a + 4) = s'"
    using pool_get_id_cell [OF wf cell] by (simp add: pl_free_def Let_def s'_def m_def p'_def)
  have other: "ld32 m (cell s b) = ld32 (km s) (cell s b)" if "b \<in> cells s" "b \<noteq> (i, k)" for b
    unfolding m_def using cell_parts(1) [OF wf that(1) cell that(2)] by (rule ld32_st32_apart)
  have "pool_ok m p' (k # F i) (T i)"
  proof -
    have oki: "T i \<le> nslots ?p" "distinct (F i)" "set (F i) \<subseteq> {..<T i}" "free_chain (km s) ?p (F i) (T i) (po_head ?p)"
      "\<And>k. T i \<le> k \<Longrightarrow> k < nslots ?p \<Longrightarrow> ld32 (km s) (slot_addr ?p k) = 0"
      using ok [OF i(1)] by (auto simp: pool_ok_def)
    have same: "ld32 m (slot_addr ?p l) = ld32 (km s) (slot_addr ?p l)" if "l < nslots ?p" "l \<noteq> k" for l
      using other [of "(i, l)"] that i(1) by (simp add: cells_def)
    have "free_chain m ?p (F i) (T i) (po_head ?p) = free_chain (km s) ?p (F i) (T i) (po_head ?p)"
    proof (rule free_chain_cong)
      fix f assume "f \<in> set (F i)"
      then have "f < nslots ?p" "f \<noteq> k" using oki(1,3) i by auto
      then show "ld32 m (slot_addr ?p f) = ld32 (km s) (slot_addr ?p f)" by (rule same)
    qed
    moreover have "ld32 m (slot_addr ?p k) = po_head ?p" by (simp add: m_def)
    ultimately show ?thesis using oki i same by (auto simp: pool_ok_def p'_def)
  qed
  moreover have "pool_ok m (pools s ! j) (F j) (T j)" if "j < 7" "j \<noteq> i" for j
  proof (rule pool_ok_cong [OF _ ok [OF that(1)]])
    fix l assume "l < nslots (pools s ! j)"
    then show "ld32 m (slot_addr (pools s ! j) l) = ld32 (km s) (slot_addr (pools s ! j) l)"
      using other [of "(j, l)"] that by (simp add: cells_def)
  qed
  moreover have "pools_wf s'" unfolding s'_def p'_def by (rule pools_wf_update [OF wf i(1)])
  ultimately have "pool_rep s' (F(i := k # F i)) T"
    using w(1) by (auto simp: pool_rep_def s'_def nth_list_update)
  moreover have "cell_region s' = cell_region s" unfolding s'_def p'_def by (rule update_cells(3) [OF w(1) i(1)])
  moreover have "\<forall>x. \<not> inside ?a 4 x \<longrightarrow> km s' x = km s x" by (simp add: s'_def m_def st32_other)
  moreover have "cells s' = cells s" "cell s' = cell s"
    unfolding s'_def p'_def by (rule update_cells(2) [OF w(1) i(1)], rule ext, rule update_cells(1) [OF w(1) i(1)])
  moreover have "\<exists>m ps. s' = s\<lparr>km := m, pools := ps\<rparr>" by (auto simp: s'_def)
  ultimately show ?thesis unfolding free by blast
qed

end
