(* ===== verification/Pool_Init.thy ===== *)
theory Pool_Init
  imports Pool_Spec
begin

text \<open>
  Initialisation of the pools: the memory is split between them in portions of 128 slots, one pool
  after the other lies behind the array of pools, and every slot starts out unused.
\<close>

subsection \<open>Splitting the memory\<close>

definition portion :: "nat \<Rightarrow> nat" where
  "portion k = 128 * (16 * 2 ^ k + 4)"

definition sizes :: "pool list \<Rightarrow> nat" where
  "sizes ps = sum_list (map (\<lambda>p. unat (po_size p)) ps)"

lemma sizes_update:
  assumes "k < length ps" "unat (po_size p) = unat (po_size (ps ! k)) + d"
  shows "sizes (ps[k := p]) = sizes ps + d"
  using assms(2,1)
proof (induction ps arbitrary: k)
  case (Cons q ps)
  then show ?case by (cases k) (auto simp: sizes_def)
qed (simp add: sizes_def)

lemma size_le_sizes: "k < length ps \<Longrightarrow> unat (po_size (ps ! k)) \<le> sizes ps"
  unfolding sizes_def by (rule member_le_sum_list) (auto intro: image_eqI [of _ _ "ps ! k"])

lemma portion_bounds: "k < 7 \<Longrightarrow> 2560 \<le> portion k \<and> portion k < 2147483648"
  by (auto simp: lt7 portion_def)

text \<open>At most so many rounds remain: seven for each portion of the first pool, and the rest of the turn.\<close>

definition rounds :: "nat \<Rightarrow> nat \<Rightarrow> nat" where
  "rounds i rmd = 7 * (rmd div 2560) + (if i mod 7 = 0 then 0 else 7 - i mod 7)"

lemma rounds_step:
  assumes "2560 \<le> rmd" "rmd' \<le> rmd" "i mod 7 = 0 \<Longrightarrow> rmd' + 2560 \<le> rmd"
  shows "rounds (Suc i) rmd' < rounds i rmd"
proof (cases "i mod 7 = 0")
  case True
  then have "rmd' div 2560 + 1 \<le> rmd div 2560"
    using assms(3) div_le_mono [of "rmd' + 2560" rmd 2560] by simp
  moreover have "Suc i mod 7 = 1" using True by (simp add: mod_Suc)
  ultimately show ?thesis using True by (simp add: rounds_def)
next
  case False
  have "rmd' div 2560 \<le> rmd div 2560" using assms(2) by (rule div_le_mono)
  moreover have "i mod 7 < 7" by simp
  ultimately show ?thesis
    using False by (cases "Suc (i mod 7) = 7") (simp_all add: rounds_def mod_Suc, linarith)
qed

lemma calc_loop_spec:
  assumes "length ps = 7" "\<And>k. k < 7 \<Longrightarrow> po_ll (ps ! k) = int (portion k)"
    and "sizes ps + rmd < 2147483648" "i + rounds i rmd < 2147483647"
  shows "\<exists>rmd' ps'. calc_loop 7 ps (int rmd) (int i) = Some (int rmd', ps') \<and> rmd' < 2560 \<and> length ps' = 7
    \<and> sizes ps' + rmd' = sizes ps + rmd
    \<and> (\<forall>k<7. \<exists>c z. ps' ! k = (ps ! k)\<lparr>po_size := z\<rparr> \<and> unat z = unat (po_size (ps ! k)) + c * portion k
          \<and> (i \<le> k \<and> sum portion {i..k} \<le> rmd \<longrightarrow> 0 < c))"
  using assms
proof (induction "rounds i rmd" arbitrary: i rmd ps rule: less_induct)
  case less
  show ?case
  proof (cases "2560 \<le> rmd")
    case False
    then have "calc_loop 7 ps (int rmd) (int i) = Some (int rmd, ps)"
      using less.prems(2) [of 0] by (simp add: calc_loop.simps portion_def)
    moreover have "\<exists>c z. ps ! k = (ps ! k)\<lparr>po_size := z\<rparr> \<and> unat z = unat (po_size (ps ! k)) + c * portion k
        \<and> (i \<le> k \<and> sum portion {i..k} \<le> rmd \<longrightarrow> 0 < c)" if "k < 7" for k
    proof -
      have "\<not> sum portion {i..k} \<le> rmd" if "i \<le> k"
        using member_le_sum [of k "{i..k}" portion] that portion_bounds [OF \<open>k < 7\<close>] False by auto
      then show ?thesis by (intro exI [of _ 0] exI [of _ "po_size (ps ! k)"]) auto
    qed
    ultimately show ?thesis using False less.prems(1) by (intro exI [of _ rmd] exI [of _ ps]) simp
  next
    case True
    define k where "k = i mod 7"
    have k: "k < 7" by (simp add: k_def)
    have ki: "nat (int i mod 7) = k" by (simp add: k_def nat_mod_as_int)
    note ll = less.prems(2) [OF k]
    define fits where "fits \<longleftrightarrow> portion k \<le> rmd"
    define rmd1 where "rmd1 = (if fits then rmd - portion k else rmd)"
    define p1 where "p1 = (ps ! k)\<lparr>po_size := po_size (ps ! k) + to_u32 (po_ll (ps ! k))\<rparr>"
    define ps1 where "ps1 = (if fits then ps[k := p1] else ps)"
    have szk: "unat (po_size (ps ! k)) \<le> sizes ps" using size_le_sizes k less.prems(1) by simp
    have p1: "unat (po_size p1) = unat (po_size (ps ! k)) + portion k" if fits
    proof -
      have "unat (po_size (ps ! k)) + portion k < 4294967296"
        using szk less.prems(3) that by (simp add: fits_def)
      moreover have "unat (of_nat (portion k) :: u32) = portion k"
        using portion_bounds [OF k] by (intro unat_of_nat_lt) simp
      ultimately show ?thesis unfolding p1_def ll by (simp add: to_u32_def unat_word_ariths)
    qed
    have sz1: "sizes ps1 + rmd1 = sizes ps + rmd"
      using sizes_update [of k ps p1 "portion k"] p1 k less.prems(1) by (auto simp: ps1_def rmd1_def fits_def)
    have step: "rounds (Suc i) rmd1 < rounds i rmd"
    proof (rule rounds_step [OF True])
      show "rmd1 \<le> rmd" by (simp add: rmd1_def)
      assume "i mod 7 = 0"
      then show "rmd1 + 2560 \<le> rmd" using True by (simp add: rmd1_def fits_def k_def portion_def)
    qed
    have len: "length ps1 = 7" and ll1: "\<And>j. j < 7 \<Longrightarrow> po_ll (ps1 ! j) = int (portion j)"
      using less.prems(1,2) k by (auto simp: ps1_def p1_def nth_list_update)
    have "calc_loop 7 ps (int rmd) (int i) = calc_loop 7 ps1 (int rmd1) (int (Suc i))"
    proof -
      have lp: "po_ll (ps ! 0) \<le> int rmd" using True less.prems(2) [of 0] by (simp add: portion_def)
      have nxt: "s32_ok (int i + 1) = Some (int (Suc i))" using less.prems(4) by (simp add: s32_ok_def)
      have br: "(if int rmd - po_ll (ps ! k) \<ge> 0 then (ps[k := p1], int rmd - po_ll (ps ! k)) else (ps, int rmd)) = (ps1, int rmd1)"
        by (auto simp: ll ps1_def rmd1_def fits_def)
      show ?thesis
        by (subst calc_loop.simps) (simp only: lp if_True ki br [unfolded p1_def] Let_def prod.case nxt bind.bind_lunit zero_neq_numeral if_False, simp)
    qed
    moreover from less.hyps [OF step len ll1] sz1 less.prems(3,4) step obtain rmd' ps' where
      r: "calc_loop 7 ps1 (int rmd1) (int (Suc i)) = Some (int rmd', ps')" "rmd' < 2560" "length ps' = 7"
        "sizes ps' + rmd' = sizes ps1 + rmd1"
        "\<forall>j<7. \<exists>c z. ps' ! j = (ps1 ! j)\<lparr>po_size := z\<rparr> \<and> unat z = unat (po_size (ps1 ! j)) + c * portion j
          \<and> (Suc i \<le> j \<and> sum portion {Suc i..j} \<le> rmd1 \<longrightarrow> 0 < c)"
      by auto
    moreover have "\<exists>c z. ps' ! j = (ps ! j)\<lparr>po_size := z\<rparr> \<and> unat z = unat (po_size (ps ! j)) + c * portion j
        \<and> (i \<le> j \<and> sum portion {i..j} \<le> rmd \<longrightarrow> 0 < c)"
      if j: "j < 7" for j
    proof -
      obtain c z where z: "ps' ! j = (ps1 ! j)\<lparr>po_size := z\<rparr>" "unat z = unat (po_size (ps1 ! j)) + c * portion j"
        "Suc i \<le> j \<and> sum portion {Suc i..j} \<le> rmd1 \<longrightarrow> 0 < c"
        using r(5) j by blast
      have grant: "fits \<and> k = i \<and> (i \<noteq> j \<longrightarrow> Suc i \<le> j \<and> sum portion {Suc i..j} \<le> rmd1)"
        if le: "i \<le> j" "sum portion {i..j} \<le> rmd"
      proof -
        have "sum portion {i..j} = portion i + sum portion {Suc i..j}" using le(1) by (rule sum.atLeast_Suc_atMost)
        then show ?thesis using le j by (auto simp: fits_def k_def rmd1_def)
      qed
      show ?thesis
      proof (cases "fits \<and> j = k")
        case True
        then have "ps1 ! j = p1" using less.prems(1) k by (simp add: ps1_def)
        then have "ps' ! j = (ps ! j)\<lparr>po_size := z\<rparr>" "unat z = unat (po_size (ps ! j)) + (Suc c) * portion j"
          using z p1 True by (simp_all add: p1_def)
        then show ?thesis by (intro exI [of _ "Suc c"] exI [of _ z]) simp
      next
        case False
        then have "ps1 ! j = ps ! j" by (auto simp: ps1_def)
        moreover have "i \<le> j \<and> sum portion {i..j} \<le> rmd \<longrightarrow> 0 < c" using grant z(3) False by blast
        ultimately show ?thesis using z by (intro exI [of _ c] exI [of _ z]) simp
      qed
    qed
    ultimately show ?thesis using sz1 by auto
  qed
qed

subsection \<open>Laying the pools out\<close>

lemma pool_layout_spec:
  assumes "unat a + sizes ps < 4294967296" "\<And>p. p \<in> set ps \<Longrightarrow> unat (po_size p) < 2147483648 \<and> po_chunk p + 4 \<noteq> 0"
  shows "\<exists>m' ps'. pool_layout m ps a = Some (m', ps') \<and> length ps' = length ps
    \<and> (\<forall>k<length ps. \<exists>f. ps' ! k = (ps ! k)\<lparr>po_base := a + of_nat (sizes (take k ps)), po_head := a + of_nat (sizes (take k ps)), po_frees := f\<rparr>)
    \<and> (\<forall>x. m' x = (if inside a (sizes ps) x then 0 else m x))"
  using assms
proof (induction ps arbitrary: m a)
  case Nil
  then show ?case by (simp add: sizes_def)
next
  case (Cons p ps)
  let ?n = "unat (po_size p)"
  have n: "?n < 2147483648" "po_chunk p + 4 \<noteq> 0" using Cons.prems(2) by auto
  have sum: "unat a + ?n + sizes ps < 4294967296" using Cons.prems(1) by (simp add: sizes_def)
  then have ua: "unat (a + po_size p) = unat a + ?n" by (simp add: unat_word_ariths)
  define m1 where "m1 = snd (memset m a 0 (to_s32 (po_size p)))"
  have s: "to_s32 (po_size p) = int ?n" using n(1) by (rule to_s32_small)
  have m1: "m1 x = (if inside a ?n x then 0 else m x)" for x
  proof (cases "?n = 0")
    case True
    then show ?thesis by (simp add: m1_def s memset_def)
  next
    case False
    then have "1 \<le> int ?n" "int ?n \<le> INT_MAX" using n(1) by linarith+
    from memset_eq [OF this, of m a 0] show ?thesis unfolding m1_def s by (simp add: fill_def del: int_nat_eq uint_nat)
  qed
  have "unat (a + po_size p) + sizes ps < 4294967296" using ua sum by simp
  from Cons.IH [OF this, of m1] Cons.prems(2) obtain m' ps' where
    r: "pool_layout m1 ps (a + po_size p) = Some (m', ps')" "length ps' = length ps"
      "\<forall>k<length ps. \<exists>f. ps' ! k = (ps ! k)\<lparr>po_base := a + po_size p + of_nat (sizes (take k ps)),
         po_head := a + po_size p + of_nat (sizes (take k ps)), po_frees := f\<rparr>"
      "\<forall>x. m' x = (if inside (a + po_size p) (sizes ps) x then 0 else m1 x)"
    by auto
  define p' where "p' = p\<lparr>po_base := a, po_head := a, po_frees := po_size p div (po_chunk p + 4)\<rparr>"
  have "pool_layout m (p # ps) a = Some (m', p' # ps')"
    using n(2) r(1) by (simp add: p'_def m1_def Let_def add.commute)
  moreover have "\<exists>f. (p' # ps') ! k = ((p # ps) ! k)\<lparr>po_base := a + of_nat (sizes (take k (p # ps))),
      po_head := a + of_nat (sizes (take k (p # ps))), po_frees := f\<rparr>" if "k < length (p # ps)" for k
  proof (cases k)
    case 0
    then show ?thesis by (auto simp: p'_def sizes_def)
  next
    case (Suc j)
    then show ?thesis using r(3) that by (auto simp: sizes_def add.assoc)
  qed
  moreover have "m' x = (if inside a (sizes (p # ps)) x then 0 else m x)" for x
  proof -
    have "inside a (sizes (p # ps)) x \<longleftrightarrow> inside a ?n x \<or> inside (a + po_size p) (sizes ps) x"
      using sum ua by (auto simp: inside_def sizes_def unat_sub_if' word_le_nat_alt)
    then show ?thesis using r(4) m1 by auto
  qed
  ultimately show ?case using r(2) by (intro exI [of _ m'] exI [of _ "p' # ps'"]) auto
qed

lemma pool_count_7: "pool_count mm_get_sec_llc mm_get_sec_ulc = Some 7"
proof -
  have "c_log 2 1024 = Some 10"
  proof -
    obtain k where k: "c_log 2 1024 = Some (int k)" "(2 :: nat) ^ k \<le> 1024" "(1024 :: nat) < 2 ^ Suc k"
      using c_log_correct [of 2 1024] by auto
    have "(2 :: nat) ^ k \<le> 2 ^ 10" "(2 :: nat) ^ 10 < 2 ^ Suc k" using k by simp_all
    then have "k \<le> 10" "10 < Suc k" by (simp_all only: power_increasing_iff power_strict_increasing_iff one_less_numeral_iff num.simps semiring_norm)
    then show ?thesis using k(1) by simp
  qed
  moreover have "c_log 2 16 = Some 4"
  proof -
    obtain k where k: "c_log 2 16 = Some (int k)" "(2 :: nat) ^ k \<le> 16" "(16 :: nat) < 2 ^ Suc k"
      using c_log_correct [of 2 16] by auto
    have "(2 :: nat) ^ k \<le> 2 ^ 4" "(2 :: nat) ^ 4 < 2 ^ Suc k" using k by simp_all
    then have "k \<le> 4" "4 < Suc k" by (simp_all only: power_increasing_iff power_strict_increasing_iff one_less_numeral_iff num.simps semiring_norm)
    then show ?thesis using k(1) by simp
  qed
  ultimately show ?thesis by (simp add: pool_count_def mm_get_sec_llc_def mm_get_sec_ulc_def to_u32_def)
qed

text \<open>The size the pools ask for: 128 slots in each.\<close>

lemma seven: "(7 :: nat) = Suc (Suc (Suc (Suc (Suc (Suc (Suc 0))))))"
  by simp

lemma init_size_eq: "pl_get_init_size = Some 263848"
proof -
  have "init_size_loop 7 16 168 = Some 263848"
    unfolding seven by (simp add: s32_ok_def to_u32_def)
  then show ?thesis
    using pool_count_7 by (simp add: pl_get_init_size_def mm_get_sec_llc_def mm_get_sec_ulc_def to_u32_def)
qed

lemma pool_chunks_eq:
  "\<exists>ps. pool_chunks 7 16 = Some ps \<and> length ps = 7 \<and> sizes ps = 0
    \<and> (\<forall>i<7. po_size (ps ! i) = 0 \<and> unat (po_chunk (ps ! i)) = 16 * 2 ^ i \<and> po_ll (ps ! i) = int (portion i))"
  unfolding seven by (simp add: s32_ok_def to_u32_def to_s32_def sizes_def portion_def All_less_Suc)

subsection \<open>The initialised pools\<close>

text \<open>The pools lie one behind the other, from behind the array of pools on.\<close>

definition pools_adjacent :: "'a pool_state_scheme \<Rightarrow> addr \<Rightarrow> bool" where
  "pools_adjacent s a \<longleftrightarrow> (\<forall>k<7. po_base (pools s ! k) = a + of_nat (sizes (take k (pools s))))"

lemma sizes_take: "k < length ps \<Longrightarrow> sizes (take (Suc k) ps) = sizes (take k ps) + unat (po_size (ps ! k))"
  by (simp add: sizes_def take_Suc_conv_app_nth)

lemma sizes_take_mono: "j \<le> k \<Longrightarrow> sizes (take j ps) \<le> sizes (take k ps)"
proof -
  assume "j \<le> k"
  then have "take k ps = take j ps @ take (k - j) (drop j ps)"
    by (metis add_diff_inverse_nat not_less take_add)
  then show ?thesis by (simp add: sizes_def)
qed

lemma sizes_take_le: "sizes (take k ps) \<le> sizes ps"
  using sizes_take_mono [of k "max k (length ps)" ps] by simp

text \<open>What the loop that lays the pools out makes of sizes that are multiples of the portions.\<close>

lemma layout_pools:
  fixes s :: "'a pool_state_scheme"
  assumes fits: "0 < unat a" "unat a + sizes ps < 4294967296" and len: "length ps = 7" "length qs = 7"
    and ps: "\<And>k. k < 7 \<Longrightarrow> unat (po_chunk (ps ! k)) = 16 * 2 ^ k
      \<and> (\<exists>c. unat (po_size (ps ! k)) = c * portion k \<and> (big \<longrightarrow> 0 < c))"
    and qs: "\<And>k. k < 7 \<Longrightarrow> \<exists>f. qs ! k = (ps ! k)\<lparr>po_base := a + of_nat (sizes (take k ps)),
         po_head := a + of_nat (sizes (take k ps)), po_frees := f\<rparr>"
    and m: "\<And>x. inside a (sizes ps) x \<Longrightarrow> km s x = 0"
    and s: "pools s = qs" "pm_num (pmm s) = 7" "pm_llc (pmm s) = 16" "pm_ulc (pmm s) = 1024"
  shows "pool_rep s (\<lambda>_. []) (\<lambda>_. 0)" "pools_adjacent s a" "sizes qs = sizes ps" "big \<longrightarrow> (\<forall>i<7. 128 \<le> nslots (qs ! i))"
proof -
  have p2: "po_size (qs ! k) = po_size (ps ! k)" "unat (po_chunk (qs ! k)) = 16 * 2 ^ k"
    "po_base (qs ! k) = a + of_nat (sizes (take k ps))" "po_head (qs ! k) = po_base (qs ! k)" if "k < 7" for k
    using qs [OF that] ps [OF that] by auto
  have "map po_size qs = map po_size ps" using len p2(1) by (auto intro!: nth_equalityI)
  then have mp: "map (\<lambda>p. unat (po_size p)) qs = map (\<lambda>p. unat (po_size p)) ps"
    by (metis (mono_tags, lifting) map_eq_conv map_map comp_apply)
  have sz2: "sizes (take k qs) = sizes (take k ps)" "sizes qs = sizes ps" for k
    unfolding sizes_def take_map [symmetric] mp by simp_all
  then show "pools_adjacent s a" "sizes qs = sizes ps" using p2(3) by (simp_all add: pools_adjacent_def s)
  have ub: "unat (po_base (qs ! k)) = unat a + sizes (take k ps)" if "k < 7" for k
  proof -
    have "sizes (take k ps) < 4294967296" using sizes_take_le [of k ps] fits by linarith
    then have "unat (of_nat (sizes (take k ps)) :: u32) = sizes (take k ps)" by (rule unat_of_nat_lt)
    then show ?thesis using sizes_take_le [of k ps] fits unfolding p2(3) [OF that]
      by (subst unat_word_ariths) simp
  qed
  have w: "slot_w (qs ! k) = 16 * 2 ^ k + 4" "unat (po_size (qs ! k)) = nslots (qs ! k) * slot_w (qs ! k)"
      "big \<longrightarrow> 128 \<le> nslots (qs ! k)" if k: "k < 7" for k
  proof -
    show sw: "slot_w (qs ! k) = 16 * 2 ^ k + 4" using p2(2) k by (simp add: slot_w_def)
    obtain c where "unat (po_size (ps ! k)) = c * portion k" "big \<longrightarrow> 0 < c" using ps [OF k] by blast
    then have c: "unat (po_size (qs ! k)) = (128 * c) * slot_w (qs ! k)" "big \<longrightarrow> 0 < c"
      using p2(1) [OF k] sw by (simp_all add: portion_def)
    then have "nslots (qs ! k) = 128 * c" unfolding nslots_def using sw by simp
    then show "big \<longrightarrow> 128 \<le> nslots (qs ! k)" using c(2) by auto
    from c show "unat (po_size (qs ! k)) = nslots (qs ! k) * slot_w (qs ! k)"
      unfolding nslots_def using sw by simp
  qed
  then show "big \<longrightarrow> (\<forall>i<7. 128 \<le> nslots (qs ! i))" by blast
  have part: "sizes (take k ps) + unat (po_size (qs ! k)) = sizes (take (Suc k) ps)" if "k < 7" for k
    using sizes_take [of k ps] that len p2(1) by simp
  have apart_pools: "unat (po_base (qs ! i)) + unat (po_size (qs ! i)) \<le> unat (po_base (qs ! k))" if "i < k" "k < 7" for i k
    using sizes_take_mono [of "Suc i" k ps] ub part that by simp
  have "unat (po_base (qs ! k)) + unat (po_size (qs ! k)) < 4294967296" if "k < 7" for k
    using ub [OF that] part [OF that] sizes_take_le [of "Suc k" ps] fits by simp
  then have wf: "pools_wf s" using p2(2) w(2) ub fits(1) apart_pools len(2) by (simp add: pools_wf_def s)
  have "pool_ok (km s) (qs ! i) [] 0" if i: "i < 7" for i
  proof -
    have "ld32 (km s) (slot_addr (qs ! i) k) = 0" if k: "k < nslots (qs ! i)" for k
    proof -
      let ?w = "slot_w (qs ! i)"
      have "Suc k * ?w \<le> nslots (qs ! i) * ?w" using k by (intro mult_le_mono1) simp
      then have "sizes (take i ps) + k * ?w + 4 \<le> sizes ps"
        using w [OF i] part [OF i] sizes_take_le [of "Suc i" ps] by simp
      moreover have "slot_addr (qs ! i) k = a + of_nat (sizes (take i ps) + k * ?w)"
        by (simp add: slot_addr_def p2(3) [OF i])
      ultimately have "inside a (sizes ps) x" if "inside (slot_addr (qs ! i) k) 4 x" for x
        using inside_sub [OF that, of a "sizes (take i ps) + k * ?w" "sizes ps"] fits by simp
      then have "ld32 (km s) (slot_addr (qs ! i) k) = ld32 (\<lambda>_. 0) (slot_addr (qs ! i) k)"
        by (intro ld32_cong) (simp add: m)
      then show ?thesis by (simp add: ld32_def)
    qed
    then show ?thesis using p2(4) [OF i] by (simp add: pool_ok_def slot_addr_def)
  qed
  then show "pool_rep s (\<lambda>_. []) (\<lambda>_. 0)" using wf by (simp add: pool_rep_def s)
qed

text \<open>The sizes the pools get of the memory behind the array of pools.\<close>

lemma pool_sizes:
  assumes D: "0 < D" "D < 2147483648"
  obtains ps rmd ps1 where "pool_chunks 7 16 = Some ps" "length ps = 7"
    "calc_loop 7 ps (int D) 0 = Some (int rmd, ps1)" "rmd < 2560" "length ps1 = 7" "sizes ps1 + rmd = D"
    "\<forall>k<7. unat (po_chunk (ps1 ! k)) = 16 * 2 ^ k \<and> (\<exists>c. unat (po_size (ps1 ! k)) = c * portion k \<and> (263680 \<le> D \<longrightarrow> 0 < c))"
proof -
  obtain ps where ps: "pool_chunks 7 16 = Some ps" "length ps = 7" "sizes ps = 0"
    "\<And>i. i < 7 \<Longrightarrow> po_size (ps ! i) = 0 \<and> unat (po_chunk (ps ! i)) = 16 * 2 ^ i \<and> po_ll (ps ! i) = int (portion i)"
    using pool_chunks_eq by blast
  have "0 + rounds 0 D < 2147483647" using D(2) by (simp add: rounds_def)
  moreover have "sizes ps + D < 2147483648" using D(2) ps(3) by simp
  ultimately obtain rmd ps1 where c: "calc_loop 7 ps (int D) (int 0) = Some (int rmd, ps1)" "rmd < 2560" "length ps1 = 7"
      "sizes ps1 + rmd = sizes ps + D"
    and c2: "\<forall>k<7. \<exists>c z. ps1 ! k = (ps ! k)\<lparr>po_size := z\<rparr> \<and> unat z = unat (po_size (ps ! k)) + c * portion k
       \<and> (sum portion {0..k} \<le> D \<longrightarrow> 0 < c)"
    using calc_loop_spec [of ps D 0] ps(2,4) by auto
  have part0: "sum portion {0..k} \<le> 263680" if "k < 7" for k
  proof -
    have "sum portion {0..k} \<le> sum portion {0..6}" using that by (intro sum_mono2) auto
    also have "{0..6} = {0, 1, 2, 3, 4, 5, 6 :: nat}" by auto
    finally show ?thesis by (simp add: portion_def)
  qed
  have "unat (po_chunk (ps1 ! k)) = 16 * 2 ^ k
      \<and> (\<exists>c. unat (po_size (ps1 ! k)) = c * portion k \<and> (263680 \<le> D \<longrightarrow> 0 < c))" if "k < 7" for k
    using c2 [rule_format, OF that] ps(4) [OF that] part0 [OF that] by auto
  then show ?thesis using that [of ps rmd ps1] ps c by simp
qed

lemma pl_init_eq:
  assumes base: "base \<noteq> NULL" "unat base + H < 4294967296" and H: "168 < H" "H < 2147483648"
  shows "\<exists>rmd s'. pl_init s base (int H) = Some (int rmd, s') \<and> rmd < 2560 \<and> sizes (pools s') + rmd + 168 = H
    \<and> pool_rep s' (\<lambda>_. []) (\<lambda>_. 0) \<and> pools_adjacent s' (base + 168)
    \<and> sec (mmm s') = (sec (mmm s))\<lparr>mm_base := base, mm_size := int H\<rparr> \<and> org_size (mmm s') = org_size (mmm s) \<and> bm s' = bm s \<and> bud s' = bud s \<and> lazy s' = lazy s
    \<and> (\<forall>x. \<not> inside base H x \<longrightarrow> km s' x = km s x) \<and> (263848 \<le> H \<longrightarrow> (\<forall>i<7. 128 \<le> nslots (pools s' ! i)))
    \<and> pool_state.more s' = pool_state.more s"
proof -
  define s1 where "s1 = snd (mm_set_sec_size (snd (mm_set_sec_base (s\<lparr>pmm := (pmm s)\<lparr>pm_base := base, pm_size := int H,
    pm_llc := mm_get_sec_llc, pm_ulc := mm_get_sec_ulc, pm_num := 7\<rparr>\<rparr>) 0 base)) 0 (to_int (int H)))"
  have HI: "to_int (int H) = int H" using H by (simp add: to_int_def to_u32_def)
  have s1: "pmm s1 = (pmm s)\<lparr>pm_base := base, pm_size := int H, pm_llc := 16, pm_ulc := 1024, pm_num := 7\<rparr>"
    "mmm s1 = (mmm s)\<lparr>sec := (sec (mmm s))\<lparr>mm_base := base, mm_size := int H\<rparr>\<rparr>"
    "km s1 = km s" "bm s1 = bm s" "bud s1 = bud s" "lazy s1 = lazy s" "pool_state.more s1 = pool_state.more s"
    using base(1) H unfolding s1_def HI
    by (simp_all add: mm_set_sec_size_def mm_set_sec_base_def mm_get_sec_llc_def mm_get_sec_ulc_def)
  define D where "D = H - 168"
  have D: "0 < D" "D < 2147483648" using H by (simp_all add: D_def)
  have ds: "pl_get_data_size s1 (int H) = int D"
  proof -
    have "int H - int (unat (POOL_SIZE * to_u32 7)) = int D" using H by (simp add: D_def to_u32_def)
    then have "pl_get_data_size s1 (int H) = to_int (int D)" using H by (simp add: pl_get_data_size_def s1)
    then show ?thesis using D by (simp add: to_int_def to_u32_def)
  qed
  obtain ps rmd ps1 where ps: "pool_chunks 7 16 = Some ps" "length ps = 7"
    and c: "calc_loop 7 ps (int D) 0 = Some (int rmd, ps1)" "rmd < 2560" "length ps1 = 7" "sizes ps1 + rmd = D"
    and ps1: "\<forall>k<7. unat (po_chunk (ps1 ! k)) = 16 * 2 ^ k \<and> (\<exists>c. unat (po_size (ps1 ! k)) = c * portion k \<and> (263680 \<le> D \<longrightarrow> 0 < c))"
    by (rule pool_sizes [OF D])
  define s2 where "s2 = s1\<lparr>pmm := (pmm s1)\<lparr>pm_data_size := int D\<rparr>, pools := ps\<rparr>"
  have "pool_calc_size s2 (int D) = Some (to_int (int rmd), s2\<lparr>pools := ps1\<rparr>)"
    using D c(1) by (simp add: pool_calc_size_def s2_def s1)
  moreover have "to_int (int rmd) = int rmd" using c(2) by (simp add: to_int_def to_u32_def)
  ultimately have calc: "pool_calc_size s2 (int D) = Some (int rmd, s2\<lparr>pools := ps1\<rparr>)" by simp
  have a: "unat (base + 168) = unat base + 168" using base(2) H by (simp add: unat_word_ariths)
  have fits: "unat (base + 168) + sizes ps1 < 4294967296" using a base(2) c(4) H unfolding D_def by linarith
  have sane: "unat (po_size p) < 2147483648 \<and> po_chunk p + 4 \<noteq> 0" if mem: "p \<in> set ps1" for p
  proof -
    obtain k where k: "k < 7" "p = ps1 ! k" using mem c(3) by (auto simp: in_set_conv_nth)
    have "unat (po_size p) < 2147483648" using size_le_sizes [of k ps1] k c(3,4) D by simp
    moreover have "(2::nat) ^ k \<le> 2 ^ 7" using k by (intro power_increasing) auto
    then have "unat (po_chunk p + 4) = 16 * 2 ^ k + 4" using ps1 k by (simp add: unat_word_ariths)
    then have "po_chunk p + 4 \<noteq> 0" by (metis add_is_0 unat_0 zero_neq_numeral)
    ultimately show ?thesis ..
  qed
  obtain m ps2 where lay: "pool_layout (km s) ps1 (base + 168) = Some (m, ps2)" "length ps2 = 7"
      "\<And>k. k < 7 \<Longrightarrow> \<exists>f. ps2 ! k = (ps1 ! k)\<lparr>po_base := base + 168 + of_nat (sizes (take k ps1)),
         po_head := base + 168 + of_nat (sizes (take k ps1)), po_frees := f\<rparr>"
      "\<And>x. m x = (if inside (base + 168) (sizes ps1) x then 0 else km s x)"
    using pool_layout_spec [OF fits sane, of "km s"] c(3) by auto
  define s' where "s' = s2\<lparr>km := m, pools := ps2\<rparr>"
  have init: "pl_init s base (int H) = Some (int rmd, s')"
  proof -
    have "POOL_SIZE * to_u32 7 = (168 :: u32)" by (simp add: to_u32_def)
    then show ?thesis
      using base(1) H ds ps(1) calc lay(1) pool_count_7
      by (simp add: pl_init_def Let_def s1_def [symmetric] s1(1,3) s2_def s'_def prod.case_eq_if add.commute)
  qed
  have z: "km s' x = 0" if "inside (base + 168) (sizes ps1) x" for x using that by (simp add: s'_def lay(4))
  have f: "pools s' = ps2" "pm_num (pmm s') = 7" "pm_llc (pmm s') = 16" "pm_ulc (pmm s') = 1024"
    by (simp_all add: s'_def s2_def s1)
  have a0: "0 < unat (base + 168)" using a by simp
  note L = layout_pools [OF a0 fits c(3) lay(2) ps1 [rule_format] lay(3) z f]
  have frame: "\<forall>x. \<not> inside base H x \<longrightarrow> km s' x = km s x"
  proof (intro allI impI)
    fix x assume out: "\<not> inside base H x"
    have le: "168 + sizes ps1 \<le> H" "H \<le> 2 ^ 32" using c(4) H by (simp_all add: D_def)
    have "base + 168 = base + of_nat 168" by simp
    then have "\<not> inside (base + 168) (sizes ps1) x" using out inside_sub [OF _ _ le] by blast
    then show "km s' x = km s x" by (simp add: s'_def lay(4))
  qed
  have total: "sizes (pools s') + rmd + 168 = H" using L(3) c(4) H by (simp add: f(1) D_def)
  have same: "sec (mmm s') = (sec (mmm s))\<lparr>mm_base := base, mm_size := int H\<rparr>" "org_size (mmm s') = org_size (mmm s)"
    "bm s' = bm s" "bud s' = bud s" "lazy s' = lazy s" "pool_state.more s' = pool_state.more s"
    using s1 by (simp_all add: s'_def s2_def)
  have room: "263848 \<le> H \<longrightarrow> (\<forall>i<7. 128 \<le> nslots (pools s' ! i))" using L(4) H by (simp add: f(1) D_def)
  show ?thesis by (rule exI [of _ rmd], rule exI [of _ s']) (intro conjI init c(2) total L(1,2) same frame room)
qed

end
