(* ===== verification/Pool_Alloc.thy ===== *)
theory Pool_Alloc
  imports Pool_Init
begin

text \<open>The pools provide the interface of an allocator, except that a pool with no slot left is not noticed.\<close>

definition pool_regions :: "'a pool_state_scheme \<Rightarrow> region set \<Rightarrow> bool" where
  "pool_regions s R \<longleftrightarrow> (\<exists>F T. pool_rep s F T \<and> R = cell_region s ` used_cells F T)"

definition pool_fits :: "'a pool_state_scheme \<Rightarrow> region set \<Rightarrow> nat \<Rightarrow> bool" where
  "pool_fits s R z \<longleftrightarrow> 0 < z \<and> (\<exists>i k. slot_ord z = Some i \<and> (i, k) \<in> cells s \<and> cell_region s (i, k) \<notin> R)"

definition pool_poke :: "'a pool_state_scheme \<Rightarrow> addr \<Rightarrow> u8 \<Rightarrow> 'a pool_state_scheme" where
  "pool_poke s x v = s\<lparr>km := st8 (km s) x v\<rparr>"

lemma used_cells_sub: "pool_rep s F T \<Longrightarrow> used_cells F T \<subseteq> cells s"
  by (fastforce simp: pool_rep_def pool_ok_def used_cells_def cells_def)

lemma cell_region_apart:
  assumes "pools_wf s" "a \<in> cells s" "b \<in> cells s" "a \<noteq> b"
  shows "apart (fst (cell_region s a)) (snd (cell_region s a)) (fst (cell_region s b)) (snd (cell_region s b))"
  using cell_parts(3) [OF assms] by (simp add: cell_region_def)

lemma cell_region_inj: "pools_wf s \<Longrightarrow> inj_on (cell_region s) (cells s)"
proof (rule inj_onI, rule ccontr)
  fix a b assume wf: "pools_wf s" and ab: "a \<in> cells s" "b \<in> cells s" "cell_region s a = cell_region s b" "a \<noteq> b"
  have "0 < snd (cell_region s b)" by (simp add: cell_region_def)
  then show False using cell_region_apart [OF wf ab(1,2,4)] unfolding ab(3) by simp
qed

text \<open>Writes that miss every header keep the pools as they are.\<close>

lemma pool_rep_write:
  fixes s s' :: "'a pool_state_scheme"
  assumes rep: "pool_rep s F T" and eq: "pools s' = pools s" "pmm s' = pmm s"
    and same: "\<And>a x. a \<in> cells s \<Longrightarrow> inside (cell s a) 4 x \<Longrightarrow> km s' x = km s x"
  shows "pool_rep s' F T"
proof -
  have "pool_ok (km s') (pools s ! i) (F i) (T i)" if i: "i < 7" for i
  proof (rule pool_ok_cong)
    show "pool_ok (km s) (pools s ! i) (F i) (T i)" using rep i by (simp add: pool_rep_def)
    fix k assume "k < nslots (pools s ! i)"
    then have "(i, k) \<in> cells s" using i by (simp add: cells_def)
    from same [OF this] show "ld32 (km s') (slot_addr (pools s ! i) k) = ld32 (km s) (slot_addr (pools s ! i) k)"
      by (intro ld32_cong) simp
  qed
  moreover have "pools_wf s' = pools_wf s" unfolding pools_wf_def eq ..
  ultimately show ?thesis using rep by (simp add: pool_rep_def eq)
qed

lemma pool_rep_data:
  fixes s s' :: "'a pool_state_scheme"
  assumes rep: "pool_rep s F T" and a: "a \<in> cells s" and eq: "pools s' = pools s" "pmm s' = pmm s"
    and same: "\<And>x. \<not> inside (cell s a + 4) (16 * 2 ^ fst a) x \<Longrightarrow> km s' x = km s x"
  shows "pool_rep s' F T"
proof (rule pool_rep_write [OF rep eq])
  fix b x assume b: "b \<in> cells s" "inside (cell s b) 4 x"
  have "pools_wf s" using rep by (simp add: pool_rep_def)
  then have "apart (cell s b) 4 (cell s a + 4) (16 * 2 ^ fst a)"
    using cell_parts(2) [OF _ a b(1)] by (simp add: apart_sym)
  then show "km s' x = km s x" using same b(2) apart_inside by blast
qed

lemma pool_alloc_region:
  assumes rep: "pool_rep s F T" and fits: "pool_fits s (cell_region s ` used_cells F T) z"
  shows "\<exists>i k s' F' T'. slot_ord z = Some i \<and> pl_alloc s (int z) = Some (cell s (i, k) + 4, s')
    \<and> pool_rep s' F' T' \<and> (i, k) \<in> cells s
    \<and> used_cells F' T' = insert (i, k) (used_cells F T) \<and> (i, k) \<notin> used_cells F T
    \<and> km s' = km s \<and> cell_region s' = cell_region s \<and> (\<exists>ps. s' = s\<lparr>pools := ps\<rparr>) \<and> cells s' = cells s \<and> cell s' = cell s"
proof -
  obtain i k where ik: "0 < z" "slot_ord z = Some i" "(i, k) \<in> cells s"
    "cell_region s (i, k) \<notin> cell_region s ` used_cells F T"
    using fits unfolding pool_fits_def by blast
  have "(i, k) \<notin> used_cells F T" using ik(4) by blast
  then have "k \<in> set (F i) \<or> T i \<le> k" "k < nslots (pools s ! i)" "i < 7"
    using ik(3) by (auto simp: used_cells_def cells_def)
  moreover have "set (F i) \<subseteq> {..<T i}" using rep \<open>i < 7\<close> by (simp add: pool_rep_def pool_ok_def)
  ultimately have "F i \<noteq> [] \<or> T i < nslots (pools s ! i)" by force
  from pl_alloc_eq [OF rep ik(1,2) this] show ?thesis using ik(2) by blast
qed

interpretation pool: heap_alloc pool_regions pool_fits "\<lambda>s z. pl_alloc s (int z)" "\<lambda>s a. Some (pl_free s a)" pool_poke
proof unfold_locales
  fix s :: "'a pool_state_scheme" and R r q
  assume "pool_regions s R" "r \<in> R" "q \<in> R" "r \<noteq> q"
  then obtain F T a b where r: "pool_rep s F T" "a \<in> used_cells F T" "b \<in> used_cells F T" "r = cell_region s a" "q = cell_region s b" "a \<noteq> b"
    unfolding pool_regions_def by blast
  then have "pools_wf s" "a \<in> cells s" "b \<in> cells s" using used_cells_sub [OF r(1)] by (auto simp: pool_rep_def)
  then show "apart (fst r) (snd r) (fst q) (snd q)" unfolding r(4,5) using r(6) by (rule cell_region_apart)
next
  fix s :: "'a pool_state_scheme" and R z
  assume "pool_regions s R" and fits: "pool_fits s R z"
  then obtain F T where r: "pool_rep s F T" "R = cell_region s ` used_cells F T" by (auto simp: pool_regions_def)
  from pool_alloc_region [OF r(1) fits [unfolded r(2)]] obtain i k s' F' T' where
    s': "slot_ord z = Some i" "pl_alloc s (int z) = Some (cell s (i, k) + 4, s')" "pool_rep s' F' T'" "(i, k) \<in> cells s"
      "used_cells F' T' = insert (i, k) (used_cells F T)" "(i, k) \<notin> used_cells F T" "cell_region s' = cell_region s"
    by blast
  have "pools_wf s" using r(1) by (simp add: pool_rep_def)
  then have "cell_region s (i, k) \<notin> R"
    unfolding r(2) using inj_onD [OF cell_region_inj] s'(4,6) used_cells_sub [OF r(1)] by blast
  moreover have "pool_regions s' (insert (cell_region s (i, k)) R)"
    unfolding pool_regions_def using s'(3,5,7) r(2) by (metis image_insert)
  moreover have "z \<le> 16 * 2 ^ i" using slot_ord_Some [OF s'(1)] by simp
  ultimately show "\<exists>a n s'. pl_alloc s (int z) = Some (a, s') \<and> z \<le> n \<and> (a, n) \<notin> R \<and> pool_regions s' (insert (a, n) R)"
    using s'(2) unfolding cell_region_def by (metis fst_conv snd_conv)
next
  fix s :: "'a pool_state_scheme" and R a n
  assume "pool_regions s R" "(a, n) \<in> R"
  then obtain F T i k where r: "pool_rep s F T" "R = cell_region s ` used_cells F T"
    and ik: "(i, k) \<in> used_cells F T" "(a, n) = cell_region s (i, k)"
    unfolding pool_regions_def by auto
  have wf: "pools_wf s" using r(1) by (simp add: pool_rep_def)
  note free = pl_free_eq [OF r(1) ik(1)]
  have a: "a = cell s (i, k) + 4" using ik(2) by (simp add: cell_region_def)
  have "used_cells (F(i := k # F i)) T = used_cells F T - {(i, k)}"
    by (auto simp: used_cells_def split: if_splits)
  moreover have "cell_region s ` (used_cells F T - {(i, k)}) = R - {(a, n)}"
  proof -
    have "used_cells F T \<subseteq> cells s" by (rule used_cells_sub [OF r(1)])
    then have "cell_region s ` (used_cells F T - {(i, k)}) = cell_region s ` used_cells F T - cell_region s ` {(i, k)}"
      using ik(1) by (intro inj_on_image_set_diff [OF cell_region_inj [OF wf]]) auto
    then show ?thesis by (simp add: r(2) ik(2))
  qed
  ultimately have "R - {(a, n)} = cell_region (pl_free s a) ` used_cells (F(i := k # F i)) T"
    using free by (simp add: a)
  then have "pool_regions (pl_free s a) (R - {(a, n)})"
    unfolding pool_regions_def using free a by blast
  then show "\<exists>s'. Some (pl_free s a) = Some s' \<and> pool_regions s' (R - {(a, n)})" by blast
next
  fix s :: "'a pool_state_scheme" and R a n x v
  assume "pool_regions s R" "(a, n) \<in> R" and x: "inside a n x"
  then obtain F T i k where r: "pool_rep s F T" "R = cell_region s ` used_cells F T"
    and ik: "(i, k) \<in> used_cells F T" "(a, n) = cell_region s (i, k)"
    unfolding pool_regions_def by auto
  have "(i, k) \<in> cells s" using ik(1) used_cells_sub [OF r(1)] by blast
  then have "pool_rep (pool_poke s x v) F T"
    using x ik(2) by (intro pool_rep_data [OF r(1)]) (auto simp: st8_def cell_region_def pool_poke_def)
  moreover have "cell_region (pool_poke s x v) = cell_region s" by (simp add: fun_eq_iff cell_region_def pool_poke_def)
  ultimately show "pool_regions (pool_poke s x v) R" unfolding pool_regions_def using r(2) by metis
qed

end
