(* ===== verification/Blocks.thy ===== *)
theory Blocks
  imports Main
begin

text \<open>
  The blocks of a buddy system, \<open>(order, index)\<close>, and when two of them overlap.  Block \<open>(i, n)\<close>
  covers the units from \<open>n * 2 ^ i\<close> up to \<open>(n + 1) * 2 ^ i\<close>.
\<close>

type_synonym block = "nat \<times> nat"

definition overlap :: "block \<Rightarrow> block \<Rightarrow> bool" where
  "overlap a b \<longleftrightarrow> snd a * 2 ^ fst a < Suc (snd b) * 2 ^ fst b \<and> snd b * 2 ^ fst b < Suc (snd a) * 2 ^ fst a"

lemma overlap_sym: "overlap a b \<longleftrightarrow> overlap b a"
  by (auto simp: overlap_def)

lemma overlap_refl [simp]: "overlap a a"
  by (simp add: overlap_def)

lemma overlap_up: "i \<le> j \<Longrightarrow> overlap (i, k) (j, n) \<longleftrightarrow> k div 2 ^ (j - i) = n"
proof -
  assume "i \<le> j"
  then obtain d where j: "j = i + d" by (auto simp: le_iff_add)
  have cancel: "x * c < y * c \<longleftrightarrow> x < y" if "0 < c" for x y c :: nat using that by simp
  have "k * 2 ^ i < Suc n * 2 ^ j \<longleftrightarrow> k * 2 ^ i < (Suc n * 2 ^ d) * 2 ^ i"
    by (simp only: j power_add mult_ac)
  also have "\<dots> \<longleftrightarrow> k < Suc n * 2 ^ d" by (rule cancel) simp
  finally have 1: "k * 2 ^ i < Suc n * 2 ^ j \<longleftrightarrow> k div 2 ^ d < Suc n"
    by (simp add: div_less_iff_less_mult)
  have "n * 2 ^ j < Suc k * 2 ^ i \<longleftrightarrow> (n * 2 ^ d) * 2 ^ i < Suc k * 2 ^ i"
    by (simp only: j power_add mult_ac)
  also have "\<dots> \<longleftrightarrow> n * 2 ^ d < Suc k" by (rule cancel) simp
  finally have 2: "n * 2 ^ j < Suc k * 2 ^ i \<longleftrightarrow> n \<le> k div 2 ^ d"
    by (simp add: less_eq_div_iff_mult_less_eq less_Suc_eq_le)
  show ?thesis unfolding overlap_def fst_conv snd_conv 1 2 using j by auto
qed

lemma overlap_same [simp]: "overlap (i, k) (i, n) \<longleftrightarrow> k = n"
  by (simp add: overlap_up)

lemma overlap_parent: "overlap a (Suc i, n) \<longleftrightarrow> overlap a (i, 2 * n) \<or> overlap a (i, Suc (2 * n))"
proof -
  have e: "n * 2 ^ Suc i = (2 * n) * 2 ^ i" "Suc n * 2 ^ Suc i = Suc (Suc (2 * n)) * 2 ^ i" by simp_all
  let ?x = "snd a * 2 ^ fst a" and ?y = "Suc (snd a) * 2 ^ fst a"
  have "(2 * n) * 2 ^ i < Suc (2 * n) * 2 ^ i" "Suc (2 * n) * 2 ^ i < Suc (Suc (2 * n)) * 2 ^ i" "?x < ?y"
    by simp_all
  then show ?thesis unfolding overlap_def fst_conv snd_conv e by linarith
qed

lemma overlap_up_mono: "overlap a (i, n) \<Longrightarrow> overlap a (i + d, n div 2 ^ d)"
proof (induction d)
  case (Suc d)
  have "n div 2 ^ d = 2 * (n div 2 ^ Suc d) \<or> n div 2 ^ d = Suc (2 * (n div 2 ^ Suc d))"
  proof -
    have "m = 2 * (m div 2) \<or> m = Suc (2 * (m div 2))" for m :: nat by presburger
    then show ?thesis unfolding power_Suc2 div_mult2_eq by blast
  qed
  then show ?case using Suc overlap_parent [of a "i + d" "n div 2 ^ Suc d"] by auto
qed simp

lemma div_pow_Suc: "n div 2 div 2 ^ d = n div 2 ^ Suc (d :: nat)" for n :: nat
  by (simp add: div_mult2_eq)

lemma div_pow_eq: "l div 2 ^ d = n \<longleftrightarrow> n * 2 ^ d \<le> l \<and> l < Suc n * 2 ^ d" for l n :: nat
proof -
  have "l div 2 ^ d = n \<longleftrightarrow> n \<le> l div 2 ^ d \<and> l div 2 ^ d < Suc n" by auto
  also have "n \<le> l div 2 ^ d \<longleftrightarrow> n * 2 ^ d \<le> l" by (rule less_eq_div_iff_mult_less_eq) simp
  also have "l div 2 ^ d < Suc n \<longleftrightarrow> l < Suc n * 2 ^ d" by (rule div_less_iff_less_mult) simp
  finally show ?thesis .
qed

text \<open>The buddy of a block: the other half of its parent.\<close>

definition buddy_of :: "nat \<Rightarrow> nat" where
  "buddy_of n = (if even n then Suc n else n - 1)"

lemma overlap_parent_buddy:
  "overlap a (Suc i, n div 2) \<longleftrightarrow> overlap a (i, n) \<or> overlap a (i, buddy_of n)"
proof (cases "even n")
  case True
  then have "2 * (n div 2) = n" by simp
  then show ?thesis using True overlap_parent [of a i "n div 2"] by (simp add: buddy_of_def)
next
  case False
  then have "2 * (n div 2) = n - 1" "Suc (2 * (n div 2)) = n" by presburger+
  then show ?thesis using False overlap_parent [of a i "n div 2"] by (auto simp: buddy_of_def)
qed

lemma buddy_of_neq [simp]: "buddy_of n \<noteq> n" "n \<noteq> buddy_of n"
  by (auto simp: buddy_of_def dest: odd_pos)

lemma buddy_in_range: "buddy_of n < m \<Longrightarrow> n < m \<Longrightarrow> n div 2 < m div 2"
  by (simp add: buddy_of_def split: if_splits; presburger)

lemma buddy_le: "n < 2 * m \<Longrightarrow> buddy_of n < 2 * m"
  by (simp add: buddy_of_def; presburger)

lemma parent_out: "n < m \<Longrightarrow> m \<le> buddy_of n \<Longrightarrow> m div 2 \<le> n div 2"
  by (simp add: buddy_of_def split: if_splits; presburger)

end
