(* ===== verification/Buddy_Spec.thy ===== *)
theory Buddy_Spec
  imports Buddy Blocks
begin

text \<open>
  What the buddy allocator promises.  \<open>bud_rep s A\<close> says that the allocator's state \<open>s\<close> stands for
  the set \<open>A\<close> of allocated blocks: the bit of a block is set exactly when the block overlaps one of
  \<open>A\<close> (or lies beyond the heap), and the header of each block of \<open>A\<close> holds its order.  Allocation
  adds a block that overlaps none of \<open>A\<close>; freeing removes one.
\<close>

subsection \<open>The bits of the orders\<close>

definition nord :: "'a bud_state_scheme \<Rightarrow> nat" where
  "nord s = length (bud s)"

definition units_total :: "'a bud_state_scheme \<Rightarrow> nat" where
  "units_total s = nat (bm_heap_size (bm s)) div unat (bm_ll (bm s))"

definition nblk :: "'a bud_state_scheme \<Rightarrow> nat \<Rightarrow> nat" where
  "nblk s i = units_total s div 2 ^ i"

definition bmp_of :: "'a bud_state_scheme \<Rightarrow> nat \<Rightarrow> bitmap" where
  "bmp_of s i = bs_bmp (bud s ! i)"

definition bbit :: "'a bud_state_scheme \<Rightarrow> nat \<Rightarrow> nat \<Rightarrow> bool" where
  "bbit s i n = bm_bit (km s) (bmp_of s i) n"

definition bcap :: "'a bud_state_scheme \<Rightarrow> nat \<Rightarrow> nat" where
  "bcap s i = bm_cap (bmp_of s i)"

abbreviation bmp_bytes :: "bitmap \<Rightarrow> nat" where
  "bmp_bytes b \<equiv> 4 * unat (bmp_size b)"

definition in_bitmaps :: "'a bud_state_scheme \<Rightarrow> addr \<Rightarrow> bool" where
  "in_bitmaps s x \<longleftrightarrow> (\<exists>i<nord s. inside (bmp_base (bmp_of s i)) (bmp_bytes (bmp_of s i)) x)"

text \<open>
  The shape of an initialised allocator: twelve orders at most, a bitmap per order with a bit for
  each of its blocks and for each of their parents, the bitmaps and the headers apart from each other.
\<close>

definition bitmaps_wf :: "'a bud_state_scheme \<Rightarrow> bool" where
  "bitmaps_wf s \<longleftrightarrow> unat (bm_dep (bm s)) = nord s \<and> 0 < nord s \<and> nord s \<le> 12
     \<and> (\<forall>i<nord s. bm_wf (bmp_of s i) \<and> nblk s i \<le> bcap s i)
     \<and> (\<forall>i<nord s. Suc i < nord s \<longrightarrow> (\<forall>n<nblk s i. n div 2 < bcap s (Suc i)))
     \<and> (\<forall>i<nord s. \<forall>j<nord s. i \<noteq> j \<longrightarrow>
          apart (bmp_base (bmp_of s i)) (bmp_bytes (bmp_of s i))
            (bmp_base (bmp_of s j)) (bmp_bytes (bmp_of s j)))"

definition heap_wf :: "'a bud_state_scheme \<Rightarrow> bool" where
  "heap_wf s \<longleftrightarrow> 0 < bm_heap_size (bm s) \<and> bm_heap_size (bm s) \<le> INT_MAX
     \<and> 0 < unat (bm_ll (bm s)) \<and> unat (bm_ll (bm s)) * 2 ^ (nord s - 1) \<le> nat (bm_heap_size (bm s))
     \<and> bm_ul (bm s) = bm_ll (bm s) * 2 ^ (nord s - 1)
     \<and> 0 < unat (bm_heap_base (bm s))
     \<and> unat (bm_heap_base (bm s)) + nat (bm_heap_size (bm s)) < 2 ^ 32
     \<and> unat (bm_hdr_base (bm s)) + units_total s \<le> unat (bm_heap_base (bm s))
     \<and> (\<forall>i<nord s. apart (bm_hdr_base (bm s)) (units_total s)
          (bmp_base (bmp_of s i)) (bmp_bytes (bmp_of s i)))
     \<and> (\<forall>i<nord s. apart (bm_heap_base (bm s)) (nat (bm_heap_size (bm s)))
          (bmp_base (bmp_of s i)) (bmp_bytes (bmp_of s i)))"

text \<open>Two states that differ in the bits and the counters only.\<close>

definition shape :: "'a bud_state_scheme \<Rightarrow> 'a bud_state_scheme \<Rightarrow> bool" where
  "shape s s' \<longleftrightarrow> (\<exists>m bs. s' = s\<lparr>km := m, bud := bs\<rparr> \<and> map bs_bmp bs = map bs_bmp (bud s)
     \<and> (\<forall>x. \<not> in_bitmaps s x \<longrightarrow> m x = km s x))"

lemma shape_refl [simp]: "shape s s"
  unfolding shape_def by (rule exI [of _ "km s"], rule exI [of _ "bud s"]) simp

lemma shape_simps:
  assumes "shape s s'"
  shows "bm s' = bm s" "lazy s' = lazy s" "mmm s' = mmm s" "bud_state.more s' = bud_state.more s"
    "nord s' = nord s" "\<And>i. i < nord s \<Longrightarrow> bmp_of s' i = bmp_of s i"
    "units_total s' = units_total s" "nblk s' = nblk s" "\<And>i. i < nord s \<Longrightarrow> bcap s' i = bcap s i"
    "\<And>x. in_bitmaps s' x = in_bitmaps s x"
    "\<And>x. \<not> in_bitmaps s x \<Longrightarrow> km s' x = km s x"
proof -
  obtain m bs where s': "s' = s\<lparr>km := m, bud := bs\<rparr>" and map: "map bs_bmp bs = map bs_bmp (bud s)"
    and m: "\<forall>x. \<not> in_bitmaps s x \<longrightarrow> m x = km s x"
    using assms unfolding shape_def by blast
  show "bm s' = bm s" "lazy s' = lazy s" "mmm s' = mmm s" "bud_state.more s' = bud_state.more s"
    by (simp_all add: s')
  then show u: "units_total s' = units_total s" "nblk s' = nblk s"
    by (simp_all add: units_total_def nblk_def fun_eq_iff)
  show n: "nord s' = nord s" using map by (simp add: s' nord_def) (metis length_map)
  show b: "bmp_of s' i = bmp_of s i" if "i < nord s" for i
    using that n nth_map [of i bs bs_bmp] nth_map [of i "bud s" bs_bmp] map
    by (simp add: s' nord_def bmp_of_def)
  show "bcap s' i = bcap s i" if "i < nord s" for i using b [OF that] by (simp add: bcap_def)
  show "in_bitmaps s' x = in_bitmaps s x" for x using n b by (auto simp: in_bitmaps_def)
  show "km s' x = km s x" if "\<not> in_bitmaps s x" for x using m that by (simp add: s')
qed

lemma shape_trans: "shape s t \<Longrightarrow> shape t u \<Longrightarrow> shape s u"
proof -
  assume st: "shape s t" and tu: "shape t u"
  note t = shape_simps [OF st] and u = shape_simps [OF tu]
  have "map bs_bmp (bud u) = map bs_bmp (bud s)"
    using st tu unfolding shape_def by auto
  moreover have "u = s\<lparr>km := km u, bud := bud u\<rparr>"
    using t(1-4) u(1-4) by (intro bud_state.equality) simp_all
  moreover have "\<forall>x. \<not> in_bitmaps s x \<longrightarrow> km u x = km s x" using t u by simp
  ultimately show "shape s u" unfolding shape_def by blast
qed

lemma shape_wf: "shape s s' \<Longrightarrow> bitmaps_wf s \<Longrightarrow> bitmaps_wf s'"
  unfolding bitmaps_wf_def by (simp add: shape_simps)

lemma shape_heap_wf: "shape s s' \<Longrightarrow> heap_wf s \<Longrightarrow> heap_wf s'"
  unfolding heap_wf_def by (simp add: shape_simps)

lemma wf_bitmap: "bitmaps_wf s \<Longrightarrow> i < nord s \<Longrightarrow> bm_wf (bmp_of s i)"
  by (simp add: bitmaps_wf_def)

lemma bud_get_eq:
  assumes "bitmaps_wf s" "i < nord s" "n < bcap s i"
  shows "bud_get s i (int n) = Some (of_bool (bbit s i n))"
  using assms wf_bitmap [OF assms(1,2)]
  by (simp add: bud_get_def nord_def bitmap_get_eq bcap_def bbit_def bmp_of_def)

lemma set_bit_spec:
  assumes wf: "bitmaps_wf s" and i: "i < nord s" and n: "n < bcap s i"
  shows "\<exists>s'. bud_set_bit s i (int n) (of_bool b) = Some (0, s') \<and> shape s s'
    \<and> (\<forall>j<nord s. \<forall>k<bcap s j. bbit s' j k = (if j = i \<and> k = n then b else bbit s j k))"
proof -
  let ?b = "bmp_of s i"
  have bwf: "bm_wf ?b" and len: "i < length (bud s)" and n': "n < bm_cap ?b"
    using wf i n by (auto simp: bitmaps_wf_def nord_def bcap_def)
  have get: "bitmap_get (km s) (Some ?b) (int n) = Some (of_bool (bbit s i n))"
    using bitmap_get_eq [OF bwf n'] by (simp add: bbit_def)
  have ne: "bud s \<noteq> []" using len by auto
  show ?thesis
  proof (cases "bbit s i n = b")
    case True
    then have "bud_set_bit s i (int n) (of_bool b) = Some (0, s)"
      using get len ne by (simp add: bud_set_bit_def bmp_of_def)
    then show ?thesis using True by auto
  next
    case False
    define c where "c = (bud s ! i)\<lparr>bs_frees := bs_frees (bud s ! i) + (if b then -1 else 1)\<rparr>"
    define m where "m = bm_put (km s) ?b n b"
    define s' where "s' = s\<lparr>km := m, bud := (bud s)[i := c]\<rparr>"
    have set: "bitmap_set (km s) (Some ?b) (to_u32 (int n)) b = Some (int n, m)"
      using bitmap_set_eq [OF bwf n'] by (simp add: to_u32_def m_def)
    have "bud_set_bit s i (int n) (of_bool b) = Some (0, s')"
      using get set len ne False
      by (cases b) (simp_all add: bud_set_bit_def bmp_of_def s'_def c_def Let_def)
    moreover have "shape s s'"
    proof -
      have "map bs_bmp ((bud s)[i := c]) = map bs_bmp (bud s)"
        using len by (simp add: map_update c_def list_update_same_conv)
      moreover have "m x = km s x" if "\<not> in_bitmaps s x" for x
        using that i bm_put_other [OF bwf n'] by (auto simp: m_def in_bitmaps_def)
      ultimately show ?thesis unfolding shape_def s'_def by blast
    qed
    moreover have "bbit s' j k = (if j = i \<and> k = n then b else bbit s j k)"
      if "j < nord s" "k < bcap s j" for j k
    proof -
      have s'j: "bmp_of s' j = bmp_of s j" using shape_simps(6) [OF \<open>shape s s'\<close>] that by simp
      show ?thesis
      proof (cases "j = i")
        case True
        then show ?thesis using bm_bit_put [OF bwf n'] that s'j
          by (simp add: bbit_def bcap_def s'_def m_def)
      next
        case j: False
        have "apart (bmp_base (bmp_of s j)) (bmp_bytes (bmp_of s j)) (bmp_base ?b) (bmp_bytes ?b)"
          using wf that(1) i j by (simp add: bitmaps_wf_def)
        then have same: "km s' x = km s x" if "inside (bmp_base (bmp_of s j)) (bmp_bytes (bmp_of s j)) x" for x
          using bm_put_other [OF bwf n' apart_inside [OF _ that]] by (simp add: s'_def m_def)
        have "bbit s' j k = bbit s j k"
          unfolding bbit_def s'j
          by (rule bm_bit_cong [OF wf_bitmap [OF wf that(1)]]) (use same that(2) in \<open>auto simp: bcap_def\<close>)
        then show ?thesis using j by simp
      qed
    qed
    ultimately show ?thesis by blast
  qed
qed


text \<open>What a loop over the children or the ancestors does to the bits is stated as a new bit function.\<close>

definition bits_are :: "'a bud_state_scheme \<Rightarrow> (nat \<Rightarrow> nat \<Rightarrow> bool) \<Rightarrow> bool" where
  "bits_are s B \<longleftrightarrow> (\<forall>i<nord s. \<forall>n<bcap s i. bbit s i n = B i n)"

lemma bits_areD: "bits_are s B \<Longrightarrow> i < nord s \<Longrightarrow> n < bcap s i \<Longrightarrow> bbit s i n = B i n"
  by (simp add: bits_are_def)

lemma bits_are_self: "bits_are s (bbit s)"
  by (simp add: bits_are_def)

lemma bits_are_cong:
  "(\<And>i n. i < nord s \<Longrightarrow> n < bcap s i \<Longrightarrow> B i n = C i n) \<Longrightarrow> bits_are s B \<longleftrightarrow> bits_are s C"
  by (auto simp: bits_are_def)

lemma set_bit_bits:
  assumes "bitmaps_wf s" "i < nord s" "n < bcap s i" "bits_are s B"
  obtains s' where "bud_set_bit s i (int n) (of_bool b) = Some (0, s')" "shape s s'"
    "bits_are s' (\<lambda>j k. if j = i \<and> k = n then b else B j k)"
proof -
  obtain s' where s': "bud_set_bit s i (int n) (of_bool b) = Some (0, s')" "shape s s'"
    "\<forall>j<nord s. \<forall>k<bcap s j. bbit s' j k = (if j = i \<and> k = n then b else bbit s j k)"
    using set_bit_spec [OF assms(1-3)] by blast
  then have "bits_are s' (\<lambda>j k. if j = i \<and> k = n then b else B j k)"
    using assms(4) by (simp add: bits_are_def shape_simps)
  then show ?thesis using s' that by blast
qed

lemma child_row_bits:
  assumes "bitmaps_wf s" "i < nord s" "n + k \<le> bcap s i" "bits_are s B"
  shows "\<exists>s'. child_row s i (int n) (int (n + k)) (of_bool b) = Some s' \<and> shape s s'
    \<and> bits_are s' (\<lambda>j l. if j = i \<and> n \<le> l \<and> l < n + k then b else B j l)"
  using assms
proof (induction k arbitrary: n s B)
  case 0
  have "(\<lambda>j l. if j = i \<and> n \<le> l \<and> l < n + 0 then b else B j l) = B" by (auto simp: fun_eq_iff)
  then show ?case using 0 by (simp add: child_row.simps)
next
  case (Suc k)
  have n: "n < bcap s i" using Suc.prems(3) by simp
  have ob: "(if (of_bool b :: int) \<noteq> 0 then 1 else 0) = (of_bool b :: int)" by simp
  obtain t where t: "bud_set_bit s i (int n) (of_bool b) = Some (0, t)" "shape s t"
    "bits_are t (\<lambda>j l. if j = i \<and> l = n then b else B j l)"
    using set_bit_bits [OF Suc.prems(1,2) n Suc.prems(4)] .
  have "\<exists>s'. child_row t i (int (Suc n)) (int (Suc n + k)) (of_bool b) = Some s' \<and> shape t s'
    \<and> bits_are s' (\<lambda>j l. if j = i \<and> Suc n \<le> l \<and> l < Suc n + k then b else if j = i \<and> l = n then b else B j l)"
    by (rule Suc.IH [OF shape_wf [OF t(2) Suc.prems(1)] _ _ t(3)])
      (use Suc.prems t(2) in \<open>simp_all add: shape_simps\<close>)
  then obtain s' where s': "child_row t i (int (Suc n)) (int (Suc n + k)) (of_bool b) = Some s'" "shape t s'"
    "bits_are s' (\<lambda>j l. if j = i \<and> Suc n \<le> l \<and> l < Suc n + k then b else if j = i \<and> l = n then b else B j l)"
    by blast
  have "child_row s i (int n) (int (n + Suc k)) (of_bool b) = Some s'"
    using t(1) s'(1) by (subst child_row.simps) (simp only: ob, simp add: add.commute)
  moreover have "bits_are s' (\<lambda>j l. if j = i \<and> n \<le> l \<and> l < n + Suc k then b else B j l)"
    using s'(3) by (rule iffD1 [OF bits_are_cong, rotated]) auto
  ultimately show ?case using shape_trans [OF t(2) s'(2)] by blast
qed

lemma child_rows_bits:
  assumes "bitmaps_wf s" "i \<le> nord s" "\<forall>j<i. (n + k) * 2 ^ (i - j) \<le> bcap s j" "bits_are s B"
  shows "\<exists>s'. child_rows s i (int n) (int k) (of_bool b) = Some s' \<and> shape s s'
    \<and> bits_are s' (\<lambda>j l. if j < i \<and> n * 2 ^ (i - j) \<le> l \<and> l < (n + k) * 2 ^ (i - j) then b else B j l)"
  using assms
proof (induction i arbitrary: n k s B)
  case 0
  then show ?case by auto
next
  case (Suc i)
  have i: "i < nord s" "2 * n + 2 * k \<le> bcap s i"
    using Suc.prems(2,3) by (auto dest: spec [of _ i])
  obtain t where t: "child_row s i (int (2 * n)) (int (2 * n + 2 * k)) (of_bool b) = Some t" "shape s t"
    "bits_are t (\<lambda>j l. if j = i \<and> 2 * n \<le> l \<and> l < 2 * n + 2 * k then b else B j l)"
    using child_row_bits [OF Suc.prems(1) i Suc.prems(4)] by blast
  have le: "(2 * n + 2 * k) * 2 ^ (i - j) \<le> bcap t j" if "j < i" for j
  proof -
    have "(n + k) * 2 ^ (Suc i - j) \<le> bcap s j" using Suc.prems(3) that by simp
    moreover have "Suc i - j = Suc (i - j)" using that by simp
    ultimately show ?thesis using that i t(2) by (simp add: shape_simps algebra_simps)
  qed
  obtain s' where s': "child_rows t i (int (2 * n)) (int (2 * k)) (of_bool b) = Some s'" "shape t s'"
    "bits_are s' (\<lambda>j l. if j < i \<and> 2 * n * 2 ^ (i - j) \<le> l \<and> l < (2 * n + 2 * k) * 2 ^ (i - j) then b
       else if j = i \<and> 2 * n \<le> l \<and> l < 2 * n + 2 * k then b else B j l)"
    using Suc.IH [OF shape_wf [OF t(2) Suc.prems(1)] _ _ t(3), of "2 * n" "2 * k"] le i t(2)
    by (auto simp: shape_simps)
  have "bcap s i < 2147483648" using wf_bitmap [OF Suc.prems(1) i(1)] by (simp add: bm_wf_def bcap_def bm_cap_def)
  then have ok: "s32_ok (int n * 2) = Some (int (2 * n))" "s32_ok (int k * 2) = Some (int (2 * k))"
    "s32_ok (int (2 * n) + int (2 * k)) = Some (int (2 * n + 2 * k))"
    using i(2) by (auto simp: s32_ok_def)
  have "child_rows s (Suc i) (int n) (int k) (of_bool b) = Some s'"
    unfolding child_rows.simps ok bind.bind_lunit t(1) using s'(1) by simp
  moreover have "bits_are s' (\<lambda>j l. if j < Suc i \<and> n * 2 ^ (Suc i - j) \<le> l \<and> l < (n + k) * 2 ^ (Suc i - j) then b else B j l)"
  proof (rule iffD1 [OF bits_are_cong s'(3)])
    fix j l
    have "j < i \<Longrightarrow> Suc i - j = Suc (i - j)" by simp
    then show "(if j < i \<and> 2 * n * 2 ^ (i - j) \<le> l \<and> l < (2 * n + 2 * k) * 2 ^ (i - j) then b
       else if j = i \<and> 2 * n \<le> l \<and> l < 2 * n + 2 * k then b else B j l) =
      (if j < Suc i \<and> n * 2 ^ (Suc i - j) \<le> l \<and> l < (n + k) * 2 ^ (Suc i - j) then b else B j l)"
      by (cases "j < i"; cases "j = i") (simp_all add: algebra_simps)
  qed
  ultimately show ?case using shape_trans [OF t(2) s'(2)] by blast
qed


subsection \<open>The bits that stand for a set of blocks\<close>

definition spec_bits :: "(nat \<Rightarrow> nat) \<Rightarrow> block set \<Rightarrow> nat \<Rightarrow> nat \<Rightarrow> bool" where
  "spec_bits N A i n \<longleftrightarrow> N i \<le> n \<or> (\<exists>a\<in>A. overlap a (i, n))"

lemma nblk_half: "nblk s (i + d) = nblk s i div 2 ^ d"
  by (simp add: nblk_def power_add div_mult2_eq)

lemma spec_bits_up: "spec_bits (nblk s) A i n \<Longrightarrow> spec_bits (nblk s) A (i + d) (n div 2 ^ d)"
  unfolding spec_bits_def nblk_half using overlap_up_mono by (metis div_le_mono)

lemma nblk_block: "n < nblk s i \<Longrightarrow> Suc n * 2 ^ i \<le> units_total s"
proof -
  assume "n < nblk s i"
  then have "Suc n \<le> units_total s div 2 ^ i" by (simp add: nblk_def)
  then have "Suc n * 2 ^ i \<le> units_total s div 2 ^ i * 2 ^ i" by (rule mult_le_mono1)
  also have "\<dots> \<le> units_total s" by simp
  finally show ?thesis .
qed

lemma nblk_down: "n < nblk s (j + d) \<Longrightarrow> Suc n * 2 ^ d \<le> nblk s j"
proof -
  assume "n < nblk s (j + d)"
  then have "Suc n \<le> nblk s j div 2 ^ d" by (simp add: nblk_half)
  then have "Suc n * 2 ^ d \<le> nblk s j div 2 ^ d * 2 ^ d" by (rule mult_le_mono1)
  also have "\<dots> \<le> nblk s j" by simp
  finally show ?thesis .
qed

lemma nblk_lower: "n < nblk s i \<Longrightarrow> j \<le> i \<Longrightarrow> l div 2 ^ (i - j) = n \<Longrightarrow> l < nblk s j"
proof -
  assume "n < nblk s i" "j \<le> i" and l: "l div 2 ^ (i - j) = n"
  then have "Suc n * 2 ^ (i - j) \<le> nblk s j" using nblk_down [of n s j "i - j"] by simp
  moreover have "l < Suc n * 2 ^ (i - j)" using l unfolding div_pow_eq by simp
  ultimately show "l < nblk s j" by simp
qed

lemma wf_bounds:
  assumes "bitmaps_wf s" "i < nord s"
  shows "nblk s i \<le> bcap s i" "bcap s i < 2147483648" "even (bcap s i)" "i < 12"
    "unat (of_nat i :: u32) = i" "unat (ucast (of_nat i :: u32) :: u8) = i"
    "(of_nat i :: u32) < bm_dep (bm s)" "to_s32 (of_nat i) = int i"
proof -
  show "nblk s i \<le> bcap s i" "i < 12" using assms by (auto simp: bitmaps_wf_def)
  then show "unat (of_nat i :: u32) = i" "unat (ucast (of_nat i :: u32) :: u8) = i" "to_s32 (of_nat i) = int i"
    by (simp_all add: unsigned_of_nat unsigned_ucast_eq take_bit_nat_eq_self)
  then show "(of_nat i :: u32) < bm_dep (bm s)" using assms by (simp add: word_less_nat_alt bitmaps_wf_def)
  show "bcap s i < 2147483648" "even (bcap s i)"
    using wf_bitmap [OF assms] by (simp_all add: bm_wf_def bcap_def bm_cap_def)
qed

lemma index_word: "n < 2147483648 \<Longrightarrow> unat (of_nat n :: u32) = n \<and> to_s32 (of_nat n) = int n"
  by (simp add: unat_of_nat_lt)

lemma chk_childs_bits:
  assumes wf: "bitmaps_wf s" and i: "i < nord s" and n: "n < nblk s i" and B: "bits_are s B"
  shows "\<exists>s'. bud_chk_childs s (of_nat i) (of_nat n) (of_bool b) = Some (0, s') \<and> shape s s'
    \<and> bits_are s' (\<lambda>j l. if j < i \<and> overlap (i, n) (j, l) then b else B j l)"
proof -
  note w = wf_bounds [OF wf i]
  have nw: "to_s32 (of_nat n) = int n" using n w by (intro index_word [THEN conjunct2]) simp
  have "(n + 1) * 2 ^ (i - j) \<le> bcap s j" if "j < i" for j
    using nblk_down [of n s j "i - j"] n that wf_bounds(1) [OF wf, of j] i by simp
  then obtain s' where s': "child_rows s i (int n) (int 1) (of_bool b) = Some s'" "shape s s'"
    "bits_are s' (\<lambda>j l. if j < i \<and> n * 2 ^ (i - j) \<le> l \<and> l < (n + 1) * 2 ^ (i - j) then b else B j l)"
    using child_rows_bits [OF wf, of i n 1 B b] i B by auto
  have "n * 2 ^ d \<le> l \<and> l < (n + 1) * 2 ^ d \<longleftrightarrow> l div 2 ^ d = n" for d l :: nat
    by (simp add: div_pow_eq)
  then have "bits_are s' (\<lambda>j l. if j < i \<and> overlap (i, n) (j, l) then b else B j l)"
    using s'(3) by (rule_tac iffD1 [OF bits_are_cong]) (auto simp: overlap_sym [of "(i, n)"] overlap_up)
  moreover have "bud_chk_childs s (of_nat i) (of_nat n) (of_bool b) = Some (0, s')"
    using s'(1) w(7,8) nw by (simp add: bud_chk_childs_def)
  ultimately show ?thesis using s'(2) by blast
qed

subsection \<open>Marking the ancestors\<close>

lemma search_up:
  assumes "bitmaps_wf s" "ord < lvl" "lvl \<le> nord s"
    and "lvl < nord s \<Longrightarrow> k div 2 ^ (lvl - ord) < bcap s lvl"
    and "bits_are s (\<lambda>j l. spec_bits (nblk s) A j l \<or> (j < lvl \<and> overlap (ord, k) (j, l)))"
  shows "\<exists>s'. parent_loop bud_search (bm_dep (bm s)) s (of_nat lvl) (of_nat (k div 2 ^ (lvl - ord))) 1 = Some s'
    \<and> shape s s' \<and> bits_are s' (spec_bits (nblk s) (insert (ord, k) A))"
  using assms
proof (induction "nord s - lvl" arbitrary: s lvl)
  case 0
  then have lvl: "lvl = nord s" by simp
  have "unat (bm_dep (bm s)) = nord s" "nord s \<le> 12" using 0 by (auto simp: bitmaps_wf_def)
  then have "\<not> (of_nat lvl :: u32) < bm_dep (bm s)" by (simp add: word_less_nat_alt lvl unat_of_nat_lt)
  moreover have "bits_are s (spec_bits (nblk s) (insert (ord, k) A))"
    using 0(6) by (rule iffD1 [OF bits_are_cong, rotated]) (auto simp: spec_bits_def lvl)
  ultimately show ?case by (subst parent_loop.simps) auto
next
  case (Suc d)
  define n where "n = k div 2 ^ (lvl - ord)"
  have lvl: "lvl < nord s" using Suc.hyps(2) by simp
  note w = wf_bounds [OF Suc.prems(1) lvl]
  have n: "n < bcap s lvl" using Suc.prems(4) lvl by (simp add: n_def)
  have nw: "to_s32 (of_nat n) = int n" "unat (of_nat n :: u32) = n" using n w(2) index_word [of n] by auto
  have up: "overlap (ord, k) (j, l) \<longleftrightarrow> l = n div 2 ^ (j - lvl)" if "lvl \<le> j" for j l
    using that Suc.prems(2) by (auto simp: overlap_up n_def div_mult2_eq [symmetric] power_add [symmetric])
  have bit: "bbit s lvl n = spec_bits (nblk s) A lvl n"
    using bits_areD [OF Suc.prems(5) lvl n] by simp
  have get: "bud_get s lvl (int n) = Some (of_bool (bbit s lvl n))"
    using bud_get_eq [OF Suc.prems(1) lvl n] .
  show ?case
  proof (cases "bbit s lvl n")
    case True
    have "bits_are s (spec_bits (nblk s) (insert (ord, k) A))"
    proof (rule iffD1 [OF bits_are_cong Suc.prems(5)])
      fix j l
      have "spec_bits (nblk s) A j l" if "overlap (ord, k) (j, l)" "lvl \<le> j"
        using spec_bits_up [of s A lvl n "j - lvl"] True bit up that by simp
      then show "(spec_bits (nblk s) A j l \<or> (j < lvl \<and> overlap (ord, k) (j, l))) =
          spec_bits (nblk s) (insert (ord, k) A) j l"
        by (cases "j < lvl") (auto simp: spec_bits_def)
    qed
    moreover have "parent_loop bud_search (bm_dep (bm s)) s (of_nat lvl) (of_nat n) 1 = Some s"
      using w(6,7) get True nw by (subst parent_loop.simps) (simp add: bud_search_def)
    ultimately show ?thesis by (auto simp: n_def)
  next
    case False
    then have lt: "n < nblk s lvl" using bit by (simp add: spec_bits_def)
    obtain t where t: "bud_set_bit s lvl (int n) (of_bool True) = Some (0, t)" "shape s t"
      "bits_are t (\<lambda>j l. if j = lvl \<and> l = n then True else
         spec_bits (nblk s) A j l \<or> (j < lvl \<and> overlap (ord, k) (j, l)))"
      using set_bit_bits [OF Suc.prems(1) lvl n Suc.prems(5)] .
    note sh = shape_simps [OF t(2)]
    have next_ok: "k div 2 ^ (Suc lvl - ord) = n div 2"
      using Suc.prems(2) by (simp add: n_def Suc_diff_le div_mult2_eq [symmetric] mult.commute)
    have tb: "bits_are t (\<lambda>j l. spec_bits (nblk t) A j l \<or> (j < Suc lvl \<and> overlap (ord, k) (j, l)))"
      using t(3) by (rule iffD1 [OF bits_are_cong, rotated]) (auto simp: sh up less_Suc_eq)
    have tn: "n div 2 < bcap t (Suc lvl)" if "Suc lvl < nord t"
      using Suc.prems(1) lt lvl that by (simp add: bitmaps_wf_def sh)
    obtain s' where s': "parent_loop bud_search (bm_dep (bm t)) t (of_nat (Suc lvl))
        (of_nat (n div 2)) 1 = Some s'" "shape t s'" "bits_are s' (spec_bits (nblk t) (insert (ord, k) A))"
    proof -
      have "d = nord t - Suc lvl" "ord < Suc lvl" "Suc lvl \<le> nord t"
        using Suc.hyps(2) Suc.prems(2) lvl by (simp_all add: sh)
      from Suc.hyps(1) [OF this(1) shape_wf [OF t(2) Suc.prems(1)] this(2,3)] show ?thesis
        using tb tn that next_ok by auto
    qed
    have half: "of_nat n div 2 = (of_nat (n div 2) :: u32)"
      using n w(2) by (intro of_nat_div2) simp
    have "parent_loop bud_search (bm_dep (bm s)) s (of_nat lvl) (of_nat n) 1 = Some s'"
      using w(6,7) get False nw t(1) s'(1) half
      by (subst parent_loop.simps) (simp add: bud_search_def sh add.commute)
    then show ?thesis using s'(3) shape_trans [OF t(2) s'(2)] by (auto simp: n_def sh)
  qed
qed


subsection \<open>Clearing the ancestors\<close>

text \<open>A state in which block \<open>(lvl, n)\<close> was just cleared: what is left are the ancestors above it.\<close>

definition cleared :: "'a bud_state_scheme \<Rightarrow> block set \<Rightarrow> nat \<Rightarrow> nat \<Rightarrow> nat \<Rightarrow> bool" where
  "cleared s A lvl n o_lvl \<longleftrightarrow> bits_are s (\<lambda>j l. spec_bits (nblk s) A j l \<or>
     (o_lvl \<le> j \<and> l = n div 2 ^ (j - lvl)))"

lemma cleared_stop:
  assumes "cleared s A lvl n (Suc lvl)" "lvl < nord s" "n < nblk s lvl"
    and "Suc lvl = nord s \<or> spec_bits (nblk s) A lvl (buddy_of n)"
  shows "bits_are s (spec_bits (nblk s) A)"
  using assms(1) unfolding cleared_def
proof (rule iffD1 [OF bits_are_cong, rotated])
  fix j l assume j: "j < nord s"
  have "spec_bits (nblk s) A j (n div 2 ^ (j - lvl))" if lj: "Suc lvl \<le> j"
  proof -
    obtain d where d: "j = Suc lvl + d" using lj by (auto simp: le_iff_add)
    have used: "spec_bits (nblk s) A lvl (buddy_of n)" using assms(4) lj j by auto
    have "spec_bits (nblk s) A (Suc lvl) (n div 2)"
    proof (cases "nblk s lvl \<le> buddy_of n")
      case True
      then have "nblk s lvl div 2 \<le> n div 2" using assms(3) parent_out by blast
      then show ?thesis using nblk_half [of s lvl 1] by (simp add: spec_bits_def)
    next
      case False
      then show ?thesis using used overlap_parent_buddy by (auto simp: spec_bits_def)
    qed
    then have "spec_bits (nblk s) A (Suc lvl + d) (n div 2 div 2 ^ d)" by (rule spec_bits_up)
    then show ?thesis using d by (simp add: div_mult2_eq)
  qed
  then show "(spec_bits (nblk s) A j l \<or> (Suc lvl \<le> j \<and> l = n div 2 ^ (j - lvl))) = spec_bits (nblk s) A j l"
    by auto
qed

lemma buddy_bit:
  assumes wf: "bitmaps_wf s" and lvl: "lvl < nord s" and n: "n < nblk s lvl"
    and cl: "cleared s A lvl n (Suc lvl)"
  shows "bud_is_bud_used s (of_nat lvl) (of_nat n) = Some (of_bool (spec_bits (nblk s) A lvl (buddy_of n)))"
proof -
  note w = wf_bounds [OF wf lvl]
  have n': "n < bcap s lvl" "buddy_of n < bcap s lvl"
    using n w(1,3) buddy_le by (auto elim!: evenE)
  then have nw: "unat (of_nat n :: u32) = n" "to_s32 (of_nat (buddy_of n)) = int (buddy_of n)"
    using w(2) index_word [of n] index_word [of "buddy_of n"] by auto
  have "(of_nat n :: u32) + (if (of_nat n :: u32) mod 2 \<noteq> 0 then -1 else 1) = of_nat (buddy_of n)"
  proof -
    have "unat ((of_nat n :: u32) mod 2) = n mod 2" using nw(1) by (simp add: unat_mod)
    then have "(of_nat n :: u32) mod 2 = 0 \<longleftrightarrow> even n" by (metis unat_eq_zero even_iff_mod_2_eq_zero)
    moreover have "odd n \<Longrightarrow> (of_nat (n - 1) :: u32) = of_nat n - 1" by (auto elim!: oddE)
    ultimately show ?thesis by (auto simp: buddy_of_def)
  qed
  moreover have "bbit s lvl (buddy_of n) = spec_bits (nblk s) A lvl (buddy_of n)"
    using bits_areD [OF cl [unfolded cleared_def] lvl n'(2)] by simp
  ultimately show ?thesis
    using bud_get_eq [OF wf lvl n'(2)] w(5) nw by (simp add: bud_is_bud_used_def)
qed

lemma merge_up:
  assumes "bitmaps_wf s" "lvl \<le> nord s"
    and "lvl < nord s \<Longrightarrow> n < nblk s lvl \<and> (\<forall>a\<in>A. \<not> overlap a (lvl, n))"
    and "cleared s A lvl n lvl"
  shows "\<exists>s'. parent_loop bud_merge (bm_dep (bm s)) s (of_nat lvl) (of_nat n) 0 = Some s'
    \<and> shape s s' \<and> bits_are s' (spec_bits (nblk s) A)"
  using assms
proof (induction "nord s - lvl" arbitrary: s lvl n)
  case 0
  then have lvl: "lvl = nord s" by simp
  have "unat (bm_dep (bm s)) = nord s" "nord s \<le> 12" using 0 by (auto simp: bitmaps_wf_def)
  then have "\<not> (of_nat lvl :: u32) < bm_dep (bm s)" by (simp add: word_less_nat_alt lvl unat_of_nat_lt)
  moreover have "bits_are s (spec_bits (nblk s) A)"
    using 0(5) unfolding cleared_def by (rule iffD1 [OF bits_are_cong, rotated]) (auto simp: lvl)
  ultimately show ?case by (subst parent_loop.simps) auto
next
  case (Suc d)
  have lvl: "lvl < nord s" using Suc.hyps(2) by simp
  have n: "n < nblk s lvl" and free: "\<forall>a\<in>A. \<not> overlap a (lvl, n)" using Suc.prems(3) lvl by auto
  note w = wf_bounds [OF Suc.prems(1) lvl]
  have n': "n < bcap s lvl" using n w(1) by simp
  have nw: "to_s32 (of_nat n) = int n" "unat (of_nat n :: u32) = n" using n' w(2) index_word [of n] by auto
  obtain t where t: "bud_set_bit s lvl (int n) (of_bool False) = Some (0, t)" "shape s t"
    "bits_are t (\<lambda>j l. if j = lvl \<and> l = n then False else
       spec_bits (nblk s) A j l \<or> (lvl \<le> j \<and> l = n div 2 ^ (j - lvl)))"
    using set_bit_bits [OF Suc.prems(1) lvl n' Suc.prems(4) [unfolded cleared_def]] .
  note sh = shape_simps [OF t(2)]
  have wf_t: "bitmaps_wf t" and n_t: "n < nblk t lvl" and lvl_t: "lvl < nord t"
    using shape_wf [OF t(2) Suc.prems(1)] n lvl by (simp_all add: sh)
  have cl: "cleared t A lvl n (Suc lvl)"
    using t(3) unfolding cleared_def
    by (rule iffD1 [OF bits_are_cong, rotated]) (use n free in \<open>auto simp: sh spec_bits_def Suc_le_eq\<close>)
  have half: "of_nat n div 2 = (of_nat (n div 2) :: u32)"
    using n' w(2) by (intro of_nat_div2) simp
  let ?u = "spec_bits (nblk s) A lvl (buddy_of n)"
  have used: "bud_is_bud_used t (of_nat lvl) (of_nat n) = Some (of_bool ?u)"
    using buddy_bit [OF wf_t lvl_t n_t cl] by (simp add: sh)
  have top: "(of_nat lvl :: u32) = bm_dep (bm s) - 1 \<longleftrightarrow> Suc lvl = nord s"
  proof -
    have "unat (bm_dep (bm s)) = nord s" using Suc.prems(1) by (simp add: bitmaps_wf_def)
    moreover have "unat (of_nat (Suc lvl) :: u32) = Suc lvl" using w(4) by (intro unat_of_nat_lt) simp
    moreover have "(of_nat lvl :: u32) = bm_dep (bm s) - 1 \<longleftrightarrow> of_nat (Suc lvl) = bm_dep (bm s)"
      by (auto simp: algebra_simps)
    ultimately show ?thesis by (metis u32_eq_iff)
  qed
  have uc: "ucast (ucast (of_nat lvl :: u32) :: u8) = (of_nat lvl :: u32)"
    using w(5,6) by (simp add: u32_eq_iff)
  have merge: "bud_merge s (ucast (of_nat lvl :: u32)) (of_nat n) 0 = Some (Suc lvl \<noteq> nord s \<and> ?u, t)"
    using t(1) w(6) nw top used uc by (simp add: bud_merge_def sh)
  have step: "parent_loop bud_merge (bm_dep (bm s)) s (of_nat lvl) (of_nat n) 0 =
      (if Suc lvl \<noteq> nord s \<and> ?u then Some t
       else parent_loop bud_merge (bm_dep (bm t)) t (of_nat (Suc lvl)) (of_nat (n div 2)) 0)"
    using w(7) merge half by (subst parent_loop.simps) (simp add: sh add.commute)
  show ?case
  proof (cases "Suc lvl \<noteq> nord s \<and> ?u")
    case True
    have "bits_are t (spec_bits (nblk t) A)"
      using cleared_stop [OF cl lvl_t n_t] True by (simp add: sh)
    then show ?thesis using step True t(2) by (auto simp: sh)
  next
    case False
    have nxt: "n div 2 < nblk t (Suc lvl) \<and> (\<forall>a\<in>A. \<not> overlap a (Suc lvl, n div 2))" if "Suc lvl < nord t"
    proof -
      have "\<not> ?u" using False that by (auto simp: sh)
      then have "buddy_of n < nblk s lvl" "\<forall>a\<in>A. \<not> overlap a (lvl, buddy_of n)" by (auto simp: spec_bits_def)
      then show ?thesis
        using buddy_in_range [OF _ n] nblk_half [of s lvl 1] free overlap_parent_buddy by (auto simp: sh)
    qed
    have clr: "cleared t A (Suc lvl) (n div 2) (Suc lvl)"
      using cl unfolding cleared_def
      by (rule iffD1 [OF bits_are_cong, rotated])
        (auto simp: div_mult2_eq [symmetric] Suc_le_eq Suc_diff_Suc simp flip: power_Suc)
    obtain s' where "parent_loop bud_merge (bm_dep (bm t)) t (of_nat (Suc lvl)) (of_nat (n div 2)) 0 = Some s'"
      "shape t s'" "bits_are s' (spec_bits (nblk t) A)"
    proof -
      have "d = nord t - Suc lvl" "Suc lvl \<le> nord t" using Suc.hyps(2) lvl by (simp_all add: sh)
      from Suc.hyps(1) [OF this(1) wf_t this(2), of "n div 2"] nxt clr that show ?thesis by auto
    qed
    then show ?thesis using step False shape_trans [OF t(2)] by (auto simp: sh)
  qed
qed


subsection \<open>Sizes and orders\<close>

abbreviation ll_of :: "'a bud_state_scheme \<Rightarrow> nat" where
  "ll_of s \<equiv> unat (bm_ll (bm s))"

definition chunk_of :: "'a bud_state_scheme \<Rightarrow> nat \<Rightarrow> nat" where
  "chunk_of s i = ll_of s * 2 ^ i"

text \<open>The smallest order whose blocks hold \<open>sz\<close> bytes.\<close>

definition ord_for :: "'a bud_state_scheme \<Rightarrow> nat \<Rightarrow> nat option" where
  "ord_for s sz = find (\<lambda>i. sz \<le> chunk_of s i) [0..<nord s]"

definition blk_addr :: "'a bud_state_scheme \<Rightarrow> block \<Rightarrow> addr" where
  "blk_addr s b = bm_heap_base (bm s) + of_nat (ll_of s * (snd b * 2 ^ fst b))"

definition blk_hdr :: "'a bud_state_scheme \<Rightarrow> block \<Rightarrow> addr" where
  "blk_hdr s b = bm_hdr_base (bm s) + of_nat (snd b * 2 ^ fst b)"

lemma dep_word: "bitmaps_wf s \<Longrightarrow> bm_dep (bm s) = of_nat (nord s)"
  by (metis bitmaps_wf_def of_nat_unat ucast_id)

lemma chunk_bound:
  assumes "heap_wf s" "i < nord s"
  shows "chunk_of s i < 2147483648" "0 < chunk_of s i" "ll_of s \<le> chunk_of s i"
    "chunk_of s i \<le> nat (bm_heap_size (bm s))" "chunk_of s i \<le> chunk_of s (nord s - 1)"
proof -
  have "(2::nat) ^ i \<le> 2 ^ (nord s - 1)" using assms(2) by (intro power_increasing) auto
  then show le: "chunk_of s i \<le> chunk_of s (nord s - 1)" by (simp add: chunk_of_def)
  also have "chunk_of s (nord s - 1) \<le> nat (bm_heap_size (bm s))"
    using assms(1) by (simp add: heap_wf_def chunk_of_def)
  finally show hs: "chunk_of s i \<le> nat (bm_heap_size (bm s))" .
  have "bm_heap_size (bm s) \<le> INT_MAX" using assms(1) by (simp add: heap_wf_def)
  with hs show "chunk_of s i < 2147483648" by linarith
  show "0 < chunk_of s i" "ll_of s \<le> chunk_of s i" using assms(1) by (simp_all add: heap_wf_def chunk_of_def)
qed

lemma rndup_loop_eq:
  assumes "i \<le> D" "D \<le> 12" "L * 2 ^ (D - 1) < 2147483648" "z < 4294967296"
  shows "rndup_loop (of_nat z) (of_nat D) (of_nat (L * 2 ^ i)) (of_nat i) =
    (case find (\<lambda>j. z \<le> L * 2 ^ j) [i..<D] of Some j \<Rightarrow> int (L * 2 ^ j) | None \<Rightarrow> -1)"
  using assms(1)
proof (induction "D - i" arbitrary: i)
  case 0
  then show ?case by (subst rndup_loop.simps) simp
next
  case (Suc d)
  then have i: "i < D" "d = D - Suc i" by auto
  have lt: "(of_nat i :: u32) < of_nat D"
    using i assms(2) by (simp add: word_less_nat_alt unat_of_nat_lt)
  have "(2::nat) ^ i \<le> 2 ^ (D - 1)" using i by (intro power_increasing) auto
  then have c: "L * 2 ^ i < 2147483648" using assms(3) by (meson le_less_trans mult_le_mono2)
  have cmp: "(of_nat z :: u32) \<le> of_nat (L * 2 ^ i) \<longleftrightarrow> z \<le> L * 2 ^ i"
    using c assms(4) by (simp only: word_le_nat_alt unat_of_nat_lt)
  have val: "to_s32 (of_nat (L * 2 ^ i)) = int (L * 2 ^ i)" using c by (rule to_s32_of_nat)
  have nxt: "(of_nat (L * 2 ^ i) * 2 :: u32) = of_nat (L * 2 ^ Suc i)" "(of_nat i + 1 :: u32) = of_nat (Suc i)"
    by (simp_all add: mult.commute)
  have IH: "rndup_loop (of_nat z) (of_nat D) (of_nat (L * 2 ^ Suc i)) (of_nat (Suc i)) =
    (case find (\<lambda>j. z \<le> L * 2 ^ j) [Suc i..<D] of Some j \<Rightarrow> int (L * 2 ^ j) | None \<Rightarrow> -1)"
    using Suc.hyps(1) [of "Suc i"] i by simp
  have up: "[i..<D] = i # [Suc i..<D]" using i by (simp add: upt_rec)
  show ?case
    unfolding up by (subst rndup_loop.simps) (simp only: lt cmp val nxt IH find.simps if_True split: if_splits, simp)
qed

lemma bud_rndup_eq:
  assumes "bitmaps_wf s" "heap_wf s" "0 < z" "int z \<le> bm_heap_size (bm s)"
  shows "bud_rndup s (int z) = (case ord_for s z of Some i \<Rightarrow> int (chunk_of s i) | None \<Rightarrow> -1)"
proof -
  have "nord s \<le> 12" "0 < nord s" using assms(1) by (auto simp: bitmaps_wf_def)
  moreover have "ll_of s * 2 ^ (nord s - 1) < 2147483648"
    using chunk_bound(1) [OF assms(2), of "nord s - 1"] calculation by (simp add: chunk_of_def)
  moreover have "z < 4294967296" using assms(2,4) by (simp add: heap_wf_def)
  ultimately have "rndup_loop (of_nat z) (of_nat (nord s)) (of_nat (ll_of s * 2 ^ 0)) (of_nat 0) =
    (case find (\<lambda>j. z \<le> ll_of s * 2 ^ j) [0..<nord s] of Some j \<Rightarrow> int (ll_of s * 2 ^ j) | None \<Rightarrow> -1)"
    by (intro rndup_loop_eq) auto
  then show ?thesis
    using assms(3,4) dep_word [OF assms(1)]
    by (simp add: bud_rndup_def ord_for_def chunk_of_def to_u32_def split: option.splits)
qed

lemma get_ord_loop_eq:
  assumes "i \<le> j" "j < D" "D \<le> 12" "L * 2 ^ (D - 1) < 2147483648" "0 < L"
  shows "get_ord_loop (of_nat (L * 2 ^ j)) (of_nat D) (of_nat (L * 2 ^ i)) (of_nat i) = int j"
  using assms(1)
proof (induction "j - i" arbitrary: i)
  case 0
  then show ?case
    using assms by (subst get_ord_loop.simps) (simp add: word_less_nat_alt unat_of_nat_lt)
next
  case (Suc d)
  then have i: "i < j" "d = j - Suc i" by auto
  have lt: "(of_nat i :: u32) < of_nat D"
    using i assms by (simp add: word_less_nat_alt unat_of_nat_lt)
  have b: "L * 2 ^ k < 2147483648" if "k < D" for k
  proof -
    have "(2::nat) ^ k \<le> 2 ^ (D - 1)" using that by (intro power_increasing) auto
    then show ?thesis using assms(4) by (meson le_less_trans mult_le_mono2)
  qed
  have bi: "L * 2 ^ i < 4294967296" "L * 2 ^ j < 4294967296" using b [of i] b [of j] i assms(2) by auto
  have "L * 2 ^ i \<noteq> L * 2 ^ j" using i assms(5) by simp
  then have ne: "(of_nat (L * 2 ^ j) :: u32) \<noteq> of_nat (L * 2 ^ i)"
    using bi by (metis unat_of_nat_lt)
  have nxt: "(of_nat (L * 2 ^ i) * 2 :: u32) = of_nat (L * 2 ^ Suc i)" "(of_nat i + 1 :: u32) = of_nat (Suc i)"
    by (simp_all add: mult.commute)
  have IH: "get_ord_loop (of_nat (L * 2 ^ j)) (of_nat D) (of_nat (L * 2 ^ Suc i)) (of_nat (Suc i)) = int j"
    using Suc.hyps(1) [of "Suc i"] i by simp
  show ?case by (subst get_ord_loop.simps) (simp only: lt ne nxt IH if_True if_False)
qed

lemma bud_get_ord_eq:
  assumes "bitmaps_wf s" "heap_wf s" "i < nord s"
  shows "bud_get_ord s (of_nat (chunk_of s i)) = int i"
proof -
  let ?T = "chunk_of s (nord s - 1)"
  have D: "nord s \<le> 12" "0 < nord s" using assms(1) by (auto simp: bitmaps_wf_def)
  have L: "0 < ll_of s" "ll_of s * 2 ^ (nord s - 1) < 2147483648"
    using chunk_bound(1) [OF assms(2), of "nord s - 1"] D assms(2) by (auto simp: chunk_of_def heap_wf_def)
  have ll: "bm_ll (bm s) = of_nat (ll_of s)" by simp
  have "get_ord_loop (of_nat (ll_of s * 2 ^ i)) (of_nat (nord s)) (of_nat (ll_of s * 2 ^ 0)) (of_nat 0) = int i"
    by (rule get_ord_loop_eq) (use assms(3) D L in auto)
  then have loop: "get_ord_loop (of_nat (chunk_of s i)) (bm_dep (bm s)) (bm_ll (bm s)) 0 = int i"
    by (simp add: dep_word [OF assms(1)] chunk_of_def)
  have ul: "bm_ul (bm s) = of_nat ?T" using assms(2) by (simp add: heap_wf_def chunk_of_def)
  have u: "unat (of_nat (chunk_of s i) :: u32) = chunk_of s i" "unat (of_nat ?T :: u32) = ?T"
    using chunk_bound(1) [OF assms(2), of i] chunk_bound(1) [OF assms(2), of "nord s - 1"] assms(3) D
    by (intro unat_of_nat_lt; simp)+
  have "\<not> (of_nat (chunk_of s i) < bm_ll (bm s) \<or> bm_ul (bm s) < of_nat (chunk_of s i))"
    unfolding word_less_nat_alt ul u using chunk_bound(3,5) [OF assms(2,3)] by linarith
  then show ?thesis using loop by (simp add: bud_get_ord_def)
qed

lemma ord_for_Some: "ord_for s z = Some i \<Longrightarrow> i < nord s \<and> z \<le> chunk_of s i \<and> (\<forall>j<i. chunk_of s j < z)"
  unfolding ord_for_def by (auto simp: find_Some_iff)

lemma dbl_eq: "dbl (of_nat c) d = of_nat (c * 2 ^ d)"
  by (induction d arbitrary: c) (simp_all, metis (no_types, lifting) mult.assoc mult.commute of_nat_mult of_nat_numeral)

lemma bud_get_chunk_eq:
  assumes "heap_wf s" "i < nord s"
  shows "bud_get_chunk s (int i) = int (chunk_of s i)"
proof -
  have "dbl (of_nat (ll_of s)) i = of_nat (chunk_of s i)" by (simp only: dbl_eq chunk_of_def)
  then show ?thesis using chunk_bound(1) [OF assms] by (simp add: bud_get_chunk_def)
qed


subsection \<open>The allocator as a set of blocks\<close>

definition bud_rep :: "'a bud_state_scheme \<Rightarrow> block set \<Rightarrow> bool" where
  "bud_rep s A \<longleftrightarrow> bitmaps_wf s \<and> heap_wf s
     \<and> (\<forall>a\<in>A. fst a < nord s \<and> snd a < nblk s (fst a))
     \<and> (\<forall>a\<in>A. \<forall>b\<in>A. a \<noteq> b \<longrightarrow> \<not> overlap a b)
     \<and> bits_are s (spec_bits (nblk s) A)
     \<and> (\<forall>a\<in>A. km s (blk_hdr s a) = of_nat (fst a))"

definition free_block :: "'a bud_state_scheme \<Rightarrow> block set \<Rightarrow> nat \<Rightarrow> nat option" where
  "free_block s A i = first_free (\<lambda>n. \<exists>a\<in>A. overlap a (i, n)) (nblk s i)"

lemma first_free_spec: "N i \<le> c \<Longrightarrow> first_free (spec_bits N A i) c = first_free (\<lambda>n. \<exists>a\<in>A. overlap a (i, n)) (N i)"
proof (cases "first_free (\<lambda>n. \<exists>a\<in>A. overlap a (i, n)) (N i)")
  case None
  then have "first_free (spec_bits N A i) c = None"
    by (auto simp: first_free_None spec_bits_def not_le [symmetric])
  then show ?thesis using None by simp
next
  case (Some n)
  assume "N i \<le> c"
  then have "first_free (spec_bits N A i) c = Some n" using Some
    by (auto simp: first_free_Some spec_bits_def)
  then show ?thesis using Some by simp
qed

lemma find_free_spec:
  assumes wf: "bitmaps_wf s" and i: "i < nord s" and B: "bits_are s (spec_bits (nblk s) A)"
  shows "case free_block s A i of
      None \<Rightarrow> bud_find_free s (int i) = Some (-4, s)
    | Some n \<Rightarrow> \<exists>s'. bud_find_free s (int i) = Some (int n, s') \<and> shape s s'
        \<and> bits_are s' (spec_bits (nblk s) (insert (i, n) A))"
proof -
  note w = wf_bounds [OF wf i]
  have len: "i < length (bud s)" "int i \<ge> 0" using i by (simp_all add: nord_def)
  have "first_free (bm_bit (km s) (bmp_of s i)) (bcap s i) = first_free (spec_bits (nblk s) A i) (bcap s i)"
    by (rule first_free_cong) (use bits_areD [OF B i] in \<open>simp add: bbit_def\<close>)
  also have "\<dots> = free_block s A i" using first_free_spec w(1) by (simp add: free_block_def)
  finally have get: "bitmap_get_free (km s) (Some (bmp_of s i)) =
      Some (case free_block s A i of Some n \<Rightarrow> int n | None \<Rightarrow> -4)"
    using bitmap_get_free_eq [OF wf_bitmap [OF wf i]] by (simp add: bcap_def)
  show ?thesis
  proof (cases "free_block s A i")
    case None
    then show ?thesis using get len by (simp add: bud_find_free_def bmp_of_def)
  next
    case (Some n)
    then have n: "n < nblk s i" "\<forall>a\<in>A. \<not> overlap a (i, n)" by (auto simp: free_block_def first_free_Some)
    then have nc: "n < bcap s i" using w(1) by simp
    have nw: "to_u32 (int n) = of_nat n" "to_u32 (int i) = of_nat i" by (simp_all add: to_u32_def)
    obtain t where t: "bud_set_bit s i (int n) (of_bool True) = Some (0, t)" "shape s t"
      "bits_are t (\<lambda>j k. if j = i \<and> k = n then True else spec_bits (nblk s) A j k)"
      using set_bit_bits [OF wf i nc B] .
    note sh = shape_simps [OF t(2)]
    have wf_t: "bitmaps_wf t" using shape_wf [OF t(2) wf] .
    obtain u where u: "bud_chk_childs t (of_nat i) (of_nat n) (of_bool True) = Some (0, u)" "shape t u"
      "bits_are u (\<lambda>j l. if j < i \<and> overlap (i, n) (j, l) then True
         else if j = i \<and> l = n then True else spec_bits (nblk s) A j l)"
    proof -
      have "i < nord t" "n < nblk t i" using i n by (simp_all add: sh)
      from chk_childs_bits [OF wf_t this t(3), of True] that show ?thesis by blast
    qed
    note su = shape_simps [OF u(2)]
    have wf_u: "bitmaps_wf u" using shape_wf [OF u(2) wf_t] .
    have "bits_are u (\<lambda>j l. spec_bits (nblk u) A j l \<or> (j < Suc i \<and> overlap (i, n) (j, l)))"
      using u(3) by (rule iffD1 [OF bits_are_cong, rotated]) (auto simp: su sh less_Suc_eq)
    moreover have "n div 2 < bcap u (Suc i)" if "Suc i < nord u"
      using wf n that i by (simp add: bitmaps_wf_def su sh)
    ultimately obtain v where v: "parent_loop bud_search (bm_dep (bm u)) u (of_nat (Suc i)) (of_nat (n div 2)) 1 = Some v"
      "shape u v" "bits_are v (spec_bits (nblk u) (insert (i, n) A))"
      using search_up [OF wf_u, of i "Suc i" n A] i by (auto simp: su sh)
    have half: "of_nat n div 2 = (of_nat (n div 2) :: u32)" using nc w(2) by (intro of_nat_div2) simp
    have par: "bud_chk_parent u (of_nat i) (of_nat n) 1 bud_search = Some (0, v)"
      using v(1) w(7) half by (simp add: bud_chk_parent_def su sh add.commute)
    have "bud_find_free s (int i) = Some (int n, v)"
      using get Some len t(1) u(1) par nw by (simp add: bud_find_free_def bmp_of_def)
    moreover have "shape s v" using shape_trans [OF t(2) shape_trans [OF u(2) v(2)]] .
    ultimately show ?thesis using v(3) Some by (auto simp: su sh)
  qed
qed


lemma blk_numbers:
  assumes wf: "bitmaps_wf s" and hw: "heap_wf s" and i: "i < nord s" and n: "n < nblk s i"
  shows "chunk_of s i * n = ll_of s * (n * 2 ^ i)"
    "chunk_of s i * n + chunk_of s i \<le> nat (bm_heap_size (bm s))"
    "n * 2 ^ i < units_total s"
    "unat (blk_addr s (i, n)) = unat (bm_heap_base (bm s)) + chunk_of s i * n"
    "of_nat (chunk_of s i) * of_nat n div bm_ll (bm s) = (of_nat (n * 2 ^ i) :: u32)"
proof -
  show e: "chunk_of s i * n = ll_of s * (n * 2 ^ i)" by (simp add: chunk_of_def)
  have "Suc n * 2 ^ i \<le> units_total s" using n by (rule nblk_block)
  then have "ll_of s * (Suc n * 2 ^ i) \<le> ll_of s * units_total s" by (rule mult_le_mono2)
  also have "\<dots> \<le> nat (bm_heap_size (bm s))" by (simp add: units_total_def)
  finally have "ll_of s * (Suc n * 2 ^ i) \<le> nat (bm_heap_size (bm s))" .
  moreover have "ll_of s * (Suc n * 2 ^ i) = chunk_of s i * n + chunk_of s i"
    by (simp add: chunk_of_def algebra_simps)
  ultimately show le: "chunk_of s i * n + chunk_of s i \<le> nat (bm_heap_size (bm s))" by simp
  show "n * 2 ^ i < units_total s" using \<open>Suc n * 2 ^ i \<le> units_total s\<close>
    by (rule less_le_trans [rotated]) simp
  have hb: "unat (bm_heap_base (bm s)) + nat (bm_heap_size (bm s)) < 4294967296"
    using hw by (simp add: heap_wf_def)
  then have c: "unat (of_nat (chunk_of s i * n) :: u32) = chunk_of s i * n"
    using le by (intro unat_of_nat_lt) linarith
  show "unat (blk_addr s (i, n)) = unat (bm_heap_base (bm s)) + chunk_of s i * n"
    using c hb le unfolding blk_addr_def fst_conv snd_conv e [symmetric] by (simp add: unat_word_ariths)
  have "unat (of_nat (chunk_of s i * n) div bm_ll (bm s) :: u32) = n * 2 ^ i"
    unfolding unat_div c unfolding e using hw by (simp add: heap_wf_def)
  then have "of_nat (chunk_of s i * n) div bm_ll (bm s) = (of_nat (n * 2 ^ i) :: u32)"
    by (metis of_nat_unat ucast_id)
  then show "of_nat (chunk_of s i) * of_nat n div bm_ll (bm s) = (of_nat (n * 2 ^ i) :: u32)"
    by (simp only: of_nat_mult)
qed

lemma hdr_not_bitmap:
  assumes "heap_wf s" "j < units_total s"
  shows "\<not> in_bitmaps s (bm_hdr_base (bm s) + of_nat j)"
proof -
  have "units_total s \<le> 2 ^ 32" using assms(1) by (simp add: heap_wf_def)
  then have "inside (bm_hdr_base (bm s)) (units_total s) (bm_hdr_base (bm s) + of_nat j)"
    using assms(2) by (rule inside_add)
  then show ?thesis using assms(1) apart_inside unfolding heap_wf_def in_bitmaps_def by blast
qed

lemma hdr_neq:
  assumes "heap_wf s" "i < units_total s" "j < units_total s" "i \<noteq> j"
  shows "bm_hdr_base (bm s) + of_nat i \<noteq> bm_hdr_base (bm s) + of_nat j"
proof -
  have "units_total s \<le> 2 ^ 32" using assms(1) by (simp add: heap_wf_def)
  then show ?thesis using assms unat_of_nat_lt [of i] unat_of_nat_lt [of j] by auto
qed

text \<open>Blocks that do not overlap start at different units.\<close>

lemma overlap_start: "snd a * 2 ^ fst a = snd b * 2 ^ fst b \<Longrightarrow> overlap a b"
  by (simp add: overlap_def)

text \<open>Writing a header changes none of the bits.\<close>

lemma hdr_store:
  fixes v :: u8
  assumes wf: "bitmaps_wf s" and hw: "heap_wf s" and i: "i < nord s" and n: "n < nblk s i"
  defines "u \<equiv> s\<lparr>km := st8 (km s) (blk_hdr s (i, n)) v\<rparr>"
  shows "bitmaps_wf u" "heap_wf u" "nord u = nord s" "nblk u = nblk s" "bcap u = bcap s" "bm u = bm s"
    "blk_hdr u = blk_hdr s" "blk_addr u = blk_addr s" "units_total u = units_total s"
    "\<And>B. bits_are u B \<longleftrightarrow> bits_are s B" "\<And>x. in_bitmaps u x = in_bitmaps s x"
proof -
  have same: "bmp_of u = bmp_of s" "bm u = bm s" "nord u = nord s" "nblk u = nblk s"
    "units_total u = units_total s" "bcap u = bcap s"
    by (simp_all add: fun_eq_iff bmp_of_def nord_def nblk_def units_total_def bcap_def u_def)
  then show "nord u = nord s" "nblk u = nblk s" "bcap u = bcap s" "bm u = bm s"
    "units_total u = units_total s" "blk_hdr u = blk_hdr s" "blk_addr u = blk_addr s"
    "\<And>x. in_bitmaps u x = in_bitmaps s x"
    by (simp_all add: fun_eq_iff blk_hdr_def blk_addr_def in_bitmaps_def)
  show "bitmaps_wf u" "heap_wf u" using wf hw by (simp_all add: bitmaps_wf_def heap_wf_def same)
  have hd: "\<not> in_bitmaps s (blk_hdr s (i, n))"
    using hdr_not_bitmap [OF hw blk_numbers(3) [OF wf hw i n]] by (simp add: blk_hdr_def)
  have "bbit u j l = bbit s j l" if "j < nord s" "l < bcap s j" for j l
  proof -
    have "km u x = km s x" if "inside (bmp_base (bmp_of s j)) (bmp_bytes (bmp_of s j)) x" for x
    proof -
      have "in_bitmaps s x" using that \<open>j < nord s\<close> by (auto simp: in_bitmaps_def)
      then show ?thesis using hd by (auto simp: st8_def u_def)
    qed
    then show ?thesis
      unfolding bbit_def same
      by (intro bm_bit_cong [OF wf_bitmap [OF wf]]) (use that in \<open>simp_all add: bcap_def\<close>)
  qed
  then show "bits_are u B \<longleftrightarrow> bits_are s B" for B by (simp add: bits_are_def same)
qed

text \<open>Writing the header of a block that is not in \<open>A\<close>.\<close>

lemma bud_rep_insert:
  assumes rep: "bud_rep s A" and i: "i < nord s" and n: "n < nblk s i"
    and free: "\<forall>a\<in>A. \<not> overlap a (i, n)" and sh: "shape s t"
    and bits: "bits_are t (spec_bits (nblk s) (insert (i, n) A))"
  shows "bud_rep (t\<lparr>km := st8 (km t) (blk_hdr s (i, n)) (of_nat i)\<rparr>) (insert (i, n) A)"
proof -
  let ?h = "blk_hdr s (i, n)"
  let ?u = "t\<lparr>km := st8 (km t) ?h (of_nat i)\<rparr>"
  have wf: "bitmaps_wf s" and hw: "heap_wf s" using rep by (simp_all add: bud_rep_def)
  note ss = shape_simps [OF sh]
  have h: "blk_hdr t = blk_hdr s" by (simp add: fun_eq_iff blk_hdr_def ss)
  have "i < nord t" "n < nblk t i" using i n by (simp_all add: ss)
  note hs = hdr_store [OF shape_wf [OF sh wf] shape_heap_wf [OF sh hw] this, of "of_nat i", unfolded h]
  have kh: "blk_hdr ?u = blk_hdr s" by (simp only: hs h)
  have "bits_are ?u (spec_bits (nblk ?u) (insert (i, n) A))"
    using bits by (simp add: hs ss)
  moreover have "km ?u (blk_hdr ?u a) = of_nat (fst a)" if "a \<in> insert (i, n) A" for a
  proof (cases "a = (i, n)")
    case False
    then have a: "a \<in> A" using that by simp
    then have r: "fst a < nord s" "snd a < nblk s (fst a)" "km s (blk_hdr s a) = of_nat (fst a)"
      using rep by (auto simp: bud_rep_def)
    have u: "snd a * 2 ^ fst a < units_total s" using blk_numbers(3) [OF wf hw r(1,2)] .
    have "snd a * 2 ^ fst a \<noteq> n * 2 ^ i" using free a overlap_start [of a "(i, n)"] by auto
    then have "blk_hdr s a \<noteq> ?h"
      using hdr_neq [OF hw u blk_numbers(3) [OF wf hw i n]] by (simp add: blk_hdr_def)
    moreover have "\<not> in_bitmaps s (blk_hdr s a)" using hdr_not_bitmap [OF hw u] by (simp add: blk_hdr_def)
    ultimately show ?thesis using r(3) unfolding kh by (simp add: st8_def ss)
  qed (simp only: kh, simp add: st8_def)
  moreover have "\<forall>a\<in>insert (i, n) A. fst a < nord ?u \<and> snd a < nblk ?u (fst a)"
    using rep i n by (simp add: bud_rep_def hs ss)
  moreover have "\<forall>a\<in>insert (i, n) A. \<forall>b\<in>insert (i, n) A. a \<noteq> b \<longrightarrow> \<not> overlap a b"
    using rep free overlap_sym by (auto simp: bud_rep_def)
  ultimately show ?thesis using hs(1,2) by (simp add: bud_rep_def)
qed

text \<open>The address and the header that the block found gives.\<close>

lemma bud_alloc_found:
  assumes wf: "bitmaps_wf s" and hw: "heap_wf s" and sz: "0 < z" "int z \<le> bm_heap_size (bm s)"
    and ord: "ord_for s z = Some i" and n: "n < nblk s i"
    and found: "bud_find_free s (int i) = Some (int n, t)" and sh: "shape s t"
  shows "bud_alloc_raw s (int z) =
    Some (blk_addr s (i, n), t\<lparr>km := st8 (km t) (blk_hdr s (i, n)) (of_nat i)\<rparr>)"
proof -
  have i: "i < nord s" using ord_for_Some [OF ord] by simp
  note w = wf_bounds [OF wf i] and num = blk_numbers [OF wf hw i n] and ch = chunk_bound [OF hw i]
  note ss = shape_simps [OF sh]
  let ?u = "t\<lparr>km := st8 (km t) (blk_hdr s (i, n)) (of_nat i)\<rparr>"
  have words: "to_u32 (int (chunk_of s i)) = of_nat (chunk_of s i)" "to_u32 (int n) = of_nat n"
    "(ucast (to_u32 (int i)) :: u8) = of_nat i"
    using w(5) by (simp_all add: to_u32_def) (metis of_nat_unat)
  have addr: "bm_heap_base (bm s) + of_nat (chunk_of s i) * of_nat n = blk_addr s (i, n)"
    unfolding blk_addr_def fst_conv snd_conv num(1) [symmetric] by simp
  have hb: "unat (bm_heap_base (bm s)) + nat (bm_heap_size (bm s)) < 4294967296" "0 < unat (bm_heap_base (bm s))"
    using hw by (simp_all add: heap_wf_def)
  have hs: "to_u32 (bm_heap_size (bm s)) = of_nat (nat (bm_heap_size (bm s)))"
    using hw by (simp add: to_u32_def heap_wf_def)
  have "unat (bm_heap_base (bm s) + to_u32 (bm_heap_size (bm s))) = unat (bm_heap_base (bm s)) + nat (bm_heap_size (bm s))"
    unfolding hs using hb by (simp add: unat_word_ariths unsigned_of_nat take_bit_nat_eq_self)
  moreover have "unat (blk_addr s (i, n) + of_nat (chunk_of s i)) = unat (bm_heap_base (bm s)) + chunk_of s i * n + chunk_of s i"
    using num(2,4) hb ch(1) by (simp add: unat_word_ariths unsigned_of_nat take_bit_nat_eq_self)
  ultimately have fits: "\<not> bm_heap_base (bm s) + to_u32 (bm_heap_size (bm s)) < blk_addr s (i, n) + of_nat (chunk_of s i)"
    using num(2) by (simp add: word_less_nat_alt)
  have ll: "bm_ll (bm s) \<noteq> 0" using hw by (auto simp: heap_wf_def)
  have enc: "bud_encode t (of_nat (chunk_of s i)) (of_nat n) (of_nat i) = Some (blk_addr s (i, n), ?u)"
    using fits ll num(5) addr by (simp add: bud_encode_def ss blk_hdr_def Let_def)
  have "blk_addr s (i, n) \<noteq> NULL" using num(4) hb(2) by auto
  then show ?thesis
    using sz(1) bud_rndup_eq [OF wf hw sz] ord bud_get_ord_eq [OF wf hw i] found enc words ch(2)
    by (simp add: bud_alloc_raw_def Let_def)
qed

text \<open>
  Allocation: the lowest free block of the smallest order that fits is handed out, and the state
  stands for one block more.
\<close>

lemma bud_alloc_block:
  assumes rep: "bud_rep s A" and sz: "0 < z" "int z \<le> bm_heap_size (bm s)"
    and ord: "ord_for s z = Some i" and free: "free_block s A i = Some n"
  shows "\<exists>s'. bud_alloc_raw s (int z) = Some (blk_addr s (i, n), s') \<and> bud_rep s' (insert (i, n) A)
    \<and> bm s' = bm s \<and> (\<exists>m bs. s' = s\<lparr>km := m, bud := bs\<rparr>)
    \<and> (\<forall>x. \<not> in_bitmaps s x \<and> x \<noteq> blk_hdr s (i, n) \<longrightarrow> km s' x = km s x)
    \<and> map bs_bmp (bud s') = map bs_bmp (bud s)"
proof -
  have wf: "bitmaps_wf s" and hw: "heap_wf s" and B: "bits_are s (spec_bits (nblk s) A)"
    using rep by (simp_all add: bud_rep_def)
  have i: "i < nord s" using ord_for_Some [OF ord] by simp
  have n: "n < nblk s i" "\<forall>a\<in>A. \<not> overlap a (i, n)"
    using free by (auto simp: free_block_def first_free_Some)
  obtain t where t: "bud_find_free s (int i) = Some (int n, t)" "shape s t"
    "bits_are t (spec_bits (nblk s) (insert (i, n) A))"
    using find_free_spec [OF wf i B] free by auto
  note ss = shape_simps [OF t(2)]
  let ?u = "t\<lparr>km := st8 (km t) (blk_hdr s (i, n)) (of_nat i)\<rparr>"
  have "bud_alloc_raw s (int z) = Some (blk_addr s (i, n), ?u)"
    by (rule bud_alloc_found [OF wf hw sz ord n(1) t(1,2)])
  moreover have "bud_rep ?u (insert (i, n) A)" by (rule bud_rep_insert [OF rep i n t(2,3)])
  moreover obtain m bs where tm: "t = s\<lparr>km := m, bud := bs\<rparr>" "map bs_bmp bs = map bs_bmp (bud s)"
    using t(2) by (auto simp: shape_def)
  then have "?u = s\<lparr>km := st8 m (blk_hdr s (i, n)) (of_nat i), bud := bs\<rparr>" by simp
  then have "\<exists>m bs. ?u = s\<lparr>km := m, bud := bs\<rparr>" by blast
  moreover have "map bs_bmp (bud ?u) = map bs_bmp (bud s)" using tm by simp
  ultimately show ?thesis by (intro exI [of _ ?u]) (simp add: ss st8_def)
qed

text \<open>
  When no block of the order is free the call does not fail: it returns an address four blocks
  below the heap.
\<close>

lemma bud_alloc_exhausted:
  assumes rep: "bud_rep s A" and sz: "0 < z" "int z \<le> bm_heap_size (bm s)"
    and ord: "ord_for s z = Some i" and full: "free_block s A i = None"
    and low: "4 * chunk_of s i < unat (bm_heap_base (bm s))"
  shows "\<exists>s'. bud_alloc_raw s (int z) = Some (bm_heap_base (bm s) - of_nat (4 * chunk_of s i), s')"
proof -
  have wf: "bitmaps_wf s" and hw: "heap_wf s" and B: "bits_are s (spec_bits (nblk s) A)"
    using rep by (simp_all add: bud_rep_def)
  have i: "i < nord s" using ord_for_Some [OF ord] by simp
  note ch = chunk_bound [OF hw i]
  have f: "bud_find_free s (int i) = Some (-4, s)" using find_free_spec [OF wf i B] full by simp
  let ?c = "chunk_of s i" and ?hb = "bm_heap_base (bm s)"
  let ?a = "?hb - of_nat (4 * ?c)"
  have hb: "unat ?hb + nat (bm_heap_size (bm s)) < 4294967296" using hw by (simp add: heap_wf_def)
  have c4: "unat (of_nat (4 * ?c) :: u32) = 4 * ?c" "unat (of_nat ?c :: u32) = ?c"
    using low unat_bound [of ?hb] by (intro unat_of_nat_lt; linarith)+
  have ua: "unat ?a = unat ?hb - 4 * ?c" using low by (simp only: unat_sub_if' c4) simp
  have "unat (?a + of_nat ?c) = unat ?hb - 4 * ?c + ?c"
    using ua c4 low unat_bound [of ?hb] by (subst unat_word_ariths) simp
  moreover have "unat (?hb + to_u32 (bm_heap_size (bm s))) = unat ?hb + nat (bm_heap_size (bm s))"
    using hb hw by (simp add: to_u32_def unat_word_ariths heap_wf_def unsigned_of_int take_bit_int_eq_self)
  ultimately have fits: "\<not> ?hb + to_u32 (bm_heap_size (bm s)) < ?a + of_nat ?c"
    using low by (simp add: word_less_nat_alt)
  have ost: "?hb + of_nat ?c * to_u32 (-4) = ?a" by (simp add: to_u32_def algebra_simps)
  have words: "to_u32 (int ?c) = of_nat ?c" by (simp add: to_u32_def)
  have nz: "?a \<noteq> NULL" using ua low by auto
  have ll: "bm_ll (bm s) \<noteq> 0" using hw by (auto simp: heap_wf_def)
  show ?thesis
    using sz(1) bud_rndup_eq [OF wf hw sz] ord bud_get_ord_eq [OF wf hw i] f ch(2) words fits ost nz ll
    by (simp add: bud_alloc_raw_def bud_encode_def Let_def)
qed

lemma bud_rep_shape:
  assumes rep: "bud_rep s A" and sub: "A' \<subseteq> A" and sh: "shape s t"
    and bits: "bits_are t (spec_bits (nblk s) A')"
  shows "bud_rep t A'"
proof -
  note ss = shape_simps [OF sh]
  have wf: "bitmaps_wf s" and hw: "heap_wf s" using rep by (simp_all add: bud_rep_def)
  have "km t (blk_hdr t a) = of_nat (fst a)" if "a \<in> A'" for a
  proof -
    have a: "fst a < nord s" "snd a < nblk s (fst a)" "km s (blk_hdr s a) = of_nat (fst a)"
      using rep that sub by (auto simp: bud_rep_def)
    have "\<not> in_bitmaps s (blk_hdr s a)"
      unfolding blk_hdr_def by (rule hdr_not_bitmap [OF hw blk_numbers(3) [OF wf hw a(1,2)]])
    then show ?thesis using a(3) by (simp add: blk_hdr_def ss)
  qed
  moreover have "\<forall>a\<in>A'. fst a < nord t \<and> snd a < nblk t (fst a)"
    using rep sub by (auto simp: bud_rep_def ss)
  moreover have "\<forall>a\<in>A'. \<forall>b\<in>A'. a \<noteq> b \<longrightarrow> \<not> overlap a b"
    using rep sub unfolding bud_rep_def by blast
  ultimately show ?thesis
    using shape_wf [OF sh wf] shape_heap_wf [OF sh hw] bits by (simp add: bud_rep_def ss)
qed

lemma blk_decode:
  assumes rep: "bud_rep s A" and a: "(i, n) \<in> A"
  shows "bud_decode s (blk_addr s (i, n)) = Some (blk_hdr s (i, n))"
    "(ucast (km s (blk_hdr s (i, n))) :: u32) = of_nat i"
    "to_s32 (blk_addr s (i, n) - bm_heap_base (bm s)) sdiv int (chunk_of s i) = int n"
    "\<not> (blk_addr s (i, n) = NULL \<or> bm_heap_base (bm s) > blk_addr s (i, n))"
proof -
  have wf: "bitmaps_wf s" and hw: "heap_wf s" and r: "i < nord s" "n < nblk s i" "km s (blk_hdr s (i, n)) = of_nat i"
    using rep a by (auto simp: bud_rep_def)
  note num = blk_numbers [OF wf hw r(1,2)] and w = wf_bounds [OF wf r(1)] and ch = chunk_bound [OF hw r(1)]
  have ll: "bm_ll (bm s) \<noteq> 0" and hb: "0 < unat (bm_heap_base (bm s))" "bm_heap_size (bm s) \<le> INT_MAX"
    using hw by (auto simp: heap_wf_def)
  have diff: "blk_addr s (i, n) - bm_heap_base (bm s) = of_nat (chunk_of s i * n)"
    unfolding blk_addr_def fst_conv snd_conv num(1) by simp
  show "bud_decode s (blk_addr s (i, n)) = Some (blk_hdr s (i, n))"
    unfolding bud_decode_def diff using ll num(5) by (simp add: blk_hdr_def)
  have "unat (of_nat i :: u8) = i" using w(4) by (simp add: unsigned_of_nat take_bit_nat_eq_self)
  then show "(ucast (km s (blk_hdr s (i, n))) :: u32) = of_nat i"
    unfolding r(3) using w(5) by (simp add: u32_eq_iff)
  have "chunk_of s i * n < 2147483648" using num(2) hb(2) by linarith
  then have "to_s32 (of_nat (chunk_of s i * n)) = int (chunk_of s i * n)" by (rule to_s32_of_nat)
  then show "to_s32 (blk_addr s (i, n) - bm_heap_base (bm s)) sdiv int (chunk_of s i) = int n"
    unfolding diff using ch(2) by (cases "n = 0") (simp_all add: signed_divide_int_def sgn_mult)
  have "unat (bm_heap_base (bm s)) \<le> unat (blk_addr s (i, n))" using num(4) by simp
  then show "\<not> (blk_addr s (i, n) = NULL \<or> bm_heap_base (bm s) > blk_addr s (i, n))"
    using hb(1) by (auto simp: word_less_nat_alt)
qed

text \<open>Freeing removes the block; nothing but the bitmaps changes.\<close>

lemma bud_free_block:
  assumes rep: "bud_rep s A" and a: "(i, n) \<in> A"
  shows "\<exists>s'. bud_free_raw s (blk_addr s (i, n)) = Some s' \<and> bud_rep s' (A - {(i, n)}) \<and> shape s s'"
proof -
  let ?A = "A - {(i, n)}"
  have wf: "bitmaps_wf s" and hw: "heap_wf s" and B: "bits_are s (spec_bits (nblk s) A)"
    and r: "i < nord s" "n < nblk s i" and disj: "\<forall>a\<in>?A. \<not> overlap a (i, n)"
    using rep a by (auto simp: bud_rep_def)
  note dec = blk_decode [OF rep a] and w = wf_bounds [OF wf r(1)]
  have nc: "n < bcap s i" using w(1) r(2) by simp
  have chunk: "bud_get_chunk s (int i) = int (chunk_of s i)" "0 < chunk_of s i"
    using bud_get_chunk_eq [OF hw r(1)] chunk_bound(2) [OF hw r(1)] by auto
  obtain t where t: "bud_set_bit s i (int n) (of_bool False) = Some (0, t)" "shape s t"
    "bits_are t (\<lambda>j k. if j = i \<and> k = n then False else spec_bits (nblk s) A j k)"
    using set_bit_bits [OF wf r(1) nc B] .
  note st = shape_simps [OF t(2)]
  have wf_t: "bitmaps_wf t" by (rule shape_wf [OF t(2) wf])
  obtain u where u: "bud_chk_childs t (of_nat i) (of_nat n) (of_bool False) = Some (0, u)" "shape t u"
    "bits_are u (\<lambda>j l. if j < i \<and> overlap (i, n) (j, l) then False
       else if j = i \<and> l = n then False else spec_bits (nblk s) A j l)"
  proof -
    have "i < nord t" "n < nblk t i" using r by (simp_all add: st)
    from chk_childs_bits [OF wf_t this t(3), of False] that show ?thesis by blast
  qed
  note su = shape_simps [OF u(2)]
  have wf_u: "bitmaps_wf u" and ru: "i < nord u" "n < nblk u i"
    using shape_wf [OF u(2) wf_t] r by (simp_all add: st su)
  have cl: "cleared u ?A i n (Suc i)"
    unfolding cleared_def
  proof (rule iffD1 [OF bits_are_cong u(3)])
    fix j l assume "j < nord u" "l < bcap u j"
    have low: "\<not> spec_bits (nblk s) ?A j l" if "j \<le> i" "overlap (i, n) (j, l)"
    proof -
      have l: "l div 2 ^ (i - j) = n" using that by (simp add: overlap_sym [of "(i, n)"] overlap_up)
      then have "l < nblk s j" using nblk_lower r(2) that(1) by blast
      moreover have "overlap b (j, l) \<Longrightarrow> overlap b (i, n)" for b
        using overlap_up_mono [of b j l "i - j"] l that(1) by simp
      ultimately show ?thesis using disj by (auto simp: spec_bits_def)
    qed
    have split: "spec_bits (nblk s) A j l \<longleftrightarrow> spec_bits (nblk s) ?A j l \<or> overlap (i, n) (j, l)"
      using a by (auto simp: spec_bits_def)
    have up: "overlap (i, n) (j, l) \<longleftrightarrow> l = n div 2 ^ (j - i)" if "i < j" using that by (auto simp: overlap_up)
    show "(if j < i \<and> overlap (i, n) (j, l) then False
       else if j = i \<and> l = n then False else spec_bits (nblk s) A j l) =
       (spec_bits (nblk u) ?A j l \<or> (Suc i \<le> j \<and> l = n div 2 ^ (j - i)))"
      using low split up by (cases j i rule: linorder_cases) (auto simp: su st)
  qed
  let ?u = "spec_bits (nblk s) ?A i (buddy_of n)"
  have used: "bud_is_bud_used u (of_nat i) (of_nat n) = Some (of_bool ?u)"
    using buddy_bit [OF wf_u ru cl] by (simp add: su st)
  have words: "to_u32 (int n) = of_nat n" "to_s32 (of_nat i) = int i" using w(8) by (simp_all add: to_u32_def)
  have free: "bud_free_raw s (blk_addr s (i, n)) =
      (if ?u then Some u else map_option snd (bud_chk_parent u (of_nat i) (of_nat n) 0 bud_merge))"
    using dec chunk t(1) u(1) used words w(5)
    by (simp add: bud_free_raw_def Let_def split: option.splits Option.bind_splits)
  have fin: ?thesis if "bud_free_raw s (blk_addr s (i, n)) = Some v" "shape u v" "bits_are v (spec_bits (nblk s) ?A)" for v
  proof -
    have sv: "shape s v" using shape_trans [OF t(2) shape_trans [OF u(2) that(2)]] .
    then show ?thesis using bud_rep_shape [OF rep _ sv that(3)] that(1) by blast
  qed
  show ?thesis
  proof (cases ?u)
    case True
    have "bits_are u (spec_bits (nblk u) ?A)"
      by (rule cleared_stop [OF cl ru]) (use True in \<open>simp add: su st\<close>)
    then show ?thesis using fin [of u] free True by (simp add: su st)
  next
    case False
    then have bud: "buddy_of n < nblk s i" "\<forall>b\<in>?A. \<not> overlap b (i, buddy_of n)" by (auto simp: spec_bits_def)
    have "n div 2 < nblk u (Suc i) \<and> (\<forall>b\<in>?A. \<not> overlap b (Suc i, n div 2))"
      using buddy_in_range [OF bud(1) r(2)] nblk_half [of s i 1] disj bud(2) overlap_parent_buddy
      by (auto simp: su st)
    moreover have "cleared u ?A (Suc i) (n div 2) (Suc i)"
      using cl unfolding cleared_def
      by (rule iffD1 [OF bits_are_cong, rotated])
        (auto simp: div_mult2_eq [symmetric] Suc_le_eq Suc_diff_Suc simp flip: power_Suc)
    ultimately obtain v where v: "parent_loop bud_merge (bm_dep (bm u)) u (of_nat (Suc i)) (of_nat (n div 2)) 0 = Some v"
      "shape u v" "bits_are v (spec_bits (nblk u) ?A)"
      using merge_up [OF wf_u, of "Suc i" "n div 2" ?A] ru by auto
    have half: "of_nat n div 2 = (of_nat (n div 2) :: u32)" using nc w(2) by (intro of_nat_div2) simp
    have "bud_chk_parent u (of_nat i) (of_nat n) 0 bud_merge = Some (0, v)"
      using v(1) w(7) half by (simp add: bud_chk_parent_def su st add.commute)
    then show ?thesis using fin [of v] free False v by (simp add: su st)
  qed
qed

end
