(* ===== verification/Buddy_Init.thy ===== *)
theory Buddy_Init
  imports Buddy_Spec
begin

text \<open>
  The initialisation of the buddy allocator: how the meta data are laid out, that \<open>_bud_init\<close>
  always returns on a heap of at least \<open>MM_HEAP_MIN_SIZE\<close> bytes, and when the state it leaves
  stands for the empty set of allocated blocks.
\<close>

subsection \<open>The bitmap of one order\<close>

text \<open>The words of the bitmap of \<open>q\<close> blocks, and the first bit marked used beyond them.\<close>

definition bmp_words :: "nat \<Rightarrow> nat" where
  "bmp_words q = (q + 31) div 32"

definition pad_start :: "nat \<Rightarrow> nat" where
  "pad_start q = (if q mod 32 = 0 then q - 32 else q)"

lemma bmp_words_eq: "r < 32 \<Longrightarrow> bmp_words (32 * a + r) = (if r = 0 then a else Suc a)"
proof (cases r)
  case (Suc k)
  assume "r < 32"
  then have e: "32 * a + r + 31 = k + Suc a * 32" "k < 32" using Suc by simp_all
  show ?thesis unfolding bmp_words_def e(1) using Suc e(2) by (subst div_mult_self1) simp_all
qed (simp add: bmp_words_def)

lemma mod32_cases:
  fixes q :: nat
  obtains a r where "q = 32 * a + r" "r < 32" "q mod 32 = r"
proof -
  have "q = 32 * (q div 32) + q mod 32" "q mod 32 < 32" by simp_all
  then show ?thesis using that by metis
qed

lemma pad_start_eq: "0 < q \<Longrightarrow> (bmp_words q - 1) * 32 + q mod 32 = pad_start q"
  by (rule mod32_cases [of q]) (auto simp: bmp_words_eq pad_start_def diff_mult_distrib)

lemma bmp_words_bounds: "0 < q \<Longrightarrow> q \<le> 32 * bmp_words q \<and> 32 * bmp_words q < q + 32 \<and> 0 < bmp_words q"
  by (rule mod32_cases [of q]) (auto simp: bmp_words_eq)

lemma mark_pad_bits:
  assumes "bm_wf b" "unat (bmp_size b) = Suc w" "j \<le> 32"
  shows "\<exists>m'. mark_pad m b (of_nat (Suc w)) (int j) 32 = Some m'
    \<and> (\<forall>n<bm_cap b. bm_bit m' b n \<longleftrightarrow> bm_bit m b n \<or> 32 * w + j \<le> n)
    \<and> (\<forall>x. \<not> inside (bmp_base b) (bmp_bytes b) x \<longrightarrow> m' x = m x)"
  using assms(3)
proof (induction "32 - j" arbitrary: j m)
  case 0
  then have "j = 32" by simp
  then show ?case using assms(2) by (subst mark_pad.simps) (auto simp: bm_cap_def)
next
  case (Suc d)
  then have j: "j < 32" "d = 32 - Suc j" by auto
  have cap: "32 * w + j < bm_cap b" using j assms(2) by (simp add: bm_cap_def)
  have idx: "(of_nat (Suc w) - 1) * to_u32 32 + to_u32 (int j) = (of_nat (32 * w + j) :: u32)"
    by (simp add: to_u32_def)
  define m1 where "m1 = bm_put m b (32 * w + j) True"
  have set: "bitmap_set m (Some b) (of_nat (32 * w + j)) True = Some (int (32 * w + j), m1)"
    unfolding m1_def by (rule bitmap_set_eq [OF assms(1) cap])
  obtain m' where m': "mark_pad m1 b (of_nat (Suc w)) (int (Suc j)) 32 = Some m'"
    "\<forall>n<bm_cap b. bm_bit m' b n \<longleftrightarrow> bm_bit m1 b n \<or> 32 * w + Suc j \<le> n"
    "\<forall>x. \<not> inside (bmp_base b) (bmp_bytes b) x \<longrightarrow> m' x = m1 x"
    using Suc.hyps(1) [of "Suc j" m1] j by auto
  have "mark_pad m b (of_nat (Suc w)) (int j) 32 = Some m'"
    using j m'(1) by (subst mark_pad.simps) (simp only: idx set, simp add: add.commute)
  moreover have "\<forall>n<bm_cap b. bm_bit m' b n \<longleftrightarrow> bm_bit m b n \<or> 32 * w + j \<le> n"
    using m'(2) bm_bit_put [OF assms(1) cap] by (auto simp: m1_def)
  moreover have "\<forall>x. \<not> inside (bmp_base b) (bmp_bytes b) x \<longrightarrow> m' x = m x"
    using m'(3) bm_put_other [OF assms(1) cap] by (simp add: m1_def)
  ultimately show ?case by blast
qed

lemma bm_bit_zero:
  assumes "bm_wf b" "n < bm_cap b"
  shows "\<not> bm_bit (fill m (bmp_base b) (bmp_bytes b) 0) b n"
proof -
  have "ld32 (fill m (bmp_base b) (bmp_bytes b) 0) (bm_word b n) = ld32 (\<lambda>_. 0) (bm_word b n)"
    by (rule ld32_cong) (use bm_word_inside [OF assms] in \<open>simp add: fill_def\<close>)
  then show ?thesis by (simp add: bm_bit_def ld32_def)
qed

lemma init_order:
  fixes s :: "'a bud_state_scheme"
  assumes len: "i < length (bud s)" and bits: "bm_bitmap_size (bm s) = 32"
    and q: "q = D div c" "0 < q" "q \<le> 1048576" and c: "0 < c" "c < 4294967296"
    and D: "D < 2147483648" and a: "a \<noteq> 0"
  defines "b \<equiv> \<lparr>bmp_base = a, bmp_bit = 32, bmp_size = of_nat (bmp_words q)\<rparr>"
  shows "\<exists>m. bud_init_order s i (int D) (of_nat c) a = Some (s\<lparr>km := m,
      bud := (bud s)[i := (bud s ! i)\<lparr>bs_num := of_nat q, bs_frees := of_nat q, bs_bmp := b\<rparr>]\<rparr>)
    \<and> bm_wf b \<and> bmp_bytes b = 4 * bmp_words q
    \<and> (\<forall>n<bm_cap b. bm_bit m b n \<longleftrightarrow> pad_start q \<le> n)
    \<and> (\<forall>x. \<not> inside a (4 * bmp_words q) x \<longrightarrow> m x = km s x)"
proof -
  note w = bmp_words_bounds [OF q(2)]
  obtain v where v: "bmp_words q = Suc v" using w by (cases "bmp_words q") auto
  have small: "bmp_words q \<le> 1048608" using w q(3) by linarith
  have u: "unat (of_nat (bmp_words q) :: u32) = bmp_words q" using small by (intro unat_of_nat_lt) simp
    have cap: "32 * bmp_words q < 2147483648" using w q(3) by linarith
    have wf: "bm_wf b" using a cap u by (simp add: bm_wf_def b_def)
    have bytes: "bmp_bytes b = 4 * bmp_words q" using u by (simp add: b_def)
    have div1: "(of_nat D :: u32) div of_nat c = of_nat q" using D c q by (simp add: u32_div)
    have div2: "((of_nat q :: u32) + 31) div 32 = of_nat (bmp_words q)"
      using u32_div [of "q + 31" 32] q(3) by (simp add: bmp_words_def add.commute)
    have mod: "to_s32 ((of_nat q :: u32) mod 32) = int (q mod 32)"
      using u32_mod [of q 32] q(3) to_s32_of_nat [of "q mod 32"] by simp
    have bytes': "to_s32 (of_nat (bmp_words q) * 4) = int (4 * bmp_words q)"
      using small to_s32_of_nat [of "4 * bmp_words q"] by (simp add: mult.commute)
    define m0 where "m0 = fill (km s) a (4 * bmp_words q) 0"
    have set: "snd (memset (km s) a 0 (int (4 * bmp_words q))) = m0"
    proof -
      have "1 \<le> int (4 * bmp_words q)" "int (4 * bmp_words q) \<le> INT_MAX" using small w by linarith+
      from memset_eq [OF this] show ?thesis unfolding nat_int by (simp add: m0_def)
    qed
    obtain m where m: "mark_pad m0 b (of_nat (Suc v)) (int (q mod 32)) 32 = Some m"
      "\<forall>n<bm_cap b. bm_bit m b n \<longleftrightarrow> bm_bit m0 b n \<or> 32 * v + q mod 32 \<le> n"
      "\<forall>x. \<not> inside (bmp_base b) (bmp_bytes b) x \<longrightarrow> m x = m0 x"
      using mark_pad_bits [OF wf, of v "q mod 32" m0] u v by (auto simp: b_def)
    have "32 * v + q mod 32 = pad_start q" using pad_start_eq [OF q(2)] v by simp
    then have "\<forall>n<bm_cap b. bm_bit m b n \<longleftrightarrow> pad_start q \<le> n"
      using m(2) bm_bit_zero [OF wf] bytes by (simp add: m0_def b_def)
    moreover have "\<forall>x. \<not> inside a (4 * bmp_words q) x \<longrightarrow> m x = km s x"
      using m(3) bytes by (simp add: m0_def fill_def b_def)
    moreover have "bud_init_order s i (int D) (of_nat c) a = Some (s\<lparr>km := m,
      bud := (bud s)[i := (bud s ! i)\<lparr>bs_num := of_nat q, bs_frees := of_nat q, bs_bmp := b\<rparr>]\<rparr>)"
    proof -
      have mset: "snd (memset (km s) a 0 (to_s32 (of_nat (bmp_words q) * 4))) = m0"
        unfolding bytes' by (rule set)
      have cz: "(of_nat c :: u32) \<noteq> 0" using c by (simp add: u32_eq_iff unat_of_nat_lt)
      have s32: "to_s32 32 = 32" by (simp add: to_s32_def)
      show ?thesis
        using m(1) unfolding v [symmetric] b_def
        by (simp add: bud_init_order_def bits to_u32_def div1 div2 mod mset cz s32 Let_def)
    qed
    ultimately show ?thesis using wf bytes by blast
qed


subsection \<open>The bitmaps of all orders\<close>

text \<open>The blocks of order \<open>i\<close> on a heap of \<open>D\<close> bytes, and where its bitmap lies behind the first one.\<close>

definition qn :: "nat \<Rightarrow> nat \<Rightarrow> nat \<Rightarrow> nat" where
  "qn D L i = D div (L * 2 ^ i)"

definition bmp_off :: "nat \<Rightarrow> nat \<Rightarrow> nat \<Rightarrow> nat" where
  "bmp_off D L i = (\<Sum>j<i. 4 * bmp_words (qn D L j))"

definition bmp_lay :: "nat \<Rightarrow> nat \<Rightarrow> nat \<Rightarrow> nat \<Rightarrow> bitmap" where
  "bmp_lay B D L i = \<lparr>bmp_base = of_nat (B + bmp_off D L i), bmp_bit = 32,
     bmp_size = of_nat (bmp_words (qn D L i))\<rparr>"

lemma bmp_off_Suc [simp]: "bmp_off D L (Suc i) = bmp_off D L i + 4 * bmp_words (qn D L i)"
  by (simp add: bmp_off_def)

lemma bmp_off_0 [simp]: "bmp_off D L 0 = 0"
  by (simp add: bmp_off_def)

lemma bmp_off_mono: "i \<le> j \<Longrightarrow> bmp_off D L i \<le> bmp_off D L j"
  unfolding bmp_off_def by (rule sum_mono2) auto

definition orders_ok :: "nat \<Rightarrow> nat \<Rightarrow> nat \<Rightarrow> nat \<Rightarrow> bool" where
  "orders_ok B D L n \<longleftrightarrow> 0 < L \<and> D < 2147483648 \<and> 0 < B \<and> B + bmp_off D L n < 4294967296
     \<and> bmp_off D L n < 2147483648 \<and> L * 2 ^ n < 4294967296
     \<and> (\<forall>j<n. 0 < qn D L j \<and> qn D L j \<le> 1048576)"

lemma orders_okD:
  assumes "orders_ok B D L n" "i < n"
  shows "0 < qn D L i" "qn D L i \<le> 1048576" "0 < L * 2 ^ i" "L * 2 ^ i < 4294967296" "D < 2147483648"
    "B + bmp_off D L (Suc i) < 4294967296" "bmp_off D L (Suc i) < 2147483648"
    "(of_nat (B + bmp_off D L i) :: u32) \<noteq> 0"
proof -
  show "0 < qn D L i" "qn D L i \<le> 1048576" "0 < L * 2 ^ i" "D < 2147483648"
    using assms by (auto simp: orders_ok_def)
  have "L * 2 ^ i \<le> L * 2 ^ n" using assms(2) by (intro mult_le_mono2 power_increasing) auto
  also have "\<dots> < 4294967296" using assms(1) by (simp add: orders_ok_def)
  finally show "L * 2 ^ i < 4294967296" .
  have "bmp_off D L (Suc i) \<le> bmp_off D L n" using assms(2) by (intro bmp_off_mono) simp
  then show b: "B + bmp_off D L (Suc i) < 4294967296" "bmp_off D L (Suc i) < 2147483648"
    using assms(1) by (auto simp: orders_ok_def)
  then have "unat (of_nat (B + bmp_off D L i) :: u32) = B + bmp_off D L i" by (intro unat_of_nat_lt) simp
  then show "(of_nat (B + bmp_off D L i) :: u32) \<noteq> 0" using assms(1) by (auto simp: orders_ok_def)
qed

lemma init_orders:
  assumes ok: "orders_ok B D L n" and "length (bud s) = n" "bm_bitmap_size (bm s) = 32" "i \<le> n"
  shows "\<exists>m bs. bud_init_orders s [i..<n] (int D) (of_nat (L * 2 ^ i)) (of_nat (B + bmp_off D L i)) (int (bmp_off D L i))
      = Some (int (bmp_off D L n), s\<lparr>km := m, bud := bs\<rparr>)
    \<and> length bs = n
    \<and> (\<forall>j<i. bs ! j = bud s ! j)
    \<and> (\<forall>j<n. i \<le> j \<longrightarrow> bs_bmp (bs ! j) = bmp_lay B D L j \<and> bm_wf (bmp_lay B D L j)
        \<and> (\<forall>k<32 * bmp_words (qn D L j). bm_bit m (bmp_lay B D L j) k \<longleftrightarrow> pad_start (qn D L j) \<le> k))
    \<and> (\<forall>x. \<not> inside (of_nat (B + bmp_off D L i)) (bmp_off D L n - bmp_off D L i) x \<longrightarrow> m x = km s x)"
  using assms(2-4)
proof (induction "n - i" arbitrary: i s)
  case 0
  then have "i = n" by simp
  then show ?case using 0 by (intro exI [of _ "km s"] exI [of _ "bud s"]) simp
next
  case (Suc d)
  then have i: "i < n" "d = n - Suc i" by auto
  note k = orders_okD [OF ok i(1)]
  let ?q = "qn D L i" and ?o = "bmp_off D L"
  let ?a = "of_nat (B + ?o i) :: addr"
  let ?b = "bmp_lay B D L i"
  obtain m1 where m1: "bud_init_order s i (int D) (of_nat (L * 2 ^ i)) ?a = Some (s\<lparr>km := m1,
      bud := (bud s)[i := (bud s ! i)\<lparr>bs_num := of_nat ?q, bs_frees := of_nat ?q, bs_bmp := ?b\<rparr>]\<rparr>)"
    "bm_wf ?b" "bmp_bytes ?b = 4 * bmp_words ?q"
    "\<forall>k<bm_cap ?b. bm_bit m1 ?b k \<longleftrightarrow> pad_start ?q \<le> k"
    "\<forall>x. \<not> inside ?a (4 * bmp_words ?q) x \<longrightarrow> m1 x = km s x"
    using init_order [of i s ?q D "L * 2 ^ i" ?a] k Suc.prems i unfolding bmp_lay_def [symmetric]
    by (auto simp: qn_def)
  define s1 where "s1 = s\<lparr>km := m1,
      bud := (bud s)[i := (bud s ! i)\<lparr>bs_num := of_nat ?q, bs_frees := of_nat ?q, bs_bmp := ?b\<rparr>]\<rparr>"
  have s1: "length (bud s1) = n" "bm_bitmap_size (bm s1) = 32" "km s1 = m1" "bs_bmp (bud s1 ! i) = ?b"
    "\<And>j. j \<noteq> i \<Longrightarrow> bud s1 ! j = bud s ! j"
    using Suc.prems i by (simp_all add: s1_def)
  obtain m bs where IH: "bud_init_orders s1 [Suc i..<n] (int D) (of_nat (L * 2 ^ Suc i)) (of_nat (B + ?o (Suc i))) (int (?o (Suc i)))
      = Some (int (?o n), s1\<lparr>km := m, bud := bs\<rparr>)"
    "length bs = n" "\<forall>j<Suc i. bs ! j = bud s1 ! j"
    "\<forall>j<n. Suc i \<le> j \<longrightarrow> bs_bmp (bs ! j) = bmp_lay B D L j \<and> bm_wf (bmp_lay B D L j)
        \<and> (\<forall>k<32 * bmp_words (qn D L j). bm_bit m (bmp_lay B D L j) k \<longleftrightarrow> pad_start (qn D L j) \<le> k)"
    "\<forall>x. \<not> inside (of_nat (B + ?o (Suc i))) (?o n - ?o (Suc i)) x \<longrightarrow> m x = m1 x"
    using Suc.hyps(1) [of "Suc i" s1] i s1 by auto
  have bytes: "bmp_size ?b * (bmp_bit ?b div 8) = of_nat (4 * bmp_words ?q)"
    by (simp add: bmp_lay_def)
  have len: "to_s32 (to_u32 (int (?o i)) + of_nat (4 * bmp_words ?q)) = int (?o (Suc i))"
    using to_s32_of_nat [of "?o (Suc i)"] k(7) by (simp add: to_u32_def)
  have addr: "?a + of_nat (4 * bmp_words ?q) = of_nat (B + ?o (Suc i))" by simp
  have up: "[i..<n] = i # [Suc i..<n]" using i by (simp add: upt_rec)
  have dbl: "of_nat (L * 2 ^ i) * 2 = (of_nat (L * 2 ^ Suc i) :: u32)" by (simp add: mult.commute)
  have run: "bud_init_orders s [i..<n] (int D) (of_nat (L * 2 ^ i)) ?a (int (?o i)) =
      Some (int (?o n), s\<lparr>km := m, bud := bs\<rparr>)"
    unfolding up bud_init_orders.simps m1(1) s1_def [symmetric] Let_def
    using IH(1) s1(4) by (simp only: bind.bind_lunit bytes len addr dbl) (simp add: s1_def)
  have mono: "?o (Suc i) \<le> ?o n" using i by (intro bmp_off_mono) simp
  have outer: "\<not> inside (of_nat (B + ?o (Suc i))) (?o n - ?o (Suc i)) x" if "inside ?a (4 * bmp_words ?q) x" for x
  proof -
    have bnd: "?o (Suc i) \<le> 4294967296" "?o n \<le> 4294967296" using ok k(7) by (auto simp: orders_ok_def)
    show ?thesis
    proof (cases "?o n = ?o (Suc i)")
      case False
      have "apart ((0 :: addr) + of_nat (B + ?o i)) (4 * bmp_words ?q) (0 + of_nat (B + ?o (Suc i))) (?o n - ?o (Suc i))"
      proof (rule apart_offsets)
        show "B + ?o i + 4 * bmp_words ?q \<le> B + ?o (Suc i)" by simp
        show "B + ?o (Suc i) + (?o n - ?o (Suc i)) \<le> B + ?o i + 2 ^ 32" using mono bnd by simp
        show "0 < 4 * bmp_words ?q" using bmp_words_bounds [OF k(1)] by simp
        show "0 < ?o n - ?o (Suc i)" using False mono by simp
      qed
      then have "apart ?a (4 * bmp_words ?q) (of_nat (B + ?o (Suc i))) (?o n - ?o (Suc i))"
        by (simp only: add_0_left)
      then show ?thesis using that by (rule apart_inside)
    qed simp
  qed
  have "bs_bmp (bs ! j) = bmp_lay B D L j \<and> bm_wf (bmp_lay B D L j)
        \<and> (\<forall>k<32 * bmp_words (qn D L j). bm_bit m (bmp_lay B D L j) k \<longleftrightarrow> pad_start (qn D L j) \<le> k)"
    if j: "j < n" "i \<le> j" for j
  proof (cases "j = i")
    case True
    have "m x = m1 x" if "inside (bmp_base ?b) (bmp_bytes ?b) x" for x
      using IH(5) outer that m1(3) by (simp add: bmp_lay_def)
    then have "bm_bit m ?b k = bm_bit m1 ?b k" if "k < bm_cap ?b" for k
      using bm_bit_cong [OF m1(2) that] by blast
    moreover have "bm_cap ?b = 32 * bmp_words ?q" using m1(3) by (simp add: bm_cap_def)
    ultimately show ?thesis using True m1(2,4) IH(3) s1(4) by simp
  next
    case False
    then show ?thesis using IH(4) j by simp
  qed
  moreover have "m x = km s x" if "\<not> inside ?a (?o n - ?o i) x" for x
  proof -
    have "\<not> inside ?a (4 * bmp_words ?q) x" using that inside_mono [of ?a "4 * bmp_words ?q" x] mono by auto
    moreover have "\<not> inside (of_nat (B + ?o (Suc i))) (?o n - ?o (Suc i)) x"
    proof
      assume "inside (of_nat (B + ?o (Suc i))) (?o n - ?o (Suc i)) x"
      then have "inside (?a + of_nat (4 * bmp_words ?q)) (?o n - ?o (Suc i)) x" by (simp only: addr)
      then have "inside ?a (?o n - ?o i) x"
      proof (rule inside_offset)
        show "4 * bmp_words ?q + (?o n - ?o (Suc i)) \<le> ?o n - ?o i" using mono by simp
        have "?o n < 2147483648" using ok by (simp add: orders_ok_def)
        then have "?o n - ?o i \<le> 2147483648" by linarith
        also have "\<dots> \<le> 2 ^ 32" by simp
        finally show "?o n - ?o i \<le> 2 ^ 32" .
      qed
      with that show False by simp
    qed
    ultimately show ?thesis using IH(5) m1(5) by simp
  qed
  moreover have "\<forall>j<i. bs ! j = bud s ! j" using IH(3) s1(5) by simp
  ultimately show ?case using run IH(2) by blast
qed


subsection \<open>Depth and sizes\<close>

lemma get_dep_loop_spec:
  assumes "0 < L" "H < 2147483648" "i \<le> 11"
  shows "\<exists>j. get_dep_loop (int H) (int (L * 2 ^ i)) i = Some (int j) \<and> i \<le> j \<and> j \<le> 11
    \<and> (\<forall>d. i \<le> d \<and> d < j \<longrightarrow> 8 * (L * 2 ^ d) \<le> H) \<and> (j < 11 \<longrightarrow> H < 8 * (L * 2 ^ j))"
  using assms(3)
proof (induction "11 - i" arbitrary: i)
  case 0
  then have "i = 11" by simp
  then show ?case using assms(1) by (intro exI [of _ 11], subst get_dep_loop.simps) auto
next
  case (Suc d)
  define c where "c = L * 2 ^ i"
  have c: "0 < c" using assms(1) by (simp add: c_def)
  have i: "i < 11" using Suc.hyps(2) by simp
  have q: "int H sdiv int c = int (H div c)"
    using c by (cases "H = 0") (simp_all add: signed_divide_int_def sgn_if zdiv_int)
  have q8: "H div c < 8 \<longleftrightarrow> H < 8 * c" using c by (rule div_less_iff_less_mult)
  show ?case
  proof (cases "H < 8 * c")
    case True
    have "get_dep_loop (int H) (int c) i = Some (int i)"
      using c q q8 True by (subst get_dep_loop.simps) auto
    then show ?thesis using True i by (intro exI [of _ i]) (auto simp: c_def)
  next
    case False
    then have "s32_ok (int c * 2) = Some (int c * 2)"
      using assms(2) by (simp add: s32_ok_def)
    then have "s32_ok (int c * 2) = Some (int (L * 2 ^ Suc i))" by (simp add: c_def)
    then have step: "get_dep_loop (int H) (int c) i = get_dep_loop (int H) (int (L * 2 ^ Suc i)) (Suc i)"
      using c q q8 False i by (subst get_dep_loop.simps) auto
    obtain j where j: "get_dep_loop (int H) (int (L * 2 ^ Suc i)) (Suc i) = Some (int j)" "Suc i \<le> j" "j \<le> 11"
      "\<forall>d. Suc i \<le> d \<and> d < j \<longrightarrow> 8 * (L * 2 ^ d) \<le> H" "j < 11 \<longrightarrow> H < 8 * (L * 2 ^ j)"
    proof -
      have "d = 11 - Suc i" "Suc i \<le> 11" using Suc.hyps(2) i by simp_all
      from Suc.hyps(1) [OF this] that show ?thesis by blast
    qed
    have "8 * (L * 2 ^ d) \<le> H" if "i \<le> d" "d < j" for d
      using j(4) that False by (cases "d = i") (auto simp: c_def)
    then show ?thesis using step j by (intro exI [of _ j]) (auto simp: c_def)
  qed
qed

lemma get_dep_spec:
  assumes "0 < L" "H < 2147483648" "L < H"
  obtains j where "bud_get_dep (int H) (int L) = Some (int j)" "j \<le> 11"
    "\<And>d. d < j \<Longrightarrow> 8 * (L * 2 ^ d) \<le> H" "j < 11 \<Longrightarrow> H < 8 * (L * 2 ^ j)"
proof -
  obtain j where "get_dep_loop (int H) (int (L * 2 ^ 0)) 0 = Some (int j) \<and> 0 \<le> j \<and> j \<le> 11
    \<and> (\<forall>d. 0 \<le> d \<and> d < j \<longrightarrow> 8 * (L * 2 ^ d) \<le> H) \<and> (j < 11 \<longrightarrow> H < 8 * (L * 2 ^ j))"
    using get_dep_loop_spec [OF assms(1,2), of 0] by auto
  then show ?thesis using that [of j] assms by (simp add: bud_get_dep_def)
qed

lemma sdiv_nat: "int a sdiv int b = int (a div b)"
  by (cases "a = 0"; cases "b = 0") (simp_all add: signed_divide_int_def sgn_if zdiv_int)

lemma real_size_loop_eq:
  assumes "bm_bitmap_size b = 32" "32 \<le> L" "H < 2147483648"
  shows "L * 2 ^ (i + k) < 2147483648 \<Longrightarrow> Z < 2147483648 \<Longrightarrow>
    (\<Sum>j\<in>{i..<i + k}. 4 * bmp_words (qn H L j)) \<le> Z \<Longrightarrow>
    real_size_loop b (int H) k (int (L * 2 ^ i)) (int Z) =
      Some (int (Z - (\<Sum>j\<in>{i..<i + k}. 4 * bmp_words (qn H L j))))"
proof (induction k arbitrary: i Z)
  case 0
  then show ?case by simp
next
  case (Suc k)
  define c where "c = L * 2 ^ i"
  define q where "q = qn H L i"
  define w where "w = bmp_words q"
  define R where "R = (\<Sum>j\<in>{Suc i..<Suc i + k}. 4 * bmp_words (qn H L j))"
  have split: "(\<Sum>j\<in>{i..<i + Suc k}. 4 * bmp_words (qn H L j)) = 4 * w + R"
    unfolding w_def R_def q_def by (subst sum.atLeast_Suc_lessThan) simp_all
  have c: "0 < c" using assms(2) by (simp add: c_def)
  have dv: "int H sdiv int c = int q" unfolding q_def qn_def c_def by (rule sdiv_nat)
  have "q \<le> H div 32"
    unfolding q_def qn_def using assms(2) by (intro div_le_mono2) (auto intro: order_trans)
  then have qb: "q < 67108864" using assms(3) by linarith
  have w: "int (q + 31) sdiv int 32 * 4 = int (4 * w)"
    unfolding sdiv_nat w_def bmp_words_def by simp
  have wb: "4 * w < 2147483648" using qb unfolding w_def bmp_words_def by linarith
  have "L * 2 ^ Suc i \<le> L * 2 ^ (i + Suc k)" by (intro mult_le_mono2 power_increasing) auto
  also have "\<dots> < 2147483648" by (rule Suc.prems(1))
  finally have "c * 2 < 2147483648" by (simp add: c_def)
  then have ok: "s32_ok (int q + (int 32 - 1)) = Some (int (q + 31))" "s32_ok (int (4 * w)) = Some (int (4 * w))"
    "s32_ok (int c * 2) = Some (int c * 2)" using qb wb by (auto simp: s32_ok_def)
  have ll: "int c * 2 = int (L * 2 ^ Suc i)" by (simp add: c_def)
  have le: "4 * w \<le> Z" "R \<le> Z - 4 * w" using Suc.prems(3) split by linarith+
  have sub: "to_s32 (to_u32 (int Z) - to_u32 (int (4 * w))) = int (Z - 4 * w)"
  proof -
    have "to_u32 (int Z) - to_u32 (int (4 * w)) = of_nat (Z - 4 * w)" using le(1) by (simp add: to_u32_def of_nat_diff)
    then show ?thesis using Suc.prems(2) by simp
  qed
  have IH: "real_size_loop b (int H) k (int (L * 2 ^ Suc i)) (int (Z - 4 * w)) = Some (int (Z - 4 * w - R))"
    unfolding R_def by (rule Suc.IH) (use Suc.prems le in \<open>auto simp: R_def\<close>)
  have bits: "int (unat (bm_bitmap_size b)) = int 32" by (simp add: assms(1))
  have "real_size_loop b (int H) (Suc k) (int c) (int Z) = Some (int (Z - 4 * w - R))"
    unfolding real_size_loop.simps Let_def bits dv ok(1) bind.bind_lunit w ok(2,3) sub
    unfolding ll IH using c by simp
  then show ?case unfolding split c_def [symmetric] by simp
qed


lemma bmp_off_bound:
  assumes "n \<le> 11"
  shows "bmp_off D L n \<le> 2 * (D div L) + 44"
proof -
  have "bmp_off D L n \<le> (\<Sum>j<n. D div L div 8 + 4)"
    unfolding bmp_off_def
  proof (rule sum_mono)
    fix j
    have "qn D L j \<le> D div L" unfolding qn_def div_mult2_eq by (rule div_le_dividend)
    then show "4 * bmp_words (qn D L j) \<le> D div L div 8 + 4" unfolding bmp_words_def by linarith
  qed
  also have "\<dots> = n * (D div L div 8 + 4)" by simp
  also have "\<dots> \<le> 11 * (D div L div 8 + 4)" using assms by (rule mult_le_mono1)
  also have "\<dots> \<le> 2 * (D div L) + 44"
  proof -
    have "11 * (x div 8 + 4) \<le> 2 * x + 44" for x :: nat
    proof -
      have "8 * (x div 8) \<le> x" by simp
      then show ?thesis by simp
    qed
    then show ?thesis .
  qed
  finally show ?thesis .
qed

lemma bmp_off_mono2: "n \<le> n' \<Longrightarrow> D \<le> D' \<Longrightarrow> bmp_off D L n \<le> bmp_off D' L n'"
proof -
  assume n: "n \<le> n'" and D: "D \<le> D'"
  have "bmp_off D L n \<le> bmp_off D' L n"
    unfolding bmp_off_def qn_def bmp_words_def using D by (intro sum_mono mult_le_mono2 div_le_mono add_right_mono)
  also have "\<dots> \<le> bmp_off D' L n'" using n by (rule bmp_off_mono)
  finally show ?thesis .
qed

text \<open>The bytes left for the heap when \<open>j\<close> orders were reckoned with.\<close>

definition data_size :: "nat \<Rightarrow> nat \<Rightarrow> nat" where
  "data_size H j = H - 24 * j - bmp_off H 2048 j - H div 2048"

lemma data_size_bounds:
  assumes "131072 \<le> H" "j \<le> 11"
  shows "24 * j + bmp_off H 2048 j + H div 2048 + data_size H j = H" "130560 \<le> data_size H j"
proof -
  have "bmp_off H 2048 j \<le> 2 * (H div 2048) + 44" using assms(2) by (rule bmp_off_bound)
  moreover have "64 \<le> H div 2048" "2048 * (H div 2048) \<le> H" using assms(1) by linarith+
  ultimately have "24 * j + bmp_off H 2048 j + H div 2048 + 130560 \<le> H" using assms by linarith
  then show "24 * j + bmp_off H 2048 j + H div 2048 + data_size H j = H" "130560 \<le> data_size H j"
    by (simp_all add: data_size_def)
qed

lemma real_size_eq:
  assumes "bm_bitmap_size (bm s) = 32" "bm_ll (bm s) = 2048" "131072 \<le> H" "H < 2147483648"
  obtains j where "bud_get_real_size s (int H) 2048 = Some (int (data_size H j))" "j \<le> 11"
    "j < 11 \<longrightarrow> H < 8 * (2048 * 2 ^ j)" "\<forall>d<j. 8 * (2048 * 2 ^ d) \<le> H"
proof -
  obtain j where j: "bud_get_dep (int H) (int 2048) = Some (int j)" "j \<le> 11"
    "j < 11 \<Longrightarrow> H < 8 * (2048 * 2 ^ j)" "\<And>d. d < j \<Longrightarrow> 8 * (2048 * 2 ^ d) \<le> H"
    using get_dep_spec [of 2048 H] assms by auto
  note d = data_size_bounds [OF assms(3) j(2)]
  have "(2::nat) ^ (0 + j) \<le> 2 ^ 11" using j(2) by (intro power_increasing) auto
  then have p: "2048 * 2 ^ (0 + j) < (2147483648 :: nat)" by simp
  have T: "bmp_off H 2048 j = (\<Sum>i\<in>{0..<0 + j}. 4 * bmp_words (qn H 2048 i))"
    by (simp add: bmp_off_def lessThan_atLeast0)
  have loop: "real_size_loop (bm s) (int H) j (int (2048 * 2 ^ 0)) (int (H - 24 * j)) =
      Some (int (H - 24 * j - bmp_off H 2048 j))"
    unfolding T by (rule real_size_loop_eq [OF assms(1) _ assms(4) p]) (use d assms(4) in \<open>auto simp: T\<close>)
  have sz: "to_s32 (to_u32 (int H) - 24 * to_u32 (int j)) = int (H - 24 * j)"
  proof -
    have "to_u32 (int H) - 24 * to_u32 (int j) = of_nat (H - 24 * j)"
      using d(1) by (simp add: to_u32_def of_nat_diff)
    then show ?thesis using assms(4) by simp
  qed
  have q: "to_u32 (int H) div 2048 = of_nat (H div 2048)"
    using u32_div [of H 2048] assms(4) by (simp add: to_u32_def)
  have fin: "to_s32 (to_u32 (int (H - 24 * j - bmp_off H 2048 j)) - of_nat (H div 2048)) = int (data_size H j)"
  proof -
    have "to_u32 (int (H - 24 * j - bmp_off H 2048 j)) - of_nat (H div 2048) = of_nat (data_size H j)"
      using d(1) by (simp add: to_u32_def data_size_def of_nat_diff)
    moreover have "data_size H j < 2147483648" using d(1) assms(4) by simp
    ultimately show ?thesis by simp
  qed
  have s32: "to_s32 2048 = int 2048" by (simp add: to_s32_def)
  have "bud_get_real_size s (int H) 2048 = Some (int (data_size H j))"
    using assms(3) j(1) loop sz q fin
    by (simp add: bud_get_real_size_def assms(2) s32)
  then show ?thesis using that j by blast
qed

subsection \<open>The state after the initialisation\<close>

text \<open>
  \<open>_bud_init\<close> leaves the depth, the sizes and the addresses that the layout gives, and in the
  bitmap of order \<open>i\<close> the bits from \<open>pad_start\<close> on.
\<close>

definition init_state :: "nat \<Rightarrow> nat \<Rightarrow> nat \<Rightarrow> 'a bud_state_scheme \<Rightarrow> bool" where
  "init_state B0 D n s \<longleftrightarrow> nord s = n \<and> bm_dep (bm s) = of_nat n \<and> bm_ll (bm s) = 2048
     \<and> bm_ul (bm s) = 2048 * 2 ^ (n - 1) \<and> bm_heap_size (bm s) = int D
     \<and> bm_hdr_base (bm s) = of_nat (B0 + 24 * n + bmp_off D 2048 n)
     \<and> bm_heap_base (bm s) = of_nat (B0 + 24 * n + bmp_off D 2048 n + D div 2048)
     \<and> (\<forall>i<n. bmp_of s i = bmp_lay (B0 + 24 * n) D 2048 i \<and> bm_wf (bmp_of s i)
          \<and> (\<forall>k<bcap s i. bbit s i k \<longleftrightarrow> pad_start (qn D 2048 i) \<le> k))"


text \<open>The sizes it computes fit into the memory it is given.\<close>

lemma init_sizes:
  assumes s: "bm_bitmap_size (bm s) = 32" "bm_ll (bm s) = 2048" and H: "131072 \<le> H" "H < 2147483648"
  obtains j D n where "bud_get_real_size s (int H) 2048 = Some (int D)" "j \<le> 11" "D = data_size H j"
    "\<forall>d<j. 8 * (2048 * 2 ^ d) \<le> H" "j < 11 \<longrightarrow> H < 8 * (2048 * 2 ^ j)" "130560 \<le> D" "D < 2147483648"
    "bud_get_dep (int D) 2048 = Some (int n)" "0 < n" "n \<le> 11" "\<forall>d<n. 8 * (2048 * 2 ^ d) \<le> D"
    "n < 11 \<longrightarrow> D < 8 * (2048 * 2 ^ n)" "24 * n + bmp_off D 2048 n + D div 2048 + D \<le> H"
proof -
  obtain j where j: "bud_get_real_size s (int H) 2048 = Some (int (data_size H j))" "j \<le> 11"
    "j < 11 \<longrightarrow> H < 8 * (2048 * 2 ^ j)" "\<forall>d<j. 8 * (2048 * 2 ^ d) \<le> H"
    using real_size_eq [OF s H] by blast
  define D where "D = data_size H j"
  note Db = data_size_bounds [OF H(1) j(2), folded D_def]
  have DH: "D \<le> H" "D < 2147483648" using Db(1) H(2) by linarith+
  obtain n where n: "bud_get_dep (int D) (int 2048) = Some (int n)" "n \<le> 11"
    "\<And>d. d < n \<Longrightarrow> 8 * (2048 * 2 ^ d) \<le> D" "n < 11 \<Longrightarrow> D < 8 * (2048 * 2 ^ n)"
    using get_dep_spec [of 2048 D] Db(2) DH by auto
  have n0: "0 < n" using n(4) Db(2) by (cases n) auto
  have nj: "n \<le> j"
  proof (rule ccontr)
    assume "\<not> n \<le> j"
    then have "j < 11" "8 * (2048 * 2 ^ j) \<le> D" using n(2,3) by auto
    then show False using j(3) DH by simp
  qed
  have "bmp_off D 2048 n \<le> bmp_off H 2048 j" by (rule bmp_off_mono2 [OF nj DH(1)])
  moreover have "D div 2048 \<le> H div 2048" using DH(1) by (rule div_le_mono)
  ultimately have "24 * n + bmp_off D 2048 n + D div 2048 + D \<le> H" using Db(1) nj by linarith
  then show ?thesis using that [of D j n] j n n0 Db(2) DH(2) by (simp add: D_def)
qed

lemma init_orders_ok:
  assumes base: "base \<noteq> NULL" "unat base + H < 4294967296" and n: "n \<le> 11" "\<forall>d<n. 8 * (2048 * 2 ^ d) \<le> D"
    and D: "24 * n + bmp_off D 2048 n + D div 2048 + D \<le> H" "H < 2147483648"
  shows "orders_ok (unat base + 24 * n) D 2048 n"
proof -
  have "2 ^ n \<le> (2::nat) ^ 11" using n(1) by (intro power_increasing) auto
  then have "2048 * 2 ^ n < (4294967296 :: nat)" by simp
  moreover have "0 < unat base" using base(1) by (simp add: unat_gt_0)
  moreover have "0 < qn D 2048 i \<and> qn D 2048 i \<le> 1048576" if "i < n" for i
  proof -
    have le: "2048 * 2 ^ i \<le> D" using n(2) that by fastforce
    have "qn D 2048 i \<le> D div 2048" unfolding qn_def div_mult2_eq by (rule div_le_dividend)
    then show ?thesis using le D by (simp add: qn_def div_greater_zero_iff)
  qed
  ultimately show ?thesis using D base(2) by (auto simp: orders_ok_def)
qed

text \<open>The state it leaves; \<open>m\<close> and \<open>bs\<close> are the memory and the bitmaps the loop over the orders makes.\<close>

definition init_done :: "addr \<Rightarrow> nat \<Rightarrow> nat \<Rightarrow> nat \<Rightarrow> mem \<Rightarrow> bitmaps list \<Rightarrow> 'a bud_state_scheme \<Rightarrow> 'a bud_state_scheme" where
  "init_done base H D n m bs s =
     (let hdr = unat base + 24 * n + bmp_off D 2048 n;
          meta = 24 * n + bmp_off D 2048 n + D div 2048
      in s\<lparr>km := list_init_head (list_init_head m (lz_frees (lazy s))) (lz_inuses (lazy s)),
           bm := (bm s)\<lparr>bm_org_size := int H, bm_heap_meta_base := base, bm_ll := 2048, bm_bitmap_size := 32,
             bm_heap_size := int D, bm_dep := of_nat n, bm_ul := 2048 * 2 ^ (n - 1), bm_hdr_base := of_nat hdr,
             bm_hdr_size := of_nat (D div 2048), bm_heap_base := of_nat (hdr + D div 2048),
             bm_heap_meta_size := int meta, bm_rmd_size := int (H - (meta + D))\<rparr>,
           bud := bs, lazy := (lazy s)\<lparr>lz_batch := 31, lz_wmk := 186\<rparr>\<rparr>)"

lemma init_done_simps [simp]:
  "km (init_done base H D n m bs s) = list_init_head (list_init_head m (lz_frees (lazy s))) (lz_inuses (lazy s))"
  "bud (init_done base H D n m bs s) = bs"
  "lz_frees (lazy (init_done base H D n m bs s)) = lz_frees (lazy s)"
  "lz_inuses (lazy (init_done base H D n m bs s)) = lz_inuses (lazy s)"
  "mmm (init_done base H D n m bs s) = mmm s"
  "bud_state.more (init_done base H D n m bs s) = bud_state.more s"
  "bm_dep (bm (init_done base H D n m bs s)) = of_nat n" "bm_ll (bm (init_done base H D n m bs s)) = 2048"
  "bm_ul (bm (init_done base H D n m bs s)) = 2048 * 2 ^ (n - 1)" "bm_heap_size (bm (init_done base H D n m bs s)) = int D"
  "bm_hdr_base (bm (init_done base H D n m bs s)) = of_nat (unat base + 24 * n + bmp_off D 2048 n)"
  "bm_heap_base (bm (init_done base H D n m bs s)) = of_nat (unat base + 24 * n + bmp_off D 2048 n + D div 2048)"
  by (simp_all add: init_done_def Let_def)

lemma bud_init_eval:
  assumes base: "base \<noteq> NULL" and H: "131072 \<le> H" "H < 2147483648" and n: "0 < n" "n \<le> 11" and D: "130560 \<le> D"
    and meta: "24 * n + bmp_off D 2048 n + D div 2048 + D \<le> H"
    and s1: "s1 = s\<lparr>bm := (bm s)\<lparr>bm_org_size := int H, bm_heap_meta_base := base, bm_ll := 2048, bm_bitmap_size := 32\<rparr>\<rparr>"
    and s2: "s2 = s1\<lparr>bm := (bm s1)\<lparr>bm_heap_size := int D, bm_dep := of_nat n, bm_ul := 2048 * 2 ^ (n - 1)\<rparr>,
      bud := replicate n \<lparr>bs_ord = 0, bs_num = 0, bs_frees = 0, bs_bmp = \<lparr>bmp_base = 0, bmp_bit = 0, bmp_size = 0\<rparr>\<rparr>\<rparr>"
    and real_size: "bud_get_real_size s1 (int H) 2048 = Some (int D)" and dep: "bud_get_dep (int D) 2048 = Some (int n)"
    and run: "bud_init_orders s2 [0..<n] (int D) 2048 (base + 24 * of_nat n) 0 = Some (int (bmp_off D 2048 n), s2\<lparr>km := m, bud := bs\<rparr>)"
    and b0: "bmp_base (bs_bmp (bs ! 0)) = of_nat (unat base + 24 * n)"
  shows "bud_init_raw s base (int H) 2048 =
      Some (int (H - (24 * n + bmp_off D 2048 n + D div 2048 + D)), init_done base H D n m bs s)"
proof -
  define off where "off = bmp_off D 2048"
  have D2: "D < 2147483648" using meta H(2) by linarith
  have ll: "to_u32 2048 = 2048" "to_s32 2048 = 2048" by (simp_all add: to_u32_def to_s32_def)
  obtain v where v: "n = Suc v" using n(1) by (cases n) auto
  define p :: u32 where "p = 2 ^ (n - 1)"
  have pw: "power 2 (to_s32 (of_nat n - 1)) = Some p"
    using power_2 [of v] n(2) by (simp add: v p_def)
  have udn: "unat (of_nat n :: u32) = n" using n(2) by (intro unat_of_nat_lt) simp
  define hdr where "hdr = unat base + 24 * n + off n"
  have hdr: "bmp_base (bs_bmp (bs ! 0)) + to_u32 (int (off n)) = of_nat hdr"
    by (simp add: b0 hdr_def to_u32_def)
  have dq: "to_u32 (int D) div 2048 = of_nat (D div 2048)"
    using u32_div [of D 2048] D2 by (simp add: to_u32_def)
  have meta_eq: "to_s32 (of_nat hdr + of_nat (D div 2048) - base) = int (24 * n + off n + D div 2048)"
  proof -
    have "of_nat hdr + of_nat (D div 2048) - base = (of_nat (24 * n + off n + D div 2048) :: u32)"
      by (simp add: hdr_def)
    then show ?thesis using meta H(2) by (simp only: off_def, intro to_s32_of_nat) linarith
  qed
  define used where "used = 24 * n + off n + D div 2048 + D"
  have ok1: "s32_ok (int D + int (24 * n + off n + D div 2048)) = Some (int used)"
    using meta H(2) by (simp add: s32_ok_def used_def off_def)
  have ok2: "s32_ok (int H - int used) = Some (int (H - used))"
    using meta H(2) by (simp add: s32_ok_def used_def off_def of_nat_diff)
  have pages: "s32_ok (int D sdiv 2048 - 1) = Some (int (D div 2048) - 1)" "min (int (D div 2048) - 1) 31 = 31"
    using sdiv_nat [of D 2048] D D2 by (simp_all add: s32_ok_def)
  have ok186: "s32_ok 186 = Some 186" by (simp add: s32_ok_def)
  have dw: "to_u32 (int n) = of_nat n" by (simp add: to_u32_def)
  have f: "bm_heap_size (bm s2) = int D" "bm_ll (bm s2) = 2048" "lazy s2 = lazy s" "bm_ll (bm s1) = 2048"
    by (simp_all add: s2 s1)
  have s2p: "s2 = s1\<lparr>bm := (bm s1)\<lparr>bm_heap_size := int D, bm_dep := of_nat n, bm_ul := 2048 * p\<rparr>,
      bud := replicate n \<lparr>bs_ord = 0, bs_num = 0, bs_frees = 0, bs_bmp = \<lparr>bmp_base = 0, bmp_bit = 0, bmp_size = 0\<rparr>\<rparr>\<rparr>"
    by (simp add: s2 p_def)
  have fin: "init_done base H D n m bs s = s2\<lparr>bm := (bm s2)\<lparr>bm_hdr_base := of_nat hdr, bm_hdr_size := of_nat (D div 2048),
      bm_heap_base := of_nat hdr + of_nat (D div 2048), bm_heap_meta_size := int (24 * n + off n + D div 2048),
      bm_rmd_size := int (H - used)\<rparr>, lazy := (lazy s)\<lparr>lz_batch := 31, lz_wmk := 186\<rparr>, bud := bs,
      km := list_init_head (list_init_head m (lz_frees (lazy s))) (lz_inuses (lazy s))\<rparr>"
    by (simp add: init_done_def Let_def s2 s1 hdr_def off_def used_def)
  show ?thesis
    using H(1) n(1)
    unfolding bud_init_raw_def Let_def ll s1 [symmetric] f(4) fin off_def [symmetric] used_def [symmetric]
    by (simp add: base real_size dep dw pw udn f(4) s2p [symmetric] run [folded off_def] hdr dq f(1-3) meta_eq ok1 ok2 pages ok186
        del: of_nat_mult of_nat_add)
qed

lemma bud_init_run:
  assumes base: "base \<noteq> NULL" "unat base + H < 4294967296" and H: "131072 \<le> H" "H < 2147483648"
  obtains j D n m bs where "bud_init_raw s base (int H) 2048 =
      Some (int (H - (24 * n + bmp_off D 2048 n + D div 2048 + D)), init_done base H D n m bs s)"
    "24 * n + bmp_off D 2048 n + D div 2048 + D \<le> H" "130560 \<le> D" "0 < n" "n \<le> 11"
    "\<forall>d<n. 8 * (2048 * 2 ^ d) \<le> D" "n < 11 \<longrightarrow> D < 8 * (2048 * 2 ^ n)"
    "j \<le> 11" "D = data_size H j" "\<forall>d<j. 8 * (2048 * 2 ^ d) \<le> H" "j < 11 \<longrightarrow> H < 8 * (2048 * 2 ^ j)"
    "length bs = n" "\<forall>i<n. bs_bmp (bs ! i) = bmp_lay (unat base + 24 * n) D 2048 i \<and> bm_wf (bmp_lay (unat base + 24 * n) D 2048 i)
        \<and> (\<forall>k<32 * bmp_words (qn D 2048 i). bm_bit m (bmp_lay (unat base + 24 * n) D 2048 i) k \<longleftrightarrow> pad_start (qn D 2048 i) \<le> k)"
    "\<forall>x. \<not> inside base H x \<longrightarrow> m x = km s x"
proof -
  define s1 where "s1 = s\<lparr>bm := (bm s)\<lparr>bm_org_size := int H, bm_heap_meta_base := base,
            bm_ll := 2048, bm_bitmap_size := 32\<rparr>\<rparr>"
  have s1: "bm_bitmap_size (bm s1) = 32" "bm_ll (bm s1) = 2048" by (simp_all add: s1_def)
  obtain j D n where j: "bud_get_real_size s1 (int H) 2048 = Some (int D)" "j \<le> 11" "D = data_size H j"
      "\<forall>d<j. 8 * (2048 * 2 ^ d) \<le> H" "j < 11 \<longrightarrow> H < 8 * (2048 * 2 ^ j)" and D: "130560 \<le> D" "D < 2147483648"
    and n: "bud_get_dep (int D) 2048 = Some (int n)" "0 < n" "n \<le> 11" "\<forall>d<n. 8 * (2048 * 2 ^ d) \<le> D"
      "n < 11 \<longrightarrow> D < 8 * (2048 * 2 ^ n)" and meta: "24 * n + bmp_off D 2048 n + D div 2048 + D \<le> H"
    by (rule init_sizes [OF s1 H])
  define off where "off = bmp_off D 2048"
  let ?B = "unat base + 24 * n"
  note ok = init_orders_ok [OF base n(3,4) meta H(2)]
  let ?z = "\<lparr>bs_ord = 0, bs_num = 0, bs_frees = 0, bs_bmp = \<lparr>bmp_base = 0, bmp_bit = 0, bmp_size = 0\<rparr>\<rparr>"
  define s2 where "s2 = s1\<lparr>bm := (bm s1)\<lparr>bm_heap_size := int D, bm_dep := of_nat n,
      bm_ul := 2048 * 2 ^ (n - 1)\<rparr>, bud := replicate n ?z\<rparr>"
  have base_n: "base + 24 * of_nat n = of_nat (?B + bmp_off D 2048 0)" by simp
  obtain m bs where run: "bud_init_orders s2 [0..<n] (int D) 2048 (base + 24 * of_nat n) 0 =
      Some (int (off n), s2\<lparr>km := m, bud := bs\<rparr>)" and bs: "length bs = n"
    "\<forall>i<n. bs_bmp (bs ! i) = bmp_lay ?B D 2048 i \<and> bm_wf (bmp_lay ?B D 2048 i)
        \<and> (\<forall>k<32 * bmp_words (qn D 2048 i). bm_bit m (bmp_lay ?B D 2048 i) k \<longleftrightarrow> pad_start (qn D 2048 i) \<le> k)"
    and frame: "\<forall>x. \<not> inside (of_nat ?B) (off n) x \<longrightarrow> m x = km s2 x"
    using init_orders [OF ok, of s2 0] unfolding base_n
    by (auto simp: s2_def s1_def off_def)
  have "m x = km s x" if "\<not> inside base H x" for x
  proof -
    have "\<not> inside (of_nat ?B) (off n) x"
      using that meta H(2) inside_sub [of "of_nat ?B" "off n" x base "24 * n" H] by (auto simp: off_def)
    then show ?thesis using frame by (simp add: s2_def s1_def)
  qed
  then have keep: "\<forall>x. \<not> inside base H x \<longrightarrow> m x = km s x" by blast
  have "bud_init_raw s base (int H) 2048 =
      Some (int (H - (24 * n + bmp_off D 2048 n + D div 2048 + D)), init_done base H D n m bs s)"
    by (rule bud_init_eval [OF base(1) H n(2,3) D(1) meta s1_def s2_def j(1) n(1) run [unfolded off_def]])
      (use bs n(2) in \<open>simp add: bmp_lay_def\<close>)
  then show ?thesis by (rule that [OF _ meta D(1) n(2-5) j(2-5) bs keep])
qed

text \<open>The bitmaps lie in the memory the allocator was given.\<close>

lemma lay_inside:
  assumes base: "base \<noteq> NULL" "unat base + H < 4294967296" and n: "n \<le> 11" "\<forall>d<n. 8 * (2048 * 2 ^ d) \<le> D"
    and meta: "24 * n + bmp_off D 2048 n + D div 2048 + D \<le> H" "H < 2147483648" and i: "i < n"
  shows "bmp_bytes (bmp_lay (unat base + 24 * n) D 2048 i) = 4 * bmp_words (qn D 2048 i)"
    "inside (bmp_base (bmp_lay (unat base + 24 * n) D 2048 i)) (bmp_bytes (bmp_lay (unat base + 24 * n) D 2048 i)) x
      \<Longrightarrow> inside base H x"
proof -
  let ?b = "bmp_lay (unat base + 24 * n) D 2048 i"
  note ok = init_orders_ok [OF base n meta]
  have "bmp_words (qn D 2048 i) \<le> qn D 2048 i + 1"
    using bmp_words_bounds [OF orders_okD(1) [OF ok i]] by linarith
  then have "bmp_words (qn D 2048 i) < 4294967296" using orders_okD(2) [OF ok i] by simp
  then show sz: "bmp_bytes ?b = 4 * bmp_words (qn D 2048 i)" by (simp add: bmp_lay_def unat_of_nat_lt)
  assume x: "inside (bmp_base ?b) (bmp_bytes ?b) x"
  show "inside base H x"
  proof (rule inside_sub [OF x])
    show "bmp_base ?b = base + of_nat (24 * n + bmp_off D 2048 i)" by (simp add: bmp_lay_def)
    have "bmp_off D 2048 (Suc i) \<le> bmp_off D 2048 n" using i by (intro bmp_off_mono) simp
    then show "24 * n + bmp_off D 2048 i + bmp_bytes ?b \<le> H" using meta by (simp add: sz)
    show "H \<le> 2 ^ 32" using meta(2) by simp
  qed
qed

lemma init_done_state:
  assumes base: "base \<noteq> NULL" "unat base + H < 4294967296" and H: "H < 2147483648"
    and heads: "apart (lz_frees (lazy s)) 8 base H" "apart (lz_inuses (lazy s)) 8 base H"
    and n: "0 < n" "n \<le> 11" "\<forall>d<n. 8 * (2048 * 2 ^ d) \<le> D" and meta: "24 * n + bmp_off D 2048 n + D div 2048 + D \<le> H"
    and bs: "length bs = n"
      "\<forall>i<n. bs_bmp (bs ! i) = bmp_lay (unat base + 24 * n) D 2048 i \<and> bm_wf (bmp_lay (unat base + 24 * n) D 2048 i)
        \<and> (\<forall>k<32 * bmp_words (qn D 2048 i). bm_bit m (bmp_lay (unat base + 24 * n) D 2048 i) k \<longleftrightarrow> pad_start (qn D 2048 i) \<le> k)"
  shows "init_state (unat base) D n (init_done base H D n m bs s)"
proof -
  let ?B = "unat base + 24 * n" and ?s = "init_done base H D n m bs s"
  have s3: "nord ?s = n" "\<And>i. i < n \<Longrightarrow> bmp_of ?s i = bmp_lay ?B D 2048 i"
    using bs by (simp_all add: nord_def bmp_of_def)
  have bit: "bbit ?s i k \<longleftrightarrow> pad_start (qn D 2048 i) \<le> k" if i: "i < n" and k: "k < bcap ?s i" for i k
  proof -
    let ?b = "bmp_lay ?B D 2048 i"
    have wf: "bm_wf ?b" using bs(2) i by simp
    note L = lay_inside [OF base n(2,3) meta H i]
    have "km ?s x = m x" if "inside (bmp_base ?b) (bmp_bytes ?b) x" for x
    proof -
      have "inside base H x" by (rule L(2) [OF that])
      then have "\<not> inside (lz_frees (lazy s)) 8 x" "\<not> inside (lz_inuses (lazy s)) 8 x"
        using heads apart_inside by blast+
      then show ?thesis by (simp add: list_init_head_def Let_def set_next_other set_prev_other)
    qed
    then have "bm_bit (km ?s) ?b k = bm_bit m ?b k"
      using k i by (intro bm_bit_cong [OF wf]) (simp_all add: bcap_def s3)
    moreover have "k < 32 * bmp_words (qn D 2048 i)" using k i L(1) by (simp add: bcap_def s3 bm_cap_def)
    ultimately show ?thesis using bs(2) i s3 by (simp add: bbit_def)
  qed
  show ?thesis using s3 bit bs(2) unfolding init_state_def by simp
qed

lemma bud_init_state:
  assumes base: "base \<noteq> NULL" "unat base + H < 4294967296"
    and H: "131072 \<le> H" "H < 2147483648"
    and heads: "apart (lz_frees (lazy s)) 8 base H" "apart (lz_inuses (lazy s)) 8 base H"
  shows "\<exists>s' rmd D n. bud_init_raw s base (int H) 2048 = Some (int rmd, s') \<and> init_state (unat base) D n s'
    \<and> 24 * n + bmp_off D 2048 n + D div 2048 + D + rmd = H \<and> 130560 \<le> D \<and> 0 < n \<and> n \<le> 11
    \<and> (\<forall>d<n. 8 * (2048 * 2 ^ d) \<le> D) \<and> (n < 11 \<longrightarrow> D < 8 * (2048 * 2 ^ n))
    \<and> (\<exists>j\<le>11. D = data_size H j \<and> (\<forall>d<j. 8 * (2048 * 2 ^ d) \<le> H) \<and> (j < 11 \<longrightarrow> H < 8 * (2048 * 2 ^ j)))
    \<and> mmm s' = mmm s \<and> bud_state.more s' = bud_state.more s \<and> (\<forall>x. \<not> inside base H x \<longrightarrow> \<not> inside (lz_frees (lazy s)) 8 x
        \<longrightarrow> \<not> inside (lz_inuses (lazy s)) 8 x \<longrightarrow> km s' x = km s x)"
proof -
  obtain j D n m bs where run: "bud_init_raw s base (int H) 2048 =
      Some (int (H - (24 * n + bmp_off D 2048 n + D div 2048 + D)), init_done base H D n m bs s)"
    and meta: "24 * n + bmp_off D 2048 n + D div 2048 + D \<le> H" and D: "130560 \<le> D" and n: "0 < n" "n \<le> 11"
    "\<forall>d<n. 8 * (2048 * 2 ^ d) \<le> D" "n < 11 \<longrightarrow> D < 8 * (2048 * 2 ^ n)"
    and j: "j \<le> 11" "D = data_size H j" "\<forall>d<j. 8 * (2048 * 2 ^ d) \<le> H" "j < 11 \<longrightarrow> H < 8 * (2048 * 2 ^ j)"
    and bs: "length bs = n" "\<forall>i<n. bs_bmp (bs ! i) = bmp_lay (unat base + 24 * n) D 2048 i \<and> bm_wf (bmp_lay (unat base + 24 * n) D 2048 i)
        \<and> (\<forall>k<32 * bmp_words (qn D 2048 i). bm_bit m (bmp_lay (unat base + 24 * n) D 2048 i) k \<longleftrightarrow> pad_start (qn D 2048 i) \<le> k)"
    and frame: "\<forall>x. \<not> inside base H x \<longrightarrow> m x = km s x"
    by (rule bud_init_run [OF base H])
  have st: "init_state (unat base) D n (init_done base H D n m bs s)"
    by (rule init_done_state [OF base H(2) heads n(1-3) meta bs])
  have sum: "24 * n + bmp_off D 2048 n + D div 2048 + D + (H - (24 * n + bmp_off D 2048 n + D div 2048 + D)) = H"
    using meta by simp
  have fr: "\<forall>x. \<not> inside base H x \<longrightarrow> \<not> inside (lz_frees (lazy s)) 8 x \<longrightarrow> \<not> inside (lz_inuses (lazy s)) 8 x
      \<longrightarrow> km (init_done base H D n m bs s) x = km s x"
    using frame by (simp add: list_init_head_def Let_def set_next_other set_prev_other)
  have j': "\<exists>j\<le>11. D = data_size H j \<and> (\<forall>d<j. 8 * (2048 * 2 ^ d) \<le> H) \<and> (j < 11 \<longrightarrow> H < 8 * (2048 * 2 ^ j))"
    using j by blast
  show ?thesis
    by (rule exI [of _ "init_done base H D n m bs s"], rule exI [of _ "H - (24 * n + bmp_off D 2048 n + D div 2048 + D)"],
        rule exI [of _ D], rule exI [of _ n], intro conjI run st sum D n j' fr init_done_simps)
qed

lemma init_wf:
  assumes st: "init_state B0 D n s" and n: "0 < n" "n \<le> 11" and B0: "0 < B0"
    and fit: "B0 + 24 * n + bmp_off D 2048 n + D div 2048 + D < 4294967296" and D: "D < 2147483648"
    and q: "\<And>d. d < n \<Longrightarrow> 8 * (2048 * 2 ^ d) \<le> D"
    and par: "\<And>i k. Suc i < n \<Longrightarrow> k < qn D 2048 i \<Longrightarrow> k div 2 < 32 * bmp_words (qn D 2048 (Suc i))"
  shows "bitmaps_wf s" "heap_wf s" "nblk s = qn D 2048" "\<And>i. i < n \<Longrightarrow> bcap s i = 32 * bmp_words (qn D 2048 i)"
proof -
  let ?B = "B0 + 24 * n" and ?q = "qn D 2048"
  define off where "off = bmp_off D 2048"
  have S: "nord s = n" "bm_dep (bm s) = of_nat n" "bm_ll (bm s) = 2048" "bm_ul (bm s) = 2048 * 2 ^ (n - 1)"
    "bm_heap_size (bm s) = int D" "bm_hdr_base (bm s) = of_nat (?B + off n)"
    "bm_heap_base (bm s) = of_nat (?B + off n + D div 2048)"
    using st by (simp_all add: init_state_def off_def)
  have lay: "\<And>i. i < n \<Longrightarrow> bmp_of s i = bmp_lay ?B D 2048 i" "\<And>i. i < n \<Longrightarrow> bm_wf (bmp_of s i)"
    using st unfolding init_state_def by blast+
  have units: "units_total s = D div 2048" by (simp add: units_total_def S)
  show nb: "nblk s = ?q" by (simp add: fun_eq_iff nblk_def units qn_def div_mult2_eq)
  have q0: "0 < ?q i" "?q i \<le> 1048576" if "i < n" for i
  proof -
    have "?q i \<le> D div 2048" unfolding qn_def div_mult2_eq by (rule div_le_dividend)
    then show "0 < ?q i" "?q i \<le> 1048576" using q [OF that] D by (auto simp: qn_def div_greater_zero_iff)
  qed
  have words: "bmp_words (?q i) < 4294967296" "0 < bmp_words (?q i)" if "i < n" for i
    using q0 [OF that] bmp_words_bounds [of "?q i"] by linarith+
  have base: "bmp_base (bmp_of s i) = of_nat (?B + off i)" "bmp_bytes (bmp_of s i) = 4 * bmp_words (?q i)" if "i < n" for i
    using lay(1) [OF that] words [OF that] by (simp_all add: bmp_lay_def off_def unat_of_nat_lt)
  then show cap: "bcap s i = 32 * bmp_words (?q i)" if "i < n" for i
    using that by (simp add: bcap_def bm_cap_def)
  have offn: "off i + 4 * bmp_words (?q i) \<le> off n" if "i < n" for i
    using bmp_off_mono [of "Suc i" n D 2048] that by (simp add: off_def)
  have small: "?B + off n + D div 2048 < 4294967296" using fit by (simp add: off_def)
  have ap: "apart (bmp_base (bmp_of s i)) (bmp_bytes (bmp_of s i)) (of_nat (?B + e)) k"
    if "i < n" "off (Suc i) \<le> e" "?B + e + k < 4294967296" "0 < k" for i e k
  proof -
    have "apart ((0 :: addr) + of_nat (?B + off i)) (4 * bmp_words (?q i)) (0 + of_nat (?B + e)) k"
      by (rule apart_offsets) (use that words [OF that(1)] in \<open>auto simp: off_def\<close>)
    then show ?thesis unfolding base [OF that(1)] by (simp only: add_0_left)
  qed
  have apij: "apart (bmp_base (bmp_of s i)) (bmp_bytes (bmp_of s i)) (bmp_base (bmp_of s j)) (bmp_bytes (bmp_of s j))"
    if "i < j" "j < n" for i j
  proof -
    have "off (Suc i) \<le> off j" unfolding off_def using that by (intro bmp_off_mono) simp
    then show ?thesis unfolding base [OF that(2)]
      by (intro ap) (use that offn [OF that(2)] small words [OF that(2)] in auto)
  qed
  have "apart (bmp_base (bmp_of s i)) (bmp_bytes (bmp_of s i)) (bmp_base (bmp_of s j)) (bmp_bytes (bmp_of s j))"
    if "i < n" "j < n" "i \<noteq> j" for i j
    using apij [of i j] apij [of j i] that by (auto simp: apart_sym neq_iff)
  moreover have "?q i \<le> 32 * bmp_words (?q i)" if "i < n" for i
    using bmp_words_bounds [OF q0(1) [OF that]] by simp
  ultimately show "bitmaps_wf s"
    using lay(2) n cap par by (simp add: bitmaps_wf_def S nb unat_of_nat_lt)
  have hdr: "apart (of_nat (?B + off n)) (D div 2048) (bmp_base (bmp_of s i)) (bmp_bytes (bmp_of s i))" if "i < n" for i
  proof -
    have "off (Suc i) \<le> off n" unfolding off_def using that by (intro bmp_off_mono) simp
    moreover have "0 < D div 2048" using q0(1) [of 0] n by (simp add: qn_def)
    ultimately show ?thesis unfolding apart_sym [of "of_nat (?B + off n)"]
      by (intro ap) (use that small in auto)
  qed
  have data: "apart (of_nat (?B + off n + D div 2048)) D (bmp_base (bmp_of s i)) (bmp_bytes (bmp_of s i))" if "i < n" for i
  proof -
    have "off (Suc i) \<le> off n" unfolding off_def using that by (intro bmp_off_mono) simp
    moreover have "0 < D" using q [of 0] n by simp
    ultimately have "apart (bmp_base (bmp_of s i)) (bmp_bytes (bmp_of s i)) (of_nat (?B + (off n + D div 2048))) D"
      by (intro ap) (use that fit in \<open>auto simp: off_def\<close>)
    moreover have "?B + (off n + D div 2048) = ?B + off n + D div 2048" by (rule add.assoc [symmetric])
    ultimately show ?thesis by (metis apart_sym)
  qed
  have top: "2048 * 2 ^ (n - 1) \<le> D" "0 < D" using q [of "n - 1"] q [of 0] n by simp_all
  have "unat (bm_heap_base (bm s)) = ?B + off n + D div 2048" "unat (bm_hdr_base (bm s)) = ?B + off n"
    using small unfolding S by (intro unat_of_nat_lt; linarith)+
  then show "heap_wf s"
    using D top B0 fit hdr data n unfolding heap_wf_def units S by (simp add: off_def)
qed

text \<open>When no order has a multiple of 32 blocks, the allocator starts as the empty set of blocks.\<close>

lemma init_rep:
  assumes st: "init_state B0 D n s" and n: "0 < n" "n \<le> 11" and B0: "0 < B0"
    and fit: "B0 + 24 * n + bmp_off D 2048 n + D div 2048 + D < 4294967296" and D: "D < 2147483648"
    and q: "\<And>d. d < n \<Longrightarrow> 8 * (2048 * 2 ^ d) \<le> D"
    and odd: "\<And>i. i < n \<Longrightarrow> qn D 2048 i mod 32 \<noteq> 0"
  shows "bud_rep s {}"
proof -
  have par: "k div 2 < 32 * bmp_words (qn D 2048 (Suc i))" if "Suc i < n" "k < qn D 2048 i" for i k
  proof -
    have h: "qn D 2048 (Suc i) = qn D 2048 i div 2"
      by (simp add: qn_def div_mult2_eq [symmetric] mult.assoc [symmetric] mult.commute)
    have "0 < qn D 2048 (Suc i)" using odd [OF that(1)] by (cases "qn D 2048 (Suc i)") auto
    then have "qn D 2048 (Suc i) \<le> 32 * bmp_words (qn D 2048 (Suc i))" using bmp_words_bounds by blast
    moreover have "qn D 2048 (Suc i) \<noteq> 32 * bmp_words (qn D 2048 (Suc i))"
      using odd [OF that(1)] by (metis mod_mult_self1_is_0)
    moreover have "k div 2 \<le> qn D 2048 (Suc i)" using that(2) unfolding h by (simp add: div_le_mono)
    ultimately show ?thesis by linarith
  qed
  note wf = init_wf [OF st n B0 fit D q par]
  have "bbit s i k = spec_bits (nblk s) {} i k" if "i < nord s" "k < bcap s i" for i k
  proof -
    have "nord s = n" using st by (simp add: init_state_def)
    then show ?thesis using st that odd [of i] wf(3) by (simp add: init_state_def spec_bits_def pad_start_def)
  qed
  then show ?thesis using wf by (simp add: bud_rep_def bits_are_def)
qed


subsection \<open>A heap on which two allocations overlap\<close>

text \<open>
  The search for the ancestors stops at a bit that is set already.  It returns on every state
  in which the bits beyond the blocks are set.
\<close>

definition pads_set :: "'a bud_state_scheme \<Rightarrow> bool" where
  "pads_set s \<longleftrightarrow> (\<forall>i<nord s. \<forall>n<bcap s i. nblk s i \<le> n \<longrightarrow> bbit s i n)"

lemma search_total:
  assumes "bitmaps_wf s" "pads_set s" "lvl \<le> nord s" "lvl < nord s \<Longrightarrow> n < bcap s lvl"
  shows "\<exists>s'. parent_loop bud_search (bm_dep (bm s)) s (of_nat lvl) (of_nat n) 1 = Some s' \<and> shape s s'"
  using assms
proof (induction "nord s - lvl" arbitrary: s lvl n)
  case 0
  then have lvl: "lvl = nord s" by simp
  have "unat (bm_dep (bm s)) = nord s" "nord s \<le> 12" using 0 by (auto simp: bitmaps_wf_def)
  then have "\<not> (of_nat lvl :: u32) < bm_dep (bm s)" by (simp add: word_less_nat_alt lvl unat_of_nat_lt)
  then show ?case by (subst parent_loop.simps) auto
next
  case (Suc d)
  have lvl: "lvl < nord s" using Suc.hyps(2) by simp
  note w = wf_bounds [OF Suc.prems(1) lvl]
  have n: "n < bcap s lvl" using Suc.prems(4) lvl by simp
  have nw: "to_s32 (of_nat n) = int n" "unat (of_nat n :: u32) = n" using n w(2) index_word [of n] by auto
  have get: "bud_get s lvl (int n) = Some (of_bool (bbit s lvl n))" by (rule bud_get_eq [OF Suc.prems(1) lvl n])
  show ?case
  proof (cases "bbit s lvl n")
    case True
    have "parent_loop bud_search (bm_dep (bm s)) s (of_nat lvl) (of_nat n) 1 = Some s"
      using w(6,7) get True nw by (subst parent_loop.simps) (simp add: bud_search_def)
    then show ?thesis by auto
  next
    case False
    then have lt: "n < nblk s lvl" using Suc.prems(2) lvl n by (auto simp: pads_set_def not_le [symmetric])
    obtain t where t: "bud_set_bit s lvl (int n) (of_bool True) = Some (0, t)" "shape s t"
      "bits_are t (\<lambda>j l. if j = lvl \<and> l = n then True else bbit s j l)"
      using set_bit_bits [OF Suc.prems(1) lvl n bits_are_self] .
    note sh = shape_simps [OF t(2)]
    have pads: "pads_set t" using Suc.prems(2) t(3) by (simp add: pads_set_def bits_are_def sh)
    have "n div 2 < bcap t (Suc lvl)" if "Suc lvl < nord t"
      using Suc.prems(1) lt lvl that by (simp add: bitmaps_wf_def sh)
    moreover have "d = nord t - Suc lvl" "Suc lvl \<le> nord t" using Suc.hyps(2) lvl by (simp_all add: sh)
    ultimately obtain s' where s': "parent_loop bud_search (bm_dep (bm t)) t (of_nat (Suc lvl)) (of_nat (n div 2)) 1 = Some s'"
      "shape t s'" using Suc.hyps(1) [OF _ shape_wf [OF t(2) Suc.prems(1)] pads] by blast
    have half: "of_nat n div 2 = (of_nat (n div 2) :: u32)" using n w(2) by (intro of_nat_div2) simp
    have "parent_loop bud_search (bm_dep (bm s)) s (of_nat lvl) (of_nat n) 1 = Some s'"
      using w(6,7) get False nw t(1) s'(1) half
      by (subst parent_loop.simps) (simp add: bud_search_def sh add.commute)
    then show ?thesis using shape_trans [OF t(2) s'(2)] by blast
  qed
qed

lemma find_free_first:
  assumes wf: "bitmaps_wf s" and pads: "pads_set s" and i: "i < nord s"
    and first: "first_free (bbit s i) (bcap s i) = Some n"
  shows "\<exists>t u. bud_find_free s (int i) = Some (int n, t) \<and> shape s t \<and> shape s u
    \<and> bits_are u (\<lambda>j l. j \<le> i \<and> overlap (i, n) (j, l) \<or> bbit s j l)
    \<and> (Suc i < nord s \<and> bbit s (Suc i) (n div 2) \<longrightarrow> t = u)"
proof -
  note w = wf_bounds [OF wf i]
  have nf: "n < bcap s i" "\<not> bbit s i n" using first by (auto simp: first_free_Some)
  then have n: "n < nblk s i" using pads i by (auto simp: pads_set_def not_le [symmetric])
  have len: "i < length (bud s)" using i by (simp add: nord_def)
  have get: "bitmap_get_free (km s) (Some (bmp_of s i)) = Some (int n)"
    using bitmap_get_free_eq [OF wf_bitmap [OF wf i]] first by (simp add: bcap_def bbit_def [abs_def])
  have nw: "to_u32 (int n) = of_nat n" "to_u32 (int i) = of_nat i" by (simp_all add: to_u32_def)
  obtain t where t: "bud_set_bit s i (int n) (of_bool True) = Some (0, t)" "shape s t"
    "bits_are t (\<lambda>j k. if j = i \<and> k = n then True else bbit s j k)"
    using set_bit_bits [OF wf i nf(1) bits_are_self] .
  note sh = shape_simps [OF t(2)]
  have wf_t: "bitmaps_wf t" by (rule shape_wf [OF t(2) wf])
  obtain u where u: "bud_chk_childs t (of_nat i) (of_nat n) (of_bool True) = Some (0, u)" "shape t u"
    "bits_are u (\<lambda>j l. if j < i \<and> overlap (i, n) (j, l) then True
       else if j = i \<and> l = n then True else bbit s j l)"
  proof -
    have "i < nord t" "n < nblk t i" using i n by (simp_all add: sh)
    from chk_childs_bits [OF wf_t this t(3), of True] that show ?thesis by blast
  qed
  have su: "shape s u" by (rule shape_trans [OF t(2) u(2)])
  note ss = shape_simps [OF su]
  have wf_u: "bitmaps_wf u" by (rule shape_wf [OF su wf])
  have bits: "bits_are u (\<lambda>j l. j \<le> i \<and> overlap (i, n) (j, l) \<or> bbit s j l)"
    using u(3) by (rule iffD1 [OF bits_are_cong, rotated]) (auto simp: le_less)
  have pads_u: "pads_set u" using pads bits by (simp add: pads_set_def bits_are_def ss)
  have par: "n div 2 < bcap u (Suc i)" if "Suc i < nord u"
    using wf n that i by (simp add: bitmaps_wf_def ss)
  obtain v where v: "parent_loop bud_search (bm_dep (bm u)) u (of_nat (Suc i)) (of_nat (n div 2)) 1 = Some v" "shape u v"
    using search_total [OF wf_u pads_u, of "Suc i" "n div 2"] par i by (auto simp: ss)
  have half: "of_nat n div 2 = (of_nat (n div 2) :: u32)" using nf(1) w(2) by (intro of_nat_div2) simp
  have "bud_chk_parent u (of_nat i) (of_nat n) 1 bud_search = Some (0, v)"
    using v(1) w(7) half by (simp add: bud_chk_parent_def ss add.commute)
  then have "bud_find_free s (int i) = Some (int n, v)"
    using get len t(1) u(1) nw by (simp add: bud_find_free_def bmp_of_def)
  moreover have "v = u" if "Suc i < nord s" "bbit s (Suc i) (n div 2)"
  proof -
    have "n div 2 < bcap u (Suc i)" using par that by (simp add: ss)
    then have "bbit u (Suc i) (n div 2)" using bits that by (simp add: bits_are_def ss)
    moreover have "(of_nat (Suc i) :: u32) < bm_dep (bm u)" "unat (ucast (of_nat (Suc i) :: u32) :: u8) = Suc i"
      using wf_bounds [OF wf_u, of "Suc i"] that by (simp_all only: ss)
    moreover have "to_s32 (of_nat (n div 2)) = int (n div 2)"
      using nf(1) w(2) by (intro to_s32_of_nat) linarith
    moreover have "bud_get u (Suc i) (int (n div 2)) = Some (of_bool (bbit u (Suc i) (n div 2)))"
      using bud_get_eq [OF wf_u] par that by (simp add: ss)
    ultimately have "parent_loop bud_search (bm_dep (bm u)) u (of_nat (Suc i)) (of_nat (n div 2)) 1 = Some u"
      by (subst parent_loop.simps) (simp only: bud_search_def, simp)
    then show ?thesis using v(1) by simp
  qed
  ultimately show ?thesis using su shape_trans [OF su v(2)] bits by blast
qed


lemma data_size_double: "data_size 133120 4 = 132935"
proof -
  have "{..<4} = {0, 1, 2, 3 :: nat}" by auto
  then show ?thesis by (simp add: data_size_def bmp_off_def qn_def bmp_words_def)
qed

text \<open>
  On a heap of 133120 bytes order 1 has 32 blocks.  All of them start out marked as used, and an
  allocation of order 0 stops there: the order above still looks free, and hands out the same
  address again.
\<close>

lemma double_alloc:
  fixes s :: "'a bud_state_scheme"
  assumes base: "base \<noteq> NULL" "unat base + 133120 < 4294967296"
    and heads: "apart (lz_frees (lazy s)) 8 base 133120" "apart (lz_inuses (lazy s)) 8 base 133120"
  shows "\<exists>r s1 a s2 s3. bud_init_raw s base 133120 2048 = Some (r, s1)
    \<and> bud_alloc_raw s1 2048 = Some (a, s2) \<and> bud_alloc_raw s2 8192 = Some (a, s3)
    \<and> a = bm_heap_base (bm s1)"
proof -
  have le: "(131072 :: nat) \<le> 133120" "(133120 :: nat) < 2147483648" by simp_all
  from bud_init_state [OF base(1,2) le heads]
  obtain s1 rmd D n where init: "bud_init_raw s base (int 133120) 2048 = Some (int rmd, s1)"
    and st: "init_state (unat base) D n s1" and sum: "24 * n + bmp_off D 2048 n + D div 2048 + D + rmd = 133120"
    and n: "0 < n" "n \<le> 11" "\<forall>d<n. 8 * (2048 * 2 ^ d) \<le> D" "n < 11 \<longrightarrow> D < 8 * (2048 * 2 ^ n)"
    and j: "\<exists>j\<le>11. D = data_size 133120 j \<and> (\<forall>d<j. 8 * (2048 * 2 ^ d) \<le> (133120 :: nat)) \<and> (j < 11 \<longrightarrow> 133120 < 8 * (2048 * 2 ^ j :: nat))"
    by blast
  have four: "k = 4" if "\<forall>d<k. 8 * (2048 * 2 ^ d) \<le> X" "k < 11 \<longrightarrow> X < 8 * (2048 * 2 ^ k)" "k \<le> 11"
    "131072 \<le> X" "X < 262144" for k X :: nat
  proof -
    have "\<not> 4 < k" using that(1,5) by (auto dest!: spec [of _ 4])
    moreover have "k \<noteq> 0" "k \<noteq> 1" "k \<noteq> 2" "k \<noteq> 3" using that(2,4) by (intro notI; simp)+
    ultimately show ?thesis by linarith
  qed
  have D: "D = 132935" using j four [of _ 133120] data_size_double by auto
  have n4: "n = 4" using four [of n D] n D by auto
  have i4: "i = 0 \<or> i = 1 \<or> i = 2 \<or> i = 3" if "i < 4" for i :: nat using that by linarith
  have q: "qn D 2048 i = [64, 32, 16, 8] ! i" if "i < 4" for i
    using i4 [OF that] by (auto simp: qn_def D)
  have w: "bmp_words (qn D 2048 i) = [2, 1, 1, 1] ! i" if "i < 4" for i
    using i4 [OF that] q [OF that] by (auto simp: bmp_words_def)
  have par: "k div 2 < 32 * bmp_words (qn D 2048 (Suc i))" if "Suc i < n" "k < qn D 2048 i" for i k
  proof -
    have "i = 0 \<or> i = 1 \<or> i = 2" using that(1) n4 by auto
    then show ?thesis using that q [of i] w [of "Suc i"] n4 by auto
  qed
  have fit: "unat base + 24 * n + bmp_off D 2048 n + D div 2048 + D < 4294967296"
    using sum base(2) by linarith
  have "0 < unat base" using base(1) by (simp add: unat_gt_0)
  note wf = init_wf [OF st n(1,2) this fit _ n(3) [rule_format] par]
  have wf1: "bitmaps_wf s1" "heap_wf s1" "nblk s1 = qn D 2048" "\<And>i. i < 4 \<Longrightarrow> bcap s1 i = 32 * bmp_words (qn D 2048 i)"
    using wf D n4 by auto
  have S: "nord s1 = 4" "ll_of s1 = 2048" "bm_heap_size (bm s1) = 132935"
    "\<And>i k. i < 4 \<Longrightarrow> k < bcap s1 i \<Longrightarrow> bbit s1 i k = (pad_start (qn D 2048 i) \<le> k)"
    using st by (simp_all add: init_state_def n4 D)
  have pads: "pads_set s1"
    unfolding pads_set_def S(1) wf1(3)
  proof (intro allI impI)
    fix i k assume "i < (4 :: nat)" "k < bcap s1 i" "qn D 2048 i \<le> k"
    then show "bbit s1 i k" using S(4) [of i k] by (auto simp: pad_start_def)
  qed
  have pad: "pad_start (qn D 2048 i) = [32, 0, 16, 8] ! i" if "i < 4" for i
    using i4 [OF that] q [OF that] by (auto simp: pad_start_def)
  have ff: "first_free (bbit s1 i) (bcap s1 i) = Some 0" if "i = 0 \<or> i = 2" for i
    using that S(4) [of i 0] pad [of i] wf1(4) [of i] w [of i] by (auto simp: first_free_Some)
  have z: "0 < nord s1" "first_free (bbit s1 0) (bcap s1 0) = Some 0" using S(1) ff by simp_all
  from find_free_first [OF wf1(1) pads z]
  obtain t u where t: "bud_find_free s1 (int 0) = Some (int 0, t)" "shape s1 t"
    "bits_are u (\<lambda>j l. j \<le> 0 \<and> overlap (0, 0) (j, l) \<or> bbit s1 j l)"
    "Suc 0 < nord s1 \<and> bbit s1 (Suc 0) (0 div 2) \<longrightarrow> t = u"
    by blast
  have "bbit s1 1 0" using S(4) [of 1 0] pad [of 1] wf1(4) [of 1] w [of 1] by simp
  then have tu: "t = u" using t(4) S(1) by simp
  have up: "[0..<4] = [0, 1, 2, 3 :: nat]" by (simp add: upt_rec)
  have ord: "ord_for s1 2048 = Some 0" "ord_for s1 8192 = Some 2"
    by (simp_all add: ord_for_def S chunk_of_def up)
  have n0: "0 < nblk s1 0" "0 < nblk s1 2" using q [of 0] q [of 2] wf1(3) by simp_all
  let ?h = "blk_hdr s1 (0, 0)"
  define s2 where "s2 = t\<lparr>km := st8 (km t) ?h (of_nat 0)\<rparr>"
  have a1: "bud_alloc_raw s1 (int 2048) = Some (blk_addr s1 (0, 0), s2)"
    unfolding s2_def using bud_alloc_found [OF wf1(1,2) _ _ ord(1) n0(1) t(1,2)] S(3) by simp
  note st = shape_simps [OF t(2)]
  have hd: "blk_hdr t = blk_hdr s1" by (simp add: fun_eq_iff blk_hdr_def st)
  have "0 < nord t" "0 < nblk t 0" using S(1) n0 by (simp_all add: st)
  note h2 = hdr_store [OF shape_wf [OF t(2) wf1(1)] shape_heap_wf [OF t(2) wf1(2)] this,
      of "of_nat 0", unfolded hd, folded s2_def]
  have bits2: "bits_are s2 (\<lambda>j l. j \<le> 0 \<and> overlap (0, 0) (j, l) \<or> bbit s1 j l)"
    using t(3) by (simp add: h2(10) tu)
  then have b2: "bbit s2 j l = bbit s1 j l" if "0 < j" "j < 4" "l < bcap s1 j" for j l
    using that S(1) by (simp add: bits_are_def h2 st)
  have cap2: "bcap s2 i = bcap s1 i" if "i < 4" for i using that S(1) by (simp add: h2 st)
  have "first_free (bbit s2 2) (bcap s2 2) = first_free (bbit s1 2) (bcap s1 2)"
    using b2 cap2 [of 2] by (auto intro: first_free_cong)
  then have ff2: "first_free (bbit s2 2) (bcap s2 2) = Some 0" using ff by simp
  have pads2: "pads_set s2"
    using pads bits2 S(1) by (simp add: pads_set_def bits_are_def h2 st)
  obtain v where v: "bud_find_free s2 (int 2) = Some (int 0, v)" "shape s2 v"
  proof -
    have "2 < nord s2" using S(1) by (simp add: h2 st)
    from find_free_first [OF h2(1) pads2 this ff2] that show ?thesis by blast
  qed
  have ord2: "ord_for s2 8192 = Some 2"
    using ord(2) by (simp add: ord_for_def chunk_of_def h2 st)
  have "bud_alloc_raw s2 (int 8192) = Some (blk_addr s2 (2, 0), v\<lparr>km := st8 (km v) (blk_hdr s2 (2, 0)) (of_nat 2)\<rparr>)"
    using bud_alloc_found [OF h2(1,2) _ _ ord2 _ v] S(3) n0(2) by (simp add: h2 st)
  moreover have "blk_addr s2 (2, 0) = bm_heap_base (bm s1)" "blk_addr s1 (0, 0) = bm_heap_base (bm s1)"
    by (simp_all add: blk_addr_def h2 st)
  ultimately show ?thesis using init a1 by auto
qed

end
