(* ===== verification/Buddy_Alloc.thy ===== *)
theory Buddy_Alloc
  imports Buddy_Init Alloc
begin

text \<open>The buddy allocator provides the interface of an allocator.\<close>

definition blk_region :: "'a bud_state_scheme \<Rightarrow> block \<Rightarrow> region" where
  "blk_region s b = (blk_addr s b, chunk_of s (fst b))"

definition bud_regions :: "'a bud_state_scheme \<Rightarrow> region set \<Rightarrow> bool" where
  "bud_regions s R \<longleftrightarrow> (\<exists>A. bud_rep s A \<and> R = blk_region s ` A)"

definition bud_fits :: "'a bud_state_scheme \<Rightarrow> region set \<Rightarrow> nat \<Rightarrow> bool" where
  "bud_fits s R z \<longleftrightarrow> 0 < z \<and> int z \<le> bm_heap_size (bm s)
     \<and> (\<exists>i. ord_for s z = Some i \<and> (\<forall>A. bud_rep s A \<and> R = blk_region s ` A \<longrightarrow> free_block s A i \<noteq> None))"

definition bud_poke :: "'a bud_state_scheme \<Rightarrow> addr \<Rightarrow> u8 \<Rightarrow> 'a bud_state_scheme" where
  "bud_poke s x v = s\<lparr>km := st8 (km s) x v\<rparr>"

lemma blk_bounds:
  assumes "bud_rep s A" "(i, n) \<in> A"
  shows "unat (blk_addr s (i, n)) = unat (bm_heap_base (bm s)) + ll_of s * (n * 2 ^ i)"
    "ll_of s * (n * 2 ^ i) + chunk_of s i = ll_of s * (Suc n * 2 ^ i)"
    "ll_of s * (n * 2 ^ i) + chunk_of s i \<le> nat (bm_heap_size (bm s))" "0 < chunk_of s i"
proof -
  have w: "bitmaps_wf s" "heap_wf s" "i < nord s" "n < nblk s i" using assms by (auto simp: bud_rep_def)
  note b = blk_numbers [OF w]
  show "unat (blk_addr s (i, n)) = unat (bm_heap_base (bm s)) + ll_of s * (n * 2 ^ i)"
    using b(4) by (simp only: b(1))
  show "ll_of s * (n * 2 ^ i) + chunk_of s i \<le> nat (bm_heap_size (bm s))" using b(2) by (simp only: b(1))
  show "ll_of s * (n * 2 ^ i) + chunk_of s i = ll_of s * (Suc n * 2 ^ i)"
    by (simp add: chunk_of_def algebra_simps)
  show "0 < chunk_of s i" by (rule chunk_bound(2) [OF w(2,3)])
qed

lemma blk_region_apart:
  assumes rep: "bud_rep s A" and A: "a \<in> A" "b \<in> A" "a \<noteq> b"
  shows "apart (fst (blk_region s a)) (snd (blk_region s a)) (fst (blk_region s b)) (snd (blk_region s b))"
proof -
  have *: "apart (blk_addr s (i, n)) (chunk_of s i) (blk_addr s (j, k)) (chunk_of s j)"
    if "(i, n) \<in> A" "(j, k) \<in> A" "Suc n * 2 ^ i \<le> k * 2 ^ j" for i n j k
  proof (rule apart_no_wrap)
    note x = blk_bounds [OF rep that(1)] and y = blk_bounds [OF rep that(2)]
    show "0 < chunk_of s i" by (rule x(4))
    have "ll_of s * (Suc n * 2 ^ i) \<le> ll_of s * (k * 2 ^ j)" using that(3) by (rule mult_le_mono2)
    then show "unat (blk_addr s (i, n)) + chunk_of s i \<le> unat (blk_addr s (j, k))" using x y by linarith
    have "unat (bm_heap_base (bm s)) + nat (bm_heap_size (bm s)) < 2 ^ 32"
      using rep by (simp add: bud_rep_def heap_wf_def)
    then show "unat (blk_addr s (j, k)) + chunk_of s j \<le> 2 ^ 32" using y by linarith
  qed
  obtain i n j k where ab: "a = (i, n)" "b = (j, k)" by (cases a, cases b)
  have "\<not> overlap a b" using rep A by (auto simp: bud_rep_def)
  then have "Suc n * 2 ^ i \<le> k * 2 ^ j \<or> Suc k * 2 ^ j \<le> n * 2 ^ i" by (auto simp: overlap_def ab not_less)
  then show ?thesis using *[of i n j k] *[of j k i n] A by (auto simp: blk_region_def ab apart_sym)
qed

lemma blk_region_inj: "bud_rep s A \<Longrightarrow> inj_on (blk_region s) A"
proof (rule inj_onI, rule ccontr)
  fix a b assume rep: "bud_rep s A" and ab: "a \<in> A" "b \<in> A" "blk_region s a = blk_region s b" "a \<noteq> b"
  have "0 < chunk_of s (fst a)" using blk_bounds(4) [OF rep, of "fst a" "snd a"] ab by simp
  then show False using blk_region_apart [OF rep ab(1,2,4)] ab(3) by (simp add: blk_region_def)
qed

text \<open>What changes only the bitmaps and headers of blocks does not reach a block in use.\<close>

lemma block_untouched:
  assumes rep: "bud_rep s A" and b: "b \<in> A" and x: "inside (blk_addr s b) (chunk_of s (fst b)) x"
  shows "\<not> in_bitmaps s x" "i < nord s \<Longrightarrow> n < nblk s i \<Longrightarrow> x \<noteq> blk_hdr s (i, n)"
proof -
  have wf: "bitmaps_wf s" and hw: "heap_wf s" using rep by (simp_all add: bud_rep_def)
  have fits: "ll_of s * (snd b * 2 ^ fst b) + chunk_of s (fst b) \<le> nat (bm_heap_size (bm s))"
    using blk_bounds(3) [OF rep, of "fst b" "snd b"] b by simp
  have "nat (bm_heap_size (bm s)) \<le> 2 ^ 32" using hw by (auto simp: heap_wf_def)
  then have heap: "inside (bm_heap_base (bm s)) (nat (bm_heap_size (bm s))) x"
    using inside_sub [OF x _ fits] by (simp add: blk_addr_def)
  then show "\<not> in_bitmaps s x"
    using hw apart_inside unfolding heap_wf_def in_bitmaps_def by blast
  show "x \<noteq> blk_hdr s (i, n)" if "i < nord s" "n < nblk s i"
  proof -
    have u: "n * 2 ^ i < units_total s" using blk_numbers(3) [OF wf hw that] .
    have top: "unat (bm_hdr_base (bm s)) + units_total s \<le> unat (bm_heap_base (bm s))"
      "unat (bm_heap_base (bm s)) + nat (bm_heap_size (bm s)) < 4294967296"
      using hw by (simp_all add: heap_wf_def)
    have c: "unat (of_nat (n * 2 ^ i) :: u32) = n * 2 ^ i" by (rule unat_of_nat_lt) (use u top in simp)
    have "unat (blk_hdr s (i, n)) = unat (bm_hdr_base (bm s)) + n * 2 ^ i"
      unfolding blk_hdr_def fst_conv snd_conv unat_word_ariths c by (rule mod_less) (use u top in simp)
    then show ?thesis using heap top u by (auto simp: inside_def unat_sub_if' word_le_nat_alt)
  qed
qed

text \<open>
  The bytes the allocator may write to, or may hand out to be written: its bitmaps, its headers, its blocks.
  They are where they are as long as the addresses in its state are.
\<close>

definition in_heap :: "'a bud_state_scheme \<Rightarrow> addr \<Rightarrow> bool" where
  "in_heap s x \<longleftrightarrow> in_bitmaps s x \<or> inside (bm_hdr_base (bm s)) (units_total s) x
     \<or> inside (bm_heap_base (bm s)) (nat (bm_heap_size (bm s))) x"

lemma in_heap_same:
  fixes s :: "'a bud_state_scheme" and s' :: "'b bud_state_scheme"
  assumes "bm s' = bm s" "map bs_bmp (bud s') = map bs_bmp (bud s)"
  shows "in_heap s' = in_heap s"
proof -
  have n: "length (bud s') = length (bud s)" using assms(2) by (metis length_map)
  have "bs_bmp (bud s' ! i) = bs_bmp (bud s ! i)" if "i < length (bud s)" for i
    using assms(2) that n by (metis nth_map)
  then show ?thesis using n
    by (auto simp: fun_eq_iff in_heap_def in_bitmaps_def nord_def bmp_of_def units_total_def assms(1))
qed

lemma hdr_in_heap:
  assumes rep: "bud_rep s A" and i: "i < nord s" "n < nblk s i"
  shows "in_heap s (blk_hdr s (i, n))"
proof -
  have wf: "bitmaps_wf s" and hw: "heap_wf s" using rep by (simp_all add: bud_rep_def)
  have u: "n * 2 ^ i < units_total s" using blk_numbers(3) [OF wf hw i] .
  moreover have "units_total s \<le> 2 ^ 32" using hw by (auto simp: heap_wf_def)
  ultimately have "inside (bm_hdr_base (bm s)) (units_total s) (blk_hdr s (i, n))"
    unfolding blk_hdr_def fst_conv snd_conv by (intro inside_add) linarith+
  then show ?thesis by (simp add: in_heap_def)
qed

lemma block_in_heap:
  assumes rep: "bud_rep s A" and b: "b \<in> A" and x: "inside (blk_addr s b) (chunk_of s (fst b)) x"
  shows "in_heap s x"
proof -
  have fits: "ll_of s * (snd b * 2 ^ fst b) + chunk_of s (fst b) \<le> nat (bm_heap_size (bm s))"
    using blk_bounds(3) [OF rep, of "fst b" "snd b"] b by simp
  have "nat (bm_heap_size (bm s)) \<le> 2 ^ 32" using rep by (auto simp: bud_rep_def heap_wf_def)
  then show ?thesis using inside_sub [OF x _ fits] by (simp add: blk_addr_def in_heap_def)
qed

text \<open>After the initialisation they are in the memory it was given.\<close>

lemma init_in_heap:
  assumes base: "base \<noteq> NULL" "unat base + H < 4294967296" and H: "H < 2147483648" and st: "init_state (unat base) D n s"
    and sum: "24 * n + bmp_off D 2048 n + D div 2048 + D + rmd = H" and n: "n \<le> 11" "\<forall>d<n. 8 * (2048 * 2 ^ d) \<le> D"
    and x: "in_heap s x"
  shows "inside base H x"
proof -
  have meta: "24 * n + bmp_off D 2048 n + D div 2048 + D \<le> H" and H2: "H \<le> 2 ^ 32" using sum H by simp_all
  have S: "nord s = n" "bm_ll (bm s) = 2048" "bm_heap_size (bm s) = int D"
    "bm_hdr_base (bm s) = of_nat (unat base + 24 * n + bmp_off D 2048 n)"
    "bm_heap_base (bm s) = of_nat (unat base + 24 * n + bmp_off D 2048 n + D div 2048)"
    using st by (simp_all add: init_state_def)
  have "\<And>i. i < n \<Longrightarrow> bmp_of s i = bmp_lay (unat base + 24 * n) D 2048 i" using st unfolding init_state_def by blast
  with x consider (bits) i where "i < n" "inside (bmp_base (bmp_lay (unat base + 24 * n) D 2048 i)) (bmp_bytes (bmp_lay (unat base + 24 * n) D 2048 i)) x"
    | (hdr) "inside (bm_hdr_base (bm s)) (D div 2048) x" | (data) "inside (bm_heap_base (bm s)) D x"
    by (auto simp: in_heap_def in_bitmaps_def units_total_def S(1-3))
  then show ?thesis
  proof cases
    case bits
    then show ?thesis using lay_inside(2) [OF base n meta H] by blast
  next
    case hdr
    then show ?thesis by (rule inside_sub [where d = "24 * n + bmp_off D 2048 n"]) (use S(4) meta H2 in simp_all)
  next
    case data
    then show ?thesis by (rule inside_sub [where d = "24 * n + bmp_off D 2048 n + D div 2048"]) (use S(5) meta H2 in simp_all)
  qed
qed

text \<open>The owner of a block may write into it; other fields of the state do not matter.\<close>

lemma bud_rep_meta:
  fixes s s' :: "'a bud_state_scheme"
  assumes rep: "bud_rep s A" and eq: "bm s' = bm s" "bud s' = bud s"
    and bits: "\<And>x. in_bitmaps s x \<Longrightarrow> km s' x = km s x" and hdrs: "\<And>a. a \<in> A \<Longrightarrow> km s' (blk_hdr s a) = km s (blk_hdr s a)"
  shows "bud_rep s' A"
proof -
  have wf: "bitmaps_wf s" and hw: "heap_wf s" using rep by (simp_all add: bud_rep_def)
  have fields: "bmp_of s' = bmp_of s" "nord s' = nord s" "nblk s' = nblk s"
    "units_total s' = units_total s" "bcap s' = bcap s" "blk_hdr s' = blk_hdr s"
    by (simp_all add: fun_eq_iff bmp_of_def nord_def nblk_def units_total_def bcap_def blk_hdr_def eq)
  have bit: "bbit s' j l = bbit s j l" if "j < nord s" "l < bcap s j" for j l
    unfolding bbit_def fields
  proof (rule bm_bit_cong [OF wf_bitmap [OF wf that(1)]])
    show "l < bm_cap (bmp_of s j)" using that by (simp add: bcap_def)
    fix y assume "inside (bmp_base (bmp_of s j)) (bmp_bytes (bmp_of s j)) y"
    then have "in_bitmaps s y" using that by (auto simp: in_bitmaps_def)
    then show "km s' y = km s y" by (rule bits)
  qed
  moreover have "bitmaps_wf s'" "heap_wf s'" using wf hw by (simp_all add: bitmaps_wf_def heap_wf_def fields eq)
  ultimately show ?thesis using rep hdrs by (simp add: bud_rep_def bits_are_def fields)
qed

lemma bud_rep_write:
  fixes s s' :: "'a bud_state_scheme"
  assumes rep: "bud_rep s A" and b: "b \<in> A" and eq: "bm s' = bm s" "bud s' = bud s"
    and same: "\<And>x. \<not> inside (blk_addr s b) (chunk_of s (fst b)) x \<Longrightarrow> km s' x = km s x"
  shows "bud_rep s' A"
proof (rule bud_rep_meta [OF rep eq])
  show "km s' x = km s x" if "in_bitmaps s x" for x using that block_untouched(1) [OF rep b] same by blast
  show "km s' (blk_hdr s a) = km s (blk_hdr s a)" if "a \<in> A" for a
  proof (rule same)
    have "fst a < nord s" "snd a < nblk s (fst a)" using rep that by (auto simp: bud_rep_def)
    then show "\<not> inside (blk_addr s b) (chunk_of s (fst b)) (blk_hdr s a)"
      using block_untouched(2) [OF rep b, of "blk_hdr s a" "fst a" "snd a"] by auto
  qed
qed

text \<open>What happens outside its bytes does not concern the allocator.\<close>

lemma bud_rep_outside:
  fixes s s' :: "'a bud_state_scheme"
  assumes rep: "bud_rep s A" and eq: "bm s' = bm s" "bud s' = bud s" and same: "\<And>x. in_heap s x \<Longrightarrow> km s' x = km s x"
  shows "bud_rep s' A"
proof (rule bud_rep_meta [OF rep eq])
  show "km s' x = km s x" if "in_bitmaps s x" for x using that same by (simp add: in_heap_def)
  show "km s' (blk_hdr s a) = km s (blk_hdr s a)" if "a \<in> A" for a
  proof (rule same)
    have "fst a < nord s" "snd a < nblk s (fst a)" using rep that by (auto simp: bud_rep_def)
    then show "in_heap s (blk_hdr s a)" using hdr_in_heap [OF rep, of "fst a" "snd a"] by simp
  qed
qed

lemma bud_rep_poke:
  assumes "bud_rep s A" "(i, n) \<in> A" "inside (blk_addr s (i, n)) (chunk_of s i) x"
  shows "bud_rep (bud_poke s x v) A"
  by (rule bud_rep_write [OF assms(1,2)]) (use assms(3) in \<open>auto simp: st8_def bud_poke_def\<close>)

lemma bud_rep_same:
  fixes s s' :: "'a bud_state_scheme"
  assumes "bm s' = bm s" "bud s' = bud s" "km s' = km s"
  shows "bud_rep s' A = bud_rep s A"
proof -
  have "bmp_of s' = bmp_of s" "nord s' = nord s" "nblk s' = nblk s" "units_total s' = units_total s"
    "bcap s' = bcap s" "blk_hdr s' = blk_hdr s" "bbit s' = bbit s"
    by (simp_all add: fun_eq_iff bmp_of_def nord_def nblk_def units_total_def bcap_def blk_hdr_def bbit_def assms)
  then show ?thesis by (simp add: bud_rep_def bitmaps_wf_def heap_wf_def bits_are_def assms)
qed

lemma region_cong: "bm s' = bm s \<Longrightarrow> blk_region s' = blk_region s"
  by (simp add: fun_eq_iff blk_region_def blk_addr_def chunk_of_def)

text \<open>The laws of the interface, with what else the operations keep.\<close>

lemma bud_alloc_law:
  fixes s :: "'a bud_state_scheme"
  assumes "bud_regions s R" and fits: "bud_fits s R z"
  shows "\<exists>i a s'. ord_for s z = Some i \<and> bud_alloc_raw s (int z) = Some (a, s') \<and> (a, chunk_of s i) \<notin> R
    \<and> bud_regions s' (insert (a, chunk_of s i) R) \<and> bm s' = bm s \<and> nord s' = nord s
    \<and> (\<forall>r\<in>R. \<forall>x. inside (fst r) (snd r) x \<longrightarrow> km s' x = km s x)"
proof -
  obtain A where A: "bud_rep s A" "R = blk_region s ` A" using assms(1) by (auto simp: bud_regions_def)
  obtain i n where i: "ord_for s z = Some i" "free_block s A i = Some n" and z: "0 < z" "int z \<le> bm_heap_size (bm s)"
    using fits A by (auto simp: bud_fits_def)
  obtain s' where s': "bud_alloc_raw s (int z) = Some (blk_addr s (i, n), s')" "bud_rep s' (insert (i, n) A)" "bm s' = bm s"
    "\<forall>x. \<not> in_bitmaps s x \<and> x \<noteq> blk_hdr s (i, n) \<longrightarrow> km s' x = km s x" "map bs_bmp (bud s') = map bs_bmp (bud s)"
    using bud_alloc_block [OF A(1) z i] by blast
  have "blk_region s' ` insert (i, n) A = insert (blk_addr s (i, n), chunk_of s i) R"
    using A(2) region_cong [OF s'(3)] by (simp add: blk_region_def)
  then have "bud_regions s' (insert (blk_addr s (i, n), chunk_of s i) R)"
    unfolding bud_regions_def using s'(2) by metis
  moreover have "(blk_addr s (i, n), chunk_of s i) \<notin> R"
  proof
    assume "(blk_addr s (i, n), chunk_of s i) \<in> R"
    then obtain b where b: "b \<in> A" "blk_region s b = blk_region s (i, n)" using A(2) by (auto simp: blk_region_def)
    then have "blk_region s' b = blk_region s' (i, n)" by (simp add: region_cong [OF s'(3)])
    then have "b = (i, n)" using inj_onD [OF blk_region_inj [OF s'(2)], of b "(i, n)"] b(1) by blast
    then show False using b(1) i(2) by (auto simp: free_block_def first_free_Some)
  qed
  moreover have "nord s' = nord s" using s'(5) by (metis length_map nord_def)
  moreover have "i < nord s" "n < nblk s i" using ord_for_Some [OF i(1)] i(2) by (auto simp: free_block_def first_free_Some)
  then have "km s' x = km s x" if "b \<in> A" "inside (blk_addr s b) (chunk_of s (fst b)) x" for b x
    using s'(4) block_untouched [OF A(1) that] by blast
  then have "\<forall>r\<in>R. \<forall>x. inside (fst r) (snd r) x \<longrightarrow> km s' x = km s x" unfolding A(2) by (simp add: blk_region_def)
  ultimately show ?thesis using s'(1,3) i(1) by blast
qed

lemma bud_free_law:
  fixes s :: "'a bud_state_scheme"
  assumes "bud_regions s R" "(a, n) \<in> R"
  shows "\<exists>s'. bud_free_raw s a = Some s' \<and> bud_regions s' (R - {(a, n)}) \<and> bm s' = bm s \<and> nord s' = nord s
    \<and> (\<forall>r\<in>R. \<forall>x. inside (fst r) (snd r) x \<longrightarrow> km s' x = km s x)"
proof -
  obtain A i k where A: "bud_rep s A" "R = blk_region s ` A" "(i, k) \<in> A" "(a, n) = blk_region s (i, k)"
    using assms by (auto simp: bud_regions_def)
  obtain s' where s': "bud_free_raw s (blk_addr s (i, k)) = Some s'" "bud_rep s' (A - {(i, k)})" "shape s s'"
    using bud_free_block [OF A(1,3)] by blast
  note sh = shape_simps [OF s'(3)]
  have "blk_region s' = blk_region s" using region_cong shape_simps(1) [OF s'(3)] by blast
  then have "blk_region s' ` (A - {(i, k)}) = R - {(a, n)}"
    using A inj_on_image_set_diff [OF blk_region_inj [OF A(1)], of A "{(i, k)}"] by simp
  then have "bud_regions s' (R - {(a, n)})" using s'(2) by (auto simp: bud_regions_def)
  moreover have "km s' x = km s x" if "b \<in> A" "inside (blk_addr s b) (chunk_of s (fst b)) x" for b x
    using s'(3) block_untouched(1) [OF A(1) that] by (auto simp: shape_def)
  then have "\<forall>r\<in>R. \<forall>x. inside (fst r) (snd r) x \<longrightarrow> km s' x = km s x" unfolding A(2) by (simp add: blk_region_def)
  moreover have "a = blk_addr s (i, k)" using A(4) by (simp add: blk_region_def)
  ultimately show ?thesis using s'(1) sh by blast
qed

lemma bud_poke_law:
  fixes s :: "'a bud_state_scheme"
  assumes "bud_regions s R" "(a, n) \<in> R" "inside a n x"
  shows "bud_regions (bud_poke s x v) R"
proof -
  obtain A i k where A: "bud_rep s A" "R = blk_region s ` A" "(i, k) \<in> A" "(a, n) = blk_region s (i, k)"
    using assms(1,2) by (auto simp: bud_regions_def)
  then have "bud_rep (bud_poke s x v) A" using bud_rep_poke assms(3) by (simp add: blk_region_def)
  moreover have "blk_region (bud_poke s x v) = blk_region s" by (rule region_cong) (simp add: bud_poke_def)
  ultimately show ?thesis using A(2) by (auto simp: bud_regions_def)
qed

lemma bud_apart_law: "bud_regions s R \<Longrightarrow> r \<in> R \<Longrightarrow> q \<in> R \<Longrightarrow> r \<noteq> q \<Longrightarrow> apart (fst r) (snd r) (fst q) (snd q)"
  using blk_region_apart unfolding bud_regions_def by blast

interpretation buddy: heap_alloc bud_regions bud_fits "\<lambda>s z. bud_alloc_raw s (int z)" bud_free_raw bud_poke
proof unfold_locales
  fix s :: "'a bud_state_scheme" and R r q a n x v z
  show "bud_regions s R \<Longrightarrow> r \<in> R \<Longrightarrow> q \<in> R \<Longrightarrow> r \<noteq> q \<Longrightarrow> apart (fst r) (snd r) (fst q) (snd q)" by (rule bud_apart_law)
  show "bud_regions s R \<Longrightarrow> bud_fits s R z \<Longrightarrow>
      \<exists>a n s'. bud_alloc_raw s (int z) = Some (a, s') \<and> z \<le> n \<and> (a, n) \<notin> R \<and> bud_regions s' (insert (a, n) R)"
    using bud_alloc_law [of s R z] ord_for_Some [of s z] by blast
  show "bud_regions s R \<Longrightarrow> (a, n) \<in> R \<Longrightarrow> \<exists>s'. bud_free_raw s a = Some s' \<and> bud_regions s' (R - {(a, n)})"
    using bud_free_law by blast
  show "bud_regions s R \<Longrightarrow> (a, n) \<in> R \<Longrightarrow> inside a n x \<Longrightarrow> bud_regions (bud_poke s x v) R" by (rule bud_poke_law)
qed

subsection \<open>As many blocks as there are of an order\<close>

text \<open>
  A block of an order up to \<open>i\<close> lies in one block of order \<open>i\<close>: fewer than those leave one of them free, and with it a
  block of every smaller order.
\<close>

lemma block_left:
  assumes A: "finite A" "\<forall>a\<in>A. fst a \<le> i" and few: "card A < N"
  obtains n where "n < N" "\<forall>a\<in>A. \<not> overlap a (i, n)"
proof -
  have "card ((\<lambda>a. snd a div 2 ^ (i - fst a)) ` A) < card {..<N}" using le_less_trans [OF card_image_le [OF A(1)] few] by simp
  then have "\<not> {..<N} \<subseteq> (\<lambda>a. snd a div 2 ^ (i - fst a)) ` A" using A(1) card_mono [of "(\<lambda>a. snd a div 2 ^ (i - fst a)) ` A" "{..<N}"] by fastforce
  then obtain n where n: "n < N" "n \<notin> (\<lambda>a. snd a div 2 ^ (i - fst a)) ` A" by blast
  have "\<not> overlap a (i, n)" if "a \<in> A" for a
    using overlap_up [of "fst a" i "snd a" n] A(2) n(2) that by auto
  then show ?thesis using that n(1) by blast
qed

lemma free_below:
  assumes A: "finite A" "\<forall>a\<in>A. fst a \<le> i" and few: "card A < nblk s i" and j: "j \<le> i"
  shows "free_block s A j \<noteq> None"
proof
  assume "free_block s A j = None"
  then have all: "\<exists>a\<in>A. overlap a (j, k)" if "k < nblk s j" for k using that by (simp add: free_block_def first_free_None)
  obtain n where n: "n < nblk s i" "\<forall>a\<in>A. \<not> overlap a (i, n)" by (rule block_left [OF A few])
  have "Suc n * 2 ^ (i - j) \<le> nblk s j" using nblk_down [of n s j "i - j"] n(1) j by simp
  moreover have "n * 2 ^ (i - j) < Suc n * 2 ^ (i - j)" by simp
  ultimately have "n * 2 ^ (i - j) < nblk s j" by (rule less_le_trans [rotated])
  then obtain a where "a \<in> A" "overlap a (j, n * 2 ^ (i - j))" using all [of "n * 2 ^ (i - j)"] by blast
  then show False using overlap_up_mono [of a j "n * 2 ^ (i - j)" "i - j"] n(2) j by simp
qed

lemma bud_finite: "bud_rep s A \<Longrightarrow> finite A"
  by (rule finite_subset [of _ "Sigma {..<nord s} (\<lambda>i. {..<nblk s i})"]) (auto simp: bud_rep_def)

lemma ord_for_upto:
  assumes "i < nord s" "z \<le> chunk_of s i"
  obtains j where "ord_for s z = Some j" "j \<le> i"
proof (cases "ord_for s z")
  case None
  then show ?thesis using assms by (auto simp: ord_for_def find_None_iff)
next
  case (Some j)
  then have "j \<le> i" using ord_for_Some [OF Some] assms(2) by (metis not_le)
  then show ?thesis using that Some by blast
qed

lemma chunk_mono: "j \<le> i \<Longrightarrow> chunk_of s j \<le> chunk_of s i"
  unfolding chunk_of_def by (intro mult_le_mono2 power_increasing) simp_all

lemma chunk_order: "0 < ll_of s \<Longrightarrow> chunk_of s j \<le> chunk_of s i \<longleftrightarrow> j \<le> i"
  by (simp add: chunk_of_def)

text \<open>Of order \<open>i\<close>, with blocks of \<open>c\<close> bytes, there are at least \<open>q\<close>; nothing larger is in use.\<close>

definition bud_upto :: "nat \<Rightarrow> nat \<Rightarrow> nat \<Rightarrow> 'a bud_state_scheme \<Rightarrow> region set \<Rightarrow> bool" where
  "bud_upto i c q s R \<longleftrightarrow> bud_regions s R \<and> i < nord s \<and> chunk_of s i = c \<and> q \<le> nblk s i \<and> (\<forall>r\<in>R. snd r \<le> c)"

lemma bud_upto_fits:
  assumes "bud_upto i c q s R" and z: "0 < z" "z \<le> c" and few: "card R < q"
  obtains j where "bud_fits s R z" "ord_for s z = Some j" "j \<le> i"
proof -
  have b: "bud_regions s R" "i < nord s" "chunk_of s i = c" "q \<le> nblk s i" "\<forall>r\<in>R. snd r \<le> c"
    using assms(1) by (simp_all add: bud_upto_def)
  obtain j where j: "ord_for s z = Some j" "j \<le> i" using ord_for_upto [of i s z] b(2,3) z(2) by blast
  obtain A0 where A0: "bud_rep s A0" using b(1) by (auto simp: bud_regions_def)
  have wf: "bitmaps_wf s" "heap_wf s" using A0 by (simp_all add: bud_rep_def)
  have ll: "0 < ll_of s" using chunk_bound(2) [OF wf(2) b(2)] by (simp add: chunk_of_def)
  have "0 < nblk s i" using few b(4) by simp
  then have "chunk_of s i \<le> nat (bm_heap_size (bm s))" using blk_numbers(2) [OF wf b(2), of 0] by simp
  then have hs: "int z \<le> bm_heap_size (bm s)" using z b(3) by linarith
  have "free_block s A j \<noteq> None" if A: "bud_rep s A" "R = blk_region s ` A" for A
  proof (rule free_below [OF bud_finite [OF A(1)] _ _ j(2)])
    show "\<forall>a\<in>A. fst a \<le> i" using b(5) A(2) chunk_order [OF ll] unfolding b(3) [symmetric] by (auto simp: blk_region_def)
    show "card A < nblk s i" using card_image [OF blk_region_inj [OF A(1)]] A(2) few b(4) by simp
  qed
  then have "bud_fits s R z" using z(1) hs j(1) by (auto simp: bud_fits_def)
  then show ?thesis using that j by blast
qed

interpretation buddies: heap_quota "bud_upto i c q" "\<lambda>s z. bud_alloc_raw s (int z)" bud_free_raw bud_poke km "\<lambda>z. 0 < z \<and> z \<le> c" q
  for i c q
proof unfold_locales
  fix s s' :: "'a bud_state_scheme" and R r p a n x v z
  note def = bud_upto_def [of i c q]
  have same: "bud_upto i c q s' R'" if "bud_upto i c q s R" "bud_regions s' R'" "bm s' = bm s" "nord s' = nord s" "\<forall>r\<in>R'. snd r \<le> c"
    for s s' :: "'a bud_state_scheme" and R R'
    using that by (simp add: def chunk_of_def nblk_def units_total_def)
  show "bud_upto i c q s R \<Longrightarrow> r \<in> R \<Longrightarrow> p \<in> R \<Longrightarrow> r \<noteq> p \<Longrightarrow> apart (fst r) (snd r) (fst p) (snd p)"
    using bud_apart_law [of s R] by (simp add: def)
  have alloc: "\<exists>a n s'. bud_alloc_raw s (int z) = Some (a, s') \<and> z \<le> n \<and> (a, n) \<notin> R \<and> bud_upto i c q s' (insert (a, n) R)
      \<and> (\<forall>r\<in>R. \<forall>x. inside (fst r) (snd r) x \<longrightarrow> km s' x = km s x)"
    if u: "bud_upto i c q s R" and z: "(0 < z \<and> z \<le> c) \<and> card R < q"
  proof -
    obtain j where j: "bud_fits s R z" "ord_for s z = Some j" "j \<le> i" using bud_upto_fits [OF u, of z] z by blast
    have R: "bud_regions s R" "chunk_of s i = c" "\<forall>r\<in>R. snd r \<le> c" using u by (simp_all add: def)
    obtain a s' where s': "bud_alloc_raw s (int z) = Some (a, s')" "(a, chunk_of s j) \<notin> R" "bud_regions s' (insert (a, chunk_of s j) R)"
      "bm s' = bm s" "nord s' = nord s" "\<forall>r\<in>R. \<forall>x. inside (fst r) (snd r) x \<longrightarrow> km s' x = km s x"
      using bud_alloc_law [OF R(1) j(1)] j(2) by auto
    have "chunk_of s j \<le> c" using chunk_mono [OF j(3), of s] R(2) by simp
    then have "bud_upto i c q s' (insert (a, chunk_of s j) R)" using same [OF u s'(3-5)] R(3) by simp
    then show ?thesis using s'(1,2,6) ord_for_Some [OF j(2)] by blast
  qed
  show "bud_upto i c q s R \<Longrightarrow> (0 < z \<and> z \<le> c) \<and> card R < q \<Longrightarrow>
      \<exists>a n s'. bud_alloc_raw s (int z) = Some (a, s') \<and> z \<le> n \<and> (a, n) \<notin> R \<and> bud_upto i c q s' (insert (a, n) R)"
    using alloc by blast
  show "bud_upto i c q s R \<Longrightarrow> (0 < z \<and> z \<le> c) \<and> card R < q \<Longrightarrow> bud_alloc_raw s (int z) = Some (a, s') \<Longrightarrow> r \<in> R
      \<Longrightarrow> inside (fst r) (snd r) x \<Longrightarrow> km s' x = km s x"
    using alloc by auto
  have free: "\<exists>s'. bud_free_raw s a = Some s' \<and> bud_upto i c q s' (R - {(a, n)})
      \<and> (\<forall>r\<in>R. \<forall>x. inside (fst r) (snd r) x \<longrightarrow> km s' x = km s x)" if u: "bud_upto i c q s R" and an: "(a, n) \<in> R"
  proof -
    have R: "bud_regions s R" "\<forall>r\<in>R. snd r \<le> c" using u by (simp_all add: def)
    obtain s' where s': "bud_free_raw s a = Some s'" "bud_regions s' (R - {(a, n)})" "bm s' = bm s" "nord s' = nord s"
      "\<forall>r\<in>R. \<forall>x. inside (fst r) (snd r) x \<longrightarrow> km s' x = km s x"
      using bud_free_law [OF R(1) an] by blast
    then show ?thesis using same [OF u s'(2-4)] R(2) by blast
  qed
  show "bud_upto i c q s R \<Longrightarrow> (a, n) \<in> R \<Longrightarrow> \<exists>s'. bud_free_raw s a = Some s' \<and> bud_upto i c q s' (R - {(a, n)})"
    using free by blast
  show "bud_upto i c q s R \<Longrightarrow> (a, n) \<in> R \<Longrightarrow> bud_free_raw s a = Some s' \<Longrightarrow> r \<in> R \<Longrightarrow> inside (fst r) (snd r) x \<Longrightarrow> km s' x = km s x"
    using free by auto
  show "bud_upto i c q s R \<Longrightarrow> (a, n) \<in> R \<Longrightarrow> inside a n x \<Longrightarrow> bud_upto i c q (bud_poke s x v) R"
    using same [of s R "bud_poke s x v" R] bud_poke_law [of s R a n x v] by (simp add: def bud_poke_def nord_def)
  show "km (bud_poke s x v) = (km s)(x := v)" by (simp add: bud_poke_def st8_def fun_eq_iff)
  show "bud_upto i c q s R \<Longrightarrow> finite R" using bud_finite by (auto simp: def bud_regions_def)
  show "snd r \<le> 2 ^ 32" if u: "bud_upto i c q s R" and rR: "r \<in> R"
  proof -
    obtain A b where A: "bud_rep s A" "b \<in> A" "r = blk_region s b" using u rR unfolding def bud_regions_def by blast
    have "chunk_of s (fst b) \<le> nat (bm_heap_size (bm s))" using blk_bounds(3) [OF A(1), of "fst b" "snd b"] A(2) by simp
    moreover have "nat (bm_heap_size (bm s)) \<le> 2 ^ 32" using A(1) by (auto simp: bud_rep_def heap_wf_def)
    ultimately show ?thesis using A(3) by (simp add: blk_region_def)
  qed
qed

end
