(* ===== verification/Mmi.thy ===== *)
theory Mmi
  imports Pool_Alloc Buddy_Alloc
begin

text \<open>
  \<open>mmi.c\<close>: \<open>yalloc\<close> and \<open>yfree\<close> choose between the buddy allocator (\<open>pm_if\<close>) and the pools
  (\<open>sm_if\<close>); \<open>mmi_init\<close> sets up both, the pools on a block of the buddy allocator, and \<open>mm_init\<close> of
  \<open>mm.c\<close> starts that at \<open>MM_BASE\<close>.  \<open>pm_if\<close> and \<open>sm_if\<close> are constant tables whose entries are all set,
  so the checks for missing entries never fire.  \<open>bitmap_alloc\<close> of \<open>bitmap.c\<close> is a client of \<open>yalloc\<close>.
\<close>

subsection \<open>Operations\<close>

text \<open>The size is an \<open>s64\<close>; \<open>mm_alloc\<close> of both tables takes an \<open>int\<close>.\<close>

definition yalloc :: "'a pool_state_scheme \<Rightarrow> int \<Rightarrow> (addr \<times> 'a pool_state_scheme) option" where
  "yalloc s sz =
     (if sz < 1 then Some (to_u32 (-1), s)
      else do {
        (addr, s) \<leftarrow> (if sz \<ge> mm_get_pri_llc then bud_alloc s (to_int sz) else pl_alloc s (to_int sz));
        if addr = NULL then Some (to_u32 (-8), s) else Some (addr, s) })"

definition yfree :: "'a pool_state_scheme \<Rightarrow> addr \<Rightarrow> 'a pool_state_scheme option" where
  "yfree s addr =
     (if addr = NULL then Some s
      else
        let w = mm_where_is_addr s addr in
        if w = MM_PRI then bud_free s addr
        else if w = MM_SEC then Some (pl_free s addr)
        else Some s)"

text \<open>
  \<open>bud_init\<close> has no return statement: \<open>junk\<close> is what the caller finds as its result.  It takes an
  \<open>int\<close> where the table declares an \<open>s64\<close>.
\<close>

definition mmi_init :: "'a pool_state_scheme \<Rightarrow> int \<Rightarrow> addr \<Rightarrow> int \<Rightarrow> (int \<times> 'a pool_state_scheme) option" where
  "mmi_init s junk base sz =
     (if base = NULL then Some (-5, s)
      else if sz < 1 then Some (-6, s)
      else do {
        (rmd, s) \<leftarrow> bud_init s junk base (to_int sz);
        if rmd < 0 then Some (-8, s)
        else do {
          sec_size \<leftarrow> pl_get_init_size;
          if sec_size < 0 then Some (-9, s)
          else do {
            (pl_base, s) \<leftarrow> bud_alloc s (to_int sec_size);
            if pl_base = NULL then Some (-10, s)
            else
              let sec_size = bud_rndup s (to_int sec_size) in
              if sec_size < 0 then Some (-14, s)
              else do {
                (r, s) \<leftarrow> pl_init s pl_base sec_size;
                let rmd = rmd + r;
                if rmd < 0 then Some (-18, s) else Some (to_int rmd, s) } } } })"

text \<open>\<open>virt\<close> is \<open>vmm.base\<close>, what \<open>vmm_phy_to_virt\<close> adds.\<close>

definition mm_init :: "'a pool_state_scheme \<Rightarrow> int \<Rightarrow> u32 \<Rightarrow> int \<Rightarrow> (int \<times> 'a pool_state_scheme) option" where
  "mm_init s junk virt hsize =
     (if hsize < MM_HEAP_MIN_SIZE then Some (-1, s)
      else do {
        let s = s\<lparr>mmm := (mmm s)\<lparr>org_size := hsize\<rparr>\<rparr>;
        (rmd, s) \<leftarrow> mmi_init s junk (MM_BASE + virt) hsize;
        if rmd < 0 then Some (-1, s)
        else do {
          h \<leftarrow> s32_ok (org_size (mmm s) - rmd);
          Some (0, s\<lparr>mmm := (mmm s)\<lparr>rmd_size := rmd, heap_size := h\<rparr>\<rparr>) } })"

text \<open>
  \<open>bitmap_alloc\<close> clears \<open>sizeof(bit * size)\<close> bytes, which is four, whatever the bitmap's size.
\<close>

definition bitmap_alloc :: "'a pool_state_scheme \<Rightarrow> bitmap option \<Rightarrow> u32 \<Rightarrow> u32
    \<Rightarrow> (int \<times> bitmap option \<times> 'a pool_state_scheme) option" where
  "bitmap_alloc s bmp nbit sz =
     (case bmp of
        None \<Rightarrow> Some (-1, None, s)
      | Some b \<Rightarrow>
          if nbit < 1 \<or> sz < 1 then Some (-1, Some b, s)
          else do {
            (a, s) \<leftarrow> yalloc s (int (unat ((nbit div 8) * sz)));
            let b = b\<lparr>bmp_base := a\<rparr>;
            if a = NULL then Some (-1, Some b, s)
            else
              let m = snd (memset (km s) a 0 4)
              in Some (0, Some (b\<lparr>bmp_bit := nbit, bmp_size := sz\<rparr>), s\<lparr>km := m\<rparr>) })"

end
