(* ===== verification/Machine.thy ===== *)
theory Machine
  imports Mmi
begin

text \<open>
  The machine the drivers run on: the heap's state, the driver's own variables, and the history of
  the accesses to devices.  A device is any function of that history: what it answers to a read
  may depend on all that was written and read before.  \<open>port.asm\<close> gives the port instructions.
\<close>

subsection \<open>Accesses to devices\<close>

text \<open>An access has a width in bits and a port, or the address of a memory-mapped register.\<close>

datatype event = OutP nat u16 u32 | InP nat u16 | WrReg addr u32 | RdReg addr

type_synonym device = "event list \<Rightarrow> event \<Rightarrow> u32"

subsection \<open>The drivers' data\<close>

record vga_text =
  vt_text :: u8
  vt_attr :: u8

text \<open>The rows of \<open>vga_buffer\<close> lie one after the other; a pixel is found at \<open>80 * row + column\<close>.\<close>

record dev_vga =
  vga_bp :: addr
  vga_cp :: addr
  vga_buffer :: "nat \<Rightarrow> vga_text"
  curr_row :: u32
  curr_col :: u32
  pre_row :: u32
  pre_col :: u32
  vga_inited :: bool

record intr_desc_tbl_entry32 =
  loffset :: u16
  selector :: u16
  rsvd :: u8
  idt_attr :: u8
  hoffset :: u16

record intr_desc_tbl_reg32 =
  idtr_limit :: u16
  idtr_base :: u32

record pit_dev =
  tps :: u32
  pit_inited :: bool

datatype conv = Parse_int | Parse_char | Parse_str | Parse_hex

record vmm =
  vmm_base :: u32
  vmm_inited :: bool

record machine = pool_state +
  trace :: "event list"
  vm :: vmm
  vga :: dev_vga
  parse :: "conv option"
  idt_tbl :: "intr_desc_tbl_entry32 list"
  idtr :: intr_desc_tbl_reg32
  pit :: pit_dev
  time_ticks :: u32

subsection \<open>Ports\<close>

definition inb :: "device \<Rightarrow> u16 \<Rightarrow> 'a machine_scheme \<Rightarrow> u8 \<times> 'a machine_scheme" where
  "inb d p s = (ucast (d (trace s) (InP 8 p)), s\<lparr>trace := trace s @ [InP 8 p]\<rparr>)"

definition inw :: "device \<Rightarrow> u16 \<Rightarrow> 'a machine_scheme \<Rightarrow> u16 \<times> 'a machine_scheme" where
  "inw d p s = (ucast (d (trace s) (InP 16 p)), s\<lparr>trace := trace s @ [InP 16 p]\<rparr>)"

definition ind :: "device \<Rightarrow> u16 \<Rightarrow> 'a machine_scheme \<Rightarrow> u32 \<times> 'a machine_scheme" where
  "ind d p s = (d (trace s) (InP 32 p), s\<lparr>trace := trace s @ [InP 32 p]\<rparr>)"

definition outb :: "u16 \<Rightarrow> u8 \<Rightarrow> 'a machine_scheme \<Rightarrow> 'a machine_scheme" where
  "outb p v s = s\<lparr>trace := trace s @ [OutP 8 p (ucast v)]\<rparr>"

definition outd :: "u16 \<Rightarrow> u32 \<Rightarrow> 'a machine_scheme \<Rightarrow> 'a machine_scheme" where
  "outd p v s = s\<lparr>trace := trace s @ [OutP 32 p v]\<rparr>"

text \<open>\<open>io_wait\<close> writes all of \<open>eax\<close>, which is zero, to port 0x80.\<close>

definition io_wait :: "'a machine_scheme \<Rightarrow> 'a machine_scheme" where
  "io_wait s = s\<lparr>trace := trace s @ [OutP 32 0x80 0]\<rparr>"

lemmas port_defs = inb_def inw_def ind_def outb_def outd_def io_wait_def

lemma byte_mask: "(255 :: u32) = mask 8"
  by (simp add: mask_eq_exp_minus_1)

lemma byte_mask16: "(255 :: u16) = mask 8"
  by (simp add: mask_eq_exp_minus_1)

lemma low_byte: "ucast (ucast w :: u8) = (w AND 255 :: u16)"
  unfolding byte_mask16 by (rule bit_word_eqI) (auto simp: bit_simps)

lemma byte_back [simp]: "ucast (ucast (b :: u8) :: u32) = b" "ucast (ucast (h :: u16) :: u32) = h"
  by (rule bit_word_eqI, auto simp: bit_simps)+

text \<open>What the ports have been sent.\<close>

fun outputs :: "event list \<Rightarrow> (u16 \<times> u32) list" where
  "outputs [] = []"
| "outputs (OutP w p v # es) = (p, v) # outputs es"
| "outputs (e # es) = outputs es"

lemma outputs_append [simp]: "outputs (xs @ ys) = outputs xs @ outputs ys"
  by (induction xs rule: outputs.induct) simp_all

subsection \<open>Virtual addresses (\<open>vmm.c\<close>)\<close>

definition vmm_get_tbl_offset :: "u32 \<Rightarrow> u32" where
  "vmm_get_tbl_offset virt_addr = drop_bit 12 virt_addr"

definition vmm_get_dir_offset :: "u32 \<Rightarrow> u32" where
  "vmm_get_dir_offset virt_addr = drop_bit 22 virt_addr"

definition vmm_virt_to_phy :: "'a machine_scheme \<Rightarrow> u32 \<Rightarrow> addr" where
  "vmm_virt_to_phy s virt = virt - vmm_base (vm s)"

definition vmm_phy_to_virt :: "'a machine_scheme \<Rightarrow> u32 \<Rightarrow> addr" where
  "vmm_phy_to_virt s phy = phy + vmm_base (vm s)"

definition vmm_get_uint32 :: "'a machine_scheme \<Rightarrow> u32 \<Rightarrow> u32" where
  "vmm_get_uint32 s phy = ld32 (km s) (vmm_phy_to_virt s phy)"

definition vmm_get_uint16 :: "'a machine_scheme \<Rightarrow> u32 \<Rightarrow> u16" where
  "vmm_get_uint16 s phy = ld16 (km s) (vmm_phy_to_virt s phy)"

definition vmm_get_uint8 :: "'a machine_scheme \<Rightarrow> u32 \<Rightarrow> u8" where
  "vmm_get_uint8 s phy = km s (vmm_phy_to_virt s phy)"

text \<open>
  \<open>virt_base\<close> is the address of the linker's symbol.  Only the first call has an effect; it returns
  nothing, a later one 0.
\<close>

definition vmm_init :: "u32 \<Rightarrow> 'a machine_scheme \<Rightarrow> 'a machine_scheme" where
  "vmm_init virt_base s =
     (if vmm_inited (vm s) then s else s\<lparr>vm := \<lparr>vmm_base = virt_base, vmm_inited = True\<rparr>\<rparr>)"

lemma vmm_virt_phy [simp]:
  "vmm_virt_to_phy s (vmm_phy_to_virt s a) = a" "vmm_phy_to_virt s (vmm_virt_to_phy s a) = a"
  by (simp_all add: vmm_virt_to_phy_def vmm_phy_to_virt_def)

subsection \<open>Interrupt descriptors (\<open>interrupt.c\<close>)\<close>

text \<open>The table has 256 entries; the guard lets the vector 256 through, which writes behind it.\<close>

abbreviation IDT_MAX_ENTRYS :: int where "IDT_MAX_ENTRYS \<equiv> 0x100"

definition interrupt_register_handler :: "int \<Rightarrow> u32 \<Rightarrow> u8 \<Rightarrow> 'a machine_scheme \<Rightarrow> 'a machine_scheme option" where
  "interrupt_register_handler vector offset att s =
     (if vector < 0 \<or> vector > IDT_MAX_ENTRYS then Some s
      else if nat vector < length (idt_tbl s) then
        Some (s\<lparr>idt_tbl := (idt_tbl s)[nat vector := (idt_tbl s ! nat vector)\<lparr>loffset := ucast offset,
          hoffset := ucast (drop_bit 16 offset), selector := 0x08, idt_attr := att\<rparr>]\<rparr>)
      else None)"

fun register_all :: "nat \<Rightarrow> nat \<Rightarrow> u32 \<Rightarrow> 'a machine_scheme \<Rightarrow> 'a machine_scheme option" where
  "register_all 0 i f s = Some s"
| "register_all (Suc n) i f s = do {
     s \<leftarrow> interrupt_register_handler (int i) f 0x8F s;
     register_all n (Suc i) f s }"

text \<open>
  \<open>isr\<close> gives the addresses of \<open>isr_common_handler\<close> and the four stubs of \<open>isr.asm\<close>, \<open>tbl\<close> the one of
  the table.  \<open>INT_VEC_MAX\<close> is 0x81, one more than the system call's vector.
\<close>

record isr_addrs =
  isr_common :: u32
  isr_division_error :: u32
  isr_nmi :: u32
  isr_gpf :: u32
  isr_pf :: u32
  isr_timer :: u32
  isr_keyboard :: u32
  isr_syscall :: u32

definition interrupt_init :: "isr_addrs \<Rightarrow> u32 \<Rightarrow> 'a machine_scheme \<Rightarrow> 'a machine_scheme option" where
  "interrupt_init isr tbl s = do {
     let s = s\<lparr>idtr := \<lparr>idtr_limit = 2047, idtr_base = tbl\<rparr>\<rparr>;
     s \<leftarrow> register_all 0x81 0 (isr_common isr) s;
     s \<leftarrow> interrupt_register_handler 0x00 (isr_division_error isr) 0x8F s;
     s \<leftarrow> interrupt_register_handler 0x02 (isr_nmi isr) 0x8F s;
     s \<leftarrow> interrupt_register_handler 0x0D (isr_gpf isr) 0x8F s;
     interrupt_register_handler 0x0E (isr_pf isr) 0x8F s }"

definition syscall_init :: "isr_addrs \<Rightarrow> 'a machine_scheme \<Rightarrow> 'a machine_scheme option" where
  "syscall_init isr s = interrupt_register_handler 0x80 (isr_syscall isr) 0xEE s"

text \<open>The address of an entry's handler, as the processor puts it together.\<close>

definition gate_target :: "intr_desc_tbl_entry32 \<Rightarrow> u32" where
  "gate_target e = ucast (loffset e) OR push_bit 16 (ucast (hoffset e))"

lemma gate_halves: "ucast (ucast off :: u16) OR push_bit 16 (ucast (ucast (drop_bit 16 off) :: u16)) = (off :: u32)"
  by (rule bit_word_eqI) (auto simp: bit_simps)

lemma register_handler_ok:
  assumes "length (idt_tbl s) = 256" "0 \<le> v" "v < 256"
  shows "\<exists>s'. interrupt_register_handler v f a s = Some s' \<and> length (idt_tbl s') = 256
    \<and> s' = s\<lparr>idt_tbl := idt_tbl s'\<rparr>
    \<and> gate_target (idt_tbl s' ! nat v) = f \<and> idt_attr (idt_tbl s' ! nat v) = a \<and> selector (idt_tbl s' ! nat v) = 0x08
    \<and> (\<forall>i<256. i \<noteq> nat v \<longrightarrow> idt_tbl s' ! i = idt_tbl s ! i)"
proof -
  have "nat v < 256" using assms(2,3) by simp
  then show ?thesis
    using assms by (simp add: interrupt_register_handler_def gate_target_def gate_halves)
qed

end
