(* ===== verification/Sched.thy ===== *)
theory Sched
  imports Machine
begin

text \<open>
  Processes and the scheduler (\<open>proc.c\<close>, \<open>sched.c\<close>, and \<open>context_switch\<close> of \<open>task.asm\<close>).  The process
  control blocks are in memory, in the array \<open>proc_mgr.proc_table\<close>; the scheduler's \<open>context\<close>, which
  \<open>context_switch\<close> writes through a pointer, is in memory too.  \<open>memset(scheduler, ...)\<close> and
  \<open>memset(proc_mgr, ...)\<close> pass the structures by value to an undeclared function; on the zeroed
  variables of a fresh kernel, where the length it sees is 0, they have no effect.
\<close>

abbreviation PROC_MAX :: nat where "PROC_MAX \<equiv> 128"
abbreviation PROC_STACK_SIZE :: u32 where "PROC_STACK_SIZE \<equiv> 2048"
abbreviation PROC_SIZE :: nat where "PROC_SIZE \<equiv> 28"

abbreviation PROC_FREE :: u8 where "PROC_FREE \<equiv> 0"
abbreviation PROC_READY :: u8 where "PROC_READY \<equiv> 1"
abbreviation PROC_RUN :: u8 where "PROC_RUN \<equiv> 2"
abbreviation PROC_BLOCK :: u8 where "PROC_BLOCK \<equiv> 3"
abbreviation PROC_TERM :: u8 where "PROC_TERM \<equiv> 4"

text \<open>The sizes of \<open>struct intr_context\<close> and \<open>struct proc_context\<close>.\<close>

abbreviation INTR_CONTEXT :: u32 where "INTR_CONTEXT \<equiv> 80"
abbreviation PROC_CONTEXT :: u32 where "PROC_CONTEXT \<equiv> 20"

subsection \<open>State\<close>

record scheduler =
  sc_inited :: bool
  ready_list :: addr
  readys :: u32
  block_list :: addr
  blocks :: u32
  context_at :: addr
  cur_proc :: addr

record proc_mgmt =
  proc_table :: addr
  proc_stack :: addr
  next_pid :: u32
  proc_inited :: bool

record sched_state = machine +
  sc :: scheduler
  pmgr :: proc_mgmt

text \<open>The fields of \<open>struct proc_ctrl_blk\<close>.\<close>

definition p_state :: "mem \<Rightarrow> addr \<Rightarrow> u8" where "p_state m p = m (p + 4)"
definition p_pc :: "mem \<Rightarrow> addr \<Rightarrow> u32" where "p_pc m p = ld32 m (p + 16)"
definition p_node :: "addr \<Rightarrow> addr" where "p_node p = p + 20"
definition proc_of :: "addr \<Rightarrow> addr" where "proc_of node = node - 20"
definition set_state :: "mem \<Rightarrow> addr \<Rightarrow> u8 \<Rightarrow> mem" where "set_state m p v = st8 m (p + 4) v"

subsection \<open>Switching contexts\<close>

record cpu_regs =
  edi :: u32
  esi :: u32
  ebx :: u32
  ebp :: u32
  esp :: u32
  eip :: u32

definition push :: "u32 \<Rightarrow> cpu_regs \<times> mem \<Rightarrow> cpu_regs \<times> mem" where
  "push v cm = (let (c, m) = cm; e = esp c - 4 in (c\<lparr>esp := e\<rparr>, st32 m e v))"

definition pop :: "cpu_regs \<times> mem \<Rightarrow> u32 \<times> cpu_regs \<times> mem" where
  "pop cm = (let (c, m) = cm in (ld32 m (esp c), c\<lparr>esp := esp c + 4\<rparr>, m))"

text \<open>\<open>context_switch\<close>, entered with the return address on the stack and the two arguments below it.\<close>

definition context_switch :: "cpu_regs \<times> mem \<Rightarrow> cpu_regs \<times> mem" where
  "context_switch cm =
     (let old = ld32 (snd cm) (esp (fst cm) + 4);
          new = ld32 (snd cm) (esp (fst cm) + 8);
          cm = push (edi (fst cm)) cm;
          cm = push (esi (fst cm)) cm;
          cm = push (ebx (fst cm)) cm;
          cm = push (ebp (fst cm)) cm;
          (c, m) = cm;
          m = st32 m old (esp c);
          c = c\<lparr>esp := new\<rparr>;
          (v, c, m) = pop (c, m); c = c\<lparr>ebp := v\<rparr>;
          (v, c, m) = pop (c, m); c = c\<lparr>ebx := v\<rparr>;
          (v, c, m) = pop (c, m); c = c\<lparr>esi := v\<rparr>;
          (v, c, m) = pop (c, m); c = c\<lparr>edi := v\<rparr>;
          (v, c, m) = pop (c, m)
      in (c\<lparr>eip := v\<rparr>, m))"

text \<open>The call \<open>context_switch(old, new)\<close>: the arguments from right to left, the return address.\<close>

definition call_switch :: "addr \<Rightarrow> u32 \<Rightarrow> u32 \<Rightarrow> cpu_regs \<times> mem \<Rightarrow> cpu_regs \<times> mem" where
  "call_switch old new ret cm = context_switch (push ret (push old (push new cm)))"

subsection \<open>The ready and the block list\<close>

definition sched_get_proc :: "'a sched_state_scheme \<Rightarrow> addr" where
  "sched_get_proc s = cur_proc (sc s)"

definition sched_add_ready_raw :: "'a sched_state_scheme \<Rightarrow> addr \<Rightarrow> 'a sched_state_scheme" where
  "sched_add_ready_raw s proc =
     (let m = snd (list_add (km s) (ready_list (sc s)) (p_node proc))
      in s\<lparr>km := m, sc := (sc s)\<lparr>readys := readys (sc s) + 1\<rparr>\<rparr>)"

definition sched_add_ready :: "'a sched_state_scheme \<Rightarrow> addr \<Rightarrow> 'a sched_state_scheme" where
  "sched_add_ready s proc =
     (if \<not> sc_inited (sc s) then s
      else if proc = NULL then s
      else sched_add_ready_raw s proc)"

definition sched_add_block :: "'a sched_state_scheme \<Rightarrow> addr \<Rightarrow> 'a sched_state_scheme" where
  "sched_add_block s proc =
     (if \<not> sc_inited (sc s) then s
      else if proc = NULL then s
      else s\<lparr>km := snd (list_add (km s) (block_list (sc s)) (p_node proc))\<rparr>)"

definition sched_del_ready :: "'a sched_state_scheme \<Rightarrow> addr \<Rightarrow> 'a sched_state_scheme" where
  "sched_del_ready s proc =
     (if \<not> sc_inited (sc s) then s
      else if proc = NULL then s
      else if p_state (km s) proc \<noteq> PROC_READY then s
      else
        let m = snd (list_del (km s) (ready_list (sc s)) (p_node proc))
        in s\<lparr>km := m, sc := (sc s)\<lparr>readys := readys (sc s) - 1\<rparr>\<rparr>)"

definition sched_exit :: "'a sched_state_scheme \<Rightarrow> 'a sched_state_scheme" where
  "sched_exit s =
     (let proc = cur_proc (sc s) in
      if \<not> sc_inited (sc s) then s
      else if proc = NULL then s
      else sched_add_ready_raw (s\<lparr>km := set_state (km s) proc PROC_TERM\<rparr>) proc)"

definition sched_timer :: "'a sched_state_scheme \<Rightarrow> 'a sched_state_scheme" where
  "sched_timer s =
     (let proc = cur_proc (sc s) in
      if \<not> sc_inited (sc s) then s
      else if proc = NULL then s
      else sched_add_ready_raw (s\<lparr>km := set_state (km s) proc PROC_READY\<rparr>) proc)"

definition sched_sleep :: "'a sched_state_scheme \<Rightarrow> 'a sched_state_scheme" where
  "sched_sleep s =
     (let proc = cur_proc (sc s) in
      if \<not> sc_inited (sc s) then s
      else if proc = NULL then s
      else sched_add_block (s\<lparr>km := set_state (km s) proc PROC_BLOCK\<rparr>) proc)"

text \<open>
  \<open>sched_yield\<close> up to its context switch, which is made or not, and the call itself; \<open>ret\<close> is the
  address behind the call.
\<close>

definition sched_yield :: "u32 \<Rightarrow> cpu_regs \<Rightarrow> 'a sched_state_scheme \<Rightarrow> cpu_regs \<times> 'a sched_state_scheme" where
  "sched_yield ret c s =
     (let proc = cur_proc (sc s) in
      if \<not> sc_inited (sc s) then (c, s)
      else if proc = NULL then (c, s)
      else
        let s = sched_add_ready_raw (s\<lparr>km := set_state (km s) proc PROC_READY\<rparr>) proc;
            (c, m) = call_switch (proc + 16) (ld32 (km s) (context_at (sc s))) ret (c, km s)
        in (c, s\<lparr>km := m\<rparr>))"

text \<open>
  One pass of the loop of \<open>_sched\<close>: it looks again when no process is ready, returns when the list is
  empty all the same, or switches to the first process of the list.
\<close>

datatype pass = Again | Return | Switched

definition sched_pass :: "u32 \<Rightarrow> cpu_regs \<Rightarrow> 'a sched_state_scheme \<Rightarrow> pass \<times> cpu_regs \<times> 'a sched_state_scheme" where
  "sched_pass ret c s =
     (if readys (sc s) = 0 then (Again, c, s)
      else
        let (node, m) = list_get (km s) (ready_list (sc s)) in
        if node = NULL then (Return, c, s\<lparr>km := m\<rparr>)
        else
          let new = proc_of node in
          if new = NULL then (Return, c, s\<lparr>km := m\<rparr>)
          else
            let s = s\<lparr>km := set_state m new PROC_RUN,
                  sc := (sc s)\<lparr>readys := readys (sc s) - 1, cur_proc := new\<rparr>\<rparr>;
                (c, m) = call_switch (context_at (sc s)) (p_pc (km s) new) ret (c, km s)
            in (Switched, c, s\<lparr>km := m\<rparr>))"

definition sched_init :: "'a sched_state_scheme \<Rightarrow> 'a sched_state_scheme option" where
  "sched_init s = do {
     (a, s) \<leftarrow> yalloc s 8;
     let s = s\<lparr>sc := (sc s)\<lparr>ready_list := a\<rparr>\<rparr>;
     if a = NULL then Some s
     else do {
       (b, s) \<leftarrow> yalloc s 8;
       let s = s\<lparr>sc := (sc s)\<lparr>block_list := b\<rparr>\<rparr>;
       if b = NULL then Some s
       else
         let m = list_init_head (km s) a;
             m = list_init_head m b
         in Some (s\<lparr>km := m, sc := (sc s)\<lparr>readys := 0, blocks := 0, sc_inited := True\<rparr>\<rparr>) } }"

subsection \<open>Processes\<close>

text \<open>The first free entry of the table, or 128.\<close>

function find_free :: "mem \<Rightarrow> addr \<Rightarrow> nat \<Rightarrow> nat" where
  "find_free m tbl i =
     (if i < PROC_MAX then
        (if p_state m (tbl + of_nat (PROC_SIZE * i)) = 0 then i else find_free m tbl (i + 1))
      else i)"
  by pat_completeness auto
termination
  by (relation "measure (\<lambda>(m, tbl, i). PROC_MAX - i)") auto

declare find_free.simps [simp del]

text \<open>\<open>utk\<close> is the address of \<open>switch_kern_to_user\<close>.\<close>

definition proc_create :: "u32 \<Rightarrow> 'a sched_state_scheme \<Rightarrow> u32 \<Rightarrow> addr \<times> 'a sched_state_scheme" where
  "proc_create utk s entry_point =
     (if \<not> proc_inited (pmgr s) then (NULL, s)
      else
        let i = find_free (km s) (proc_table (pmgr s)) 0 in
        if i \<ge> PROC_MAX then (NULL, s)
        else
          let proc = proc_table (pmgr s) + of_nat (PROC_SIZE * i);
              m = set_state (km s) proc PROC_READY;
              stack = proc_stack (pmgr s) + of_nat i * PROC_STACK_SIZE;
              m = st32 m (proc + 8) stack;
              m = st32 m proc (next_pid (pmgr s));
              ic = (stack + PROC_STACK_SIZE) - INTR_CONTEXT;
              m = st32 m (proc + 12) ic;
              pc = ic - PROC_CONTEXT;
              m = st32 m (proc + 16) pc;
              m = snd (memset m pc 0 20);
              m = st32 m (pc + 16) (if entry_point \<noteq> NULL then entry_point else utk);
              s = s\<lparr>km := m, pmgr := (pmgr s)\<lparr>next_pid := next_pid (pmgr s) + 1\<rparr>\<rparr>
          in (proc, sched_add_ready s proc))"

definition proc_exit :: "'a sched_state_scheme \<Rightarrow> addr \<Rightarrow> 'a sched_state_scheme" where
  "proc_exit s proc = (if proc = NULL then s else s\<lparr>km := set_state (km s) proc PROC_FREE\<rparr>)"

text \<open>A failed allocation is only reported.\<close>

definition proc_init :: "'a sched_state_scheme \<Rightarrow> 'a sched_state_scheme option" where
  "proc_init s = do {
     (a, s) \<leftarrow> yalloc s (int PROC_MAX * 2048);
     Some (s\<lparr>pmgr := (pmgr s)\<lparr>proc_stack := a, proc_inited := True\<rparr>\<rparr>) }"

end
