(* ===== verification/Sched_Spec.thy ===== *)
theory Sched_Spec
  imports Sched
begin

text \<open>
  The scheduler as a machine of threads.  The abstract machine keeps a queue of process numbers, the
  process that runs, and for every other process the registers it will see when it goes on; a step
  dispatches the first process of the queue, lets the running one work, or lets it yield.  The
  concrete step relation \<open>kstep\<close> is over the modelled \<open>sched_pass\<close> and \<open>sched_yield\<close>; the
  processes' own work is any change of the machine that leaves the scheduler's data and the others' stacks alone.
\<close>

subsection \<open>What the list operations leave alone\<close>

lemma list_add_frame:
  assumes d: "dlist m h xs" and ok: "nodes_ok (h # xs @ [n])" and x: "\<not> in_nodes (h # xs @ [n]) x"
  shows "snd (list_add m h n) x = m x"
proof -
  have l: "l_prev m h \<in> set (h # xs)"
    using d dseg_last [of m h xs h] by (cases xs) (auto simp: dlist_def)
  have no: "\<not> inside a 8 x" if "a \<in> set (h # xs @ [n])" for a using x that by (auto simp: in_nodes_def)
  have lo: "\<not> inside (l_prev m h) 8 x" using no l by auto
  have "n \<noteq> h" using nodes_ok_distinct [OF ok] by auto
  then have e: "l_prev (set_next (set_prev m n (l_prev m h)) n h) h = l_prev m h"
    using nodes_ok_sep [OF ok, of n h] by (simp add: node_upd)
  show ?thesis
    using no [of n] no [of h] lo
    by (simp add: list_add_def Let_def e set_next_other set_prev_other)
qed

lemma list_get_frame:
  assumes d: "dlist m h (y # xs)" and x: "\<not> in_nodes (h # y # xs) x"
  shows "snd (list_get m h) x = m x"
proof -
  have no: "\<not> inside a 8 x" if "a \<in> set (h # y # xs)" for a using x that by (auto simp: in_nodes_def)
  have n: "l_next m h = y" and seg: "dseg m y xs h" using d by (simp_all add: dlist_def)
  have "l_next m y \<in> set (h # xs)" using dseg_next [OF seg] by (cases xs) auto
  then have "\<not> inside (l_next m y) 8 x" using no by auto
  then show ?thesis
    using no [of h] n by (simp add: list_get_def Let_def set_next_other set_prev_other next_set_next)
qed

subsection \<open>Context switches\<close>

definition load_ctx :: "mem \<Rightarrow> addr \<Rightarrow> cpu_regs" where
  "load_ctx m a = \<lparr>edi = ld32 m (a + 12), esi = ld32 m (a + 8), ebx = ld32 m (a + 4), ebp = ld32 m a,
     esp = a + 20, eip = ld32 m (a + 16)\<rparr>"

lemma load_ctx_cong:
  assumes "\<And>x. inside a 20 x \<Longrightarrow> m' x = m x"
  shows "load_ctx m' a = load_ctx m a"
proof -
  have "ld32 m' (a + of_nat d) = ld32 m (a + of_nat d)" if "d + 4 \<le> 20" for d
    by (rule ld32_cong) (use that assms inside_offset [of a d 4 _ 20] in auto)
  from this [of 0] this [of 4] this [of 8] this [of 12] this [of 16] show ?thesis
    by (simp add: load_ctx_def)
qed

text \<open>The memory when \<open>context_switch\<close> has pushed everything and stored the stack pointer.\<close>

definition switch_mem :: "addr \<Rightarrow> u32 \<Rightarrow> u32 \<Rightarrow> cpu_regs \<Rightarrow> mem \<Rightarrow> mem" where
  "switch_mem old new ret c m =
     (let m = st32 m (esp c - 4) new; m = st32 m (esp c - 8) old; m = st32 m (esp c - 12) ret;
          m = st32 m (esp c - 16) (edi c); m = st32 m (esp c - 20) (esi c);
          m = st32 m (esp c - 24) (ebx c); m = st32 m (esp c - 28) (ebp c)
      in st32 m old (esp c - 28))"

lemma down_apart: "apart (a - 4) 4 (a - 8) 4" "apart (a - 4) 4 (a - 12) 4" "apart (a - 8) 4 (a - 12) 4"
  by (simp_all add: apart_def)

lemma call_switch_eq:
  "call_switch old new ret (c, m) =
     (load_ctx (switch_mem old new ret c m) new, switch_mem old new ret c m)"
proof -
  define m3 where "m3 = st32 (st32 (st32 m (esp c - 4) new) (esp c - 8) old) (esp c - 12) ret"
  have "ld32 m3 (esp c - 8) = old" "ld32 m3 (esp c - 4) = new"
    by (simp_all add: m3_def ld32_st32_apart down_apart)
  then show ?thesis
    by (simp add: call_switch_def context_switch_def push_def pop_def load_ctx_def switch_mem_def
        Let_def algebra_simps flip: m3_def)
qed

lemma switch_mem_other:
  assumes "\<not> inside (esp c - 28) 28 x" "\<not> inside old 4 x"
  shows "switch_mem old new ret c m x = m x"
proof -
  have "\<not> inside (esp c - 28 + of_nat d) 4 x" if "d + 4 \<le> 28" for d
    using assms(1) that inside_offset [of "esp c - 28" d 4 x 28] by auto
  from this [of 0] this [of 4] this [of 8] this [of 12] this [of 16] this [of 20] this [of 24]
  show ?thesis using assms(2) by (simp add: switch_mem_def Let_def st32_other)
qed

lemma switch_mem_saved:
  assumes "apart (esp c - 28) 28 old 4"
  shows "ld32 (switch_mem old new ret c m) old = esp c - 28"
    and "load_ctx (switch_mem old new ret c m) (esp c - 28) = c\<lparr>esp := esp c - 8, eip := ret\<rparr>"
proof -
  have o: "apart (esp c - 28 + of_nat d) 4 old 4" if "d + 4 \<le> 28" for d
    using apart_sub [OF assms, of d 4 0 4] that by simp
  have b: "apart (esp c - 28 + of_nat d) 4 (esp c - 28 + of_nat e) 4"
    if "d + 4 \<le> e \<or> e + 4 \<le> d" "d < 28" "e < 28" for d e
    using that apart_offsets [of d 4 e 4 "esp c - 28"] apart_offsets [of e 4 d 4 "esp c - 28"]
    by (auto simp: apart_sym)
  show "ld32 (switch_mem old new ret c m) old = esp c - 28"
    by (simp add: switch_mem_def Let_def)
  note o' = o [of 0] o [of 4] o [of 8] o [of 12] o [of 16]
  note b' = b [of 4 0] b [of 8 0] b [of 8 4] b [of 12 0] b [of 12 4] b [of 12 8]
    b [of 16 0] b [of 16 4] b [of 16 8] b [of 16 12]
  show "load_ctx (switch_mem old new ret c m) (esp c - 28) = c\<lparr>esp := esp c - 8, eip := ret\<rparr>"
    using o' b' by (simp add: load_ctx_def switch_mem_def Let_def ld32_st32_apart)
qed

end
