(* ===== verification/Threads.thy ===== *)
theory Threads
  imports Sched_Spec
begin

text \<open>
  The scheduler refines a machine of threads: where things are in memory, the relation between the
  ready list with the saved contexts and the abstract queue, the two step relations and the
  simulation.
\<close>

subsection \<open>Layout\<close>

definition pcb :: "'a sched_state_scheme \<Rightarrow> nat \<Rightarrow> addr" where
  "pcb s i = proc_table (pmgr s) + of_nat (28 * i)"

definition pnode :: "'a sched_state_scheme \<Rightarrow> nat \<Rightarrow> addr" where
  "pnode s i = p_node (pcb s i)"

definition pstk :: "'a sched_state_scheme \<Rightarrow> nat \<Rightarrow> addr" where
  "pstk s i = proc_stack (pmgr s) + of_nat (2048 * i)"

text \<open>The process table, the stacks, the scheduler's list head and context, and its own stack.\<close>

definition layout :: "'a sched_state_scheme \<Rightarrow> addr \<Rightarrow> bool" where
  "layout s b \<longleftrightarrow>
     apart (proc_table (pmgr s)) 3584 (proc_stack (pmgr s)) 262144 \<and>
     apart (proc_table (pmgr s)) 3584 (ready_list (sc s)) 8 \<and>
     apart (proc_table (pmgr s)) 3584 (context_at (sc s)) 4 \<and>
     apart (proc_table (pmgr s)) 3584 b 28 \<and>
     apart (ready_list (sc s)) 8 (proc_stack (pmgr s)) 262144 \<and>
     apart (ready_list (sc s)) 8 (context_at (sc s)) 4 \<and>
     apart (ready_list (sc s)) 8 b 28 \<and>
     apart (context_at (sc s)) 4 (proc_stack (pmgr s)) 262144 \<and>
     apart (context_at (sc s)) 4 b 28 \<and>
     apart b 28 (proc_stack (pmgr s)) 262144 \<and>
     ready_list (sc s) \<noteq> 0 \<and> proc_table (pmgr s) \<noteq> 0 \<and>
     unat (proc_table (pmgr s)) + 3584 \<le> 2 ^ 32"

text \<open>Nothing moves while the scheduler runs.\<close>

definition same_place :: "'a sched_state_scheme \<Rightarrow> 'a sched_state_scheme \<Rightarrow> bool" where
  "same_place s s' \<longleftrightarrow> pmgr s' = pmgr s \<and> ready_list (sc s') = ready_list (sc s)
     \<and> context_at (sc s') = context_at (sc s) \<and> sc_inited (sc s') = sc_inited (sc s)"

lemma same_place_pcb:
  "same_place s s' \<Longrightarrow> pcb s' = pcb s \<and> pnode s' = pnode s \<and> pstk s' = pstk s \<and> layout s' b = layout s b"
  by (auto simp: same_place_def pcb_def pnode_def pstk_def layout_def fun_eq_iff)

lemma pcb_inside: "i < 128 \<Longrightarrow> inside (pcb s i + of_nat d) n x \<Longrightarrow> d + n \<le> 28 \<Longrightarrow>
    inside (proc_table (pmgr s)) 3584 x"
  by (rule inside_sub [where d = "28 * i + d" and n = n and a = "pcb s i + of_nat d"]) (simp_all add: pcb_def add.assoc)

lemma stk_inside: "i < 128 \<Longrightarrow> inside (pstk s i + of_nat d) n x \<Longrightarrow> d + n \<le> 2048 \<Longrightarrow>
    inside (proc_stack (pmgr s)) 262144 x"
  by (rule inside_sub [where d = "2048 * i + d" and n = n and a = "pstk s i + of_nat d"]) (simp_all add: pstk_def add.assoc)

lemma pcb_apart:
  assumes "i < 128" "j < 128" "i \<noteq> j" "d + n \<le> 28" "e + k \<le> 28" "0 < n" "0 < k"
  shows "apart (pcb s i + of_nat d) n (pcb s j + of_nat e) k"
proof -
  have a: "apart (pcb s i + of_nat d) n (pcb s j + of_nat e) k"
    if "28 * i + d + n \<le> 28 * j + e" "j < 128" "e + k \<le> 28" "0 < n" "0 < k" for i j d e n k
    using apart_offsets [of "28 * i + d" n "28 * j + e" k "proc_table (pmgr s)"] that
    by (simp add: pcb_def algebra_simps)
  show ?thesis
  proof (cases "i < j")
    case True
    then show ?thesis using assms by (intro a) auto
  next
    case False
    then have "apart (pcb s j + of_nat e) k (pcb s i + of_nat d) n" using assms by (intro a) auto
    then show ?thesis by (simp add: apart_sym)
  qed
qed

lemma stk_apart:
  assumes "i < 128" "j < 128" "i \<noteq> j" "d + n \<le> 2048" "e + k \<le> 2048" "0 < n" "0 < k"
  shows "apart (pstk s i + of_nat d) n (pstk s j + of_nat e) k"
proof -
  have a: "apart (pstk s i + of_nat d) n (pstk s j + of_nat e) k"
    if "2048 * i + d + n \<le> 2048 * j + e" "j < 128" "e + k \<le> 2048" "0 < n" "0 < k" for i j d e n k
    using apart_offsets [of "2048 * i + d" n "2048 * j + e" k "proc_stack (pmgr s)"] that
    by (simp add: pstk_def algebra_simps)
  show ?thesis
  proof (cases "i < j")
    case True
    then show ?thesis using assms by (intro a) auto
  next
    case False
    then have "apart (pstk s j + of_nat e) k (pstk s i + of_nat d) n" using assms by (intro a) auto
    then show ?thesis by (simp add: apart_sym)
  qed
qed

lemma pcb_eq_iff: "i < 128 \<Longrightarrow> j < 128 \<Longrightarrow> pcb s i = pcb s j \<longleftrightarrow> i = j"
  using pcb_apart [of i j 0 1 0 1 s] by (cases "i = j") auto

lemma pcb_nonnull:
  assumes "layout s b" "i < 128"
  shows "pcb s i \<noteq> 0" "pnode s i \<noteq> 0"
proof -
  let ?t = "proc_table (pmgr s)"
  have "unat ?t \<noteq> 0" using assms(1) by (simp add: layout_def unat_eq_0)
  moreover have "unat (?t + of_nat k) = unat ?t + k" if "k < 3584" for k
    using that assms(1) by (simp add: layout_def unat_word_ariths unat_of_nat_lt)
  ultimately have "?t + of_nat k \<noteq> 0" if "k < 3584" for k
    using that by (metis add_is_0 unat_eq_zero)
  from this [of "28 * i"] this [of "28 * i + 20"] assms(2) show "pcb s i \<noteq> 0" "pnode s i \<noteq> 0"
    by (simp_all add: pcb_def pnode_def p_node_def algebra_simps)
qed

lemma nodes_ok_pnodes:
  assumes l: "layout s b" and "distinct q" "set q \<subseteq> {..<128}"
  shows "nodes_ok (ready_list (sc s) # map (pnode s) q)"
proof -
  have t: "apart (proc_table (pmgr s)) 3584 (ready_list (sc s)) 8" using l by (simp add: layout_def)
  have r: "apart (ready_list (sc s)) 8 (pnode s i) 8" if "i < 128" for i
    using apart_sub [OF t, of "28 * i + 20" 8 0 8] that
    by (simp add: apart_sym pnode_def p_node_def pcb_def algebra_simps)
  have n: "apart (pnode s i) 8 (pnode s j) 8" if "i < 128" "j < 128" "i \<noteq> j" for i j
    using pcb_apart [OF that, of 20 8 20 8] by (simp add: pnode_def p_node_def)
  have "nodes_ok (map (pnode s) q)"
    using assms(2,3)
  proof (induction q)
    case (Cons i q)
    then show ?case using pcb_nonnull(2) [OF l, of i] n by (auto simp: nodes_ok_Cons)
  qed (simp add: nodes_ok_def)
  then show ?thesis using l r assms(3) by (auto simp: nodes_ok_Cons layout_def)
qed

lemma in_nodes_pnodes:
  "in_nodes (map (pnode s) q) x \<Longrightarrow> set q \<subseteq> {..<128} \<Longrightarrow> inside (proc_table (pmgr s)) 3584 x"
  using pcb_inside [where d = 20 and n = 8 and s = s and x = x]
  by (auto simp: in_nodes_def pnode_def p_node_def)

lemma in_nodes_Cons: "in_nodes (a # ns) x \<longleftrightarrow> inside a 8 x \<or> in_nodes ns x"
  by (simp add: in_nodes_def)

lemma in_nodes_append: "in_nodes (as @ bs) x \<longleftrightarrow> in_nodes as x \<or> in_nodes bs x"
  by (auto simp: in_nodes_def)

subsection \<open>The queue of the ready list\<close>

definition queue :: "'a sched_state_scheme \<Rightarrow> nat list \<Rightarrow> bool" where
  "queue s q \<longleftrightarrow> dlist (km s) (ready_list (sc s)) (map (pnode s) q) \<and> distinct q \<and> set q \<subseteq> {..<128}
     \<and> readys (sc s) = of_nat (length q)"

lemma queue_length: "queue s q \<Longrightarrow> length q \<le> 128"
  using card_mono [of "{..<128}" "set q"] by (auto simp: queue_def distinct_card)

lemma queue_cong:
  assumes "same_place s s'" "readys (sc s') = readys (sc s)"
    and "\<And>x. in_nodes (ready_list (sc s) # map (pnode s) q) x \<Longrightarrow> km s' x = km s x"
  shows "queue s' q = queue s q"
proof -
  have "dlist (km s') (ready_list (sc s)) (map (pnode s) q) = dlist (km s) (ready_list (sc s)) (map (pnode s) q)"
    by (rule dlist_cong) (rule assms(3))
  then show ?thesis using assms(2) same_place_pcb [OF assms(1)] assms(1)
    by (simp add: queue_def same_place_def)
qed


subsection \<open>Regions\<close>

text \<open>What a waiting process relies on: its pointer to the saved context, and its stack.\<close>

definition own :: "'a sched_state_scheme \<Rightarrow> nat \<Rightarrow> addr \<Rightarrow> bool" where
  "own s j x \<longleftrightarrow> inside (pcb s j + 16) 4 x \<or> inside (pstk s j) 2048 x"

definition qzone :: "'a sched_state_scheme \<Rightarrow> nat list \<Rightarrow> addr \<Rightarrow> bool" where
  "qzone s q x \<longleftrightarrow> in_nodes (ready_list (sc s) # map (pnode s) q) x"

lemma zone_cases:
  assumes "qzone s q x" "set q \<subseteq> {..<128}"
  obtains "inside (ready_list (sc s)) 8 x" | k where "k \<in> set q" "k < 128" "inside (pcb s k + 20) 8 x"
  using assms by (auto simp: qzone_def in_nodes_def pnode_def p_node_def)

lemma pcb_fields:
  assumes "i < 128" "j < 128" "inside (pcb s i + of_nat d) n x" "d + n \<le> e \<or> e + k \<le> d \<or> i \<noteq> j"
    "d + n \<le> 28" "e + k \<le> 28" "0 < n" "0 < k"
  shows "\<not> inside (pcb s j + of_nat e) k x"
proof -
  have "apart (pcb s i + of_nat d) n (pcb s j + of_nat e) k"
  proof (cases "i = j")
    case True
    then show ?thesis using assms apart_offsets [of d n e k "pcb s j"] apart_offsets [of e k d n "pcb s j"]
      by (auto simp: apart_sym)
  qed (use assms pcb_apart in blast)
  then show ?thesis using assms(3) by (rule apart_inside)
qed

lemma pcb_table:
  "i < 128 \<Longrightarrow> inside (pcb s i + 4) 1 x \<Longrightarrow> inside (proc_table (pmgr s)) 3584 x"
  "i < 128 \<Longrightarrow> inside (pcb s i + 16) 4 x \<Longrightarrow> inside (proc_table (pmgr s)) 3584 x"
  "i < 128 \<Longrightarrow> inside (pcb s i + 20) 8 x \<Longrightarrow> inside (proc_table (pmgr s)) 3584 x"
  using pcb_inside [of i s 4 1 x] pcb_inside [of i s 16 4 x] pcb_inside [of i s 20 8 x] by simp_all

lemma own_apart:
  assumes l: "layout s b" and j: "j < 128" and o: "own s j x"
  shows "set q \<subseteq> {..<128} \<Longrightarrow> \<not> qzone s q x"
    and "i < 128 \<Longrightarrow> \<not> inside (pcb s i + 4) 1 x"
    and "\<not> inside (context_at (sc s)) 4 x" and "\<not> inside b 28 x"
    and "i < 128 \<Longrightarrow> i \<noteq> j \<Longrightarrow> \<not> own s i x"
proof -
  let ?T = "inside (proc_table (pmgr s)) 3584 x" and ?S = "inside (proc_stack (pmgr s)) 262144 x"
  have st: "inside (pstk s i) 2048 x \<Longrightarrow> ?S" if "i < 128" for i
    using stk_inside [of i s 0 2048 x] that by simp
  have c: "inside (pcb s j + 16) 4 x \<and> ?T \<or> inside (pstk s j) 2048 x \<and> ?S"
    using o st [OF j] pcb_table(2) [OF j, of s x] by (auto simp: own_def)
  have ap: "?T \<Longrightarrow> \<not> ?S" "?T \<Longrightarrow> \<not> inside (ready_list (sc s)) 8 x" "?S \<Longrightarrow> \<not> inside (ready_list (sc s)) 8 x"
    "?T \<Longrightarrow> \<not> inside (context_at (sc s)) 4 x" "?S \<Longrightarrow> \<not> inside (context_at (sc s)) 4 x"
    "?T \<Longrightarrow> \<not> inside b 28 x" "?S \<Longrightarrow> \<not> inside b 28 x"
    using l by (auto simp: layout_def dest: apart_inside)
  show "\<not> qzone s q x" if q: "set q \<subseteq> {..<128}"
  proof
    assume "qzone s q x"
    then show False
      using q
    proof (cases rule: zone_cases)
      case 1
      then show False using c ap by blast
    next
      case (2 k)
      have "\<not> inside (pcb s j + 16) 4 x"
        using pcb_fields [OF 2(2) j, of s 20 8 x 16 4] 2(3) by simp
      then show False using c ap(1) pcb_table(3) [OF 2(2,3)] by simp
    qed
  qed
  show "\<not> inside (pcb s i + 4) 1 x" if i: "i < 128"
  proof
    assume a: "inside (pcb s i + 4) 1 x"
    then have "\<not> inside (pcb s j + 16) 4 x" using pcb_fields [OF i j, of s 4 1 x 16 4] by simp
    then show False using c ap(1) pcb_table(1) [OF i a] by simp
  qed
  show "\<not> inside (context_at (sc s)) 4 x" "\<not> inside b 28 x" using c ap by blast+
  show "\<not> own s i x" if i: "i < 128" "i \<noteq> j"
  proof
    assume "own s i x"
    then consider "inside (pcb s i + 16) 4 x" | "inside (pstk s i) 2048 x" by (auto simp: own_def)
    then show False
    proof cases
      case 1
      then have "\<not> inside (pcb s j + 16) 4 x" using pcb_fields [OF i(1) j, of s 16 4 x 16 4] i by simp
      then show False using c ap(1) pcb_table(2) [OF i(1) 1] by simp
    next
      case 2
      then have "\<not> inside (pstk s j) 2048 x"
        using stk_apart [OF i(1) j i(2), of 0 2048 0 2048 s] by (auto dest: apart_inside)
      then show False using c ap(1) st [OF i(1) 2] by simp
    qed
  qed
qed

lemma zone_apart:
  assumes l: "layout s b" and q: "set q \<subseteq> {..<128}" and z: "qzone s q x"
  shows "\<not> inside (context_at (sc s)) 4 x" "\<not> inside b 28 x" "i < 128 \<Longrightarrow> \<not> inside (pcb s i + 4) 1 x"
    "i < 128 \<Longrightarrow> \<not> own s i x"
proof -
  let ?T = "inside (proc_table (pmgr s)) 3584 x"
  have c: "inside (ready_list (sc s)) 8 x \<or> ?T"
    using z q by (cases rule: zone_cases) (auto dest: pcb_table(3))
  then show "\<not> inside (context_at (sc s)) 4 x" "\<not> inside b 28 x"
    using l by (auto simp: layout_def dest: apart_inside)
  show "\<not> inside (pcb s i + 4) 1 x" if i: "i < 128"
  proof
    assume a: "inside (pcb s i + 4) 1 x"
    show False
      using z q
    proof (cases rule: zone_cases)
      case 1
      then show False using pcb_table(1) [OF i a] l by (auto simp: layout_def dest: apart_inside)
    next
      case (2 k)
      then show False using pcb_fields [OF i 2(2), of s 4 1 x 20 8] a by simp
    qed
  qed
  show "\<not> own s i x" if i: "i < 128" using own_apart(1) [OF l i _ q] z by blast
qed


subsection \<open>Threads and their steps\<close>

record threads =
  tq :: "nat list"
  running :: "nat option"
  ctx :: "nat \<Rightarrow> cpu_regs"

datatype act = Dispatch nat cpu_regs | Work nat | Yield nat cpu_regs

text \<open>\<open>Yield i c\<close>: process \<open>i\<close> gives up the processor and will go on with the registers \<open>c\<close>.\<close>

inductive tstep :: "threads \<Rightarrow> act \<Rightarrow> threads \<Rightarrow> bool" where
  t_dispatch: "tq a = i # q \<Longrightarrow> running a = None \<Longrightarrow>
     tstep a (Dispatch i (ctx a i)) (a\<lparr>tq := q, running := Some i\<rparr>)"
| t_work: "running a = Some i \<Longrightarrow> tstep a (Work i) a"
| t_yield: "running a = Some i \<Longrightarrow>
     tstep a (Yield i c) (a\<lparr>tq := tq a @ [i], running := None, ctx := (ctx a)(i := c)\<rparr>)"

inductive_cases tstep_elims: "tstep a (Dispatch i c) a'" "tstep a (Work i) a'" "tstep a (Yield i c) a'"

datatype control = In_sched | In_proc

text \<open>
  The steps of the kernel.  \<open>rs\<close> is the return address of the call in the loop of \<open>_sched\<close>, which
  takes the two arguments of the call from the stack when it goes on; \<open>ret\<close> that of the call in
  \<open>sched_yield\<close>.  A process may do anything to its registers, to memory and to the rest of the machine but
  for what \<open>sched_owned\<close> lists: it can print, sleep and use the heap.  It yields with room for the call on its stack.
\<close>

definition sched_owned :: "'a sched_state_scheme \<Rightarrow> nat \<Rightarrow> addr \<Rightarrow> bool" where
  "sched_owned s i x \<longleftrightarrow> inside (proc_table (pmgr s)) 3584 x \<or> inside (ready_list (sc s)) 8 x
     \<or> inside (context_at (sc s)) 4 x \<or> inside (ld32 (km s) (context_at (sc s))) 28 x
     \<or> inside (proc_stack (pmgr s)) 262144 x \<and> \<not> inside (pstk s i) 2048 x"

inductive kstep :: "u32 \<Rightarrow> control \<times> cpu_regs \<times> 'a sched_state_scheme \<Rightarrow> act \<Rightarrow>
    control \<times> cpu_regs \<times> 'a sched_state_scheme \<Rightarrow> bool" for rs where
  k_dispatch: "sched_pass rs c s = (Switched, c', s') \<Longrightarrow> i < 128 \<Longrightarrow> cur_proc (sc s') = pcb s i \<Longrightarrow>
     kstep rs (In_sched, c, s) (Dispatch i c') (In_proc, c', s')"
| k_work: "i < 128 \<Longrightarrow> cur_proc (sc s) = pcb s i \<Longrightarrow> sc s' = sc s \<Longrightarrow> pmgr s' = pmgr s \<Longrightarrow>
     (\<And>x. sched_owned s i x \<Longrightarrow> km s' x = km s x) \<Longrightarrow>
     kstep rs (In_proc, c, s) (Work i) (In_proc, c', s')"
| k_yield: "i < 128 \<Longrightarrow> cur_proc (sc s) = pcb s i \<Longrightarrow> sched_yield ret c s = (c', s') \<Longrightarrow>
     esp c = pstk s i + of_nat d \<Longrightarrow> 28 \<le> d \<Longrightarrow> d \<le> 2048 \<Longrightarrow>
     kstep rs (In_proc, c, s) (Yield i (c\<lparr>esp := esp c - 8, eip := ret\<rparr>))
       (In_sched, c'\<lparr>esp := esp c' + 8\<rparr>, s')"

text \<open>A sequence of steps and what was done in it.\<close>

inductive steps :: "('s \<Rightarrow> act \<Rightarrow> 's \<Rightarrow> bool) \<Rightarrow> 's \<Rightarrow> act list \<Rightarrow> 's \<Rightarrow> bool" for R where
  done_: "steps R a [] a"
| step_: "R a l b \<Longrightarrow> steps R b ls c \<Longrightarrow> steps R a (l # ls) c"

inductive_cases steps_elims: "steps R a [] b" "steps R a (l # ls) b"

subsection \<open>The relation\<close>

definition waiting :: "'a sched_state_scheme \<Rightarrow> nat \<Rightarrow> cpu_regs \<Rightarrow> bool" where
  "waiting s i K \<longleftrightarrow> (\<exists>d\<le>2028. p_pc (km s) (pcb s i) = pstk s i + of_nat d)
     \<and> load_ctx (km s) (p_pc (km s) (pcb s i)) = K"

definition base :: "addr \<Rightarrow> 'a sched_state_scheme \<Rightarrow> threads \<Rightarrow> bool" where
  "base b s a \<longleftrightarrow> layout s b \<and> sc_inited (sc s) \<and> queue s (tq a) \<and> (\<forall>i\<in>set (tq a). waiting s i (ctx a i))"

fun refines :: "addr \<Rightarrow> control \<times> cpu_regs \<times> 'a sched_state_scheme \<Rightarrow> threads \<Rightarrow> bool" where
  "refines b (In_sched, c, s) a \<longleftrightarrow> base b s a \<and> esp c = b + 28 \<and> running a = None"
| "refines b (In_proc, c, s) a \<longleftrightarrow> base b s a \<and> ld32 (km s) (context_at (sc s)) = b
     \<and> (\<exists>i. running a = Some i \<and> i < 128 \<and> i \<notin> set (tq a) \<and> cur_proc (sc s) = pcb s i)"

lemma waiting_cong:
  assumes p: "same_place s s'" and m: "\<And>x. own s i x \<Longrightarrow> km s' x = km s x"
  shows "waiting s' i K = waiting s i K"
proof -
  have pc: "p_pc (km s') (pcb s i) = p_pc (km s) (pcb s i)"
    unfolding p_pc_def by (rule ld32_cong) (simp add: m own_def)
  have "load_ctx (km s') (pstk s i + of_nat d) = load_ctx (km s) (pstk s i + of_nat d)" if "d \<le> 2028" for d
    using that m inside_offset [of "pstk s i" d 20 _ 2048] by (intro load_ctx_cong) (auto simp: own_def)
  then show ?thesis using pc same_place_pcb [OF p] by (auto simp: waiting_def)
qed

lemma add_ready_queue:
  assumes l: "layout s b" and q: "queue s q" and i: "i < 128" "i \<notin> set q"
  defines "s' \<equiv> sched_add_ready_raw s (pcb s i)"
  shows "queue s' (q @ [i])" "same_place s s'" "\<not> qzone s (q @ [i]) x \<Longrightarrow> km s' x = km s x"
    "cur_proc (sc s') = cur_proc (sc s)"
proof -
  show p: "same_place s s'" by (simp add: s'_def sched_add_ready_raw_def same_place_def Let_def)
  have d: "dlist (km s) (ready_list (sc s)) (map (pnode s) q)" "distinct q" "set q \<subseteq> {..<128}"
    using q by (simp_all add: queue_def)
  have ok: "nodes_ok (ready_list (sc s) # map (pnode s) q @ [pnode s i])"
    using nodes_ok_pnodes [OF l, of "q @ [i]"] d i by simp
  have s': "km s' = snd (list_add (km s) (ready_list (sc s)) (pnode s i))" "readys (sc s') = readys (sc s) + 1"
    by (simp_all add: s'_def sched_add_ready_raw_def pnode_def Let_def)
  have "dlist (km s') (ready_list (sc s)) (map (pnode s) (q @ [i]))"
    using lq.enq_rep [OF d(1) ok] s' by simp
  then show "queue s' (q @ [i])"
    using same_place_pcb [OF p] p q i s' by (auto simp: queue_def same_place_def add.commute)
  show "\<not> qzone s (q @ [i]) x \<Longrightarrow> km s' x = km s x"
    using list_add_frame [OF d(1) ok] s' by (simp add: qzone_def)
  show "cur_proc (sc s') = cur_proc (sc s)"
    by (simp add: s'_def sched_add_ready_raw_def Let_def)
qed


text \<open>All the memory the scheduler works on: its tables, the stack \<open>b\<close> of its loop and those of the processes.\<close>

definition sched_mem :: "addr \<Rightarrow> 'a sched_state_scheme \<Rightarrow> addr \<Rightarrow> bool" where
  "sched_mem b s x \<longleftrightarrow> inside (proc_table (pmgr s)) 3584 x \<or> inside (ready_list (sc s)) 8 x
     \<or> inside (context_at (sc s)) 4 x \<or> inside b 28 x \<or> inside (proc_stack (pmgr s)) 262144 x"

lemma sched_mem_zone:
  "set q \<subseteq> {..<128} \<Longrightarrow> qzone s q x \<Longrightarrow> sched_mem b s x"
  "i < 128 \<Longrightarrow> own s i x \<Longrightarrow> sched_mem b s x"
  "i < 128 \<Longrightarrow> inside (pcb s i + 4) 1 x \<Longrightarrow> sched_mem b s x"
proof -
  show "set q \<subseteq> {..<128} \<Longrightarrow> qzone s q x \<Longrightarrow> sched_mem b s x"
    by (erule zone_cases) (auto simp: sched_mem_def dest: pcb_table(3))
  show "i < 128 \<Longrightarrow> own s i x \<Longrightarrow> sched_mem b s x"
    using stk_inside [of i s 0 2048 x] by (auto simp: own_def sched_mem_def dest: pcb_table(2))
  show "i < 128 \<Longrightarrow> inside (pcb s i + 4) 1 x \<Longrightarrow> sched_mem b s x" by (simp add: sched_mem_def pcb_table(1))
qed

subsection \<open>The simulation\<close>

lemma esp_load_ctx [simp]: "esp (load_ctx m a) = a + 20"
  by (simp add: load_ctx_def)

lemma set_state_other: "\<not> inside (p + 4) 1 x \<Longrightarrow> set_state m p v x = m x"
  by (auto simp: set_state_def st8_def inside_def)

lemma proc_of_pnode [simp]: "proc_of (pnode s i) = pcb s i"
  by (simp add: proc_of_def pnode_def p_node_def)

text \<open>What a pass of the scheduler does on a queue that is not empty.\<close>

lemma sched_pass_dispatch:
  assumes l: "layout s b" and q: "queue s (i # q)" and c: "esp c = b + 28"
  shows "\<exists>s'. sched_pass rs c s = (Switched, load_ctx (km s') (p_pc (km s) (pcb s i)), s')
     \<and> same_place s s' \<and> cur_proc (sc s') = pcb s i \<and> queue s' q
     \<and> ld32 (km s') (context_at (sc s)) = b \<and> (\<forall>j x. j < 128 \<longrightarrow> own s j x \<longrightarrow> km s' x = km s x)
     \<and> (\<forall>x. \<not> sched_mem b s x \<longrightarrow> km s' x = km s x) \<and> vga s' = vga s \<and> p_state (km s') (pcb s i) = PROC_RUN"
proof -
  let ?rl = "ready_list (sc s)" and ?ca = "context_at (sc s)"
  have d: "dlist (km s) ?rl (pnode s i # map (pnode s) q)" "distinct (i # q)" "i < 128" "set q \<subseteq> {..<128}"
    and r: "readys (sc s) = of_nat (Suc (length q))"
    using q by (simp_all add: queue_def)
  have nz: "readys (sc s) \<noteq> 0"
    using queue_length [OF q] r by (simp add: u32_eq_iff unat_of_nat_lt del: of_nat_Suc)
  define m1 where "m1 = snd (list_get (km s) ?rl)"
  have g: "list_get (km s) ?rl = (pnode s i, m1)" and d1: "dlist m1 ?rl (map (pnode s) q)"
    using lq.deq_rep [OF d(1)] by (auto simp: m1_def prod_eq_iff)
  have f1: "m1 x = km s x" if "\<not> qzone s (i # q) x" for x
    using list_get_frame [OF d(1)] that by (simp add: m1_def qzone_def)
  define m2 where "m2 = set_state m1 (pcb s i) PROC_RUN"
  have f2: "m2 x = m1 x" if "\<not> inside (pcb s i + 4) 1 x" for x
    using that by (simp add: m2_def set_state_other)
  define m3 where "m3 = switch_mem ?ca (p_pc m2 (pcb s i)) rs c m2"
  have f3: "m3 x = m2 x" if "\<not> inside b 28 x" "\<not> inside ?ca 4 x" for x
    using switch_mem_other [of c x ?ca] that c by (simp add: m3_def)
  have sp: "apart (esp c - 28) 28 ?ca 4" using l c by (simp add: layout_def apart_sym)
  have own: "m3 x = km s x" if "j < 128" "own s j x" for j x
    using own_apart [OF l that] d(3,4) f1 f2 f3 by simp
  have own2: "m2 x = km s x" if "j < 128" "own s j x" for j x
    using own_apart [OF l that] d(3,4) f1 f2 by simp
  have pc: "p_pc m2 (pcb s i) = p_pc (km s) (pcb s i)"
    unfolding p_pc_def by (rule ld32_cong) (use own2 [OF d(3)] in \<open>simp add: own_def\<close>)
  define s' where "s' = s\<lparr>km := m3, sc := (sc s)\<lparr>readys := readys (sc s) - 1, cur_proc := pcb s i\<rparr>\<rparr>"
  have run: "sched_pass rs c s = (Switched, load_ctx m3 (p_pc (km s) (pcb s i)), s')"
    using nz g pcb_nonnull [OF l d(3)]
    by (simp add: sched_pass_def Let_def call_switch_eq s'_def flip: m2_def)
      (simp add: m3_def pc)
  have p: "same_place s s'" by (simp add: same_place_def s'_def)
  have "m3 x = m1 x" if "qzone s q x" for x
    using zone_apart [OF l d(4) that] d(3) f2 f3 by simp
  then have "dlist m3 ?rl (map (pnode s) q)"
    using d1 dlist_cong [of ?rl "map (pnode s) q" m3 m1] by (simp add: qzone_def)
  then have "queue s' q"
    using d r same_place_pcb [OF p] by (simp add: queue_def s'_def)
  moreover have "ld32 m3 ?ca = b"
    using switch_mem_saved(1) [OF sp] c by (simp add: m3_def)
  moreover have "m3 x = km s x" if x: "\<not> sched_mem b s x" for x
  proof -
    have "set (i # q) \<subseteq> {..<128}" using d(3,4) by simp
    then have "\<not> qzone s (i # q) x" using sched_mem_zone(1) x by blast
    moreover have "\<not> inside (pcb s i + 4) 1 x" using sched_mem_zone(3) [OF d(3)] x by blast
    moreover have "\<not> inside b 28 x" "\<not> inside ?ca 4 x" using x by (simp_all add: sched_mem_def)
    ultimately show ?thesis using f1 [of x] f2 [of x] f3 [of x] by presburger
  qed
  moreover have "m3 (pcb s i + 4) = PROC_RUN"
  proof -
    have t: "inside (proc_table (pmgr s)) 3584 (pcb s i + 4)" using pcb_table(1) [OF d(3), of s "pcb s i + 4"] by (simp add: inside_def)
    have "apart (proc_table (pmgr s)) 3584 b 28" "apart (proc_table (pmgr s)) 3584 ?ca 4" using l by (simp_all add: layout_def)
    then have "m3 (pcb s i + 4) = m2 (pcb s i + 4)" using apart_inside t by (intro f3) blast+
    then show ?thesis by (simp add: m2_def set_state_def st8_def)
  qed
  ultimately show ?thesis using run p own by (intro exI [of _ s']) (simp add: s'_def p_state_def)
qed

text \<open>What a yield of the running process does.\<close>

lemma sched_yield_effect:
  assumes l: "layout s b" and q: "queue s q" and i: "i < 128" "i \<notin> set q"
    and cur: "cur_proc (sc s) = pcb s i" and ini: "sc_inited (sc s)" and ca: "ld32 (km s) (context_at (sc s)) = b"
    and e: "esp c = pstk s i + of_nat d" "28 \<le> d" "d \<le> 2048"
  shows "\<exists>s'. sched_yield ret c s = (load_ctx (km s') b, s') \<and> same_place s s' \<and> queue s' (q @ [i])
     \<and> waiting s' i (c\<lparr>esp := esp c - 8, eip := ret\<rparr>)
     \<and> (\<forall>j x. j < 128 \<longrightarrow> j \<noteq> i \<longrightarrow> own s j x \<longrightarrow> km s' x = km s x)
     \<and> (\<forall>x. \<not> sched_mem b s x \<longrightarrow> km s' x = km s x) \<and> vga s' = vga s"
proof -
  let ?rl = "ready_list (sc s)" and ?ca = "context_at (sc s)"
  have qs: "set q \<subseteq> {..<128}" "set (q @ [i]) \<subseteq> {..<128}" using q i by (auto simp: queue_def)
  define s0 where "s0 = s\<lparr>km := set_state (km s) (pcb s i) PROC_READY\<rparr>"
  have p0: "same_place s s0" by (simp add: same_place_def s0_def)
  note pl0 = same_place_pcb [OF p0]
  have f0: "km s0 x = km s x" if "\<not> inside (pcb s i + 4) 1 x" for x
    using that by (simp add: s0_def set_state_other)
  have "queue s0 q"
    using queue_cong [OF p0, of q] f0 zone_apart(3) [OF l qs(1) _ i(1)] q
    by (simp add: s0_def qzone_def)
  moreover have l0: "layout s0 b" using pl0 l by simp
  define s1 where "s1 = sched_add_ready_raw s0 (pcb s i)"
  ultimately have q1: "queue s1 (q @ [i])" and p1: "same_place s0 s1"
    and f1: "\<And>x. \<not> qzone s (q @ [i]) x \<Longrightarrow> km s1 x = km s0 x"
    using add_ready_queue [OF l0 _ i] pl0 p0 by (simp_all add: s1_def qzone_def same_place_def)
  have ps1: "same_place s s1" using p0 p1 by (simp add: same_place_def)
  have ca1: "ld32 (km s1) ?ca = b"
  proof -
    have "km s1 x = km s x" if "inside ?ca 4 x" for x
    proof -
      have "\<not> qzone s (q @ [i]) x" using zone_apart(1) [OF l qs(2)] that by blast
      moreover have "\<not> inside (pcb s i + 4) 1 x"
        using pcb_table(1) [OF i(1), of s x] l that by (auto simp: layout_def dest: apart_inside)
      ultimately show ?thesis using f0 f1 by simp
    qed
    then show ?thesis using ca ld32_cong [of ?ca "km s1" "km s"] by simp
  qed
  define m2 where "m2 = switch_mem (pcb s i + 16) b ret c (km s1)"
  have e28: "esp c - 28 = pstk s i + of_nat (d - 28)" using e by (simp add: of_nat_diff)
  have instk: "inside (esp c - 28) 28 x \<Longrightarrow> inside (pstk s i) 2048 x" for x
    unfolding e28 by (erule inside_offset) (use e(2,3) in simp_all)
  have f2: "m2 x = km s1 x" if "\<not> own s i x" for x
    using switch_mem_other [of c x "pcb s i + 16"] instk that by (auto simp: m2_def own_def)
  have sp: "apart (esp c - 28) 28 (pcb s i + 16) 4"
  proof (rule inside_apartI)
    fix x assume "inside (esp c - 28) 28 x"
    then have "inside (proc_stack (pmgr s)) 262144 x" using instk stk_inside [OF i(1), of s 0 2048 x] by simp
    then show "\<not> inside (pcb s i + 16) 4 x"
      using pcb_table(2) [OF i(1), of s x] l by (auto simp: layout_def dest: apart_inside)
  qed simp_all
  note saved = switch_mem_saved [OF sp, of b ret "km s1", folded m2_def]
  define s' where "s' = s1\<lparr>km := m2\<rparr>"
  have run: "sched_yield ret c s = (load_ctx m2 b, s')"
    using cur ini pcb_nonnull(1) [OF l i(1)] ca1 ps1
    by (simp add: sched_yield_def Let_def call_switch_eq s'_def m2_def same_place_def flip: s0_def s1_def)
  have p: "same_place s s'" using ps1 by (simp add: s'_def same_place_def)
  have p1': "same_place s1 s'" by (simp add: s'_def same_place_def)
  have "queue s' (q @ [i])"
    using queue_cong [OF p1', of "q @ [i]"] q1 f2 zone_apart(4) [OF l qs(2) _ i(1)] ps1 same_place_pcb [OF ps1]
    by (simp add: s'_def qzone_def same_place_def)
  moreover have "p_pc m2 (pcb s i) = esp c - 28" using saved(1) by (simp add: p_pc_def)
  then have "waiting s' i (c\<lparr>esp := esp c - 8, eip := ret\<rparr>)"
    using saved(2) same_place_pcb [OF p] e28 e
    by (auto simp: waiting_def s'_def intro!: exI [of _ "d - 28"])
  moreover have "km s' x = km s x" if "j < 128" "j \<noteq> i" "own s j x" for j x
    using own_apart(1,2,5) [OF l that(1,3)] that(2) qs(2) i(1) f0 f1 f2 by (simp add: s'_def)
  moreover have "km s' x = km s x" if "\<not> sched_mem b s x" for x
  proof -
    have "\<not> qzone s (q @ [i]) x" using sched_mem_zone(1) [OF qs(2)] that by blast
    moreover have "\<not> own s i x" "\<not> inside (pcb s i + 4) 1 x" using sched_mem_zone(2,3) [OF i(1)] that by blast+
    ultimately have "m2 x = km s x" using f0 [of x] f1 [of x] f2 [of x] by presburger
    then show ?thesis by (simp add: s'_def)
  qed
  moreover have "vga s' = vga s" by (simp add: s'_def s1_def s0_def sched_add_ready_raw_def Let_def)
  ultimately show ?thesis using run p by (intro exI [of _ s']) (simp add: s'_def)
qed

text \<open>The ready list and what a waiting process relies on belong to the scheduler while another process runs.\<close>

lemma owned_queue: "set q \<subseteq> {..<128} \<Longrightarrow> qzone s q x \<Longrightarrow> sched_owned s i x"
  by (erule zone_cases) (auto simp: sched_owned_def dest: pcb_table(3))

lemma owned_stack:
  assumes "j < 128" "i < 128" "i \<noteq> j" "own s j x"
  shows "sched_owned s i x"
proof (cases "inside (pcb s j + 16) 4 x")
  case True
  from pcb_table(2) [OF assms(1) this] show ?thesis by (simp add: sched_owned_def)
next
  case False
  then have x: "inside (pstk s j) 2048 x" using assms(4) by (simp add: own_def)
  have "apart (pstk s j) 2048 (pstk s i) 2048" using stk_apart [of j i 0 2048 0 2048 s] assms(1-3) by simp
  then have "\<not> inside (pstk s i) 2048 x" using x by (rule apart_inside)
  moreover have "inside (proc_stack (pmgr s)) 262144 x" using stk_inside [OF assms(1), of s 0 2048 x] x by simp
  ultimately show ?thesis by (simp add: sched_owned_def)
qed

theorem kstep_refines:
  assumes st: "kstep rs k l k'" and r: "refines b k a"
  shows "\<exists>a'. tstep a l a' \<and> refines b k' a'"
  using st
proof cases
  case (k_dispatch c s c' s' i)
  have B: "layout s b" "sc_inited (sc s)" "queue s (tq a)" "\<And>i. i \<in> set (tq a) \<Longrightarrow> waiting s i (ctx a i)"
    and e: "esp c = b + 28" "running a = None"
    using r k_dispatch by (simp_all add: base_def)
  have "readys (sc s) \<noteq> 0" using k_dispatch(4) by (auto simp: sched_pass_def split: if_splits)
  then obtain j q where q: "tq a = j # q" using B(3) by (cases "tq a") (auto simp: queue_def)
  have j: "j < 128" "j \<notin> set q" "set q \<subseteq> {..<128}" using B(3) q by (simp_all add: queue_def)
  obtain s2 where s2: "sched_pass rs c s = (Switched, load_ctx (km s2) (p_pc (km s) (pcb s j)), s2)"
    "same_place s s2" "cur_proc (sc s2) = pcb s j" "queue s2 q" "ld32 (km s2) (context_at (sc s)) = b"
    "\<And>j x. j < 128 \<Longrightarrow> own s j x \<Longrightarrow> km s2 x = km s x"
    using sched_pass_dispatch [OF B(1) B(3) [unfolded q] e(1), of rs] by auto
  have s': "s' = s2" and c': "c' = load_ctx (km s2) (p_pc (km s) (pcb s j))" using s2(1) k_dispatch(4) by simp_all
  have ij: "i = j" using k_dispatch(6,5) s2(3) s' j pcb_eq_iff by metis
  have w: "waiting s2 x (ctx a x)" if "x \<in> set (tq a)" for x
    using waiting_cong [OF s2(2), of x "ctx a x"] s2(6) that B(4) j q by auto
  have pcj: "p_pc (km s2) (pcb s j) = p_pc (km s) (pcb s j)"
    unfolding p_pc_def by (rule ld32_cong) (use s2(6) j(1) in \<open>simp add: own_def\<close>)
  have "c' = ctx a j"
    using w [of j] q same_place_pcb [OF s2(2)] pcj c' by (simp add: waiting_def)
  moreover have "refines b k' (a\<lparr>tq := q, running := Some j\<rparr>)"
    using k_dispatch(3) s' B s2 w q j same_place_pcb [OF s2(2)]
    by (simp add: base_def same_place_def)
  ultimately show ?thesis
    using t_dispatch [OF q e(2)] k_dispatch(2) ij by auto
next
  case (k_work i s s' c c')
  have B: "layout s b" "sc_inited (sc s)" "queue s (tq a)" "\<And>i. i \<in> set (tq a) \<Longrightarrow> waiting s i (ctx a i)"
    and ca: "ld32 (km s) (context_at (sc s)) = b"
    using r k_work by (simp_all add: base_def)
  obtain j where j: "running a = Some j" "j < 128" "j \<notin> set (tq a)" "cur_proc (sc s) = pcb s j"
    using r k_work by auto
  have ij: "i = j" using k_work(4,5) j pcb_eq_iff by metis
  have p: "same_place s s'" using k_work(6,7) by (simp add: same_place_def)
  have keep: "km s' x = km s x" if "sched_owned s i x" for x using k_work(8) that by blast
  have qs: "set (tq a) \<subseteq> {..<128}" using B(3) by (simp add: queue_def)
  have "km s' x = km s x" if "in_nodes (ready_list (sc s) # map (pnode s) (tq a)) x" for x
    using keep owned_queue [OF qs, of s x i] that by (simp add: qzone_def)
  then have "queue s' (tq a)" using queue_cong [OF p _, of "tq a"] B(3) k_work(6) by simp
  moreover have "waiting s' x (ctx a x)" if "x \<in> set (tq a)" for x
  proof -
    have "x < 128" "i \<noteq> x" using qs that ij j(3) by auto
    then have "km s' y = km s y" if "own s x y" for y using keep owned_stack [OF _ k_work(4) _ that] by blast
    then show ?thesis using waiting_cong [OF p, of x "ctx a x"] B(4) [OF that] by blast
  qed
  moreover have "ld32 (km s') (context_at (sc s)) = b"
    using ca keep ld32_cong [of "context_at (sc s)" "km s'" "km s"] by (auto simp: sched_owned_def)
  ultimately have "refines b k' a"
    using k_work(3,6) B(1,2) j same_place_pcb [OF p] p by (simp add: base_def same_place_def)
  then show ?thesis using t_work [OF j(1)] k_work(2) ij by auto
next
  case (k_yield i s ret c c' s' d)
  have B: "layout s b" "sc_inited (sc s)" "queue s (tq a)" "\<And>i. i \<in> set (tq a) \<Longrightarrow> waiting s i (ctx a i)"
    and ca: "ld32 (km s) (context_at (sc s)) = b"
    using r k_yield by (simp_all add: base_def)
  obtain j where j: "running a = Some j" "j < 128" "j \<notin> set (tq a)" "cur_proc (sc s) = pcb s j"
    using r k_yield by auto
  have ij: "i = j" using k_yield(4,5) j pcb_eq_iff by metis
  let ?K = "c\<lparr>esp := esp c - 8, eip := ret\<rparr>"
  obtain s2 where s2: "sched_yield ret c s = (load_ctx (km s2) b, s2)" "same_place s s2"
    "queue s2 (tq a @ [j])" "waiting s2 j ?K" "\<And>i x. i < 128 \<Longrightarrow> i \<noteq> j \<Longrightarrow> own s i x \<Longrightarrow> km s2 x = km s x"
    using sched_yield_effect [OF B(1,3) j(2,3,4) B(2) ca, of c d ret] k_yield(7-9) ij by auto
  have s': "s' = s2" "c' = load_ctx (km s2) b" using s2(1) k_yield(6) by simp_all
  have qs: "set (tq a) \<subseteq> {..<128}" using B(3) by (simp add: queue_def)
  have "waiting s2 x (ctx a x)" if "x \<in> set (tq a)" for x
    using waiting_cong [OF s2(2), of x "ctx a x"] B(4) [OF that] s2(5) qs that j(3) by auto
  then have "refines b k' (a\<lparr>tq := tq a @ [j], running := None, ctx := (ctx a)(j := ?K)\<rparr>)"
    using k_yield(3) s' B s2 j same_place_pcb [OF s2(2)]
    by (auto simp: base_def same_place_def)
  then show ?thesis using t_yield [OF j(1), of ?K] k_yield(2) ij by auto
qed

end
