(* ===== verification/Console.thy ===== *)
theory Console
  imports Machine
begin

text \<open>
  The text screen (\<open>vga.c\<close>) and formatted printing (\<open>io.c\<close>).  The screen buffer holds 16 screens of
  25 rows; an access behind it is undefined behaviour, a result \<open>None\<close>.  The functions without a
  return statement return no value here.
\<close>

abbreviation VT_ROWS :: nat where "VT_ROWS \<equiv> 25"
abbreviation VT_COLUMNS :: nat where "VT_COLUMNS \<equiv> 80"
abbreviation VT_CELLS :: nat where "VT_CELLS \<equiv> 32000"

subsection \<open>The text screen\<close>

text \<open>A cell of the screen, two bytes at \<open>bp + 2 * k\<close>.\<close>

definition vt_put :: "mem \<Rightarrow> addr \<Rightarrow> nat \<Rightarrow> vga_text \<Rightarrow> mem" where
  "vt_put m base k c = st8 (st8 m (base + of_nat (2 * k)) (vt_text c)) (base + of_nat (2 * k) + 1) (vt_attr c)"

text \<open>\<open>memcpy(vga.bp, vga.buffer[pre_row], VT_SIZE*2)\<close>, from the last cell down.\<close>

fun vt_scroll :: "mem \<Rightarrow> addr \<Rightarrow> (nat \<Rightarrow> vga_text) \<Rightarrow> nat \<Rightarrow> nat \<Rightarrow> mem" where
  "vt_scroll m base buf from 0 = m"
| "vt_scroll m base buf from (Suc k) = vt_scroll (vt_put m base k (buf (from + k))) base buf from k"

text \<open>The inner loop of \<open>_vt_flush\<close>: \<open>vga.buffer[i][j].text && j<VT_COLUMNS\<close>, the text looked at first.\<close>

function vt_flush_row :: "mem \<Rightarrow> addr \<Rightarrow> (nat \<Rightarrow> vga_text) \<Rightarrow> nat \<Rightarrow> nat \<Rightarrow> mem option" where
  "vt_flush_row m base buf i j =
     (if 80 * i + j \<ge> VT_CELLS then None
      else if vt_text (buf (80 * i + j)) \<noteq> 0 \<and> j < VT_COLUMNS then
        vt_flush_row (vt_put m base (80 * i + j) (buf (80 * i + j))) base buf i (j + 1)
      else Some m)"
  by pat_completeness auto
termination
  by (relation "measure (\<lambda>(m, base, buf, i, j). VT_COLUMNS - j)") auto

declare vt_flush_row.simps [simp del]

function vt_flush_rows :: "mem \<Rightarrow> addr \<Rightarrow> (nat \<Rightarrow> vga_text) \<Rightarrow> nat \<Rightarrow> nat \<Rightarrow> nat \<Rightarrow> mem option" where
  "vt_flush_rows m base buf i rows j =
     (if i < rows then do { m \<leftarrow> vt_flush_row m base buf i j; vt_flush_rows m base buf (i + 1) rows j }
      else Some m)"
  by pat_completeness auto
termination
  by (relation "measure (\<lambda>(m, base, buf, i, rows, j). rows - i)") auto

declare vt_flush_rows.simps [simp del]

definition vt_flush_raw :: "'a machine_scheme \<Rightarrow> 'a machine_scheme option" where
  "vt_flush_raw s =
     (let v = vga s in
      if unat (curr_row v) \<ge> VT_ROWS then
        (let top = curr_row v - 24 in
         if 80 * unat top + 2000 > VT_CELLS then None
         else
           let m = vt_scroll (km s) (vga_bp v) (vga_buffer v) (80 * unat top) 2000
           in Some (s\<lparr>km := m, vga := v\<lparr>pre_row := curr_row v, pre_col := curr_col v\<rparr>\<rparr>))
      else do {
        m \<leftarrow> vt_flush_rows (km s) (vga_bp v) (vga_buffer v) (unat (pre_row v)) (unat (curr_row v) + 1) (unat (pre_col v));
        Some (s\<lparr>km := m, vga := v\<lparr>pre_row := curr_row v, pre_col := curr_col v\<rparr>\<rparr>) })"

definition vt_flush :: "'a machine_scheme \<Rightarrow> 'a machine_scheme option" where
  "vt_flush s = (if \<not> vga_inited (vga s) then Some s else vt_flush_raw s)"

definition vt_new_line_raw :: "dev_vga \<Rightarrow> dev_vga" where
  "vt_new_line_raw v = v\<lparr>curr_row := curr_row v + 1, curr_col := 0, pre_row := 0, pre_col := 0\<rparr>"

text \<open>
  The bytes of the string, up to its end.  On the last row but one of the buffer's end the code
  draws its complaint into the first cells of the screen and goes on.
\<close>

fun vga_write :: "u8 list \<Rightarrow> mem \<times> dev_vga \<Rightarrow> (mem \<times> dev_vga) option" where
  "vga_write [] mv = Some mv"
| "vga_write (c # cs) (m, v) =
     (if c = 10 \<or> unat (curr_col v) \<ge> VT_COLUMNS then
        let m = (if unat (curr_row v) \<ge> 400
                 then st8 (st8 (st8 (st8 m (vga_bp v) 0x46) (vga_bp v + 2) 0x75) (vga_bp v + 2) 0x63) (vga_bp v + 2) 0x6B
                 else m)
        in vga_write cs (m, vt_new_line_raw v)
      else
        let k = 80 * unat (curr_row v) + unat (curr_col v) in
        if k \<ge> VT_CELLS then None
        else
          let v = v\<lparr>vga_buffer := (vga_buffer v)(k := (vga_buffer v k)\<lparr>vt_text := c\<rparr>), curr_col := curr_col v + 1\<rparr>
          in vga_write cs (m, v))"

text \<open>The characters of a C string in memory; a string without an end is not read.\<close>

definition cbytes :: "mem \<Rightarrow> addr \<Rightarrow> u8 list option" where
  "cbytes m a = map_option (\<lambda>n. rd m a (nat n)) (strlen m a)"

definition vga_text_write_raw :: "'a machine_scheme \<Rightarrow> addr \<Rightarrow> 'a machine_scheme option" where
  "vga_text_write_raw s c = do {
     cs \<leftarrow> cbytes (km s) c;
     (m, v) \<leftarrow> vga_write cs (km s, vga s);
     Some (s\<lparr>km := m, vga := v\<rparr>) }"

definition vt_flush_with_buf :: "'a machine_scheme \<Rightarrow> addr \<Rightarrow> 'a machine_scheme option" where
  "vt_flush_with_buf s buf =
     (if buf = NULL \<or> \<not> vga_inited (vga s) then Some s
      else do { s \<leftarrow> vga_text_write_raw s buf; vt_flush_raw s })"

definition vt_new_line :: "'a machine_scheme \<Rightarrow> addr \<Rightarrow> 'a machine_scheme option" where
  "vt_new_line s buf =
     (if buf = NULL \<or> \<not> vga_inited (vga s) then Some s
      else do { s \<leftarrow> vga_text_write_raw s buf; Some (s\<lparr>vga := vt_new_line_raw (vga s)\<rparr>) })"

definition vga_text_write :: "'a machine_scheme \<Rightarrow> addr \<Rightarrow> (int \<times> 'a machine_scheme) option" where
  "vga_text_write s c =
     (if c = NULL \<or> \<not> vga_inited (vga s) then Some (-1, s)
      else do { s \<leftarrow> vga_text_write_raw s c; Some (0, s) })"

definition vt_cls :: "'a machine_scheme \<Rightarrow> 'a machine_scheme" where
  "vt_cls s =
     (if \<not> vga_inited (vga s) then s
      else
        let m = snd (memset (km s) (vga_bp (vga s)) 0 4000);
            b = (\<lambda>k. if k < VT_CELLS then (vga_buffer (vga s) k)\<lparr>vt_text := 0, vt_attr := 0xF\<rparr> else vga_buffer (vga s) k)
        in s\<lparr>km := m, vga := (vga s)\<lparr>vga_buffer := b, curr_row := 0, curr_col := 0, pre_row := 0, pre_col := 0\<rparr>\<rparr>)"

definition vga_text_init :: "'a machine_scheme \<Rightarrow> 'a machine_scheme" where
  "vga_text_init s =
     (let b = vmm_phy_to_virt s 0xB8000
      in vt_cls (s\<lparr>vga := (vga s)\<lparr>vga_bp := b, vga_cp := b, vga_inited := True\<rparr>\<rparr>))"

subsection \<open>Formatted printing\<close>

text \<open>What each ASCII code is for \<open>vkprintf\<close>: 0 is skipped, 1 is printed, 2 starts a conversion.\<close>

definition printable :: "u8 \<Rightarrow> nat" where
  "printable c = (if c = 37 then 2 else if c = 10 \<or> 32 \<le> c \<and> c < 127 then 1 else 0)"

text \<open>
  The result is collected in the local array \<open>pi.buf\<close> of 256 bytes at \<open>buf\<close>; \<open>nb\<close> and \<open>rb\<close> are the
  local arrays of \<open>itoa\<close>/\<open>itoh\<close> and of \<open>reverse\<close>.  Nothing checks the end of \<open>pi.buf\<close>: going over it
  is undefined behaviour.  The arguments are the words on the stack; taking one too many is, too.
\<close>

abbreviation IO_STR_LEN :: int where "IO_STR_LEN \<equiv> 256"

record locals =
  l_buf :: addr
  l_nb :: addr
  l_rb :: addr

definition pi_len :: "mem \<Rightarrow> addr \<Rightarrow> int option" where
  "pi_len m buf = do { n \<leftarrow> strlen m buf; if n < IO_STR_LEN then Some n else None }"

definition parse_int :: "locals \<Rightarrow> mem \<Rightarrow> u32 \<Rightarrow> int \<Rightarrow> (mem \<times> int) option" where
  "parse_int l m arg idx =
     (if idx + 12 > IO_STR_LEN then None
      else do {
        m \<leftarrow> itoa m (l_nb l) (l_rb l) (to_s32 arg) (l_buf l + to_u32 idx);
        n \<leftarrow> pi_len m (l_buf l);
        Some (m, n) })"

definition parse_char :: "locals \<Rightarrow> mem \<Rightarrow> u32 \<Rightarrow> int \<Rightarrow> (mem \<times> int) option" where
  "parse_char l m arg idx =
     (if idx \<ge> IO_STR_LEN then None
      else do {
        let m = st8 m (l_buf l + to_u32 idx) (ucast arg);
        n \<leftarrow> pi_len m (l_buf l);
        Some (m, n) })"

definition parse_str :: "locals \<Rightarrow> mem \<Rightarrow> u32 \<Rightarrow> int \<Rightarrow> (mem \<times> int) option" where
  "parse_str l m arg idx = do {
     len \<leftarrow> strlen m arg;
     if idx + len > IO_STR_LEN then None
     else do {
       let m = snd (memcpy m (l_buf l + to_u32 idx) arg len);
       n \<leftarrow> pi_len m (l_buf l);
       Some (m, n) } }"

definition parse_hex :: "locals \<Rightarrow> mem \<Rightarrow> u32 \<Rightarrow> int \<Rightarrow> (mem \<times> int) option" where
  "parse_hex l m arg idx =
     (if idx + 12 > IO_STR_LEN then None
      else do {
        m \<leftarrow> itoh m (l_nb l) (l_rb l) arg (l_buf l + to_u32 idx);
        n \<leftarrow> pi_len m (l_buf l);
        Some (m, n) })"

fun run_conv :: "conv \<Rightarrow> locals \<Rightarrow> mem \<Rightarrow> u32 \<Rightarrow> int \<Rightarrow> (mem \<times> int) option" where
  "run_conv Parse_int = parse_int"
| "run_conv Parse_char = parse_char"
| "run_conv Parse_str = parse_str"
| "run_conv Parse_hex = parse_hex"

text \<open>The conversion a letter selects; any other letter leaves the function pointer as it was.\<close>

definition select_conv :: "u8 \<Rightarrow> conv option \<Rightarrow> conv option" where
  "select_conv c f =
     (if c = 0x64 then Some Parse_int
      else if c = 0x63 then Some Parse_char
      else if c = 0x73 then Some Parse_str
      else if c = 0x78 \<or> c = 0x58 then Some Parse_hex
      else f)"

text \<open>
  The loop over the format, with the state (1: in a conversion), the length so far and the words
  left.  A code of 128 or more indexes the table with a negative number.
\<close>

fun vkprintf_loop :: "locals \<Rightarrow> u8 list \<Rightarrow> bool \<Rightarrow> int \<Rightarrow> u32 list \<Rightarrow> mem \<Rightarrow> conv option
    \<Rightarrow> (mem \<times> conv option) option" where
  "vkprintf_loop l [] conv len args m f = Some (m, f)"
| "vkprintf_loop l (c # cs) conv len args m f =
     (if c \<ge> 128 then None
      else if printable c = 0 then vkprintf_loop l cs conv len args m f
      else if conv then
        (let f = select_conv c f in
         case (f, args) of
           (Some g, arg # args) \<Rightarrow> do {
             (m, len) \<leftarrow> run_conv g l m arg len;
             vkprintf_loop l cs False len args m f }
         | _ \<Rightarrow> None)
      else if printable c = 2 then vkprintf_loop l cs True len args m f
      else if len \<ge> IO_STR_LEN then None
      else vkprintf_loop l cs False (len + 1) args (st8 m (l_buf l + to_u32 len) c) f)"

definition vkprintf :: "locals \<Rightarrow> 'a machine_scheme \<Rightarrow> addr \<Rightarrow> u32 list \<Rightarrow> 'a machine_scheme option" where
  "vkprintf l s fmt args = do {
     let m = snd (memset (km s) (l_buf l) 0 IO_STR_LEN);
     cs \<leftarrow> cbytes m fmt;
     (m, f) \<leftarrow> vkprintf_loop l cs False 0 args m (parse s);
     _ \<leftarrow> pi_len m (l_buf l);
     vt_flush_with_buf (s\<lparr>km := m, parse := f\<rparr>) (l_buf l) }"

definition kprintf :: "locals \<Rightarrow> 'a machine_scheme \<Rightarrow> addr \<Rightarrow> u32 list \<Rightarrow> 'a machine_scheme option" where
  "kprintf l s fmt args = vkprintf l s fmt args"

end
