(* ===== verification/Console_Spec.thy ===== *)
theory Console_Spec
  imports Console
begin

text \<open>
  What the console promises: the text \<open>kprintf\<close> puts together for a format, and that it appears on
  the screen where the cursor is.
\<close>

subsection \<open>Formats\<close>

datatype piece = Lit u8 | Dec | Hex | Str | Chr

fun fmt_of :: "piece list \<Rightarrow> u8 list" where
  "fmt_of [] = []"
| "fmt_of (Lit c # ps) = c # fmt_of ps"
| "fmt_of (Dec # ps) = 37 # 100 # fmt_of ps"
| "fmt_of (Hex # ps) = 37 # 120 # fmt_of ps"
| "fmt_of (Str # ps) = 37 # 115 # fmt_of ps"
| "fmt_of (Chr # ps) = 37 # 99 # fmt_of ps"

text \<open>The text of a format with its arguments; \<open>str\<close> gives the strings at addresses, and the character 0 leaves no trace.\<close>

fun render :: "(addr \<Rightarrow> u8 list) \<Rightarrow> piece list \<Rightarrow> u32 list \<Rightarrow> u8 list" where
  "render str (Lit c # ps) args = c # render str ps args"
| "render str (Dec # ps) (a # args) = dec_string (to_s32 a) @ render str ps args"
| "render str (Hex # ps) (a # args) = hex_string a @ render str ps args"
| "render str (Str # ps) (a # args) = str a @ render str ps args"
| "render str (Chr # ps) (a # args) = (if ucast a = (0 :: u8) then [] else [ucast a]) @ render str ps args"
| "render str ps args = []"

text \<open>The local arrays, and what a format may ask for.\<close>

definition locals_ok :: "locals \<Rightarrow> bool" where
  "locals_ok l \<longleftrightarrow> l_buf l \<noteq> NULL \<and> unat (l_buf l) + 256 < 4294967296 \<and> l_nb l \<noteq> NULL \<and> l_rb l \<noteq> NULL
     \<and> apart (l_buf l) 256 (l_nb l) 12 \<and> apart (l_buf l) 256 (l_rb l) 12 \<and> apart (l_rb l) 12 (l_nb l) 12"

definition local_at :: "locals \<Rightarrow> addr \<Rightarrow> bool" where
  "local_at l x \<longleftrightarrow> inside (l_buf l) 256 x \<or> inside (l_nb l) 12 x \<or> inside (l_rb l) 12 x"

fun pieces_ok :: "locals \<Rightarrow> mem \<Rightarrow> (addr \<Rightarrow> u8 list) \<Rightarrow> piece list \<Rightarrow> u32 list \<Rightarrow> bool" where
  "pieces_ok l m str [] args \<longleftrightarrow> args = []"
| "pieces_ok l m str (Lit c # ps) args \<longleftrightarrow> printable c = 1 \<and> pieces_ok l m str ps args"
| "pieces_ok l m str (Dec # ps) (a # args) \<longleftrightarrow> to_s32 a \<noteq> INT_MIN \<and> pieces_ok l m str ps args"
| "pieces_ok l m str (Hex # ps) (a # args) \<longleftrightarrow> pieces_ok l m str ps args"
| "pieces_ok l m str (Str # ps) (a # args) \<longleftrightarrow> a \<noteq> NULL \<and> cstr m a (str a) \<and> str a \<noteq> []
     \<and> (\<forall>x. inside a (Suc (length (str a))) x \<longrightarrow> \<not> local_at l x) \<and> pieces_ok l m str ps args"
| "pieces_ok l m str (Chr # ps) (a # args) \<longleftrightarrow> pieces_ok l m str ps args"
| "pieces_ok l m str ps args \<longleftrightarrow> False"

text \<open>The array holds the text so far and zeros.\<close>

definition pi_rep :: "mem \<Rightarrow> addr \<Rightarrow> u8 list \<Rightarrow> bool" where
  "pi_rep m buf out \<longleftrightarrow> length out < 256 \<and> 0 \<notin> set out
     \<and> (\<forall>i<256. m (buf + of_nat i) = (if i < length out then out ! i else 0))"

lemma pi_rep_cstr: "pi_rep m buf out \<Longrightarrow> cstr m buf out"
  by (auto simp: pi_rep_def cstr_iff)

lemma pi_rep_len: "pi_rep m buf out \<Longrightarrow> buf \<noteq> NULL \<Longrightarrow> pi_len m buf = Some (int (length out))"
  using strlen_cstr [OF pi_rep_cstr, of m buf out] by (simp add: pi_len_def pi_rep_def)

lemma pi_rep_start: "pi_rep (fill m buf 256 0) buf []"
  by (simp add: pi_rep_def fill_def)

text \<open>Text put behind the text so far, with nothing else in the array changed but to zeros.\<close>

lemma pi_rep_extend:
  assumes rep: "pi_rep m buf out" and new: "length out + length bs < 256" "0 \<notin> set bs"
    and at: "\<And>i. i < length bs \<Longrightarrow> m' (buf + of_nat (length out + i)) = bs ! i"
    and low: "\<And>i. i < length out \<Longrightarrow> m' (buf + of_nat i) = m (buf + of_nat i)"
    and high: "\<And>i. length out + length bs \<le> i \<Longrightarrow> i < 256 \<Longrightarrow> m' (buf + of_nat i) = 0"
  shows "pi_rep m' buf (out @ bs)"
  unfolding pi_rep_def
proof (intro conjI allI impI)
  fix i :: nat assume i: "i < 256"
  consider "i < length out" | "length out \<le> i" "i < length out + length bs" | "length out + length bs \<le> i" by linarith
  then show "m' (buf + of_nat i) = (if i < length (out @ bs) then (out @ bs) ! i else 0)"
  proof cases
    case 1
    then show ?thesis using low [of i] rep i by (simp add: pi_rep_def nth_append)
  next
    case 2
    then show ?thesis using at [of "i - length out"] by (simp add: nth_append)
  next
    case 3
    then show ?thesis using high [of i] i by simp
  qed
qed (use rep new in \<open>auto simp: pi_rep_def\<close>)

lemma u32_nat_eq: "i < 4294967296 \<Longrightarrow> j < 4294967296 \<Longrightarrow> (of_nat i :: u32) = of_nat j \<longleftrightarrow> i = j"
  using unat_of_nat_lt [of i] unat_of_nat_lt [of j] by metis

lemma buf_offset_neq: "i < 256 \<Longrightarrow> j < 256 \<Longrightarrow> (buf :: u32) + of_nat i = buf + of_nat j \<longleftrightarrow> i = j"
  by (simp add: u32_nat_eq)

lemma pi_lit:
  assumes "pi_rep m buf out" "length out < 255" "c \<noteq> 0"
  shows "pi_rep (st8 m (buf + of_nat (length out)) c) buf (out @ [c])"
  by (rule pi_rep_extend [OF assms(1)]) (use assms in \<open>auto simp: st8_def u32_nat_eq pi_rep_def\<close>)

text \<open>A number's conversion writes twelve bytes: the digits and zeros.\<close>

lemma pi_number:
  assumes ok: "locals_ok l" and rep: "pi_rep m (l_buf l) out" and room: "length out + 12 \<le> 256"
    and c: "cstr m' (l_buf l + of_nat (length out)) bs" "length bs < 12"
    and z: "\<forall>i<12. length bs \<le> i \<longrightarrow> m' (l_buf l + of_nat (length out) + of_nat i) = 0"
    and frame: "\<forall>x. \<not> inside (l_rb l) 12 x \<longrightarrow> \<not> inside (l_nb l) 12 x
      \<longrightarrow> \<not> inside (l_buf l + of_nat (length out)) 12 x \<longrightarrow> m' x = m x"
  shows "pi_rep m' (l_buf l) (out @ bs) \<and> (\<forall>x. \<not> local_at l x \<longrightarrow> m' x = m x)"
proof -
  let ?b = "l_buf l" and ?n = "length out"
  have ap: "apart ?b 256 (l_nb l) 12" "apart ?b 256 (l_rb l) 12" using ok by (simp_all add: locals_ok_def)
  have keep: "m' (?b + of_nat i) = m (?b + of_nat i)" if i: "i < 256" "i < ?n \<or> ?n + 12 \<le> i" for i
  proof -
    have "inside ?b 256 (?b + of_nat i)" using i by simp
    then have "\<not> inside (l_nb l) 12 (?b + of_nat i)" "\<not> inside (l_rb l) 12 (?b + of_nat i)"
      using ap apart_inside by blast+
    moreover have "\<not> inside (?b + of_nat ?n) 12 (?b + of_nat i)"
    proof
      assume "inside (?b + of_nat ?n) 12 (?b + of_nat i)"
      then obtain j where j: "j < 12" "?b + of_nat i = ?b + of_nat ?n + of_nat j" by (auto simp: inside_iff)
      then have "?b + of_nat i = ?b + of_nat (?n + j)" by (simp add: add.assoc)
      then have "i = ?n + j" using buf_offset_neq [of i "?n + j" ?b] i j room by simp
      then show False using i j by simp
    qed
    ultimately show ?thesis using frame by blast
  qed
  have "pi_rep m' ?b (out @ bs)"
  proof (rule pi_rep_extend [OF rep])
    show "?n + length bs < 256" using room c(2) by simp
    show "0 \<notin> set bs" using c(1) by (simp add: cstr_def)
    show "m' (?b + of_nat (?n + i)) = bs ! i" if "i < length bs" for i
      using c(1) that by (simp add: cstr_iff add.assoc)
    show "m' (?b + of_nat i) = m (?b + of_nat i)" if "i < ?n" for i using keep [of i] that room by simp
    show "m' (?b + of_nat i) = 0" if i: "?n + length bs \<le> i" "i < 256" for i
    proof (cases "i < ?n + 12")
      case True
      then show ?thesis using z [rule_format, of "i - ?n"] i by (simp add: add.assoc flip: of_nat_add)
    next
      case False
      then show ?thesis using keep [of i] i rep by (simp add: pi_rep_def)
    qed
  qed
  moreover have "inside ?b 256 x" if "inside (?b + of_nat ?n) 12 x" for x
    using inside_offset [OF that, of 256] room by simp
  ultimately show ?thesis using frame by (auto simp: local_at_def)
qed

lemma number_place:
  assumes ok: "locals_ok l" and room: "n + 12 \<le> 256"
  shows "l_buf l + of_nat n \<noteq> NULL" "l_nb l \<noteq> NULL" "l_rb l \<noteq> NULL" "apart (l_rb l) 12 (l_nb l) 12"
    "apart (l_buf l + of_nat n) 12 (l_nb l) 12"
proof -
  have b: "l_buf l \<noteq> NULL" "unat (l_buf l) + 256 < 4294967296" "apart (l_buf l) 256 (l_nb l) 12"
    using ok by (simp_all add: locals_ok_def)
  have "unat (l_buf l + of_nat n) = unat (l_buf l) + n"
    using b(2) room unat_of_nat_lt [of n] unfolding unat_word_ariths by (simp add: mod_less)
  then show "l_buf l + of_nat n \<noteq> NULL" using b(1) by (auto simp: unat_eq_0)
  show "apart (l_buf l + of_nat n) 12 (l_nb l) 12"
    using apart_sub [OF b(3), of n 12 0 12] room by simp
qed (use ok in \<open>simp_all add: locals_ok_def\<close>)

lemma pi_string:
  assumes ok: "locals_ok l" and rep: "pi_rep m (l_buf l) out" and room: "length out + length bs < 256"
    and s: "a \<noteq> NULL" "cstr m a bs" "bs \<noteq> []" "\<forall>x. inside a (Suc (length bs)) x \<longrightarrow> \<not> local_at l x"
  shows "\<exists>m'. parse_str l m a (int (length out)) = Some (m', int (length (out @ bs))) \<and> pi_rep m' (l_buf l) (out @ bs)
    \<and> (\<forall>x. \<not> local_at l x \<longrightarrow> m' x = m x)"
proof -
  let ?b = "l_buf l" and ?n = "length out" and ?k = "length bs"
  let ?d = "?b + of_nat ?n"
  define m' where "m' = blit m ?d a ?k"
  have b: "?b \<noteq> NULL" "unat ?b + 256 < 4294967296" using ok by (simp_all add: locals_ok_def)
  have "unat ?d = unat ?b + ?n"
    using b(2) room unat_of_nat_lt [of ?n] unfolding unat_word_ariths by (simp add: mod_less)
  then have dn: "?d \<noteq> NULL" using b(1) by (auto simp: unat_eq_0)
  have sub: "inside ?b 256 x" if "inside ?d ?k x" for x using inside_offset [OF that, of 256] room by simp
  have ap: "apart ?d ?k a ?k"
  proof (rule inside_apartI)
    show "\<not> inside a ?k x" if "inside ?d ?k x" for x
      using sub [OF that] s(4) inside_mono [of a ?k x "Suc ?k"] by (auto simp: local_at_def)
  qed (use room s(3) in auto)
  have len: "strlen m a = Some (int ?k)" using strlen_cstr [OF s(2,1)] room by simp
  have cp: "memcpy m ?d a (int ?k) = (?d, m')"
    using memcpy_eq [OF dn s(1), of "int ?k" m] ap s(3) room by (simp add: m'_def Suc_le_eq)
  have rep': "pi_rep m' ?b (out @ bs)"
  proof (rule pi_rep_extend [OF rep room])
    show "0 \<notin> set bs" using s(2) by (simp add: cstr_def)
    show "m' (?b + of_nat (?n + i)) = bs ! i" if i: "i < ?k" for i
    proof -
      have e: "?b + of_nat (?n + i) = ?d + of_nat i" by (simp add: add.assoc)
      have "inside ?d ?k (?d + of_nat i)" using i room by (intro inside_add) simp_all
      then show ?thesis using s(2) i unfolding e m'_def blit_def by (simp add: cstr_iff)
    qed
    have out: "\<not> inside ?d ?k (?b + of_nat i)" if "i < 256" "i < ?n \<or> ?n + ?k \<le> i" for i
    proof
      assume "inside ?d ?k (?b + of_nat i)"
      then obtain j where j: "j < ?k" "?b + of_nat i = ?d + of_nat j" using room by (auto simp: inside_iff)
      then have "?b + of_nat i = ?b + of_nat (?n + j)" by (simp add: add.assoc)
      then have "i = ?n + j" using buf_offset_neq [of i "?n + j" ?b] that j room by simp
      then show False using that j by simp
    qed
    show "m' (?b + of_nat i) = m (?b + of_nat i)" if "i < ?n" for i
      using out [of i] that room by (simp add: m'_def blit_def)
    show "m' (?b + of_nat i) = 0" if "?n + ?k \<le> i" "i < 256" for i
      using out [of i] that rep by (simp add: m'_def blit_def pi_rep_def)
  qed
  have "parse_str l m a (int ?n) = Some (m', int (length (out @ bs)))"
    using len cp pi_rep_len [OF rep' b(1)] room by (simp add: parse_str_def to_u32_def)
  moreover have "\<forall>x. \<not> local_at l x \<longrightarrow> m' x = m x"
    using sub by (auto simp: m'_def blit_def local_at_def)
  ultimately show ?thesis using rep' by blast
qed

lemma pi_dec:
  assumes ok: "locals_ok l" and rep: "pi_rep m (l_buf l) out" and room: "length out + 12 \<le> 256" and a: "to_s32 a \<noteq> INT_MIN"
  shows "\<exists>m'. parse_int l m a (int (length out)) = Some (m', int (length (out @ dec_string (to_s32 a))))
    \<and> pi_rep m' (l_buf l) (out @ dec_string (to_s32 a)) \<and> (\<forall>x. \<not> local_at l x \<longrightarrow> m' x = m x)"
proof -
  note h = number_place [OF ok room]
  have "INT_MIN \<le> to_s32 a" "to_s32 a \<le> INT_MAX"
    using sint_greater_eq [of a] sint_less [of a] by (simp_all add: to_s32_def)
  then have n: "INT_MIN < to_s32 a" "to_s32 a \<le> INT_MAX" using a by simp_all
  from itoa_correct [OF n h(2,3,1,4,5), of m] obtain m' where
    m': "itoa m (l_nb l) (l_rb l) (to_s32 a) (l_buf l + of_nat (length out)) = Some m'"
      "cstr m' (l_buf l + of_nat (length out)) (dec_string (to_s32 a))" "length (dec_string (to_s32 a)) < 12"
      "\<forall>i<12. length (dec_string (to_s32 a)) \<le> i \<longrightarrow> m' (l_buf l + of_nat (length out) + of_nat i) = 0"
      "\<forall>x. \<not> inside (l_rb l) 12 x \<longrightarrow> \<not> inside (l_nb l) 12 x
        \<longrightarrow> \<not> inside (l_buf l + of_nat (length out)) 12 x \<longrightarrow> m' x = m x"
    by blast
  note p = pi_number [OF ok rep room m'(2,3,4,5)]
  then have "pi_len m' (l_buf l) = Some (int (length (out @ dec_string (to_s32 a))))"
    using pi_rep_len [OF conjunct1 [OF p]] ok by (simp add: locals_ok_def)
  then show ?thesis using m'(1) room p by (intro exI [of _ m']) (simp add: parse_int_def to_u32_def)
qed

lemma pi_hex:
  assumes ok: "locals_ok l" and rep: "pi_rep m (l_buf l) out" and room: "length out + 12 \<le> 256"
  shows "\<exists>m'. parse_hex l m a (int (length out)) = Some (m', int (length (out @ hex_string a)))
    \<and> pi_rep m' (l_buf l) (out @ hex_string a) \<and> (\<forall>x. \<not> local_at l x \<longrightarrow> m' x = m x)"
proof -
  note h = number_place [OF ok room]
  from itoh_correct [OF h(2,3,1,4,5), of m a] obtain m' where
    m': "itoh m (l_nb l) (l_rb l) a (l_buf l + of_nat (length out)) = Some m'"
      "cstr m' (l_buf l + of_nat (length out)) (hex_string a)" "length (hex_string a) < 12"
      "\<forall>i<12. length (hex_string a) \<le> i \<longrightarrow> m' (l_buf l + of_nat (length out) + of_nat i) = 0"
      "\<forall>x. \<not> inside (l_rb l) 12 x \<longrightarrow> \<not> inside (l_nb l) 12 x
        \<longrightarrow> \<not> inside (l_buf l + of_nat (length out)) 12 x \<longrightarrow> m' x = m x"
    by blast
  note p = pi_number [OF ok rep room m'(2,3,4,5)]
  then have "pi_len m' (l_buf l) = Some (int (length (out @ hex_string a)))"
    using pi_rep_len [OF conjunct1 [OF p]] ok by (simp add: locals_ok_def)
  then show ?thesis using m'(1) room p by (intro exI [of _ m']) (simp add: parse_hex_def to_u32_def)
qed

lemma pi_char:
  assumes ok: "locals_ok l" and rep: "pi_rep m (l_buf l) out" and room: "length out < 255"
  shows "\<exists>m'. parse_char l m a (int (length out)) = Some (m', int (length (out @ (if ucast a = (0 :: u8) then [] else [ucast a]))))
    \<and> pi_rep m' (l_buf l) (out @ (if ucast a = (0 :: u8) then [] else [ucast a])) \<and> (\<forall>x. \<not> local_at l x \<longrightarrow> m' x = m x)"
proof -
  let ?m = "st8 m (l_buf l + of_nat (length out)) (ucast a)"
  have "m (l_buf l + of_nat (length out)) = 0" using rep room by (simp add: pi_rep_def)
  then have "?m = m" if "ucast a = (0 :: u8)" using that by (auto simp: st8_def fun_eq_iff)
  then have p: "pi_rep ?m (l_buf l) (out @ (if ucast a = (0 :: u8) then [] else [ucast a]))"
    using rep pi_lit [OF rep room, of "ucast a"] by simp
  have "inside (l_buf l) 256 (l_buf l + of_nat (length out))" using room by simp
  then have fr: "\<forall>x. \<not> local_at l x \<longrightarrow> ?m x = m x" by (auto simp: st8_def local_at_def)
  have "l_buf l \<noteq> NULL" using ok by (simp add: locals_ok_def)
  then have "parse_char l m a (int (length out)) = Some (?m, int (length (out @ (if ucast a = (0 :: u8) then [] else [ucast a]))))"
    using pi_rep_len [OF p] room by (simp add: parse_char_def to_u32_def)
  then show ?thesis using p fr by blast
qed

text \<open>A format's conversions leave the strings of the rest alone.\<close>

lemma pieces_ok_frame:
  "pieces_ok l m str ps args \<Longrightarrow> \<forall>x. \<not> local_at l x \<longrightarrow> m' x = m x \<Longrightarrow> \<forall>a. length (str a) < 256
    \<Longrightarrow> pieces_ok l m' str ps args"
proof (induction l m str ps args rule: pieces_ok.induct)
  case (5 l m str ps a args)
  have "length (str a) < 2 ^ 32" using 5(4) [rule_format, of a] by simp
  then have "cstr m' a (str a) = cstr m a (str a)"
    by (rule cstr_cong) (use 5(2,3) in \<open>simp\<close>)
  then show ?case using 5 by simp
qed (simp_all)

lemma printable_ascii: "printable c = 1 \<Longrightarrow> c < 128 \<and> c \<noteq> 0 \<and> c \<noteq> 37"
  by (auto simp: printable_def word_less_nat_alt split: if_splits)

lemma vkprintf_loop_eq:
  assumes ok: "locals_ok l"
  shows "\<forall>a. length (str a) < 256 \<Longrightarrow> pieces_ok l m str ps args \<Longrightarrow> pi_rep m (l_buf l) out \<Longrightarrow> length out + length (render str ps args) + 12 \<le> 256
    \<Longrightarrow> \<exists>m' f'. vkprintf_loop l (fmt_of ps) False (int (length out)) args m f = Some (m', f')
      \<and> pi_rep m' (l_buf l) (out @ render str ps args) \<and> (\<forall>x. \<not> local_at l x \<longrightarrow> m' x = m x)"
proof (induction str ps args arbitrary: m out f rule: render.induct)
  case (1 str c ps args)
  have c: "printable c = 1" "pieces_ok l m str ps args" using 1 by simp_all
  let ?m = "st8 m (l_buf l + of_nat (length out)) c"
  have len: "length out < 255" using 1(5) by simp
  have rep: "pi_rep ?m (l_buf l) (out @ [c])"
    using 1(4) len printable_ascii [OF c(1)] by (intro pi_lit) simp_all
  have "inside (l_buf l) 256 (l_buf l + of_nat (length out))" using len by simp
  then have fr: "\<forall>x. \<not> local_at l x \<longrightarrow> ?m x = m x" by (auto simp: st8_def local_at_def)
  from 1(1) [OF 1(2) pieces_ok_frame [OF c(2) fr 1(2)] rep, of f] 1(5) obtain m' f' where
    "vkprintf_loop l (fmt_of ps) False (int (length (out @ [c]))) args ?m f = Some (m', f')"
    "pi_rep m' (l_buf l) ((out @ [c]) @ render str ps args)" "\<forall>x. \<not> local_at l x \<longrightarrow> m' x = ?m x"
    by auto
  then show ?case using printable_ascii [OF c(1)] c(1) len fr
    by (intro exI [of _ m'] exI [of _ f']) (simp add: to_u32_def not_le add.commute)
next
  case (2 str ps a args)
  have c: "to_s32 a \<noteq> INT_MIN" "pieces_ok l m str ps args" using 2 by simp_all
  have room: "length out + 12 \<le> 256" using 2(5) by simp
  from pi_dec [OF ok 2(4) room c(1)] obtain m1 where
    m1: "parse_int l m a (int (length out)) = Some (m1, int (length (out @ dec_string (to_s32 a))))"
      "pi_rep m1 (l_buf l) (out @ dec_string (to_s32 a))" "\<forall>x. \<not> local_at l x \<longrightarrow> m1 x = m x"
    by blast
  from 2(1) [OF 2(2) pieces_ok_frame [OF c(2) m1(3) 2(2)] m1(2), of "Some Parse_int"] 2(5) obtain m' f' where
    "vkprintf_loop l (fmt_of ps) False (int (length (out @ dec_string (to_s32 a)))) args m1 (Some Parse_int) = Some (m', f')"
    "pi_rep m' (l_buf l) ((out @ dec_string (to_s32 a)) @ render str ps args)" "\<forall>x. \<not> local_at l x \<longrightarrow> m' x = m1 x"
    by auto
  then show ?case using m1
    by (intro exI [of _ m'] exI [of _ f']) (simp add: printable_def select_conv_def)
next
  case (3 str ps a args)
  have c: "pieces_ok l m str ps args" using 3 by simp
  have room: "length out + 12 \<le> 256" using 3(5) by simp
  from pi_hex [OF ok 3(4) room] obtain m1 where
    m1: "parse_hex l m a (int (length out)) = Some (m1, int (length (out @ hex_string a)))"
      "pi_rep m1 (l_buf l) (out @ hex_string a)" "\<forall>x. \<not> local_at l x \<longrightarrow> m1 x = m x"
    by blast
  from 3(1) [OF 3(2) pieces_ok_frame [OF c m1(3) 3(2)] m1(2), of "Some Parse_hex"] 3(5) obtain m' f' where
    "vkprintf_loop l (fmt_of ps) False (int (length (out @ hex_string a))) args m1 (Some Parse_hex) = Some (m', f')"
    "pi_rep m' (l_buf l) ((out @ hex_string a) @ render str ps args)" "\<forall>x. \<not> local_at l x \<longrightarrow> m' x = m1 x"
    by auto
  then show ?case using m1
    by (intro exI [of _ m'] exI [of _ f']) (simp add: printable_def select_conv_def)
next
  case (4 str ps a args)
  have c: "a \<noteq> NULL" "cstr m a (str a)" "str a \<noteq> []" "\<forall>x. inside a (Suc (length (str a))) x \<longrightarrow> \<not> local_at l x"
    "pieces_ok l m str ps args" using 4 by simp_all
  have room: "length out + length (str a) < 256" using 4(5) by simp
  from pi_string [OF ok 4(4) room c(1-4)] obtain m1 where
    m1: "parse_str l m a (int (length out)) = Some (m1, int (length (out @ str a)))"
      "pi_rep m1 (l_buf l) (out @ str a)" "\<forall>x. \<not> local_at l x \<longrightarrow> m1 x = m x"
    by blast
  from 4(1) [OF 4(2) pieces_ok_frame [OF c(5) m1(3) 4(2)] m1(2), of "Some Parse_str"] 4(5) obtain m' f' where
    "vkprintf_loop l (fmt_of ps) False (int (length (out @ str a))) args m1 (Some Parse_str) = Some (m', f')"
    "pi_rep m' (l_buf l) ((out @ str a) @ render str ps args)" "\<forall>x. \<not> local_at l x \<longrightarrow> m' x = m1 x"
    by auto
  then show ?case using m1
    by (intro exI [of _ m'] exI [of _ f']) (simp add: printable_def select_conv_def)
next
  case (5 str ps a args)
  let ?c = "if ucast a = (0 :: u8) then [] else [ucast a]"
  have c: "pieces_ok l m str ps args" using 5 by simp
  have room: "length out < 255" using 5(5) by simp
  from pi_char [OF ok 5(4) room] obtain m1 where
    m1: "parse_char l m a (int (length out)) = Some (m1, int (length (out @ ?c)))"
      "pi_rep m1 (l_buf l) (out @ ?c)" "\<forall>x. \<not> local_at l x \<longrightarrow> m1 x = m x"
    by blast
  have "length (out @ ?c) + length (render str ps args) + 12 \<le> 256" using 5(5) by simp
  from 5(1) [OF 5(2) pieces_ok_frame [OF c m1(3) 5(2)] m1(2) this, of "Some Parse_char"] obtain m' f' where
    "vkprintf_loop l (fmt_of ps) False (int (length (out @ ?c))) args m1 (Some Parse_char) = Some (m', f')"
    "pi_rep m' (l_buf l) ((out @ ?c) @ render str ps args)" "\<forall>x. \<not> local_at l x \<longrightarrow> m' x = m1 x"
    by blast
  then show ?case using m1
    by (intro exI [of _ m'] exI [of _ f']) (simp add: printable_def select_conv_def split del: if_split)
qed (auto)

subsection \<open>The screen\<close>

text \<open>A cell of the screen shows a pixel.\<close>

definition shows_at :: "mem \<Rightarrow> addr \<Rightarrow> nat \<Rightarrow> vga_text \<Rightarrow> bool" where
  "shows_at m base k c \<longleftrightarrow> m (base + of_nat (2 * k)) = vt_text c \<and> m (base + of_nat (2 * k) + 1) = vt_attr c"

lemma vt_put_bytes:
  assumes "k < VT_CELLS" "k' < VT_CELLS" "k \<noteq> k'"
  shows "(base :: u32) + of_nat (2 * k) \<noteq> base + of_nat (2 * k')" "base + of_nat (2 * k) \<noteq> base + of_nat (2 * k') + 1"
    "base + of_nat (2 * k) + 1 \<noteq> base + of_nat (2 * k')" "base + of_nat (2 * k) + 1 \<noteq> base + of_nat (2 * k') + 1"
proof -
  have *: "(base :: u32) + of_nat a = base + of_nat b \<longleftrightarrow> a = b" if "a < 64001" "b < 64001" for a b
    using that by (simp add: u32_nat_eq)
  have s: "base + of_nat (2 * x) + 1 = base + of_nat (2 * x + 1)" for x :: nat by simp
  have odd: "2 * a \<noteq> 2 * b + 1" for a b :: nat by presburger
  show "base + of_nat (2 * k) \<noteq> base + of_nat (2 * k')" using assms by (subst *) auto
  show "base + of_nat (2 * k) \<noteq> base + of_nat (2 * k') + 1" unfolding s using assms odd by (subst *) auto
  show "base + of_nat (2 * k) + 1 \<noteq> base + of_nat (2 * k')" unfolding s using assms odd [of k' k] by (subst *) auto
  show "base + of_nat (2 * k) + 1 \<noteq> base + of_nat (2 * k') + 1" unfolding s using assms by (subst *) auto
qed

lemma shows_put [simp]: "shows_at (vt_put m base k c) base k c"
proof -
  have "base + of_nat (2 * k) \<noteq> base + of_nat (2 * k) + (1 :: u32)" by simp
  then show ?thesis by (simp add: shows_at_def vt_put_def st8_def)
qed

lemma shows_put_other:
  "k < VT_CELLS \<Longrightarrow> k' < VT_CELLS \<Longrightarrow> k' \<noteq> k \<Longrightarrow> shows_at (vt_put m base k' c') base k c = shows_at m base k c"
  using vt_put_bytes [of k k' base] by (simp add: shows_at_def vt_put_def st8_def)

text \<open>Flushing a row shows its cells up to the first empty one.\<close>

lemma vt_flush_row_shows:
  assumes "i < 399" "j \<le> 80"
  shows "\<exists>m'. vt_flush_row m base buf i j = Some m'
    \<and> (\<forall>n. j + n \<le> 80 \<and> (\<forall>x<n. vt_text (buf (80 * i + j + x)) \<noteq> 0) \<longrightarrow>
          (\<forall>x<n. shows_at m' base (80 * i + j + x) (buf (80 * i + j + x))))
    \<and> (\<forall>k<VT_CELLS. k < 80 * i + j \<longrightarrow> (\<forall>c. shows_at m' base k c = shows_at m base k c))"
  using assms
proof (induction m base buf i j rule: vt_flush_row.induct)
  case (1 m base buf i j)
  let ?k = "80 * i + j"
  have k: "?k < VT_CELLS" using 1(2,3) by simp
  show ?case
  proof (cases "vt_text (buf ?k) \<noteq> 0 \<and> j < 80")
    case False
    then have e: "vt_flush_row m base buf i j = Some m" using k by (subst vt_flush_row.simps) auto
    have "n = 0" if "j + n \<le> 80" "\<forall>x<n. vt_text (buf (?k + x)) \<noteq> 0" for n
      using False that by (cases n) (auto dest: spec [of _ 0])
    then show ?thesis unfolding e by blast
  next
    case True
    let ?m = "vt_put m base ?k (buf ?k)"
    have e: "vt_flush_row m base buf i j = vt_flush_row ?m base buf i (j + 1)"
      using True k by (subst vt_flush_row.simps) simp
    have "\<not> VT_CELLS \<le> ?k" using k by simp
    from 1(1) [OF this True 1(2)] True obtain m' where m': "vt_flush_row ?m base buf i (j + 1) = Some m'"
      and sh: "\<And>n x. j + 1 + n \<le> 80 \<Longrightarrow> \<forall>x<n. vt_text (buf (80 * i + (j + 1) + x)) \<noteq> 0 \<Longrightarrow> x < n
        \<Longrightarrow> shows_at m' base (80 * i + (j + 1) + x) (buf (80 * i + (j + 1) + x))"
      and fr: "\<And>k c. k < VT_CELLS \<Longrightarrow> k < 80 * i + (j + 1) \<Longrightarrow> shows_at m' base k c = shows_at ?m base k c"
      by auto
    have "shows_at m' base (?k + x) (buf (?k + x))"
      if n: "j + n \<le> 80" "\<forall>x<n. vt_text (buf (?k + x)) \<noteq> 0" "x < n" for n x
    proof (cases x)
      case 0
      then show ?thesis using fr [of ?k] k by simp
    next
      case (Suc y)
      have "vt_text (buf (80 * i + (j + 1) + z)) \<noteq> 0" if "z < n - 1" for z
        using n(2) [rule_format, of "Suc z"] that by simp
      then show ?thesis using sh [of "n - 1" y] n Suc by simp
    qed
    moreover have "shows_at m' base k c = shows_at m base k c" if "k < VT_CELLS" "k < ?k" for k c
      using fr [of k c] shows_put_other [of k ?k] that k by simp
    ultimately show ?thesis unfolding e m' by blast
  qed
qed

text \<open>Text without a line's end that fits the row goes into the row's cells.\<close>

lemma vga_write_fit:
  assumes "unat (curr_row v) < 400" "unat (curr_col v) + length cs \<le> 80" "10 \<notin> set cs"
  shows "\<exists>v'. vga_write cs (m, v) = Some (m, v') \<and> curr_row v' = curr_row v
    \<and> unat (curr_col v') = unat (curr_col v) + length cs \<and> pre_row v' = pre_row v \<and> pre_col v' = pre_col v
    \<and> vga_bp v' = vga_bp v \<and> vga_inited v' = vga_inited v
    \<and> (\<forall>x<length cs. vt_text (vga_buffer v' (80 * unat (curr_row v) + unat (curr_col v) + x)) = cs ! x)
    \<and> (\<forall>k. \<not> (80 * unat (curr_row v) + unat (curr_col v) \<le> k \<and> k < 80 * unat (curr_row v) + unat (curr_col v) + length cs)
        \<longrightarrow> vga_buffer v' k = vga_buffer v k)
    \<and> (\<forall>k. vt_attr (vga_buffer v' k) = vt_attr (vga_buffer v k))"
  using assms
proof (induction cs arbitrary: v)
  case (Cons c cs)
  let ?k = "80 * unat (curr_row v) + unat (curr_col v)"
  define v1 where "v1 = v\<lparr>vga_buffer := (vga_buffer v)(?k := (vga_buffer v ?k)\<lparr>vt_text := c\<rparr>), curr_col := curr_col v + 1\<rparr>"
  have "unat (curr_col v + 1) = unat (curr_col v) + 1" using Cons(3) by (simp add: unat_word_ariths)
  then have v1: "curr_row v1 = curr_row v" "unat (curr_col v1) = unat (curr_col v) + 1" "pre_row v1 = pre_row v"
      "pre_col v1 = pre_col v" "vga_bp v1 = vga_bp v" "vga_inited v1 = vga_inited v"
      "vga_buffer v1 = (vga_buffer v)(?k := (vga_buffer v ?k)\<lparr>vt_text := c\<rparr>)"
    by (simp_all add: v1_def)
  have step: "vga_write (c # cs) (m, v) = vga_write cs (m, v1)"
    using Cons(2-4) by (simp add: v1_def Let_def)
  have c1: "unat (curr_row v1) < 400" "unat (curr_col v1) + length cs \<le> 80" "10 \<notin> set cs"
    using Cons(2-4) v1 by simp_all
  from Cons(1) [OF c1] obtain v' where
    v': "vga_write cs (m, v1) = Some (m, v')" "curr_row v' = curr_row v1" "unat (curr_col v') = unat (curr_col v1) + length cs"
      "pre_row v' = pre_row v1" "pre_col v' = pre_col v1" "vga_bp v' = vga_bp v1" "vga_inited v' = vga_inited v1"
      "\<And>x. x < length cs \<Longrightarrow> vt_text (vga_buffer v' (80 * unat (curr_row v1) + unat (curr_col v1) + x)) = cs ! x"
      "\<And>k. \<not> (80 * unat (curr_row v1) + unat (curr_col v1) \<le> k \<and> k < 80 * unat (curr_row v1) + unat (curr_col v1) + length cs)
        \<Longrightarrow> vga_buffer v' k = vga_buffer v1 k"
      "\<And>k. vt_attr (vga_buffer v' k) = vt_attr (vga_buffer v1 k)"
    by blast
  have "vt_text (vga_buffer v' (?k + x)) = (c # cs) ! x" if "x < length (c # cs)" for x
  proof (cases x)
    case 0
    then show ?thesis using v'(9) [of ?k] v1 by simp
  next
    case (Suc y)
    then show ?thesis using v'(8) [of y] v1(1,2) that by (simp add: add.assoc)
  qed
  moreover have "vga_buffer v' k = vga_buffer v k" if "\<not> (?k \<le> k \<and> k < ?k + length (c # cs))" for k
    using v'(9) [of k] v1 that by auto
  moreover have "vt_attr (vga_buffer v' k) = vt_attr (vga_buffer v k)" for k using v'(10) v1(7) by simp
  ultimately show ?case unfolding step using v'(1-7) v1 by (intro exI [of _ v']) simp
qed simp

end
