(* ===== verification/Mmi_Spec.thy ===== *)
theory Mmi_Spec
  imports Mmi
begin

text \<open>
  The composed heap: the buddy allocator has handed out the blocks \<open>A\<close>, one of them, \<open>b\<close>, holds the
  pools, and the pools have handed out cells of it.  What a caller of \<open>yalloc\<close> may hold is a block
  other than \<open>b\<close>, of more than a page, or a cell.
\<close>

definition heap_rep :: "'a pool_state_scheme \<Rightarrow> block set \<Rightarrow> block \<Rightarrow> (nat \<Rightarrow> nat list) \<Rightarrow> (nat \<Rightarrow> nat) \<Rightarrow> bool" where
  "heap_rep s A b F T \<longleftrightarrow> bud_rep s A \<and> b \<in> A \<and> bm_ll (bm s) = 2048 \<and> (\<forall>a\<in>A - {b}. 0 < fst a)
     \<and> pool_rep s F T
     \<and> (\<forall>c\<in>cells s. \<forall>x. inside (cell s c) (slot_w (pools s ! fst c)) x \<longrightarrow> inside (blk_addr s b) (chunk_of s (fst b)) x)
     \<and> mm_base (sec (mmm s)) = blk_addr s b \<and> mm_size (sec (mmm s)) = int (chunk_of s (fst b))"

definition heap_regions :: "'a pool_state_scheme \<Rightarrow> region set \<Rightarrow> bool" where
  "heap_regions s R \<longleftrightarrow> (\<exists>A b F T. heap_rep s A b F T
     \<and> R = blk_region s ` (A - {b}) \<union> cell_region s ` used_cells F T)"

definition heap_fits :: "'a pool_state_scheme \<Rightarrow> region set \<Rightarrow> nat \<Rightarrow> bool" where
  "heap_fits s R z \<longleftrightarrow> 0 < z \<and> int z \<le> bm_heap_size (bm s) \<and>
     (z \<le> 1024 \<and> (\<exists>i k. slot_ord z = Some i \<and> (i, k) \<in> cells s \<and> cell_region s (i, k) \<notin> R)
      \<or> 2048 < z \<and> (\<exists>i. ord_for s z = Some i \<and>
          (\<forall>A b F T. heap_rep s A b F T \<and> R = blk_region s ` (A - {b}) \<union> cell_region s ` used_cells F T
             \<longrightarrow> free_block s A i \<noteq> None)))"

text \<open>The operations of the heap change nothing but its own parts of the state and of the memory.\<close>

definition heap_only :: "'a pool_state_scheme \<Rightarrow> 'a pool_state_scheme \<Rightarrow> bool" where
  "heap_only s s' \<longleftrightarrow> (\<exists>m bs ps. s' = s\<lparr>km := m, bud := bs, pools := ps\<rparr> \<and> map bs_bmp bs = map bs_bmp (bud s)
     \<and> cells s' = cells s \<and> (\<forall>x. \<not> in_heap s x \<longrightarrow> m x = km s x))"

lemma heap_onlyI:
  "s' = s\<lparr>km := m, bud := bs, pools := ps\<rparr> \<Longrightarrow> map bs_bmp bs = map bs_bmp (bud s) \<Longrightarrow> cells s' = cells s \<Longrightarrow>
     (\<And>x. \<not> in_heap s x \<Longrightarrow> m x = km s x) \<Longrightarrow> heap_only s s'"
  unfolding heap_only_def by blast

lemma heap_only_simps:
  assumes "heap_only s s'"
  shows "bm s' = bm s" "pmm s' = pmm s" "mmm s' = mmm s" "pool_state.more s' = pool_state.more s"
    "cells s' = cells s" "in_heap s' = in_heap s" "\<And>x. \<not> in_heap s x \<Longrightarrow> km s' x = km s x"
  using assms by (auto simp: heap_only_def intro: in_heap_same)

lemma heap_repD:
  assumes "heap_rep s A b F T"
  shows "bud_rep s A" "b \<in> A" "bm_ll (bm s) = 2048" "\<And>a. a \<in> A \<Longrightarrow> a \<noteq> b \<Longrightarrow> 0 < fst a"
    "pool_rep s F T" "pools_wf s" "used_cells F T \<subseteq> cells s"
    "\<And>c x. c \<in> cells s \<Longrightarrow> inside (cell s c) (slot_w (pools s ! fst c)) x \<Longrightarrow> inside (blk_addr s b) (chunk_of s (fst b)) x"
    "mm_base (sec (mmm s)) = blk_addr s b" "mm_size (sec (mmm s)) = int (chunk_of s (fst b))"
  using assms used_cells_sub [of s F T] unfolding heap_rep_def by (auto simp: pool_rep_def)

text \<open>The parts of a cell lie in the cell, so in the block of the pools.\<close>

lemma cell_in_block:
  assumes rep: "heap_rep s A b F T" and c: "c \<in> cells s"
  shows "inside (cell s c) 4 x \<Longrightarrow> inside (blk_addr s b) (chunk_of s (fst b)) x"
    "inside (cell s c + 4) (16 * 2 ^ fst c) x \<Longrightarrow> inside (blk_addr s b) (chunk_of s (fst b)) x"
proof -
  note h = heap_repD [OF rep]
  have i: "fst c < 7" using c by (auto simp: cells_def)
  note w = pools_wfD(2) [OF h(6) i]
  have small: "slot_w (pools s ! fst c) \<le> 2 ^ 32"
    using power_increasing [of "fst c" 7 "2 :: nat"] i unfolding w by simp
  show "inside (blk_addr s b) (chunk_of s (fst b)) x" if "inside (cell s c) 4 x"
    by (rule h(8) [OF c inside_mono [OF that]]) (simp add: w)
  show "inside (blk_addr s b) (chunk_of s (fst b)) x" if "inside (cell s c + 4) (16 * 2 ^ fst c) x"
    by (rule h(8) [OF c inside_sub [OF that, of _ 4]]) (use small in \<open>simp_all add: w\<close>)
qed

lemma blk_chunk: "bud_rep s A \<Longrightarrow> (i, n) \<in> A \<Longrightarrow> bm_ll (bm s) = 2048 \<Longrightarrow> chunk_of s i = 2048 * 2 ^ i"
  by (simp add: chunk_of_def)

text \<open>Which of the two allocators an address belongs to.\<close>

lemma where_is:
  assumes rep: "heap_rep s A b F T"
  shows "mm_where_is_addr s a = MM_SEC \<longleftrightarrow> inside (blk_addr s b) (chunk_of s (fst b)) a"
proof -
  note h = heap_repD [OF rep]
  have bb: "unat (blk_addr s b) = unat (bm_heap_base (bm s)) + ll_of s * (snd b * 2 ^ fst b)"
    "ll_of s * (snd b * 2 ^ fst b) + chunk_of s (fst b) \<le> nat (bm_heap_size (bm s))"
    using blk_bounds(1,3) [OF h(1), of "fst b" "snd b"] h(2) by simp_all
  have hw: "bm_heap_size (bm s) \<le> INT_MAX" "0 < unat (bm_heap_base (bm s))"
    "unat (bm_heap_base (bm s)) + nat (bm_heap_size (bm s)) < 4294967296"
    using h(1) by (simp_all add: bud_rep_def heap_wf_def)
  have "mm_where_is_addr s a = MM_SEC \<longleftrightarrow> inside (mm_base (sec (mmm s))) (nat (mm_size (sec (mmm s)))) a"
  proof (rule mm_where_sec)
    show "mm_base (sec (mmm s)) \<noteq> NULL" using bb(1) hw(2) unfolding h(9) by auto
    show "0 \<le> mm_size (sec (mmm s))" "mm_size (sec (mmm s)) \<le> INT_MAX" using bb(2) hw(1) unfolding h(10) by linarith+
    show "unat (mm_base (sec (mmm s))) + nat (mm_size (sec (mmm s))) < 2 ^ 32"
      using bb hw(3) unfolding h(9,10) by simp
  qed
  then show ?thesis unfolding h(9,10) by simp
qed

subsection \<open>The operations\<close>

text \<open>A change outside the block of the pools and to the buddy allocator's own fields keeps the pools.\<close>

lemma pools_untouched:
  fixes s s' :: "'a pool_state_scheme"
  assumes rep: "heap_rep s A b F T" and eq: "pools s' = pools s" "pmm s' = pmm s"
    and same: "\<And>x. inside (blk_addr s b) (chunk_of s (fst b)) x \<Longrightarrow> km s' x = km s x"
  shows "pool_rep s' F T"
  by (rule pool_rep_write [OF heap_repD(5) [OF rep] eq]) (blast intro: same cell_in_block(1) [OF rep])

lemma heap_rep_transfer:
  fixes s s' :: "'a pool_state_scheme"
  assumes rep: "heap_rep s A b F T" and eq: "bm s' = bm s" "sec (mmm s') = sec (mmm s)" "cells s' = cells s" "cell s' = cell s"
    and w: "\<And>i. i < 7 \<Longrightarrow> slot_w (pools s' ! i) = slot_w (pools s ! i)"
    and new: "bud_rep s' A'" "b \<in> A'" "\<forall>a\<in>A' - {b}. 0 < fst a" "pool_rep s' F' T'"
  shows "heap_rep s' A' b F' T'"
proof -
  have "blk_addr s' = blk_addr s" "chunk_of s' = chunk_of s"
    by (simp_all add: fun_eq_iff blk_addr_def chunk_of_def eq(1))
  moreover have "inside (blk_addr s b) (chunk_of s (fst b)) x"
    if "c \<in> cells s" "inside (cell s' c) (slot_w (pools s' ! fst c)) x" for c x
    using that w [of "fst c"] fun_cong [OF eq(4), of c] heap_repD(8) [OF rep, of c x] by (auto simp: cells_def)
  ultimately show ?thesis
    using rep new unfolding heap_rep_def eq by (simp add: eq(3))
qed

lemma yalloc_block:
  fixes s :: "'a pool_state_scheme"
  assumes rep: "heap_rep s A b F T" and z: "2048 < z" "int z \<le> bm_heap_size (bm s)"
    and ord: "ord_for s z = Some i" and free: "free_block s A i = Some n"
  shows "\<exists>s'. yalloc s (int z) = Some (blk_addr s (i, n), s') \<and> heap_rep s' (insert (i, n) A) b F T
    \<and> blk_region s' = blk_region s \<and> cell_region s' = cell_region s \<and> heap_only s s' \<and> pools s' = pools s
    \<and> (\<forall>a\<in>A. \<forall>x. inside (blk_addr s a) (chunk_of s (fst a)) x \<longrightarrow> km s' x = km s x)"
proof -
  note h = heap_repD [OF rep]
  have z0: "0 < z" using z(1) by simp
  obtain s' m bs where s': "bud_alloc_raw s (int z) = Some (blk_addr s (i, n), s')" "bud_rep s' (insert (i, n) A)"
    "bm s' = bm s" "s' = s\<lparr>km := m, bud := bs\<rparr>"
    "\<forall>x. \<not> in_bitmaps s x \<and> x \<noteq> blk_hdr s (i, n) \<longrightarrow> km s' x = km s x" "map bs_bmp (bud s') = map bs_bmp (bud s)"
    using bud_alloc_block [OF h(1) z0 z(2) ord free] by blast
  have ib: "int z \<le> INT_MAX" using z(2) h(1) by (simp add: bud_rep_def heap_wf_def)
  have in_ord: "i < nord s" "n < nblk s i" using ord_for_Some [OF ord] free by (auto simp: free_block_def first_free_Some)
  have "0 < i" using ord_for_Some [OF ord] z(1) h(3) by (cases i) (auto simp: chunk_of_def)
  have "blk_addr s (i, n) \<noteq> NULL"
    using blk_bounds(1) [OF s'(2), of i n] h(1) by (auto simp: bud_rep_def heap_wf_def blk_addr_def s'(3))
  then have alloc: "yalloc s (int z) = Some (blk_addr s (i, n), s')"
    using z ib s'(1) by (simp add: yalloc_def bud_alloc_def mm_get_pri_llc_def to_int_def)
  have "pool_rep s' F T"
    by (rule pools_untouched [OF rep]) (use s'(4,5) block_untouched [OF h(1,2)] in_ord in auto)
  moreover have "\<forall>a\<in>insert (i, n) A - {b}. 0 < fst a" using h(4) \<open>0 < i\<close> by (metis Diff_iff fst_conv insert_iff)
  ultimately have "heap_rep s' (insert (i, n) A) b F T"
    using s'(2) h(2) by (intro heap_rep_transfer [OF rep]) (simp_all add: s'(4) cells_def)
  moreover have "cell_region s' = cell_region s" by (simp add: fun_eq_iff cell_region_def s'(4))
  moreover have "km s' x = km s x" if "a \<in> A" "inside (blk_addr s a) (chunk_of s (fst a)) x" for a x
    using s'(5) block_untouched [OF h(1) that] in_ord by blast
  moreover have "heap_only s s'"
  proof (rule heap_onlyI)
    show "s' = s\<lparr>km := km s', bud := bs, pools := pools s\<rparr>" by (simp add: s'(4))
    show "map bs_bmp bs = map bs_bmp (bud s)" "cells s' = cells s" using s'(4,6) by (simp_all add: cells_def)
    show "km s' x = km s x" if "\<not> in_heap s x" for x
      using that s'(5) hdr_in_heap [OF h(1) in_ord] by (auto simp: in_heap_def)
  qed
  moreover have "pools s' = pools s" by (simp add: s'(4))
  ultimately show ?thesis using region_cong [OF s'(3)] alloc by blast
qed

lemma yalloc_cell:
  fixes s :: "'a pool_state_scheme"
  assumes rep: "heap_rep s A b F T" and z: "z \<le> 1024" and fits: "pool_fits s (cell_region s ` used_cells F T) z"
  shows "\<exists>i k s' F' T'. slot_ord z = Some i \<and> yalloc s (int z) = Some (cell s (i, k) + 4, s')
    \<and> heap_rep s' A b F' T' \<and> (i, k) \<in> cells s \<and> (i, k) \<notin> used_cells F T
    \<and> used_cells F' T' = insert (i, k) (used_cells F T)
    \<and> blk_region s' = blk_region s \<and> cell_region s' = cell_region s \<and> km s' = km s \<and> heap_only s s'"
proof -
  note h = heap_repD [OF rep]
  from pool_alloc_region [OF h(5) fits] obtain i k s' F' T' ps where
    s': "slot_ord z = Some i" "pl_alloc s (int z) = Some (cell s (i, k) + 4, s')" "pool_rep s' F' T'" "(i, k) \<in> cells s"
      "used_cells F' T' = insert (i, k) (used_cells F T)" "(i, k) \<notin> used_cells F T"
      "km s' = km s" "cell_region s' = cell_region s" "s' = s\<lparr>pools := ps\<rparr>" "cells s' = cells s" "cell s' = cell s"
    by blast
  have z0: "0 < z" using fits by (simp add: pool_fits_def)
  have b: "inside (blk_addr s b) (chunk_of s (fst b)) (cell s (i, k) + 4)"
    by (rule cell_in_block(2) [OF rep s'(4)]) (simp add: inside_def)
  have ne: "cell s (i, k) + 4 \<noteq> NULL"
  proof
    assume "cell s (i, k) + 4 = NULL"
    then have "mm_where_is_addr s NULL = MM_SEC" using b where_is [OF rep, of NULL] by simp
    then show False by (simp add: mm_where_is_addr_def)
  qed
  have "yalloc s (int z) = Some (cell s (i, k) + 4, s')"
    using z z0 s'(2) ne by (simp add: yalloc_def mm_get_pri_llc_def to_int_def to_u32_def)
  moreover have "heap_rep s' A b F' T'"
  proof (rule heap_rep_transfer [OF rep _ _ s'(10,11)])
    show "bud_rep s' A" using bud_rep_same [of s' s A] h(1) by (simp add: s'(9))
    have "pools_wf s'" using s'(3) by (simp add: pool_rep_def)
    then show "slot_w (pools s' ! j) = slot_w (pools s ! j)" if "j < 7" for j
      using pools_wfD(2) [OF _ that] h(6) by metis
  qed (use s'(3) h(2,4) in \<open>auto simp: s'(9)\<close>)
  moreover have "blk_region s' = blk_region s" by (rule region_cong) (simp add: s'(9))
  moreover have "heap_only s s'" by (rule heap_onlyI [where m = "km s" and bs = "bud s" and ps = ps]) (use s'(9,10) in simp_all)
  ultimately show ?thesis using s' by blast
qed

lemma yfree_block:
  fixes s :: "'a pool_state_scheme"
  assumes rep: "heap_rep s A b F T" and a: "(i, n) \<in> A" "(i, n) \<noteq> b"
  shows "\<exists>s'. yfree s (blk_addr s (i, n)) = Some s' \<and> heap_rep s' (A - {(i, n)}) b F T
    \<and> blk_region s' = blk_region s \<and> cell_region s' = cell_region s \<and> heap_only s s'
    \<and> (\<forall>a\<in>A. \<forall>x. inside (blk_addr s a) (chunk_of s (fst a)) x \<longrightarrow> km s' x = km s x)"
proof -
  note h = heap_repD [OF rep]
  obtain s' where s': "bud_free_raw s (blk_addr s (i, n)) = Some s'" "bud_rep s' (A - {(i, n)})" "shape s s'"
    using bud_free_block [OF h(1) a(1)] by blast
  obtain m bs where sh: "s' = s\<lparr>km := m, bud := bs\<rparr>" "\<forall>x. \<not> in_bitmaps s x \<longrightarrow> m x = km s x"
    "map bs_bmp bs = map bs_bmp (bud s)"
    using s'(3) unfolding shape_def by blast
  note dec = blk_decode [OF h(1) a(1)]
  have i: "i < nord s" "0 < i" using h(1) h(4) [OF a] a(1) by (auto simp: bud_rep_def)
  have hw: "heap_wf s" using h(1) by (simp add: bud_rep_def)
  have big: "2048 < int (chunk_of s i)"
    using power_strict_increasing [of 0 i "2 :: nat"] i(2) h(3) by (simp add: chunk_of_def)
  have "apart (blk_addr s (i, n)) (chunk_of s i) (blk_addr s b) (chunk_of s (fst b))"
    using blk_region_apart [OF h(1) a(1) h(2) a(2)] by (simp add: blk_region_def)
  then have "\<not> inside (blk_addr s b) (chunk_of s (fst b)) (blk_addr s (i, n))"
    using big by (auto simp: apart_def inside_def)
  then have "mm_where_is_addr s (blk_addr s (i, n)) \<noteq> MM_SEC" using where_is [OF rep] by simp
  then have "mm_where_is_addr s (blk_addr s (i, n)) = MM_PRI" using dec(4) by (simp add: mm_where_is_addr_def split: if_splits)
  moreover have "bud_get_chunk s (int i) = int (chunk_of s i)" by (rule bud_get_chunk_eq [OF hw i(1)])
  moreover have "to_s32 (of_nat i) = int i" using wf_bounds(7) [of s i] i(1) h(1)
    by (intro to_s32_of_nat) (auto simp: bud_rep_def bitmaps_wf_def)
  ultimately have free: "yfree s (blk_addr s (i, n)) = Some s'"
    using dec s'(1) big by (simp add: yfree_def bud_free_def Let_def)
  have "pool_rep s' F T"
    by (rule pools_untouched [OF rep]) (use sh block_untouched [OF h(1,2)] in auto)
  moreover have "\<forall>c\<in>A - {(i, n)} - {b}. 0 < fst c" using h(4) by blast
  ultimately have "heap_rep s' (A - {(i, n)}) b F T"
    using s'(2) h(2) a by (intro heap_rep_transfer [OF rep]) (auto simp: sh(1) cells_def)
  moreover have "cell_region s' = cell_region s" by (simp add: fun_eq_iff cell_region_def sh(1))
  moreover have "blk_region s' = blk_region s" by (rule region_cong) (simp add: sh(1))
  moreover have "km s' x = km s x" if "a \<in> A" "inside (blk_addr s a) (chunk_of s (fst a)) x" for a x
    using sh block_untouched(1) [OF h(1) that] by simp
  moreover have "heap_only s s'"
    by (rule heap_onlyI [where m = m and bs = bs and ps = "pools s"]) (use sh in \<open>simp_all add: in_heap_def cells_def\<close>)
  ultimately show ?thesis using free by blast
qed

lemma yfree_cell:
  fixes s :: "'a pool_state_scheme"
  assumes rep: "heap_rep s A b F T" and c: "(i, k) \<in> used_cells F T"
  shows "\<exists>s'. yfree s (cell s (i, k) + 4) = Some s' \<and> heap_rep s' A b (F(i := k # F i)) T
    \<and> blk_region s' = blk_region s \<and> cell_region s' = cell_region s \<and> heap_only s s'
    \<and> (\<forall>x. \<not> inside (cell s (i, k)) 4 x \<longrightarrow> km s' x = km s x)"
proof -
  note h = heap_repD [OF rep]
  have cs: "(i, k) \<in> cells s" using c h(7) by blast
  define s' where "s' = pl_free s (cell s (i, k) + 4)"
  from pl_free_eq [OF h(5) c] obtain m ps where
    s': "pool_rep s' (F(i := k # F i)) T" "cell_region s' = cell_region s"
      "\<forall>x. \<not> inside (cell s (i, k)) 4 x \<longrightarrow> km s' x = km s x" "s' = s\<lparr>km := m, pools := ps\<rparr>" "cells s' = cells s" "cell s' = cell s"
    unfolding s'_def by blast
  have sec: "mm_where_is_addr s (cell s (i, k) + 4) = MM_SEC"
    using where_is [OF rep] cell_in_block(2) [OF rep cs, of "cell s (i, k) + 4"] by (simp add: inside_def)
  then have "cell s (i, k) + 4 \<noteq> NULL" by (auto simp: mm_where_is_addr_def)
  then have "yfree s (cell s (i, k) + 4) = Some s'" using sec by (simp add: yfree_def s'_def)
  moreover have "heap_rep s' A b (F(i := k # F i)) T"
  proof (rule heap_rep_transfer [OF rep _ _ s'(5,6)])
    show "bud_rep s' A"
      by (rule bud_rep_write [OF h(1,2)]) (use s'(3,4) cell_in_block(1) [OF rep cs] in auto)
    have "pools_wf s'" using s'(1) by (simp add: pool_rep_def)
    then show "slot_w (pools s' ! j) = slot_w (pools s ! j)" if "j < 7" for j
      using pools_wfD(2) [OF _ that] h(6) by metis
  qed (use s'(1) h(2,4) in \<open>auto simp: s'(4)\<close>)
  moreover have "blk_region s' = blk_region s" by (rule region_cong) (simp add: s'(4))
  moreover have "heap_only s s'"
  proof (rule heap_onlyI)
    show "s' = s\<lparr>km := km s', bud := bud s, pools := ps\<rparr>" by (simp add: s'(4))
    show "km s' x = km s x" if "\<not> in_heap s x" for x
      using that s'(3) cell_in_block(1) [OF rep cs] block_in_heap [OF h(1,2)] by blast
  qed (simp_all add: s'(5))
  ultimately show ?thesis using s'(2,3) by blast
qed

end
