(* ===== verification/Heap.thy ===== *)
theory Heap
  imports Mmi_Spec
begin

text \<open>The composed heap provides the interface of an allocator too.\<close>

definition heap_poke :: "'a pool_state_scheme \<Rightarrow> addr \<Rightarrow> u8 \<Rightarrow> 'a pool_state_scheme" where
  "heap_poke s x v = s\<lparr>km := st8 (km s) x v\<rparr>"

lemma cell_block_apart:
  assumes rep: "heap_rep s A b F T" and a: "a \<in> A" "a \<noteq> b" and c: "c \<in> cells s"
  shows "apart (fst (blk_region s a)) (snd (blk_region s a)) (fst (cell_region s c)) (snd (cell_region s c))"
proof (rule inside_apartI)
  note h = heap_repD [OF rep]
  have sz: "chunk_of s (fst a) \<le> nat (bm_heap_size (bm s))" "0 < chunk_of s (fst a)"
    using blk_bounds(3,4) [OF h(1), of "fst a" "snd a"] a(1) by simp_all
  have "bm_heap_size (bm s) \<le> INT_MAX" using h(1) by (simp add: bud_rep_def heap_wf_def)
  then show "snd (blk_region s a) \<le> 2 ^ 32" "0 < snd (blk_region s a)" using sz by (simp_all add: blk_region_def)
  have "fst c < 7" using c by (auto simp: cells_def)
  then show "snd (cell_region s c) \<le> 2 ^ 32" "0 < snd (cell_region s c)"
    using power_increasing [of "fst c" 7 "2 :: nat"] by (simp_all add: cell_region_def)
  fix x assume x: "inside (fst (blk_region s a)) (snd (blk_region s a)) x"
  have "apart (blk_addr s a) (chunk_of s (fst a)) (blk_addr s b) (chunk_of s (fst b))"
    using blk_region_apart [OF h(1) a(1) h(2) a(2)] by (simp add: blk_region_def)
  then have "\<not> inside (blk_addr s b) (chunk_of s (fst b)) x" using x apart_inside by (auto simp: blk_region_def)
  then show "\<not> inside (fst (cell_region s c)) (snd (cell_region s c)) x"
    using cell_in_block(2) [OF rep c] by (auto simp: cell_region_def)
qed

lemma block_not_cell:
  assumes "heap_rep s A b F T" "a \<in> A" "a \<noteq> b" "c \<in> cells s"
  shows "blk_region s a \<noteq> cell_region s c"
proof
  assume eq: "blk_region s a = cell_region s c"
  have "0 < snd (cell_region s c)" by (simp add: cell_region_def)
  then show False using cell_block_apart [OF assms] unfolding eq by simp
qed

lemma heap_regions_apart:
  assumes "heap_regions s R" "r \<in> R" "q \<in> R" "r \<noteq> q"
  shows "apart (fst r) (snd r) (fst q) (snd q)"
proof -
  obtain A b F T where rep: "heap_rep s A b F T" and R: "R = blk_region s ` (A - {b}) \<union> cell_region s ` used_cells F T"
    using assms(1) by (auto simp: heap_regions_def)
  note h = heap_repD [OF rep]
  have *: "apart (fst r) (snd r) (fst q) (snd q)"
    if "r \<in> blk_region s ` (A - {b})" "q \<in> cell_region s ` used_cells F T" for r q
    using that cell_block_apart [OF rep] h(7) by blast
  consider "r \<in> blk_region s ` (A - {b})" "q \<in> blk_region s ` (A - {b})"
    | "r \<in> cell_region s ` used_cells F T" "q \<in> cell_region s ` used_cells F T"
    | "r \<in> blk_region s ` (A - {b})" "q \<in> cell_region s ` used_cells F T"
    | "q \<in> blk_region s ` (A - {b})" "r \<in> cell_region s ` used_cells F T"
    using assms(2,3) R by blast
  then show ?thesis
  proof cases
    case 1
    then show ?thesis using blk_region_apart [OF h(1)] assms(4) by blast
  next
    case 2
    then show ?thesis using cell_region_apart [OF h(6)] h(7) assms(4) by blast
  next
    case 3
    then show ?thesis by (rule *)
  next
    case 4
    then show ?thesis using *[of q r] by (simp add: apart_sym)
  qed
qed

text \<open>What lies in a region lies in a block in use, and in no header of a cell.\<close>

lemma region_bytes:
  assumes rep: "heap_rep s A b F T" and r: "r \<in> blk_region s ` (A - {b}) \<union> cell_region s ` used_cells F T"
    and x: "inside (fst r) (snd r) x"
  shows "\<exists>a\<in>A. inside (blk_addr s a) (chunk_of s (fst a)) x" "c \<in> cells s \<Longrightarrow> \<not> inside (cell s c) 4 x"
proof -
  note h = heap_repD [OF rep]
  from r consider (block) a where "a \<in> A" "a \<noteq> b" "r = blk_region s a"
    | (cell) d where "d \<in> cells s" "r = cell_region s d"
    using h(7) by blast
  then have "(\<exists>a\<in>A. inside (blk_addr s a) (chunk_of s (fst a)) x) \<and> (c \<in> cells s \<longrightarrow> \<not> inside (cell s c) 4 x)"
  proof cases
    case block
    then have xa: "inside (blk_addr s a) (chunk_of s (fst a)) x" using x by (simp add: blk_region_def)
    have "apart (blk_addr s a) (chunk_of s (fst a)) (blk_addr s b) (chunk_of s (fst b))"
      using blk_region_apart [OF h(1) block(1) h(2) block(2)] by (simp add: blk_region_def)
    then show ?thesis using xa block(1) apart_inside cell_in_block(1) [OF rep] by blast
  next
    case cell
    then have xd: "inside (cell s d + 4) (16 * 2 ^ fst d) x" using x by (simp add: cell_region_def)
    then have "\<not> inside (cell s c) 4 x" if "c \<in> cells s"
      using apart_inside [OF cell_parts(2) [OF h(6) cell(1) that]] by blast
    then show ?thesis using cell_in_block(2) [OF rep cell(1) xd] h(2) by blast
  qed
  then show "\<exists>a\<in>A. inside (blk_addr s a) (chunk_of s (fst a)) x" "c \<in> cells s \<Longrightarrow> \<not> inside (cell s c) 4 x" by simp_all
qed

lemma heap_alloc_law:
  assumes "heap_regions s R" and fits: "heap_fits s R z"
  shows "\<exists>a n s'. yalloc s (int z) = Some (a, s') \<and> z \<le> n \<and> (a, n) \<notin> R \<and> heap_regions s' (insert (a, n) R)
    \<and> (\<forall>r\<in>R. \<forall>x. inside (fst r) (snd r) x \<longrightarrow> km s' x = km s x) \<and> heap_only s s'
    \<and> (n \<le> 1024 \<or> (\<exists>i. ord_for s z = Some i \<and> n = chunk_of s i))"
proof -
  obtain A b F T where rep: "heap_rep s A b F T" and R: "R = blk_region s ` (A - {b}) \<union> cell_region s ` used_cells F T"
    using assms(1) by (auto simp: heap_regions_def)
  note h = heap_repD [OF rep]
  have z: "0 < z" "int z \<le> bm_heap_size (bm s)" using fits by (simp_all add: heap_fits_def)
  from fits consider
      (cell) i k where "z \<le> 1024" "slot_ord z = Some i" "(i, k) \<in> cells s" "cell_region s (i, k) \<notin> R"
    | (block) i where "2048 < z" "ord_for s z = Some i" "free_block s A i \<noteq> None"
    unfolding heap_fits_def using rep R by blast
  then show ?thesis
  proof cases
    case cell
    then have "pool_fits s (cell_region s ` used_cells F T) z" using z R by (auto simp: pool_fits_def)
    from yalloc_cell [OF rep cell(1) this] obtain j l s' F' T' where
      s': "slot_ord z = Some j" "yalloc s (int z) = Some (cell s (j, l) + 4, s')" "heap_rep s' A b F' T'" "(j, l) \<in> cells s"
        "(j, l) \<notin> used_cells F T" "used_cells F' T' = insert (j, l) (used_cells F T)"
        "blk_region s' = blk_region s" "cell_region s' = cell_region s" "km s' = km s" "heap_only s s'"
      by blast
    have reg: "cell_region s (j, l) = (cell s (j, l) + 4, 16 * 2 ^ j)" by (simp add: cell_region_def)
    have "cell_region s (j, l) \<notin> cell_region s ` used_cells F T"
      using inj_onD [OF cell_region_inj [OF h(6)]] s'(4,5) h(7) by blast
    moreover have "cell_region s (j, l) \<notin> blk_region s ` (A - {b})"
      using block_not_cell [OF rep _ _ s'(4)] by fastforce
    moreover have "heap_regions s' (insert (cell_region s (j, l)) R)"
      unfolding heap_regions_def
      by (rule exI [of _ A], rule exI [of _ b], rule exI [of _ F'], rule exI [of _ T']) (auto simp: s' R)
    moreover have "z \<le> 16 * 2 ^ j" using slot_ord_Some [OF s'(1)] by simp
    moreover have "16 * 2 ^ j \<le> (1024 :: nat)" using slot_ord_Some [OF s'(1)] power_increasing [of j 6 "2 :: nat"] by simp
    ultimately show ?thesis using s'(2,9,10) R unfolding reg by auto
  next
    case block
    then obtain n where n: "free_block s A i = Some n" by blast
    from yalloc_block [OF rep block(1) z(2) block(2) n] obtain s' where
      s': "yalloc s (int z) = Some (blk_addr s (i, n), s')" "heap_rep s' (insert (i, n) A) b F T"
        "blk_region s' = blk_region s" "cell_region s' = cell_region s"
        "heap_only s s'" "\<forall>a\<in>A. \<forall>x. inside (blk_addr s a) (chunk_of s (fst a)) x \<longrightarrow> km s' x = km s x"
      by blast
    have keep: "\<forall>r\<in>R. \<forall>x. inside (fst r) (snd r) x \<longrightarrow> km s' x = km s x"
      using s'(6) region_bytes(1) [OF rep] unfolding R by blast
    have new: "(i, n) \<notin> A" using n by (auto simp: free_block_def first_free_Some)
    then have nb: "(i, n) \<noteq> b" using h(2) by blast
    have reg: "blk_region s (i, n) = (blk_addr s (i, n), chunk_of s i)" by (simp add: blk_region_def)
    have "blk_region s (i, n) \<notin> blk_region s ` (A - {b})"
      using inj_onD [OF blk_region_inj [OF heap_repD(1) [OF s'(2)]]] new unfolding s'(3) by blast
    moreover have "blk_region s (i, n) \<notin> cell_region s ` used_cells F T"
      using block_not_cell [OF s'(2), of "(i, n)"] nb heap_repD(7) [OF s'(2)] unfolding s'(3,4) by blast
    moreover have "heap_regions s' (insert (blk_region s (i, n)) R)"
      unfolding heap_regions_def
      by (rule exI [of _ "insert (i, n) A"], rule exI [of _ b], rule exI [of _ F], rule exI [of _ T]) (use nb in \<open>auto simp: s' R\<close>)
    moreover have "z \<le> chunk_of s i" using ord_for_Some [OF block(2)] by simp
    ultimately show ?thesis using s'(1,5) keep R block(2) unfolding reg by auto
  qed
qed

lemma heap_free_law:
  assumes "heap_regions s R" "(a, n) \<in> R"
  shows "\<exists>s'. yfree s a = Some s' \<and> heap_regions s' (R - {(a, n)})
    \<and> (\<forall>r\<in>R. \<forall>x. inside (fst r) (snd r) x \<longrightarrow> km s' x = km s x) \<and> heap_only s s'"
proof -
  obtain A b F T where rep: "heap_rep s A b F T" and R: "R = blk_region s ` (A - {b}) \<union> cell_region s ` used_cells F T"
    using assms(1) by (auto simp: heap_regions_def)
  note h = heap_repD [OF rep]
  from assms(2) consider (block) i k where "(i, k) \<in> A" "(i, k) \<noteq> b" "(a, n) = blk_region s (i, k)"
    | (cell) i k where "(i, k) \<in> used_cells F T" "(a, n) = cell_region s (i, k)"
    unfolding R by auto
  then show ?thesis
  proof cases
    case block
    from yfree_block [OF rep block(1,2)] obtain s' where
      s': "yfree s (blk_addr s (i, k)) = Some s'" "heap_rep s' (A - {(i, k)}) b F T"
        "blk_region s' = blk_region s" "cell_region s' = cell_region s"
        "heap_only s s'" "\<forall>a\<in>A. \<forall>x. inside (blk_addr s a) (chunk_of s (fst a)) x \<longrightarrow> km s' x = km s x"
      by blast
    have keep: "\<forall>r\<in>R. \<forall>x. inside (fst r) (snd r) x \<longrightarrow> km s' x = km s x"
      using s'(6) region_bytes(1) [OF rep] unfolding R by blast
    have "blk_region s ` (A - {b} - {(i, k)}) = blk_region s ` (A - {b}) - {(a, n)}"
      using inj_on_image_set_diff [OF blk_region_inj [OF h(1)], of "A - {b}" "{(i, k)}"] block by auto
    moreover have "(a, n) \<notin> cell_region s ` used_cells F T"
      using block_not_cell [OF rep block(1,2)] h(7) block(3) by auto
    moreover have e: "A - {(i, k)} - {b} = A - {b} - {(i, k)}" by blast
    ultimately have "R - {(a, n)} = blk_region s' ` (A - {(i, k)} - {b}) \<union> cell_region s' ` used_cells F T"
      unfolding s'(3,4) R e by blast
    then have "heap_regions s' (R - {(a, n)})" unfolding heap_regions_def using s'(2) by blast
    then show ?thesis using s'(1,5) block(3) keep by (auto simp: blk_region_def)
  next
    case cell
    from yfree_cell [OF rep cell(1)] obtain s' where
      s': "yfree s (cell s (i, k) + 4) = Some s'" "heap_rep s' A b (F(i := k # F i)) T"
        "blk_region s' = blk_region s" "cell_region s' = cell_region s"
        "heap_only s s'" "\<forall>x. \<not> inside (cell s (i, k)) 4 x \<longrightarrow> km s' x = km s x"
      by blast
    have "(i, k) \<in> cells s" using cell(1) h(7) by blast
    then have keep: "\<forall>r\<in>R. \<forall>x. inside (fst r) (snd r) x \<longrightarrow> km s' x = km s x"
      using s'(6) region_bytes(2) [OF rep] unfolding R by blast
    have u: "used_cells (F(i := k # F i)) T = used_cells F T - {(i, k)}"
      by (auto simp: used_cells_def split: if_splits)
    have "cell_region s ` (used_cells F T - {(i, k)}) = cell_region s ` used_cells F T - cell_region s ` {(i, k)}"
      using cell(1) h(7) by (intro inj_on_image_set_diff [OF cell_region_inj [OF h(6)]]) auto
    then have "cell_region s ` (used_cells F T - {(i, k)}) = cell_region s ` used_cells F T - {(a, n)}"
      by (simp add: cell(2))
    moreover have "(a, n) \<notin> blk_region s ` (A - {b})"
      using block_not_cell [OF rep] cell h(7) by fastforce
    ultimately have "R - {(a, n)} = blk_region s' ` (A - {b}) \<union> cell_region s' ` used_cells (F(i := k # F i)) T"
      unfolding s'(3,4) R u by blast
    then have "heap_regions s' (R - {(a, n)})" unfolding heap_regions_def using s'(2) by blast
    then show ?thesis using s'(1,5) cell(2) keep by (auto simp: cell_region_def)
  qed
qed

lemma heap_poke_law:
  fixes s :: "'a pool_state_scheme"
  assumes "heap_regions s R" "(a, n) \<in> R" "inside a n x"
  shows "heap_regions (heap_poke s x v) R"
proof -
  obtain A b F T where rep: "heap_rep s A b F T" and R: "R = blk_region s ` (A - {b}) \<union> cell_region s ` used_cells F T"
    using assms(1) by (auto simp: heap_regions_def)
  note h = heap_repD [OF rep]
  let ?s = "heap_poke s x v"
  from assms(2) consider (block) c where "c \<in> A" "c \<noteq> b" "(a, n) = blk_region s c"
    | (cell) c where "c \<in> used_cells F T" "(a, n) = cell_region s c"
    unfolding R by auto
  then have "bud_rep ?s A \<and> pool_rep ?s F T"
  proof cases
    case block
    have x: "inside (blk_addr s c) (chunk_of s (fst c)) x" using assms(3) block(3) by (simp add: blk_region_def)
    have "apart (blk_addr s c) (chunk_of s (fst c)) (blk_addr s b) (chunk_of s (fst b))"
      using blk_region_apart [OF h(1) block(1) h(2) block(2)] by (simp add: blk_region_def)
    then have "\<not> inside (blk_addr s b) (chunk_of s (fst b)) x" using x apart_inside by blast
    then have "pool_rep ?s F T"
      by (intro pools_untouched [OF rep]) (auto simp: heap_poke_def st8_def)
    moreover have "bud_rep ?s A"
      by (rule bud_rep_write [OF h(1) block(1)]) (use x in \<open>auto simp: heap_poke_def st8_def\<close>)
    ultimately show ?thesis by simp
  next
    case cell
    have c: "c \<in> cells s" using cell(1) h(7) by blast
    have x: "inside (cell s c + 4) (16 * 2 ^ fst c) x" using assms(3) cell(2) by (simp add: cell_region_def)
    have "pool_rep ?s F T"
      by (rule pool_rep_data [OF h(5) c]) (use x in \<open>auto simp: heap_poke_def st8_def\<close>)
    moreover have "bud_rep ?s A"
      by (rule bud_rep_write [OF h(1,2)]) (use cell_in_block(2) [OF rep c x] in \<open>auto simp: heap_poke_def st8_def\<close>)
    ultimately show ?thesis by simp
  qed
  then have "heap_rep ?s A b F T"
    using h(2,4) by (intro heap_rep_transfer [OF rep]) (auto simp: heap_poke_def cells_def)
  moreover have "cell_region ?s = cell_region s" by (simp add: fun_eq_iff cell_region_def heap_poke_def)
  moreover have "blk_region ?s = blk_region s" by (rule region_cong) (simp add: heap_poke_def)
  ultimately show ?thesis unfolding heap_regions_def R by metis
qed

text \<open>The owners of regions may write what they like into them, all at once too.\<close>

lemma poke_fold: "fold (\<lambda>(x, v) s. heap_poke s x v) ws s = s\<lparr>km := fold (\<lambda>(x, v) m. m(x := v)) ws (km s)\<rparr>"
  by (induction ws arbitrary: s) (auto simp: heap_poke_def st8_def fun_upd_def)

lemma upd_fold: "distinct xs \<Longrightarrow> fold (\<lambda>(x, v) m. m(x := v)) (map (\<lambda>x. (x, f x)) xs) m = (\<lambda>x. if x \<in> set xs then f x else m x)"
  by (induction xs arbitrary: m) (auto simp: fun_eq_iff)

interpretation heap: heap_memory heap_regions heap_fits "\<lambda>s z. yalloc s (int z)" yfree heap_poke km
proof unfold_locales
  fix s s' :: "'a pool_state_scheme" and R z a n r x v
  show "heap_regions s R \<Longrightarrow> r \<in> R \<Longrightarrow> q \<in> R \<Longrightarrow> r \<noteq> q \<Longrightarrow> apart (fst r) (snd r) (fst q) (snd q)" for q
    by (rule heap_regions_apart)
  show "heap_regions s R \<Longrightarrow> heap_fits s R z \<Longrightarrow>
      \<exists>a n s'. yalloc s (int z) = Some (a, s') \<and> z \<le> n \<and> (a, n) \<notin> R \<and> heap_regions s' (insert (a, n) R)"
    using heap_alloc_law by blast
  show "heap_regions s R \<Longrightarrow> (a, n) \<in> R \<Longrightarrow> \<exists>s'. yfree s a = Some s' \<and> heap_regions s' (R - {(a, n)})"
    using heap_free_law by blast
  show "heap_regions s R \<Longrightarrow> (a, n) \<in> R \<Longrightarrow> inside a n x \<Longrightarrow> heap_regions (heap_poke s x v) R"
    by (rule heap_poke_law)
  show "km (heap_poke s x v) = (km s)(x := v)" by (simp add: heap_poke_def st8_def fun_eq_iff)
  show "heap_regions s R \<Longrightarrow> heap_fits s R z \<Longrightarrow> yalloc s (int z) = Some (a, s') \<Longrightarrow> r \<in> R
      \<Longrightarrow> inside (fst r) (snd r) x \<Longrightarrow> km s' x = km s x"
    using heap_alloc_law [of s R z] by auto
  show "heap_regions s R \<Longrightarrow> (a, n) \<in> R \<Longrightarrow> yfree s a = Some s' \<Longrightarrow> r \<in> R \<Longrightarrow> inside (fst r) (snd r) x
      \<Longrightarrow> km s' x = km s x"
    using heap_free_law [of s R a n] by auto
qed

lemma heap_regions_write:
  assumes "heap_regions s R" and w: "\<And>x. m x \<noteq> km s x \<Longrightarrow> \<exists>(a, n)\<in>R. inside a n x"
  shows "heap_regions (s\<lparr>km := m\<rparr>) R"
proof -
  have "finite {x. m x \<noteq> km s x}" by simp
  then obtain xs where xs: "set xs = {x. m x \<noteq> km s x}" "distinct xs" using finite_distinct_list by blast
  let ?ws = "map (\<lambda>x. (x, m x)) xs"
  have "heap_regions (fold (\<lambda>(x, v) s. heap_poke s x v) ?ws s) R"
    by (rule heap.pokes_rep [OF assms(1)]) (use w xs(1) in auto)
  moreover have "fold (\<lambda>(x, v) m. m(x := v)) ?ws (km s) = m"
    unfolding upd_fold [OF xs(2)] using xs(1) by (auto simp: fun_eq_iff)
  ultimately show ?thesis by (simp add: poke_fold)
qed

text \<open>Other parts of the state do not matter, and no region is at \<open>NULL\<close>.\<close>

lemma heap_regions_cong:
  fixes s s' :: "'a pool_state_scheme"
  assumes "heap_regions s R" and eq: "bm s' = bm s" "bud s' = bud s" "km s' = km s" "pools s' = pools s" "pmm s' = pmm s"
    "mmm s' = mmm s"
  shows "heap_regions s' R"
proof -
  obtain A b F T where rep: "heap_rep s A b F T" and R: "R = blk_region s ` (A - {b}) \<union> cell_region s ` used_cells F T"
    using assms(1) by (auto simp: heap_regions_def)
  note h = heap_repD [OF rep]
  have "pool_rep s' F T" by (rule pool_rep_write [OF h(5) eq(4,5)]) (simp add: eq)
  then have "heap_rep s' A b F T"
    using h(1,2,4) bud_rep_same [OF eq(1-3)] by (intro heap_rep_transfer [OF rep]) (auto simp: eq cells_def)
  moreover have "cell_region s' = cell_region s" by (simp add: fun_eq_iff cell_region_def eq)
  ultimately show ?thesis unfolding heap_regions_def R using region_cong [OF eq(1)] by metis
qed

lemma region_in_heap:
  assumes "heap_regions s R" "r \<in> R" "inside (fst r) (snd r) x"
  shows "in_heap s x"
proof -
  obtain A b F T where rep: "heap_rep s A b F T" and R: "R = blk_region s ` (A - {b}) \<union> cell_region s ` used_cells F T"
    using assms(1) by (auto simp: heap_regions_def)
  show ?thesis
    using region_bytes(1) [OF rep assms(2) [unfolded R] assms(3)] block_in_heap [OF heap_repD(1) [OF rep]] by blast
qed

text \<open>Nor does what happens outside the heap concern its regions.\<close>

lemma heap_regions_outside:
  fixes s :: "'a pool_state_scheme"
  assumes "heap_regions s R" and same: "\<And>x. in_heap s x \<Longrightarrow> m x = km s x"
  shows "heap_regions (s\<lparr>km := m\<rparr>) R"
proof -
  let ?s = "s\<lparr>km := m\<rparr>"
  obtain A b F T where rep: "heap_rep s A b F T" and R: "R = blk_region s ` (A - {b}) \<union> cell_region s ` used_cells F T"
    using assms(1) by (auto simp: heap_regions_def)
  note h = heap_repD [OF rep]
  have "bud_rep ?s A" by (rule bud_rep_outside [OF h(1)]) (use same in simp_all)
  moreover have "pool_rep ?s F T"
    by (rule pools_untouched [OF rep]) (use same block_in_heap [OF h(1,2)] in simp_all)
  ultimately have "heap_rep ?s A b F T"
    using h(2,4) by (intro heap_rep_transfer [OF rep]) (auto simp: cells_def)
  moreover have "cell_region ?s = cell_region s" by (simp add: fun_eq_iff cell_region_def)
  moreover have "blk_region ?s = blk_region s" by (rule region_cong) simp
  ultimately show ?thesis unfolding heap_regions_def R by metis
qed

lemma heap_regions_keep:
  fixes s s' :: "'a pool_state_scheme"
  assumes R: "heap_regions s R" and eq: "bm s' = bm s" "bud s' = bud s" "pools s' = pools s" "pmm s' = pmm s" "mmm s' = mmm s"
    and w: "\<And>x. in_heap s x \<Longrightarrow> km s' x \<noteq> km s x \<Longrightarrow> \<exists>(a, n)\<in>R. inside a n x"
  shows "heap_regions s' R"
proof -
  define m where "m x = (if in_heap s x then km s' x else km s x)" for x
  have R1: "heap_regions (s\<lparr>km := m\<rparr>) R"
    by (rule heap_regions_write [OF R]) (use w in \<open>auto simp: m_def split: if_splits\<close>)
  have ih: "in_heap (s\<lparr>km := m\<rparr>) = in_heap s" by (rule in_heap_same) simp_all
  have "heap_regions (s\<lparr>km := m\<rparr>\<lparr>km := km s'\<rparr>) R"
    by (rule heap_regions_outside [OF R1]) (simp add: ih, simp add: m_def)
  then show ?thesis by (rule heap_regions_cong) (simp_all add: eq)
qed

text \<open>A small request fits as long as fewer small regions are in use than there are slots in a pool.\<close>

lemma small_fits:
  assumes rep: "heap_regions s R" and z: "0 < z" "z \<le> 1024" "int z \<le> bm_heap_size (bm s)"
    and slots: "\<forall>i<7. \<forall>k<n. (i, k) \<in> cells s" and few: "finite R" "card {r \<in> R. snd r \<le> 1024} < n"
  shows "heap_fits s R z"
proof -
  obtain i where i: "slot_ord z = Some i" using slot_ord_None [of z] z(2) by (cases "slot_ord z") auto
  have i7: "i < 7" using slot_ord_Some [OF i] by simp
  have wf: "pools_wf s" using rep heap_repD(6) by (auto simp: heap_regions_def)
  have small: "snd (cell_region s (i, k)) \<le> 1024" for k
    using power_increasing [of i 6 "2 :: nat"] i7 by (simp add: cell_region_def)
  have "\<exists>k<n. cell_region s (i, k) \<notin> R"
  proof (rule ccontr)
    assume "\<not> ?thesis"
    then have "(\<lambda>k. cell_region s (i, k)) ` {..<n} \<subseteq> {r \<in> R. snd r \<le> 1024}" using small by auto
    moreover have "inj_on (\<lambda>k. cell_region s (i, k)) {..<n}"
    proof (rule inj_onI)
      fix k l assume "k \<in> {..<n}" "l \<in> {..<n}" "cell_region s (i, k) = cell_region s (i, l)"
      then show "k = l" using inj_onD [OF cell_region_inj [OF wf], of "(i, k)" "(i, l)"] slots i7 by auto
    qed
    ultimately have "n \<le> card {r \<in> R. snd r \<le> 1024}"
      using card_inj_on_le [of "\<lambda>k. cell_region s (i, k)" "{..<n}"] few(1) by simp
    then show False using few(2) by simp
  qed
  then obtain k where k: "k < n" "cell_region s (i, k) \<notin> R" by blast
  have "(i, k) \<in> cells s" using slots i7 k(1) by blast
  then show ?thesis unfolding heap_fits_def using z i k(2) by blast
qed

text \<open>Nothing but the pools is in use: a large request fits when it leaves room for the largest block.\<close>

lemma first_fits:
  assumes n: "nord s \<le> 12" and z: "2048 < z" "int z \<le> bm_heap_size (bm s)" and o: "ord_for s z = Some i"
    and room: "2 ^ (12 - i) < nblk s i"
  shows "heap_fits s {} z"
proof -
  have "free_block s A i \<noteq> None"
    if rep: "heap_rep s A b F T" and e: "{} = blk_region s ` (A - {b}) \<union> cell_region s ` used_cells F T" for A b F T
  proof
    assume "free_block s A i = None"
    then have all: "\<exists>a\<in>A. overlap a (i, k)" if "k < nblk s i" for k
      using that by (simp add: free_block_def first_free_None)
    note h = heap_repD [OF rep]
    have A: "A = {b}" using e h(2) by auto
    have b: "fst b < nord s" using h(1,2) by (auto simp: bud_rep_def)
    have i: "i < 12" using ord_for_Some [OF o] n by simp
    have "overlap b (i, 0)" "overlap b (i, 2 ^ (12 - i))" using all room A by auto
    then have "2 ^ (12 - i) * 2 ^ i < (2 :: nat) ^ fst b + 2 ^ i" by (auto simp: overlap_def)
    moreover have "2 ^ (12 - i) * 2 ^ i = (2 :: nat) ^ 12" using i by (simp add: power_add [symmetric])
    moreover have "(2 :: nat) ^ fst b \<le> 2 ^ 11" "(2 :: nat) ^ i \<le> 2 ^ 11" using b n i by (intro power_increasing; simp)+
    ultimately show False by simp
  qed
  then show ?thesis unfolding heap_fits_def using z o by auto
qed

text \<open>
  Of order \<open>i\<close>, with blocks of \<open>c\<close> bytes, there are more than \<open>q\<close>, every pool has at least \<open>q\<close> slots, and nothing larger
  is in use, the block of the pools included: \<open>q\<close> requests of up to \<open>c\<close> bytes fit, unless they are of more than a
  kilobyte and at most a page.
\<close>

definition heap_upto :: "nat \<Rightarrow> nat \<Rightarrow> nat \<Rightarrow> 'a pool_state_scheme \<Rightarrow> region set \<Rightarrow> bool" where
  "heap_upto i c q s R \<longleftrightarrow> heap_regions s R \<and> i < nord s \<and> chunk_of s i = c \<and> q < nblk s i \<and> (\<forall>j<7. \<forall>k<q. (j, k) \<in> cells s)
     \<and> mm_size (sec (mmm s)) \<le> int c \<and> (\<forall>r\<in>R. snd r \<le> c)"

lemma heap_finite: "heap_regions s R \<Longrightarrow> finite R"
proof -
  assume "heap_regions s R"
  then obtain A b F T where rep: "heap_rep s A b F T" and R: "R = blk_region s ` (A - {b}) \<union> cell_region s ` used_cells F T"
    by (auto simp: heap_regions_def)
  note h = heap_repD [OF rep]
  have "finite (cells s)"
    by (rule finite_subset [of _ "Sigma {..<7} (\<lambda>i. {..<nslots (pools s ! i)})"]) (auto simp: cells_def)
  then show ?thesis using R bud_finite [OF h(1)] finite_subset [OF h(7)] by simp
qed

lemma heap_upto_block:
  assumes u: "heap_upto i c q s R" and few: "card R < q" and j: "j \<le> i"
    and rep: "heap_rep s A b F T" and R: "R = blk_region s ` (A - {b}) \<union> cell_region s ` used_cells F T"
  shows "free_block s A j \<noteq> None"
proof (rule free_below [OF _ _ _ j])
  have b: "heap_regions s R" "i < nord s" "chunk_of s i = c" "q < nblk s i" "mm_size (sec (mmm s)) \<le> int c" "\<forall>r\<in>R. snd r \<le> c"
    using u by (simp_all add: heap_upto_def)
  note h = heap_repD [OF rep]
  have ll: "0 < ll_of s" by (simp add: h(3))
  show fin: "finite A" by (rule bud_finite [OF h(1)])
  have "chunk_of s (fst b) \<le> c" using b(5) h(10) by simp
  moreover have "chunk_of s (fst a) \<le> c" if "a \<in> A - {b}" for a
  proof -
    have "blk_region s a \<in> R" using that R by blast
    then show ?thesis using b(6) by (auto simp: blk_region_def)
  qed
  ultimately have "chunk_of s (fst a) \<le> c" if "a \<in> A" for a using that by blast
  then show "\<forall>a\<in>A. fst a \<le> i" using chunk_order [OF ll] unfolding b(3) [symmetric] by blast
  have "inj_on (blk_region s) (A - {b})" using blk_region_inj [OF h(1)] by (rule inj_on_subset) blast
  then have "card (A - {b}) = card (blk_region s ` (A - {b}))" by (simp add: card_image)
  also have "\<dots> \<le> card R" using R heap_finite [OF b(1)] by (intro card_mono) auto
  finally have "card A \<le> Suc (card R)" using card_Diff_singleton [OF h(2)] by simp
  then show "card A < nblk s i" using few b(4) by simp
qed

lemma heap_upto_fits:
  assumes u: "heap_upto i c q s R" and z: "0 < z" "z \<le> 1024 \<or> 2048 < z" "z \<le> c" and few: "card R < q"
  shows "heap_fits s R z"
proof -
  have b: "heap_regions s R" "i < nord s" "chunk_of s i = c" "q < nblk s i" "\<forall>j<7. \<forall>k<q. (j, k) \<in> cells s"
    using u by (simp_all add: heap_upto_def)
  obtain A0 b0 F0 T0 where rep0: "heap_rep s A0 b0 F0 T0" using b(1) by (auto simp: heap_regions_def)
  have wf: "bitmaps_wf s" "heap_wf s" using heap_repD(1) [OF rep0] by (simp_all add: bud_rep_def)
  have "0 < nblk s i" using b(4) by simp
  then have "chunk_of s i \<le> nat (bm_heap_size (bm s))" using blk_numbers(2) [OF wf b(2), of 0] by simp
  then have hs: "int z \<le> bm_heap_size (bm s)" using z b(3) by linarith
  show ?thesis
  proof (cases "z \<le> 1024")
    case True
    have "card {r \<in> R. snd r \<le> 1024} \<le> card R" by (rule card_mono [OF heap_finite [OF b(1)]]) blast
    then show ?thesis using few by (intro small_fits [OF b(1) z(1) True hs b(5) heap_finite [OF b(1)]]) simp
  next
    case False
    obtain j where j: "ord_for s z = Some j" "j \<le> i" using ord_for_upto [of i s z] b(2,3) z(3) by blast
    have "\<forall>A b F T. heap_rep s A b F T \<and> R = blk_region s ` (A - {b}) \<union> cell_region s ` used_cells F T \<longrightarrow> free_block s A j \<noteq> None"
      using heap_upto_block [OF u few j(2)] by blast
    then show ?thesis unfolding heap_fits_def using z hs j(1) False by blast
  qed
qed

lemma heap_upto_same:
  assumes u: "heap_upto i c q s R" and R': "heap_regions s' R'" "\<forall>r\<in>R'. snd r \<le> c" and only: "heap_only s s'"
  shows "heap_upto i c q s' R'"
proof -
  obtain m bs ps where s': "s' = s\<lparr>km := m, bud := bs, pools := ps\<rparr>" "map bs_bmp bs = map bs_bmp (bud s)"
    using only unfolding heap_only_def by blast
  have "length bs = length (bud s)" using s'(2) by (metis length_map)
  then have "nord s' = nord s" by (simp add: nord_def s'(1))
  then show ?thesis using u R' by (simp add: heap_upto_def heap_only_simps [OF only] chunk_of_def nblk_def units_total_def)
qed

interpretation heaps: heap_quota "heap_upto i c q" "\<lambda>s z. yalloc s (int z)" yfree heap_poke km
    "\<lambda>z. 0 < z \<and> (z \<le> 1024 \<or> 2048 < z) \<and> z \<le> c" q for i c q
proof unfold_locales
  fix s s' :: "'a pool_state_scheme" and R r p a n x v z
  note def = heap_upto_def [of i c q]
  show "heap_upto i c q s R \<Longrightarrow> r \<in> R \<Longrightarrow> p \<in> R \<Longrightarrow> r \<noteq> p \<Longrightarrow> apart (fst r) (snd r) (fst p) (snd p)"
    using heap_regions_apart [of s R] by (simp add: def)
  have alloc: "\<exists>a n s'. yalloc s (int z) = Some (a, s') \<and> z \<le> n \<and> (a, n) \<notin> R \<and> heap_upto i c q s' (insert (a, n) R)
      \<and> (\<forall>r\<in>R. \<forall>x. inside (fst r) (snd r) x \<longrightarrow> km s' x = km s x)"
    if u: "heap_upto i c q s R" and z: "(0 < z \<and> (z \<le> 1024 \<or> 2048 < z) \<and> z \<le> c) \<and> card R < q"
  proof -
    have fits: "heap_fits s R z" using heap_upto_fits [OF u, of z] z by blast
    have R: "heap_regions s R" "i < nord s" "chunk_of s i = c" "\<forall>r\<in>R. snd r \<le> c" using u by (simp_all add: def)
    obtain a n s' where s': "yalloc s (int z) = Some (a, s')" "z \<le> n" "(a, n) \<notin> R" "heap_regions s' (insert (a, n) R)"
      "\<forall>r\<in>R. \<forall>x. inside (fst r) (snd r) x \<longrightarrow> km s' x = km s x" "heap_only s s'"
      and n: "n \<le> 1024 \<or> (\<exists>j. ord_for s z = Some j \<and> n = chunk_of s j)"
      using heap_alloc_law [OF R(1) fits] by blast
    obtain A b F T where rep: "heap_rep s A b F T" using R(1) by (auto simp: heap_regions_def)
    have "1024 \<le> c" unfolding R(3) [symmetric] chunk_of_def heap_repD(3) [OF rep] by simp
    moreover obtain j where j: "ord_for s z = Some j" "j \<le> i" using ord_for_upto [of i s z] R(2,3) z by blast
    ultimately have "n \<le> c" using n chunk_mono [OF j(2), of s] R(3) by auto
    then have "heap_upto i c q s' (insert (a, n) R)" using heap_upto_same [OF u s'(4) _ s'(6)] R(4) by simp
    then show ?thesis using s' by blast
  qed
  show "heap_upto i c q s R \<Longrightarrow> (0 < z \<and> (z \<le> 1024 \<or> 2048 < z) \<and> z \<le> c) \<and> card R < q \<Longrightarrow>
      \<exists>a n s'. yalloc s (int z) = Some (a, s') \<and> z \<le> n \<and> (a, n) \<notin> R \<and> heap_upto i c q s' (insert (a, n) R)"
    using alloc by blast
  show "heap_upto i c q s R \<Longrightarrow> (0 < z \<and> (z \<le> 1024 \<or> 2048 < z) \<and> z \<le> c) \<and> card R < q \<Longrightarrow> yalloc s (int z) = Some (a, s') \<Longrightarrow> r \<in> R
      \<Longrightarrow> inside (fst r) (snd r) x \<Longrightarrow> km s' x = km s x"
    using alloc by auto
  have free: "\<exists>s'. yfree s a = Some s' \<and> heap_upto i c q s' (R - {(a, n)})
      \<and> (\<forall>r\<in>R. \<forall>x. inside (fst r) (snd r) x \<longrightarrow> km s' x = km s x)" if u: "heap_upto i c q s R" and an: "(a, n) \<in> R"
  proof -
    have R: "heap_regions s R" "\<forall>r\<in>R. snd r \<le> c" using u by (simp_all add: def)
    obtain s' where s': "yfree s a = Some s'" "heap_regions s' (R - {(a, n)})"
      "\<forall>r\<in>R. \<forall>x. inside (fst r) (snd r) x \<longrightarrow> km s' x = km s x" "heap_only s s'"
      using heap_free_law [OF R(1) an] by blast
    then show ?thesis using heap_upto_same [OF u s'(2) _ s'(4)] R(2) by blast
  qed
  show "heap_upto i c q s R \<Longrightarrow> (a, n) \<in> R \<Longrightarrow> \<exists>s'. yfree s a = Some s' \<and> heap_upto i c q s' (R - {(a, n)})"
    using free by blast
  show "heap_upto i c q s R \<Longrightarrow> (a, n) \<in> R \<Longrightarrow> yfree s a = Some s' \<Longrightarrow> r \<in> R \<Longrightarrow> inside (fst r) (snd r) x \<Longrightarrow> km s' x = km s x"
    using free by auto
  show "heap_upto i c q (heap_poke s x v) R" if u: "heap_upto i c q s R" and an: "(a, n) \<in> R" "inside a n x"
  proof -
    have "heap_regions (heap_poke s x v) R" by (rule heap_poke_law [OF _ an]) (use u in \<open>simp add: def\<close>)
    moreover have "nord (heap_poke s x v) = nord s" "chunk_of (heap_poke s x v) = chunk_of s" "nblk (heap_poke s x v) = nblk s"
      "cells (heap_poke s x v) = cells s" "mmm (heap_poke s x v) = mmm s"
      by (simp_all add: heap_poke_def nord_def chunk_of_def nblk_def units_total_def cells_def fun_eq_iff)
    ultimately show ?thesis using u by (simp add: def)
  qed
  show "km (heap_poke s x v) = (km s)(x := v)" by (simp add: heap_poke_def st8_def fun_eq_iff)
  show "heap_upto i c q s R \<Longrightarrow> finite R" using heap_finite by (auto simp: def)
  show "snd r \<le> 2 ^ 32" if u: "heap_upto i c q s R" and r: "r \<in> R"
  proof -
    have R: "heap_regions s R" "i < nord s" "chunk_of s i = c" "snd r \<le> c" using u r by (simp_all add: def)
    obtain A b F T where rep: "heap_rep s A b F T" using R(1) by (auto simp: heap_regions_def)
    have hw: "heap_wf s" using heap_repD(1) [OF rep] by (simp add: bud_rep_def)
    show ?thesis using chunk_bound(1) [OF hw R(2)] R(3,4) by simp
  qed
qed

lemma region_nonnull:
  assumes "heap_regions s R" "r \<in> R" "0 < snd r"
  shows "fst r \<noteq> NULL"
proof
  assume z: "fst r = NULL"
  obtain A b F T where rep: "heap_rep s A b F T" and R: "R = blk_region s ` (A - {b}) \<union> cell_region s ` used_cells F T"
    using assms(1) by (auto simp: heap_regions_def)
  have "inside (fst r) (snd r) (fst r)" using assms(3) by (simp add: inside_def)
  from region_bytes(1) [OF rep assms(2) [unfolded R] this] obtain i n where
    in_blk: "(i, n) \<in> A" "inside (blk_addr s (i, n)) (chunk_of s i) NULL" using z by auto
  note bb = blk_bounds [OF heap_repD(1) [OF rep] in_blk(1)]
  have "0 < unat (bm_heap_base (bm s))" "unat (bm_heap_base (bm s)) + nat (bm_heap_size (bm s)) < 4294967296"
    using heap_repD(1) [OF rep] by (simp_all add: bud_rep_def heap_wf_def)
  then show False using in_blk(2) [unfolded inside_def unat_sub_if'] bb(1,3) by (simp add: word_le_nat_alt)
qed

end
