(* ===== verification/Buddy_Props.thy ===== *)
theory Buddy_Props
  imports Buddy_Alloc
begin

text \<open>
  What the buddy allocator promises its callers, from initialisation to exhaustion, with a concrete
  heap of one megabyte at 32 MB + 64 KB (\<open>MM_HEAP_META_BASE\<close>) for the witnesses.
\<close>

subsection \<open>A concrete heap\<close>

definition reset_state :: bud_state where
  "reset_state = \<lparr>km = \<lambda>_. 0,
     mmm = \<lparr>org_size = 0, heap_size = 0, used_size = 0, free_size = 0, rmd_size = 0,
       pri = \<lparr>mm_base = 0, mm_size = 0, mm_llc = 0, mm_ulc = 0\<rparr>,
       sec = \<lparr>mm_base = 0, mm_size = 0, mm_llc = 0, mm_ulc = 0\<rparr>, ml = 0, ml_list = 0, mem_num = 0\<rparr>,
     bm = \<lparr>bm_dep = 0, bm_bitmap_size = 0, bm_ll = 0, bm_ul = 0, bm_hdr_base = 0, bm_hdr_size = 0,
       bm_org_size = 0, bm_heap_meta_base = 0, bm_heap_meta_size = 0, bm_heap_base = 0, bm_heap_size = 0,
       bm_rmd_size = 0\<rparr>,
     bud = [], lazy = \<lparr>lz_frees = 0x1000, lz_inuses = 0x1008, lz_batch = 0, lz_wmk = 0, lz_unum = 0, lz_fnum = 0\<rparr>\<rparr>"

lemma reset_heads:
  assumes "unat base + H < 4294967296" "0x1010 \<le> unat base"
  shows "apart (lz_frees (lazy reset_state)) 8 base H" "apart (lz_inuses (lazy reset_state)) 8 base H"
  unfolding reset_state_def by (rule apart_no_wrap; use assms in simp)+

lemma init_state_rep:
  assumes base: "base \<noteq> NULL" "unat base + H < 4294967296" and H: "131072 \<le> H" "H < 2147483648"
    and st: "init_state (unat base) D n s'" and sum: "24 * n + bmp_off D 2048 n + D div 2048 + D + rmd = H"
    and n: "0 < n" "n \<le> 11" and q: "\<forall>d<n. 8 * (2048 * 2 ^ d) \<le> D"
    and odd: "\<forall>i<nord s'. nblk s' i mod 32 \<noteq> 0"
  shows "bud_rep s' {}"
proof (rule init_rep [OF st n])
  show "0 < unat base" using base(1) by (simp add: unat_gt_0)
  show "unat base + 24 * n + bmp_off D 2048 n + D div 2048 + D < 4294967296" "D < 2147483648"
    using sum base(2) H(2) by linarith+
  show "8 * (2048 * 2 ^ d) \<le> D" if "d < n" for d using q that by blast
  have "nblk s' i = qn D 2048 i" for i
    using st by (simp add: nblk_def units_total_def init_state_def qn_def div_mult2_eq)
  then show "qn D 2048 i mod 32 \<noteq> 0" if "i < n" for i
    using odd that st by (simp add: init_state_def)
qed

text \<open>One megabyte: 511 units of 2048 bytes, orders 0 to 5.\<close>

lemma data_size_mega: "data_size (1024 * 1024) 7 = 1047764"
proof -
  have "{..<7} = {0, 1, 2, 3, 4, 5, 6 :: nat}" by auto
  then show ?thesis by (simp add: data_size_def bmp_off_def qn_def bmp_words_def)
qed

lemma depth_is:
  fixes X :: nat
  assumes "\<forall>d<k. 8 * (2048 * 2 ^ d) \<le> X" "k < 11 \<longrightarrow> X < 8 * (2048 * 2 ^ k)" "k \<le> 11"
    "8 * (2048 * 2 ^ c) \<le> X" "X < 8 * (2048 * 2 ^ Suc c)" "c < 10"
  shows "k = Suc (c :: nat)"
proof (rule antisym)
  show "k \<le> Suc c"
  proof (rule ccontr)
    assume "\<not> k \<le> Suc c"
    then have "8 * (2048 * 2 ^ Suc c) \<le> X" using assms(1) [rule_format, of "Suc c"] by linarith
    then show False using assms(5) by simp
  qed
  show "Suc c \<le> k"
  proof (rule ccontr)
    assume "\<not> Suc c \<le> k"
    then have k: "k \<le> c" "k < 11" using assms(6) by auto
    have "8 * (2048 * 2 ^ k) \<le> 8 * (2048 * 2 ^ c :: nat)" using k by simp
    then show False using assms(2,4) k by linarith
  qed
qed

text \<open>Initialisation at given numbers: the depth and the size follow from the bounds on them.\<close>

lemma init_concrete:
  fixes s :: "'a bud_state_scheme"
  assumes base: "base \<noteq> NULL" "unat base + H < 4294967296" and H: "131072 \<le> H" "H < 2147483648"
    and heads: "apart (lz_frees (lazy s)) 8 base H" "apart (lz_inuses (lazy s)) 8 base H"
    and c: "8 * (2048 * 2 ^ c) \<le> H" "H < 8 * (2048 * 2 ^ Suc c)" "c < 10" and D: "data_size H (Suc c) = D"
    and e: "8 * (2048 * 2 ^ e) \<le> D" "D < 8 * (2048 * 2 ^ Suc e)" "e < 10"
    and odd: "\<forall>i<Suc e. D div 2048 div 2 ^ i mod 32 \<noteq> 0"
  shows "\<exists>r s'. bud_init_raw s base (int H) 2048 = Some (r, s') \<and> bud_rep s' {} \<and> nord s' = Suc e
     \<and> bm_heap_size (bm s') = int D \<and> bm_ll (bm s') = 2048 \<and> unat base < unat (bm_heap_base (bm s'))"
proof -
  from bud_init_state [OF base H heads] obtain s' rmd D' n where
    init: "bud_init_raw s base (int H) 2048 = Some (int rmd, s')" and st: "init_state (unat base) D' n s'"
    and sum: "24 * n + bmp_off D' 2048 n + D' div 2048 + D' + rmd = H"
    and n: "0 < n" "n \<le> 11" "\<forall>d<n. 8 * (2048 * 2 ^ d) \<le> D'" "n < 11 \<longrightarrow> D' < 8 * (2048 * 2 ^ n)"
    and j: "\<exists>j\<le>11. D' = data_size H j \<and> (\<forall>d<j. 8 * (2048 * 2 ^ d) \<le> H) \<and> (j < 11 \<longrightarrow> H < 8 * (2048 * 2 ^ j))"
    by blast
  have D': "D' = D" using j depth_is [OF _ _ _ c] D by blast
  have n': "n = Suc e" using depth_is [of n D e] n e unfolding D' by blast
  have S: "nord s' = Suc e" "bm_heap_size (bm s') = int D" "bm_ll (bm s') = 2048"
    using st by (simp_all add: init_state_def D' n')
  have "nblk s' i = D div 2048 div 2 ^ i" for i by (simp add: nblk_def units_total_def S)
  then have rep: "bud_rep s' {}" using init_state_rep [OF base H st sum n(1,2,3)] odd S(1) by simp
  have "bm_heap_base (bm s') = of_nat (unat base + 24 * n + bmp_off D' 2048 n + D' div 2048)"
    using st unfolding init_state_def by blast
  then have "unat (bm_heap_base (bm s')) = unat base + 24 * n + bmp_off D' 2048 n + D' div 2048"
    using sum base(2) by (simp only:) (rule unat_of_nat_lt, linarith)
  then have "unat base < unat (bm_heap_base (bm s'))" using n' by simp
  then show ?thesis using init S rep by blast
qed

lemma mega_heap_at:
  assumes "0x1010 \<le> unat base" "unat base + 1048576 < 4294967296"
  shows "\<exists>r s. bud_init_raw reset_state base 1048576 2048 = Some (r, s) \<and> bud_rep s {} \<and> nord s = 6
     \<and> bm_heap_size (bm s) = 1047764 \<and> bm_ll (bm s) = 2048 \<and> unat base < unat (bm_heap_base (bm s))"
proof -
  have base: "base \<noteq> NULL" using assms(1) by auto
  have "1047764 div 2048 div 2 ^ i mod 32 \<noteq> (0 :: nat)" if "i < Suc 5" for i
  proof -
    have "i = 0 \<or> i = 1 \<or> i = 2 \<or> i = 3 \<or> i = 4 \<or> i = 5" using that by auto
    then show ?thesis by auto
  qed
  then show ?thesis
    using init_concrete [OF base assms(2) _ _ reset_heads [OF assms(2,1)], of 6 1047764 5] data_size_mega by simp
qed

lemma mega_heap:
  "\<exists>s :: bud_state. bud_rep s {} \<and> nord s = 6 \<and> bm_heap_size (bm s) = 1047764 \<and> bm_ll (bm s) = 2048
     \<and> 33619968 < unat (bm_heap_base (bm s))"
proof -
  have "0x1010 \<le> unat (0x2010000 :: u32)" "unat (0x2010000 :: u32) + 1048576 < 4294967296" by simp_all
  from mega_heap_at [OF this] show ?thesis by auto
qed

lemma mega_free:
  assumes "nord s = 6" "bm_heap_size (bm s) = 1047764" "bm_ll (bm s) = 2048"
  shows "ord_for s 5000 = Some 2" "free_block s {} 2 = Some 0" "chunk_of s 2 = 8192"
proof -
  have up: "[0..<6] = [0, 1, 2, 3, 4, 5 :: nat]" by (simp add: upt_rec)
  show "ord_for s 5000 = Some 2" by (simp add: ord_for_def chunk_of_def up assms)
  show "free_block s {} 2 = Some 0"
    by (simp add: free_block_def first_free_Some nblk_def units_total_def assms)
  show "chunk_of s 2 = 8192" by (simp add: chunk_of_def assms)
qed

subsection \<open>Initialisation\<close>

text \<open>C13: \<open>_bud_init\<close> on any heap of at least 128 KB that does not wrap around returns the bytes
  left over; heap and meta data fill what it was given, and the allocator is the empty set of
  blocks unless some order has a multiple of 32 blocks.\<close>

theorem bud_init_ok:
  fixes s :: "'a bud_state_scheme"
  assumes base: "base \<noteq> NULL" "unat base + H < 4294967296" and H: "131072 \<le> H" "H < 2147483648"
    and heads: "apart (lz_frees (lazy s)) 8 base H" "apart (lz_inuses (lazy s)) 8 base H"
  shows "\<exists>rmd s'. bud_init_raw s base (int H) 2048 = Some (rmd, s') \<and> 0 \<le> rmd
    \<and> unat base < unat (bm_heap_base (bm s'))
    \<and> int (unat (bm_heap_base (bm s'))) + bm_heap_size (bm s') + rmd = int (unat base) + int H
    \<and> 130560 \<le> bm_heap_size (bm s')
    \<and> (bud_rep s' {} \<or> (\<exists>i<nord s'. nblk s' i mod 32 = 0))"
proof -
  from bud_init_state [OF base H heads] obtain s' rmd D n where
    init: "bud_init_raw s base (int H) 2048 = Some (int rmd, s')" and st: "init_state (unat base) D n s'"
    and sum: "24 * n + bmp_off D 2048 n + D div 2048 + D + rmd = H" and D: "130560 \<le> D"
    and n: "0 < n" "n \<le> 11" "\<forall>d<n. 8 * (2048 * 2 ^ d) \<le> D"
    by blast
  have "bm_heap_base (bm s') = of_nat (unat base + 24 * n + bmp_off D 2048 n + D div 2048)"
    using st unfolding init_state_def by blast
  then have hb: "unat (bm_heap_base (bm s')) = unat base + 24 * n + bmp_off D 2048 n + D div 2048"
    using sum base(2) by (simp only:) (rule unat_of_nat_lt, linarith)
  have hs: "bm_heap_size (bm s') = int D" using st by (simp add: init_state_def)
  have eqs: "int (unat (bm_heap_base (bm s'))) + bm_heap_size (bm s') + int rmd = int (unat base) + int H"
    "unat base < unat (bm_heap_base (bm s'))" "130560 \<le> bm_heap_size (bm s')"
    unfolding hb hs using sum n(1) D by linarith+
  have emp: "bud_rep s' {} \<or> (\<exists>i<nord s'. nblk s' i mod 32 = 0)"
  proof (cases "\<forall>i<nord s'. nblk s' i mod 32 \<noteq> 0")
    case True
    show ?thesis by (rule disjI1 [OF init_state_rep [OF base H st sum n True]])
  next
    case False
    then have "\<exists>i<nord s'. nblk s' i mod 32 = 0" by (simp only: not_all not_imp not_not) 
    then show ?thesis by (rule disjI2)
  qed
  show ?thesis
    by (rule exI [of _ "int rmd"], rule exI [of _ s']) (intro conjI init of_nat_0_le_iff eqs emp)
qed

lemma bud_init_ok_witness:
  "\<exists>rmd s'. bud_init_raw reset_state 0x2010000 (int 1048576) 2048 = Some (rmd, s') \<and> 0 \<le> rmd
    \<and> int (unat (bm_heap_base (bm s'))) + bm_heap_size (bm s') + rmd = 33619968 + 1048576"
  using bud_init_ok [of "0x2010000" 1048576 reset_state, OF _ _ _ _ reset_heads] by auto

subsection \<open>Allocating and freeing\<close>

text \<open>C6: with the blocks \<open>A\<close> in use, \<open>_bud_alloc\<close> returns the first block of the smallest order
  that fits and is free of overlap with \<open>A\<close>; the result is in the heap, large enough, apart from
  every block in use, and only the bitmaps and the block's header change.\<close>

theorem bud_alloc_refines:
  assumes rep: "bud_rep s A" and sz: "0 < z" "int z \<le> bm_heap_size (bm s)"
    and ord: "ord_for s z = Some i" and free: "free_block s A i = Some n"
  shows "\<exists>s'. bud_alloc_raw s (int z) = Some (blk_addr s (i, n), s') \<and> bud_rep s' (insert (i, n) A)
    \<and> z \<le> chunk_of s i \<and> (\<forall>j<i. chunk_of s j < z)
    \<and> unat (bm_heap_base (bm s)) \<le> unat (blk_addr s (i, n))
    \<and> unat (blk_addr s (i, n)) + chunk_of s i \<le> unat (bm_heap_base (bm s)) + nat (bm_heap_size (bm s))
    \<and> (\<forall>a\<in>A. apart (blk_addr s (i, n)) (chunk_of s i) (blk_addr s a) (chunk_of s (fst a)))
    \<and> (\<forall>x. \<not> in_bitmaps s x \<and> x \<noteq> blk_hdr s (i, n) \<longrightarrow> km s' x = km s x)"
proof -
  obtain s' where s': "bud_alloc_raw s (int z) = Some (blk_addr s (i, n), s')" "bud_rep s' (insert (i, n) A)"
    "bm s' = bm s" "\<forall>x. \<not> in_bitmaps s x \<and> x \<noteq> blk_hdr s (i, n) \<longrightarrow> km s' x = km s x"
    using bud_alloc_block [OF rep sz ord free] by blast
  have eq: "blk_addr s' = blk_addr s" "chunk_of s' = chunk_of s"
    by (simp_all add: fun_eq_iff blk_addr_def chunk_of_def s'(3))
  have "(i, n) \<notin> A" using free by (auto simp: free_block_def first_free_Some)
  then have "apart (blk_addr s (i, n)) (chunk_of s i) (blk_addr s a) (chunk_of s (fst a))" if "a \<in> A" for a
    using blk_region_apart [OF s'(2), of "(i, n)" a] that by (auto simp: blk_region_def eq)
  moreover have "unat (bm_heap_base (bm s)) \<le> unat (blk_addr s (i, n))"
    "unat (blk_addr s (i, n)) + chunk_of s i \<le> unat (bm_heap_base (bm s)) + nat (bm_heap_size (bm s))"
    using blk_bounds(1,3) [OF s'(2), of i n] by (simp_all add: eq s'(3))
  ultimately show ?thesis using s' ord_for_Some [OF ord] by blast
qed

lemma bud_alloc_refines_witness:
  "\<exists>(s :: bud_state) s'. bud_rep s {} \<and> bud_alloc_raw s 5000 = Some (bm_heap_base (bm s), s') \<and> bud_rep s' {(2, 0)}"
proof -
  obtain s :: bud_state where s: "bud_rep s {}" "nord s = 6" "bm_heap_size (bm s) = 1047764" "bm_ll (bm s) = 2048"
    using mega_heap by blast
  from bud_alloc_refines [OF s(1) _ _ mega_free(1,2) [OF s(2,3,4)]] s(3)
  obtain s' where "bud_alloc_raw s (int 5000) = Some (blk_addr s (2, 0), s')" "bud_rep s' {(2, 0)}" by auto
  then show ?thesis using s(1) by (auto simp: blk_addr_def)
qed

text \<open>C7: \<open>_bud_free\<close> on the address of a block in use removes just that block: every order's bits
  are again those of the remaining set, whatever merges it took, and memory outside the bitmaps is
  untouched.\<close>

theorem bud_free_refines:
  assumes "bud_rep s A" and "b \<in> A"
  shows "\<exists>s'. bud_free_raw s (blk_addr s b) = Some s' \<and> bud_rep s' (A - {b}) \<and> bm s' = bm s \<and> lazy s' = lazy s
    \<and> (\<forall>x. \<not> in_bitmaps s x \<longrightarrow> km s' x = km s x)"
  using bud_free_block [OF assms(1), of "fst b" "snd b"] assms(2) by (auto simp: shape_def)

lemma bud_free_refines_witness:
  "\<exists>(s :: bud_state) s' s''. bud_rep s {} \<and> bud_alloc_raw s 5000 = Some (bm_heap_base (bm s), s')
     \<and> bud_free_raw s' (bm_heap_base (bm s)) = Some s'' \<and> bud_rep s'' {}"
proof -
  obtain s :: bud_state where s: "bud_rep s {}" "nord s = 6" "bm_heap_size (bm s) = 1047764" "bm_ll (bm s) = 2048"
    using mega_heap by blast
  from bud_alloc_block [OF s(1) _ _ mega_free(1,2) [OF s(2,3,4)]] s(3)
  obtain s' where s': "bud_alloc_raw s (int 5000) = Some (blk_addr s (2, 0), s')" "bud_rep s' {(2, 0)}" "bm s' = bm s"
    by auto
  from bud_free_refines [OF s'(2), of "(2, 0)"] obtain s'' where
    "bud_free_raw s' (blk_addr s' (2, 0)) = Some s''" "bud_rep s'' {}" by auto
  then show ?thesis using s(1) s'(1,3) by (auto simp: blk_addr_def)
qed

text \<open>C15: any session of calls in order - \<open>_bud_alloc\<close> of sizes up to a block of order \<open>i\<close>, at most \<open>q\<close> pieces in
  use at a time, \<open>_bud_free\<close> of pieces in use, writes into them - is served to its end, provided the heap has \<open>q\<close> blocks
  of order \<open>i\<close> more than there are regions in use before, none of them larger: the pieces in use after it are regions of
  at least the size asked for, apart from each other and from those in use before, they hold what was last written to
  them, and what was in use before holds what it held.\<close>

theorem buddy_sessions:
  assumes R: "bud_regions s R" "\<forall>r\<in>R. snd r \<le> chunk_of s i" and i: "i < nord s" and q: "card R + q \<le> nblk s i"
    and cs: "in_order (\<lambda>z. 0 < z \<and> z \<le> chunk_of s i) q [] cs"
  shows "\<exists>as s' ns. serve (\<lambda>s z. bud_alloc_raw s (int z)) bud_free_raw bud_poke cs [] s = Some (as, s') \<and> length as = length (after [] cs)
    \<and> bud_regions s' (R \<union> (\<lambda>k. (as ! k, ns k)) ` in_use (after [] cs))
    \<and> (\<forall>k\<in>in_use (after [] cs). the (after [] cs ! k) \<le> ns k
        \<and> (\<forall>r\<in>R. apart (as ! k) (ns k) (fst r) (snd r))
        \<and> (\<forall>l\<in>in_use (after [] cs). l \<noteq> k \<longrightarrow> apart (as ! k) (ns k) (as ! l) (ns l))
        \<and> (\<forall>d v. stored cs (\<lambda>_. None) (k, d) = Some v \<longrightarrow> km s' (as ! k + of_nat d) = v))
    \<and> (\<forall>r\<in>R. \<forall>x. inside (fst r) (snd r) x \<longrightarrow> km s' x = km s x)"
proof -
  have "bud_upto i (chunk_of s i) (nblk s i) s R" using R i by (simp add: bud_upto_def)
  then show ?thesis by (rule buddies.session [OF _ cs q]) (simp add: bud_upto_def)
qed

lemma buddy_sessions_witness:
  "\<exists>(s :: bud_state) as s'. bud_regions s {}
     \<and> serve (\<lambda>s z. bud_alloc_raw s (int z)) bud_free_raw bud_poke
         [Ask 5000, Ask 60000, Store 0 4999 7, Store 1 0 8, Return 1, Ask 100, Store 2 99 9] [] s = Some (as, s')
     \<and> apart (as ! 0) 5000 (as ! 2) 100 \<and> km s' (as ! 0 + 4999) = 7 \<and> km s' (as ! 2 + 99) = 9"
proof -
  let ?cs = "[Ask 5000, Ask 60000, Store 0 4999 7, Store 1 0 8, Return 1, Ask 100, Store 2 99 9]"
  obtain s :: bud_state where s: "bud_rep s {}" "nord s = 6" "bm_heap_size (bm s) = 1047764" "bm_ll (bm s) = 2048"
    using mega_heap by blast
  have R: "bud_regions s {}" using s(1) by (auto simp: bud_regions_def)
  have c: "chunk_of s 5 = 65536" "nblk s 5 = 15" by (simp_all add: chunk_of_def nblk_def units_total_def s)
  have cs: "in_order (\<lambda>z. 0 < z \<and> z \<le> chunk_of s 5) 2 [] ?cs" by (simp add: c)
  have q: "card {} + 2 \<le> nblk s 5" by (simp add: c)
  have i5: "5 < nord s" using s(2) by simp
  have after: "after [] ?cs = [Some 5000, None, Some 100]" by simp
  have u: "0 \<in> in_use [Some 5000, None, Some 100]" "2 \<in> in_use [Some 5000, None, Some (100 :: nat)]" by (simp_all add: in_use_def)
  have st: "stored ?cs (\<lambda>_. None) (0, 4999) = Some 7" "stored ?cs (\<lambda>_. None) (2, 99) = Some 9" by simp_all
  from buddy_sessions [OF R _ i5 q cs] obtain as s' ns where S:
    "serve (\<lambda>s z. bud_alloc_raw s (int z)) bud_free_raw bud_poke ?cs [] s = Some (as, s')"
    "\<forall>k\<in>in_use [Some 5000, None, Some 100]. the ([Some 5000, None, Some 100] ! k) \<le> ns k
        \<and> (\<forall>l\<in>in_use [Some 5000, None, Some 100]. l \<noteq> k \<longrightarrow> apart (as ! k) (ns k) (as ! l) (ns l))
        \<and> (\<forall>d v. stored ?cs (\<lambda>_. None) (k, d) = Some v \<longrightarrow> km s' (as ! k + of_nat d) = v)"
    unfolding after by blast
  note held = S(2) [rule_format, OF u(1)] S(2) [rule_format, OF u(2)]
  have "apart (as ! 0) (ns 0) (as ! 2) (ns 2)" using held(1) u(2) by simp
  moreover have "5000 \<le> ns 0" "100 \<le> ns 2" using held by simp_all
  ultimately have "apart (as ! 0) 5000 (as ! 2) 100" by (simp add: apart_def)
  moreover have "km s' (as ! 0 + of_nat 4999) = 7" using held(1) st(1) by presburger
  moreover have "km s' (as ! 2 + of_nat 99) = 9" using held(2) st(2) by presburger
  ultimately show ?thesis using R S(1) by (intro exI [of _ s] exI [of _ as] exI [of _ s'] conjI) simp_all
qed

subsection \<open>Errors\<close>

text \<open>C20: when no block of the order is left, \<open>_bud_alloc\<close> does not return \<open>NULL\<close>: the result is four
  blocks below the heap, outside of every region it manages.\<close>

theorem bud_exhausted_address:
  assumes rep: "bud_rep s A" and sz: "0 < z" "int z \<le> bm_heap_size (bm s)"
    and ord: "ord_for s z = Some i" and full: "free_block s A i = None"
    and low: "4 * chunk_of s i < unat (bm_heap_base (bm s))"
  shows "\<exists>a s'. bud_alloc_raw s (int z) = Some (a, s') \<and> a \<noteq> NULL
    \<and> unat a + 4 * chunk_of s i = unat (bm_heap_base (bm s))"
proof -
  let ?a = "bm_heap_base (bm s) - of_nat (4 * chunk_of s i)"
  obtain s' where s': "bud_alloc_raw s (int z) = Some (?a, s')"
    using bud_alloc_exhausted [OF rep sz ord full low] by blast
  have "unat (of_nat (4 * chunk_of s i) :: u32) = 4 * chunk_of s i"
    using low unat_bound [of "bm_heap_base (bm s)"] by (intro unat_of_nat_lt) linarith
  then have "unat ?a + 4 * chunk_of s i = unat (bm_heap_base (bm s))"
    using low by (simp add: unat_sub_if' del: of_nat_mult)
  moreover have "?a \<noteq> NULL" using calculation low by (auto simp del: of_nat_mult)
  ultimately show ?thesis using s' by blast
qed

text \<open>Fifteen blocks of order 5 fill the one-megabyte heap for that order.\<close>

lemma fill_order:
  fixes s :: "'a bud_state_scheme"
  assumes "bud_rep s {}" "nord s = 6" "bm_heap_size (bm s) = 1047764" "bm_ll (bm s) = 2048" "k \<le> 15"
  shows "\<exists>s' :: 'a bud_state_scheme. bud_rep s' ((\<lambda>n. (5, n)) ` {..<k}) \<and> bm s' = bm s \<and> nord s' = 6"
  using assms(5)
proof (induction k)
  case 0
  then show ?case using assms by auto
next
  case (Suc k)
  let ?A = "(\<lambda>n. (5, n :: nat)) ` {..<k}"
  from Suc obtain s' :: "'a bud_state_scheme" where s': "bud_rep s' ?A" "bm s' = bm s" "nord s' = 6" by auto
  have up: "[0..<6] = [0, 1, 2, 3, 4, 5 :: nat]" by (simp add: upt_rec)
  have o: "ord_for s' 65536 = Some 5" by (simp add: ord_for_def chunk_of_def up s' assms)
  have "free_block s' ?A 5 = Some k"
    using Suc.prems by (auto simp: free_block_def first_free_Some nblk_def units_total_def s'(2) assms)
  from bud_alloc_block [OF s'(1) _ _ o this] obtain t :: "'a bud_state_scheme" where
    t: "bud_rep t (insert (5, k) ?A)" "bm t = bm s'"
    by (auto simp: s'(2) assms)
  have "nord t = 6"
    using t s' unfolding bud_rep_def bitmaps_wf_def by metis
  moreover have "insert (5, k) ?A = (\<lambda>n. (5 :: nat, n)) ` {..<Suc k}" by (simp add: lessThan_Suc)
  ultimately show ?case using t s'(2) by auto
qed

lemma bud_exhausted_address_witness:
  "\<exists>(s :: bud_state) a s'. bud_rep s ((\<lambda>n. (5, n)) ` {..<15}) \<and> bud_alloc_raw s 65536 = Some (a, s') \<and> a \<noteq> NULL
     \<and> unat a + 262144 = unat (bm_heap_base (bm s))"
proof -
  obtain s0 :: bud_state where low: "33619968 < unat (bm_heap_base (bm s0))" and s0: "bud_rep s0 {}" "nord s0 = 6" "bm_heap_size (bm s0) = 1047764" "bm_ll (bm s0) = 2048"
    using mega_heap by blast
  obtain s :: bud_state where s: "bud_rep s ((\<lambda>n. (5, n)) ` {..<15})" "bm s = bm s0" "nord s = 6"
    using fill_order [OF s0, of 15] by auto
  have up: "[0..<6] = [0, 1, 2, 3, 4, 5 :: nat]" by (simp add: upt_rec)
  have o: "ord_for s 65536 = Some 5" by (simp add: ord_for_def chunk_of_def up s s0)
  have full: "free_block s ((\<lambda>n. (5, n)) ` {..<15}) 5 = None"
    by (auto simp: free_block_def first_free_None nblk_def units_total_def s s0)
  have c: "chunk_of s 5 = 65536" by (simp add: chunk_of_def s s0)
  have "4 * chunk_of s 5 < unat (bm_heap_base (bm s))" using low c s(2) by simp
  from bud_exhausted_address [OF s(1) _ _ o full this] show ?thesis using s c s0 by auto
qed

text \<open>Requests that no order can hold return \<open>NULL\<close> and change nothing.\<close>

theorem bud_alloc_rejects:
  assumes "bitmaps_wf s" "heap_wf s" and "z < 1 \<or> bm_heap_size (bm s) < z \<or> ord_for s (nat z) = None"
  shows "bud_alloc_raw s z = Some (NULL, s)"
proof (cases "1 \<le> z \<and> z \<le> bm_heap_size (bm s)")
  case True
  then show ?thesis
    using bud_rndup_eq [OF assms(1,2), of "nat z"] assms(3) by (simp add: bud_alloc_raw_def Let_def)
next
  case False
  then show ?thesis by (auto simp: bud_alloc_raw_def bud_rndup_def Let_def)
qed

lemma bud_alloc_rejects_witness: "\<exists>s :: bud_state. bud_rep s {} \<and> bud_alloc_raw s 65537 = Some (NULL, s)"
proof -
  obtain s :: bud_state where s: "bud_rep s {}" "nord s = 6" "bm_heap_size (bm s) = 1047764" "bm_ll (bm s) = 2048"
    using mega_heap by blast
  have up: "[0..<6] = [0, 1, 2, 3, 4, 5 :: nat]" by (simp add: upt_rec)
  have "ord_for s (nat 65537) = None" by (simp add: ord_for_def chunk_of_def up s)
  then show ?thesis using bud_alloc_rejects [of s 65537] s(1) by (auto simp: bud_rep_def)
qed

text \<open>C21: initialised on a heap of 133120 bytes (32 blocks of order 1), the allocator hands out the
  first address of the heap twice: once for a block of order 0, again for one of order 2.\<close>

theorem bud_double_allocation:
  fixes s :: "'a bud_state_scheme"
  assumes "base \<noteq> NULL" "unat base + 133120 < 4294967296"
    and "apart (lz_frees (lazy s)) 8 base 133120" "apart (lz_inuses (lazy s)) 8 base 133120"
  shows "\<exists>r s1 a s2 s3. bud_init_raw s base 133120 2048 = Some (r, s1)
    \<and> bud_alloc_raw s1 2048 = Some (a, s2) \<and> bud_alloc_raw s2 8192 = Some (a, s3)
    \<and> a = bm_heap_base (bm s1)"
  by (rule double_alloc [OF assms])

lemma bud_double_allocation_witness:
  "\<exists>r s1 a s2 s3. bud_init_raw reset_state 0x2010000 133120 2048 = Some (r, s1)
    \<and> bud_alloc_raw s1 2048 = Some (a, s2) \<and> bud_alloc_raw s2 8192 = Some (a, s3)"
  using bud_double_allocation [of "0x2010000" reset_state, OF _ _ reset_heads] by auto

text \<open>with the heap mapped at virtual addresses (above \<open>MM_BASE + heap_size\<close>) every request of up
  to a page fails: \<open>IS_MEM_ERR\<close> compares with the physical base, \<open>bud_alloc\<close> returns \<open>-4\<close> as a
  pointer, and the block that was to hold the page list is lost.\<close>

theorem bud_small_requests_fail:
  assumes rep: "bud_rep s A" and z: "1 \<le> z" "z \<le> MM_PAGE_SIZE"
    and empty: "lz_fnum (lazy s) = 0" and batch: "0 < lz_batch (lazy s)" "lz_batch (lazy s) \<le> 31"
    and ord: "ord_for s (nat (12 * lz_batch (lazy s))) = Some i" and free: "free_block s A i = Some n"
    and virt: "33554432 + bm_heap_size (bm s) \<le> int (unat (bm_heap_base (bm s)))"
    and hs: "12 * lz_batch (lazy s) \<le> bm_heap_size (bm s)"
  shows "\<exists>s'. bud_alloc s z = Some (to_u32 (-4), s') \<and> bud_rep s' (insert (i, n) A)"
proof -
  let ?z = "nat (12 * lz_batch (lazy s))"
  have req: "to_s32 (to_u32 LAZY_PAGE_SIZE * to_u32 (lz_batch (lazy s))) = int ?z"
  proof -
    have "to_u32 LAZY_PAGE_SIZE * to_u32 (lz_batch (lazy s)) = to_u32 (12 * lz_batch (lazy s))"
      by (simp add: to_u32_def)
    then show ?thesis using batch by simp
  qed
  have "0 < ?z" "int ?z \<le> bm_heap_size (bm s)" using batch hs by simp_all
  from bud_alloc_block [OF rep this ord free] obtain s' where
    s': "bud_alloc_raw s (int ?z) = Some (blk_addr s (i, n), s')" "bud_rep s' (insert (i, n) A)" "bm s' = bm s"
    by blast
  have hw: "0 < bm_heap_size (bm s)" "unat (bm_heap_base (bm s)) + nat (bm_heap_size (bm s)) < 4294967296"
    using rep by (simp_all add: bud_rep_def heap_wf_def)
  have "33554432 + nat (bm_heap_size (bm s)) < 4294967296" using hw virt by linarith
  then have "unat (MM_BASE + to_u32 (bm_heap_size (bm s))) = 33554432 + nat (bm_heap_size (bm s))"
    using hw by (simp add: to_u32_def unat_word_ariths unsigned_of_int take_bit_int_eq_self)
  moreover have "unat (bm_heap_base (bm s)) \<le> unat (blk_addr s (i, n))"
    using blk_bounds(1) [OF s'(2), of i n] by (simp add: blk_addr_def s'(3))
  moreover have "33554432 + nat (bm_heap_size (bm s)) \<le> unat (bm_heap_base (bm s))" using virt hw(1) by linarith
  ultimately have "is_mem_err s' (blk_addr s (i, n))"
    by (simp add: is_mem_err_def word_le_nat_alt s'(3))
  then show ?thesis
    using s'(1,2) z empty req by (simp add: bud_alloc_def bud_lazy_alloc_def lazy_refill_def Let_def)
qed

lemma bud_rep_lazy: "bud_rep (s\<lparr>lazy := l\<rparr>) A = bud_rep s A"
  by (rule bud_rep_same) simp_all

lemma bud_small_requests_fail_witness:
  "\<exists>(s :: bud_state) s'. bud_rep s {} \<and> bud_alloc s 64 = Some (to_u32 (-4), s') \<and> bud_rep s' {(0, 0)}"
proof -
  have "0x1010 \<le> unat (0xC2010000 :: u32)" "unat (0xC2010000 :: u32) + 1048576 < 4294967296" by simp_all
  from mega_heap_at [OF this] obtain s0 :: bud_state where
    s0: "bud_rep s0 {}" "nord s0 = 6" "bm_heap_size (bm s0) = 1047764" "bm_ll (bm s0) = 2048"
      "unat (0xC2010000 :: u32) < unat (bm_heap_base (bm s0))"
    by blast
  define s where "s = s0\<lparr>lazy := (lazy s0)\<lparr>lz_batch := 31, lz_fnum := 0\<rparr>\<rparr>"
  have s: "bud_rep s {}" "bm s = bm s0" "nord s = 6" "lz_fnum (lazy s) = 0" "lz_batch (lazy s) = 31"
    using s0(1,2) by (simp_all add: s_def nord_def bud_rep_lazy)
  have up: "[0..<6] = [0, 1, 2, 3, 4, 5 :: nat]" by (simp add: upt_rec)
  have "ord_for s (nat (12 * lz_batch (lazy s))) = Some 0" "free_block s {} 0 = Some 0"
    by (simp_all add: ord_for_def chunk_of_def up free_block_def first_free_Some nblk_def units_total_def s s0)
  moreover have "int (unat (0xC2010000 :: u32)) < int (unat (bm_heap_base (bm s)))"
    using s0(5) unfolding s(2) by linarith
  then have "33554432 + bm_heap_size (bm s) \<le> int (unat (bm_heap_base (bm s)))"
    using s(2) s0(3) by simp
  ultimately show ?thesis
    using bud_small_requests_fail [OF s(1), of 64 0 0] s s0(3) by auto
qed

end
