(* ===== verification/Heap_Init.thy ===== *)
theory Heap_Init
  imports Heap Buddy_Props
begin

text \<open>
  Initialisation of the whole heap: \<open>mm_init\<close> sets up the buddy allocator, takes a block of it for
  the pools, and leaves the composed heap with nothing handed out.
\<close>

subsection \<open>What initialisation leaves alone\<close>

lemma init_orders_frame:
  "bud_init_orders s is D ll base sz = Some (r, s') \<Longrightarrow> \<exists>m bs. s' = s\<lparr>km := m, bud := bs\<rparr>"
proof (induction "is" arbitrary: s ll base sz)
  case Nil
  then show ?case by (intro exI [of _ "km s"] exI [of _ "bud s"]) simp
next
  case (Cons i "is")
  from Cons.prems obtain s1 where s1: "bud_init_order s i D ll base = Some s1"
    and rest: "\<exists>ll base sz. bud_init_orders s1 is D ll base sz = Some (r, s')"
    by (auto simp: Let_def bind_eq_Some_conv)
  from s1 obtain m bs where e: "s1 = s\<lparr>km := m, bud := bs\<rparr>"
    by (auto simp: bud_init_order_def Let_def bind_eq_Some_conv)
  from rest obtain m' bs' where "s' = s1\<lparr>km := m', bud := bs'\<rparr>" using Cons.IH by blast
  then have "s' = s\<lparr>km := m', bud := bs'\<rparr>" by (simp add: e)
  then show ?case by blast
qed

lemma bud_init_frame:
  assumes "bud_init_raw s base h llc = Some (r, s')"
  shows "mmm s' = mmm s"
proof -
  consider "s' = s" | b where "s' = s\<lparr>bm := b\<rparr>"
    | t b bs p q D ll base' sz n m m' b' l where "t = s\<lparr>bm := b, bud := bs\<rparr>"
        "bud_init_orders t n D ll base' sz = Some (p, q)" "s' = q\<lparr>bm := b', lazy := l, km := m'\<rparr>"
    using assms
    by (auto simp: bud_init_raw_def Let_def bind_eq_Some_conv split: if_splits prod.splits)
  then show ?thesis by cases (auto dest!: init_orders_frame)
qed

subsection \<open>The initialised heap\<close>

text \<open>The pools ask for 263848 bytes, a block of order 8.\<close>

lemma pool_block:
  assumes rep: "bud_rep s {}" and ll: "bm_ll (bm s) = 2048" and n: "9 \<le> nord s"
  shows "ord_for s 263848 = Some 8" "free_block s {} 8 = Some 0" "chunk_of s 8 = 524288" "263848 \<le> bm_heap_size (bm s)"
proof -
  have up: "[0..<nord s] = [0, 1, 2, 3, 4, 5, 6, 7, 8] @ [9..<nord s]"
    using upt_add_eq_append [of 0 9 "nord s - 9"] n by (simp add: upt_rec)
  show "ord_for s 263848 = Some 8" by (simp add: ord_for_def chunk_of_def ll up)
  show "chunk_of s 8 = 524288" by (simp add: chunk_of_def ll)
  have "8 \<le> nord s - 1" using n by simp
  then have "(2048 :: nat) * 2 ^ 8 \<le> 2048 * 2 ^ (nord s - 1)" by (intro mult_le_mono2 power_increasing) auto
  also have "\<dots> \<le> nat (bm_heap_size (bm s))" using rep ll by (simp add: bud_rep_def heap_wf_def)
  finally have sz: "524288 \<le> nat (bm_heap_size (bm s))" by simp
  then show "263848 \<le> bm_heap_size (bm s)" by linarith
  have "256 \<le> nat (bm_heap_size (bm s)) div 2048" using div_le_mono [OF sz, of 2048] by simp
  then have "0 < nblk s 8" using div_le_mono [of 256 "nat (bm_heap_size (bm s)) div 2048" 256]
    by (simp add: nblk_def units_total_def ll)
  then show "free_block s {} 8 = Some 0" by (simp add: free_block_def first_free_Some)
qed

lemma mmi_init_ok:
  fixes s s1 :: "'a pool_state_scheme"
  assumes base: "base \<noteq> NULL" and H: "1 \<le> H" "H \<le> INT_MAX" and junk: "0 \<le> junk" "junk \<le> INT_MAX - 2560"
    and init: "bud_init_raw s base H 2048 = Some (r, s1)" and rep: "bud_rep s1 {}"
    and ll: "bm_ll (bm s1) = 2048" and n: "9 \<le> nord s1"
  shows "\<exists>rmd s'. mmi_init s junk base H = Some (rmd, s') \<and> 0 \<le> rmd \<and> rmd < junk + 2560
    \<and> heap_rep s' {(8, 0)} (8, 0) (\<lambda>_. []) (\<lambda>_. 0) \<and> org_size (mmm s') = org_size (mmm s)
    \<and> bm s' = bm s1 \<and> (\<forall>i<7. 128 \<le> nslots (pools s' ! i)) \<and> pool_state.more s' = pool_state.more s1
    \<and> in_heap s' = in_heap s1 \<and> (\<forall>x. \<not> in_heap s1 x \<longrightarrow> km s' x = km s1 x)"
proof -
  note pb = pool_block [OF rep ll n]
  let ?b = "(8 :: nat, 0 :: nat)"
  have zz: "0 < (263848 :: nat)" "int 263848 \<le> bm_heap_size (bm s1)" using pb(4) by simp_all
  obtain s2 m bs where s2: "bud_alloc_raw s1 (int 263848) = Some (blk_addr s1 ?b, s2)" "bud_rep s2 {?b}"
    "s2 = s1\<lparr>km := m, bud := bs\<rparr>" "bm s2 = bm s1"
    "\<forall>x. \<not> in_bitmaps s1 x \<and> x \<noteq> blk_hdr s1 ?b \<longrightarrow> km s2 x = km s1 x" "map bs_bmp (bud s2) = map bs_bmp (bud s1)"
    using bud_alloc_block [OF rep zz pb(1,2)] by blast
  have bs2: "blk_addr s2 ?b = blk_addr s1 ?b" "chunk_of s2 8 = 524288"
    using pb(3) by (simp_all add: blk_addr_def chunk_of_def s2(4))
  have hw: "0 < unat (bm_heap_base (bm s1))" "unat (bm_heap_base (bm s1)) + nat (bm_heap_size (bm s1)) < 4294967296"
    and bwf: "bitmaps_wf s2" "heap_wf s2"
    using rep s2(2) by (simp_all add: bud_rep_def heap_wf_def)
  have ba: "unat (blk_addr s1 ?b) = unat (bm_heap_base (bm s1))" "524288 \<le> nat (bm_heap_size (bm s1))"
    using blk_bounds(1,3) [OF s2(2), of 8 0] bs2 by (simp_all add: s2(4))
  have P: "blk_addr s1 ?b \<noteq> NULL" "unat (blk_addr s1 ?b) + 524288 < 4294967296"
    using ba hw by (auto simp: blk_addr_def)
  have PH: "168 < (524288 :: nat)" "(524288 :: nat) < 2147483648" by simp_all
  obtain rmd s' where s': "pl_init s2 (blk_addr s1 ?b) (int 524288) = Some (int rmd, s')" "rmd < 2560"
      "sizes (pools s') + rmd + 168 = 524288" "pool_rep s' (\<lambda>_. []) (\<lambda>_. 0)" "pools_adjacent s' (blk_addr s1 ?b + 168)"
      "sec (mmm s') = (sec (mmm s2))\<lparr>mm_base := blk_addr s1 ?b, mm_size := int 524288\<rparr>"
      "bm s' = bm s2" "bud s' = bud s2" "\<forall>x. \<not> inside (blk_addr s1 ?b) 524288 x \<longrightarrow> km s' x = km s2 x"
    and org: "org_size (mmm s') = org_size (mmm s2)" and room: "\<forall>i<7. 128 \<le> nslots (pools s' ! i)"
    and more: "pool_state.more s' = pool_state.more s2"
    using pl_init_eq [OF P PH, of s2] by (auto simp del: of_nat_numeral)
  have bs': "blk_addr s' ?b = blk_addr s1 ?b" "chunk_of s' 8 = 524288"
    using pb(3) by (simp_all add: blk_addr_def chunk_of_def s'(7) s2(4))
  have rep': "bud_rep s' {?b}"
    by (rule bud_rep_write [OF s2(2) _ s'(7,8)]) (use s'(9) bs2 in auto)
  have wf: "pools_wf s'" using s'(4) by (simp add: pool_rep_def)
  have cells: "inside (blk_addr s1 ?b) 524288 x" if c: "(i, k) \<in> cells s'" and x: "inside (cell s' (i, k)) (slot_w (pools s' ! i)) x" for i k x
  proof -
    have ik: "i < 7" "k < nslots (pools s' ! i)" using c by (auto simp: cells_def)
    note w = pools_wfD [OF wf ik(1)]
    let ?w = "slot_w (pools s' ! i)" and ?d = "sizes (take i (pools s'))"
    have "Suc k * ?w \<le> nslots (pools s' ! i) * ?w" using ik(2) by (intro mult_le_mono1) simp
    then have "?d + (k * ?w + ?w) \<le> sizes (take (Suc i) (pools s'))"
      using sizes_take [of i "pools s'"] ik(1) w(1,4) by simp
    also have "\<dots> \<le> sizes (pools s')" by (rule sizes_take_le)
    finally have "168 + ?d + k * ?w + ?w \<le> 524288" using s'(3) by linarith
    then have le: "(168 + ?d + k * ?w) + ?w \<le> 524288" by simp
    have eq: "cell s' (i, k) = blk_addr s1 ?b + of_nat (168 + ?d + k * ?w)"
      using s'(5) ik(1) by (simp add: slot_addr_def pools_adjacent_def)
    show ?thesis by (rule inside_sub [OF x eq le]) simp
  qed
  have heap: "heap_rep s' {?b} ?b (\<lambda>_. []) (\<lambda>_. 0)"
    unfolding heap_rep_def using rep' s'(4,6,7) s2(4) ll bs' cells by (auto simp: cells_def)
  have big: "bud_alloc s1 263848 = Some (blk_addr s1 ?b, s2)" using s2(1) P(1) by (simp add: bud_alloc_def)
  have "ord_for s2 263848 = Some 8"
    using pb(1) s2(3) bwf(1) rep by (simp add: ord_for_def chunk_of_def bud_rep_def bitmaps_wf_def)
  then have rn: "bud_rndup s2 263848 = 524288"
    using bud_rndup_eq [OF bwf, of 263848] zz bs2(2) by (simp add: s2(4))
  have ti: "to_int H = H" "to_int 263848 = 263848" "to_int (junk + int rmd) = junk + int rmd"
    using H junk s'(2) by (simp_all add: to_int_def)
  have "mmi_init s junk base H = Some (junk + int rmd, s')"
    using base H(1) init junk(1) big rn s'(1) ti P(1)
    by (simp add: mmi_init_def bud_init_def init_size_eq Let_def)
  moreover have "org_size (mmm s') = org_size (mmm s)"
    using org bud_init_frame [OF init] by (simp add: s2(3))
  moreover have ih: "in_heap s2 = in_heap s1" "in_heap s' = in_heap s2"
    using s2(4,6) s'(7,8) by (auto intro: in_heap_same)
  moreover have "km s' x = km s1 x" if "\<not> in_heap s1 x" for x
  proof -
    have "8 < nord s1" "0 < nblk s1 8" using n pb(2) by (auto simp: free_block_def first_free_Some)
    then have "x \<noteq> blk_hdr s1 ?b" using hdr_in_heap [OF rep] that by blast
    moreover have "\<not> in_bitmaps s1 x" using that by (simp add: in_heap_def)
    moreover have "\<not> inside (blk_addr s1 ?b) 524288 x"
      using block_in_heap [OF s2(2), of ?b x] that ih(1) bs2 by auto
    ultimately show ?thesis using s2(5) s'(9) by simp
  qed
  moreover have "pool_state.more s' = pool_state.more s1" using more s2(3) by simp
  ultimately show ?thesis using heap room junk(1) s'(2,7) s2(4) by (intro exI [of _ "junk + int rmd"] exI [of _ s']) simp
qed

end
