(* ===== verification/Heap_Props.thy ===== *)
theory Heap_Props
  imports Heap_Init
begin

text \<open>
  What \<open>yalloc\<close> and \<open>yfree\<close> promise the rest of the kernel, from \<open>mm_init\<close> to exhaustion, with a
  concrete heap of twelve megabytes for the witnesses.
\<close>

subsection \<open>A concrete heap\<close>

definition boot_state :: pool_state where
  "boot_state = bud_state.extend reset_state
     \<lparr>pmm = \<lparr>pm_base = 0, pm_size = 0, pm_data_base = 0, pm_llc = 0, pm_ulc = 0, pm_rmd = 0, pm_meta_size = 0,
        pm_data_size = 0, pm_num = 0\<rparr>, pools = []\<rparr>"

lemma boot_lazy [simp]: "lazy boot_state = lazy reset_state"
  by (simp add: boot_state_def bud_state.defs)

lemma data_size_boot: "data_size 12582912 10 = 12574988"
proof -
  have "{..<10} = {0, 1, 2, 3, 4, 5, 6, 7, 8, 9 :: nat}" by auto
  then show ?thesis by (simp add: data_size_def bmp_off_def qn_def bmp_words_def)
qed

lemma boot_heap:
  fixes s :: "'a pool_state_scheme"
  assumes "lazy s = lazy reset_state"
  shows "\<exists>r s1. bud_init_raw s (MM_BASE + 0) 12582912 2048 = Some (r, s1) \<and> bud_rep s1 {} \<and> nord s1 = 10
     \<and> bm_heap_size (bm s1) = 12574988 \<and> bm_ll (bm s1) = 2048"
proof -
  have b: "unat MM_BASE + 12582912 < 4294967296" "0x1010 \<le> unat MM_BASE" by simp_all
  have odd: "12574988 div 2048 div 2 ^ i mod 32 \<noteq> (0 :: nat)" if "i < Suc 9" for i
  proof -
    have "i = 0 \<or> i = 1 \<or> i = 2 \<or> i = 3 \<or> i = 4 \<or> i = 5 \<or> i = 6 \<or> i = 7 \<or> i = 8 \<or> i = 9" using that by auto
    then show ?thesis by auto
  qed
  have base: "MM_BASE \<noteq> NULL" by simp
  note heads = reset_heads [OF b, folded assms]
  show ?thesis
    using init_concrete [OF base b(1) _ _ heads, of 9 12574988 9] data_size_boot odd by auto
qed

subsection \<open>Initialisation\<close>

lemma booted_regions: "heap_rep s {(8, 0)} (8, 0) (\<lambda>_. []) (\<lambda>_. 0) \<Longrightarrow> heap_regions s {}"
  unfolding heap_regions_def
  by (intro exI [of _ "{(8, 0)}"] exI [of _ "(8, 0)"] exI [of _ "\<lambda>_. []"] exI [of _ "\<lambda>_. 0"]) (simp add: used_cells_def)

lemma mm_init_heap:
  fixes s s1 :: "'a pool_state_scheme"
  assumes base: "MM_BASE + virt \<noteq> NULL" and H: "MM_HEAP_MIN_SIZE \<le> H" "H \<le> INT_MAX" and junk: "0 \<le> junk" "junk \<le> INT_MAX - 2560"
    and init: "bud_init_raw (s\<lparr>mmm := (mmm s)\<lparr>org_size := H\<rparr>\<rparr>) (MM_BASE + virt) H 2048 = Some (r, s1)"
    and rep: "bud_rep s1 {}" and ll: "bm_ll (bm s1) = 2048" and n: "9 \<le> nord s1"
  obtains s' where "mm_init s junk virt H = Some (0, s')" "heap_regions s' {}" "bm s' = bm s1" "nord s' = nord s1"
    "org_size (mmm s') = H" "heap_size (mmm s') + rmd_size (mmm s') = H" "\<forall>i<7. \<forall>k<128. (i, k) \<in> cells s'"
    "pool_state.more s' = pool_state.more s1" "in_heap s' = in_heap s1" "\<forall>x. \<not> in_heap s1 x \<longrightarrow> km s' x = km s1 x"
    "mm_size (sec (mmm s')) = 524288"
proof -
  let ?s = "s\<lparr>mmm := (mmm s)\<lparr>org_size := H\<rparr>\<rparr>"
  have H1: "1 \<le> H" using H by simp
  obtain rmd s' where s': "mmi_init ?s junk (MM_BASE + virt) H = Some (rmd, s')" "0 \<le> rmd" "rmd < junk + 2560"
      "heap_rep s' {(8, 0)} (8, 0) (\<lambda>_. []) (\<lambda>_. 0)" "org_size (mmm s') = H" "bm s' = bm s1"
      "\<forall>i<7. 128 \<le> nslots (pools s' ! i)" "pool_state.more s' = pool_state.more s1"
      "in_heap s' = in_heap s1" "\<forall>x. \<not> in_heap s1 x \<longrightarrow> km s' x = km s1 x"
    using mmi_init_ok [OF base H1 H(2) junk init rep ll n] by auto
  define t where "t = s'\<lparr>mmm := (mmm s')\<lparr>rmd_size := rmd, heap_size := H - rmd\<rparr>\<rparr>"
  have "s32_ok (H - rmd) = Some (H - rmd)" using s'(2,3) H junk by (simp add: s32_ok_def)
  then have run: "mm_init s junk virt H = Some (0, t)"
    using H(1) s'(1,2,5) by (simp add: mm_init_def Let_def t_def)
  have "heap_rep t {(8, 0)} (8, 0) (\<lambda>_. []) (\<lambda>_. 0)"
  proof (rule heap_rep_transfer [OF s'(4)])
    show "bud_rep t {(8, 0)}" using heap_repD(1) [OF s'(4)] bud_rep_same [of t s'] by (simp add: t_def)
    show "pool_rep t (\<lambda>_. []) (\<lambda>_. 0)" by (rule pool_rep_write [OF heap_repD(5) [OF s'(4)]]) (simp_all add: t_def)
  qed (simp_all add: t_def cells_def)
  then have R: "heap_regions t {}" by (rule booted_regions)
  have "nord s' = nord s1"
    using heap_repD(1) [OF s'(4)] rep s'(6) unfolding bud_rep_def bitmaps_wf_def by metis
  then have N: "nord t = nord s1" by (simp add: t_def nord_def)
  have C: "\<forall>i<7. \<forall>k<128. (i, k) \<in> cells t" using s'(7) by (auto simp: t_def cells_def)
  have I: "in_heap t = in_heap s1" using s'(9) in_heap_same [of t s'] by (simp add: t_def)
  have S: "mm_size (sec (mmm t)) = 524288"
    using heap_repD(10) [OF s'(4)] by (simp add: t_def chunk_of_def s'(6) ll)
  show ?thesis
    by (rule that [OF run R _ N _ _ C _ I _ S]) (use s'(5,6,8,10) in \<open>simp_all add: t_def\<close>)
qed


text \<open>The orders of the heap of twelve megabytes.\<close>

lemma boot_odd:
  assumes "nord s = 10" "bm_heap_size (bm s) = 12574988" "bm_ll (bm s) = 2048"
  shows "\<forall>i<nord s. nblk s i mod 32 \<noteq> 0"
proof (intro allI impI)
  fix i assume "i < nord s"
  then have "i = 0 \<or> i = 1 \<or> i = 2 \<or> i = 3 \<or> i = 4 \<or> i = 5 \<or> i = 6 \<or> i = 7 \<or> i = 8 \<or> i = 9" using assms(1) by auto
  then show "nblk s i mod 32 \<noteq> 0" by (auto simp: nblk_def units_total_def assms)
qed


text \<open>C19: on every heap from the minimum of 128 KB up to 4 MB \<open>mm_init\<close> fails: the largest block is
  too small for the pools, and \<open>bud_alloc\<close>'s error code passes for their base address.\<close>

theorem mm_init_small:
  fixes s :: "'a pool_state_scheme"
  assumes base: "MM_BASE + virt \<noteq> NULL" "unat (MM_BASE + virt) + H < 4294967296"
    and H: "131072 \<le> H" "H < 4194304" and junk: "0 \<le> junk"
    and heads: "apart (lz_frees (lazy s)) 8 (MM_BASE + virt) H" "apart (lz_inuses (lazy s)) 8 (MM_BASE + virt) H"
  shows "\<exists>s'. mm_init s junk virt (int H) = Some (-1, s')"
proof -
  let ?s = "s\<lparr>mmm := (mmm s)\<lparr>org_size := int H\<rparr>\<rparr>"
  have H2: "H < 2147483648" using H(2) by simp
  have heads': "apart (lz_frees (lazy ?s)) 8 (MM_BASE + virt) H" "apart (lz_inuses (lazy ?s)) 8 (MM_BASE + virt) H"
    using heads by simp_all
  from bud_init_state [OF base H(1) H2 heads'] obtain s1 rmd D n where
    init: "bud_init_raw ?s (MM_BASE + virt) (int H) 2048 = Some (int rmd, s1)" and st: "init_state (unat (MM_BASE + virt)) D n s1"
    and D: "24 * n + bmp_off D 2048 n + D div 2048 + D + rmd = H" and n: "0 < n" "\<forall>d<n. 8 * (2048 * 2 ^ d) \<le> D"
    by blast
  have "n \<le> 8"
  proof (rule ccontr)
    assume "\<not> n \<le> 8"
    then have "8 * (2048 * 2 ^ 8) \<le> D" using n(2) [rule_format, of 8] by simp
    then show False using D H(2) by simp
  qed
  then have "n \<in> {1, 2, 3, 4, 5, 6, 7, 8}" using n(1) by auto
  then have "rndup_loop 263848 (of_nat n) 2048 0 = -1" by (auto simp: rndup_loop.simps)
  then have rn: "bud_rndup s1 263848 < 0" using st by (simp add: bud_rndup_def init_state_def to_u32_def)
  have ti: "to_int (int H) = int H" "to_int 263848 = 263848" using H2 unfolding to_int_def by simp_all
  have "bud_alloc s1 263848 = Some (to_u32 (-4), s1)"
    using rn by (simp add: bud_alloc_def bud_alloc_raw_def Let_def)
  then have "mmi_init ?s junk (MM_BASE + virt) (int H) = Some (-14, s1)"
    using base(1) H(1) init junk rn ti
    by (simp add: mmi_init_def bud_init_def init_size_eq Let_def to_u32_def)
  then show ?thesis using H(1) by (simp add: mm_init_def Let_def)
qed

lemma mm_init_small_witness: "\<exists>s'. mm_init boot_state 0 0 (int 1048576) = Some (-1, s')"
proof -
  have b: "unat MM_BASE + 1048576 < 4294967296" "0x1010 \<le> unat MM_BASE" by simp_all
  show ?thesis by (rule mm_init_small) (use reset_heads [OF b] in simp_all)
qed

subsection \<open>Sessions\<close>

text \<open>C1: any session of calls in order - \<open>yalloc\<close> of sizes up to a block of order \<open>i\<close> except those of more than a kilobyte
  and at most a page, at most \<open>q\<close> pieces in use at a time, \<open>yfree\<close> of pieces in use, writes into them - is served to
  its end, whichever of the two allocators serves each of them, provided order \<open>i\<close> has more blocks and the pools as
  many slots as there are regions in use before and \<open>q\<close> more, none of them (nor the block of the pools) larger than a block of order \<open>i\<close>:
  the pieces in use after it are regions of at least the size asked for, apart from each other and from those in use
  before, they hold what was last written to them, and what was in use before holds what it held.\<close>

theorem heap_sessions:
  assumes R: "heap_regions s R" "\<forall>r\<in>R. snd r \<le> chunk_of s i"
    and i: "i < nord s" "mm_size (sec (mmm s)) \<le> int (chunk_of s i)"
    and q: "card R + q < nblk s i" "\<forall>j<7. \<forall>k<card R + q. (j, k) \<in> cells s"
    and cs: "in_order (\<lambda>z. 0 < z \<and> (z \<le> 1024 \<or> 2048 < z) \<and> z \<le> chunk_of s i) q [] cs"
  shows "\<exists>as s' ns. serve (\<lambda>s z. yalloc s (int z)) yfree heap_poke cs [] s = Some (as, s') \<and> length as = length (after [] cs)
    \<and> heap_regions s' (R \<union> (\<lambda>k. (as ! k, ns k)) ` in_use (after [] cs))
    \<and> (\<forall>k\<in>in_use (after [] cs). the (after [] cs ! k) \<le> ns k
        \<and> (\<forall>r\<in>R. apart (as ! k) (ns k) (fst r) (snd r))
        \<and> (\<forall>l\<in>in_use (after [] cs). l \<noteq> k \<longrightarrow> apart (as ! k) (ns k) (as ! l) (ns l))
        \<and> (\<forall>d v. stored cs (\<lambda>_. None) (k, d) = Some v \<longrightarrow> km s' (as ! k + of_nat d) = v))
    \<and> (\<forall>r\<in>R. \<forall>x. inside (fst r) (snd r) x \<longrightarrow> km s' x = km s x)"
proof -
  have "heap_upto i (chunk_of s i) (card R + q) s R" using R i q by (simp add: heap_upto_def)
  then show ?thesis by (rule heaps.session [OF _ cs order_refl]) (simp add: heap_upto_def)
qed

lemma boot_fits:
  fixes s :: "'a pool_state_scheme"
  assumes bm: "bm_ll (bm s) = 2048" "bm_heap_size (bm s) = 12574988" and n: "nord s = 10"
    and R: "R \<subseteq> {r}"
  shows "heap_fits s R 5000"
proof -
  have up: "[0..<10] = [0, 1, 2] @ [3..<10 :: nat]" using upt_add_eq_append [of 0 3 7] by (simp add: upt_rec)
  have o: "ord_for s 5000 = Some 2" by (simp add: ord_for_def chunk_of_def bm n up)
  have "free_block s A 2 \<noteq> None"
    if rep: "heap_rep s A b F T" and e: "R = blk_region s ` (A - {b}) \<union> cell_region s ` used_cells F T" for A b F T
  proof
    assume "free_block s A 2 = None"
    then have all: "\<exists>a\<in>A. overlap a (2, k)" if "k < nblk s 2" for k
      using that by (simp add: free_block_def first_free_None)
    note h = heap_repD [OF rep]
    have A: "c = d" if "c \<in> A - {b}" "d \<in> A - {b}" for c d
      using inj_onD [OF blk_region_inj [OF h(1)], of c d] that e R by blast
    have "nblk s 2 = 1535" by (simp add: nblk_def units_total_def bm)
    then obtain c0 c1 c2 where c: "c0 \<in> A" "overlap c0 (2, 0)" "c1 \<in> A" "overlap c1 (2, 200)" "c2 \<in> A" "overlap c2 (2, 400)"
      using all [of 0] all [of 200] all [of 400] by auto
    have small: "(2 :: nat) ^ fst d \<le> 2 ^ 9" if "d \<in> A" for d
      using h(1) n that by (intro power_increasing) (auto simp: bud_rep_def)
    have "c0 \<noteq> c1" using c(2,4) small [OF c(1)] by (auto simp: overlap_def)
    moreover have "c1 \<noteq> c2" using c(4,6) small [OF c(3)] by (auto simp: overlap_def)
    moreover have "c0 \<noteq> c2" using c(2,6) small [OF c(1)] by (auto simp: overlap_def)
    ultimately show False using A c(1,3,5) by blast
  qed
  then show ?thesis unfolding heap_fits_def using o bm(2) by auto
qed

lemma booted_heap:
  "\<exists>s :: 'a pool_state_scheme. heap_rep s {(8, 0)} (8, 0) (\<lambda>_. []) (\<lambda>_. 0) \<and> nord s = 10
     \<and> bm_ll (bm s) = 2048 \<and> bm_heap_size (bm s) = 12574988 \<and> (\<forall>i<7. 128 \<le> nslots (pools s ! i))"
proof -
  have "lazy ((s :: 'a pool_state_scheme)\<lparr>lazy := lazy reset_state\<rparr>) = lazy reset_state" for s by simp
  then obtain s0 :: "'a pool_state_scheme" where s0: "lazy s0 = lazy reset_state" by blast
  obtain r s1 where s1: "bud_init_raw s0 (MM_BASE + 0) 12582912 2048 = Some (r, s1)"
      "bud_rep s1 {}" "nord s1 = 10" "bm_heap_size (bm s1) = 12574988" "bm_ll (bm s1) = 2048"
    using boot_heap [OF s0] by auto
  obtain rmd and s :: "'a pool_state_scheme" where rep: "heap_rep s {(8, 0)} (8, 0) (\<lambda>_. []) (\<lambda>_. 0)" and bm: "bm s = bm s1"
    and n: "\<forall>i<7. 128 \<le> nslots (pools s ! i)"
    using mmi_init_ok [OF _ _ _ _ _ s1(1,2,5), of 0] s1(3) by auto
  have "nord s = 10"
    using heap_repD(1) [OF rep] s1(2,3) bm unfolding bud_rep_def bitmaps_wf_def by metis
  then show ?thesis using rep n s1(4,5) bm by metis
qed

lemma heap_sessions_witness:
  "\<exists>(s :: pool_state) as s'. heap_regions s {}
     \<and> serve (\<lambda>s z. yalloc s (int z)) yfree heap_poke
         [Ask 5000, Ask 100, Ask 1000000, Store 0 4999 7, Return 1, Ask 16, Store 3 15 9] [] s = Some (as, s')
     \<and> apart (as ! 0) 5000 (as ! 3) 16 \<and> km s' (as ! 0 + 4999) = 7 \<and> km s' (as ! 3 + 15) = 9"
proof -
  let ?cs = "[Ask 5000, Ask 100, Ask 1000000, Store 0 4999 7, Return 1, Ask 16, Store 3 15 9]"
  let ?l = "[Some 5000, None, Some 1000000, Some (16 :: nat)]"
  obtain s :: pool_state where s: "heap_rep s {(8, 0)} (8, 0) (\<lambda>_. []) (\<lambda>_. 0)" "nord s = 10"
     "bm_ll (bm s) = 2048" "bm_heap_size (bm s) = 12574988" "\<forall>i<7. 128 \<le> nslots (pools s ! i)"
    using booted_heap by blast
  note R = booted_regions [OF s(1)]
  have c: "chunk_of s 9 = 1048576" "chunk_of s 8 = 524288" "nblk s 9 = 11" by (simp_all add: chunk_of_def nblk_def units_total_def s)
  have sec: "mm_size (sec (mmm s)) \<le> int (chunk_of s 9)" using heap_repD(10) [OF s(1)] by (simp add: c)
  have cells: "\<forall>j<7. \<forall>k<card ({} :: region set) + 3. (j, k) \<in> cells s" using s(5) by (force simp: cells_def)
  have i9: "9 < nord s" and q: "card ({} :: region set) + 3 < nblk s 9" by (simp_all add: c s(2))
  have cs: "in_order (\<lambda>z. 0 < z \<and> (z \<le> 1024 \<or> 2048 < z) \<and> z \<le> chunk_of s 9) 3 [] ?cs" by (simp add: c)
  have after: "after [] ?cs = ?l" by simp
  have u: "0 \<in> in_use ?l" "3 \<in> in_use ?l" by (simp_all add: in_use_def)
  have st: "stored ?cs (\<lambda>_. None) (0, 4999) = Some 7" "stored ?cs (\<lambda>_. None) (3, 15) = Some 9" by simp_all
  from heap_sessions [OF R _ i9 sec q cells cs] obtain as s' ns where S:
    "serve (\<lambda>s z. yalloc s (int z)) yfree heap_poke ?cs [] s = Some (as, s')"
    "\<forall>k\<in>in_use ?l. the (?l ! k) \<le> ns k
        \<and> (\<forall>l\<in>in_use ?l. l \<noteq> k \<longrightarrow> apart (as ! k) (ns k) (as ! l) (ns l))
        \<and> (\<forall>d v. stored ?cs (\<lambda>_. None) (k, d) = Some v \<longrightarrow> km s' (as ! k + of_nat d) = v)"
    unfolding after by blast
  note held = S(2) [rule_format, OF u(1)] S(2) [rule_format, OF u(2)]
  have "apart (as ! 0) (ns 0) (as ! 3) (ns 3)" using held(1) u(2) by simp
  moreover have "5000 \<le> ns 0" "16 \<le> ns 3" using held by simp_all
  ultimately have "apart (as ! 0) 5000 (as ! 3) 16" by (simp add: apart_def)
  moreover have "km s' (as ! 0 + of_nat 4999) = 7" using held(1) st(1) by presburger
  moreover have "km s' (as ! 3 + of_nat 15) = 9" using held(2) st(2) by presburger
  ultimately show ?thesis using R S(1) by (intro exI [of _ s] exI [of _ as] exI [of _ s'] conjI) simp_all
qed

text \<open>A heap with one region handed out.\<close>

lemma one_region:
  "\<exists>(s :: 'a pool_state_scheme) r. heap_regions s {r} \<and> 5000 \<le> snd r \<and> nord s = 10 \<and> bm_ll (bm s) = 2048
     \<and> bm_heap_size (bm s) = 12574988 \<and> (\<forall>i<7. 128 \<le> nslots (pools s ! i)) \<and> fst r \<noteq> NULL
     \<and> unat (fst r) + snd r < 4294967296"
proof -
  obtain s0 :: "'a pool_state_scheme" where s0: "heap_rep s0 {(8, 0)} (8, 0) (\<lambda>_. []) (\<lambda>_. 0)" "nord s0 = 10"
     "bm_ll (bm s0) = 2048" "bm_heap_size (bm s0) = 12574988" "\<forall>i<7. 128 \<le> nslots (pools s0 ! i)"
    using booted_heap by blast
  note h0 = heap_repD [OF s0(1)]
  have "heap_fits s0 {} 5000" using s0 by (intro boot_fits [where r = "(0, 0)"]) simp_all
  then obtain i where i0: "ord_for s0 5000 = Some i" and all: "\<forall>A b F T. heap_rep s0 A b F T
      \<and> {} = blk_region s0 ` (A - {b}) \<union> cell_region s0 ` used_cells F T \<longrightarrow> free_block s0 A i \<noteq> None"
    unfolding heap_fits_def by auto
  have "free_block s0 {(8, 0)} i \<noteq> None"
    by (rule all [rule_format, of "{(8, 0)}" "(8, 0)" "\<lambda>_. []" "\<lambda>_. 0"]) (simp add: s0(1) used_cells_def)
  then obtain n where i: "ord_for s0 5000 = Some i" "free_block s0 {(8, 0)} i = Some n" using i0 by blast
  obtain s1 :: "'a pool_state_scheme" where s1: "heap_rep s1 {(i, n), (8, 0)} (8, 0) (\<lambda>_. []) (\<lambda>_. 0)" "bm s1 = bm s0" "pools s1 = pools s0"
    using yalloc_block [OF s0(1) _ _ i] s0(4) heap_only_simps(1) by auto
  note h1 = heap_repD [OF s1(1)]
  have new: "(i, n) \<noteq> (8, 0)" using i(2) by (auto simp: free_block_def first_free_Some)
  then have "{(i, n), (8, 0)} - {(8, 0)} = {(i, n)}" by auto
  then have "heap_regions s1 {blk_region s1 (i, n)}" unfolding heap_regions_def
    by (intro exI [of _ "{(i, n), (8, 0)}"] exI [of _ "(8, 0)"] exI [of _ "\<lambda>_. []"] exI [of _ "\<lambda>_. 0"])
      (use s1(1) in \<open>simp add: used_cells_def\<close>)
  moreover have "nord s1 = 10" using h1(1) h0(1) s0(2) s1(2) unfolding bud_rep_def bitmaps_wf_def by metis
  moreover have "5000 \<le> snd (blk_region s1 (i, n))"
    using ord_for_Some [OF i(1)] by (simp add: blk_region_def chunk_of_def s1(2))
  moreover have hw: "0 < unat (bm_heap_base (bm s1))"
      "unat (bm_heap_base (bm s1)) + nat (bm_heap_size (bm s1)) < 4294967296"
    using h1(1) by (simp_all add: bud_rep_def heap_wf_def)
  moreover note bb = blk_bounds(1,3) [OF h1(1), of i n]
  moreover have "fst (blk_region s1 (i, n)) \<noteq> NULL" using hw(1) bb(1) by (auto simp: blk_region_def)
  moreover have "unat (fst (blk_region s1 (i, n))) + snd (blk_region s1 (i, n)) < 4294967296"
    using hw(2) bb by (simp add: blk_region_def)
  ultimately show ?thesis using s0(3-5) s1(2,3) by (intro exI [of _ s1] exI [of _ "blk_region s1 (i, n)"]) auto
qed

text \<open>C5: the heap is memory: whatever is allocated, freed and written in between, a byte of a region
  that is not freed holds what was last written to it, and the region stays in use.\<close>

theorem heap_reads_back:
  assumes "heap_regions s R" and "heap.runs s R rs as s' R'"
    and "r \<in> R" "Put (fst r) \<notin> set rs" "inside (fst r) (snd r) x"
  shows "r \<in> R' \<and> km s' x = last_write rs x (km s x)"
  using heap.runs_reads [OF assms(2,1,3-5)] .

lemma heap_reads_back_witness:
  "\<exists>(s :: pool_state) R a b s' R'. heap.runs s R [Write a 7, Get 5000, Write b 9] [b] s' R' \<and> km s' a = 7"
proof -
  obtain s1 :: pool_state and r where s1: "heap_regions s1 {r}" "5000 \<le> snd r" "nord s1 = 10" "bm_ll (bm s1) = 2048"
    "bm_heap_size (bm s1) = 12574988"
    using one_region by blast
  define a where "a = fst r"
  have ia: "inside (fst r) (snd r) a" using s1(2) by (simp add: a_def inside_def)
  have R2: "heap_regions (heap_poke s1 a 7) {r}" by (rule heap.poke_rep [OF s1(1) _ ia]) simp
  have f2: "heap_fits (heap_poke s1 a 7) {r} 5000"
    using s1(3-5) by (intro boot_fits [where r = r]) (simp_all add: heap_poke_def nord_def)
  then obtain b m and s2 :: pool_state where s2: "yalloc (heap_poke s1 a 7) (int 5000) = Some (b, s2)" "5000 \<le> m" "(b, m) \<notin> {r}"
    "heap_regions s2 {(b, m), r}"
    using heap.alloc_rep [OF R2, of 5000] by blast
  have ib: "inside b m b" using s2(2) by (simp add: inside_def)
  have st: "heap.runs s1 {r} [Write a 7, Get 5000, Write b 9] [b] (heap_poke s2 b 9) {(b, m), r}"
    by (rule heap.runs.Write [of "fst r" "snd r"], simp, rule ia(1), rule heap.runs.Get [OF f2 s2], rule heap.runs.Write [of b m])
      (use ib in \<open>auto intro: heap.runs.Done\<close>)
  have "apart b m (fst r) (snd r)" using heap.rep_apart [OF s2(4), of "(b, m)" r] s2(3) by simp
  then have "b \<noteq> a" using ia(1) ib apart_inside by blast
  then have "km (heap_poke s2 b 9) a = 7"
    using heap_reads_back [OF s1(1) st _ _ ia(1)] by simp
  then show ?thesis using st by blast
qed

subsection \<open>Requests neither allocator serves\<close>

text \<open>Seven pools of one slot each, one after the other.\<close>

definition tiny_pool :: "nat \<Rightarrow> addr \<Rightarrow> pool" where
  "tiny_pool i a = \<lparr>po_base = a, po_head = a + of_nat (16 * 2 ^ i + 4), po_size = of_nat (16 * 2 ^ i + 4), po_frees = 0,
     po_chunk = of_nat (16 * 2 ^ i), po_ll = 0\<rparr>"

definition tiny_pools :: pool_state where
  "tiny_pools = boot_state\<lparr>pmm := (pmm boot_state)\<lparr>pm_num := 7, pm_llc := 16, pm_ulc := 1024\<rparr>,
     pools := [tiny_pool 0 0x2000000, tiny_pool 1 0x2000014, tiny_pool 2 0x2000038, tiny_pool 3 0x200007C,
       tiny_pool 4 0x2000100, tiny_pool 5 0x2000204, tiny_pool 6 0x2000408]\<rparr>"

lemma tiny_pools_full: "pool_rep tiny_pools (\<lambda>_. []) (\<lambda>_. 1)"
proof -
  have w: "pools_wf tiny_pools"
    by (simp add: pools_wf_def tiny_pools_def lt7 tiny_pool_def nslots_def slot_w_def boot_state_def bud_state.defs)
  have "pool_ok (km tiny_pools) (pools tiny_pools ! i) [] 1" if "i < 7" for i
    using that by (auto simp: pool_ok_def tiny_pools_def lt7 tiny_pool_def nslots_def slot_w_def slot_addr_def)
  then show ?thesis using w by (simp add: pool_rep_def)
qed

text \<open>a request between a kilobyte and a page fits no pool, and \<open>yalloc\<close>, which checks for
  \<open>NULL\<close> only, passes the pools' error code on as a pointer.\<close>

theorem yalloc_gap:
  assumes "pools_wf s" and "1024 < z" "z < 2048"
  shows "yalloc s (int z) = Some (to_u32 (-1), s) \<and> to_u32 (-1) \<noteq> NULL"
proof -
  have z: "0 < z" "z < 2147483648" "slot_ord z = None" using assms(2,3) by (simp_all add: slot_ord_None)
  have "pl_get_chunk s (int z) = -1" using pl_get_chunk_eq [OF assms(1) z(1,2)] z(3) by simp
  moreover have "to_int (int z) = int z" using z by (simp add: to_int_def to_u32_def)
  ultimately show ?thesis
    using assms(2,3) by (simp add: yalloc_def pl_alloc_def Let_def mm_get_pri_llc_def to_u32_def)
qed

lemma yalloc_gap_witness: "yalloc tiny_pools 1500 = Some (0xFFFFFFFF, tiny_pools)"
  using yalloc_gap [of tiny_pools 1500] tiny_pools_full by (simp add: pool_rep_def to_u32_def)

text \<open>A pool with no slot left hands out the first slot of the next pool, whether or not that is
  in use.\<close>

theorem pl_alloc_exhausted:
  assumes rep: "pool_rep s F T" and z: "0 < z" "slot_ord z = Some i" "i < 6"
    and full: "F i = []" "T i = nslots (pools s ! i)" and adj: "cell s (i, T i) = cell s (Suc i, 0)"
  shows "\<exists>s'. pl_alloc s (int z) = Some (fst (cell_region s (Suc i, 0)), s')"
proof -
  have wf: "pools_wf s" and ok: "pool_ok (km s) (pools s ! i) (F i) (T i)" and i: "i < 7"
    using rep z(3) by (simp_all add: pool_rep_def)
  have head: "po_head (pools s ! i) = cell s (Suc i, 0)" using ok full(1) adj by (simp add: pool_ok_def)
  have zb: "z < 2147483648" using slot_ord_None [of z] z(2) by (cases "1024 < z") auto
  have "(16 * 2 ^ i :: nat) < 2147483648"
    using power_increasing [of i 6 "2 :: nat"] z(3) by simp
  then have chunk: "pl_get_chunk s (int z) = int (16 * 2 ^ i)" "to_u32 (int (16 * 2 ^ i)) = of_nat (16 * 2 ^ i)"
    using pl_get_chunk_eq [OF wf z(1) zb] z(2) by (simp_all add: to_u32_def)
  show ?thesis
    using z(1) chunk pool_get_ord_eq [OF wf i] i pools_wfD(1) [OF wf i]
    by (simp add: pl_alloc_def Let_def head cell_region_def)
qed

lemma pl_alloc_exhausted_witness:
  "\<exists>s'. (1, 0) \<in> used_cells (\<lambda>_. []) (\<lambda>_. 1) \<and> pl_alloc tiny_pools 16 = Some (fst (cell_region tiny_pools (1, 0)), s')"
proof -
  have "slot_ord 16 = Some 0" by (simp add: slot_ord_def upt7)
  moreover have "1 = nslots (pools tiny_pools ! 0)" "cell tiny_pools (0, 1) = cell tiny_pools (Suc 0, 0)"
    by (simp_all add: tiny_pools_def tiny_pool_def nslots_def slot_w_def slot_addr_def)
  ultimately have "\<exists>s'. pl_alloc tiny_pools (int 16) = Some (fst (cell_region tiny_pools (Suc 0, 0)), s')"
    using pl_alloc_exhausted [OF tiny_pools_full, of 16 0] by simp
  then show ?thesis by (simp add: used_cells_def)
qed

text \<open>The pools are last-in first-out: after freeing a slot, the next request of its size class
  gets it back, and the free lists are as before.\<close>

theorem pool_lifo:
  assumes rep: "pool_rep s F T" and c: "(i, k) \<in> used_cells F T" and z: "0 < z" "slot_ord z = Some i"
  shows "\<exists>s'. pl_alloc (pl_free s (cell s (i, k) + 4)) (int z) = Some (cell s (i, k) + 4, s') \<and> pool_rep s' F T"
proof -
  let ?s = "pl_free s (cell s (i, k) + 4)"
  have f: "pool_rep ?s (F(i := k # F i)) T" "cell ?s = cell s" using pl_free_eq [OF rep c] by blast+
  have "(F(i := k # F i)) i \<noteq> [] \<or> T i < nslots (pools ?s ! i)" by simp
  from pl_alloc_eq [OF f(1) z this] obtain s' F' T' where
    s': "pl_alloc ?s (int z) = Some (cell ?s (i, hd ((F(i := k # F i)) i @ [T i])) + 4, s')" "pool_rep s' F' T'"
      "F' = F(i := k # F i, i := tl ((F(i := k # F i)) i))" "T' = (if (F(i := k # F i)) i = [] then T(i := Suc (T i)) else T)"
    by blast
  have "cell ?s (i, k) = cell s (i, k)" by (rule fun_cong [OF f(2)])
  then show ?thesis using s' by simp
qed

lemma pool_lifo_witness:
  "\<exists>s'. pl_alloc (pl_free tiny_pools (cell tiny_pools (2, 0) + 4)) 64 = Some (cell tiny_pools (2, 0) + 4, s')"
proof -
  have "slot_ord 64 = Some 2" by (simp add: slot_ord_def upt7)
  then show ?thesis using pool_lifo [OF tiny_pools_full, of 2 0 64] by (auto simp: used_cells_def)
qed

end
