(* ===== verification/Console_Props.thy ===== *)
theory Console_Props
  imports Console_Spec Heap_Props
begin

text \<open>What the console promises its callers, and where the screen buffer loses or overruns text.\<close>

lemma vga_write_append: "vga_write (xs @ ys) mv = do { mv \<leftarrow> vga_write xs mv; vga_write ys mv }"
proof (induction xs arbitrary: mv)
  case (Cons x xs)
  obtain m v where mv: "mv = (m, v)" by (cases mv)
  show ?case unfolding mv by (simp add: Let_def Cons)
qed simp

text \<open>A flush writes to the cells of the screen only.\<close>

lemma vt_put_frame:
  assumes k: "k < 2000" and x: "\<not> inside base 4000 x"
  shows "vt_put m base k c x = m x"
proof -
  have e: "base + of_nat (2 * k) + 1 = base + of_nat (Suc (2 * k))" by (simp only: of_nat_Suc) simp
  have "inside base 4000 (base + of_nat (2 * k))" "inside base 4000 (base + of_nat (Suc (2 * k)))"
    by (rule inside_add; use k in simp)+
  then have "x \<noteq> base + of_nat (2 * k)" "x \<noteq> base + of_nat (2 * k) + 1" using x unfolding e by blast+
  then show ?thesis unfolding vt_put_def st8_def by (simp only: fun_upd_other not_False_eq_True)
qed

lemma vt_flush_row_frame:
  "vt_flush_row m base buf i j = Some m' \<Longrightarrow> i < 25 \<Longrightarrow> j \<le> 80 \<Longrightarrow> \<not> inside base 4000 x \<Longrightarrow> m' x = m x"
proof (induction m base buf i j rule: vt_flush_row.induct)
  case (1 m base buf i j)
  show ?case
  proof (cases "vt_text (buf (80 * i + j)) \<noteq> 0 \<and> j < 80")
    case True
    let ?k = "80 * i + j"
    have k: "?k < 2000" using 1(3) True by simp
    have "vt_put m base ?k (buf ?k) x = m x" by (rule vt_put_frame [OF k 1(5)])
    moreover have n: "\<not> VT_CELLS \<le> ?k" using k by simp
    moreover have "vt_flush_row (vt_put m base ?k (buf ?k)) base buf i (j + 1) = Some m'"
      using 1(2) True n by (subst (asm) vt_flush_row.simps) simp
    ultimately show ?thesis using 1(1) [OF n True] 1(3,5) True by simp
  next
    case False
    then show ?thesis using 1(2) by (subst (asm) vt_flush_row.simps) (auto split: if_splits)
  qed
qed

text \<open>The text a format denotes is put together in the array, and the array is shown where the cursor is.\<close>

lemma vkprintf_text:
  assumes ok: "locals_ok l" and fmt: "cstr m fmt (fmt_of ps)" "fmt \<noteq> NULL" "length (fmt_of ps) < 2147483647"
      "\<forall>x. inside fmt (Suc (length (fmt_of ps))) x \<longrightarrow> \<not> local_at l x"
    and args: "pieces_ok l m str ps args" "\<forall>a. length (str a) < 256" and fits: "length (render str ps args) + 12 \<le> 256"
  obtains m1 f1 where "cbytes (fill m (l_buf l) 256 0) fmt = Some (fmt_of ps)"
    "vkprintf_loop l (fmt_of ps) False 0 args (fill m (l_buf l) 256 0) f = Some (m1, f1)" "pi_rep m1 (l_buf l) (render str ps args)"
    "\<forall>x. \<not> local_at l x \<longrightarrow> m1 x = m x"
proof -
  let ?m0 = "fill m (l_buf l) 256 0"
  have fr0: "\<forall>x. \<not> local_at l x \<longrightarrow> ?m0 x = m x" by (auto simp: fill_def local_at_def)
  have "cstr ?m0 fmt (fmt_of ps) = cstr m fmt (fmt_of ps)"
    by (rule cstr_cong) (use fr0 fmt(3,4) in \<open>simp_all\<close>)
  then have f0: "cstr ?m0 fmt (fmt_of ps)" using fmt(1) by simp
  then have cb: "cbytes ?m0 fmt = Some (fmt_of ps)"
    using strlen_cstr [OF f0 fmt(2,3)] by (simp add: cbytes_def cstr_def rd_Suc)
  obtain m1 f1 where "vkprintf_loop l (fmt_of ps) False 0 args ?m0 f = Some (m1, f1)" "pi_rep m1 (l_buf l) (render str ps args)"
    "\<forall>x. \<not> local_at l x \<longrightarrow> m1 x = ?m0 x"
    using vkprintf_loop_eq [OF ok args(2) pieces_ok_frame [OF args(1) fr0 args(2)] pi_rep_start, of f] fits by auto
  then show ?thesis using that cb fr0 by simp
qed

lemma kprintf_flush:
  fixes s :: "'a machine_scheme"
  assumes ok: "locals_ok l" and fmt: "cstr (km s) fmt (fmt_of ps)" "fmt \<noteq> NULL" "length (fmt_of ps) < 2147483647"
      "\<forall>x. inside fmt (Suc (length (fmt_of ps))) x \<longrightarrow> \<not> local_at l x"
    and args: "pieces_ok l (km s) str ps args" "\<forall>a. length (str a) < 256" and fits: "length (render str ps args) + 12 \<le> 256"
  obtains m1 f1 where "kprintf l s fmt args = vt_flush_with_buf (s\<lparr>km := m1, parse := f1\<rparr>) (l_buf l)"
    "l_buf l \<noteq> NULL" "cbytes m1 (l_buf l) = Some (render str ps args)" "0 \<notin> set (render str ps args)"
    "\<forall>x. \<not> local_at l x \<longrightarrow> m1 x = km s x"
proof -
  let ?out = "render str ps args" and ?b = "l_buf l"
  obtain m1 f1 where cb: "cbytes (fill (km s) ?b 256 0) fmt = Some (fmt_of ps)"
    and m1: "vkprintf_loop l (fmt_of ps) False 0 args (fill (km s) ?b 256 0) (parse s) = Some (m1, f1)" "pi_rep m1 ?b ?out"
      "\<forall>x. \<not> local_at l x \<longrightarrow> m1 x = km s x"
    by (rule vkprintf_text [OF ok fmt args fits])
  have b: "?b \<noteq> NULL" using ok by (simp add: locals_ok_def)
  have "cbytes m1 ?b = Some ?out"
    using pi_rep_cstr [OF m1(2)] strlen_cstr [OF pi_rep_cstr [OF m1(2)] b] fits by (simp add: cbytes_def cstr_def rd_Suc)
  moreover have "0 \<notin> set ?out" using m1(2) by (simp add: pi_rep_def)
  ultimately show ?thesis using that b m1(3) cb m1(1) pi_rep_len [OF m1(2) b] by (simp add: kprintf_def vkprintf_def)
qed

lemma flush_shows:
  fixes s :: "'a machine_scheme"
  assumes b: "b \<noteq> NULL" "cbytes m1 b = Some out" "0 \<notin> set out" and fits: "unat (curr_col (vga s)) + length out \<le> 80" "10 \<notin> set out"
    and cur: "vga_inited (vga s)" "unat (curr_row (vga s)) < 25" "pre_row (vga s) = curr_row (vga s)" "pre_col (vga s) = curr_col (vga s)"
  obtains m2 v2 where "vt_flush_with_buf (s\<lparr>km := m1, parse := f1\<rparr>) b = Some (s\<lparr>km := m2, parse := f1, vga := v2\<rparr>)"
    "\<forall>x<length out. m2 (vga_bp (vga s) + of_nat (2 * (80 * unat (curr_row (vga s)) + unat (curr_col (vga s)) + x))) = out ! x"
    "\<forall>x. \<not> inside (vga_bp (vga s)) 4000 x \<longrightarrow> m2 x = m1 x"
    "curr_row v2 = curr_row (vga s)" "unat (curr_col v2) = unat (curr_col (vga s)) + length out" "pre_row v2 = curr_row v2" "pre_col v2 = curr_col v2"
proof -
  let ?v = "vga s"
  have row: "unat (curr_row ?v) < 400" using cur(2) by simp
  from vga_write_fit [OF row fits, of m1] obtain v' where
    v': "vga_write out (m1, ?v) = Some (m1, v')" "curr_row v' = curr_row ?v" "unat (curr_col v') = unat (curr_col ?v) + length out"
      "pre_row v' = pre_row ?v" "pre_col v' = pre_col ?v" "vga_bp v' = vga_bp ?v" "vga_inited v' = vga_inited ?v"
      "\<And>x. x < length out \<Longrightarrow> vt_text (vga_buffer v' (80 * unat (curr_row ?v) + unat (curr_col ?v) + x)) = out ! x"
    by blast
  have j: "unat (curr_row ?v) < 399" "unat (curr_col ?v) \<le> 80" using cur(2) fits by simp_all
  from vt_flush_row_shows [OF j, of m1 "vga_bp ?v" "vga_buffer v'"] obtain m2 where
    m2: "vt_flush_row m1 (vga_bp ?v) (vga_buffer v') (unat (curr_row ?v)) (unat (curr_col ?v)) = Some m2"
    and sh: "\<And>n x. unat (curr_col ?v) + n \<le> 80 \<Longrightarrow>
        \<forall>x<n. vt_text (vga_buffer v' (80 * unat (curr_row ?v) + unat (curr_col ?v) + x)) \<noteq> 0 \<Longrightarrow> x < n \<Longrightarrow>
        shows_at m2 (vga_bp ?v) (80 * unat (curr_row ?v) + unat (curr_col ?v) + x)
          (vga_buffer v' (80 * unat (curr_row ?v) + unat (curr_col ?v) + x))"
    by blast
  have nz: "out ! x \<noteq> 0" if "x < length out" for x using b(3) nth_mem [OF that] by metis
  have rows: "vt_flush_rows m1 (vga_bp ?v) (vga_buffer v') (unat (curr_row ?v)) (unat (curr_row ?v) + 1) (unat (curr_col ?v)) = Some m2"
    using m2 by (simp add: vt_flush_rows.simps)
  define v2 where "v2 = v'\<lparr>pre_row := curr_row v', pre_col := curr_col v'\<rparr>"
  have run: "vt_flush_with_buf (s\<lparr>km := m1, parse := f1\<rparr>) b = Some (s\<lparr>km := m2, parse := f1, vga := v2\<rparr>)"
    using b cur v' rows by (simp add: vt_flush_with_buf_def vga_text_write_raw_def vt_flush_raw_def Let_def v2_def)
  have "m2 (vga_bp ?v + of_nat (2 * (80 * unat (curr_row ?v) + unat (curr_col ?v) + x))) = out ! x" if "x < length out" for x
    using sh [of "length out" x] fits v'(8) nz that by (simp add: shows_at_def)
  moreover have "m2 x = m1 x" if "\<not> inside (vga_bp ?v) 4000 x" for x by (rule vt_flush_row_frame [OF m2 cur(2) j(2) that])
  ultimately show ?thesis using that [OF run] v' by (simp add: v2_def)
qed


text \<open>The start of the machine: no device accessed, the screen set up by \<open>vga_text_init\<close>.\<close>

definition machine0 :: machine where
  "machine0 = pool_state.extend boot_state
     \<lparr>trace = [], vm = \<lparr>vmm_base = 0xC0000000, vmm_inited = True\<rparr>,
      vga = \<lparr>vga_bp = 0, vga_cp = 0, vga_buffer = \<lambda>_. \<lparr>vt_text = 0, vt_attr = 0\<rparr>, curr_row = 0, curr_col = 0, pre_row = 0,
        pre_col = 0, vga_inited = False\<rparr>, parse = None,
      idt_tbl = replicate 256 \<lparr>loffset = 0, selector = 0, rsvd = 0, idt_attr = 0, hoffset = 0\<rparr>,
      idtr = \<lparr>idtr_limit = 0, idtr_base = 0\<rparr>, pit = \<lparr>tps = 0, pit_inited = False\<rparr>, time_ticks = 0\<rparr>"


text \<open>The character behind a full row is lost: the row's end moves the cursor to the next row and
  skips the character that did not fit.\<close>

theorem vga_row_end:
  assumes row: "unat (curr_row v) < 399" and cs: "unat (curr_col v) + length cs = 80" "10 \<notin> set cs"
  shows "\<exists>v'. vga_write (cs @ [c]) (m, v) = Some (m, v') \<and> unat (curr_row v') = unat (curr_row v) + 1 \<and> curr_col v' = 0
    \<and> (\<forall>k\<ge>80 * (unat (curr_row v) + 1). vga_buffer v' k = vga_buffer v k)"
proof -
  have "unat (curr_row v) < 400" "unat (curr_col v) + length cs \<le> 80" using row cs by simp_all
  from vga_write_fit [OF this cs(2), of m] obtain v1 where
    v1: "vga_write cs (m, v) = Some (m, v1)" "curr_row v1 = curr_row v" "unat (curr_col v1) = 80"
      "\<And>k. \<not> (80 * unat (curr_row v) + unat (curr_col v) \<le> k \<and> k < 80 * unat (curr_row v) + unat (curr_col v) + length cs)
        \<Longrightarrow> vga_buffer v1 k = vga_buffer v k"
    using cs(1) by auto
  have "unat (curr_row v + 1) = unat (curr_row v) + 1" using row by (simp add: unat_word_ariths)
  moreover have "vga_buffer v1 k = vga_buffer v k" if "80 * (unat (curr_row v) + 1) \<le> k" for k
    using v1(4) [of k] that cs(1) by simp
  ultimately show ?thesis
    using row v1 by (intro exI [of _ "vt_new_line_raw v1"]) (simp add: vga_write_append Let_def vt_new_line_raw_def)
qed

lemma vga_row_end_witness:
  "\<exists>v'. vga_write (replicate 80 65 @ [66]) (km machine0, vga machine0) = Some (km machine0, v') \<and> curr_col v' = 0"
proof -
  have "unat (curr_row (vga machine0)) < 399" "unat (curr_col (vga machine0)) + length (replicate 80 (65 :: u8)) = 80"
    "10 \<notin> set (replicate 80 (65 :: u8))" by (simp_all add: machine0_def pool_state.defs)
  from vga_row_end [OF this] show ?thesis by blast
qed

lemma line_feeds:
  "unat (curr_row v) + n \<le> 400 \<Longrightarrow> \<exists>v'. vga_write (replicate n 10) (m, v) = Some (m, v') \<and> unat (curr_row v') = unat (curr_row v) + n
    \<and> (0 < n \<longrightarrow> curr_col v' = 0)"
proof (induction n arbitrary: v)
  case (Suc n)
  have r: "unat (curr_row v + 1) = unat (curr_row v) + 1" using Suc.prems by (simp add: unat_word_ariths)
  then have "unat (curr_row (vt_new_line_raw v)) + n \<le> 400" using Suc.prems by (simp add: vt_new_line_raw_def)
  from Suc.IH [OF this] show ?case
    using Suc.prems r by (cases n) (auto simp: Let_def vt_new_line_raw_def)
qed simp

text \<open>the screen buffer is never reused: after 400 line feeds the next character is written behind
  it, the check that draws a warning notwithstanding.\<close>

theorem vga_overflow:
  assumes "curr_row v = 0" "c \<noteq> 10"
  shows "vga_write (replicate 400 10) (m, v) \<noteq> None \<and> vga_write (replicate 400 10 @ [c]) (m, v) = None"
proof -
  obtain v' where "vga_write (replicate 400 10) (m, v) = Some (m, v')" "unat (curr_row v') = 400" "curr_col v' = 0"
    using line_feeds [of v 400 m] assms(1) by auto
  then show ?thesis using assms(2) by (simp only: vga_write_append bind.simps) (simp add: Let_def)
qed

lemma vga_overflow_witness: "vga_write (replicate 400 10 @ [65]) (km machine0, vga machine0) = None"
  using vga_overflow [of "vga machine0" 65 "km machine0"] by (simp add: machine0_def pool_state.defs)

end
