(* ===== verification/Sched_Props.thy ===== *)
theory Sched_Props
  imports Threads Console_Props
begin

text \<open>
  Properties of the scheduler and of process creation, derived from the refinement of \<open>Threads\<close>:
  the order of dispatches, what a process finds when it goes on, the context of a new process, and
  what becomes of a process that exits.
\<close>

subsection \<open>Runs of the machine of threads\<close>

fun dispatches :: "act list \<Rightarrow> nat list" where
  "dispatches [] = []"
| "dispatches (Dispatch i c # ls) = i # dispatches ls"
| "dispatches (Work i # ls) = dispatches ls"
| "dispatches (Yield i c # ls) = dispatches ls"

lemma dispatches_append: "dispatches (ks @ ls) = dispatches ks @ dispatches ls"
  by (induction ks rule: dispatches.induct) simp_all

lemma steps_append: "steps R a (ks @ ls) c \<Longrightarrow> \<exists>b. steps R a ks b \<and> steps R b ls c"
proof (induction ks arbitrary: a)
  case Nil
  then show ?case by (auto intro: steps.intros)
next
  case (Cons k ks)
  then obtain a' where "R a k a'" "steps R a' (ks @ ls) c" by (auto elim: steps_elims)
  with Cons.IH show ?case by (blast intro: steps.intros)
qed

lemma refines_steps:
  "steps (kstep rs) k ls k' \<Longrightarrow> refines b k a \<Longrightarrow> \<exists>a'. steps tstep a ls a' \<and> refines b k' a'"
proof (induction arbitrary: a rule: steps.induct)
  case (done_ k)
  then show ?case by (blast intro: steps.intros)
next
  case (step_ k l k1 ls k2)
  then show ?case by (meson kstep_refines steps.step_)
qed

definition order :: "threads \<Rightarrow> nat list" where
  "order a = tq a @ (case running a of None \<Rightarrow> [] | Some i \<Rightarrow> [i])"

lemma tstep_order: "tstep a l a' \<Longrightarrow> order a' = rotate (length (dispatches [l])) (order a)
    \<and> (\<forall>i\<in>set (dispatches [l]). i = hd (order a) \<and> order a \<noteq> [])"
  by (induction rule: tstep.induct) (simp_all add: order_def)

lemma dispatch_order:
  "steps tstep a ls a' \<Longrightarrow> order a' = rotate (length (dispatches ls)) (order a)
    \<and> dispatches ls = map (\<lambda>k. order a ! (k mod length (order a))) [0..<length (dispatches ls)]"
proof (induction rule: steps.induct)
  case (done_ a)
  then show ?case by simp
next
  case (step_ a l b ls c)
  note o = tstep_order [OF step_.hyps(1)]
  show ?case
  proof (cases "dispatches [l]")
    case Nil
    then have "dispatches (l # ls) = dispatches ls" by (cases l) auto
    then show ?thesis using step_.IH o Nil by simp
  next
    case (Cons i js)
    then have d: "dispatches (l # ls) = i # dispatches ls" "length (dispatches [l]) = 1" by (cases l; auto)+
    let ?n = "length (order a)" and ?m = "length (dispatches ls)"
    have i: "i = hd (order a)" "order a \<noteq> []" and b: "order b = rotate 1 (order a)"
      using o Cons d by auto
    have nth: "order b ! (k mod ?n) = order a ! (Suc k mod ?n)" for k
      using i(2) by (simp add: b nth_rotate1 mod_Suc_eq)
    have "dispatches ls = map (\<lambda>k. order a ! (Suc k mod ?n)) [0..<?m]"
      using step_.IH nth b by simp
    then have "i # dispatches ls = map (\<lambda>k. order a ! (k mod ?n)) [0..<Suc ?m]"
      using i by (simp add: hd_conv_nth upt_conv_Cons map_Suc_upt [symmetric] o_def del: upt_Suc)
    then show ?thesis using step_.IH b d by (simp add: rotate1_rotate_swap del: upt_Suc)
  qed
qed

lemma not_dispatched:
  "steps tstep a ls a' \<Longrightarrow> i \<notin> set (dispatches ls) \<Longrightarrow> running a \<noteq> Some i \<Longrightarrow>
     running a' \<noteq> Some i \<and> ctx a' i = ctx a i"
proof (induction rule: steps.induct)
  case (done_ a)
  then show ?case by simp
next
  case (step_ a l b ls c)
  have "i \<notin> set (dispatches ls) \<and> running b \<noteq> Some i \<and> ctx b i = ctx a i"
    using step_.hyps(1) step_.prems by (cases rule: tstep.cases) auto
  then show ?case using step_.IH by simp
qed


subsection \<open>A new process\<close>

lemma proc_find_free:
  "i \<le> 128 \<Longrightarrow> find_free m tbl i = j \<Longrightarrow> i \<le> j \<and> j \<le> 128 \<and> (\<forall>k. i \<le> k \<longrightarrow> k < j \<longrightarrow> p_state m (tbl + of_nat (28 * k)) \<noteq> 0)
     \<and> (j < 128 \<longrightarrow> p_state m (tbl + of_nat (28 * j)) = 0)"
proof (induction m tbl i rule: find_free.induct)
  case (1 m tbl i)
  show ?case
  proof (cases "i < 128 \<and> p_state m (tbl + of_nat (28 * i)) \<noteq> 0")
    case True
    then have "find_free m tbl (i + 1) = j" using "1.prems" by (simp add: find_free.simps [of m tbl i])
    then have ih: "i + 1 \<le> j" "j \<le> 128" "\<And>k. i + 1 \<le> k \<Longrightarrow> k < j \<Longrightarrow> p_state m (tbl + of_nat (28 * k)) \<noteq> 0"
      "j < 128 \<Longrightarrow> p_state m (tbl + of_nat (28 * j)) = 0"
      using "1.IH" True by auto
    have "p_state m (tbl + of_nat (28 * k)) \<noteq> 0" if "i \<le> k" "k < j" for k
      using ih(3) [of k] True that by (cases "k = i") auto
    with ih show ?thesis by auto
  next
    case False
    then have "j = i" using "1.prems" by (auto simp: find_free.simps [of m tbl i] split: if_splits)
    then show ?thesis using False "1.prems" by auto
  qed
qed

definition fresh_ctx :: "'a sched_state_scheme \<Rightarrow> nat \<Rightarrow> u32 \<Rightarrow> cpu_regs" where
  "fresh_ctx s i entry = \<lparr>edi = 0, esi = 0, ebx = 0, ebp = 0, esp = pstk s i + 1968, eip = entry\<rparr>"

text \<open>The stores of \<open>proc_create\<close> before the process is put on the ready list.\<close>

definition proc_setup :: "u32 \<Rightarrow> u32 \<Rightarrow> mem \<Rightarrow> addr \<Rightarrow> addr \<Rightarrow> mem" where
  "proc_setup pid entry m proc stack =
     (let m = set_state m proc PROC_READY; m = st32 m (proc + 8) stack; m = st32 m proc pid;
          m = st32 m (proc + 12) (stack + 1968); m = st32 m (proc + 16) (stack + 1948);
          m = fill m (stack + 1948) 20 0
      in st32 m (stack + 1964) entry)"

lemma proc_create_eq:
  assumes "proc_inited (pmgr s)" "find_free (km s) (proc_table (pmgr s)) 0 = i" "i < 128"
  shows "proc_create utk s entry_point = (pcb s i, sched_add_ready
    (s\<lparr>km := proc_setup (next_pid (pmgr s)) (if entry_point \<noteq> NULL then entry_point else utk) (km s) (pcb s i) (pstk s i),
       pmgr := (pmgr s)\<lparr>next_pid := next_pid (pmgr s) + 1\<rparr>\<rparr>) (pcb s i))"
  using assms by (simp add: proc_create_def proc_setup_def Let_def pcb_def pstk_def mult.commute algebra_simps)

lemma proc_setup_other:
  assumes "\<not> inside p 20 x" "\<not> inside (k + 1948) 20 x"
  shows "proc_setup pid e m p k x = m x"
proof -
  have a: "\<not> inside (p + of_nat d) n x" if "d + n \<le> 20" for d n
    using assms(1) inside_offset [of p d n x 20] that by auto
  have e: "k + 1964 = (k + 1948) + of_nat 16" by simp
  have b: "\<not> inside (k + 1964) 4 x" using assms(2) inside_sub [OF _ e, of 4 x 20] by auto
  show ?thesis using a [of 4 1] a [of 8 4] a [of 0 4] a [of 12 4] a [of 16 4] b assms(2)
    by (simp add: proc_setup_def Let_def st32_other set_state_other fill_def inside_def)
qed


lemma ld32_fill_zero:
  assumes "d + 4 \<le> n" "n \<le> 2 ^ 32"
  shows "ld32 (fill m a n 0) (a + of_nat d) = 0"
proof -
  have "inside a n (a + of_nat d + of_nat j)" if "j < 4" for j
    using assms that inside_add [of n "d + j" a] by (simp add: add.assoc)
  from this [of 0] this [of 1] this [of 2] this [of 3] show ?thesis
    by (simp add: ld32_def fill_def inside_def)
qed

lemma proc_setup_effect:
  assumes ap: "apart p 20 (k + 1948) 20"
    and m': "m' = proc_setup pid e m p k"
  shows "p_state m' p = PROC_READY" "p_pc m' p = k + 1948" "ld32 m' p = pid"
    "load_ctx m' (k + 1948) = \<lparr>edi = 0, esi = 0, ebx = 0, ebp = 0, esp = k + 1968, eip = e\<rparr>"
proof -
  have fs: "apart (p + of_nat d) n (p + of_nat d') n'" if "d + n \<le> d' \<or> d' + n' \<le> d" "d + n \<le> 20" "d' + n' \<le> 20" "0 < n" "0 < n'"
    for d n d' n'
    using apart_offsets [of d n d' n' p] apart_offsets [of d' n' d n p] that by (auto simp: apart_sym)
  have fk: "apart (p + of_nat d) n (k + 1948) 20" "apart (p + of_nat d) n (k + 1964) 4"
    if "d + n \<le> 20" "0 < n" for d n
    using apart_sub [OF ap, of d n 0 20] apart_sub [OF ap, of d n 16 4] that by (simp_all add: add.commute)
  have ldf: "ld32 (fill m (k + 1948) 20 0) (p + of_nat d) = ld32 m (p + of_nat d)" if "d + 4 \<le> 20" for d m
    using fk(1) [of d 4] that by (intro ld32_cong) (auto simp: fill_def inside_def dest: apart_inside)
  have z: "ld32 (fill m (k + 1948) 20 0) (k + 1948 + of_nat d) = 0" if "d + 4 \<le> 20" for d m
    using ld32_fill_zero that by simp
  have ks: "apart (k + 1948 + of_nat d) 4 (k + 1964) 4" if "d + 4 \<le> 16" for d
    using apart_offsets [of d 4 16 4 "k + 1948"] that by (simp add: add.commute)
  show "p_pc m' p = k + 1948"
    using ldf [of 16] fk(2) [of 16 4]
    by (simp add: m' proc_setup_def Let_def p_pc_def ld32_st32_apart)
  show "ld32 m' p = pid"
    using ldf [of 0] fk(2) [of 0 4] fs [of 0 4 12 4] fs [of 0 4 16 4]
    by (simp add: m' proc_setup_def Let_def ld32_st32_apart)
  have st: "st32 m a v (p + 4) = m (p + 4)" if "apart (p + 4) 1 a 4" for m a v
    using st32_eq_apart [OF that] .
  have "inside (p + 4) 1 (p + 4)" by (simp add: inside_def)
  then have "\<not> inside (k + 1948) 20 (p + 4)" using fk(1) [of 4 1] apart_inside [of "p + 4" 1] by auto
  then show "p_state m' p = PROC_READY"
    using fk(2) [of 4 1] fs [of 4 1 0 4] fs [of 4 1 8 4] fs [of 4 1 12 4] fs [of 4 1 16 4]
    by (simp add: m' proc_setup_def Let_def p_state_def st fill_def inside_def)
      (simp add: set_state_def st8_def)
  show "load_ctx m' (k + 1948) = \<lparr>edi = 0, esi = 0, ebx = 0, ebp = 0, esp = k + 1968, eip = e\<rparr>"
    using z [of 0] z [of 4] z [of 8] z [of 12] ks [of 0] ks [of 4] ks [of 8] ks [of 12]
    by (simp add: m' proc_setup_def Let_def load_ctx_def ld32_st32_apart add.commute [of k])
qed

lemma base_cong:
  assumes p: "same_place s s'" and r: "readys (sc s') = readys (sc s)" and b: "base b s a"
    and q: "\<And>x. qzone s (tq a) x \<Longrightarrow> km s' x = km s x"
    and o: "\<And>i x. i \<in> set (tq a) \<Longrightarrow> own s i x \<Longrightarrow> km s' x = km s x"
  shows "base b s' a"
proof -
  have "queue s' (tq a)" using queue_cong [OF p r, of "tq a"] b q by (simp add: base_def qzone_def)
  moreover have "waiting s' i (ctx a i)" if "i \<in> set (tq a)" for i
    using waiting_cong [OF p, of i "ctx a i"] o that b by (auto simp: base_def)
  ultimately show ?thesis using b p same_place_pcb [OF p] by (simp add: base_def same_place_def)
qed

text \<open>A process that is put on the ready list with its context saved in its own stack.\<close>

lemma base_add_ready:
  assumes b: "base b s a" and i: "i < 128" "i \<notin> set (tq a)" and w: "waiting s i K"
  defines "s' \<equiv> sched_add_ready_raw s (pcb s i)"
  shows "base b s' (a\<lparr>tq := tq a @ [i], ctx := (ctx a)(i := K)\<rparr>)"
proof -
  have l: "layout s b" and q: "queue s (tq a)" using b by (simp_all add: base_def)
  have qs: "set (tq a) \<subseteq> {..<128}" "set (tq a @ [i]) \<subseteq> {..<128}" using q i by (auto simp: queue_def)
  note A = add_ready_queue [OF l q i, folded s'_def]
  have "waiting s' j K'" if "waiting s j K'" "j < 128" for j K'
    using waiting_cong [OF A(2), of j K'] A(3) own_apart(1) [OF l that(2) _ qs(2)] that(1) by blast
  then show ?thesis using A(1,2) b w i qs same_place_pcb [OF A(2)]
    by (auto simp: base_def same_place_def)
qed


text \<open>What \<open>proc_create\<close> writes is apart from the queue and from what other processes own.\<close>

lemma setup_apart:
  assumes l: "layout s b" and i: "i < 128"
  shows "qzone s q x \<Longrightarrow> set q \<subseteq> {..<128} \<Longrightarrow> \<not> inside (pcb s i) 20 x \<and> \<not> inside (pstk s i + 1948) 20 x"
    and "j < 128 \<Longrightarrow> j \<noteq> i \<Longrightarrow> own s j x \<Longrightarrow> \<not> inside (pcb s i) 20 x \<and> \<not> inside (pstk s i + 1948) 20 x"
    and "apart (pcb s i) 20 (pstk s i + 1948) 20"
proof -
  have T: "inside (proc_table (pmgr s)) 3584 x" if "inside (pcb s i) 20 x" for x
    using pcb_inside [OF i, of s 0 20 x] that by simp
  have S: "inside (pstk s i) 2048 x" "inside (proc_stack (pmgr s)) 262144 x" if "inside (pstk s i + 1948) 20 x" for x
    using inside_offset [of "pstk s i" 1948 20 x 2048] stk_inside [OF i, of s 1948 20 x] that by simp_all
  show "\<not> inside (pcb s i) 20 x \<and> \<not> inside (pstk s i + 1948) 20 x" if "qzone s q x" "set q \<subseteq> {..<128}"
  proof
    show "\<not> inside (pcb s i) 20 x"
      using that
    proof (cases rule: zone_cases)
      case 1
      then show ?thesis using T l by (auto simp: layout_def dest: apart_inside)
    next
      case (2 j)
      then show ?thesis using pcb_fields [OF i 2(2), of s 0 20 x 20 8] by auto
    qed
    show "\<not> inside (pstk s i + 1948) 20 x" using zone_apart(4) [OF l that(2,1) i] S(1) by (auto simp: own_def)
  qed
  show "\<not> inside (pcb s i) 20 x \<and> \<not> inside (pstk s i + 1948) 20 x" if j: "j < 128" "j \<noteq> i" "own s j x"
  proof
    show "\<not> inside (pcb s i) 20 x"
    proof
      assume a: "inside (pcb s i) 20 x"
      have "\<not> inside (pcb s j + 16) 4 x" using pcb_fields [OF i j(1), of s 0 20 x 16 4] a j(2) by simp
      then have "inside (pstk s j) 2048 x" using j(3) by (simp add: own_def)
      then have "inside (proc_stack (pmgr s)) 262144 x" using stk_inside [OF j(1), of s 0 2048 x] by simp
      then show False using T [OF a] l by (auto simp: layout_def dest: apart_inside)
    qed
    show "\<not> inside (pstk s i + 1948) 20 x" using own_apart(5) [OF l j(1,3) i] j(2) S(1) by (auto simp: own_def)
  qed
  show "apart (pcb s i) 20 (pstk s i + 1948) 20"
  proof (rule inside_apartI)
    show "\<not> inside (pstk s i + 1948) 20 x" if "inside (pcb s i) 20 x" for x
      using T [OF that] S(2) [of x] l by (auto simp: layout_def dest: apart_inside)
  qed simp_all
qed

text \<open>The state after those writes: the queue is as it was, and the new process has its context.\<close>

lemma create_setup:
  assumes b: "base b s a" and i: "i < 128" "i \<notin> set (tq a)"
    and s1_def: "s1 = s\<lparr>km := proc_setup pid e (km s) (pcb s i) (pstk s i),
      pmgr := (pmgr s)\<lparr>next_pid := pid'\<rparr>\<rparr>"
  shows "base b s1 a" and "waiting s1 i (fresh_ctx s i e)"
    and "pcb s1 = pcb s" "pstk s1 = pstk s" "qzone s1 = qzone s" "layout s1 b = layout s b" "sc s1 = sc s"
proof -
  have l: "layout s b" and q: "queue s (tq a)" using b by (simp_all add: base_def)
  have qs: "set (tq a) \<subseteq> {..<128}" using q by (auto simp: queue_def)
  have pl0: "pcb s1 = pcb s" "pstk s1 = pstk s" "ready_list (sc s1) = ready_list (sc s)" "layout s1 b = layout s b"
    by (simp_all add: fun_eq_iff s1_def pcb_def pstk_def layout_def)
  then have pn: "pnode s1 = pnode s" by (simp add: fun_eq_iff pnode_def)
  show pl: "pcb s1 = pcb s" "pstk s1 = pstk s" "qzone s1 = qzone s" "layout s1 b = layout s b" "sc s1 = sc s"
    using pl0 pn by (simp_all add: s1_def) (rule ext, rule ext, simp add: qzone_def)
  note ap = setup_apart [OF l i(1)]
  have "dlist (km s1) (ready_list (sc s)) (map (pnode s) (tq a))"
    using q dlist_cong [of "ready_list (sc s)" "map (pnode s) (tq a)" "km s1" "km s"] ap(1) [OF _ qs]
    by (simp add: queue_def s1_def proc_setup_other qzone_def)
  then have "queue s1 (tq a)" using q pl pn by (simp add: queue_def)
  moreover have "waiting s1 j (ctx a j)" if j: "j \<in> set (tq a)" for j
  proof -
    have jj: "j < 128" "j \<noteq> i" using j qs i by auto
    define s0 where "s0 = s\<lparr>km := km s1\<rparr>"
    have "same_place s s0" by (simp add: s0_def same_place_def)
    moreover have "km s0 x = km s x" if "own s j x" for x
      using ap(2) [OF jj that] by (simp add: s0_def s1_def proc_setup_other)
    ultimately have "waiting s0 j (ctx a j)" using waiting_cong [of s s0 j "ctx a j"] b j by (simp add: base_def)
    then show ?thesis using pl by (simp add: waiting_def s0_def pcb_def pstk_def)
  qed
  ultimately show "base b s1 a" using b pl by (simp add: base_def)
  note E = proc_setup_effect [OF ap(3) refl, of pid e "km s"]
  show "waiting s1 i (fresh_ctx s i e)"
    using E(2,4) pl by (auto simp: waiting_def s1_def fresh_ctx_def pcb_def pstk_def intro!: exI [of _ 1948])
qed

lemma create_base:
  assumes b: "base b s a" and i: "i < 128" "i \<notin> set (tq a)"
    and s1_def: "s1 = s\<lparr>km := proc_setup pid e (km s) (pcb s i) (pstk s i),
      pmgr := (pmgr s)\<lparr>next_pid := pid'\<rparr>\<rparr>"
    and s2_def: "s2 = sched_add_ready_raw s1 (pcb s i)"
  shows "base b s2 (a\<lparr>tq := tq a @ [i], ctx := (ctx a)(i := fresh_ctx s i e)\<rparr>)"
    and "p_state (km s2) (pcb s i) = PROC_READY" and "ld32 (km s2) (pcb s i) = pid"
    and "\<And>x. \<not> inside (pcb s i) 20 x \<Longrightarrow> \<not> inside (pstk s i + 1948) 20 x \<Longrightarrow> \<not> qzone s (tq a @ [i]) x \<Longrightarrow> km s2 x = km s x"
proof -
  have l: "layout s b" and q: "queue s (tq a)" using b by (simp_all add: base_def)
  have qs: "set (tq a @ [i]) \<subseteq> {..<128}" using q i by (auto simp: queue_def)
  note S = create_setup [OF b i s1_def]
  show "base b s2 (a\<lparr>tq := tq a @ [i], ctx := (ctx a)(i := fresh_ctx s i e)\<rparr>)"
    using base_add_ready [OF S(1) i S(2)] S(3) by (simp add: s2_def)
  have q1: "queue s1 (tq a)" and l1: "layout s1 b" using S(1) by (simp_all add: base_def)
  note f = add_ready_queue(3) [OF l1 q1 i, unfolded S(3,5) s2_def [symmetric]]
  show "km s2 x = km s x" if "\<not> inside (pcb s i) 20 x" "\<not> inside (pstk s i + 1948) 20 x" "\<not> qzone s (tq a @ [i]) x" for x
    using f [OF that(3)] that(1,2) by (simp add: s1_def proc_setup_other)
  note E = proc_setup_effect [OF setup_apart(3) [OF l i(1)] refl, of pid e "km s"]
  have k: "km s2 x = km s1 x" if "inside (pcb s i) 20 x" for x
    using f [of x] setup_apart(1) [OF l i(1) _ qs, of x] that by auto
  show "ld32 (km s2) (pcb s i) = pid"
    using E(3) k ld32_cong [of "pcb s i" "km s2" "km s1"] inside_mono [of "pcb s i" 4 _ 20] by (simp add: s1_def)
  show "p_state (km s2) (pcb s i) = PROC_READY"
    using E(1) k [of "pcb s i + 4"] by (simp add: p_state_def inside_def s1_def)
qed

text \<open>The other entries of the table keep their states.\<close>

lemma create_states:
  assumes l: "layout s b" and i: "i < 128" and j: "j < 128" "j \<noteq> i" and q: "set q \<subseteq> {..<128}"
    and keep: "\<And>x. \<not> inside (pcb s i) 20 x \<Longrightarrow> \<not> inside (pstk s i + 1948) 20 x \<Longrightarrow> \<not> qzone s q x \<Longrightarrow> m x = km s x"
  shows "p_state m (pcb s j) = p_state (km s) (pcb s j)"
proof -
  have x: "inside (pcb s j + 4) 1 (pcb s j + 4)" by (simp add: inside_def)
  then have "\<not> inside (pcb s i) 20 (pcb s j + 4)" using pcb_fields [OF j(1) i, of s 4 1 _ 0 20] j(2) by simp
  moreover have "\<not> inside (pstk s i + 1948) 20 (pcb s j + 4)"
    using pcb_table(1) [OF j(1) x] stk_inside [OF i, of s 1948 20 "pcb s j + 4"] l
    by (auto simp: layout_def dest: apart_inside)
  moreover have "\<not> qzone s q (pcb s j + 4)" using zone_apart(3) [OF l q _ j(1)] x by blast
  ultimately show ?thesis using keep by (simp add: p_state_def)
qed


subsection \<open>A run that exists\<close>

lemma can_dispatch:
  assumes r: "refines b (In_sched, c, s) a" and q: "tq a = i # q"
  shows "\<exists>c' s'. kstep rs (In_sched, c, s) (Dispatch i c') (In_proc, c', s')"
proof -
  have l: "layout s b" and qu: "queue s (i # q)" and e: "esp c = b + 28" using r q by (simp_all add: base_def)
  then have i: "i < 128" by (simp add: queue_def)
  obtain c' s' where "sched_pass rs c s = (Switched, c', s')" "cur_proc (sc s') = pcb s i"
    using sched_pass_dispatch [OF l qu e, of rs] by blast
  then show ?thesis using k_dispatch [OF _ i] by blast
qed

lemma can_yield:
  assumes r: "refines b (In_proc, c, s) a" and i: "running a = Some i"
  shows "\<exists>c1 c' s'. steps (kstep rs) (In_proc, c, s) [Work i, Yield i c1] (In_sched, c', s')"
proof -
  have i: "i < 128" "cur_proc (sc s) = pcb s i" using r i by auto
  let ?c = "c\<lparr>esp := pstk s i + of_nat 2048\<rparr>"
  obtain c' s' where y: "sched_yield 0 ?c s = (c', s')" by fastforce
  have "kstep rs (In_proc, c, s) (Work i) (In_proc, ?c, s)"
    by (rule k_work) (use i in auto)
  moreover have "kstep rs (In_proc, ?c, s) (Yield i (?c\<lparr>esp := esp ?c - 8, eip := 0\<rparr>))
      (In_sched, c'\<lparr>esp := esp c' + 8\<rparr>, s')"
    by (rule k_yield [OF i y, where d = 2048]) simp_all
  ultimately show ?thesis by (auto intro!: exI step_ done_ simp del: cpu_regs.update_convs)
qed

lemma turn:
  assumes r: "refines b (In_sched, c, s) a" and q: "tq a = i # q"
  shows "\<exists>c0 c1 c' s' a'. steps (kstep rs) (In_sched, c, s) [Dispatch i c0, Work i, Yield i c1] (In_sched, c', s')
     \<and> refines b (In_sched, c', s') a' \<and> tq a' = q @ [i]"
proof -
  obtain c0 s0 where d: "kstep rs (In_sched, c, s) (Dispatch i c0) (In_proc, c0, s0)"
    using can_dispatch [OF r q] by blast
  obtain a0 where a0: "tstep a (Dispatch i c0) a0" "refines b (In_proc, c0, s0) a0"
    using kstep_refines [OF d r] by blast
  then have t0: "tq a0 = q" "running a0 = Some i" using q by (auto elim: tstep_elims)
  obtain c1 c' s' where y: "steps (kstep rs) (In_proc, c0, s0) [Work i, Yield i c1] (In_sched, c', s')"
    using can_yield [OF a0(2) t0(2)] by blast
  obtain a' where a': "steps tstep a0 [Work i, Yield i c1] a'" "refines b (In_sched, c', s') a'"
    using refines_steps [OF y a0(2)] by blast
  then have "tq a' = q @ [i]" using t0 by (auto elim!: steps_elims tstep_elims)
  then show ?thesis using step_ [OF d y] a'(2) by blast
qed

text \<open>What a run from the scheduler's loop looks like: who is dispatched, and that it can go on.\<close>

lemma run_dispatches:
  assumes r: "refines b (In_sched, c, s) a" and st: "steps (kstep rs) (In_sched, c, s) ls k'"
  shows "dispatches ls = map (\<lambda>k. tq a ! (k mod length (tq a))) [0..<length (dispatches ls)]"
proof -
  obtain a' where "steps tstep a ls a'" using refines_steps [OF st r] by blast
  moreover have "order a = tq a" using r by (simp add: order_def)
  ultimately show ?thesis using dispatch_order [of a ls a'] by simp
qed

lemma run_progress:
  assumes r: "refines b (In_sched, c, s) a" and st: "steps (kstep rs) (In_sched, c, s) ls k'"
    and fk: "fst k' = In_sched" and ne: "tq a \<noteq> []"
  shows "\<exists>l k2. kstep rs k' l k2"
proof -
  obtain a' where a': "steps tstep a ls a'" "refines b k' a'" using refines_steps [OF st r] by blast
  obtain ct c1 s1 where k1: "k' = (ct, c1, s1)" by (cases k')
  have k': "k' = (In_sched, c1, s1)" using fk k1 by simp
  have r': "refines b (In_sched, c1, s1) a'" using a'(2) by (simp only: k')
  have "order a = tq a" "order a' = tq a'" using r r' by (simp_all add: order_def)
  then have "tq a' \<noteq> []" using dispatch_order [OF a'(1)] ne by (metis rotate_is_Nil_conv)
  then obtain i q where q: "tq a' = i # q" by (cases "tq a'") auto
  obtain c' s' where "kstep rs (In_sched, c1, s1) (Dispatch i c') (In_proc, c', s')"
    using can_dispatch [OF r' q] by blast
  then show ?thesis unfolding k' by blast
qed

lemma first_dispatch:
  assumes "steps tstep a (as @ Dispatch i c # bs) a'" "i \<notin> set (dispatches as)" "running a \<noteq> Some i"
  shows "c = ctx a i"
proof -
  obtain b where as: "steps tstep a as b" and "steps tstep b (Dispatch i c # bs) a'"
    using steps_append [OF assms(1)] by blast
  then have "c = ctx b i" by (auto elim!: steps_elims tstep_elims)
  then show ?thesis using not_dispatched [OF as assms(2,3)] by simp
qed

definition sched0 :: sched_state where
  "sched0 = machine.extend (machine0\<lparr>km := list_init_head (\<lambda>_. 0) 0x8000\<rparr>)
     \<lparr>sc = \<lparr>sc_inited = True, ready_list = 0x8000, readys = 0, block_list = 0x8010, blocks = 0,
        context_at = 0x8020, cur_proc = 0\<rparr>,
      pmgr = \<lparr>proc_table = 0x1000, proc_stack = 0x10000, next_pid = 0, proc_inited = True\<rparr>\<rparr>"

lemma sched0_fields [simp]: "km sched0 = list_init_head (\<lambda>_. 0) 0x8000"
  "sc sched0 = \<lparr>sc_inited = True, ready_list = 0x8000, readys = 0, block_list = 0x8010, blocks = 0,
        context_at = 0x8020, cur_proc = 0\<rparr>"
  "pmgr sched0 = \<lparr>proc_table = 0x1000, proc_stack = 0x10000, next_pid = 0, proc_inited = True\<rparr>"
  by (simp_all add: sched0_def machine.defs)

lemma sched0_base: "base 0x9000 sched0 \<lparr>tq = [], running = None, ctx = \<lambda>_. fresh_ctx sched0 0 0\<rparr>"
proof -
  have "layout sched0 0x9000" by (simp add: layout_def apart_def)
  moreover have "queue sched0 []" using dlist_init [of "0x8000" "\<lambda>_. 0"] by (simp add: queue_def)
  ultimately show ?thesis by (simp add: base_def)
qed

lemma two_threads: "\<exists>(s :: sched_state) a. base 0x9000 s a \<and> tq a = [0, 1] \<and> running a = None
    \<and> pmgr s = (pmgr sched0)\<lparr>next_pid := 2\<rparr> \<and> ready_list (sc s) = 0x8000 \<and> context_at (sc s) = 0x8020"
proof -
  define s1 :: sched_state where "s1 = sched_add_ready_raw (sched0\<lparr>km := proc_setup 0 0xC0100000 (km sched0) (pcb sched0 0) (pstk sched0 0),
      pmgr := (pmgr sched0)\<lparr>next_pid := 1\<rparr>\<rparr>) (pcb sched0 0)"
  define a1 where "a1 = \<lparr>tq = [0], running = None,
      ctx = (\<lambda>_. fresh_ctx sched0 0 0)(0 := fresh_ctx sched0 0 0xC0100000)\<rparr>"
  have b1: "base 0x9000 s1 a1"
    using create_base(1) [OF sched0_base _ _ refl refl, where i = 0 and pid = 0 and e = "0xC0100000" and pid' = 1] by (simp add: s1_def a1_def)
  have "tq a1 = [0]" "running a1 = None" by (simp_all add: a1_def)
  moreover have "pmgr s1 = (pmgr sched0)\<lparr>next_pid := 1\<rparr>" "ready_list (sc s1) = 0x8000" "context_at (sc s1) = 0x8020"
    by (simp_all add: s1_def sched_add_ready_raw_def Let_def)
  moreover define s2 :: sched_state where "s2 = sched_add_ready_raw (s1\<lparr>km := proc_setup 1 0xC0200000 (km s1) (pcb s1 1) (pstk s1 1),
      pmgr := (pmgr s1)\<lparr>next_pid := 2\<rparr>\<rparr>) (pcb s1 1)"
  moreover have "pmgr s2 = (pmgr s1)\<lparr>next_pid := 2\<rparr>" "ready_list (sc s2) = ready_list (sc s1)" "context_at (sc s2) = context_at (sc s1)"
    by (simp_all add: s2_def sched_add_ready_raw_def Let_def)
  ultimately show ?thesis
    using create_base(1) [OF b1 _ _ refl refl, where i = 1 and pid = 1 and e = "0xC0200000" and pid' = 2]
    by (intro exI [of _ s2] exI) (auto simp: s2_def)
qed


subsection \<open>Properties\<close>

text \<open>C8: The scheduler refines the machine of threads: whatever sequence of dispatches, own work and
  yields the kernel goes through, the abstract machine goes through with the same registers, and the
  ready list with the contexts saved on the stacks keeps representing its queue.\<close>

theorem sched_refines:
  assumes "refines b k a" "steps (kstep rs) k ls k'"
  shows "\<exists>a'. steps tstep a ls a' \<and> refines b k' a'"
  using refines_steps [OF assms(2,1)] .

theorem sched_refines_witness:
  "\<exists>(k :: control \<times> cpu_regs \<times> sched_state) ls k' a'. length ls = 3 \<and> steps (kstep 5) k ls k' \<and> refines 0x9000 k' a'"
proof -
  obtain s :: sched_state and a where s: "base 0x9000 s a" "tq a = [0, 1]" "running a = None"
    using two_threads by blast
  define c where "c = \<lparr>edi = 1, esi = 2, ebx = 3, ebp = 4, esp = 0x9000 + 28, eip = 0\<rparr>"
  have r: "refines 0x9000 (In_sched, c, s) a" using s by (simp add: c_def)
  obtain c0 c1 c' s' where st: "steps (kstep 5) (In_sched, c, s) [Dispatch 0 c0, Work 0, Yield 0 c1] (In_sched, c', s')"
    using turn [OF r s(2), of 5] by blast
  show ?thesis using sched_refines [OF r st] st
    by (intro exI [of _ "(In_sched, c, s)"] exI [of _ "[Dispatch 0 c0, Work 0, Yield 0 c1]"] exI [of _ "(In_sched, c', s')"]) auto
qed

text \<open>C26: The scheduler is fair: from a queue \<open>q\<close> the processes are dispatched in its order, round and
  round, whatever they do between; and the scheduler never gets stuck while a
  process is ready.\<close>

theorem sched_round_robin:
  assumes r: "refines b (In_sched, c, s) a" and st: "steps (kstep rs) (In_sched, c, s) ls k'"
  shows "dispatches ls = map (\<lambda>k. tq a ! (k mod length (tq a))) [0..<length (dispatches ls)]
     \<and> (fst k' = In_sched \<and> tq a \<noteq> [] \<longrightarrow> (\<exists>l k2. kstep rs k' l k2))"
  using run_dispatches [OF r st] run_progress [OF r st] by blast

theorem sched_round_robin_witness:
  "\<exists>(k :: control \<times> cpu_regs \<times> sched_state) ls k'. steps (kstep 5) k ls k' \<and> dispatches ls = [0, 1]"
proof -
  obtain s :: sched_state and a where s: "base 0x9000 s a" "tq a = [0, 1]" "running a = None"
    using two_threads by blast
  define c where "c = \<lparr>edi = 1, esi = 2, ebx = 3, ebp = 4, esp = 0x9000 + 28, eip = 0\<rparr>"
  have r: "refines 0x9000 (In_sched, c, s) a" using s by (simp add: c_def)
  obtain c0 c1 c' s' a' where st: "steps (kstep 5) (In_sched, c, s) [Dispatch 0 c0, Work 0, Yield 0 c1] (In_sched, c', s')"
    and r': "refines 0x9000 (In_sched, c', s') a'" "tq a' = [1, 0]"
    using turn [OF r s(2), of 5] by auto
  obtain c2 s2 where d: "kstep 5 (In_sched, c', s') (Dispatch 1 c2) (In_proc, c2, s2)"
    using can_dispatch [OF r'] by blast
  obtain k1 k2 where ks: "kstep 5 (In_sched, c, s) (Dispatch 0 c0) k1" "kstep 5 k1 (Work 0) k2"
    "kstep 5 k2 (Yield 0 c1) (In_sched, c', s')"
    using st by (auto elim!: steps_elims)
  then have st2: "steps (kstep 5) (In_sched, c, s) [Dispatch 0 c0, Work 0, Yield 0 c1, Dispatch 1 c2] (In_proc, c2, s2)"
    using d by (blast intro: steps.intros)
  show ?thesis using sched_round_robin [OF r st2] st2 s(2) by (auto intro!: exI)
qed

text \<open>C25: No process is ever lost or put on the ready list twice: in every state the kernel reaches, the
  ready list is a proper doubly linked list of different entries of the process table, its length is the
  counter of ready processes, and it holds all the processes there were but the one that runs.\<close>

theorem ready_list_wellformed:
  assumes r: "refines b k a" and st: "steps (kstep rs) k ls (t, c, s)"
  shows "\<exists>q. dlist (km s) (ready_list (sc s)) (map (pnode s) q) \<and> distinct q \<and> set q \<subseteq> {..<128}
     \<and> readys (sc s) = of_nat (length q)
     \<and> (case t of In_sched \<Rightarrow> set q = set (order a)
        | In_proc \<Rightarrow> \<exists>i. cur_proc (sc s) = pcb s i \<and> i \<notin> set q \<and> insert i (set q) = set (order a))"
proof -
  obtain a' where a': "steps tstep a ls a'" "refines b (t, c, s) a'" using refines_steps [OF st r] by blast
  have o: "set (order a') = set (order a)" using dispatch_order [OF a'(1)] by (metis set_rotate)
  have q: "queue s (tq a')" using a'(2) by (cases t) (auto simp: base_def)
  have "case t of In_sched \<Rightarrow> set (tq a') = set (order a)
      | In_proc \<Rightarrow> \<exists>i. cur_proc (sc s) = pcb s i \<and> i \<notin> set (tq a') \<and> insert i (set (tq a')) = set (order a)"
    using a'(2) o by (cases t) (auto simp: order_def)
  with q show ?thesis unfolding queue_def by blast
qed

theorem ready_list_wellformed_witness:
  "\<exists>(k :: control \<times> cpu_regs \<times> sched_state) ls c s q. steps (kstep 5) k ls (In_sched, c, s) \<and> length ls = 3
     \<and> dlist (km s) (ready_list (sc s)) (map (pnode s) q) \<and> distinct q \<and> set q = {0, 1}"
proof -
  obtain s :: sched_state and a where s: "base 0x9000 s a" "tq a = [0, 1]" "running a = None"
    using two_threads by blast
  define c where "c = \<lparr>edi = 1, esi = 2, ebx = 3, ebp = 4, esp = 0x9000 + 28, eip = 0\<rparr>"
  have r: "refines 0x9000 (In_sched, c, s) a" using s by (simp add: c_def)
  obtain c0 c1 c' s' where st: "steps (kstep 5) (In_sched, c, s) [Dispatch 0 c0, Work 0, Yield 0 c1] (In_sched, c', s')"
    using turn [OF r s(2), of 5] by blast
  have "set (order a) = {0, 1}" using s by (simp add: order_def)
  then show ?thesis using ready_list_wellformed [OF r st] st
    by (intro exI [of _ "(In_sched, c, s)"] exI [of _ "[Dispatch 0 c0, Work 0, Yield 0 c1]"] exI [of _ c'] exI [of _ s']) auto
qed

text \<open>C14: A context switch is transparent: the registers a process sees when it is dispatched are
  those it had when it yielded, its stack pointer below the two arguments of the call and its next
  instruction the one behind the call, however long the others ran in between.\<close>

theorem sched_resumes:
  assumes r: "refines b k a" and st: "steps (kstep rs) k (as @ Yield i c # bs @ [Dispatch i c']) k'"
    and others: "i \<notin> set (dispatches bs)"
  shows "c' = c"
proof -
  obtain a' where "steps tstep a (as @ Yield i c # bs @ [Dispatch i c']) a'"
    using refines_steps [OF st r] by blast
  then obtain a1 where "steps tstep a1 (Yield i c # bs @ [Dispatch i c']) a'"
    using steps_append [of tstep a as "Yield i c # bs @ [Dispatch i c']" a'] by blast
  then obtain a2 where y: "tstep a1 (Yield i c) a2" and bs: "steps tstep a2 (bs @ [Dispatch i c']) a'"
    by (auto elim: steps_elims)
  have "running a2 \<noteq> Some i" "ctx a2 i = c" using y by (auto elim!: tstep_elims)
  moreover have "steps tstep a2 (bs @ Dispatch i c' # []) a'" using bs by simp
  ultimately show ?thesis using first_dispatch [of a2 bs i c' "[]" a'] others by simp
qed

theorem sched_resumes_witness:
  "\<exists>(k :: control \<times> cpu_regs \<times> sched_state) k' c0 c1.
     steps (kstep 5) k [Dispatch 0 c0, Work 0, Yield 0 c1, Dispatch 0 c1] k'"
proof -
  define a :: threads where "a = \<lparr>tq = [0], running = None,
      ctx = (\<lambda>_. fresh_ctx sched0 0 0)(0 := fresh_ctx sched0 0 0xC0100000)\<rparr>"
  obtain s :: sched_state where s: "base 0x9000 s a"
    using create_base(1) [OF sched0_base _ _ refl refl, where i = 0 and pid = 0 and e = "0xC0100000" and pid' = 1]
    by (auto simp: a_def)
  define c where "c = \<lparr>edi = 1, esi = 2, ebx = 3, ebp = 4, esp = 0x9000 + 28, eip = 0\<rparr>"
  have r: "refines 0x9000 (In_sched, c, s) a" "tq a = 0 # []" using s by (simp_all add: c_def a_def)
  obtain c0 c1 c' s' a' where st: "steps (kstep 5) (In_sched, c, s) [Dispatch 0 c0, Work 0, Yield 0 c1] (In_sched, c', s')"
    and r': "refines 0x9000 (In_sched, c', s') a'" "tq a' = [0]"
    using turn [OF r, of 5] by auto
  obtain c2 s2 where d: "kstep 5 (In_sched, c', s') (Dispatch 0 c2) (In_proc, c2, s2)"
    using can_dispatch [OF r'] by blast
  obtain k1 k2 where ks: "kstep 5 (In_sched, c, s) (Dispatch 0 c0) k1" "kstep 5 k1 (Work 0) k2"
    "kstep 5 k2 (Yield 0 c1) (In_sched, c', s')"
    using st by (auto elim!: steps_elims)
  then have st2: "steps (kstep 5) (In_sched, c, s) [Dispatch 0 c0, Work 0, Yield 0 c1, Dispatch 0 c2] (In_proc, c2, s2)"
    using d by (blast intro: steps.intros)
  then have "c2 = c1"
    using sched_resumes [OF r(1), of 5 "[Dispatch 0 c0, Work 0]" 0 c1 "[]" c2] by simp
  then show ?thesis using st2 by blast
qed


text \<open>C27: \<open>proc_create\<close> takes the first free entry of the table, gives it the next number and a
  context in its own stack with zeroed registers and the entry point (or \<open>switch_kern_to_user\<close>) as
  next instruction, and puts it at the end of the ready list, other processes kept; with the table
  full it returns \<open>NULL\<close> and changes nothing.\<close>

theorem proc_create_enters:
  assumes b: "base b s a" and ini: "proc_inited (pmgr s)"
    and used: "\<forall>j\<in>set (tq a). p_state (km s) (pcb s j) \<noteq> PROC_FREE"
  shows "(\<exists>i s'. i < 128 \<and> p_state (km s) (pcb s i) = PROC_FREE \<and> (\<forall>j<i. p_state (km s) (pcb s j) \<noteq> PROC_FREE)
       \<and> proc_create utk s entry = (pcb s i, s')
       \<and> base b s' (a\<lparr>tq := tq a @ [i], ctx := (ctx a)(i := fresh_ctx s i (if entry \<noteq> 0 then entry else utk))\<rparr>)
       \<and> p_state (km s') (pcb s i) = PROC_READY \<and> ld32 (km s') (pcb s i) = next_pid (pmgr s))
     \<or> (\<forall>i<128. p_state (km s) (pcb s i) \<noteq> PROC_FREE) \<and> proc_create utk s entry = (NULL, s)"
proof -
  define i where "i = find_free (km s) (proc_table (pmgr s)) 0"
  have f: "i \<le> 128" "\<And>k. k < i \<Longrightarrow> p_state (km s) (pcb s k) \<noteq> PROC_FREE"
    "i < 128 \<Longrightarrow> p_state (km s) (pcb s i) = PROC_FREE"
    using proc_find_free [of 0 "km s" "proc_table (pmgr s)" i] by (simp_all add: i_def pcb_def)
  show ?thesis
  proof (cases "i < 128")
    case True
    have ni: "i \<notin> set (tq a)" using used f(3) True by auto
    have si: "sc_inited (sc s)" using b by (simp add: base_def)
    have nn: "pcb s i \<noteq> 0" using pcb_nonnull(1) [of s b i] b True by (simp add: base_def)
    define e where "e = (if entry \<noteq> 0 then entry else utk)"
    define s1 where "s1 = s\<lparr>km := proc_setup (next_pid (pmgr s)) e (km s) (pcb s i) (pstk s i),
        pmgr := (pmgr s)\<lparr>next_pid := next_pid (pmgr s) + 1\<rparr>\<rparr>"
    have "proc_create utk s entry = (pcb s i, sched_add_ready_raw s1 (pcb s i))"
      using proc_create_eq [OF ini i_def [symmetric] True, of utk entry] si nn
      by (simp add: sched_add_ready_def s1_def e_def)
    then show ?thesis
      using create_base [OF b True ni s1_def refl] f True
      by (intro disjI1 exI [of _ i] exI [of _ "sched_add_ready_raw s1 (pcb s i)"]) (simp add: e_def)
  next
    case False
    then have "i = 128" using f(1) by simp
    then show ?thesis using ini f(2) by (simp add: proc_create_def flip: i_def)
  qed
qed

theorem proc_create_enters_witness:
  "\<exists>s'. proc_create 7 sched0 0xC0100000 = (0x1000, s') \<and> base 0x9000 s' \<lparr>tq = [0], running = None,
      ctx = (\<lambda>_. fresh_ctx sched0 0 0)(0 := fresh_ctx sched0 0 0xC0100000)\<rparr>"
proof -
  let ?a = "\<lparr>tq = [], running = None, ctx = \<lambda>_. fresh_ctx sched0 0 0\<rparr>"
  have free: "p_state (km sched0) (pcb sched0 0) = PROC_FREE"
    by (simp add: p_state_def list_init_head_def Let_def pcb_def set_next_def set_prev_def st32_def)
  have "proc_inited (pmgr sched0)" "\<forall>j\<in>set (tq ?a). p_state (km sched0) (pcb sched0 j) \<noteq> PROC_FREE" by simp_all
  from proc_create_enters [OF sched0_base this, of 7 "0xC0100000"] free
  obtain i s' where i: "\<forall>j<i. p_state (km sched0) (pcb sched0 j) \<noteq> PROC_FREE"
    "proc_create 7 sched0 0xC0100000 = (pcb sched0 i, s')"
    "base 0x9000 s' (?a\<lparr>tq := tq ?a @ [i], ctx := (ctx ?a)(i := fresh_ctx sched0 i 0xC0100000)\<rparr>)"
    by auto
  have "i = 0" using i(1) free by (cases i) auto
  then show ?thesis using i by (auto simp: pcb_def)
qed



end
