(* ===== verification/Console_Line.thy ===== *)
theory Console_Line
  imports Console_Props
begin

text \<open>
  Printing whole lines: a text that ends with a line feed leaves the cursor at the start of the next row, and the
  screen shows it, scrolled up once the rows of the screen are used up.  The rows of the buffer run out with the
  400th line, for nothing starts over.
\<close>

subsection \<open>Scrolling and flushing several rows\<close>

lemma vt_scroll_frame: "n \<le> 2000 \<Longrightarrow> \<not> inside base 4000 x \<Longrightarrow> vt_scroll m base buf from n x = m x"
  by (induction m base buf "from" n rule: vt_scroll.induct) (simp_all add: vt_put_frame)

lemma vt_scroll_above: "n \<le> k \<Longrightarrow> k < VT_CELLS \<Longrightarrow> shows_at (vt_scroll m base buf from n) base k c = shows_at m base k c"
  by (induction m base buf "from" n rule: vt_scroll.induct) (simp_all add: shows_put_other)

lemma vt_scroll_shows:
  "n \<le> VT_CELLS \<Longrightarrow> k < n \<Longrightarrow> shows_at (vt_scroll m base buf from n) base k (buf (from + k))"
proof (induction m base buf "from" n rule: vt_scroll.induct)
  case (2 m base buf "from" n)
  then show ?case by (cases "k = n") (simp_all add: vt_scroll_above)
qed simp

text \<open>What flushing the rows \<open>i\<close> up to \<open>rows\<close> does to memory.\<close>

definition rows_shown :: "addr \<Rightarrow> (nat \<Rightarrow> vga_text) \<Rightarrow> nat \<Rightarrow> nat \<Rightarrow> mem \<Rightarrow> mem \<Rightarrow> bool" where
  "rows_shown base buf i rows m m' \<longleftrightarrow> (\<forall>x. \<not> inside base 4000 x \<longrightarrow> m' x = m x)
     \<and> (\<forall>r n x. i \<le> r \<longrightarrow> r < rows \<longrightarrow> n \<le> 80 \<longrightarrow> (\<forall>y<n. vt_text (buf (80 * r + y)) \<noteq> 0) \<longrightarrow> x < n \<longrightarrow>
          shows_at m' base (80 * r + x) (buf (80 * r + x)))
     \<and> (\<forall>k<80 * i. \<forall>c. shows_at m' base k c = shows_at m base k c)"

lemma vt_flush_rows_shown:
  "rows \<le> 25 \<Longrightarrow> i \<le> rows \<Longrightarrow> \<exists>m'. vt_flush_rows m base buf i rows 0 = Some m' \<and> rows_shown base buf i rows m m'"
proof (induction "rows - i" arbitrary: i m)
  case 0
  then show ?case by (subst vt_flush_rows.simps) (simp add: rows_shown_def)
next
  case (Suc d)
  have i: "i < 399" "i < rows" "i < 25" using Suc by auto
  obtain m1 where m1: "vt_flush_row m base buf i 0 = Some m1"
    and s1: "\<And>n x. n \<le> 80 \<Longrightarrow> \<forall>x<n. vt_text (buf (80 * i + x)) \<noteq> 0 \<Longrightarrow> x < n \<Longrightarrow> shows_at m1 base (80 * i + x) (buf (80 * i + x))"
    and k1: "\<And>k c. k < VT_CELLS \<Longrightarrow> k < 80 * i \<Longrightarrow> shows_at m1 base k c = shows_at m base k c"
    using vt_flush_row_shows [OF i(1), of 0 m base buf] by auto
  have f1: "m1 x = m x" if "\<not> inside base 4000 x" for x by (rule vt_flush_row_frame [OF m1 i(3) _ that]) simp
  have "d = rows - (i + 1)" "i + 1 \<le> rows" using Suc(2) i by auto
  then obtain m' where m': "vt_flush_rows m1 base buf (i + 1) rows 0 = Some m'" and r2: "rows_shown base buf (i + 1) rows m1 m'"
    using Suc(1) [of "i + 1" m1] Suc(3) by blast
  have f2: "m' x = m1 x" if "\<not> inside base 4000 x" for x using r2 that unfolding rows_shown_def by blast
  have k2: "shows_at m' base k c = shows_at m1 base k c" if "k < 80 * (i + 1)" for k c using r2 that unfolding rows_shown_def by blast
  have "shows_at m' base (80 * r + x) (buf (80 * r + x))"
    if "i \<le> r" "r < rows" "n \<le> 80" "\<forall>x<n. vt_text (buf (80 * r + x)) \<noteq> 0" "x < n" for r n x
  proof (cases "r = i")
    case True
    then show ?thesis using s1 [of n x] k2 [of "80 * i + x"] that by simp
  next
    case False
    then have "i + 1 \<le> r" using that(1) by simp
    then show ?thesis using r2 that unfolding rows_shown_def by blast
  qed
  moreover have "shows_at m' base k c = shows_at m base k c" if "k < 80 * i" for k c
    using k1 [of k c] k2 [of k c] that i by simp
  moreover have "m' x = m x" if "\<not> inside base 4000 x" for x using f1 f2 that by simp
  ultimately have "rows_shown base buf i rows m m'" unfolding rows_shown_def by blast
  moreover have "vt_flush_rows m base buf i rows 0 = Some m'" using m1 m' i by (subst vt_flush_rows.simps) simp
  ultimately show ?case by blast
qed

subsection \<open>A line\<close>

text \<open>The row of the screen on which the line in row \<open>r\<close> of the buffer is seen after the line feed.\<close>

definition line_at :: "nat \<Rightarrow> nat" where
  "line_at r = min r 23"

lemma write_line:
  assumes row: "unat (curr_row v) < 400" and col: "curr_col v = 0" and out: "length out \<le> 80" "10 \<notin> set out"
  obtains v' where "vga_write (out @ [10]) (m, v) = Some (m, v')" "unat (curr_row v') = unat (curr_row v) + 1"
    "curr_col v' = 0" "pre_row v' = 0" "pre_col v' = 0" "vga_bp v' = vga_bp v" "vga_inited v' = vga_inited v"
    "\<forall>x<length out. vt_text (vga_buffer v' (80 * unat (curr_row v) + x)) = out ! x"
proof -
  have fit: "unat (curr_col v) + length out \<le> 80" using col out by simp
  from vga_write_fit [OF row fit out(2), of m] obtain v1 where
    v1: "vga_write out (m, v) = Some (m, v1)" "curr_row v1 = curr_row v" "vga_bp v1 = vga_bp v" "vga_inited v1 = vga_inited v"
      "\<And>x. x < length out \<Longrightarrow> vt_text (vga_buffer v1 (80 * unat (curr_row v) + unat (curr_col v) + x)) = out ! x"
    by blast
  have "vga_write (out @ [10]) (m, v) = Some (m, vt_new_line_raw v1)"
    using v1(1,2) row by (simp add: vga_write_append Let_def)
  moreover have "unat (curr_row v + 1) = unat (curr_row v) + 1" using row by (simp add: unat_word_ariths)
  ultimately show ?thesis using v1 col by (intro that [of "vt_new_line_raw v1"]) (simp_all add: vt_new_line_raw_def)
qed

lemma flush_line:
  fixes s :: "'a machine_scheme"
  assumes b: "b \<noteq> NULL" "cbytes m1 b = Some (out @ [10])" "0 \<notin> set out" and out: "length out \<le> 80" "10 \<notin> set out"
    and cur: "vga_inited (vga s)" "unat (curr_row (vga s)) < 399" "curr_col (vga s) = 0"
  obtains m2 v2 where "vt_flush_with_buf (s\<lparr>km := m1, parse := f1\<rparr>) b = Some (s\<lparr>km := m2, parse := f1, vga := v2\<rparr>)"
    "\<forall>x<length out. m2 (vga_bp (vga s) + of_nat (2 * (80 * line_at (unat (curr_row (vga s))) + x))) = out ! x"
    "\<forall>x. \<not> inside (vga_bp (vga s)) 4000 x \<longrightarrow> m2 x = m1 x"
    "unat (curr_row v2) = unat (curr_row (vga s)) + 1" "curr_col v2 = 0" "vga_bp v2 = vga_bp (vga s)" "vga_inited v2"
proof -
  let ?v = "vga s" and ?r = "unat (curr_row (vga s))" and ?bp = "vga_bp (vga s)"
  note shown = that
  have "?r < 400" using cur(2) by simp
  then obtain v' where v': "vga_write (out @ [10]) (m1, ?v) = Some (m1, v')" "unat (curr_row v') = ?r + 1"
    "curr_col v' = 0" "pre_row v' = 0" "pre_col v' = 0" "vga_bp v' = ?bp" "vga_inited v' = vga_inited ?v"
    "\<forall>x<length out. vt_text (vga_buffer v' (80 * ?r + x)) = out ! x"
    by (rule write_line [OF _ cur(3) out, of m1])
  have nz: "vt_text (vga_buffer v' (80 * ?r + x)) \<noteq> 0" if "x < length out" for x
    using b(3) nth_mem [OF that] v'(8) that by metis
  define v2 where "v2 = v'\<lparr>pre_row := curr_row v', pre_col := curr_col v'\<rparr>"
  have fin: thesis if run: "vt_flush_raw (s\<lparr>km := m1, parse := f1, km := m1, vga := v'\<rparr>) = Some (s\<lparr>km := m2, parse := f1, vga := v2\<rparr>)"
    and sh: "\<And>x. x < length out \<Longrightarrow> shows_at m2 ?bp (80 * line_at ?r + x) (vga_buffer v' (80 * ?r + x))"
    and fr: "\<And>x. \<not> inside ?bp 4000 x \<Longrightarrow> m2 x = m1 x" for m2
  proof (rule shown)
    show "vt_flush_with_buf (s\<lparr>km := m1, parse := f1\<rparr>) b = Some (s\<lparr>km := m2, parse := f1, vga := v2\<rparr>)"
      using run b cur(1) v'(1) by (simp add: vt_flush_with_buf_def vga_text_write_raw_def)
    show "\<forall>x<length out. m2 (?bp + of_nat (2 * (80 * line_at ?r + x))) = out ! x"
      using sh v'(8) by (simp add: shows_at_def)
  qed (use fr v' cur(1) in \<open>simp_all add: v2_def\<close>)
  show thesis
  proof (cases "?r + 1 < 25")
    case True
    obtain m2 where m2: "vt_flush_rows m1 ?bp (vga_buffer v') 0 (?r + 2) 0 = Some m2" "rows_shown ?bp (vga_buffer v') 0 (?r + 2) m1 m2"
      using vt_flush_rows_shown [of "?r + 2" 0 m1 ?bp "vga_buffer v'"] True by auto
    have "shows_at m2 ?bp (80 * ?r + x) (vga_buffer v' (80 * ?r + x))" if "x < length out" for x
      using m2(2) nz out(1) that unfolding rows_shown_def by fastforce
    then show thesis using m2 True v' by (intro fin [of m2]) (auto simp: vt_flush_raw_def v2_def line_at_def rows_shown_def)
  next
    case False
    define top where "top = unat (curr_row v' - 24)"
    have top: "top = ?r - 23" using v'(2) False unfolding top_def by (subst unat_sub_if') (auto simp: word_le_nat_alt)
    define m2 where "m2 = vt_scroll m1 ?bp (vga_buffer v') (80 * top) 2000"
    have e: "80 * top + (80 * 23 + x) = 80 * ?r + x" for x using top False by simp
    have "line_at ?r = 23" using False by (simp add: line_at_def)
    then have "shows_at m2 ?bp (80 * line_at ?r + x) (vga_buffer v' (80 * ?r + x))" if "x < length out" for x
      using vt_scroll_shows [of 2000 "80 * 23 + x" m1 ?bp "vga_buffer v'" "80 * top", unfolded e] that out(1) by (simp add: m2_def)
    moreover have "80 * top + 2000 \<le> VT_CELLS" using top cur(2) by simp
    ultimately show thesis using v' False
      by (intro fin [of m2]) (auto simp: vt_flush_raw_def v2_def Let_def m2_def vt_scroll_frame simp flip: top_def)
  qed
qed

text \<open>On the last row of the buffer the line is still written, but scrolling reads the row behind it.\<close>

lemma flush_line_full:
  fixes s :: "'a machine_scheme"
  assumes b: "b \<noteq> NULL" "cbytes m1 b = Some (out @ [10])" and out: "length out \<le> 80" "10 \<notin> set out"
    and cur: "vga_inited (vga s)" "unat (curr_row (vga s)) = 399" "curr_col (vga s) = 0"
  shows "vt_flush_with_buf (s\<lparr>km := m1, parse := f1\<rparr>) b = None"
proof -
  have "unat (curr_row (vga s)) < 400" using cur(2) by simp
  then obtain v' where v': "vga_write (out @ [10]) (m1, vga s) = Some (m1, v')" "unat (curr_row v') = 400"
    by (rule write_line [OF _ cur(3) out, of m1]) (use cur(2) that in simp)
  have "unat (curr_row v' - 24) = 376" using v'(2) by (subst unat_sub_if') (auto simp: word_le_nat_alt)
  then show ?thesis using b cur(1) v' by (simp add: vt_flush_with_buf_def vga_text_write_raw_def vt_flush_raw_def Let_def)
qed

text \<open>Printing a line as far as the buffer has rows.\<close>

lemma kprintf_next_line:
  fixes s :: "'a machine_scheme"
  assumes ok: "locals_ok l" and fmt: "cstr (km s) fmt (fmt_of ps)" "fmt \<noteq> NULL" "length (fmt_of ps) < 2147483647"
      "\<forall>x. inside fmt (Suc (length (fmt_of ps))) x \<longrightarrow> \<not> local_at l x"
    and args: "pieces_ok l (km s) str ps args" "\<forall>a. length (str a) < 256"
    and line: "render str ps args = out @ [10]" "10 \<notin> set out" "length out \<le> 80"
    and cur: "vga_inited (vga s)" "unat (curr_row (vga s)) < 399" "curr_col (vga s) = 0"
  obtains s' where "kprintf l s fmt args = Some s'" "s' = s\<lparr>km := km s', parse := parse s', vga := vga s'\<rparr>"
    "\<forall>x<length out. km s' (vga_bp (vga s) + of_nat (2 * (80 * line_at (unat (curr_row (vga s))) + x))) = out ! x"
    "\<forall>x. \<not> local_at l x \<longrightarrow> \<not> inside (vga_bp (vga s)) 4000 x \<longrightarrow> km s' x = km s x"
    "unat (curr_row (vga s')) = unat (curr_row (vga s)) + 1" "curr_col (vga s') = 0" "vga_bp (vga s') = vga_bp (vga s)"
    "vga_inited (vga s')"
proof -
  have fits: "length (render str ps args) + 12 \<le> 256" using line by simp
  obtain m1 f1 where run: "kprintf l s fmt args = vt_flush_with_buf (s\<lparr>km := m1, parse := f1\<rparr>) (l_buf l)"
    and m1: "l_buf l \<noteq> NULL" "cbytes m1 (l_buf l) = Some (out @ [10])" "0 \<notin> set out" "\<forall>x. \<not> local_at l x \<longrightarrow> m1 x = km s x"
    by (rule kprintf_flush [OF ok fmt args fits]) (use line that in simp)
  obtain m2 v2 where fl: "vt_flush_with_buf (s\<lparr>km := m1, parse := f1\<rparr>) (l_buf l) = Some (s\<lparr>km := m2, parse := f1, vga := v2\<rparr>)"
    and sh: "\<forall>x<length out. m2 (vga_bp (vga s) + of_nat (2 * (80 * line_at (unat (curr_row (vga s))) + x))) = out ! x"
      "\<forall>x. \<not> inside (vga_bp (vga s)) 4000 x \<longrightarrow> m2 x = m1 x"
      "unat (curr_row v2) = unat (curr_row (vga s)) + 1" "curr_col v2 = 0" "vga_bp v2 = vga_bp (vga s)" "vga_inited v2"
    by (rule flush_line [OF m1(1-3) line(3,2) cur])
  show ?thesis by (rule that [of "s\<lparr>km := m2, parse := f1, vga := v2\<rparr>"]) (use run fl sh m1(4) in simp_all)
qed

lemma kprintf_line_full:
  fixes s :: "'a machine_scheme"
  assumes ok: "locals_ok l" and fmt: "cstr (km s) fmt (fmt_of ps)" "fmt \<noteq> NULL" "length (fmt_of ps) < 2147483647"
      "\<forall>x. inside fmt (Suc (length (fmt_of ps))) x \<longrightarrow> \<not> local_at l x"
    and args: "pieces_ok l (km s) str ps args" "\<forall>a. length (str a) < 256"
    and line: "render str ps args = out @ [10]" "10 \<notin> set out" "length out \<le> 80"
    and cur: "vga_inited (vga s)" "unat (curr_row (vga s)) = 399" "curr_col (vga s) = 0"
  shows "kprintf l s fmt args = None"
proof -
  have fits: "length (render str ps args) + 12 \<le> 256" using line by simp
  obtain m1 f1 where run: "kprintf l s fmt args = vt_flush_with_buf (s\<lparr>km := m1, parse := f1\<rparr>) (l_buf l)"
    and m1: "l_buf l \<noteq> NULL" "cbytes m1 (l_buf l) = Some (out @ [10])"
    by (rule kprintf_flush [OF ok fmt args fits]) (use line that in simp)
  show ?thesis unfolding run by (rule flush_line_full [OF m1 line(3,2) cur])
qed

end
