(* ===== verification/Drivers.thy ===== *)
theory Drivers
  imports Console
begin

text \<open>
  The interrupt controller (\<open>pic.c\<close>), the timer (\<open>pit.c\<close>) and the keyboard (\<open>keyboard.c\<close>).  C leaves
  the order of two \<open>inb\<close> calls in an expression open; the model takes them from left to right.
\<close>

subsection \<open>The interrupt controller\<close>

abbreviation PRI_PIC_CMD :: u16 where "PRI_PIC_CMD \<equiv> 0x20"
abbreviation PRI_PIC_DATA :: u16 where "PRI_PIC_DATA \<equiv> 0x21"
abbreviation SEC_PIC_CMD :: u16 where "SEC_PIC_CMD \<equiv> 0xA0"
abbreviation SEC_PIC_DATA :: u16 where "SEC_PIC_DATA \<equiv> 0xA1"

definition pic_get_regs :: "device \<Rightarrow> u8 \<Rightarrow> 'a machine_scheme \<Rightarrow> u16 \<times> 'a machine_scheme" where
  "pic_get_regs d ocw s =
     (let s = outb PRI_PIC_CMD ocw s;
          s = outb SEC_PIC_CMD ocw s;
          (h, s) = inb d SEC_PIC_CMD s;
          (l, s) = inb d PRI_PIC_CMD s
      in (push_bit 8 (ucast h) OR ucast l, s))"

definition pic_get_imr :: "device \<Rightarrow> 'a machine_scheme \<Rightarrow> u16 \<times> 'a machine_scheme" where
  "pic_get_imr d s =
     (let (l, s) = inb d PRI_PIC_DATA s;
          (h, s) = inb d SEC_PIC_DATA s
      in (ucast l OR push_bit 8 (ucast h), s))"

text \<open>\<open>outb\<close> takes a byte: of \<open>mask << 8 | 0xFF\<close> only the 0xFF arrives.\<close>

definition pic_set_mask :: "device \<Rightarrow> u16 \<Rightarrow> bool \<Rightarrow> 'a machine_scheme \<Rightarrow> 'a machine_scheme" where
  "pic_set_mask d m flag s =
     (let (mask, s) = pic_get_imr d s;
          mask = (if flag then mask OR m else mask AND NOT m);
          s = outb PRI_PIC_DATA (ucast mask) s
      in outb SEC_PIC_DATA (ucast (push_bit 8 (ucast mask :: u32) OR 0xFF)) s)"

definition pic_get_irr :: "device \<Rightarrow> 'a machine_scheme \<Rightarrow> u16 \<times> 'a machine_scheme" where
  "pic_get_irr d s = pic_get_regs d 0x0A s"

definition pic_get_isr :: "device \<Rightarrow> 'a machine_scheme \<Rightarrow> u16 \<times> 'a machine_scheme" where
  "pic_get_isr d s = pic_get_regs d 0x0B s"

definition pic_eoi :: "u8 \<Rightarrow> 'a machine_scheme \<Rightarrow> 'a machine_scheme" where
  "pic_eoi irq s =
     (let s = (if irq > 7 then outb SEC_PIC_CMD 0x20 s else s)
      in outb PRI_PIC_CMD 0x20 s)"

definition pic_init :: "device \<Rightarrow> 'a machine_scheme \<Rightarrow> 'a machine_scheme" where
  "pic_init d s =
     (let (a1, s) = inb d PRI_PIC_DATA s;
          (a2, s) = inb d SEC_PIC_DATA s;
          s = io_wait (outb PRI_PIC_CMD (0x10 OR 0x01) s);
          s = io_wait (outb SEC_PIC_CMD (0x10 OR 0x01) s);
          s = io_wait (outb PRI_PIC_DATA 0x20 s);
          s = io_wait (outb SEC_PIC_DATA 0x28 s);
          s = io_wait (outb PRI_PIC_DATA 4 s);
          s = io_wait (outb SEC_PIC_DATA 2 s);
          s = io_wait (outb PRI_PIC_DATA 0x01 s);
          s = io_wait (outb SEC_PIC_DATA 0x01 s);
          s = outb PRI_PIC_DATA a1 s
      in outb SEC_PIC_DATA a2 s)"

subsection \<open>The timer\<close>

abbreviation PIT_DEF_HZ :: int where "PIT_DEF_HZ \<equiv> 1193180"
abbreviation PIT_MAX_FREQ :: int where "PIT_MAX_FREQ \<equiv> 65536"

text \<open>
  \<open>msleep\<close> looks at the tick counter until enough time has gone by; \<open>ticks k\<close> is what it finds when
  it looks for the \<open>k\<close>-th time.  The comparison is unsigned.  The result is the look it ended with.
\<close>

partial_function (option) msleep_loop :: "(nat \<Rightarrow> u32) \<Rightarrow> u32 \<Rightarrow> u32 \<Rightarrow> nat \<Rightarrow> nat option" where
  "msleep_loop ticks snap msec k =
     (if ticks k - snap > msec then Some k else msleep_loop ticks snap msec (Suc k))"

definition msleep :: "(nat \<Rightarrow> u32) \<Rightarrow> int \<Rightarrow> nat option" where
  "msleep ticks msec =
     (let snap = ticks 0 in
      if msec \<le> 0 then Some 0 else msleep_loop ticks snap (to_u32 msec) 1)"

definition isr_system_timer_handler :: "u8 \<Rightarrow> 'a machine_scheme \<Rightarrow> 'a machine_scheme" where
  "isr_system_timer_handler irq s =
     (let s = s\<lparr>time_ticks := time_ticks s + 1\<rparr> in
      if tps (pit s) = 0 then pic_eoi irq s
      else
        \<comment> \<open>at a multiple of \<open>tps\<close> ticks the code has only comments\<close>
        pic_eoi irq s)"

definition pit_set_freq :: "int \<Rightarrow> 'a machine_scheme \<Rightarrow> 'a machine_scheme" where
  "pit_set_freq freq s =
     (if freq \<le> 0 \<or> freq > PIT_MAX_FREQ then s
      else
        let dv = PIT_DEF_HZ div freq;
            s = s\<lparr>pit := (pit s)\<lparr>tps := to_u32 dv\<rparr>\<rparr>;
            dv = (if freq = PIT_MAX_FREQ then 0 else dv);
            s = outb 0x43 0x36 s;
            s = outb 0x40 (ucast (to_u32 dv AND 0xFF)) s
        in outb 0x40 (ucast (drop_bit 8 (to_u32 dv))) s)"

definition pit_init :: "isr_addrs \<Rightarrow> 'a machine_scheme \<Rightarrow> 'a machine_scheme option" where
  "pit_init isr s = do {
     let s = s\<lparr>pit := (pit s)\<lparr>tps := to_u32 (PIT_DEF_HZ div PIT_MAX_FREQ)\<rparr>\<rparr>;
     let s = pit_set_freq 1193 s;
     s \<leftarrow> interrupt_register_handler 0x20 (isr_timer isr) 0x8F s;
     Some (s\<lparr>pit := (pit s)\<lparr>pit_inited := True\<rparr>\<rparr>) }"

subsection \<open>The keyboard\<close>

definition scan_code_set1 :: "u8 list" where
  "scan_code_set1 =
     [0, 27, 49, 50, 51, 52, 53, 54, 55, 56,
      57, 48, 45, 61, 8,
      9,
      113, 119, 101, 114,
      116, 121, 117, 105, 111, 112, 91, 93, 10,
      0,
      97, 115, 100, 102, 103, 104, 106, 107, 108, 59,
      39, 96, 0,
      92, 122, 120, 99, 118, 98, 110,
      109, 44, 46, 47, 0,
      42,
      0,
      32,
      0,
      0,
      0, 0, 0, 0, 0, 0, 0, 0,
      0,
      0,
      0,
      0,
      0,
      0,
      45,
      0,
      0,
      0,
      43,
      0,
      0,
      0,
      0,
      0,
      0, 0, 0,
      0,
      0,
      0] @ replicate 38 0"

text \<open>
  \<open>fmts\<close> gives the addresses of the string constants: the formats \<open>%s\n\<close> and \<open>%c\<close>, and the names
  of the three keys.
\<close>

record kbd_strings =
  fmt_s :: addr
  fmt_c :: addr
  key_backspace :: addr
  key_caplock :: addr
  key_numberlock :: addr

definition isr_ps2_keyboard_interrupt_handler ::
  "device \<Rightarrow> locals \<Rightarrow> kbd_strings \<Rightarrow> u8 \<Rightarrow> 'a machine_scheme \<Rightarrow> 'a machine_scheme option" where
  "isr_ps2_keyboard_interrupt_handler d l fmts irq s =
     (let (code, s) = inb d 0x60 s in
      if code \<ge> 128 then Some (pic_eoi irq s)
      else do {
        s \<leftarrow> (if code = 0x0E then kprintf l s (fmt_s fmts) [key_backspace fmts]
              else if code = 0x3A then kprintf l s (fmt_s fmts) [key_caplock fmts]
              else if code = 0x45 then kprintf l s (fmt_s fmts) [key_numberlock fmts]
              else Some s);
        let c = scan_code_set1 ! unat code;
        s \<leftarrow> kprintf l s (fmt_c fmts) [scast c];
        Some (pic_eoi irq s) })"

definition keyboard_init :: "device \<Rightarrow> isr_addrs \<Rightarrow> 'a machine_scheme \<Rightarrow> 'a machine_scheme option" where
  "keyboard_init d isr s =
     (let (mask, s) = pic_get_imr d s;
          s = (if mask AND 0x02 \<noteq> 0 then pic_set_mask d 0x02 False s else s)
      in interrupt_register_handler 0x21 (isr_keyboard isr) 0x8F s)"

subsection \<open>Exceptions and system calls (\<open>interrupt.c\<close>, \<open>syscall.c\<close>)\<close>

text \<open>
  What the handlers of exceptions do is print and stop, so their printing is part of the model: \<open>debug\<close> puts the
  function's name and the line in front of a message.  \<open>fn\<close> is the address of the name, \<open>fmt k\<close> that of the
  \<open>k\<close>-th format and \<open>line k\<close> the number of its line.
\<close>

record dbg_strings =
  dbg_fn :: addr
  dbg_fmt :: "nat \<Rightarrow> addr"
  dbg_line :: "nat \<Rightarrow> u32"

definition debug :: "locals \<Rightarrow> dbg_strings \<Rightarrow> nat \<Rightarrow> u32 list \<Rightarrow> 'a machine_scheme \<Rightarrow> 'a machine_scheme option" where
  "debug l d k args s = kprintf l s (dbg_fmt d k) (dbg_fn d # dbg_line d k # args)"

text \<open>\<open>while(1);\<close>\<close>

partial_function (option) spin :: "'a machine_scheme \<Rightarrow> 'a machine_scheme option" where
  "spin s = spin s"

definition isr_common_handler :: "locals \<Rightarrow> dbg_strings \<Rightarrow> int \<Rightarrow> 'a machine_scheme \<Rightarrow> 'a machine_scheme option" where
  "isr_common_handler l d irq s = do { s \<leftarrow> debug l d 0 [to_u32 irq] s; spin s }"

definition isr_division_error_handler :: "locals \<Rightarrow> dbg_strings \<Rightarrow> int \<Rightarrow> 'a machine_scheme \<Rightarrow> 'a machine_scheme option" where
  "isr_division_error_handler l d irq s = do { s \<leftarrow> debug l d 0 [to_u32 irq] s; spin s }"

definition isr_non_maskable_interrupt_handler :: "locals \<Rightarrow> dbg_strings \<Rightarrow> int \<Rightarrow> 'a machine_scheme \<Rightarrow> 'a machine_scheme option" where
  "isr_non_maskable_interrupt_handler l d irq s = do { s \<leftarrow> debug l d 0 [to_u32 irq] s; spin s }"

record exception_info =
  x_ds :: u32
  x_es :: u32
  x_fs :: u32
  x_gs :: u32
  x_edi :: u32
  x_esi :: u32
  x_ebp :: u32
  x_esp :: u32
  x_ebx :: u32
  x_edx :: u32
  x_ecx :: u32
  x_eax :: u32
  x_irq :: u32
  x_err :: u32
  x_eip :: u32
  x_cs :: u32
  x_eflags :: u32
  x_uesp :: u32
  x_uss :: u32

definition isr_general_protection_fault_handler ::
  "locals \<Rightarrow> dbg_strings \<Rightarrow> exception_info \<Rightarrow> 'a machine_scheme \<Rightarrow> 'a machine_scheme option" where
  "isr_general_protection_fault_handler l d exc s = do {
     let s = vt_cls s;
     s \<leftarrow> debug l d 0 [x_irq exc, x_err exc] s;
     s \<leftarrow> debug l d 1 [x_eip exc, x_eflags exc] s;
     s \<leftarrow> debug l d 2 [x_eax exc, x_ebx exc, x_ecx exc, x_edx exc, x_esi exc, x_edi exc, x_esp exc, x_ebp exc] s;
     s \<leftarrow> debug l d 3 [x_cs exc, x_ds exc, x_es exc, x_fs exc, x_gs exc] s;
     spin s }"

definition isr_page_fault_handler ::
  "locals \<Rightarrow> dbg_strings \<Rightarrow> exception_info \<Rightarrow> 'a machine_scheme \<Rightarrow> 'a machine_scheme option" where
  "isr_page_fault_handler l d exc s = do {
     let s = vt_cls s;
     s \<leftarrow> debug l d 0 [x_irq exc, x_err exc] s;
     s \<leftarrow> debug l d 1 [x_eip exc, x_eflags exc] s;
     s \<leftarrow> debug l d 2 [x_eax exc, x_ebx exc, x_ecx exc, x_edx exc, x_esi exc, x_edi exc, x_esp exc, x_ebp exc] s;
     s \<leftarrow> debug l d 3 [x_cs exc, x_ds exc, x_es exc, x_fs exc, x_gs exc] s;
     spin s }"

text \<open>The table of system calls has one entry, which is read and not called; no other one can be read.\<close>

definition syscall_dispatch_handler :: "int \<Rightarrow> 'a machine_scheme \<Rightarrow> 'a machine_scheme option" where
  "syscall_dispatch_handler fn s = (if fn = 0 then Some s else None)"

text \<open>The entry of the vector of system calls (\<open>isr.asm\<close>) calls the handler of the keyboard.\<close>

definition isr_syscall_entry ::
  "device \<Rightarrow> locals \<Rightarrow> kbd_strings \<Rightarrow> 'a machine_scheme \<Rightarrow> 'a machine_scheme option" where
  "isr_syscall_entry d l fmts s = isr_ps2_keyboard_interrupt_handler d l fmts 80 s"

lemma spin_None: "spin s = None"
proof (cases "spin s")
  case (Some y)
  then have False by (rule spin.raw_induct [where P = "\<lambda>_ _. False", rotated]) blast
  then show ?thesis ..
qed

text \<open>No handler of an exception goes on, whatever comes of its printing.\<close>

lemma exception_handlers_stop:
  "isr_common_handler l d irq s = None" "isr_division_error_handler l d irq s = None"
  "isr_non_maskable_interrupt_handler l d irq s = None" "isr_general_protection_fault_handler l d exc s = None"
  "isr_page_fault_handler l d exc s = None"
  by (simp_all add: isr_common_handler_def isr_division_error_handler_def isr_non_maskable_interrupt_handler_def
      isr_general_protection_fault_handler_def isr_page_fault_handler_def spin_None bind_eq_None_conv)

end
