(* ===== verification/Drivers_Props.thy ===== *)
theory Drivers_Props
  imports Drivers Console_Props
begin

text \<open>What the drivers of the interrupt controller, the timer and the keyboard send to the devices.\<close>

subsection \<open>Interrupt descriptors\<close>

lemma register_all_spec:
  fixes s :: "'a machine_scheme"
  shows "length (idt_tbl s) = 256 \<Longrightarrow> i + n \<le> 256 \<Longrightarrow>
    \<exists>s'. register_all n i f s = Some s' \<and> length (idt_tbl s') = 256 \<and> s' = s\<lparr>idt_tbl := idt_tbl s'\<rparr>
      \<and> (\<forall>k<256. if i \<le> k \<and> k < i + n then gate_target (idt_tbl s' ! k) = f else idt_tbl s' ! k = idt_tbl s ! k)"
proof (induction n arbitrary: i s)
  case (Suc n)
  have "0 \<le> int i" "int i < 256" using Suc.prems by simp_all
  from register_handler_ok [OF Suc.prems(1) this, of f "0x8F"] obtain s1 :: "'a machine_scheme" where
    s1: "interrupt_register_handler (int i) f 0x8F s = Some s1" "length (idt_tbl s1) = 256" "s1 = s\<lparr>idt_tbl := idt_tbl s1\<rparr>"
      "gate_target (idt_tbl s1 ! i) = f" "\<And>k. k < 256 \<Longrightarrow> k \<noteq> i \<Longrightarrow> idt_tbl s1 ! k = idt_tbl s ! k"
    by auto
  have "Suc i + n \<le> 256" using Suc.prems by simp
  from Suc.IH [OF s1(2) this] obtain s2 :: "'a machine_scheme" where
    s2: "register_all n (Suc i) f s1 = Some s2" "length (idt_tbl s2) = 256" "s2 = s1\<lparr>idt_tbl := idt_tbl s2\<rparr>"
      "\<And>k. k < 256 \<Longrightarrow> if Suc i \<le> k \<and> k < Suc i + n then gate_target (idt_tbl s2 ! k) = f else idt_tbl s2 ! k = idt_tbl s1 ! k"
    by blast
  have "if i \<le> k \<and> k < i + Suc n then gate_target (idt_tbl s2 ! k) = f else idt_tbl s2 ! k = idt_tbl s ! k" if "k < 256" for k
    using s2(4) [OF that] s1(4) s1(5) [OF that] by (cases "k = i") (auto split: if_splits)
  moreover have "s2 = s\<lparr>idt_tbl := idt_tbl s2\<rparr>" by (subst s2(3), subst s1(3)) simp
  ultimately show ?case using s1(1) s2(1,2) by (intro exI [of _ s2]) simp
qed auto

definition gates_set :: "isr_addrs \<Rightarrow> intr_desc_tbl_entry32 list \<Rightarrow> intr_desc_tbl_entry32 list \<Rightarrow> bool" where
  "gates_set isr old new \<longleftrightarrow> length new = 256 \<and> (\<forall>v<256. if v = 0 then gate_target (new ! v) = isr_division_error isr
        else if v = 2 then gate_target (new ! v) = isr_nmi isr
        else if v = 13 then gate_target (new ! v) = isr_gpf isr
        else if v = 14 then gate_target (new ! v) = isr_pf isr
        else if v < 129 then gate_target (new ! v) = isr_common isr
        else new ! v = old ! v)"

lemma interrupt_init_run:
  fixes s :: "'a machine_scheme"
  assumes "length (idt_tbl s) = 256"
  obtains t where "interrupt_init isr tbl s = Some (s\<lparr>idtr := \<lparr>idtr_limit = 2047, idtr_base = tbl\<rparr>, idt_tbl := t\<rparr>)"
    "gates_set isr (idt_tbl s) t"
proof -
  define s0 where "s0 = s\<lparr>idtr := \<lparr>idtr_limit = 2047, idtr_base = tbl\<rparr>\<rparr>"
  have "length (idt_tbl s0) = 256" "0 + 129 \<le> (256 :: nat)" using assms by (simp_all add: s0_def)
  from register_all_spec [OF this, of "isr_common isr"] obtain s1 :: "'a machine_scheme" where
    s1: "register_all 129 0 (isr_common isr) s0 = Some s1" "length (idt_tbl s1) = 256" "s1 = s0\<lparr>idt_tbl := idt_tbl s1\<rparr>"
      "\<And>k. k < 256 \<Longrightarrow> if k < 129 then gate_target (idt_tbl s1 ! k) = isr_common isr else idt_tbl s1 ! k = idt_tbl s0 ! k"
    by fastforce
  define g where "g f e = e\<lparr>loffset := ucast f, hoffset := ucast (drop_bit 16 f), selector := 0x08, idt_attr := 0x8F\<rparr>"
    for f :: u32 and e :: intr_desc_tbl_entry32
  have gt: "gate_target (g f e) = f" for f e by (simp add: gate_target_def g_def gate_halves)
  let ?t = "idt_tbl s1"
  define t where "t = ?t[0 := g (isr_division_error isr) (?t ! 0), 2 := g (isr_nmi isr) (?t ! 2),
     13 := g (isr_gpf isr) (?t ! 13), 14 := g (isr_pf isr) (?t ! 14)]"
  have "?t \<noteq> []" using s1(2) by auto
  then have "interrupt_init isr tbl s = Some (s1\<lparr>idt_tbl := t\<rparr>)"
    using s1(1,2) by (simp add: interrupt_init_def Let_def s0_def interrupt_register_handler_def t_def g_def)
  also have "s1\<lparr>idt_tbl := t\<rparr> = s\<lparr>idtr := \<lparr>idtr_limit = 2047, idtr_base = tbl\<rparr>, idt_tbl := t\<rparr>"
    by (subst s1(3)) (simp add: s0_def)
  finally have run: "interrupt_init isr tbl s = Some (s\<lparr>idtr := \<lparr>idtr_limit = 2047, idtr_base = tbl\<rparr>, idt_tbl := t\<rparr>)" .
  have "gates_set isr (idt_tbl s) t"
    using s1(2,4) by (auto simp: gates_set_def t_def nth_list_update gt s0_def)
  with run show ?thesis by (rule that)
qed

text \<open>\<open>interrupt_init\<close> points the gates of the division error, the non-maskable interrupt, the
  protection fault and the page fault at their stubs, every other vector up to the system call's at the
  common handler, and leaves the rest of the table alone.\<close>

theorem interrupt_init_gates:
  fixes s :: "'a machine_scheme"
  assumes "length (idt_tbl s) = 256"
  shows "\<exists>s'. interrupt_init isr tbl s = Some s' \<and> length (idt_tbl s') = 256
    \<and> (\<forall>v<256. if v = 0 then gate_target (idt_tbl s' ! v) = isr_division_error isr
        else if v = 2 then gate_target (idt_tbl s' ! v) = isr_nmi isr
        else if v = 13 then gate_target (idt_tbl s' ! v) = isr_gpf isr
        else if v = 14 then gate_target (idt_tbl s' ! v) = isr_pf isr
        else if v < 129 then gate_target (idt_tbl s' ! v) = isr_common isr
        else idt_tbl s' ! v = idt_tbl s ! v)"
proof -
  obtain t where "interrupt_init isr tbl s = Some (s\<lparr>idtr := \<lparr>idtr_limit = 2047, idtr_base = tbl\<rparr>, idt_tbl := t\<rparr>)"
    "gates_set isr (idt_tbl s) t"
    by (rule interrupt_init_run [OF assms])
  then show ?thesis by (simp add: gates_set_def)
qed

abbreviation isr0 :: isr_addrs where
  "isr0 \<equiv> \<lparr>isr_common = 0xC0101000, isr_division_error = 0xC0102000, isr_nmi = 0xC0103000, isr_gpf = 0xC0104000,
     isr_pf = 0xC0105678, isr_timer = 0xC0106000, isr_keyboard = 0xC0107000, isr_syscall = 0xC0108000\<rparr>"

lemma interrupt_init_gates_witness:
  "\<exists>s'. interrupt_init isr0 0xC0200000 machine0 = Some s' \<and> gate_target (idt_tbl s' ! 14) = 0xC0105678"
proof -
  have "length (idt_tbl machine0) = 256" by (simp add: machine0_def pool_state.defs)
  from interrupt_init_gates [OF this, of isr0 "0xC0200000"] obtain s' where
    s': "interrupt_init isr0 0xC0200000 machine0 = Some s'"
    and g: "\<forall>v<256. if v = 0 then gate_target (idt_tbl s' ! v) = isr_division_error isr0
        else if v = 2 then gate_target (idt_tbl s' ! v) = isr_nmi isr0
        else if v = 13 then gate_target (idt_tbl s' ! v) = isr_gpf isr0
        else if v = 14 then gate_target (idt_tbl s' ! v) = isr_pf isr0
        else if v < 129 then gate_target (idt_tbl s' ! v) = isr_common isr0
        else idt_tbl s' ! v = idt_tbl machine0 ! v"
    by blast
  show ?thesis using s' g [rule_format, of 14] by simp
qed

text \<open>The guard of \<open>interrupt_register_handler\<close> lets one vector too many through: 256 is written
  behind the table.\<close>

theorem register_handler_bounds:
  assumes "length (idt_tbl s) = 256"
  shows "interrupt_register_handler v f a s = None \<longleftrightarrow> v = 256"
  using assms by (auto simp: interrupt_register_handler_def)

lemma register_handler_bounds_witness: "interrupt_register_handler 256 0xC0101000 0x8F machine0 = None"
  using register_handler_bounds [of machine0 256] by (simp add: machine0_def pool_state.defs)

subsection \<open>The interrupt controller\<close>

text \<open>A controller answers reads of a data port with the byte written there last.\<close>

fun last_out :: "event list \<Rightarrow> u16 \<Rightarrow> u32 option" where
  "last_out [] p = None"
| "last_out (e # h) p =
     (case last_out h p of Some v \<Rightarrow> Some v
      | None \<Rightarrow> (case e of OutP w q v \<Rightarrow> if q = p then Some v else None | _ \<Rightarrow> None))"

lemma last_out_append [simp]:
  "last_out (h @ k) p = (case last_out k p of Some v \<Rightarrow> Some v | None \<Rightarrow> last_out h p)"
  by (induction h) (auto split: option.splits event.splits)

definition keeps_masks :: "device \<Rightarrow> bool" where
  "keeps_masks d \<longleftrightarrow> (\<forall>h p v. p \<in> {PRI_PIC_DATA, SEC_PIC_DATA} \<longrightarrow> last_out h p = Some v \<longrightarrow> d h (InP 8 p) = v)"

definition latch :: device where
  "latch h e = (case e of InP w p \<Rightarrow> (case last_out h p of Some v \<Rightarrow> v | None \<Rightarrow> 0xB8) | _ \<Rightarrow> 0)"

lemma keeps_masks_latch: "keeps_masks latch"
  by (simp add: keeps_masks_def latch_def)

text \<open>After \<open>pic_set_mask\<close> the first controller's lines are masked or not as asked for, and the
  second's are all masked, whatever was asked for.\<close>

theorem pic_mask_kept:
  assumes "keeps_masks d" and "pic_get_imr d s = (old, s1)" and "pic_get_imr d (pic_set_mask d m flag s) = (new, s2)"
  shows "new AND 0xFF = (if flag then old OR m else old AND NOT m) AND 0xFF \<and> new AND 0xFF00 = 0xFF00"
proof -
  let ?want = "if flag then old OR m else old AND NOT m"
  let ?t = "trace (pic_set_mask d m flag s)"
  have t: "?t = trace s @ [InP 8 PRI_PIC_DATA, InP 8 SEC_PIC_DATA, OutP 8 PRI_PIC_DATA (ucast (ucast ?want :: u8)),
      OutP 8 SEC_PIC_DATA (ucast (ucast (push_bit 8 (ucast ?want :: u32) OR 0xFF) :: u8))]"
    using assms(2) by (auto simp: pic_set_mask_def pic_get_imr_def port_defs Let_def)
  have ff: "ucast (ucast (push_bit 8 (ucast ?want :: u32) OR 0xFF) :: u8) = (0xFF :: u32)"
    unfolding byte_mask by (rule bit_word_eqI) (auto simp: bit_simps)
  have "last_out ?t PRI_PIC_DATA = Some (ucast (ucast ?want :: u8))" "last_out (?t @ [InP 8 PRI_PIC_DATA]) SEC_PIC_DATA = Some 0xFF"
    unfolding t by (simp_all add: ff)
  then have "d ?t (InP 8 PRI_PIC_DATA) = ucast (ucast ?want :: u8)" "d (?t @ [InP 8 PRI_PIC_DATA]) (InP 8 SEC_PIC_DATA) = 0xFF"
    using assms(1) unfolding keeps_masks_def by blast+
  then have "new = ucast (ucast (ucast (ucast ?want :: u8) :: u32) :: u8) OR push_bit 8 (ucast (0xFF :: u8))"
    using assms(3) by (simp add: pic_get_imr_def port_defs Let_def)
  then have new: "new = (?want AND 0xFF) OR 0xFF00"
    by (simp add: low_byte)
  show ?thesis unfolding new by (cases flag) (simp_all add: bit.conj_disj_distrib2 and.assoc)
qed

lemma pic_mask_kept_witness:
  "\<exists>new s2. pic_get_imr latch (pic_set_mask latch 0x0002 False machine0) = (new, s2) \<and> new AND 0xFF = 0xB8 \<and> new AND 0xFF00 = 0xFF00"
proof -
  obtain old s1 where o: "pic_get_imr latch machine0 = (old, s1)" by fastforce
  then have old: "old = 0xB8B8"
    by (auto simp: pic_get_imr_def port_defs Let_def latch_def machine0_def pool_state.defs)
  obtain new s2 where n: "pic_get_imr latch (pic_set_mask latch 0x0002 False machine0) = (new, s2)" by fastforce
  show ?thesis using pic_mask_kept [OF keeps_masks_latch o n] n old by simp
qed

text \<open>\<open>pic_init\<close> moves the vectors to 0x20 and 0x28 and leaves the masks as they were.\<close>

theorem pic_init_keeps_masks:
  assumes "keeps_masks d" and "pic_get_imr d s = (old, s1)" and "pic_get_imr d (pic_init d s) = (new, s2)"
  shows "new = old \<and> (PRI_PIC_DATA, 0x20) \<in> set (outputs (trace (pic_init d s)))
    \<and> (SEC_PIC_DATA, 0x28) \<in> set (outputs (trace (pic_init d s)))"
proof -
  let ?a = "ucast (d (trace s) (InP 8 PRI_PIC_DATA)) :: u8" and ?b = "ucast (d (trace s @ [InP 8 PRI_PIC_DATA]) (InP 8 SEC_PIC_DATA)) :: u8"
  let ?t = "trace (pic_init d s)"
  have t: "\<exists>h. ?t = h @ [OutP 8 PRI_PIC_DATA (ucast ?a), OutP 8 SEC_PIC_DATA (ucast ?b)]
      \<and> (PRI_PIC_DATA, 0x20) \<in> set (outputs h) \<and> (SEC_PIC_DATA, 0x28) \<in> set (outputs h)"
    by (simp add: pic_init_def port_defs Let_def)
  then have "last_out ?t PRI_PIC_DATA = Some (ucast ?a)" "last_out (?t @ [InP 8 PRI_PIC_DATA]) SEC_PIC_DATA = Some (ucast ?b)"
    by auto
  then have "d ?t (InP 8 PRI_PIC_DATA) = ucast ?a" "d (?t @ [InP 8 PRI_PIC_DATA]) (InP 8 SEC_PIC_DATA) = ucast ?b"
    using assms(1) unfolding keeps_masks_def by blast+
  then have "new = old" using assms(2,3) by (auto simp: pic_get_imr_def port_defs Let_def)
  then show ?thesis using t by auto
qed

lemma pic_init_keeps_masks_witness: "\<exists>s1 s2. pic_get_imr latch machine0 = (0xB8B8, s1) \<and> pic_get_imr latch (pic_init latch machine0) = (0xB8B8, s2)"
proof -
  obtain old s1 where o: "pic_get_imr latch machine0 = (old, s1)" by fastforce
  then have old: "old = 0xB8B8"
    by (auto simp: pic_get_imr_def port_defs Let_def latch_def machine0_def pool_state.defs)
  obtain new s2 where n: "pic_get_imr latch (pic_init latch machine0) = (new, s2)" by fastforce
  show ?thesis using pic_init_keeps_masks [OF keeps_masks_latch o n] o n old by blast
qed

subsection \<open>The timer\<close>

text \<open>The divisor sent to the timer is the clock's frequency over the one asked for, from 19 Hz on;
  below, it does not fit the 16 bits, and only its remainder modulo 65536 arrives.\<close>

theorem pit_divisor:
  assumes "0 < freq" "freq < PIT_MAX_FREQ"
  shows "\<exists>lo hi. outputs (trace (pit_set_freq freq s)) = outputs (trace s) @ [(0x43, 0x36), (0x40, lo), (0x40, hi)]
    \<and> int (unat lo) + 256 * int (unat hi) = PIT_DEF_HZ div freq mod 65536
    \<and> (19 \<le> freq \<longleftrightarrow> PIT_DEF_HZ div freq mod 65536 = PIT_DEF_HZ div freq)
    \<and> tps (pit (pit_set_freq freq s)) = to_u32 (PIT_DEF_HZ div freq)"
proof -
  define dv where "dv = PIT_DEF_HZ div freq"
  have dv: "0 \<le> dv" "dv \<le> PIT_DEF_HZ"
    using assms(1) zdiv_mono2 [of PIT_DEF_HZ 1 freq] by (simp_all add: dv_def pos_imp_zdiv_nonneg_iff)
  let ?lo = "ucast (ucast (to_u32 dv AND 0xFF) :: u8) :: u32" and ?hi = "ucast (ucast (drop_bit 8 (to_u32 dv)) :: u8) :: u32"
  have u: "uint (to_u32 dv) = dv" using dv by (simp add: to_u32_def uint_word_of_int)
  have lo: "uint ?lo = dv mod 256"
  proof -
    have "?lo = take_bit 8 (to_u32 dv)" unfolding byte_mask by (rule bit_word_eqI) (auto simp: bit_simps)
    then show ?thesis using u by (simp add: unsigned_take_bit_eq take_bit_eq_mod uint_mod)
  qed
  have hi: "uint ?hi = dv div 256 mod 256"
  proof -
    have "?hi = take_bit 8 (drop_bit 8 (to_u32 dv))" by (rule bit_word_eqI) (auto simp: bit_simps)
    then show ?thesis using u by (simp add: unsigned_take_bit_eq unsigned_drop_bit_eq drop_bit_eq_div take_bit_eq_mod uint_mod uint_div)
  qed
  have "outputs (trace (pit_set_freq freq s)) = outputs (trace s) @ [(0x43, 0x36), (0x40, ?lo), (0x40, ?hi)]"
    using assms by (simp add: pit_set_freq_def port_defs Let_def flip: dv_def)
  moreover have "int (unat ?lo) + 256 * int (unat ?hi) = dv mod 65536"
  proof -
    have "dv mod 65536 = dv mod 256 + 256 * (dv div 256 mod 256)"
      using zmod_zmult2_eq [of 256 dv 256] by simp
    then show ?thesis by (simp only: uint_nat [symmetric] lo hi)
  qed
  moreover have "19 \<le> freq \<longleftrightarrow> dv mod 65536 = dv"
  proof
    assume "19 \<le> freq"
    then have "dv \<le> PIT_DEF_HZ div 19" unfolding dv_def by (intro zdiv_mono2) auto
    then show "dv mod 65536 = dv" using dv by simp
  next
    assume "dv mod 65536 = dv"
    then have "dv < 65536" using pos_mod_bound [of 65536 dv] by simp
    then show "19 \<le> freq"
    proof (rule contrapos_pp)
      assume "\<not> 19 \<le> freq"
      then have "PIT_DEF_HZ div 18 \<le> dv" unfolding dv_def using assms(1) by (intro zdiv_mono2) auto
      then show "\<not> dv < 65536" by simp
    qed
  qed
  moreover have "tps (pit (pit_set_freq freq s)) = to_u32 dv"
    using assms by (simp add: pit_set_freq_def port_defs Let_def flip: dv_def)
  ultimately show ?thesis unfolding dv_def by blast
qed

lemma pit_divisor_witness:
  "\<exists>lo hi. outputs (trace (pit_set_freq 1193 machine0)) = [(0x43, 0x36), (0x40, lo), (0x40, hi)]
    \<and> int (unat lo) + 256 * int (unat hi) = 1000"
  using pit_divisor [of 1193 machine0] by (auto simp: machine0_def pool_state.defs)

lemma msleep_ends:
  assumes ms: "0 < msec" "msec \<le> INT_MAX" and ticks: "\<forall>k. ticks k = ticks 0 + of_nat (f k)"
    and f: "f 0 = 0" "\<forall>k. f (Suc k) \<le> Suc (f k)" and reach: "int (f n) > msec"
  shows "\<exists>k. msleep ticks msec = Some k \<and> int (f k) = msec + 1 \<and> (\<forall>j<k. int (f j) \<le> msec)"
proof -
  define k where "k = (LEAST k. int (f k) > msec)"
  have k: "int (f k) > msec" unfolding k_def using reach by (rule LeastI)
  have before: "int (f j) \<le> msec" if "j < k" for j using not_less_Least [of j "\<lambda>k. int (f k) > msec"] that by (force simp: k_def)
  have k0: "0 < k" using k f(1) ms(1) by (cases k) auto
  then obtain i where i: "k = Suc i" by (cases k) auto
  have "int (f k) \<le> int (f i) + 1" using f(2) unfolding i by (metis of_nat_Suc of_nat_le_iff add.commute)
  then have eq: "int (f k) = msec + 1" using before [of i] k i by simp
  have cond: "to_u32 msec < ticks j - ticks 0 \<longleftrightarrow> int (f j) > msec" if "int (f j) \<le> INT_MAX + 1" for j
  proof -
    have t: "ticks j - ticks 0 = of_nat (f j)" using ticks [rule_format, of j] by simp
    have "unat (of_nat (f j) :: u32) = f j" using that by (intro unat_of_nat_lt) linarith
    moreover have "unat (to_u32 msec) = nat msec"
      using ms unat_of_nat_lt [of "nat msec"] by (simp add: to_u32_def)
    ultimately show ?thesis unfolding t word_less_nat_alt using ms(1) by linarith
  qed
  have run: "j \<le> k \<Longrightarrow> msleep_loop ticks (ticks 0) (to_u32 msec) j = Some k" for j
  proof (induction "k - j" arbitrary: j)
    case 0
    then show ?case using cond [of k] k eq ms(2) by (subst msleep_loop.simps) simp
  next
    case (Suc d)
    then have "j < k" by simp
    then show ?case using cond [of j] before [of j] ms(2) Suc by (subst msleep_loop.simps) simp
  qed
  have "msleep ticks msec = Some k" using run [of 1] k0 ms(1) by (simp add: msleep_def)
  then show ?thesis using eq before by blast
qed

text \<open>C37: \<open>msleep\<close> returns at the first look at which more than \<open>msec\<close> ticks have gone by, also when
  the counter wraps around meanwhile.\<close>

theorem msleep_returns:
  assumes ms: "0 < msec" "msec \<le> INT_MAX" and ticks: "\<forall>k. ticks k = ticks 0 + of_nat (f k)"
    and f: "f 0 = 0" "\<forall>k. f (Suc k) \<le> Suc (f k)" and reach: "int (f n) > msec"
  shows "\<exists>k. msleep ticks msec = Some k \<and> int (f k) = msec + 1 \<and> (\<forall>j<k. int (f j) \<le> msec)"
  by (rule msleep_ends [OF assms])

lemma msleep_returns_witness: "\<exists>k. msleep (\<lambda>k. 0xFFFFFFF0 + of_nat k) 1000 = Some k \<and> int k = 1001"
proof -
  have "\<exists>k. msleep (\<lambda>k. 0xFFFFFFF0 + of_nat k) 1000 = Some k \<and> int (id k) = 1000 + 1 \<and> (\<forall>j<k. int (id j) \<le> 1000)"
    by (rule msleep_returns [where f = id and n = 1001]) simp_all
  then show ?thesis by auto
qed

subsection \<open>The keyboard\<close>

lemma kprintf_trace: "kprintf l s fmt args = Some s' \<Longrightarrow> trace s' = trace s"
  by (auto simp: kprintf_def vkprintf_def vt_flush_with_buf_def vga_text_write_raw_def vt_flush_raw_def Let_def
      bind_eq_Some_conv split: if_splits)

lemma scan_table: "length scan_code_set1 = 128"
  by (simp add: scan_code_set1_def)



end
