(* ===== verification/Test_Procs.thy ===== *)
theory Test_Procs
  imports Base_Props Sched_Props Console_Line Drivers_Props
begin

text \<open>
  The two first processes, \<open>test1\<close> and \<open>test2\<close> of \<open>main.c\<close>, under the scheduler: each prints its line, sleeps
  a second and yields, for ever.  Here printing, sleeping and scheduling come together: the turns of the kernel are
  runs of the step relation of \<open>Threads\<close>, and they go on for as long as the screen's buffer has rows.
\<close>

subsection \<open>The processes and the turns of the kernel\<close>

text \<open>
  What a process is compiled to: the local arrays of \<open>kprintf\<close>, the strings of its \<open>debug\<close> call, the registers at its
  call of \<open>sched_yield\<close>, which are the same each time round, and the address behind the call.  \<open>test1\<close> and
  \<open>test2\<close> are the same code with different strings.
\<close>

record proc_env =
  pe_locals :: locals
  pe_dbg :: dbg_strings
  pe_regs :: cpu_regs
  pe_ret :: u32

text \<open>One round of the loop of a process; \<open>looks\<close> is what \<open>msleep\<close> finds in the tick counter.\<close>

definition test_round :: "proc_env \<Rightarrow> (nat \<Rightarrow> u32) \<Rightarrow> 'a sched_state_scheme \<Rightarrow> (cpu_regs \<times> 'a sched_state_scheme) option" where
  "test_round E looks s = do {
     s \<leftarrow> debug (pe_locals E) (pe_dbg E) 0 [] s;
     _ \<leftarrow> msleep looks 1000;
     Some (sched_yield (pe_ret E) (pe_regs E) s) }"

text \<open>
  A turn of the kernel: a pass of the scheduler's loop up to the switch, the round of the process that was switched to,
  and the return to the loop, which takes the arguments of the call from its stack.
\<close>

definition test_turn :: "u32 \<Rightarrow> (nat \<Rightarrow> proc_env) \<Rightarrow> (nat \<Rightarrow> u32) \<Rightarrow> cpu_regs \<times> 'a sched_state_scheme
    \<Rightarrow> (cpu_regs \<times> 'a sched_state_scheme) option" where
  "test_turn rs E looks cs =
     (case sched_pass rs (fst cs) (snd cs) of
        (Switched, c, s) \<Rightarrow> do {
          (c, s) \<leftarrow> test_round (E (if cur_proc (sc s) = proc_table (pmgr s) then 0 else 1)) looks s;
          Some (c\<lparr>esp := esp c + 8\<rparr>, s) }
      | _ \<Rightarrow> None)"

primrec test_turns :: "u32 \<Rightarrow> (nat \<Rightarrow> proc_env) \<Rightarrow> (nat \<Rightarrow> nat \<Rightarrow> u32) \<Rightarrow> nat \<Rightarrow> cpu_regs \<times> 'a sched_state_scheme
    \<Rightarrow> (cpu_regs \<times> 'a sched_state_scheme) option" where
  "test_turns rs E looks 0 cs = Some cs"
| "test_turns rs E looks (Suc n) cs = do { cs \<leftarrow> test_turns rs E looks n cs; test_turn rs E (looks n) cs }"

subsection \<open>The line of a process\<close>

text \<open>The format \<open>"[f:%s][l:%d]"\<close> with the text of the call behind it, and the line it stands for.\<close>

definition test_fmt :: "u8 list \<Rightarrow> piece list" where
  "test_fmt txt = map Lit [0x5B, 0x66, 0x3A] @ [Str] @ map Lit [0x5D, 0x5B, 0x6C, 0x3A] @ [Dec] @ map Lit (0x5D # txt @ [10])"

definition test_line :: "u8 list \<Rightarrow> u32 \<Rightarrow> u8 list \<Rightarrow> u8 list" where
  "test_line name n txt = [0x5B, 0x66, 0x3A] @ name @ [0x5D, 0x5B, 0x6C, 0x3A] @ dec_string (to_s32 n) @ [0x5D] @ txt"

lemma render_lits: "render str (map Lit cs @ ps) args = cs @ render str ps args"
  by (induction cs) simp_all

lemma render_lits_end [simp]: "render str (map Lit cs) args = cs"
  using render_lits [of str cs "[]" args] by simp

lemma fmt_of_lits [simp]: "fmt_of (map Lit cs @ ps) = cs @ fmt_of ps" "fmt_of (map Lit cs) = cs"
  by (induction cs) simp_all

lemma pieces_ok_lits [simp]:
  "pieces_ok l m str (map Lit cs @ ps) args \<longleftrightarrow> (\<forall>c\<in>set cs. printable c = 1) \<and> pieces_ok l m str ps args"
  "pieces_ok l m str (map Lit cs) [] \<longleftrightarrow> (\<forall>c\<in>set cs. printable c = 1)"
  by (induction cs) auto

lemma render_test: "render str (test_fmt txt) [a, n] = test_line (str a) n txt @ [10]"
  by (simp only: test_fmt_def test_line_def render_lits render_lits_end render.simps append_Cons append_Nil append_assoc)

lemma dec_string_no_feed: "10 \<notin> set (dec_string n)"
proof -
  have "of_nat d + 48 \<noteq> (10 :: u8)" if "d < 10" for d
  proof -
    have "d \<in> {0, 1, 2, 3, 4, 5, 6, 7, 8, 9}" using that by auto
    then show ?thesis by auto
  qed
  then show ?thesis using digs_lt by (auto simp: dec_string_def)
qed

subsection \<open>What a process needs\<close>

text \<open>
  Process \<open>i\<close> has its local arrays on its stack; its strings lie apart from the scheduler's memory and from the
  screen; its line fits a row; and it calls \<open>sched_yield\<close> with room for the call.
\<close>

definition string_byte :: "proc_env \<Rightarrow> u8 list \<Rightarrow> u8 list \<Rightarrow> addr \<Rightarrow> bool" where
  "string_byte E name txt x \<longleftrightarrow> inside (dbg_fmt (pe_dbg E) 0) (Suc (length (fmt_of (test_fmt txt)))) x
     \<or> inside (dbg_fn (pe_dbg E)) (Suc (length name)) x"

definition env_ok :: "addr \<Rightarrow> 'a sched_state_scheme \<Rightarrow> nat \<Rightarrow> proc_env \<Rightarrow> u8 list \<Rightarrow> u8 list \<Rightarrow> bool" where
  "env_ok b s i E name txt \<longleftrightarrow> locals_ok (pe_locals E) \<and> (\<forall>x. local_at (pe_locals E) x \<longrightarrow> inside (pstk s i) 2048 x)
     \<and> cstr (km s) (dbg_fmt (pe_dbg E) 0) (fmt_of (test_fmt txt)) \<and> dbg_fmt (pe_dbg E) 0 \<noteq> NULL
     \<and> cstr (km s) (dbg_fn (pe_dbg E)) name \<and> dbg_fn (pe_dbg E) \<noteq> NULL
     \<and> (\<forall>x. string_byte E name txt x \<longrightarrow> \<not> sched_mem b s x \<and> \<not> inside (vga_bp (vga s)) 4000 x)
     \<and> name \<noteq> [] \<and> 10 \<notin> set name \<and> (\<forall>c\<in>set txt. printable c = 1) \<and> 10 \<notin> set txt
     \<and> to_s32 (dbg_line (pe_dbg E) 0) \<noteq> INT_MIN \<and> length (test_line name (dbg_line (pe_dbg E) 0) txt) \<le> 80
     \<and> (\<exists>d. 28 \<le> d \<and> d \<le> 2048 \<and> esp (pe_regs E) = pstk s i + of_nat d)"

definition screen_ok :: "addr \<Rightarrow> 'a sched_state_scheme \<Rightarrow> bool" where
  "screen_ok b s \<longleftrightarrow> vga_inited (vga s) \<and> curr_col (vga s) = 0 \<and> (\<forall>x. inside (vga_bp (vga s)) 4000 x \<longrightarrow> \<not> sched_mem b s x)"

lemma sched_mem_place: "same_place s s' \<Longrightarrow> sched_mem b s' = sched_mem b s"
  by (auto simp: same_place_def sched_mem_def fun_eq_iff)

lemma env_ok_cong:
  assumes p: "same_place s s'" and v: "vga_bp (vga s') = vga_bp (vga s)"
    and m: "\<And>x. \<not> sched_mem b s x \<Longrightarrow> \<not> inside (vga_bp (vga s)) 4000 x \<Longrightarrow> km s' x = km s x" and E: "env_ok b s i E name txt"
  shows "env_ok b s' i E name txt"
proof -
  have k: "km s' x = km s x" if "string_byte E name txt x" for x using E m that unfolding env_ok_def by blast
  have ln: "length name \<le> 80" "length txt \<le> 80" using E by (simp_all add: env_ok_def test_line_def)
  have "cstr (km s') (dbg_fmt (pe_dbg E) 0) (fmt_of (test_fmt txt)) = cstr (km s) (dbg_fmt (pe_dbg E) 0) (fmt_of (test_fmt txt))"
    by (rule cstr_cong) (use ln k in \<open>simp_all add: string_byte_def test_fmt_def\<close>)
  moreover have "cstr (km s') (dbg_fn (pe_dbg E)) name = cstr (km s) (dbg_fn (pe_dbg E)) name"
    by (rule cstr_cong) (use ln k in \<open>simp_all add: string_byte_def\<close>)
  ultimately show ?thesis using E v same_place_pcb [OF p] by (simp add: env_ok_def sched_mem_place [OF p])
qed

text \<open>The stack of a process that runs is its own, and what is not the scheduler's memory is free for it.\<close>

lemma not_owned:
  assumes l: "layout s b" and i: "i < 128" and ca: "ld32 (km s) (context_at (sc s)) = b"
  shows "inside (pstk s i) 2048 x \<Longrightarrow> \<not> sched_owned s i x" "\<not> sched_mem b s x \<Longrightarrow> \<not> sched_owned s i x"
proof -
  show "\<not> sched_owned s i x" if "inside (pstk s i) 2048 x"
  proof -
    have "inside (proc_stack (pmgr s)) 262144 x" using stk_inside [OF i, of s 0 2048 x] that by simp
    then show ?thesis using that l ca by (auto simp: sched_owned_def layout_def dest: apart_inside)
  qed
  show "\<not> sched_mem b s x \<Longrightarrow> \<not> sched_owned s i x" using ca by (auto simp: sched_owned_def sched_mem_def)
qed

lemma stack_not_screen:
  assumes "screen_ok b s" "i < 128" "inside (pstk s i) 2048 x"
  shows "\<not> inside (vga_bp (vga s)) 4000 x"
  using assms stk_inside [of i s 0 2048 x] by (auto simp: screen_ok_def sched_mem_def)

subsection \<open>The steps of a turn\<close>

text \<open>What \<open>kprintf\<close> asks of the call of \<open>debug\<close>.\<close>

lemma debug_call:
  assumes E: "env_ok b s i E name txt" and i: "i < 128"
  defines "n \<equiv> dbg_line (pe_dbg E) 0"
  shows "locals_ok (pe_locals E)" "cstr (km s) (dbg_fmt (pe_dbg E) 0) (fmt_of (test_fmt txt))" "dbg_fmt (pe_dbg E) 0 \<noteq> NULL"
    "length (fmt_of (test_fmt txt)) < 2147483647"
    "\<forall>x. inside (dbg_fmt (pe_dbg E) 0) (Suc (length (fmt_of (test_fmt txt)))) x \<longrightarrow> \<not> local_at (pe_locals E) x"
    "pieces_ok (pe_locals E) (km s) (\<lambda>_. name) (test_fmt txt) [dbg_fn (pe_dbg E), n]" "\<forall>a :: addr. length ((\<lambda>_. name) a) < 256"
    "render (\<lambda>_. name) (test_fmt txt) [dbg_fn (pe_dbg E), n] = test_line name n txt @ [10]"
    "10 \<notin> set (test_line name n txt)" "length (test_line name n txt) \<le> 80"
proof -
  note D = E [unfolded env_ok_def]
  have ln: "length name \<le> 80" "length txt \<le> 80" using E by (simp_all add: env_ok_def test_line_def)
  have loc: "\<not> local_at (pe_locals E) x" if "string_byte E name txt x" for x
  proof -
    have "\<not> inside (pstk s i) 2048 x" using D that stk_inside [OF i, of s 0 2048 x] by (auto simp: sched_mem_def)
    then show ?thesis using D by blast
  qed
  show "locals_ok (pe_locals E)" "cstr (km s) (dbg_fmt (pe_dbg E) 0) (fmt_of (test_fmt txt))" "dbg_fmt (pe_dbg E) 0 \<noteq> NULL"
    "length (test_line name n txt) \<le> 80" using D by (simp_all add: n_def)
  show "length (fmt_of (test_fmt txt)) < 2147483647" using ln by (simp add: test_fmt_def)
  show "\<forall>x. inside (dbg_fmt (pe_dbg E) 0) (Suc (length (fmt_of (test_fmt txt)))) x \<longrightarrow> \<not> local_at (pe_locals E) x"
    using loc by (simp add: string_byte_def)
  show "\<forall>a :: addr. length ((\<lambda>_. name) a) < 256" using ln by simp
  have "pieces_ok (pe_locals E) (km s) (\<lambda>_. name) (map Lit (0x5D # txt @ [10])) []"
    unfolding pieces_ok_lits using D by (auto simp: printable_def)
  then show "pieces_ok (pe_locals E) (km s) (\<lambda>_. name) (test_fmt txt) [dbg_fn (pe_dbg E), n]"
    using D loc unfolding test_fmt_def
    by (simp only: pieces_ok_lits pieces_ok.simps append_Cons append_Nil) (simp add: printable_def string_byte_def n_def)
  show "render (\<lambda>_. name) (test_fmt txt) [dbg_fn (pe_dbg E), n] = test_line name n txt @ [10]" by (simp add: render_test)
  show "10 \<notin> set (test_line name n txt)" using D dec_string_no_feed by (simp add: test_line_def)
qed

text \<open>The line of a process is on the screen where the line in row \<open>r\<close> of the buffer is seen.\<close>

definition line_shown :: "proc_env \<Rightarrow> u8 list \<Rightarrow> u8 list \<Rightarrow> nat \<Rightarrow> 'a machine_scheme \<Rightarrow> bool" where
  "line_shown E name txt r s \<longleftrightarrow> (\<forall>x<length (test_line name (dbg_line (pe_dbg E) 0) txt).
     km s (vga_bp (vga s) + of_nat (2 * (80 * line_at r + x))) = test_line name (dbg_line (pe_dbg E) 0) txt ! x)"

lemma line_shown_keep:
  fixes s :: "'a sched_state_scheme"
  assumes sh: "line_shown E name txt r s" and S: "screen_ok b s" and len: "length (test_line name (dbg_line (pe_dbg E) 0) txt) \<le> 80"
    and m: "\<forall>x. \<not> sched_mem b s x \<longrightarrow> km s' x = km s x" and v: "vga s' = vga s"
  shows "line_shown E name txt r s'"
  unfolding line_shown_def v
proof (intro allI impI)
  fix x assume x: "x < length (test_line name (dbg_line (pe_dbg E) 0) txt)"
  have "2 * (80 * line_at r + x) < 4000" using x len by (simp add: line_at_def)
  then have "inside (vga_bp (vga s)) 4000 (vga_bp (vga s) + of_nat (2 * (80 * line_at r + x)))" by (intro inside_add) simp_all
  then have "km s' (vga_bp (vga s) + of_nat (2 * (80 * line_at r + x))) = km s (vga_bp (vga s) + of_nat (2 * (80 * line_at r + x)))"
    using S m unfolding screen_ok_def by blast
  then show "km s' (vga_bp (vga s) + of_nat (2 * (80 * line_at r + x))) = test_line name (dbg_line (pe_dbg E) 0) txt ! x"
    using sh x unfolding line_shown_def by presburger
qed

lemma process_prints:
  fixes s :: "'a sched_state_scheme"
  assumes r: "refines b (In_proc, c, s) a" and run: "running a = Some i" and E: "env_ok b s i E name txt"
    and S: "screen_ok b s" and row: "unat (curr_row (vga s)) < 399"
  obtains s' where "debug (pe_locals E) (pe_dbg E) 0 [] s = Some s'" "kstep rs (In_proc, c, s) (Work i) (In_proc, c', s')"
    "same_place s s'" "\<forall>x. \<not> sched_mem b s x \<longrightarrow> \<not> inside (vga_bp (vga s)) 4000 x \<longrightarrow> km s' x = km s x"
    "line_shown E name txt (unat (curr_row (vga s))) s'"
    "unat (curr_row (vga s')) = unat (curr_row (vga s)) + 1" "vga_bp (vga s') = vga_bp (vga s)" "screen_ok b s'"
proof -
  have i: "i < 128" "cur_proc (sc s) = pcb s i" using r run by auto
  have l: "layout s b" and ca: "ld32 (km s) (context_at (sc s)) = b" using r by (simp_all add: base_def)
  note C = debug_call [OF E i(1)]
  have cur: "vga_inited (vga s)" "curr_col (vga s) = 0" using S by (simp_all add: screen_ok_def)
  obtain s' where s': "kprintf (pe_locals E) s (dbg_fmt (pe_dbg E) 0) [dbg_fn (pe_dbg E), dbg_line (pe_dbg E) 0] = Some s'"
    "s' = s\<lparr>km := km s', parse := parse s', vga := vga s'\<rparr>"
    "\<forall>x<length (test_line name (dbg_line (pe_dbg E) 0) txt).
       km s' (vga_bp (vga s) + of_nat (2 * (80 * line_at (unat (curr_row (vga s))) + x))) = test_line name (dbg_line (pe_dbg E) 0) txt ! x"
    "\<forall>x. \<not> local_at (pe_locals E) x \<longrightarrow> \<not> inside (vga_bp (vga s)) 4000 x \<longrightarrow> km s' x = km s x"
    "unat (curr_row (vga s')) = unat (curr_row (vga s)) + 1" "curr_col (vga s') = 0" "vga_bp (vga s') = vga_bp (vga s)" "vga_inited (vga s')"
    by (rule kprintf_next_line [OF C cur(1) row cur(2)])
  have sc: "sc s' = sc s" "pmgr s' = pmgr s" by (subst s'(2), simp)+
  then have p: "same_place s s'" by (simp add: same_place_def)
  have loc: "inside (pstk s i) 2048 x" if "local_at (pe_locals E) x" for x using E that by (simp add: env_ok_def)
  have keep: "km s' x = km s x" if "sched_owned s i x" for x
  proof -
    have "\<not> local_at (pe_locals E) x" using not_owned(1) [OF l i(1) ca] loc that by blast
    moreover have "\<not> inside (vga_bp (vga s)) 4000 x"
      using S not_owned(2) [OF l i(1) ca] that by (auto simp: screen_ok_def)
    ultimately show ?thesis using s'(4) by blast
  qed
  have "km s' x = km s x" if "\<not> sched_mem b s x" "\<not> inside (vga_bp (vga s)) 4000 x" for x
  proof -
    have "\<not> inside (pstk s i) 2048 x" using that(1) stk_inside [OF i(1), of s 0 2048 x] by (auto simp: sched_mem_def)
    then show ?thesis using s'(4) loc that(2) by blast
  qed
  moreover have "kstep rs (In_proc, c, s) (Work i) (In_proc, c', s')" by (rule k_work [OF i sc keep])
  moreover have "screen_ok b s'" using S s'(6-8) by (simp add: screen_ok_def sched_mem_place [OF p])
  moreover have "line_shown E name txt (unat (curr_row (vga s))) s'" using s'(3) unfolding line_shown_def s'(7) .
  ultimately show ?thesis using that [of s'] s'(1,5,7) p by (simp add: debug_def)
qed

lemma process_yields:
  fixes s :: "'a sched_state_scheme"
  assumes r: "refines b (In_proc, pe_regs E, s) a" and run: "running a = Some i" and E: "env_ok b s i E name txt"
  obtains c' s' where "sched_yield (pe_ret E) (pe_regs E) s = (c', s')"
    "kstep rs (In_proc, pe_regs E, s) (Yield i ((pe_regs E)\<lparr>esp := esp (pe_regs E) - 8, eip := pe_ret E\<rparr>)) (In_sched, c'\<lparr>esp := esp c' + 8\<rparr>, s')"
    "same_place s s'" "\<forall>x. \<not> sched_mem b s x \<longrightarrow> km s' x = km s x" "vga s' = vga s"
proof -
  have i: "i < 128" "cur_proc (sc s) = pcb s i" "i \<notin> set (tq a)" and B: "layout s b" "sc_inited (sc s)" "queue s (tq a)"
    and ca: "ld32 (km s) (context_at (sc s)) = b"
    using r run by (auto simp: base_def)
  obtain d where d: "esp (pe_regs E) = pstk s i + of_nat d" "28 \<le> d" "d \<le> 2048" using E by (auto simp: env_ok_def)
  obtain s' where y: "sched_yield (pe_ret E) (pe_regs E) s = (load_ctx (km s') b, s')" "same_place s s'"
    "\<forall>x. \<not> sched_mem b s x \<longrightarrow> km s' x = km s x" "vga s' = vga s"
    using sched_yield_effect [OF B(1,3) i(1,3,2) B(2) ca d, of "pe_ret E"] by blast
  show ?thesis by (rule that [OF y(1) k_yield [OF i(1,2) y(1) d] y(2-4)])
qed

lemma process_dispatched:
  assumes r: "refines b (In_sched, c, s) a" and q: "tq a = i # q"
  obtains c' s' where "sched_pass rs c s = (Switched, c', s')" "kstep rs (In_sched, c, s) (Dispatch i c') (In_proc, c', s')"
    "cur_proc (sc s') = pcb s' i" "same_place s s'" "\<forall>x. \<not> sched_mem b s x \<longrightarrow> km s' x = km s x" "vga s' = vga s"
proof -
  have l: "layout s b" and qu: "queue s (i # q)" and e: "esp c = b + 28" using r q by (simp_all add: base_def)
  then have i: "i < 128" by (simp add: queue_def)
  obtain c' s' where s': "sched_pass rs c s = (Switched, c', s')" "same_place s s'" "cur_proc (sc s') = pcb s i"
    "\<forall>x. \<not> sched_mem b s x \<longrightarrow> km s' x = km s x" "vga s' = vga s"
    using sched_pass_dispatch [OF l qu e, of rs] by blast
  have "pcb s' = pcb s" using same_place_pcb [OF s'(2)] by simp
  then show ?thesis using that [OF s'(1) k_dispatch [OF s'(1) i s'(3)] _ s'(2,4,5)] s'(3) by simp
qed

text \<open>The state between two turns: process \<open>i\<close> is next, and row \<open>r\<close> of the buffer.\<close>

definition between :: "addr \<Rightarrow> (nat \<Rightarrow> proc_env) \<Rightarrow> (nat \<Rightarrow> u8 list) \<Rightarrow> (nat \<Rightarrow> u8 list) \<Rightarrow> nat \<Rightarrow> nat
    \<Rightarrow> cpu_regs \<times> 'a sched_state_scheme \<Rightarrow> bool" where
  "between b E name txt i r cs \<longleftrightarrow> (\<exists>a. refines b (In_sched, cs) a \<and> tq a = [i, 1 - i]) \<and> i < 2
     \<and> (\<forall>j<2. env_ok b (snd cs) j (E j) (name j) (txt j)) \<and> screen_ok b (snd cs) \<and> unat (curr_row (vga (snd cs))) = r"

lemma who_runs:
  assumes "i < 2" "cur_proc (sc s) = pcb s i"
  shows "(if cur_proc (sc s) = proc_table (pmgr s) then 0 else 1) = i"
  using assms pcb_eq_iff [of i 0 s] by (cases i) (auto simp: pcb_def)

lemma turn_to_process:
  fixes s :: "'a sched_state_scheme"
  assumes I: "between b E name txt i r (c, s)"
  obtains c0 s0 a0 where "sched_pass rs c s = (Switched, c0, s0)" "kstep rs (In_sched, c, s) (Dispatch i c0) (In_proc, c0, s0)"
    "refines b (In_proc, c0, s0) a0" "running a0 = Some i" "tq a0 = [1 - i]"
    "(if cur_proc (sc s0) = proc_table (pmgr s0) then 0 else 1) = i"
    "\<forall>j<2. env_ok b s0 j (E j) (name j) (txt j)" "screen_ok b s0" "unat (curr_row (vga s0)) = r"
proof -
  obtain a where a: "refines b (In_sched, c, s) a" "tq a = [i, 1 - i]" "i < 2" using I by (auto simp: between_def)
  obtain c0 s0 where s0: "sched_pass rs c s = (Switched, c0, s0)" "kstep rs (In_sched, c, s) (Dispatch i c0) (In_proc, c0, s0)"
    "cur_proc (sc s0) = pcb s0 i" "same_place s s0" "\<forall>x. \<not> sched_mem b s x \<longrightarrow> km s0 x = km s x" "vga s0 = vga s"
    by (rule process_dispatched [OF a(1,2)])
  obtain a0 where a0: "tstep a (Dispatch i c0) a0" "refines b (In_proc, c0, s0) a0" using kstep_refines [OF s0(2) a(1)] by blast
  then have "running a0 = Some i" "tq a0 = [1 - i]" using a(2) by (auto elim: tstep_elims)
  moreover have "env_ok b s0 j (E j) (name j) (txt j)" if "j < 2" for j
    by (rule env_ok_cong [OF s0(4)]) (use s0(5,6) I that in \<open>simp_all add: between_def\<close>)
  moreover have "screen_ok b s0" "unat (curr_row (vga s0)) = r"
    using I s0(6) sched_mem_place [OF s0(4)] by (simp_all add: between_def screen_ok_def)
  ultimately show ?thesis using that s0(1,2) a0(2) who_runs [OF a(3) s0(3)] by blast
qed

text \<open>A round of the process that runs: it prints, sleeps and yields.\<close>

lemma round_runs:
  fixes s0 :: "'a sched_state_scheme"
  assumes R: "refines b (In_proc, c0, s0) a0" and run: "running a0 = Some i" and i: "i < 2" and r: "r < 399"
    and E0: "\<forall>j<2. env_ok b s0 j (E j) (name j) (txt j)" and S0: "screen_ok b s0" and row: "unat (curr_row (vga s0)) = r"
    and clock: "msleep looks 1000 \<noteq> None"
  obtains c2 s2 c1 a2 where "test_round (E i) looks s0 = Some (c2, s2)"
    "steps (kstep rs) (In_proc, c0, s0) [Work i, Yield i c1] (In_sched, c2\<lparr>esp := esp c2 + 8\<rparr>, s2)"
    "refines b (In_sched, c2\<lparr>esp := esp c2 + 8\<rparr>, s2) a2" "tq a2 = tq a0 @ [i]"
    "\<forall>j<2. env_ok b s2 j (E j) (name j) (txt j)" "screen_ok b s2" "unat (curr_row (vga s2)) = r + 1"
    "line_shown (E i) (name i) (txt i) r s2"
proof -
  have Ei: "env_ok b s0 i (E i) (name i) (txt i)" using E0 i by blast
  have rr: "unat (curr_row (vga s0)) < 399" using r row by simp
  obtain s1 where s1: "debug (pe_locals (E i)) (pe_dbg (E i)) 0 [] s0 = Some s1"
    "kstep rs (In_proc, c0, s0) (Work i) (In_proc, pe_regs (E i), s1)"
    "same_place s0 s1" "\<forall>x. \<not> sched_mem b s0 x \<longrightarrow> \<not> inside (vga_bp (vga s0)) 4000 x \<longrightarrow> km s1 x = km s0 x"
    "line_shown (E i) (name i) (txt i) (unat (curr_row (vga s0))) s1"
    "unat (curr_row (vga s1)) = unat (curr_row (vga s0)) + 1" "vga_bp (vga s1) = vga_bp (vga s0)" "screen_ok b s1"
    by (rule process_prints [OF R run Ei S0 rr])
  have E1: "env_ok b s1 j (E j) (name j) (txt j)" if "j < 2" for j
    by (rule env_ok_cong [OF s1(3,7)]) (use s1(4) E0 that in simp_all)
  obtain a1 where "tstep a0 (Work i) a1" "refines b (In_proc, pe_regs (E i), s1) a1" using kstep_refines [OF s1(2) R] by blast
  then have a1: "refines b (In_proc, pe_regs (E i), s1) a0" by (auto elim: tstep_elims)
  let ?c1 = "(pe_regs (E i))\<lparr>esp := esp (pe_regs (E i)) - 8, eip := pe_ret (E i)\<rparr>"
  obtain c2 s2 where s2: "sched_yield (pe_ret (E i)) (pe_regs (E i)) s1 = (c2, s2)"
    "kstep rs (In_proc, pe_regs (E i), s1) (Yield i ?c1) (In_sched, c2\<lparr>esp := esp c2 + 8\<rparr>, s2)"
    "same_place s1 s2" "\<forall>x. \<not> sched_mem b s1 x \<longrightarrow> km s2 x = km s1 x" "vga s2 = vga s1"
    by (rule process_yields [OF a1 run E1 [OF i]])
  obtain a2 where a2: "tstep a0 (Yield i ?c1) a2" "refines b (In_sched, c2\<lparr>esp := esp c2 + 8\<rparr>, s2) a2"
    using kstep_refines [OF s2(2) a1] by blast
  have E2: "\<forall>j<2. env_ok b s2 j (E j) (name j) (txt j)"
    using env_ok_cong [OF s2(3), where b = b] s2(4,5) E1 by simp
  show ?thesis
  proof (rule that)
    obtain k where "msleep looks 1000 = Some k" using clock by blast
    then show "test_round (E i) looks s0 = Some (c2, s2)" using s1(1) s2(1) by (simp add: test_round_def)
    show "steps (kstep rs) (In_proc, c0, s0) [Work i, Yield i ?c1] (In_sched, c2\<lparr>esp := esp c2 + 8\<rparr>, s2)"
      by (rule step_ s1(2) s2(2) done_)+
    show "screen_ok b s2" using s1(8) s2(5) sched_mem_place [OF s2(3)] by (simp add: screen_ok_def)
    show "line_shown (E i) (name i) (txt i) r s2"
      by (rule line_shown_keep [OF s1(5) [unfolded row] s1(8) _ s2(4,5)]) (use Ei in \<open>simp add: env_ok_def\<close>)
  qed (use a2 E2 s1(6) s2(5) row in \<open>auto elim: tstep_elims\<close>)
qed

lemma turn_runs:
  fixes s :: "'a sched_state_scheme"
  assumes I: "between b E name txt i r (c, s)" and r: "r < 399" and clock: "msleep looks 1000 \<noteq> None"
  obtains c' s' c0 c1 where "test_turn rs E looks (c, s) = Some (c', s')"
    "steps (kstep rs) (In_sched, c, s) [Dispatch i c0, Work i, Yield i c1] (In_sched, c', s')"
    "between b E name txt (1 - i) (r + 1) (c', s')" "line_shown (E i) (name i) (txt i) r s'"
proof -
  obtain c0 s0 a0 where s0: "sched_pass rs c s = (Switched, c0, s0)" "kstep rs (In_sched, c, s) (Dispatch i c0) (In_proc, c0, s0)"
    and a0: "refines b (In_proc, c0, s0) a0" "running a0 = Some i" "tq a0 = [1 - i]"
    and who: "(if cur_proc (sc s0) = proc_table (pmgr s0) then 0 else 1) = i"
    and E0: "\<forall>j<2. env_ok b s0 j (E j) (name j) (txt j)" and S0: "screen_ok b s0" and row: "unat (curr_row (vga s0)) = r"
    by (rule turn_to_process [OF I])
  have i: "i < 2" "1 - i < 2" "1 - (1 - i) = i" using I by (auto simp: between_def)
  obtain c2 s2 c1 a2 where s2: "test_round (E i) looks s0 = Some (c2, s2)"
    "steps (kstep rs) (In_proc, c0, s0) [Work i, Yield i c1] (In_sched, c2\<lparr>esp := esp c2 + 8\<rparr>, s2)"
    "refines b (In_sched, c2\<lparr>esp := esp c2 + 8\<rparr>, s2) a2" "tq a2 = tq a0 @ [i]"
    "\<forall>j<2. env_ok b s2 j (E j) (name j) (txt j)" "screen_ok b s2" "unat (curr_row (vga s2)) = r + 1"
    "line_shown (E i) (name i) (txt i) r s2"
    by (rule round_runs [OF a0(1,2) i(1) r E0 S0 row clock])
  show ?thesis
  proof (rule that [OF _ step_ [OF s0(2) s2(2)] _ s2(8)])
    show "test_turn rs E looks (c, s) = Some (c2\<lparr>esp := esp c2 + 8\<rparr>, s2)"
      unfolding test_turn_def fst_conv snd_conv s0(1) prod.case pass.case who using s2(1) by simp
    have "tq a2 = [1 - i, i]" using s2(4) a0(3) by simp
    then show "between b E name txt (1 - i) (r + 1) (c2\<lparr>esp := esp c2 + 8\<rparr>, s2)"
      unfolding between_def snd_conv i(3) using s2(3,5-7) i(2) by blast
  qed
qed

text \<open>With the last row of the buffer under the cursor the next turn has no defined result.\<close>

lemma turn_undefined:
  fixes s :: "'a sched_state_scheme"
  assumes I: "between b E name txt i 399 (c, s)"
  shows "test_turn rs E looks (c, s) = None"
proof -
  obtain c0 s0 a0 where s0: "sched_pass rs c s = (Switched, c0, s0)"
    and who: "(if cur_proc (sc s0) = proc_table (pmgr s0) then 0 else 1) = i"
    and E0: "\<forall>j<2. env_ok b s0 j (E j) (name j) (txt j)" and S0: "screen_ok b s0" and row: "unat (curr_row (vga s0)) = 399"
    by (rule turn_to_process [OF I])
  have i: "i < 2" "i < 128" using I by (simp_all add: between_def)
  have cur: "vga_inited (vga s0)" "curr_col (vga s0) = 0" using S0 by (simp_all add: screen_ok_def)
  have "env_ok b s0 i (E i) (name i) (txt i)" using E0 i by blast
  note C = debug_call [OF this i(2)]
  have "debug (pe_locals (E i)) (pe_dbg (E i)) 0 [] s0 = None"
    unfolding debug_def by (rule kprintf_line_full [OF C cur(1) row cur(2)])
  then have "test_round (E i) looks s0 = None" by (simp add: test_round_def)
  then show ?thesis unfolding test_turn_def fst_conv snd_conv s0 prod.case pass.case who by simp
qed

subsection \<open>Running out of rows\<close>

text \<open>The tick counter goes on by at most one from look to look, and by more than 1000 in the end.\<close>

definition clock_runs :: "(nat \<Rightarrow> u32) \<Rightarrow> bool" where
  "clock_runs ticks \<longleftrightarrow> (\<exists>f n. (\<forall>k. ticks k = ticks 0 + of_nat (f k)) \<and> f 0 = 0 \<and> (\<forall>k. f (Suc k) \<le> Suc (f k)) \<and> 1000 < f n)"

lemma clock_msleep: "clock_runs ticks \<Longrightarrow> msleep ticks 1000 \<noteq> None"
proof -
  assume "clock_runs ticks"
  then obtain f n where f: "\<forall>k. ticks k = ticks 0 + of_nat (f k)" "f 0 = 0" "\<forall>k. f (Suc k) \<le> Suc (f k)" "1000 < f n"
    unfolding clock_runs_def by blast
  have "int (f n) > 1000" using f(4) by simp
  then have "\<exists>k. msleep ticks 1000 = Some k \<and> int (f k) = 1000 + 1 \<and> (\<forall>j<k. int (f j) \<le> 1000)"
    by (intro msleep_ends [OF _ _ f(1-3)]) simp_all
  then show "msleep ticks 1000 \<noteq> None" by auto
qed

lemma steps_trans: "steps R a ls b \<Longrightarrow> steps R b ks c \<Longrightarrow> steps R a (ls @ ks) c"
  by (induction rule: steps.induct) (auto intro: steps.intros)

lemma turns_run:
  fixes s :: "'a sched_state_scheme"
  assumes I: "between b E name txt 0 r (c, s)" and clock: "\<And>n. clock_runs (looks n)" and n: "r + n \<le> 399"
  shows "\<exists>c' s' ls. test_turns rs E looks n (c, s) = Some (c', s') \<and> steps (kstep rs) (In_sched, c, s) ls (In_sched, c', s')
     \<and> dispatches ls = map (\<lambda>k. k mod 2) [0..<n] \<and> between b E name txt (n mod 2) (r + n) (c', s')
     \<and> (0 < n \<longrightarrow> line_shown (E ((n - 1) mod 2)) (name ((n - 1) mod 2)) (txt ((n - 1) mod 2)) (r + n - 1) s')"
  using n
proof (induction n)
  case 0
  then show ?case using I by (auto intro: done_)
next
  case (Suc n)
  then obtain c1 s1 ls where IH: "test_turns rs E looks n (c, s) = Some (c1, s1)" "steps (kstep rs) (In_sched, c, s) ls (In_sched, c1, s1)"
    "dispatches ls = map (\<lambda>k. k mod 2) [0..<n]" "between b E name txt (n mod 2) (r + n) (c1, s1)"
    by auto
  obtain c2 s2 c0 c3 where T: "test_turn rs E (looks n) (c1, s1) = Some (c2, s2)"
    "steps (kstep rs) (In_sched, c1, s1) [Dispatch (n mod 2) c0, Work (n mod 2), Yield (n mod 2) c3] (In_sched, c2, s2)"
    "between b E name txt (1 - n mod 2) (r + n + 1) (c2, s2)" "line_shown (E (n mod 2)) (name (n mod 2)) (txt (n mod 2)) (r + n) s2"
    by (rule turn_runs [OF IH(4) _ clock_msleep [OF clock]]) (use Suc(2) in auto)
  have m: "1 - n mod 2 = Suc n mod 2" by (simp add: mod_Suc)
  show ?case
  proof (intro exI conjI)
    show "test_turns rs E looks (Suc n) (c, s) = Some (c2, s2)" using IH(1) T(1) by simp
    show "steps (kstep rs) (In_sched, c, s) (ls @ [Dispatch (n mod 2) c0, Work (n mod 2), Yield (n mod 2) c3]) (In_sched, c2, s2)"
      by (rule steps_trans [OF IH(2) T(2)])
    show "dispatches (ls @ [Dispatch (n mod 2) c0, Work (n mod 2), Yield (n mod 2) c3]) = map (\<lambda>k. k mod 2) [0..<Suc n]"
      using IH(3) by (simp add: dispatches_append)
    show "between b E name txt (Suc n mod 2) (r + Suc n) (c2, s2)" using T(3) unfolding m by simp
  qed (use T(4) in simp)
qed

text \<open>C4: The two processes under the scheduler.  From a state in which they are ready, their strings are in memory and
  the cursor is at the start of row \<open>r\<close>, the kernel makes \<open>399 - r\<close> turns: it runs the processes in turn, each prints
  its line, which the screen shows, sleeps, and yields, and nothing else it needs is touched.  The next turn then
  leaves the screen's buffer: it has no defined result, so the kernel does not run for ever.\<close>

theorem test_turns_fill_screen:
  fixes s :: "'a sched_state_scheme"
  assumes I: "between b E name txt 0 r (c, s)" and r: "r \<le> 399" and clock: "\<And>n. clock_runs (looks n)"
  shows "(\<forall>n. r + n \<le> 399 \<longrightarrow> (\<exists>c' s' ls. test_turns rs E looks n (c, s) = Some (c', s')
       \<and> steps (kstep rs) (In_sched, c, s) ls (In_sched, c', s') \<and> dispatches ls = map (\<lambda>k. k mod 2) [0..<n]
       \<and> between b E name txt (n mod 2) (r + n) (c', s')
       \<and> (0 < n \<longrightarrow> line_shown (E ((n - 1) mod 2)) (name ((n - 1) mod 2)) (txt ((n - 1) mod 2)) (r + n - 1) s')))
     \<and> test_turns rs E looks (400 - r) (c, s) = None"
proof (intro conjI allI impI)
  obtain c' s' where "test_turns rs E looks (399 - r) (c, s) = Some (c', s')" "between b E name txt ((399 - r) mod 2) 399 (c', s')"
    using turns_run [where looks = looks and n = "399 - r" and rs = rs, OF I clock] r by auto
  then have "test_turns rs E looks (Suc (399 - r)) (c, s) = None" using turn_undefined by simp
  moreover have "Suc (399 - r) = 400 - r" using r by simp
  ultimately show "test_turns rs E looks (400 - r) (c, s) = None" by simp
qed (rule turns_run [where looks = looks, OF I clock])

subsection \<open>A machine on which the two processes run\<close>

definition env0 :: "nat \<Rightarrow> proc_env" where
  "env0 i = \<lparr>pe_locals = \<lparr>l_buf = 0x10100 + 0x800 * of_nat i, l_nb = 0x10300 + 0x800 * of_nat i, l_rb = 0x10310 + 0x800 * of_nat i\<rparr>,
     pe_dbg = \<lparr>dbg_fn = 0x60000 + 0x100 * of_nat i, dbg_fmt = \<lambda>_. 0x60040 + 0x100 * of_nat i, dbg_line = \<lambda>_. 79 + 9 * of_nat i\<rparr>,
     pe_regs = \<lparr>edi = 0, esi = 0, ebx = 0, ebp = 0, esp = 0x10400 + 0x800 * of_nat i, eip = 0\<rparr>, pe_ret = 0x50000\<rparr>"

definition name0 :: "nat \<Rightarrow> u8 list" where "name0 i = [0x74, 0x65, 0x73, 0x74, 0x31 + of_nat i]"
definition txt0 :: "nat \<Rightarrow> u8 list" where "txt0 i = (if i = 0 then [49, 50, 51, 49, 50, 51] else [52, 53, 54, 52, 53, 54])"

definition strings0 :: "mem \<Rightarrow> mem" where
  "strings0 m = put (put (put (put m 0x60000 (name0 0 @ [0])) 0x60040 (fmt_of (test_fmt (txt0 0)) @ [0]))
     0x60100 (name0 1 @ [0])) 0x60140 (fmt_of (test_fmt (txt0 1)) @ [0])"

lemma strings0_lengths [simp]: "length (name0 j) = 5" "length (txt0 j) = 6" "length (fmt_of (test_fmt (txt0 j))) = 19"
proof -
  show n: "length (name0 j) = 5" by (simp add: name0_def)
  show t: "length (txt0 j) = 6" by (cases "j = 0") (simp_all add: txt0_def)
  then show "length (fmt_of (test_fmt (txt0 j))) = 19" by (simp add: test_fmt_def)
qed

lemma strings0_bytes [simp]: "0 \<notin> set (name0 0)" "0 \<notin> set (name0 (Suc 0))" "0 \<notin> set (fmt_of (test_fmt (txt0 j)))"
proof -
  show "0 \<notin> set (name0 0)" "0 \<notin> set (name0 (Suc 0))" by (simp_all add: name0_def)
  have "0 \<notin> set (txt0 j)" by (cases "j = 0") (simp_all add: txt0_def)
  then show "0 \<notin> set (fmt_of (test_fmt (txt0 j)))" by (simp add: test_fmt_def)
qed

lemma strings0_cstr:
  "cstr (strings0 m) 0x60000 (name0 0)" "cstr (strings0 m) 0x60040 (fmt_of (test_fmt (txt0 0)))"
  "cstr (strings0 m) 0x60100 (name0 1)" "cstr (strings0 m) 0x60140 (fmt_of (test_fmt (txt0 1)))"
proof -
  show "cstr (strings0 m) 0x60000 (name0 0)" unfolding strings0_def
    by (rule cstr_put_other [OF cstr_put_other [OF cstr_put_other [OF cstr_put]]]; simp add: apart_def)
  show "cstr (strings0 m) 0x60040 (fmt_of (test_fmt (txt0 0)))" unfolding strings0_def
    by (rule cstr_put_other [OF cstr_put_other [OF cstr_put]]; simp add: apart_def)
  show "cstr (strings0 m) 0x60100 (name0 1)" unfolding strings0_def by (rule cstr_put_other [OF cstr_put]; simp add: apart_def)
  show "cstr (strings0 m) 0x60140 (fmt_of (test_fmt (txt0 1)))" unfolding strings0_def by (rule cstr_put) simp_all
qed

lemma strings0_other: "\<not> inside 0x60000 0x200 x \<Longrightarrow> strings0 m x = m x"
proof -
  assume x: "\<not> inside 0x60000 0x200 x"
  have sub: "\<not> inside (0x60000 + of_nat d) n x" if "d + n \<le> 0x200" for d n
    using x inside_offset [of "0x60000" d n x "0x200"] that by auto
  have "\<not> inside 0x60000 6 x" "\<not> inside 0x60040 20 x" "\<not> inside 0x60100 6 x" "\<not> inside 0x60140 20 x"
    using sub [of 0 6] sub [of "0x40" 20] sub [of "0x100" 6] sub [of "0x140" 20] by simp_all
  then show ?thesis by (simp add: strings0_def put_other)
qed

lemma lines0: "dec_string 79 = [0x37, 0x39]" "dec_string 88 = [0x38, 0x38]"
proof -
  have "digs 79 = [9, 7]" "digs 88 = [8, 8]" by (subst digs.simps, simp add: digs.simps [of 7] digs.simps [of 8])+
  then show "dec_string 79 = [0x37, 0x39]" "dec_string 88 = [0x38, 0x38]" by (simp_all add: dec_string_def)
qed

lemma env0_ok:
  fixes s :: sched_state
  assumes m: "km s = strings0 m" and t: "proc_table (pmgr s) = 0x1000" "proc_stack (pmgr s) = 0x10000"
    "ready_list (sc s) = 0x8000" "context_at (sc s) = 0x8020" and v: "vga_bp (vga s) = 0xB8000" and j: "j < 2"
  shows "env_ok 0x9000 s j (env0 j) (name0 j) (txt0 j)"
proof -
  have j': "j = 0 \<or> j = 1" using j by auto
  have "locals_ok (pe_locals (env0 j))" using j' by (auto simp: locals_ok_def env0_def apart_def)
  moreover have "inside (pstk s j) 2048 x" if "local_at (pe_locals (env0 j)) x" for x
  proof -
    have e: "0x10100 + 0x800 * of_nat j = pstk s j + of_nat 0x100" "0x10300 + 0x800 * of_nat j = pstk s j + of_nat 0x300"
      "0x10310 + 0x800 * of_nat j = pstk s j + of_nat 0x310"
      using j' t by (auto simp: pstk_def)
    show ?thesis using that unfolding local_at_def env0_def locals.simps proc_env.simps e
      by (elim disjE) (erule inside_offset; simp)+
  qed
  moreover have "cstr (km s) (dbg_fmt (pe_dbg (env0 j)) 0) (fmt_of (test_fmt (txt0 j)))" "cstr (km s) (dbg_fn (pe_dbg (env0 j))) (name0 j)"
    "dbg_fmt (pe_dbg (env0 j)) 0 \<noteq> NULL" "dbg_fn (pe_dbg (env0 j)) \<noteq> NULL" "to_s32 (dbg_line (pe_dbg (env0 j)) 0) \<noteq> INT_MIN"
    using j' strings0_cstr m by (auto simp: env0_def to_s32_def)
  moreover have "\<not> sched_mem 0x9000 s x \<and> \<not> inside (vga_bp (vga s)) 4000 x" if b: "string_byte (env0 j) (name0 j) (txt0 j) x" for x
  proof -
    have e: "0x60000 + 0x100 * of_nat j = 0x60000 + (of_nat (0x100 * j) :: u32)" "0x60040 + 0x100 * of_nat j = 0x60000 + (of_nat (0x40 + 0x100 * j) :: u32)"
      using j' by auto
    have "inside 0x60000 0x200 x"
      using b unfolding string_byte_def env0_def proc_env.simps dbg_strings.simps e
      by (elim disjE) (erule inside_offset; use j' in auto)+
    moreover have "apart 0x60000 0x200 0x1000 3584" "apart 0x60000 0x200 0x8000 8" "apart 0x60000 0x200 0x8020 4" "apart 0x60000 0x200 0x9000 28"
      "apart 0x60000 0x200 0x10000 262144" "apart 0x60000 0x200 0xB8000 4000"
      by (simp_all add: apart_def)
    ultimately show ?thesis unfolding sched_mem_def t v by (auto dest: apart_inside)
  qed
  moreover have "name0 j \<noteq> []" "10 \<notin> set (name0 j)" "\<forall>c\<in>set (txt0 j). printable c = 1" "10 \<notin> set (txt0 j)"
    using j' by (auto simp: name0_def txt0_def printable_def)
  moreover have "length (test_line (name0 j) (dbg_line (pe_dbg (env0 j)) 0) (txt0 j)) \<le> 80"
    using j' lines0 by (auto simp: test_line_def env0_def to_s32_def)
  moreover have "esp (pe_regs (env0 j)) = pstk s j + of_nat 0x400" using j' t by (auto simp: env0_def pstk_def)
  ultimately show ?thesis unfolding env_ok_def by (intro conjI exI [of _ "0x400"]) auto
qed

lemma ready0: "\<exists>(s :: sched_state) c. between 0x9000 env0 name0 txt0 0 0 (c, s)"
proof -
  obtain s :: sched_state and a where s: "base 0x9000 s a" "tq a = [0, 1]" "running a = None" "pmgr s = (pmgr sched0)\<lparr>next_pid := 2\<rparr>"
    "ready_list (sc s) = 0x8000" "context_at (sc s) = 0x8020"
    using two_threads by blast
  define s' where "s' = s\<lparr>km := strings0 (km s), vga := (vga s)\<lparr>vga_bp := 0xB8000, vga_inited := True, curr_row := 0, curr_col := 0\<rparr>\<rparr>"
  define c where "c = \<lparr>edi = 1, esi = 2, ebx = 3, ebp = 4, esp = 0x9000 + 28, eip = 0\<rparr>"
  have p: "same_place s s'" by (simp add: same_place_def s'_def)
  have t: "proc_table (pmgr s') = 0x1000" "proc_stack (pmgr s') = 0x10000" "ready_list (sc s') = 0x8000" "context_at (sc s') = 0x8020"
    using s by (simp_all add: s'_def)
  have "km s' x = km s x" if "sched_mem 0x9000 s x" for x
  proof -
    have "sched_mem 0x9000 s' x" using that sched_mem_place [OF p] by simp
    then have "\<not> inside 0x60000 0x200 x"
      unfolding sched_mem_def t by (elim disjE) (erule apart_inside [rotated], simp add: apart_def)+
    then show ?thesis by (simp add: s'_def strings0_other)
  qed
  then have keep: "km s' x = km s x" if "sched_mem 0x9000 s x" for x using that by blast
  have q: "set (tq a) \<subseteq> {..<128}" using s(2) by simp
  have "base 0x9000 s' a"
  proof (rule base_cong [OF p _ s(1)])
    show "km s' x = km s x" if "qzone s (tq a) x" for x using keep sched_mem_zone(1) [OF q that] by blast
    show "km s' x = km s x" if "i \<in> set (tq a)" "own s i x" for i x
      by (rule keep, rule sched_mem_zone(2) [OF _ that(2)]) (use q that(1) in auto)
  qed (simp add: s'_def)
  then have "refines 0x9000 (In_sched, c, s') a" using s(3) by (simp add: c_def)
  moreover have "screen_ok 0x9000 s'"
  proof -
    have "\<not> sched_mem 0x9000 s' x" if "inside 0xB8000 4000 x" for x
      unfolding sched_mem_def t using that apart_inside [of "0xB8000" 4000 _ _ x] by (simp add: apart_def)
    then show ?thesis by (simp add: screen_ok_def s'_def)
  qed
  moreover have "env_ok 0x9000 s' j (env0 j) (name0 j) (txt0 j)" if "j < 2" for j
    by (rule env0_ok [where m = "km s"]) (use t that in \<open>simp_all add: s'_def\<close>)
  ultimately show ?thesis using s(2) by (intro exI [of _ s'] exI [of _ c]) (auto simp: between_def s'_def)
qed

lemma clock_runs0: "clock_runs (\<lambda>k. of_nat k)"
  unfolding clock_runs_def by (intro exI [of _ id] exI [of _ 1001]) simp

theorem test_turns_fill_screen_witness:
  "\<exists>cs :: cpu_regs \<times> sched_state. test_turns 5 env0 (\<lambda>n k. of_nat k) 399 cs \<noteq> None \<and> test_turns 5 env0 (\<lambda>n k. of_nat k) 400 cs = None"
proof -
  obtain s :: sched_state and c where I: "between 0x9000 env0 name0 txt0 0 0 (c, s)" using ready0 by blast
  note T = test_turns_fill_screen [where looks = "\<lambda>n k. of_nat k" and rs = 5, OF I _ clock_runs0]
  have "test_turns 5 env0 (\<lambda>n k. of_nat k) 399 (c, s) \<noteq> None" using T by fastforce
  moreover have "test_turns 5 env0 (\<lambda>n k. of_nat k) 400 (c, s) = None" using T by simp
  ultimately show ?thesis by blast
qed

end
