(* ===== verification/Pci.thy ===== *)
theory Pci
  imports Machine
begin

text \<open>
  PCI configuration space (\<open>pci.c\<close>) and the ATA probe (\<open>ata.c\<close>).  Configuration space is reached
  through the port pair 0xCF8, 0xCFC; \<open>d\<close> is the hardware behind the ports.  \<open>pci_find_dev\<close> has an
  empty body.
\<close>

abbreviation PCI_CONFIG_ADDR :: u16 where "PCI_CONFIG_ADDR \<equiv> 0xCF8"
abbreviation PCI_CONFIG_DATA :: u16 where "PCI_CONFIG_DATA \<equiv> 0xCFC"

text \<open>\<open>PCI_GET_CONFIG_ADDR\<close>; the three arguments are bytes.\<close>

definition pci_config_addr :: "u8 \<Rightarrow> u8 \<Rightarrow> u8 \<Rightarrow> u32" where
  "pci_config_addr bus dev func =
     0x80000000 OR push_bit 16 (ucast bus) OR push_bit 11 (ucast dev) OR push_bit 8 (ucast func)"

text \<open>The offsets with \<open>PCI_CFG_ADDR_ALIGN\<close>, 0xFC, applied.\<close>

abbreviation PCI_CFG_OFFSET_VEN :: u32 where "PCI_CFG_OFFSET_VEN \<equiv> 0x00"
abbreviation PCI_CFG_OFFSET_DEV :: u32 where "PCI_CFG_OFFSET_DEV \<equiv> 0x00"
abbreviation PCI_CFG_OFFSET_CLS :: u32 where "PCI_CFG_OFFSET_CLS \<equiv> 0x08"
abbreviation PCI_CFG_OFFSET_HDR :: u32 where "PCI_CFG_OFFSET_HDR \<equiv> 0x0C"

subsection \<open>Configuration space\<close>

definition pci_get_dev :: "device \<Rightarrow> u8 \<Rightarrow> u8 \<Rightarrow> u8 \<Rightarrow> 'a machine_scheme \<Rightarrow> u16 \<times> 'a machine_scheme" where
  "pci_get_dev d bus dev func s =
     (let s = outd PCI_CONFIG_ADDR (pci_config_addr bus dev func OR PCI_CFG_OFFSET_DEV) s;
          (v, s) = ind d PCI_CONFIG_DATA s
      in (ucast (drop_bit 16 v AND 0xFFFF), s))"

definition pci_get_ven :: "device \<Rightarrow> u8 \<Rightarrow> u8 \<Rightarrow> u8 \<Rightarrow> 'a machine_scheme \<Rightarrow> u16 \<times> 'a machine_scheme" where
  "pci_get_ven d bus dev func s =
     (let s = outd PCI_CONFIG_ADDR (pci_config_addr bus dev func OR PCI_CFG_OFFSET_VEN) s
      in inw d PCI_CONFIG_DATA s)"

definition pci_get_hdr :: "device \<Rightarrow> u8 \<Rightarrow> u8 \<Rightarrow> u8 \<Rightarrow> 'a machine_scheme \<Rightarrow> u8 \<times> 'a machine_scheme" where
  "pci_get_hdr d bus dev func s =
     (let s = outd PCI_CONFIG_ADDR (pci_config_addr bus dev func OR PCI_CFG_OFFSET_HDR) s;
          (v, s) = ind d PCI_CONFIG_DATA s
      in (ucast (drop_bit 16 v AND 0xFF), s))"

definition pci_get_cls :: "device \<Rightarrow> u8 \<Rightarrow> u8 \<Rightarrow> u8 \<Rightarrow> 'a machine_scheme \<Rightarrow> u32 \<times> 'a machine_scheme" where
  "pci_get_cls d bus dev func s =
     (let s = outd PCI_CONFIG_ADDR (pci_config_addr bus dev func OR PCI_CFG_OFFSET_CLS) s;
          (v, s) = ind d PCI_CONFIG_DATA s
      in (drop_bit 8 v AND 0x00FFFFFF, s))"

definition pci_get_bar :: "device \<Rightarrow> u8 \<Rightarrow> u8 \<Rightarrow> u8 \<Rightarrow> u8 \<Rightarrow> 'a machine_scheme \<Rightarrow> u32 \<times> 'a machine_scheme" where
  "pci_get_bar d bus dev func bar s =
     (let s = outd PCI_CONFIG_ADDR (pci_config_addr bus dev func OR ucast bar) s
      in ind d PCI_CONFIG_DATA s)"

subsection \<open>Enumeration\<close>

text \<open>
  The nodes are in memory: \<open>struct pci_dev\<close> is \<open>funcs\<close> at 0, \<open>bus\<close>, \<open>slot\<close>, \<open>ven_id\<close> and \<open>dev_id\<close> from
  8 on, 16 bytes; \<open>struct pci_func\<close> is \<open>node\<close> at 0 and six bytes from 8 on, 16 bytes.  A \<open>NULL\<close> node is
  written through: undefined.
\<close>

abbreviation PCI_NO_DEVICE :: u16 where "PCI_NO_DEVICE \<equiv> 0xFFFF"
abbreviation PCI_MULTI_FUNC :: u16 where "PCI_MULTI_FUNC \<equiv> 0x80"

definition pci_enum_func :: "device \<Rightarrow> u8 \<Rightarrow> u8 \<Rightarrow> u8 \<Rightarrow> addr \<Rightarrow> 'a machine_scheme \<Rightarrow> 'a machine_scheme option" where
  "pci_enum_func d bus dev func node s =
     (let (cls, s) = pci_get_cls d bus dev func s in
      if node = NULL then None
      else
        let m = st8 (km s) (node + 10) func;
            m = st8 m (node + 13) (ucast (cls AND 0xFF));
            m = st8 m (node + 12) (ucast (drop_bit 8 cls AND 0xFF));
            m = st8 m (node + 11) (ucast (drop_bit 16 cls AND 0xFF))
        in Some (s\<lparr>km := m\<rparr>))"

fun enum_funcs :: "device \<Rightarrow> u8 \<Rightarrow> u8 \<Rightarrow> nat list \<Rightarrow> 'a machine_scheme \<Rightarrow> 'a machine_scheme option" where
  "enum_funcs d bus slot [] s = Some s"
| "enum_funcs d bus slot (i # is) s = do {
     s \<leftarrow> pci_enum_func d bus slot (of_nat i) NULL s;
     enum_funcs d bus slot is s }"

text \<open>A failed allocation is only reported, and the null pointer used.\<close>

definition pci_enum_dev :: "device \<Rightarrow> u8 \<Rightarrow> u8 \<Rightarrow> 'a machine_scheme \<Rightarrow> 'a machine_scheme option" where
  "pci_enum_dev d bus slot s =
     (let (ven, s) = pci_get_ven d bus slot 0 s in
      if ven = PCI_NO_DEVICE then Some s
      else do {
        (pdev, s) \<leftarrow> yalloc s 16;
        if pdev = NULL then None
        else
          let m = list_init_head (km s) pdev;
              m = st16 m (pdev + 8) (ucast bus);
              m = st16 m (pdev + 10) (ucast slot);
              m = st16 m (pdev + 12) ven;
              s = s\<lparr>km := m\<rparr>;
              (dev, s) = pci_get_dev d bus slot 0 s;
              (hdr, s) = pci_get_hdr d bus slot 0 s;
              s = s\<lparr>km := st16 (km s) (pdev + 14) dev\<rparr>
          in do {
            (pfunc, s) \<leftarrow> yalloc s 16;
            s \<leftarrow> pci_enum_func d bus slot 0 pfunc s;
            let s = s\<lparr>km := snd (list_add (km s) pdev pfunc)\<rparr>;
            if (ucast hdr AND PCI_MULTI_FUNC) = 0 then Some s
            else enum_funcs d bus slot [1..<8] s } })"

fun pci_enum_devs :: "device \<Rightarrow> (nat \<times> nat) list \<Rightarrow> 'a machine_scheme \<Rightarrow> 'a machine_scheme option" where
  "pci_enum_devs d [] s = Some s"
| "pci_enum_devs d ((i, j) # r) s = do {
     s \<leftarrow> pci_enum_dev d (of_nat i) (of_nat j) s;
     pci_enum_devs d r s }"

definition pci_enumerate :: "device \<Rightarrow> 'a machine_scheme \<Rightarrow> 'a machine_scheme option" where
  "pci_enumerate d s = pci_enum_devs d [(i, j). i \<leftarrow> [0..<256], j \<leftarrow> [0..<32]] s"

text \<open>\<open>buses\<close> is the address of \<open>pci.buses\<close>, which nothing is ever added to.\<close>

definition pci_init :: "device \<Rightarrow> addr \<Rightarrow> 'a machine_scheme \<Rightarrow> 'a machine_scheme option" where
  "pci_init d buses s = pci_enumerate d (s\<lparr>km := list_init_head (km s) buses\<rparr>)"

subsection \<open>The ATA probe\<close>

abbreviation PRI_CMD_BASE :: u16 where "PRI_CMD_BASE \<equiv> 0x1F0"
abbreviation PRI_CTRL_BASE :: u16 where "PRI_CTRL_BASE \<equiv> 0x3F6"
abbreviation SEC_CMD_BASE :: u16 where "SEC_CMD_BASE \<equiv> 0x170"

abbreviation ATA_DISK_EXIST :: u8 where "ATA_DISK_EXIST \<equiv> 0x81"

text \<open>
  The loop ends when the busy and the ready bit are both clear, and then with 1; the waiting loop of
  \<open>ata_diag_disk\<close> has no effect.
\<close>

partial_function (option) ata_is_ready :: "device \<Rightarrow> 'a machine_scheme \<Rightarrow> (int \<times> 'a machine_scheme) option" where
  "ata_is_ready d s =
     (let (status, s) = inb d (PRI_CMD_BASE OR 7) s in
      if (status AND 0x80) = 0 \<and> (status AND 0x40) = 0 then Some (1, s)
      else ata_is_ready d s)"

text \<open>The array \<open>disk\<close>; \<open>ata_sw_rst\<close> and \<open>ata_init\<close> have no return statement.\<close>

record ata_mgmr =
  disk0 :: u8
  disk1 :: u8

definition ata_sw_rst :: "device \<Rightarrow> 'a machine_scheme \<Rightarrow> 'a machine_scheme option" where
  "ata_sw_rst d s = do {
     (r, s) \<leftarrow> ata_is_ready d (outb (PRI_CTRL_BASE OR 6) 4 s);
     Some (outb (PRI_CMD_BASE OR 6) 0x40 s) }"

definition ata_diag_disk :: "device \<Rightarrow> ata_mgmr \<Rightarrow> 'a machine_scheme \<Rightarrow> (int \<times> ata_mgmr \<times> 'a machine_scheme) option" where
  "ata_diag_disk d a s = do {
     (r, s) \<leftarrow> ata_is_ready d s;
     if r < 0 then Some (-1, a, s)
     else do {
       let s = outb (PRI_CMD_BASE OR 7) 0x90 s;
       (r, s) \<leftarrow> ata_is_ready d s;
       if r < 0 then Some (-1, a, s)
       else
         let (err, s) = inb d (PRI_CMD_BASE OR 1) s;
             a = (if (err AND ATA_DISK_EXIST) \<noteq> 0 then a\<lparr>disk0 := 1\<rparr> else a);
             (err, s) = inb d (SEC_CMD_BASE OR 1) s;
             a = (if (err AND ATA_DISK_EXIST) \<noteq> 0 then a\<lparr>disk1 := 1\<rparr> else a)
         in if disk0 a = 0 \<and> disk1 a = 0 then Some (-1, a, s)
            else
              let (lm, s) = inb d (PRI_CMD_BASE OR 4) s;
                  (lh, s) = inb d (PRI_CMD_BASE OR 5) s
              in Some (-1, a, s) } }"

definition ata_init :: "device \<Rightarrow> ata_mgmr \<Rightarrow> 'a machine_scheme \<Rightarrow> (ata_mgmr \<times> 'a machine_scheme) option" where
  "ata_init d a s = do {
     (r, a, s) \<leftarrow> ata_diag_disk d \<lparr>disk0 = 0, disk1 = 0\<rparr> s;
     Some (a, s) }"

end
