(* ===== verification/Ahci.thy ===== *)
theory Ahci
  imports Pci
begin

text \<open>
  The SATA driver (\<open>block/ahci.c\<close>).  Controller registers are memory mapped: reading or writing one is
  an event, and the hardware may change the memory with each (\<open>dma\<close>).  The command list, the command
  tables and the buffers are ordinary memory.  \<open>shl_full\<close> is what the compiled code makes of shifting
  a 32-bit value by 32, which C leaves undefined.
\<close>

record hardware =
  dev :: device
  dma :: "event list \<Rightarrow> event \<Rightarrow> mem \<Rightarrow> mem"
  shl_full :: "u32 \<Rightarrow> u32"

definition rd_reg :: "hardware \<Rightarrow> addr \<Rightarrow> 'a machine_scheme \<Rightarrow> u32 \<times> 'a machine_scheme" where
  "rd_reg h a s = (dev h (trace s) (RdReg a),
     s\<lparr>km := dma h (trace s) (RdReg a) (km s), trace := trace s @ [RdReg a]\<rparr>)"

definition wr_reg :: "hardware \<Rightarrow> addr \<Rightarrow> u32 \<Rightarrow> 'a machine_scheme \<Rightarrow> 'a machine_scheme" where
  "wr_reg h a v s = s\<lparr>km := dma h (trace s) (WrReg a v) (km s), trace := trace s @ [WrReg a v]\<rparr>"

subsection \<open>Registers and structures\<close>

abbreviation AHCI_MAX_PORT_NUM :: nat where "AHCI_MAX_PORT_NUM \<equiv> 32"
abbreviation AHCI_BASE :: addr where "AHCI_BASE \<equiv> 0x10000000"
abbreviation AHCI_FILE_SYSTEM_DATA_BASE :: addr where "AHCI_FILE_SYSTEM_DATA_BASE \<equiv> 0x20000000"

abbreviation PX_CLB :: addr where "PX_CLB \<equiv> 0x00"
abbreviation PX_CLBU :: addr where "PX_CLBU \<equiv> 0x04"
abbreviation PX_FB :: addr where "PX_FB \<equiv> 0x08"
abbreviation PX_FBU :: addr where "PX_FBU \<equiv> 0x0C"
abbreviation PX_IS :: addr where "PX_IS \<equiv> 0x10"
abbreviation PX_CMD :: addr where "PX_CMD \<equiv> 0x18"
abbreviation PX_TFD :: addr where "PX_TFD \<equiv> 0x20"
abbreviation PX_SIG :: addr where "PX_SIG \<equiv> 0x24"
abbreviation PX_SSTS :: addr where "PX_SSTS \<equiv> 0x28"
abbreviation PX_SACT :: addr where "PX_SACT \<equiv> 0x34"
abbreviation PX_CI :: addr where "PX_CI \<equiv> 0x38"

abbreviation HBA_PxCMD_ST :: u32 where "HBA_PxCMD_ST \<equiv> 0x0001"
abbreviation HBA_PxCMD_FRE :: u32 where "HBA_PxCMD_FRE \<equiv> 0x0010"
abbreviation HBA_PxCMD_FR :: u32 where "HBA_PxCMD_FR \<equiv> 0x4000"
abbreviation HBA_PxCMD_CR :: u32 where "HBA_PxCMD_CR \<equiv> 0x8000"
abbreviation HBA_PxIS_TFES :: u32 where "HBA_PxIS_TFES \<equiv> 0x40000000"

text \<open>Memory type of a port.\<close>

datatype port_type = AHCI_DEV_NULL | AHCI_DEV_SATA | AHCI_DEV_SEMB | AHCI_DEV_PM | AHCI_DEV_SATAPI

record ahci_manager =
  active_port :: u16
  abar_at :: addr

text \<open>\<open>&abar->port[i]\<close>\<close>

definition port_at :: "addr \<Rightarrow> nat \<Rightarrow> addr" where
  "port_at abar i = abar + 0x100 + 0x80 * of_nat i"

subsection \<open>Ports\<close>

definition ahci_check_type :: "hardware \<Rightarrow> addr \<Rightarrow> 'a machine_scheme \<Rightarrow> port_type \<times> 'a machine_scheme" where
  "ahci_check_type h port s =
     (let (ssts, s) = rd_reg h (port + PX_SSTS) s;
          ipm = drop_bit 8 ssts AND 0x0F;
          det = ssts AND 0x0F
      in if det \<noteq> 3 then (AHCI_DEV_NULL, s)
         else if ipm \<noteq> 1 then (AHCI_DEV_NULL, s)
         else
           let (sg, s) = rd_reg h (port + PX_SIG) s
           in (if sg = 0xEB140101 then AHCI_DEV_SATAPI
               else if sg = 0xC33C0101 then AHCI_DEV_SEMB
               else if sg = 0x96690101 then AHCI_DEV_PM
               else AHCI_DEV_SATA, s))"

partial_function (option) wait_clear :: "hardware \<Rightarrow> addr \<Rightarrow> u32 \<Rightarrow> 'a machine_scheme \<Rightarrow> 'a machine_scheme option" where
  "wait_clear h a bits s =
     (let (v, s) = rd_reg h a s in
      if (v AND bits) \<noteq> 0 then wait_clear h a bits s else Some s)"

definition set_bits :: "hardware \<Rightarrow> addr \<Rightarrow> u32 \<Rightarrow> 'a machine_scheme \<Rightarrow> 'a machine_scheme" where
  "set_bits h a bits s = (let (v, s) = rd_reg h a s in wr_reg h a (v OR bits) s)"

definition clear_bits :: "hardware \<Rightarrow> addr \<Rightarrow> u32 \<Rightarrow> 'a machine_scheme \<Rightarrow> 'a machine_scheme" where
  "clear_bits h a bits s = (let (v, s) = rd_reg h a s in wr_reg h a (v AND NOT bits) s)"

definition start_cmd :: "hardware \<Rightarrow> addr \<Rightarrow> 'a machine_scheme \<Rightarrow> 'a machine_scheme option" where
  "start_cmd h port s = do {
     s \<leftarrow> wait_clear h (port + PX_CMD) HBA_PxCMD_CR s;
     let s = set_bits h (port + PX_CMD) HBA_PxCMD_FRE s;
     Some (set_bits h (port + PX_CMD) HBA_PxCMD_ST s) }"

text \<open>The loop of \<open>stop_cmd\<close> reads the register once or twice a turn.\<close>

partial_function (option) stop_loop :: "hardware \<Rightarrow> addr \<Rightarrow> 'a machine_scheme \<Rightarrow> 'a machine_scheme option" where
  "stop_loop h port s =
     (let (v, s) = rd_reg h (port + PX_CMD) s in
      if (v AND HBA_PxCMD_FR) \<noteq> 0 then stop_loop h port s
      else
        let (v, s) = rd_reg h (port + PX_CMD) s in
        if (v AND HBA_PxCMD_CR) \<noteq> 0 then stop_loop h port s else Some s)"

definition stop_cmd :: "hardware \<Rightarrow> addr \<Rightarrow> 'a machine_scheme \<Rightarrow> 'a machine_scheme option" where
  "stop_cmd h port s =
     (let s = clear_bits h (port + PX_CMD) HBA_PxCMD_ST s;
          s = clear_bits h (port + PX_CMD) HBA_PxCMD_FRE s
      in stop_loop h port s)"

text \<open>The 32 command headers of a port; \<open>ctba\<close> is read back for the \<open>memset\<close>.\<close>

fun init_headers :: "mem \<Rightarrow> addr \<Rightarrow> nat \<Rightarrow> nat list \<Rightarrow> mem" where
  "init_headers m hdrs portno [] = m"
| "init_headers m hdrs portno (i # is) =
     (let hdr = hdrs + 32 * of_nat i;
          m = st16 m (hdr + 2) 8;
          m = st32 m (hdr + 8) (AHCI_BASE + 0xA000 + push_bit 13 (of_nat portno) + push_bit 8 (of_nat i));
          m = st32 m (hdr + 12) 0;
          m = snd (memset m (ld32 m (hdr + 8)) 0 256)
      in init_headers m hdrs portno is)"

definition ahci_port_rebase :: "hardware \<Rightarrow> addr \<Rightarrow> nat \<Rightarrow> 'a machine_scheme \<Rightarrow> 'a machine_scheme option" where
  "ahci_port_rebase h port portno s = do {
     s \<leftarrow> stop_cmd h port s;
     let s = wr_reg h (port + PX_CLB) (AHCI_BASE + push_bit 10 (of_nat portno)) s;
     let s = wr_reg h (port + PX_CLBU) 0 s;
     let (clb, s) = rd_reg h (port + PX_CLB) s;
     let s = s\<lparr>km := snd (memset (km s) clb 0 1024)\<rparr>;
     let s = wr_reg h (port + PX_FB) (AHCI_BASE + 0x8000 + push_bit 8 (of_nat portno)) s;
     let s = wr_reg h (port + PX_FBU) 0 s;
     let (fb, s) = rd_reg h (port + PX_FB) s;
     let s = s\<lparr>km := snd (memset (km s) fb 0 256)\<rparr>;
     let (clb, s) = rd_reg h (port + PX_CLB) s;
     let s = s\<lparr>km := init_headers (km s) clb portno [0..<32]\<rparr>;
     start_cmd h port s }"

subsection \<open>Commands\<close>

fun free_slot :: "u32 \<Rightarrow> nat \<Rightarrow> nat list \<Rightarrow> int" where
  "free_slot slot n [] = -16"
| "free_slot slot n (i # is) = (if (slot AND 1) = 0 then int i else free_slot (drop_bit 1 slot) n is)"

definition ahci_find_empty_cmd_slot :: "hardware \<Rightarrow> addr \<Rightarrow> addr \<Rightarrow> 'a machine_scheme \<Rightarrow> int \<times> 'a machine_scheme" where
  "ahci_find_empty_cmd_slot h abar port s =
     (let (sact, s) = rd_reg h (port + PX_SACT) s;
          (ci, s) = rd_reg h (port + PX_CI) s;
          (cap, s) = rd_reg h abar s;
          num = unat (drop_bit 8 (cap AND 0x1F00))
      in (free_slot (sact OR ci) num [0..<num], s))"

text \<open>A PRDT entry: \<open>dba\<close>, \<open>dbau\<close>, and in the last word \<open>dbc:22\<close> and the interrupt bit.\<close>

definition set_dbc :: "mem \<Rightarrow> addr \<Rightarrow> u32 \<Rightarrow> mem" where
  "set_dbc m e v = st32 m (e + 12) ((ld32 m (e + 12) AND NOT 0x3FFFFF) OR (v AND 0x3FFFFF))"

definition set_ioc :: "mem \<Rightarrow> addr \<Rightarrow> mem" where
  "set_ioc m e = st32 m (e + 12) (ld32 m (e + 12) OR 0x80000000)"

text \<open>The full entries: the loop bound is read from the header in each turn.\<close>

fun prdt_loop :: "nat \<Rightarrow> mem \<Rightarrow> addr \<Rightarrow> addr \<Rightarrow> nat \<Rightarrow> addr \<Rightarrow> u32 \<Rightarrow> nat \<times> addr \<times> u32 \<times> mem" where
  "prdt_loop 0 m hdr tbl i buf count = (i, buf, count, m)"
| "prdt_loop (Suc k) m hdr tbl i buf count =
     (if int i < int (unat (ld16 m (hdr + 2))) - 1 then
        let e = tbl + 0x80 + 16 * of_nat i;
            m = st32 m e buf;
            m = st32 m (e + 4) 0;
            m = set_dbc m e 8191;
            m = set_ioc m e
        in prdt_loop k m hdr tbl (Suc i) (buf + 2048) (count - 16)
      else (i, buf, count, m))"

text \<open>The command FIS at the start of the table.\<close>

definition set_fis :: "mem \<Rightarrow> addr \<Rightarrow> u8 \<Rightarrow> 64 word \<Rightarrow> u32 \<Rightarrow> mem" where
  "set_fis m tbl cmd lba count =
     (let m = st8 m tbl 0x27;
          m = st8 m (tbl + 1) (m (tbl + 1) OR 0x80);
          m = st8 m (tbl + 7) 0x40;
          m = st8 m (tbl + 2) cmd;
          m = st8 m (tbl + 4) (ucast lba);
          m = st8 m (tbl + 5) (ucast (drop_bit 8 lba));
          m = st8 m (tbl + 6) (ucast (drop_bit 16 lba));
          m = st8 m (tbl + 8) (ucast (drop_bit 24 lba));
          m = st8 m (tbl + 9) (ucast (drop_bit 32 lba));
          m = st8 m (tbl + 10) (ucast (drop_bit 40 lba));
          m = st8 m (tbl + 12) (ucast (count AND 0xFF))
      in st8 m (tbl + 13) (ucast (drop_bit 8 count)))"

text \<open>
  The header \<open>hdr\<close> and the command table of one transfer: \<open>w\<close> for a write, whose last entry does not
  get the interrupt bit.  The fuel of the loop is the largest number of entries.
\<close>

definition build_cmd :: "hardware \<Rightarrow> bool \<Rightarrow> mem \<Rightarrow> addr \<Rightarrow> 64 word \<Rightarrow> u32 \<Rightarrow> addr \<Rightarrow> mem" where
  "build_cmd h w m hdr lba count buf =
     (let m = st8 m hdr ((m hdr AND 0xE0) OR 5);
          m = (if w then st8 m hdr (m hdr OR 0x40) else st8 m hdr (m hdr AND NOT 0x40));
          m = st16 m (hdr + 2) (ucast (drop_bit 4 (count - 1)) + 1);
          tbl = shl_full h (ld32 m (hdr + 12)) OR ld32 m (hdr + 8);
          n = unat (ld16 m (hdr + 2));
          m = snd (memset m tbl 0 (256 + (int n - 1) * 16));
          (i, buf, count, m) = prdt_loop 65536 m hdr tbl 0 buf count;
          e = tbl + 0x80 + 16 * of_nat i;
          m = st32 m e buf;
          m = st32 m (e + 4) 0;
          m = set_dbc m e (push_bit 9 count - 1);
          m = (if w then m else set_ioc m e)
      in set_fis m tbl (if w then 0x35 else 0x25) lba count)"

text \<open>At most a million looks at a busy port.\<close>

fun spin_loop :: "nat \<Rightarrow> hardware \<Rightarrow> addr \<Rightarrow> nat \<Rightarrow> 'a machine_scheme \<Rightarrow> nat \<times> 'a machine_scheme" where
  "spin_loop 0 h port spin s = (spin, s)"
| "spin_loop (Suc k) h port spin s =
     (let (tfd, s) = rd_reg h (port + PX_TFD) s in
      if (tfd AND 0x88) \<noteq> 0 \<and> spin < 1000000 then spin_loop k h port (Suc spin) s else (spin, s))"

partial_function (option) done_loop :: "hardware \<Rightarrow> addr \<Rightarrow> u32 \<Rightarrow> 'a machine_scheme \<Rightarrow> (bool \<times> 'a machine_scheme) option" where
  "done_loop h port bits s =
     (let (ci, s) = rd_reg h (port + PX_CI) s in
      if (ci AND bits) = 0 then Some (True, s)
      else
        let (is, s) = rd_reg h (port + PX_IS) s in
        if (is AND HBA_PxIS_TFES) \<noteq> 0 then Some (False, s) else done_loop h port bits s)"

text \<open>Issuing the command in a slot.  Every way out returns 0.\<close>

definition issue_cmd :: "hardware \<Rightarrow> addr \<Rightarrow> int \<Rightarrow> 'a machine_scheme \<Rightarrow> (int \<times> 'a machine_scheme) option" where
  "issue_cmd h port slot s =
     (let (spin, s) = spin_loop 1000001 h port 0 s in
      if spin = 1000000 then Some (0, s)
      else do {
        let s = wr_reg h (port + PX_CI) (push_bit (nat slot) 1) s;
        (ok, s) \<leftarrow> done_loop h port (push_bit (nat slot) 1) s;
        if \<not> ok then Some (0, s)
        else
          let (is, s) = rd_reg h (port + PX_IS) s
          in Some (0, s) })"

definition ahci_read_raw :: "hardware \<Rightarrow> addr \<Rightarrow> addr \<Rightarrow> 64 word \<Rightarrow> u32 \<Rightarrow> addr \<Rightarrow> 'a machine_scheme
    \<Rightarrow> (int \<times> 'a machine_scheme) option" where
  "ahci_read_raw h abar port start_lba count buf s =
     (let s = wr_reg h (port + PX_IS) 0xFFFFFFFF s;
          (slot, s) = ahci_find_empty_cmd_slot h abar port s in
      if slot < 0 then Some (slot, s)
      else
        let (clbu, s) = rd_reg h (port + PX_CLBU) s;
            (clb, s) = rd_reg h (port + PX_CLB) s;
            hdr = (shl_full h clbu OR clb) + 32 * to_u32 slot;
            s = s\<lparr>km := build_cmd h False (km s) hdr start_lba count buf\<rparr>
        in issue_cmd h port slot s)"

definition ahci_write_raw :: "hardware \<Rightarrow> addr \<Rightarrow> addr \<Rightarrow> 64 word \<Rightarrow> u32 \<Rightarrow> addr \<Rightarrow> 'a machine_scheme
    \<Rightarrow> (int \<times> 'a machine_scheme) option" where
  "ahci_write_raw h abar port start_lba count buf s =
     (let s = wr_reg h (port + PX_IS) 0xFFFFFFFF s;
          (slot, s) = ahci_find_empty_cmd_slot h abar port s in
      if slot < 0 then Some (slot, s)
      else
        let (clbu, s) = rd_reg h (port + PX_CLBU) s;
            (clb, s) = rd_reg h (port + PX_CLB) s;
            hdr = (shl_full h clbu OR clb) + 32 * to_u32 slot;
            s = s\<lparr>km := build_cmd h True (km s) hdr start_lba count buf\<rparr>
        in issue_cmd h port slot s)"

text \<open>
  The exported functions have no return statement behind the call; their guards compare an unsigned
  number with 0 and never fire.
\<close>

definition ahci_read :: "hardware \<Rightarrow> ahci_manager \<Rightarrow> int \<Rightarrow> 64 word \<Rightarrow> u32 \<Rightarrow> addr \<Rightarrow> 'a machine_scheme
    \<Rightarrow> (int \<times> 'a machine_scheme) option" where
  "ahci_read h mg junk start_lba count buf s = do {
     (r, s) \<leftarrow> ahci_read_raw h (abar_at mg) (port_at (abar_at mg) (unat (active_port mg))) start_lba count buf s;
     Some (junk, s) }"

definition ahci_read_sector :: "hardware \<Rightarrow> ahci_manager \<Rightarrow> int \<Rightarrow> 64 word \<Rightarrow> addr \<Rightarrow> 'a machine_scheme
    \<Rightarrow> (int \<times> 'a machine_scheme) option" where
  "ahci_read_sector h mg junk start_lba buf s = do {
     (r, s) \<leftarrow> ahci_read_raw h (abar_at mg) (port_at (abar_at mg) (unat (active_port mg))) start_lba 1 buf s;
     Some (junk, s) }"

definition ahci_write :: "hardware \<Rightarrow> ahci_manager \<Rightarrow> int \<Rightarrow> 64 word \<Rightarrow> u32 \<Rightarrow> addr \<Rightarrow> 'a machine_scheme
    \<Rightarrow> (int \<times> 'a machine_scheme) option" where
  "ahci_write h mg junk start_lba count buf s = do {
     (r, s) \<leftarrow> ahci_write_raw h (abar_at mg) (port_at (abar_at mg) (unat (active_port mg))) start_lba count buf s;
     Some (junk, s) }"

definition ahci_write_sector :: "hardware \<Rightarrow> ahci_manager \<Rightarrow> int \<Rightarrow> 64 word \<Rightarrow> addr \<Rightarrow> 'a machine_scheme
    \<Rightarrow> (int \<times> 'a machine_scheme) option" where
  "ahci_write_sector h mg junk start_lba buf s = do {
     (r, s) \<leftarrow> ahci_write_raw h (abar_at mg) (port_at (abar_at mg) (unat (active_port mg))) start_lba 1 buf s;
     Some (junk, s) }"

subsection \<open>Finding the controller\<close>

definition pciConfigReadWord :: "device \<Rightarrow> u16 \<Rightarrow> u16 \<Rightarrow> u16 \<Rightarrow> u16 \<Rightarrow> 'a machine_scheme \<Rightarrow> u16 \<times> 'a machine_scheme" where
  "pciConfigReadWord d bus slot func offset s =
     (let address = push_bit 16 (ucast bus) OR push_bit 11 (ucast slot) OR push_bit 8 (ucast func)
                      OR (ucast offset AND 0xFC) OR 0x80000000;
          s = outd PCI_CONFIG_ADDR address s;
          (v, s) = ind d PCI_CONFIG_DATA s
      in (ucast (drop_bit (unat (offset AND 2) * 8) v AND 0xFFFF), s))"

definition ReadWord :: "device \<Rightarrow> u16 \<Rightarrow> u16 \<Rightarrow> u16 \<Rightarrow> u16 \<Rightarrow> 'a machine_scheme \<Rightarrow> u32 \<times> 'a machine_scheme" where
  "ReadWord d bus slot func offset s =
     (let address = push_bit 16 (ucast bus) OR push_bit 11 (ucast slot) OR push_bit 8 (ucast func)
                      OR (ucast offset AND 0xFC) OR 0x80000000;
          s = outd PCI_CONFIG_ADDR address s
      in ind d PCI_CONFIG_DATA s)"

fun scan_slots :: "device \<Rightarrow> (nat \<times> nat) list \<Rightarrow> 'a machine_scheme \<Rightarrow> addr option \<times> 'a machine_scheme" where
  "scan_slots d [] s = (None, s)"
| "scan_slots d ((bus, slot) # r) s =
     (let (vendor, s) = pciConfigReadWord d (of_nat bus) (of_nat slot) 0 0 s;
          (device, s) = pciConfigReadWord d (of_nat bus) (of_nat slot) 0 2 s
      in if vendor = 0x8086 \<and> device = 0x2922
         then let (a, s) = ReadWord d (of_nat bus) (of_nat slot) 0 0x24 s in (Some a, s)
         else scan_slots d r s)"

text \<open>The address found, or \<open>-ENODEV\<close>.\<close>

definition find_ahci_device :: "device \<Rightarrow> addr \<Rightarrow> 'a machine_scheme \<Rightarrow> int \<times> addr \<times> 'a machine_scheme" where
  "find_ahci_device d abar s =
     (case scan_slots d [(b, i). b \<leftarrow> [0..<256], i \<leftarrow> [0..<32]] s of
        (Some a, s) \<Rightarrow> (0, a, s)
      | (None, s) \<Rightarrow> (-19, abar, s))"

fun init_ports :: "hardware \<Rightarrow> u32 \<Rightarrow> nat list \<Rightarrow> ahci_manager \<Rightarrow> 'a machine_scheme
    \<Rightarrow> (ahci_manager \<times> 'a machine_scheme) option" where
  "init_ports h pi [] mg s = Some (mg, s)"
| "init_ports h pi (i # is) mg s =
     (let port = port_at (abar_at mg) i in
      if (pi AND 1) = 1 then
        let (type, s) = ahci_check_type h port s in
        if type = AHCI_DEV_SATA then do {
          s \<leftarrow> ahci_port_rebase h port i s;
          let mg = mg\<lparr>active_port := of_nat i\<rparr>;
          (r, s) \<leftarrow> ahci_read_raw h (abar_at mg) port 0 1 AHCI_FILE_SYSTEM_DATA_BASE s;
          init_ports h (drop_bit 1 pi) is mg s }
        else init_ports h (drop_bit 1 pi) is mg s
      else init_ports h (drop_bit 1 pi) is mg s)"

definition ahci_init :: "hardware \<Rightarrow> ahci_manager \<Rightarrow> 'a machine_scheme \<Rightarrow> (int \<times> ahci_manager \<times> 'a machine_scheme) option" where
  "ahci_init h mg s =
     (let (err, tmp, s) = find_ahci_device (dev h) (abar_at mg) s in
      if err \<noteq> 0 then Some (err, mg, s)
      else
        let mg = mg\<lparr>abar_at := tmp\<rparr>;
            (pi, s) = rd_reg h (abar_at mg + 0x0C) s
        in do {
          (mg, s) \<leftarrow> init_ports h pi [0..<AHCI_MAX_PORT_NUM] mg s;
          Some (0, mg, s) })"

end
