(* ===== verification/Ahci_Spec.thy ===== *)
theory Ahci_Spec
  imports Ahci
begin

text \<open>
  What the controller finds when a command is issued: \<open>fetch\<close> reads the command header, the command
  FIS and the PRDT as the AHCI specification has them (4.2.2, 4.2.3): the direction is the header's W bit, which has to
  agree with the command of the FIS; ATAPI, reset, BIST and port multiplier bits are clear; the table is aligned to
  128 bytes, the data areas and their sizes to words, and the upper halves of the addresses are zero; a count of zero is
  one of 65536.  Of anything else nothing is said.  The lemmas give the command that \<open>build_cmd\<close> leaves in memory, for
  transfers of any number of sectors.
\<close>

record command =
  c_write :: bool
  c_lba :: nat
  c_count :: nat
  c_prdt :: "(addr \<times> nat) list"

text \<open>An entry of the PRDT: address, its upper half, number of bytes.\<close>

definition prd_entry :: "mem \<Rightarrow> addr \<Rightarrow> nat \<Rightarrow> addr \<times> u32 \<times> nat" where
  "prd_entry m tbl i = (ld32 m (tbl + 0x80 + 16 * of_nat i), ld32 m (tbl + 0x80 + 16 * of_nat i + 4),
     Suc (unat (ld32 m (tbl + 0x80 + 16 * of_nat i + 12) AND 0x3FFFFF)))"

definition fetch :: "mem \<Rightarrow> addr \<Rightarrow> command option" where
  "fetch m hdr =
     (let tbl = ld32 m (hdr + 8);
          w = (m hdr AND 0x40 \<noteq> 0);
          ps = map (prd_entry m tbl) [0..<unat (ld16 m (hdr + 2))];
          n = unat (m (tbl + 12)) + 2 ^ 8 * unat (m (tbl + 13)) in
      if m hdr AND 0x3F = 5 \<and> m (hdr + 1) = 0 \<and> ld32 m (hdr + 12) = 0 \<and> tbl AND 0x7F = 0
        \<and> m tbl = 0x27 \<and> m (tbl + 1) AND 0x80 \<noteq> 0 \<and> m (tbl + 7) AND 0x40 \<noteq> 0
        \<and> m (tbl + 2) = (if w then 0x35 else 0x25) \<and> (\<forall>(a, hi, n)\<in>set ps. even a \<and> hi = 0 \<and> even n)
      then Some \<lparr>c_write = w,
        c_lba = unat (m (tbl + 4)) + 2 ^ 8 * unat (m (tbl + 5)) + 2 ^ 16 * unat (m (tbl + 6))
          + 2 ^ 24 * unat (m (tbl + 8)) + 2 ^ 32 * unat (m (tbl + 9)) + 2 ^ 40 * unat (m (tbl + 10)),
        c_count = (if n = 0 then 65536 else n),
        c_prdt = map (\<lambda>(a, hi, n). (a, n)) ps\<rparr>
      else None)"

subsection \<open>Bytes of words\<close>

lemma byte_of_64: "unat (ucast (drop_bit k (w :: 64 word)) :: u8) = unat w div 2 ^ k mod 2 ^ 8"
  by (simp only: unsigned_ucast_eq unat_drop_bit_eq) (simp add: take_bit_eq_mod drop_bit_eq_div)

lemma byte_of_32: "unat (ucast (drop_bit k (w :: u32)) :: u8) = unat w div 2 ^ k mod 2 ^ 8"
  by (simp only: unsigned_ucast_eq unat_drop_bit_eq) (simp add: take_bit_eq_mod drop_bit_eq_div)

lemma digits6:
  fixes n :: nat
  assumes "n < 281474976710656"
  shows "n mod 256 + 256 * (n div 256 mod 256) + 65536 * (n div 65536 mod 256)
     + 16777216 * (n div 16777216 mod 256) + 4294967296 * (n div 4294967296 mod 256)
     + 1099511627776 * (n div 1099511627776 mod 256) = n"
proof -
  define a b c d e where "a = n div 256" and "b = a div 256" and "c = b div 256" and "d = c div 256" and "e = d div 256"
  have q: "n div 65536 = b" "n div 16777216 = c" "n div 4294967296 = d" "n div 1099511627776 = e"
    by (simp_all add: a_def b_def c_def d_def e_def flip: div_mult2_eq)
  have m: "x = x mod 256 + 256 * (x div 256)" for x :: nat by simp
  have "e div 256 = 0" using assms by (simp add: a_def b_def c_def d_def e_def flip: div_mult2_eq)
  then have "e = e mod 256" using m [of e] by linarith
  then show ?thesis
    using m [of n] m [of a] m [of b] m [of c] m [of d]
    unfolding q a_def [symmetric] b_def [symmetric] c_def [symmetric] d_def [symmetric] e_def [symmetric]
    by linarith
qed

subsection \<open>The command FIS\<close>

lemma set_fis_bytes:
  "set_fis m tbl cmd lba count tbl = 0x27"
  "set_fis m tbl cmd lba count (tbl + 1) = m (tbl + 1) OR 0x80"
  "set_fis m tbl cmd lba count (tbl + 2) = cmd"
  "set_fis m tbl cmd lba count (tbl + 4) = ucast lba"
  "set_fis m tbl cmd lba count (tbl + 5) = ucast (drop_bit 8 lba)"
  "set_fis m tbl cmd lba count (tbl + 6) = ucast (drop_bit 16 lba)"
  "set_fis m tbl cmd lba count (tbl + 7) = 0x40"
  "set_fis m tbl cmd lba count (tbl + 8) = ucast (drop_bit 24 lba)"
  "set_fis m tbl cmd lba count (tbl + 9) = ucast (drop_bit 32 lba)"
  "set_fis m tbl cmd lba count (tbl + 10) = ucast (drop_bit 40 lba)"
  "set_fis m tbl cmd lba count (tbl + 12) = ucast (count AND 0xFF)"
  "set_fis m tbl cmd lba count (tbl + 13) = ucast (drop_bit 8 count)"
  by (simp_all add: set_fis_def Let_def st8_def)

lemma set_fis_other: "\<not> inside tbl 14 x \<Longrightarrow> set_fis m tbl cmd lba count x = m x"
proof -
  assume x: "\<not> inside tbl 14 x"
  have "x \<noteq> tbl + of_nat d" if "d < 14" for d
    using x that inside_add [of 14 d tbl] by auto
  from this [of 0] this [of 1] this [of 2] this [of 4] this [of 5] this [of 6] this [of 7] this [of 8] this [of 9]
    this [of 10] this [of 12] this [of 13]
  show ?thesis by (simp add: set_fis_def Let_def st8_def)
qed

subsection \<open>The PRDT\<close>

text \<open>The stores of one entry.\<close>

definition put_entry :: "mem \<Rightarrow> addr \<Rightarrow> addr \<Rightarrow> u32 \<Rightarrow> mem" where
  "put_entry m e buf dbc = set_dbc (st32 (st32 m e buf) (e + 4) 0) e dbc"

lemma fields_apart: "apart (e :: addr) 4 (e + 4) 4" "apart (e + 4) 4 (e + 12) 4" "apart e 4 (e + 12) 4"
  by (simp_all add: apart_def)

lemma put_entry_fields:
  "ld32 (put_entry m e buf dbc) e = buf" "ld32 (put_entry m e buf dbc) (e + 4) = 0"
  "ld32 (put_entry m e buf dbc) (e + 12) AND 0x3FFFFF = dbc AND 0x3FFFFF"
proof -
  show "ld32 (put_entry m e buf dbc) (e + 4) = 0"
    using fields_apart by (simp add: put_entry_def set_dbc_def ld32_st32_apart apart_sym)
  show "ld32 (put_entry m e buf dbc) e = buf"
    using fields_apart by (simp add: put_entry_def set_dbc_def ld32_st32_apart apart_sym)
  have "((a AND NOT 0x3FFFFF) OR (b AND 0x3FFFFF)) AND 0x3FFFFF = b AND (0x3FFFFF :: u32)" for a b
    by (rule bit_word_eqI) (auto simp: bit_simps)
  then show "ld32 (put_entry m e buf dbc) (e + 12) AND 0x3FFFFF = dbc AND 0x3FFFFF"
    by (simp add: put_entry_def set_dbc_def)
qed

lemma set_ioc_fields:
  "ld32 (set_ioc m e) e = ld32 m e" "ld32 (set_ioc m e) (e + 4) = ld32 m (e + 4)" "ld32 (set_ioc m e) (e + 12) AND 0x3FFFFF = ld32 m (e + 12) AND 0x3FFFFF"
proof -
  show "ld32 (set_ioc m e) e = ld32 m e" "ld32 (set_ioc m e) (e + 4) = ld32 m (e + 4)"
    using fields_apart [of e] by (simp_all add: set_ioc_def ld32_st32_apart)
  have m22: "(0x3FFFFF :: u32) = mask 22" by (simp add: mask_eq_exp_minus_1)
  have t31: "bit (0x80000000 :: u32) n \<longleftrightarrow> n = 31" for n
  proof -
    have e: "(0x80000000 :: u32) = push_bit 31 1" by simp
    show ?thesis unfolding e by (simp only: bit_simps) auto
  qed
  have "(a OR 0x80000000) AND 0x3FFFFF = a AND (0x3FFFFF :: u32)" for a
    unfolding m22 by (rule bit_word_eqI) (auto simp only: bit_or_iff bit_and_iff bit_mask_iff t31)
  then show "ld32 (set_ioc m e) (e + 12) AND 0x3FFFFF = ld32 m (e + 12) AND 0x3FFFFF"
    by (simp add: set_ioc_def)
qed

lemma entry_other:
  assumes "\<not> inside e 16 x"
  shows "put_entry m e buf dbc x = m x" "set_ioc m e x = m x"
proof -
  have "\<not> inside (e + of_nat d) 4 x" if "d + 4 \<le> 16" for d
    using assms inside_offset [of e d 4 x 16] that by auto
  from this [of 0] this [of 4] this [of 12] show "put_entry m e buf dbc x = m x" "set_ioc m e x = m x"
    by (simp_all add: put_entry_def set_dbc_def set_ioc_def st32_other)
qed


definition entry_at :: "addr \<Rightarrow> nat \<Rightarrow> addr" where
  "entry_at tbl j = tbl + 0x80 + 16 * of_nat j"

lemma prd_entry_at: "prd_entry m tbl j = (ld32 m (entry_at tbl j), ld32 m (entry_at tbl j + 4), Suc (unat (ld32 m (entry_at tbl j + 12) AND 0x3FFFFF)))"
  by (simp add: prd_entry_def entry_at_def)

lemma entry_in: "j < n \<Longrightarrow> n \<le> 65536 \<Longrightarrow> inside (entry_at tbl j) 16 x \<Longrightarrow> inside (tbl + 0x80) (16 * n) x"
  by (rule inside_sub [of "entry_at tbl j" 16 x "tbl + 0x80" "16 * j"]) (simp_all add: entry_at_def)

lemma entry_apart: "i \<noteq> j \<Longrightarrow> i < 65536 \<Longrightarrow> j < 65536 \<Longrightarrow> apart (entry_at tbl i) 16 (entry_at tbl j) 16"
proof -
  have a: "apart (entry_at tbl i) 16 (entry_at tbl j) 16" if "i < j" "j < 65536" for i j
    using apart_offsets [of "16 * i" 16 "16 * j" 16 "tbl + 0x80"] that by (simp add: entry_at_def)
  assume "i \<noteq> j" "i < 65536" "j < 65536"
  then show ?thesis using a [of i j] a [of j i] by (cases "i < j") (auto simp: apart_sym)
qed

lemma prd_entry_cong:
  assumes "\<And>x. inside (entry_at tbl j) 16 x \<Longrightarrow> m' x = m x"
  shows "prd_entry m' tbl j = prd_entry m tbl j"
proof -
  have "ld32 m' (entry_at tbl j + of_nat d) = ld32 m (entry_at tbl j + of_nat d)" if "d + 4 \<le> 16" for d
    by (rule ld32_cong) (use that assms inside_offset [of "entry_at tbl j" d 4 _ 16] in auto)
  from this [of 0] this [of 4] this [of 12] show ?thesis by (simp add: prd_entry_at)
qed

lemma prd_entry_put:
  "prd_entry (put_entry m (entry_at tbl j) buf dbc) tbl j = (buf, 0, Suc (unat (dbc AND 0x3FFFFF)))"
  "prd_entry (set_ioc (put_entry m (entry_at tbl j) buf dbc) (entry_at tbl j)) tbl j = (buf, 0, Suc (unat (dbc AND 0x3FFFFF)))"
  by (simp_all add: prd_entry_at put_entry_fields set_ioc_fields)

lemma prdt_loop_eq:
  assumes "k + i < 65536" "k < fuel" "unat (ld16 m (hdr + 2)) = Suc (k + i)"
    "apart (hdr + 2) 2 (tbl + 0x80) (16 * Suc (k + i))"
  shows "\<exists>m'. prdt_loop fuel m hdr tbl i buf count = (k + i, buf + 2048 * of_nat k, count - 16 * of_nat k, m')
    \<and> (\<forall>j<k. prd_entry m' tbl (i + j) = (buf + 2048 * of_nat j, 0, 8192))
    \<and> (\<forall>x. (\<forall>j<k. \<not> inside (entry_at tbl (i + j)) 16 x) \<longrightarrow> m' x = m x)"
  using assms
proof (induction k arbitrary: i fuel m buf count)
  case 0
  then show ?case by (cases fuel) auto
next
  case (Suc k)
  then obtain f where f: "fuel = Suc f" "k < f" by (cases fuel) auto
  let ?e = "entry_at tbl i"
  define m1 where "m1 = set_ioc (put_entry m ?e buf 8191) ?e"
  have m1o: "m1 x = m x" if "\<not> inside ?e 16 x" for x using that by (simp add: m1_def entry_other)
  have far: "\<not> inside ?e 16 x" if "inside (hdr + 2) 2 x" for x
    using that Suc.prems(1,4) entry_in [of i "Suc (Suc k + i)" tbl x] by (auto dest: apart_inside)
  have ld: "unat (ld16 m1 (hdr + 2)) = Suc (k + Suc i)"
    using Suc.prems(3) ld16_cong [of "hdr + 2" m1 m] m1o far by simp
  have step: "prdt_loop fuel m hdr tbl i buf count = prdt_loop f m1 hdr tbl (Suc i) (buf + 2048) (count - 16)"
    using Suc.prems(3) f by (simp add: m1_def put_entry_def entry_at_def Let_def)
  have "k + Suc i < 65536" "apart (hdr + 2) 2 (tbl + 0x80) (16 * Suc (k + Suc i))" using Suc.prems by simp_all
  from Suc.IH [OF this(1) f(2) ld this(2), of "buf + 2048" "count - 16"]
  obtain m' where m': "prdt_loop f m1 hdr tbl (Suc i) (buf + 2048) (count - 16) =
      (k + Suc i, buf + 2048 + 2048 * of_nat k, count - 16 - 16 * of_nat k, m')"
    "\<And>j. j < k \<Longrightarrow> prd_entry m' tbl (Suc i + j) = (buf + 2048 + 2048 * of_nat j, 0, 8192)"
    "\<And>x. (\<forall>j<k. \<not> inside (entry_at tbl (Suc i + j)) 16 x) \<Longrightarrow> m' x = m1 x"
    by blast
  have "prd_entry m' tbl i = prd_entry m1 tbl i"
  proof (rule prd_entry_cong)
    fix x assume e: "inside ?e 16 x"
    have "\<not> inside (entry_at tbl (Suc i + j)) 16 x" if "j < k" for j
      by (rule apart_inside [OF entry_apart e]) (use Suc.prems(1) that in auto)
    then show "m' x = m1 x" using m'(3) by blast
  qed
  then have e0: "prd_entry m' tbl i = (buf, 0, 8192)"
    by (simp add: m1_def prd_entry_put)
  have "prd_entry m' tbl (i + j) = (buf + 2048 * of_nat j, 0, 8192)" if "j < Suc k" for j
  proof (cases j)
    case 0
    then show ?thesis using e0 by simp
  next
    case (Suc l)
    then show ?thesis using m'(2) [of l] that by (simp add: algebra_simps)
  qed
  moreover have "m' x = m x" if "\<forall>j<Suc k. \<not> inside (entry_at tbl (i + j)) 16 x" for x
  proof -
    have "\<not> inside (entry_at tbl (Suc i + j)) 16 x" if "j < k" for j
      using \<open>\<forall>j<Suc k. _\<close> that by (metis Suc_less_eq add_Suc add_Suc_right)
    moreover have "\<not> inside ?e 16 x" using that [rule_format, of 0] by simp
    ultimately show ?thesis using m'(3) m1o by simp
  qed
  ultimately show ?case using step m'(1) by (auto simp: algebra_simps intro!: exI [of _ m'])
qed


subsection \<open>The command in memory\<close>

text \<open>The header bytes, before anything is stored in the table.\<close>

definition header :: "bool \<Rightarrow> mem \<Rightarrow> addr \<Rightarrow> u32 \<Rightarrow> mem" where
  "header w m hdr count =
     (let m = st8 m hdr ((m hdr AND 0xE0) OR 5);
          m = (if w then st8 m hdr (m hdr OR 0x40) else st8 m hdr (m hdr AND NOT 0x40))
      in st16 m (hdr + 2) (ucast (drop_bit 4 (count - 1)) + 1))"

lemma header_fields:
  assumes "unat count = 16 * k + r" "0 < r" "r \<le> 16" "k < 65535"
  shows "m hdr AND 0x20 = 0 \<Longrightarrow> header w m hdr count hdr AND 0x3F = 5" "header w m hdr count hdr AND 0x40 \<noteq> 0 \<longleftrightarrow> w"
    "header w m hdr count (hdr + 1) = m (hdr + 1)" "unat (ld16 (header w m hdr count) (hdr + 2)) = Suc k"
    "ld32 (header w m hdr count) (hdr + 8) = ld32 m (hdr + 8)"
    "ld32 (header w m hdr count) (hdr + 12) = ld32 m (hdr + 12)"
    "\<And>x. \<not> inside hdr 4 x \<Longrightarrow> header w m hdr count x = m x"
proof -
  have "bit (0xE0 :: u8) n \<longleftrightarrow> 5 \<le> n \<and> n < 8" "bit (0x3F :: u8) n \<longleftrightarrow> n < 6" "bit (0x20 :: u8) n \<longleftrightarrow> n = 5"
    "bit (5 :: u8) n \<longleftrightarrow> n = 0 \<or> n = 2" "bit (0x40 :: u8) n \<longleftrightarrow> n = 6" for n
  proof -
    have e: "(0xE0 :: u8) = push_bit 5 (mask 3)" "(0x3F :: u8) = mask 6" "(0x20 :: u8) = push_bit 5 1" "(5 :: u8) = push_bit 0 1 OR push_bit 2 1"
      "(0x40 :: u8) = push_bit 6 1" by (simp_all add: mask_eq_exp_minus_1)
    show "bit (0xE0 :: u8) n \<longleftrightarrow> 5 \<le> n \<and> n < 8" unfolding e by (simp only: bit_simps) auto
    show "bit (0x3F :: u8) n \<longleftrightarrow> n < 6" unfolding e by (simp only: bit_simps) auto
    show "bit (0x20 :: u8) n \<longleftrightarrow> n = 5" unfolding e by (simp only: bit_simps) auto
    show "bit (5 :: u8) n \<longleftrightarrow> n = 0 \<or> n = 2" unfolding e(4) by (simp only: bit_simps) auto
    show "bit (0x40 :: u8) n \<longleftrightarrow> n = 6" unfolding e by (simp only: bit_simps) auto
  qed note bits = this
  have b: "(((a AND 0xE0) OR 5) OR 0x40) AND 0x3F = (5 :: u8)" "(((a AND 0xE0) OR 5) AND NOT 0x40) AND 0x3F = (5 :: u8)"
    if a: "a AND 0x20 = 0" for a
  proof -
    have "\<not> bit a 5" using arg_cong [OF a, of "\<lambda>w. bit w 5"] by (simp only: bit_and_iff bits) simp
    then show "(((a AND 0xE0) OR 5) OR 0x40) AND 0x3F = (5 :: u8)" "(((a AND 0xE0) OR 5) AND NOT 0x40) AND 0x3F = (5 :: u8)"
      by (rule_tac [!] bit_word_eqI, simp_all only: bit_or_iff bit_and_iff bit_not_iff bits possible_bit_word) (auto simp: less_Suc_eq numeral_eq_Suc)
  qed
  have d: "(x OR 0x40) AND 0x40 \<noteq> (0 :: u8)" "(x AND NOT 0x40) AND 0x40 = (0 :: u8)" for x
  proof -
    have "bit ((x OR 0x40) AND 0x40 :: u8) 6" by (simp only: bit_or_iff bit_and_iff bits) simp
    then show "(x OR 0x40) AND 0x40 \<noteq> (0 :: u8)" by (metis bit_0_eq bot_apply bot_bool_def)
    show "(x AND NOT 0x40) AND 0x40 = (0 :: u8)" by (rule bit_word_eqI) (simp only: bit_and_iff bit_not_iff bits, simp)
  qed
  have h: "st16 m' (hdr + 2) v hdr = m' hdr" "st16 m' (hdr + 2) v (hdr + 1) = m' (hdr + 1)" for m' v by (simp_all add: st16_def)
  show "header w m hdr count hdr AND 0x3F = 5" if "m hdr AND 0x20 = 0"
    using b [OF that] by (simp add: header_def Let_def h) (simp add: st8_def)
  show "header w m hdr count hdr AND 0x40 \<noteq> 0 \<longleftrightarrow> w"
    using d by (simp add: header_def Let_def h) (simp add: st8_def)
  show "header w m hdr count (hdr + 1) = m (hdr + 1)"
    by (simp add: header_def Let_def h) (simp add: st8_def)
  have c1: "unat (count - 1) = 16 * k + r - 1" using assms unat_minus_one [of count] by (cases "count = 0") auto
  have "unat (drop_bit 4 (count - 1)) = k"
    using assms by (simp only: unat_drop_bit_eq c1) (simp add: drop_bit_eq_div)
  then have "drop_bit 4 (count - 1) = of_nat k" by (rule u32_of_nat_eqI)
  then have "unat (ucast (drop_bit 4 (count - 1)) + 1 :: u16) = Suc k"
    using assms(4) by (simp add: unat_word_ariths unsigned_of_nat take_bit_nat_eq_self)
  then show "unat (ld16 (header w m hdr count) (hdr + 2)) = Suc k"
    by (simp add: header_def Let_def)
  show o: "header w m hdr count x = m x" if "\<not> inside hdr 4 x" for x
  proof -
    have "x \<noteq> hdr" "x \<noteq> hdr + 2" "x \<noteq> 3 + hdr" using that by (auto simp: inside_def)
    then show ?thesis by (simp add: header_def Let_def st16_def st8_def)
  qed
  have "\<not> inside hdr 4 x" if "inside (hdr + of_nat d) 4 x" "4 \<le> d" "d \<le> 12" for x d
    by (rule apart_inside [OF _ that(1)]) (use apart_offsets [of 0 4 d 4 hdr] that in \<open>simp add: apart_sym\<close>)
  then have "ld32 (header w m hdr count) (hdr + of_nat d) = ld32 m (hdr + of_nat d)" if "4 \<le> d" "d \<le> 12" for d
    using that by (intro ld32_cong o) auto
  from this [of 8] this [of 12]
  show "ld32 (header w m hdr count) (hdr + 8) = ld32 m (hdr + 8)"
    "ld32 (header w m hdr count) (hdr + 12) = ld32 m (hdr + 12)" by simp_all
qed


lemma fis_numbers:
  assumes "unat (lba :: 64 word) < 281474976710656" "r < 65536"
  shows "unat (ucast lba :: u8) + 256 * unat (ucast (drop_bit 8 lba) :: u8) + 65536 * unat (ucast (drop_bit 16 lba) :: u8)
     + 16777216 * unat (ucast (drop_bit 24 lba) :: u8) + 4294967296 * unat (ucast (drop_bit 32 lba) :: u8)
     + 1099511627776 * unat (ucast (drop_bit 40 lba) :: u8) = unat lba"
   "unat (ucast (of_nat r AND 0xFF :: u32) :: u8) + 256 * unat (ucast (drop_bit 8 (of_nat r :: u32)) :: u8) = r"
proof -
  have "unat (ucast lba :: u8) = unat lba mod 256" using byte_of_64 [of 0 lba] by simp
  then show "unat (ucast lba :: u8) + 256 * unat (ucast (drop_bit 8 lba) :: u8) + 65536 * unat (ucast (drop_bit 16 lba) :: u8)
     + 16777216 * unat (ucast (drop_bit 24 lba) :: u8) + 4294967296 * unat (ucast (drop_bit 32 lba) :: u8)
     + 1099511627776 * unat (ucast (drop_bit 40 lba) :: u8) = unat lba"
    using digits6 [OF assms(1)] byte_of_64 [of 8 lba] byte_of_64 [of 16 lba] byte_of_64 [of 24 lba]
      byte_of_64 [of 32 lba] byte_of_64 [of 40 lba] by simp
  have u: "unat (of_nat r :: u32) = r" using assms(2) by (simp add: unat_of_nat_lt)
  have "(ucast (of_nat r AND 0xFF :: u32) :: u8) = ucast (of_nat r :: u32)"
    unfolding byte_mask by (rule bit_word_eqI) (auto simp: bit_simps)
  then have "unat (ucast (of_nat r AND 0xFF :: u32) :: u8) = r mod 256"
    using byte_of_32 [of 0 "of_nat r"] u by simp
  moreover have "unat (ucast (drop_bit 8 (of_nat r :: u32)) :: u8) = r div 256"
    using byte_of_32 [of 8 "of_nat r"] u assms(2) by simp
  ultimately show "unat (ucast (of_nat r AND 0xFF :: u32) :: u8) + 256 * unat (ucast (drop_bit 8 (of_nat r :: u32)) :: u8) = r"
    by simp
qed

lemma build_cmd_fetch:
  assumes n: "unat count = 16 * k + r" "0 < r" "r \<le> 16" "k < 65535"
    and tbl: "tbl = ld32 m (hdr + 8)" "ld32 m (hdr + 12) = 0" "shl_full h 0 = 0"
    and plain: "m hdr AND 0x20 = 0" "m (hdr + 1) = 0" "tbl AND 0x7F = 0" "even buf"
    and ap: "apart hdr 16 tbl (256 + 16 * k)" and lba: "unat lba < 281474976710656"
  shows "fetch (build_cmd h w m hdr lba count buf) hdr = Some \<lparr>c_write = w, c_lba = unat lba, c_count = r,
     c_prdt = map (\<lambda>i. (buf + 2048 * of_nat i, 8192)) [0..<k] @ [(buf + 2048 * of_nat k, 512 * r)]\<rparr>"
    "\<And>x. \<not> inside hdr 4 x \<Longrightarrow> \<not> inside tbl (256 + 16 * k) x \<Longrightarrow> build_cmd h w m hdr lba count buf x = m x"
proof -
  let ?D = "inside tbl (256 + 16 * k)"
  define m1 where "m1 = header w m hdr count"
  note H = header_fields [OF n, where w = w and m = m and hdr = hdr, folded m1_def]
  have t: "shl_full h (ld32 m1 (hdr + 12)) OR ld32 m1 (hdr + 8) = tbl" using H(5,6) tbl by simp
  define m2 where "m2 = fill m1 tbl (256 + 16 * k) 0"
  have m2o: "m2 x = m1 x" if "\<not> ?D x" for x using that by (simp add: m2_def fill_def)
  have hd: "\<not> ?D x" if "inside hdr 16 x" for x using ap that by (rule apart_inside)
  have h2: "\<not> ?D x" if "inside (hdr + 2) 2 x" for x using hd inside_offset [of hdr 2 2 x 16] that by simp
  have ld2: "unat (ld16 m2 (hdr + 2)) = Suc (k + 0)"
    using H(4) ld16_cong [of "hdr + 2" m2 m1] m2o h2 by simp
  have sub: "?D x" if "inside (tbl + 0x80) (16 * Suc k) x" for x
    using inside_offset [of tbl 128 "16 * Suc k" x "256 + 16 * k"] that n(4) by simp
  have "apart (hdr + 2) 2 (tbl + 0x80) (16 * Suc (k + 0))"
    using apart_sub [OF ap, of 2 2 128 "16 * Suc k"] n(4) by simp
  from prdt_loop_eq [OF _ _ ld2 this, of 65536 buf count] n(4)
  obtain m3 where m3: "prdt_loop 65536 m2 hdr tbl 0 buf count = (k, buf + 2048 * of_nat k, count - 16 * of_nat k, m3)"
    "\<And>j. j < k \<Longrightarrow> prd_entry m3 tbl j = (buf + 2048 * of_nat j, 0, 8192)"
    "\<And>x. (\<forall>j<k. \<not> inside (entry_at tbl j) 16 x) \<Longrightarrow> m3 x = m2 x" by auto
  have r: "count - 16 * of_nat k = of_nat r"
  proof -
    have "count = of_nat (16 * k + r)" using n(1) u32_of_nat_eqI by blast
    then show ?thesis by simp
  qed
  define e where "e = entry_at tbl k"
  have e': "e = tbl + 0x80 + 16 * of_nat k" by (simp add: e_def entry_at_def)
  define dbc :: u32 where "dbc = push_bit 9 (of_nat r) - 1"
  define m4 where "m4 = (if w then put_entry m3 e (buf + 2048 * of_nat k) dbc
      else set_ioc (put_entry m3 e (buf + 2048 * of_nat k) dbc) e)"
  define m5 where "m5 = set_fis m4 tbl (if w then 0x35 else 0x25) lba (of_nat r)"
  have sz: "(256 + (int (unat (ld16 m1 (hdr + 2))) - 1) * 16) = int (256 + 16 * k)" using H(4) by simp
  have ms: "snd (memset m1 tbl 0 (int (256 + 16 * k))) = m2"
    using memset_eq [of "int (256 + 16 * k)" m1 tbl 0] n(4) by (simp only: nat_int snd_conv m2_def) simp
  have e4: "tbl + 0x80 + 16 * of_nat k + 4 = e + 4" by (simp only: e')
  have b: "build_cmd h w m hdr lba count buf = m5"
    unfolding build_cmd_def Let_def header_def [unfolded Let_def, symmetric] m1_def [symmetric] t sz ms m3(1) prod.case r
      e4 e' [symmetric]
    by (cases w) (simp_all only: m5_def m4_def put_entry_def dbc_def if_True if_False)
  have D4: "m4 x = m3 x" if "\<not> inside e 16 x" for x
    using that by (simp add: m4_def entry_other)
  have eD: "?D x" if "inside (entry_at tbl j) 16 x" "j \<le> k" for x j
    using sub entry_in [of j "Suc k" tbl x] that n(4) by simp
  have fD: "?D x" if "inside tbl 14 x" for x using that by (rule inside_mono) simp
  have out: "m5 x = m1 x" if nd: "\<not> ?D x" for x
  proof -
    have "m5 x = m4 x" using nd fD set_fis_other m5_def by blast
    also have "\<dots> = m3 x" using D4 eD [of k x] nd e_def by blast
    also have "\<dots> = m2 x" using m3(3) eD nd by (meson less_imp_le)
    finally show ?thesis using m2o nd by simp
  qed
  show "build_cmd h w m hdr lba count buf x = m x" if "\<not> inside hdr 4 x" "\<not> ?D x" for x
    unfolding b using out [OF that(2)] H(7) [OF that(1)] by simp
  have hdr5: "m5 x = m1 x" if "inside hdr 16 x" for x using out hd [OF that] by blast
  have "ld32 m5 (hdr + 8) = ld32 m1 (hdr + 8)" "ld32 m5 (hdr + 12) = ld32 m1 (hdr + 12)" "ld16 m5 (hdr + 2) = ld16 m1 (hdr + 2)"
    using inside_offset [of hdr 8 4 _ 16] inside_offset [of hdr 12 4 _ 16] inside_offset [of hdr 2 2 _ 16]
    by (auto intro!: ld32_cong ld16_cong hdr5)
  moreover have "m5 hdr = m1 hdr" "m5 (hdr + 1) = m1 (hdr + 1)" by (simp_all add: hdr5 inside_def)
  ultimately have T: "ld32 m5 (hdr + 8) = tbl" "ld32 m5 (hdr + 12) = 0" "unat (ld16 m5 (hdr + 2)) = Suc k" "m5 hdr AND 0x3F = 5"
    "m5 hdr AND 0x40 \<noteq> 0 \<longleftrightarrow> w" "m5 (hdr + 1) = 0"
    using H(1) [OF plain(1)] H(2-6) tbl plain(2) by simp_all
  have fe: "\<not> inside tbl 14 x" if "inside (entry_at tbl j) 16 x" "j \<le> k" for j x
  proof -
    have "inside (tbl + 0x80) (16 * Suc k) x" using entry_in [of j "Suc k" tbl x] that n(4) by simp
    moreover have "apart (tbl + of_nat 128) (16 * Suc k) (tbl + of_nat 0) 14"
      using apart_offsets [of 0 14 128 "16 * Suc k" tbl] n(4) by (simp add: apart_sym)
    ultimately show ?thesis by (auto dest: apart_inside)
  qed
  have pe5: "prd_entry m5 tbl j = prd_entry m4 tbl j" if "j \<le> k" for j
    by (rule prd_entry_cong) (use fe that in \<open>simp add: m5_def set_fis_other\<close>)
  have pej: "prd_entry m5 tbl j = (buf + 2048 * of_nat j, 0, 8192)" if "j < k" for j
  proof -
    have "prd_entry m4 tbl j = prd_entry m3 tbl j"
    proof (rule prd_entry_cong)
      fix x assume e: "inside (entry_at tbl j) 16 x"
      have "\<not> inside e 16 x"
        unfolding e_def by (rule apart_inside [OF entry_apart e]) (use that n(4) in auto)
      then show "m4 x = m3 x" by (rule D4)
    qed
    then show ?thesis using pe5 m3(2) that by simp
  qed
  have dbc: "Suc (unat (dbc AND 0x3FFFFF)) = 512 * r"
  proof -
    have p: "push_bit 9 (of_nat r :: u32) = of_nat (512 * r)" by (simp add: push_bit_eq_mult mult.commute)
    have "dbc = of_nat (512 * r - 1)" using n(2) by (simp add: dbc_def p of_nat_diff)
    moreover have "(0x3FFFFF :: u32) = mask 22" by (simp add: mask_eq_exp_minus_1)
    ultimately have "unat (dbc AND 0x3FFFFF) = (512 * r - 1) mod 2 ^ 22"
      using n(3) by (simp only: unat_of_nat_lt take_bit_eq_mask [symmetric] unsigned_take_bit_eq) (simp add: take_bit_eq_mod unat_of_nat_lt)
    then show ?thesis using n(2,3) by simp
  qed
  have pek: "prd_entry m5 tbl k = (buf + 2048 * of_nat k, 0, 512 * r)"
    using pe5 [of k] prd_entry_put [of m3 tbl k "buf + 2048 * of_nat k" dbc] dbc by (simp add: m4_def e_def)
  have or: "(b OR 0x80) AND 0x80 \<noteq> (0 :: u8)" for b
  proof -
    have "((b OR 0x80) AND 0x80) = (0x80 :: u8)" by (rule bit_word_eqI) (auto simp: bit_or_iff bit_and_iff)
    then show ?thesis by simp
  qed
  note B = set_fis_bytes [of m4 tbl "if w then 0x35 else 0x25" lba "of_nat r", folded m5_def]
  have c: "unat (m5 (tbl + 4)) + 256 * unat (m5 (tbl + 5)) + 65536 * unat (m5 (tbl + 6)) + 16777216 * unat (m5 (tbl + 8))
      + 4294967296 * unat (m5 (tbl + 9)) + 1099511627776 * unat (m5 (tbl + 10)) = unat lba"
    "unat (m5 (tbl + 12)) + 256 * unat (m5 (tbl + 13)) = r"
    unfolding B using fis_numbers [OF lba, of r] n(3) by simp_all
  have ps: "map (prd_entry m5 tbl) [0..<Suc k] = map (\<lambda>i. (buf + 2048 * of_nat i, 0, 8192)) [0..<k] @ [(buf + 2048 * of_nat k, 0, 512 * r)]"
    using pej pek by simp
  have ev: "\<forall>(a, hi, n)\<in>set (map (prd_entry m5 tbl) [0..<Suc k]). even a \<and> hi = 0 \<and> even n"
    unfolding ps using plain(4) by auto
  have "(if w then 0x35 else 0x25) = (if m5 hdr AND 0x40 \<noteq> 0 then 0x35 else 0x25 :: u8)" using T(5) by simp
  then show "fetch (build_cmd h w m hdr lba count buf) hdr = Some \<lparr>c_write = w, c_lba = unat lba, c_count = r,
     c_prdt = map (\<lambda>i. (buf + 2048 * of_nat i, 8192)) [0..<k] @ [(buf + 2048 * of_nat k, 512 * r)]\<rparr>"
    unfolding b fetch_def Let_def T(1-4,6) using ev T(5) B(1,2,3,7) or c plain(3) n(2,3) unfolding ps by simp
qed

lemma fetch_areas: "fetch m hdr = Some c \<Longrightarrow> length (c_prdt c) = unat (ld16 m (hdr + 2))"
  by (auto simp: fetch_def Let_def split: if_splits)

text \<open>The controller's view rests on the header and the table alone.\<close>

lemma fetch_cong:
  assumes hdr: "\<And>x. inside hdr 16 x \<Longrightarrow> m' x = m x"
    and tbl: "\<And>x. inside (ld32 m (hdr + 8)) (128 + 16 * unat (ld16 m (hdr + 2))) x \<Longrightarrow> m' x = m x"
  shows "fetch m' hdr = fetch m hdr"
proof -
  let ?t = "ld32 m (hdr + 8)" and ?n = "unat (ld16 m (hdr + 2))"
  have n: "?n < 65536" using unsigned_less [of "ld16 m (hdr + 2)"] by simp
  have H: "ld32 m' (hdr + 8) = ?t" "ld32 m' (hdr + 12) = ld32 m (hdr + 12)" "ld16 m' (hdr + 2) = ld16 m (hdr + 2)"
    using inside_offset [of hdr 8 4 _ 16] inside_offset [of hdr 12 4 _ 16] inside_offset [of hdr 2 2 _ 16]
    by (auto intro!: ld32_cong ld16_cong hdr)
  have B: "m' hdr = m hdr" "m' (hdr + 1) = m (hdr + 1)" by (simp_all add: hdr inside_def)
  have T: "m' (?t + of_nat d) = m (?t + of_nat d)" if "d < 128" for d
    using that inside_add [of d "128 + 16 * ?n" ?t] n by (intro tbl) simp
  have "prd_entry m' ?t j = prd_entry m ?t j" if "j < ?n" for j
  proof (rule prd_entry_cong)
    fix x assume "inside (entry_at ?t j) 16 x"
    then have "inside (?t + of_nat 128) (16 * ?n) x" using entry_in [of j ?n ?t x] that n by simp
    then show "m' x = m x" using inside_offset [of ?t 128 "16 * ?n" x "128 + 16 * ?n"] n by (intro tbl) simp
  qed
  then have ps: "map (prd_entry m' ?t) [0..<?n] = map (prd_entry m ?t) [0..<?n]" by simp
  show ?thesis
    unfolding fetch_def Let_def H B ps
    using T [of 0] T [of 1] T [of 2] T [of 4] T [of 5] T [of 6] T [of 7] T [of 8] T [of 9] T [of 10] T [of 12] T [of 13] by simp
qed

end
