(* ===== verification/Ahci_Props.thy ===== *)
theory Ahci_Props
  imports Ahci_Spec Console_Props
begin

text \<open>
  Properties of the SATA driver: the command a transfer leaves in memory, a read against a controller
  that carries out what it fetches, and what happens when the port stays busy.
\<close>

subsection \<open>A controller\<close>

text \<open>
  What the driver relies on, from the AHCI specification.  The driver has written the bit of slot 0 to the issue register
  and reads registers since (\<open>as\<close>).  The memory at that time is \<open>m\<close>; each access may come with changes the controller has
  made to it (\<open>evolve\<close>).
\<close>

fun evolve :: "hardware \<Rightarrow> event list \<Rightarrow> event list \<Rightarrow> mem \<Rightarrow> mem" where
  "evolve h pre [] m = m"
| "evolve h pre (e # es) m = evolve h (pre @ [e]) es (dma h pre e m)"

lemma evolve_append: "evolve h pre (es @ fs) m = evolve h (pre @ es) fs (evolve h pre es m)"
  by (induction es arbitrary: pre m) simp_all

definition issued :: "addr \<Rightarrow> addr list \<Rightarrow> event list" where
  "issued port as = WrReg (port + PX_CI) 1 # map RdReg as"

lemma issued_append: "issued port (as @ bs) = issued port as @ map RdReg bs"
  by (simp add: issued_def)

text \<open>
  A command of one data area, as large as the sectors are, in places of its own: nothing the controller writes while it
  carries it out - the area of the received FIS at \<open>fb\<close>, the byte count in the command header at \<open>clb\<close>, the data - is in
  the way of what it reads.
\<close>

definition placed :: "mem \<Rightarrow> addr \<Rightarrow> addr \<Rightarrow> command \<Rightarrow> addr \<Rightarrow> nat \<Rightarrow> bool" where
  "placed m clb fb c a n \<longleftrightarrow> c_prdt c = [(a, n)] \<and> n = 512 * c_count c \<and> n \<le> 2 ^ 32
     \<and> apart a n fb 256 \<and> apart a n clb 32 \<and> apart a n (ld32 m (clb + 8)) 256
     \<and> apart fb 256 clb 32 \<and> apart fb 256 (ld32 m (clb + 8)) 256"

text \<open>
  A read is carried out: after some number of looks the bit in the issue register is clear, there is no task file error,
  only those places change, and once a look at the issue register has found the bit clear the data area holds the
  sectors.
\<close>

definition carries_out :: "hardware \<Rightarrow> addr \<Rightarrow> addr \<Rightarrow> addr \<Rightarrow> (nat \<Rightarrow> u8 list) \<Rightarrow> event list \<Rightarrow> mem \<Rightarrow> command \<Rightarrow> addr \<Rightarrow> nat \<Rightarrow> bool" where
  "carries_out h port clb fb disk pre m c a n \<longleftrightarrow>
     (\<exists>N. \<forall>as. N \<le> count_list as (port + PX_CI) \<longrightarrow> dev h (pre @ issued port as) (RdReg (port + PX_CI)) AND 1 = 0)
   \<and> (\<forall>as. dev h (pre @ issued port as) (RdReg (port + PX_IS)) AND HBA_PxIS_TFES = 0
       \<and> (\<forall>x. evolve h pre (issued port as) m x \<noteq> m x \<longrightarrow> inside fb 256 x \<or> inside (clb + 4) 4 x \<or> inside a n x)
       \<and> (dev h (pre @ issued port as) (RdReg (port + PX_CI)) AND 1 = 0 \<longrightarrow>
          (\<forall>bs. rd (evolve h pre (issued port (as @ (port + PX_CI) # bs)) m) a n
             = concat (map disk [c_lba c..<c_lba c + c_count c]))))"

text \<open>
  A controller idle after the accesses \<open>es0\<close>, with its command list at \<open>clb\<close> and the area of the received FIS at \<open>fb\<close>:
  while registers are read and interrupts cleared it stays idle and writes nowhere but to that area, and when the bit is
  written to the issue register it carries out the read it finds in memory.
\<close>

definition accesses :: "addr \<Rightarrow> event list \<Rightarrow> bool" where
  "accesses port es \<longleftrightarrow> (\<forall>e\<in>set es. (\<exists>a. e = RdReg a) \<or> (\<exists>v. e = WrReg (port + PX_IS) v))"

definition sata :: "hardware \<Rightarrow> addr \<Rightarrow> addr \<Rightarrow> addr \<Rightarrow> addr \<Rightarrow> (nat \<Rightarrow> u8 list) \<Rightarrow> event list \<Rightarrow> bool" where
  "sata h ab port clb fb disk es0 \<longleftrightarrow> shl_full h 0 = 0 \<and> (\<forall>es. accesses port es \<longrightarrow>
     dev h (es0 @ es) (RdReg (port + PX_CLB)) = clb \<and> dev h (es0 @ es) (RdReg (port + PX_CLBU)) = 0
     \<and> dev h (es0 @ es) (RdReg (port + PX_SACT)) = 0 \<and> dev h (es0 @ es) (RdReg (port + PX_CI)) = 0
     \<and> dev h (es0 @ es) (RdReg (port + PX_TFD)) AND 0x88 = 0 \<and> drop_bit 8 (dev h (es0 @ es) (RdReg ab) AND 0x1F00) \<noteq> 0
     \<and> (\<forall>e m x. accesses port [e] \<longrightarrow> dma h (es0 @ es) e m x \<noteq> m x \<longrightarrow> inside fb 256 x)
     \<and> (\<forall>m c a n. fetch m clb = Some c \<longrightarrow> \<not> c_write c \<longrightarrow> placed m clb fb c a n \<longrightarrow>
          carries_out h port clb fb disk (es0 @ es) m c a n))"

lemma spin_idle:
  "dev h (trace s) (RdReg (port + PX_TFD)) AND 0x88 = 0 \<Longrightarrow> 0 < k \<Longrightarrow>
     spin_loop k h port i s = (i, snd (rd_reg h (port + PX_TFD) s))"
  by (cases k) (auto simp: rd_reg_def)

lemma spin_busy:
  assumes "\<And>es. dev h es (RdReg (port + PX_TFD)) AND 0x88 \<noteq> 0"
  shows "k + i = 1000001 \<Longrightarrow> 0 < k \<Longrightarrow> \<exists>s'. spin_loop k h port i s = (1000000, s')
     \<and> (\<exists>n. trace s' = trace s @ replicate n (RdReg (port + PX_TFD)))"
proof (induction k arbitrary: i s)
  case 0
  then show ?case by simp
next
  case (Suc k)
  let ?s = "snd (rd_reg h (port + PX_TFD) s)"
  have t: "trace ?s = trace s @ [RdReg (port + PX_TFD)]" by (simp add: rd_reg_def)
  show ?case
  proof (cases "i < 1000000")
    case True
    then obtain s' n where "spin_loop k h port (Suc i) ?s = (1000000, s')"
      "trace s' = trace ?s @ replicate n (RdReg (port + PX_TFD))"
      using Suc.IH [of "Suc i" ?s] Suc.prems by auto
    then show ?thesis using True assms [of "trace s"] t
      by (auto simp: rd_reg_def intro!: exI [of _ "Suc n"])
  next
    case False
    then have "i = 1000000" using Suc.prems by simp
    then show ?thesis using t by (auto simp: rd_reg_def intro!: exI [of _ 1])
  qed
qed

text \<open>A command under way: the driver waits until it is done.\<close>

lemma done_when_clear:
  assumes N: "\<forall>as. N \<le> count_list as (port + PX_CI) \<longrightarrow> dev h (pre @ issued port as) (RdReg (port + PX_CI)) AND 1 = 0"
    and ok: "\<forall>as. dev h (pre @ issued port as) (RdReg (port + PX_IS)) AND HBA_PxIS_TFES = 0"
  shows "trace s = pre @ issued port as \<Longrightarrow> km s = evolve h pre (issued port as) m \<Longrightarrow> \<exists>s' bs.
     done_loop h port 1 s = Some (True, s') \<and> dev h (pre @ issued port bs) (RdReg (port + PX_CI)) AND 1 = 0
     \<and> trace s' = pre @ issued port (bs @ [port + PX_CI]) \<and> km s' = evolve h pre (issued port (bs @ [port + PX_CI])) m"
proof (induction "N - count_list as (port + PX_CI)" arbitrary: as s rule: less_induct)
  case less
  have step: "trace (snd (rd_reg h a t)) = pre @ issued port (bs @ [a])" "km (snd (rd_reg h a t)) = evolve h pre (issued port (bs @ [a])) m"
    if "trace t = pre @ issued port bs" "km t = evolve h pre (issued port bs) m" for t :: "'a machine_scheme" and bs a
    using that by (simp_all add: rd_reg_def issued_append evolve_append)
  define s1 where "s1 = snd (rd_reg h (port + PX_CI) s)"
  define s2 where "s2 = snd (rd_reg h (port + PX_IS) s1)"
  note s1 = step [OF less.prems, of "port + PX_CI", folded s1_def]
  note s2 = step [OF s1, of "port + PX_IS", folded s2_def]
  have r1: "rd_reg h (port + PX_CI) s = (dev h (pre @ issued port as) (RdReg (port + PX_CI)), s1)"
    using less.prems(1) by (simp add: rd_reg_def s1_def)
  have r2: "rd_reg h (port + PX_IS) s1 = (dev h (pre @ issued port (as @ [port + PX_CI])) (RdReg (port + PX_IS)), s2)"
    using s1(1) by (simp add: rd_reg_def s2_def)
  show ?case
  proof (cases "dev h (pre @ issued port as) (RdReg (port + PX_CI)) AND 1 = 0")
    case True
    then have "done_loop h port 1 s = Some (True, s1)" by (subst done_loop.simps) (simp add: r1)
    then show ?thesis using True s1 by blast
  next
    case False
    then have go: "done_loop h port 1 s = done_loop h port 1 s2"
      using ok by (subst done_loop.simps) (simp add: r1 r2)
    let ?as = "(as @ [port + PX_CI]) @ [port + PX_IS]"
    have "count_list ?as (port + PX_CI) = Suc (count_list as (port + PX_CI))" by simp
    moreover have "count_list as (port + PX_CI) < N" using N False by (meson not_le)
    ultimately have "N - count_list ?as (port + PX_CI) < N - count_list as (port + PX_CI)" by linarith
    from less.hyps [OF this s2] show ?thesis unfolding go .
  qed
qed

lemma slot_zero: "drop_bit 8 (cap AND 0x1F00) \<noteq> (0 :: u32) \<Longrightarrow>
    free_slot 0 (unat (drop_bit 8 (cap AND 0x1F00))) [0..<unat (drop_bit 8 (cap AND 0x1F00))] = 0"
  by (cases "unat (drop_bit 8 (cap AND 0x1F00))") (auto simp: unat_eq_0 upt_conv_Cons simp del: upt_Suc)

text \<open>While the controller is idle only the area of the received FIS changes.\<close>

definition idle_since :: "addr \<Rightarrow> addr \<Rightarrow> event list \<Rightarrow> mem \<Rightarrow> 'a machine_scheme \<Rightarrow> bool" where
  "idle_since port fb es0 m0 s \<longleftrightarrow> (\<exists>es. accesses port es \<and> trace s = es0 @ es) \<and> (\<forall>x. \<not> inside fb 256 x \<longrightarrow> km s x = m0 x)"

lemma idle_access:
  assumes h: "sata h ab port clb fb disk es0" and s: "idle_since port fb es0 m0 s"
  shows "idle_since port fb es0 m0 (snd (rd_reg h a s))" "idle_since port fb es0 m0 (wr_reg h (port + PX_IS) v s)"
proof -
  obtain es where es: "accesses port es" "trace s = es0 @ es" "\<forall>x. \<not> inside fb 256 x \<longrightarrow> km s x = m0 x"
    using s by (auto simp: idle_since_def)
  have ev: "accesses port [RdReg a]" "accesses port [WrReg (port + PX_IS) v]" by (simp_all add: accesses_def)
  have acc: "accesses port (es @ [e])" if "accesses port [e]" for e using es(1) that by (auto simp: accesses_def)
  have mem: "dma h (es0 @ es) e (km s) x = m0 x" if "accesses port [e]" "\<not> inside fb 256 x" for e x
    using h [unfolded sata_def, THEN conjunct2, rule_format, OF es(1)] es(3) that by metis
  show "idle_since port fb es0 m0 (snd (rd_reg h a s))"
    unfolding idle_since_def rd_reg_def snd_conv using acc [OF ev(1)] mem [OF ev(1)] es(2) by simp
  show "idle_since port fb es0 m0 (wr_reg h (port + PX_IS) v s)"
    unfolding idle_since_def wr_reg_def using acc [OF ev(2)] mem [OF ev(2)] es(2) by simp
qed

lemma idle_regs:
  assumes h: "sata h ab port clb fb disk es0" and s: "idle_since port fb es0 m0 s"
  shows "fst (rd_reg h (port + PX_CLB) s) = clb" "fst (rd_reg h (port + PX_CLBU) s) = 0"
    "fst (rd_reg h (port + PX_SACT) s) = 0" "fst (rd_reg h (port + PX_CI) s) = 0"
    "dev h (trace s) (RdReg (port + PX_TFD)) AND 0x88 = 0" "drop_bit 8 (fst (rd_reg h ab s) AND 0x1F00) \<noteq> 0"
proof -
  obtain es where es: "accesses port es" "trace s = es0 @ es" using s by (auto simp: idle_since_def)
  show "fst (rd_reg h (port + PX_CLB) s) = clb" "fst (rd_reg h (port + PX_CLBU) s) = 0"
    "fst (rd_reg h (port + PX_SACT) s) = 0" "fst (rd_reg h (port + PX_CI) s) = 0"
    "dev h (trace s) (RdReg (port + PX_TFD)) AND 0x88 = 0" "drop_bit 8 (fst (rd_reg h ab s) AND 0x1F00) \<noteq> 0"
    using h [unfolded sata_def, THEN conjunct2, rule_format, OF es(1)] unfolding rd_reg_def fst_conv es(2) by blast+
qed

text \<open>What a read of an idle port comes to: the command in slot 0, carried out.\<close>

lemma sata_read:
  fixes s :: "'a machine_scheme"
  assumes h: "sata h ab port clb fb disk (trace s)"
  obtains m and s4 :: "'a machine_scheme" where "\<forall>x. \<not> inside fb 256 x \<longrightarrow> m x = km s x"
    "idle_since port fb (trace s) (km s4) s4" "km s4 = build_cmd h False m clb lba count buf"
    "ahci_read_raw h ab port lba count buf s = issue_cmd h port 0 s4"
proof -
  have s0: "idle_since port fb (trace s) (km s) s" by (simp add: idle_since_def accesses_def)
  define s1 where "s1 = wr_reg h (port + PX_IS) 0xFFFFFFFF s"
  define t1 where "t1 = snd (rd_reg h (port + PX_SACT) s1)"
  define t2 where "t2 = snd (rd_reg h (port + PX_CI) t1)"
  define s2 where "s2 = snd (rd_reg h ab t2)"
  define s2b where "s2b = snd (rd_reg h (port + PX_CLBU) s2)"
  define s3 where "s3 = snd (rd_reg h (port + PX_CLB) s2b)"
  note i1 = idle_access(2) [OF h s0, of "0xFFFFFFFF", folded s1_def]
  note i2 = idle_access(1) [OF h i1, of "port + PX_SACT", folded t1_def]
  note i3 = idle_access(1) [OF h i2, of "port + PX_CI", folded t2_def]
  note i4 = idle_access(1) [OF h i3, of ab, folded s2_def]
  note i5 = idle_access(1) [OF h i4, of "port + PX_CLBU", folded s2b_def]
  note i6 = idle_access(1) [OF h i5, of "port + PX_CLB", folded s3_def]
  obtain cap where cap: "rd_reg h ab t2 = (cap, s2)" "drop_bit 8 (cap AND 0x1F00) \<noteq> 0"
    using idle_regs(6) [OF h i3] by (cases "rd_reg h ab t2") (simp add: s2_def)
  have rds: "rd_reg h (port + PX_SACT) s1 = (0, t1)" "rd_reg h (port + PX_CI) t1 = (0, t2)"
    "rd_reg h (port + PX_CLBU) s2 = (0, s2b)" "rd_reg h (port + PX_CLB) s2b = (clb, s3)"
    using idle_regs(3) [OF h i1] idle_regs(4) [OF h i2] idle_regs(2) [OF h i4] idle_regs(1) [OF h i5]
    by (simp_all add: t1_def t2_def s2b_def s3_def prod_eq_iff)
  have slot: "ahci_find_empty_cmd_slot h ab port s1 = (0, s2)"
    using slot_zero [OF cap(2)] by (simp only: ahci_find_empty_cmd_slot_def rds cap(1) Let_def prod.case or.left_neutral)
  have hdr: "(shl_full h 0 OR clb) + 32 * to_u32 0 = clb" using h by (simp add: sata_def to_u32_def)
  let ?s4 = "s3\<lparr>km := build_cmd h False (km s3) clb lba count buf\<rparr>"
  have "ahci_read_raw h ab port lba count buf s = issue_cmd h port 0 ?s4"
    by (simp only: ahci_read_raw_def s1_def [symmetric] slot Let_def prod.case rds hdr if_False less_irrefl)
  moreover have "idle_since port fb (trace s) (km ?s4) ?s4" using i6 by (simp add: idle_since_def)
  moreover have "\<forall>x. \<not> inside fb 256 x \<longrightarrow> km s3 x = km s x" using i6 by (simp add: idle_since_def)
  ultimately show ?thesis by (intro that [of "km s3" ?s4]) simp_all
qed

subsection \<open>Properties\<close>

text \<open>C30: For a transfer of \<open>16 k + r\<close> sectors, \<open>k < 65535\<close>, below sector 2 to the 48th, to or from a buffer at an even
  address, with a header as the initialisation leaves it and a table apart from it, the controller finds in memory a
  command of the right direction (in the header's W bit and in the command byte of the FIS) and sector address and
  \<open>k + 1\<close> areas: 8 KB each but the last, but only 2 KB apart, and with a sector count of \<open>r\<close>, what is left for the last
  area, instead of the whole count.  Up to 16 sectors that is the transfer asked for.\<close>

theorem ahci_command_built:
  assumes "unat count = 16 * k + r" "0 < r" "r \<le> 16" "k < 65535"
    and "tbl = ld32 m (hdr + 8)" "ld32 m (hdr + 12) = 0" "shl_full h 0 = 0"
    and "m hdr AND 0x20 = 0" "m (hdr + 1) = 0" "tbl AND 0x7F = 0" "even buf"
    and "apart hdr 16 tbl (256 + 16 * k)" "unat lba < 281474976710656"
  shows "fetch (build_cmd h w m hdr lba count buf) hdr = Some \<lparr>c_write = w, c_lba = unat lba, c_count = r,
     c_prdt = map (\<lambda>i. (buf + 2048 * of_nat i, 8192)) [0..<k] @ [(buf + 2048 * of_nat k, 512 * r)]\<rparr>"
  by (rule build_cmd_fetch(1) [OF assms])

text \<open>A controller that does nothing, and a table behind a header.\<close>

definition quiet :: hardware where
  "quiet = \<lparr>dev = \<lambda>_ _. 0, dma = \<lambda>_ _ m. m, shl_full = id\<rparr>"

lemma ahci_command_built_witness:
  "fetch (build_cmd quiet False (st32 (\<lambda>_. 0) 0x1008 0x2000) 0x1000 2048 32 0x10000) 0x1000 =
     Some \<lparr>c_write = False, c_lba = 2048, c_count = 16, c_prdt = [(0x10000, 8192), (0x10800, 8192)]\<rparr>"
proof -
  let ?m = "st32 (\<lambda>_. 0) 0x1008 0x2000"
  have "unat (32 :: u32) = 16 * 1 + 16" "0x2000 = ld32 ?m (0x1000 + 8)" "ld32 ?m (0x1000 + 12) = 0"
    "shl_full quiet 0 = 0" "apart 0x1000 16 0x2000 (256 + 16 * 1)" "unat (2048 :: 64 word) < 281474976710656"
    "?m 0x1000 AND 0x20 = 0" "?m (0x1000 + 1) = 0" "(0x2000 :: u32) AND 0x7F = 0" "even (0x10000 :: u32)"
    by (simp_all add: quiet_def apart_def ld32_st32_apart) (simp_all add: ld32_def st32_def st8_def)
  from ahci_command_built [OF this(1) _ _ _ this(2-4) this(7-10) this(5,6), of False] show ?thesis by simp
qed


text \<open>C10: Against a controller that does what the AHCI specification says of reads (\<open>sata\<close>: it takes as long as it
  likes, and writes its byte count and the received FIS besides the data), \<open>ahci_read\<close> of 1 to 16 sectors below sector 2
  to the 48th returns with the buffer filled with exactly those sectors of the disk, and no byte changed but in the
  buffer, the first 8 bytes of the command header, the command table and the area of the received FIS.  The buffer is at
  an even address, the header as the initialisation leaves it, and the four are apart.\<close>

theorem ahci_read_sectors:
  assumes h: "sata h (abar_at mg) (port_at (abar_at mg) (unat (active_port mg))) clb fb disk (trace s)"
    and n: "0 < unat count" "unat count \<le> 16" "unat lba < 281474976710656"
    and hdr: "km s clb AND 0x20 = 0" "km s (clb + 1) = 0" "ld32 (km s) (clb + 8) = tbl" "ld32 (km s) (clb + 12) = 0"
    and al: "tbl AND 0x7F = 0" "even buf"
    and ap: "apart clb 32 tbl 256" "apart fb 256 clb 32" "apart fb 256 tbl 256"
    and buf: "apart buf (512 * unat count) fb 256" "apart buf (512 * unat count) clb 32" "apart buf (512 * unat count) tbl 256"
  shows "\<exists>s'. ahci_read h mg junk lba count buf s = Some (junk, s')
     \<and> rd (km s') buf (512 * unat count) = concat (map disk [unat lba..<unat lba + unat count])
     \<and> (\<forall>x. \<not> inside buf (512 * unat count) x \<and> \<not> inside clb 8 x \<and> \<not> inside tbl 256 x \<and> \<not> inside fb 256 x \<longrightarrow> km s' x = km s x)"
proof -
  let ?p = "port_at (abar_at mg) (unat (active_port mg))" and ?n = "unat count"
  let ?c = "\<lparr>c_write = False, c_lba = unat lba, c_count = ?n, c_prdt = [(buf, 512 * ?n)]\<rparr>"
  obtain m s4 where m: "\<forall>x. \<not> inside fb 256 x \<longrightarrow> m x = km s x" and i4: "idle_since ?p fb (trace s) (km s4) s4"
    and k4: "km s4 = build_cmd h False m clb lba count buf" and raw: "ahci_read_raw h (abar_at mg) ?p lba count buf s = issue_cmd h ?p 0 s4"
    by (rule sata_read [OF h, where lba = lba and count = count and buf = buf]) blast
  have off: "\<not> inside fb 256 x" if "inside (clb + of_nat d) k x" "d + k \<le> 32" for d k x
    by (rule apart_inside [OF ap(2) [unfolded apart_sym [of fb]] inside_offset [OF that]]) simp
  have "ld32 m (clb + of_nat d) = ld32 (km s) (clb + of_nat d)" if "d + 4 \<le> 32" for d
    using m off [where k = 4 and d = d] that by (intro ld32_cong) blast
  from this [of 8] this [of 12] have "ld32 m (clb + 8) = tbl" "ld32 m (clb + 12) = 0" using hdr by simp_all
  moreover have "m (clb + of_nat d) = km s (clb + of_nat d)" if "d < 32" for d
    using m off [of d 1 "clb + of_nat d"] that by (simp add: inside_def)
  from this [of 0] this [of 1] have "m clb AND 0x20 = 0" "m (clb + 1) = 0" using hdr by simp_all
  moreover have "apart clb 16 tbl (256 + 16 * 0)" using apart_sub [OF ap(1), of 0 16 0 256] by simp
  moreover have "shl_full h 0 = 0" using h by (simp add: sata_def)
  moreover have n0: "?n = 16 * 0 + ?n" by simp
  ultimately have fetched: "fetch (km s4) clb = Some ?c"
    and built: "\<And>x. \<not> inside clb 4 x \<Longrightarrow> \<not> inside tbl 256 x \<Longrightarrow> km s4 x = m x"
    unfolding k4 using build_cmd_fetch [OF n0 n(1,2), where tbl = tbl and m = m and hdr = clb and h = h and buf = buf and lba = lba and w = False] al n(3) by simp_all
  define s5 where "s5 = snd (rd_reg h (?p + PX_TFD) s4)"
  have sp: "spin_loop 1000001 h ?p 0 s4 = (0, s5)" unfolding s5_def by (rule spin_idle [OF idle_regs(5) [OF h i4]]) simp
  note i5 = idle_access(1) [OF h i4, of "?p + PX_TFD", folded s5_def]
  obtain es where es: "accesses ?p es" "trace s5 = trace s @ es" using i5 by (auto simp: idle_since_def)
  have k5: "km s5 x = km s4 x" if "\<not> inside fb 256 x" for x using i5 that by (simp add: idle_since_def)
  have far: "\<not> inside tbl 256 x" if "inside (clb + of_nat d) k x" "d + k \<le> 32" for d k x
    by (rule apart_inside [OF ap(1) inside_offset [OF that]]) simp
  have near: "\<not> inside clb 4 x" if "inside (clb + of_nat d) k x" "4 \<le> d" "d + k \<le> 32" for d k x
  proof -
    have "0 < k" using that(1) by (auto simp: inside_def)
    then have "apart clb 4 (clb + of_nat d) k" using apart_offsets [of 0 4 d k clb] that(2,3) by simp
    then show ?thesis using that(1) apart_inside apart_sym by blast
  qed
  have "ld32 (km s4) (clb + of_nat 8) = ld32 m (clb + of_nat 8)"
    using built far [of 8 4] near [of 8 4] by (intro ld32_cong) simp
  then have tbl4: "ld32 (km s4) (clb + 8) = tbl" using \<open>ld32 m (clb + 8) = tbl\<close> by simp
  have one: "unat (ld16 (km s4) (clb + 2)) = 1" using fetch_areas [OF fetched] by simp
  have "fetch (km s5) clb = fetch (km s4) clb"
  proof (rule fetch_cong)
    show "km s5 x = km s4 x" if "inside clb 16 x" for x using k5 off [of 0 16 x] that by simp
    show "km s5 x = km s4 x" if "inside (ld32 (km s4) (clb + 8)) (128 + 16 * unat (ld16 (km s4) (clb + 2))) x" for x
    proof (rule k5)
      have "inside tbl 256 x" using that unfolding tbl4 one by (rule inside_mono) simp
      then show "\<not> inside fb 256 x" by (rule apart_inside [OF ap(3) [unfolded apart_sym [of fb]]])
    qed
  qed
  moreover have "ld32 (km s5) (clb + of_nat 8) = ld32 (km s4) (clb + of_nat 8)"
    using k5 off [of 8 4] by (intro ld32_cong) simp
  ultimately have f5: "fetch (km s5) clb = Some ?c" and tbl5: "ld32 (km s5) (clb + 8) = tbl" using fetched tbl4 by simp_all
  have "placed (km s5) clb fb ?c buf (512 * ?n)" using buf ap(2,3) n by (simp add: placed_def tbl5)
  then have run: "carries_out h ?p clb fb disk (trace s5) (km s5) ?c buf (512 * ?n)"
    using h [unfolded sata_def, THEN conjunct2, rule_format, OF es(1)] f5 unfolding es(2) by simp
  obtain N where N: "\<forall>as. N \<le> count_list as (?p + PX_CI) \<longrightarrow> dev h (trace s5 @ issued ?p as) (RdReg (?p + PX_CI)) AND 1 = 0"
    using run unfolding carries_out_def by blast
  have ok: "\<forall>as. dev h (trace s5 @ issued ?p as) (RdReg (?p + PX_IS)) AND HBA_PxIS_TFES = 0"
    and only: "\<And>as x. evolve h (trace s5) (issued ?p as) (km s5) x \<noteq> km s5 x \<Longrightarrow>
      inside fb 256 x \<or> inside (clb + 4) 4 x \<or> inside buf (512 * ?n) x"
    and dlv: "\<And>as bs. dev h (trace s5 @ issued ?p as) (RdReg (?p + PX_CI)) AND 1 = 0 \<Longrightarrow>
      rd (evolve h (trace s5) (issued ?p (as @ (?p + PX_CI) # bs)) (km s5)) buf (512 * ?n) = concat (map disk [unat lba..<unat lba + ?n])"
    using run unfolding carries_out_def by simp_all
  define s6 where "s6 = wr_reg h (?p + PX_CI) 1 s5"
  have "trace s6 = trace s5 @ issued ?p []" "km s6 = evolve h (trace s5) (issued ?p []) (km s5)"
    by (simp_all add: s6_def wr_reg_def issued_def)
  from done_when_clear [OF N ok this] obtain s7 bs where s7: "done_loop h ?p 1 s6 = Some (True, s7)"
    "dev h (trace s5 @ issued ?p bs) (RdReg (?p + PX_CI)) AND 1 = 0"
    "trace s7 = trace s5 @ issued ?p (bs @ [?p + PX_CI])" "km s7 = evolve h (trace s5) (issued ?p (bs @ [?p + PX_CI])) (km s5)"
    by blast
  define s8 where "s8 = snd (rd_reg h (?p + PX_IS) s7)"
  have "km s8 = evolve h (trace s5) (issued ?p ((bs @ [?p + PX_CI]) @ [?p + PX_IS])) (km s5)"
    unfolding s8_def rd_reg_def issued_append [of _ "bs @ [?p + PX_CI]"] evolve_append s7(3)
    by (simp add: s7(4))
  then have k8: "km s8 = evolve h (trace s5) (issued ?p (bs @ (?p + PX_CI) # [?p + PX_IS])) (km s5)" by simp
  have "rd (km s8) buf (512 * ?n) = concat (map disk [unat lba..<unat lba + ?n])"
    unfolding k8 by (rule dlv [OF s7(2)])
  moreover have "km s8 x = km s x"
    if x: "\<not> inside buf (512 * ?n) x \<and> \<not> inside clb 8 x \<and> \<not> inside tbl 256 x \<and> \<not> inside fb 256 x" for x
  proof -
    have "\<not> inside (clb + 4) 4 x" using x inside_offset [of clb 4 4 x 8] by auto
    then have "km s8 x = km s5 x" using only [where x = x] x unfolding k8 by blast
    moreover have "\<not> inside clb 4 x" using x inside_mono [of clb 4 x 8] by auto
    ultimately show ?thesis using k5 [of x] built [of x] m x by simp
  qed
  moreover have "issue_cmd h ?p 0 s4 = Some (0, s8)"
    unfolding issue_cmd_def sp using s7(1) by (simp add: s6_def [symmetric] s8_def case_prod_beta)
  ultimately show ?thesis unfolding ahci_read_def raw by auto
qed

text \<open>
  A disk whose sector \<open>n\<close> is filled with the low byte of \<open>n\<close>, behind a controller that is busy at the first look and
  counts 16 bytes and posts a status with every look after the issue.
\<close>

definition numbered :: "nat \<Rightarrow> u8 list" where
  "numbered n = replicate 512 (of_nat n)"

definition run_cmd :: "(nat \<Rightarrow> u8 list) \<Rightarrow> mem \<Rightarrow> addr \<Rightarrow> mem" where
  "run_cmd disk m hdr =
     (case fetch m hdr of
        Some c \<Rightarrow> if c_write c then m
                  else put m (fst (hd (c_prdt c))) (concat (map disk [c_lba c..<c_lba c + c_count c]))
      | None \<Rightarrow> m)"

definition sata_hw :: "addr \<Rightarrow> addr \<Rightarrow> addr \<Rightarrow> addr \<Rightarrow> (nat \<Rightarrow> u8 list) \<Rightarrow> hardware" where
  "sata_hw ab port clb fb disk = \<lparr>
     dev = \<lambda>es e. if e = RdReg (port + PX_CLB) then clb else if e = RdReg ab then 0x1F00
       else if e = RdReg (port + PX_CI) \<and> es \<noteq> [] \<and> last es = WrReg (port + PX_CI) 1 then 1 else 0,
     dma = \<lambda>es e m. if e = WrReg (port + PX_CI) 1 then run_cmd disk m clb
       else if e = RdReg (port + PX_CI) \<and> WrReg (port + PX_CI) 1 \<in> set es then m(clb + 4 := 16, fb + 0x42 := 0x50) else m,
     shl_full = id\<rparr>"

lemma sata_hw_evolve:
  assumes "WrReg (port + PX_CI) 1 \<in> set pre"
  shows "evolve (sata_hw ab port clb fb disk) pre (map RdReg as) m x \<noteq> m x \<Longrightarrow> x = clb + 4 \<or> x = fb + 0x42"
  using assms
proof (induction as arbitrary: pre m)
  case (Cons a as)
  let ?m = "dma (sata_hw ab port clb fb disk) pre (RdReg a) m"
  have "?m x = m x \<or> x = clb + 4 \<or> x = fb + 0x42" by (simp add: sata_hw_def)
  then show ?case using Cons.IH [of "pre @ [RdReg a]" ?m] Cons.prems by auto
qed simp

lemma sata_hw_ok:
  assumes p: "port = 0x80000100" "ab = 0x80000000" and len: "\<forall>n. length (disk n) = 512"
  shows "sata (sata_hw ab port clb fb disk) ab port clb fb disk []"
proof -
  let ?h = "sata_hw ab port clb fb disk"
  have co: "carries_out ?h port clb fb disk es m c a n"
    if f: "fetch m clb = Some c" "\<not> c_write c" and pl: "placed m clb fb c a n" for es m c a n
  proof -
    let ?d = "concat (map disk [c_lba c..<c_lba c + c_count c])"
    have P: "c_prdt c = [(a, n)]" "n = 512 * c_count c" "n \<le> 2 ^ 32" "apart a n fb 256" "apart a n clb 32"
      using pl unfolding placed_def by blast+
    have d: "length ?d = n" using len P(2) by (simp add: length_concat o_def sum_list_triv)
    have m1: "run_cmd disk m clb = put m a ?d" using f P(1) by (simp add: run_cmd_def)
    have ev: "evolve ?h es (issued port as) m = evolve ?h (es @ [WrReg (port + PX_CI) 1]) (map RdReg as) (put m a ?d)" for as
      by (simp add: issued_def m1 [symmetric]) (simp add: sata_hw_def)
    have same: "evolve ?h es (issued port as) m x = put m a ?d x" if "x \<noteq> clb + 4" "x \<noteq> fb + 0x42" for as x
      using sata_hw_evolve [of port "es @ [WrReg (port + PX_CI) 1]" ab clb fb disk as "put m a ?d" x] that unfolding ev by auto
    have ci: "dev ?h (es @ issued port as) (RdReg (port + PX_CI)) AND 1 = 0" if "1 \<le> count_list as (port + PX_CI)" for as
    proof -
      have "as \<noteq> []" using that by auto
      then have "last (es @ issued port as) = RdReg (last as)" by (simp add: issued_def last_map)
      then show ?thesis by (simp add: sata_hw_def p)
    qed
    have nin: "\<not> inside a n (clb + 4)" "\<not> inside a n (fb + 0x42)"
      using apart_inside [OF P(4) [unfolded apart_sym [of a]], of "fb + 0x42"] apart_inside [OF P(5) [unfolded apart_sym [of a]], of "clb + 4"]
      by (simp_all add: inside_def)
    have "inside fb 256 x \<or> inside (clb + 4) 4 x \<or> inside a n x" if ne: "evolve ?h es (issued port as) m x \<noteq> m x" for as x
    proof -
      consider "x = clb + 4" | "x = fb + 0x42" | "put m a ?d x \<noteq> m x" using same [of x as] ne by metis
      then show ?thesis
      proof cases
        case 3
        then show ?thesis using d by (auto simp: put_def split: if_splits)
      qed (simp_all add: inside_def)
    qed
    moreover have "rd (evolve ?h es (issued port as) m) a n = ?d" for as
    proof -
      have "rd (evolve ?h es (issued port as) m) a n = rd (put m a ?d) a n"
        by (rule rd_cong [OF P(3)]) (use same nin in metis)
      also have "\<dots> = ?d" using rd_put [of ?d m a] d P(3) by simp
      finally show ?thesis .
    qed
    moreover have "dev ?h es' (RdReg (port + PX_IS)) = 0" for es' by (simp add: sata_hw_def p)
    ultimately show ?thesis using ci unfolding carries_out_def by (intro conjI allI impI exI [of _ 1]) simp_all
  qed
  have last: "last es \<noteq> WrReg (port + PX_CI) 1" "WrReg (port + PX_CI) 1 \<notin> set es" if "accesses port es" "es \<noteq> []" for es
  proof -
    show "WrReg (port + PX_CI) 1 \<notin> set es" using that(1) by (auto simp: accesses_def)
    then show "last es \<noteq> WrReg (port + PX_CI) 1" using last_in_set [OF that(2)] by metis
  qed
  have idle: "dev ?h es (RdReg (port + PX_CI)) = 0" "accesses port [e] \<Longrightarrow> dma ?h es e m = m" if "accesses port es" for es e m
    using last [OF that] by (cases "es = []", auto simp: sata_hw_def p accesses_def)+
  show ?thesis unfolding sata_def append_Nil
    by (intro conjI allI impI, (simp add: sata_hw_def p; fail)+) (use idle co in \<open>auto simp: sata_hw_def p\<close>)
qed

lemma ahci_read_sectors_witness:
  "\<exists>s'. ahci_read (sata_hw 0x80000000 0x80000100 0x1000 0x1400 numbered) \<lparr>active_port = 0, abar_at = 0x80000000\<rparr> 0 7 2 0x20000000
       (machine0\<lparr>km := st32 (\<lambda>_. 0) 0x1008 0x2000, trace := []\<rparr>) = Some (0, s')
     \<and> rd (km s') 0x20000000 1024 = replicate 512 7 @ replicate 512 8"
proof -
  let ?h = "sata_hw 0x80000000 0x80000100 0x1000 0x1400 numbered" and ?m = "st32 (\<lambda>_. 0) 0x1008 0x2000"
  let ?mg = "\<lparr>active_port = 0, abar_at = 0x80000000\<rparr>" and ?s = "machine0\<lparr>km := st32 (\<lambda>_. 0) 0x1008 0x2000, trace := []\<rparr>"
  have p: "port_at (abar_at ?mg) (unat (active_port ?mg)) = 0x80000100" by (simp add: port_at_def)
  have h: "sata ?h (abar_at ?mg) (port_at (abar_at ?mg) (unat (active_port ?mg))) 0x1000 0x1400 numbered (trace ?s)"
    unfolding p using sata_hw_ok [of "0x80000100" "0x80000000" numbered "0x1000" "0x1400"] by (simp add: numbered_def)
  have "km ?s 0x1000 AND 0x20 = 0" "km ?s (0x1000 + 1) = 0" "ld32 (km ?s) (0x1000 + 8) = 0x2000" "ld32 (km ?s) (0x1000 + 12) = 0"
    by (simp_all add: st32_def st8_def ld32_def)
  from ahci_read_sectors [OF h _ _ _ this, of 2 7 "0x20000000" 0] show ?thesis
    by (simp add: apart_def numbered_def upt_rec numeral_3_eq_3) blast
qed

text \<open>C31: When a port never becomes ready the command is given up after a million looks without having
  been issued, and the result is 0, as for a transfer that was carried out.\<close>

theorem ahci_hung_port:
  assumes busy: "\<And>es. dev h es (RdReg (port + PX_TFD)) AND 0x88 \<noteq> 0"
    and slot: "\<And>es. dev h es (RdReg (port + PX_SACT)) = 0 \<and> dev h es (RdReg (port + PX_CI)) = 0
         \<and> drop_bit 8 (dev h es (RdReg ab) AND 0x1F00) \<noteq> 0"
  shows "\<exists>s' es. ahci_read_raw h ab port lba count buf s = Some (0, s') \<and> trace s' = trace s @ es
     \<and> (\<forall>v. WrReg (port + PX_CI) v \<notin> set es)"
proof -
  define s1 where "s1 = wr_reg h (port + PX_IS) 0xFFFFFFFF s"
  define s2 where "s2 = snd (ahci_find_empty_cmd_slot h ab port s1)"
  have f: "ahci_find_empty_cmd_slot h ab port s1 = (0, s2)"
    using slot slot_zero [of "dev h es (RdReg ab)" for es]
    by (simp add: s2_def ahci_find_empty_cmd_slot_def rd_reg_def Let_def)
  define s3 where "s3 = snd (rd_reg h (port + PX_CLB) (snd (rd_reg h (port + PX_CLBU) s2)))"
  obtain m where raw: "ahci_read_raw h ab port lba count buf s = issue_cmd h port 0 (s3\<lparr>km := m\<rparr>)"
    by (auto simp: ahci_read_raw_def s1_def [symmetric] f Let_def s3_def case_prod_beta)
  obtain s' n where sp: "spin_loop 1000001 h port 0 (s3\<lparr>km := m\<rparr>) = (1000000, s')"
    "trace s' = trace s3 @ replicate n (RdReg (port + PX_TFD))"
    using spin_busy [OF busy, where k = 1000001 and i = 0 and s = "s3\<lparr>km := m\<rparr>"] by auto
  have "trace s3 = trace s @ [WrReg (port + PX_IS) 0xFFFFFFFF, RdReg (port + PX_SACT), RdReg (port + PX_CI), RdReg ab,
      RdReg (port + PX_CLBU), RdReg (port + PX_CLB)]"
    by (simp add: s3_def s2_def s1_def ahci_find_empty_cmd_slot_def rd_reg_def wr_reg_def Let_def)
  then show ?thesis using raw sp by (auto simp: issue_cmd_def)
qed

lemma ahci_hung_port_witness:
  "\<exists>s' es. ahci_read_raw \<lparr>dev = \<lambda>es e. if e = RdReg 0x80000120 then 0x80 else if e = RdReg 0x80000000 then 0x1F00 else 0,
       dma = \<lambda>_ _ m. m, shl_full = id\<rparr> 0x80000000 0x80000100 7 2 0x20000000 machine0 = Some (0, s')
     \<and> trace s' = es \<and> (\<forall>v. WrReg 0x80000138 v \<notin> set es)"
proof -
  let ?h = "\<lparr>dev = \<lambda>es e. if e = RdReg 0x80000120 then 0x80 else if e = RdReg 0x80000000 then 0x1F00 else 0,
       dma = \<lambda>_ _ m. m, shl_full = id\<rparr>"
  have "\<exists>s' es. ahci_read_raw ?h 0x80000000 0x80000100 7 2 0x20000000 machine0 = Some (0, s')
     \<and> trace s' = trace machine0 @ es \<and> (\<forall>v. WrReg (0x80000100 + PX_CI) v \<notin> set es)"
    by (rule ahci_hung_port) simp_all
  then show ?thesis by (simp add: machine0_def pool_state.defs)
qed

end
