(* ===== verification/Ahci_P32.thy ===== *)
theory Ahci_P32
  imports Ahci Pci Console_Props
begin

text \<open>
  The older copy of the SATA driver (\<open>archtecture/x86/p32/ahci.c\<close>), in which the search for the
  controller goes through \<open>pci.c\<close>, and the proof that it finds what the newer one does.  Everything
  else of that file is the code modelled in \<open>Ahci\<close>.
\<close>

record ahci_manager_p32 = ahci_manager +
  init_err :: int

fun scan_slots_p32 :: "device \<Rightarrow> (nat \<times> nat) list \<Rightarrow> 'a machine_scheme \<Rightarrow> addr option \<times> 'a machine_scheme" where
  "scan_slots_p32 d [] s = (None, s)"
| "scan_slots_p32 d ((bus, slot) # r) s =
     (let (vendor, s) = pci_get_ven d (of_nat bus) (of_nat slot) 0 s;
          (device, s) = pci_get_dev d (of_nat bus) (of_nat slot) 0 s
      in if vendor = 0x8086 \<and> device = 0x2922
         then let (a, s) = pci_get_bar d (of_nat bus) (of_nat slot) 0 0x24 s in (Some a, s)
         else scan_slots_p32 d r s)"

definition find_ahci_device_p32 :: "device \<Rightarrow> addr \<Rightarrow> 'a machine_scheme \<Rightarrow> int \<times> addr \<times> 'a machine_scheme" where
  "find_ahci_device_p32 d abar s =
     (case scan_slots_p32 d [(b, i). b \<leftarrow> [0..<256], i \<leftarrow> [0..<32]] s of
        (Some a, s) \<Rightarrow> (0, a, s)
      | (None, s) \<Rightarrow> (-19, abar, s))"

text \<open>The ports are set up as in the newer driver, but no sector is read.\<close>

fun init_ports_p32 :: "hardware \<Rightarrow> u32 \<Rightarrow> nat list \<Rightarrow> 'b ahci_manager_scheme \<Rightarrow> 'a machine_scheme
    \<Rightarrow> ('b ahci_manager_scheme \<times> 'a machine_scheme) option" where
  "init_ports_p32 h pi [] mg s = Some (mg, s)"
| "init_ports_p32 h pi (i # is) mg s =
     (let port = port_at (abar_at mg) i in
      if (pi AND 1) = 1 then
        let (type, s) = ahci_check_type h port s in
        if type = AHCI_DEV_SATA then do {
          s \<leftarrow> ahci_port_rebase h port i s;
          init_ports_p32 h (drop_bit 1 pi) is (mg\<lparr>active_port := of_nat i\<rparr>) s }
        else init_ports_p32 h (drop_bit 1 pi) is mg s
      else init_ports_p32 h (drop_bit 1 pi) is mg s)"

definition ahci_init_p32 :: "hardware \<Rightarrow> ahci_manager_p32 \<Rightarrow> 'a machine_scheme
    \<Rightarrow> (int \<times> ahci_manager_p32 \<times> 'a machine_scheme) option" where
  "ahci_init_p32 h mg s =
     (let (err, tmp, s) = find_ahci_device_p32 (dev h) (abar_at mg) s in
      if err \<noteq> 0 then Some (err, mg, s)
      else
        let mg = mg\<lparr>init_err := err, abar_at := tmp\<rparr>;
            (pi, s) = rd_reg h (abar_at mg + 0x0C) s
        in do {
          (mg, s) \<leftarrow> init_ports_p32 h pi [0..<AHCI_MAX_PORT_NUM] mg s;
          Some (0, mg, s) })"

subsection \<open>Configuration space\<close>

text \<open>
  What the two drivers rely on (PCI configuration mechanism 1): a read of the data port answers the
  register whose address was written last, and a 16-bit read its low half.
\<close>

definition answers_config :: "device \<Rightarrow> (u32 \<Rightarrow> u32) \<Rightarrow> bool" where
  "answers_config d cfg \<longleftrightarrow> (\<forall>h a. d (h @ [OutP 32 PCI_CONFIG_ADDR a]) (InP 32 PCI_CONFIG_DATA) = cfg a
     \<and> (ucast (d (h @ [OutP 32 PCI_CONFIG_ADDR a]) (InP 16 PCI_CONFIG_DATA)) :: u16) = ucast (cfg a))"

definition cfg_addr :: "nat \<times> nat \<Rightarrow> u32" where
  "cfg_addr p = pci_config_addr (of_nat (fst p)) (of_nat (snd p)) 0"

text \<open>The controller, and what the search should give.\<close>

definition is_ahci :: "(u32 \<Rightarrow> u32) \<Rightarrow> nat \<times> nat \<Rightarrow> bool" where
  "is_ahci cfg p \<longleftrightarrow> cfg (cfg_addr p) = 0x29228086"

lemma low_ones: "(0xFFFF :: u32) = mask 16"
  by (simp add: mask_eq_exp_minus_1)

lemma unat_high_half: "unat (drop_bit 16 v AND 0xFFFF) = unat v div 65536" for v :: u32
proof -
  have lt: "unat v < 2 ^ 32" using unat_bound [of v] by simp
  then have "take_bit 32 (unat v) = unat v" by (simp only: take_bit_nat_eq_self_iff)
  then have "unat (take_bit 16 (drop_bit 16 v)) = take_bit 16 (drop_bit 16 (unat v))"
    by (simp only: unsigned_take_bit_eq unsigned_drop_bit_eq) simp
  then show ?thesis using lt
    by (simp only: low_ones take_bit_eq_mask [symmetric]) (simp add: take_bit_eq_mod drop_bit_eq_div)
qed

lemma ids_eq:
  "ucast v = (0x8086 :: u16) \<and> (ucast (drop_bit 16 v AND 0xFFFF) :: u16) = 0x2922 \<longleftrightarrow> v = 0x29228086" for v :: u32
proof -
  have u: "(ucast w :: u16) = k \<longleftrightarrow> unat w mod 65536 = unat k" for w :: u32 and k :: u16
    by (simp add: word_unat_eq_iff unsigned_ucast_eq unsigned_take_bit_eq take_bit_eq_mod)
  have "unat v div 65536 < 65536" using unat_bound [of v] by simp
  then have "ucast v = (0x8086 :: u16) \<and> (ucast (drop_bit 16 v AND 0xFFFF) :: u16) = 0x2922
      \<longleftrightarrow> unat v mod 65536 = 0x8086 \<and> unat v div 65536 = 0x2922"
    by (simp only: u unat_high_half) simp
  also have "\<dots> \<longleftrightarrow> unat v = 0x2922 * 65536 + 0x8086"
    using div_mult_mod_eq [of "unat v" 65536] by fastforce
  finally show ?thesis by (simp add: u32_eq_iff)
qed

lemma ucast_small: "n < 256 \<Longrightarrow> (ucast (of_nat n :: u16) :: u32) = of_nat n" "n < 256 \<Longrightarrow> (ucast (of_nat n :: u8) :: u32) = of_nat n"
  by (simp_all add: word_unat_eq_iff unsigned_ucast_eq unsigned_take_bit_eq unat_of_nat take_bit_eq_mod)

lemma cfg_addr_new:
  assumes "b < 256" "i < 32"
  shows "push_bit 16 (ucast (of_nat b :: u16)) OR push_bit 11 (ucast (of_nat i :: u16)) OR push_bit 8 (ucast (0 :: u16))
      OR (r AND 0xFC) OR 0x80000000 = (cfg_addr (b, i) OR (r AND 0xFC) :: u32)"
  using assms by (simp add: cfg_addr_def pci_config_addr_def ucast_small ac_simps)

definition ahci_found :: "(u32 \<Rightarrow> u32) \<Rightarrow> (nat \<times> nat) list \<Rightarrow> addr option" where
  "ahci_found cfg ps = map_option (\<lambda>p. cfg (cfg_addr p OR 0x24)) (find (is_ahci cfg) ps)"

lemma new_reads:
  assumes "b < 256" "i < 32"
  shows "pciConfigReadWord d (of_nat b) (of_nat i) 0 r s =
      (let (v, s) = ind d PCI_CONFIG_DATA (outd PCI_CONFIG_ADDR (cfg_addr (b, i) OR (ucast r AND 0xFC)) s)
       in (ucast (drop_bit (unat (r AND 2) * 8) v AND 0xFFFF), s))"
    "ReadWord d (of_nat b) (of_nat i) 0 r s =
      ind d PCI_CONFIG_DATA (outd PCI_CONFIG_ADDR (cfg_addr (b, i) OR (ucast r AND 0xFC)) s)"
  by (simp_all only: pciConfigReadWord_def ReadWord_def cfg_addr_new [OF assms] Let_def)

lemma config_reads:
  assumes "answers_config d cfg" "b < 256" "i < 32"
  shows "\<exists>h. pciConfigReadWord d (of_nat b) (of_nat i) 0 0 s = (ucast (cfg (cfg_addr (b, i))), s\<lparr>trace := h\<rparr>)"
    "\<exists>h. pciConfigReadWord d (of_nat b) (of_nat i) 0 2 s
       = (ucast (drop_bit 16 (cfg (cfg_addr (b, i))) AND 0xFFFF), s\<lparr>trace := h\<rparr>)"
    "\<exists>h. ReadWord d (of_nat b) (of_nat i) 0 0x24 s = (cfg (cfg_addr (b, i) OR 0x24), s\<lparr>trace := h\<rparr>)"
    "\<exists>h. pci_get_ven d (of_nat b) (of_nat i) 0 s = (ucast (cfg (cfg_addr (b, i))), s\<lparr>trace := h\<rparr>)"
    "\<exists>h. pci_get_dev d (of_nat b) (of_nat i) 0 s
       = (ucast (drop_bit 16 (cfg (cfg_addr (b, i))) AND 0xFFFF), s\<lparr>trace := h\<rparr>)"
    "\<exists>h. pci_get_bar d (of_nat b) (of_nat i) 0 0x24 s = (cfg (cfg_addr (b, i) OR 0x24), s\<lparr>trace := h\<rparr>)"
proof -
  have low: "(ucast (w AND 0xFFFF) :: u16) = ucast w" for w :: u32
    by (rule bit_word_eqI) (simp add: low_ones bit_simps)
  have d: "d (trace s @ [OutP 32 0xCF8 a]) (InP 32 0xCFC) = cfg a"
    "(ucast (d (trace s @ [OutP 32 0xCF8 a]) (InP 16 0xCFC)) :: u16) = ucast (cfg a)" for a
    using assms(1) by (simp_all add: answers_config_def)
  note c = new_reads [OF assms(2,3)] d pci_get_ven_def pci_get_dev_def pci_get_bar_def port_defs cfg_addr_def low
  show "\<exists>h. pciConfigReadWord d (of_nat b) (of_nat i) 0 0 s = (ucast (cfg (cfg_addr (b, i))), s\<lparr>trace := h\<rparr>)"
    "\<exists>h. pciConfigReadWord d (of_nat b) (of_nat i) 0 2 s
       = (ucast (drop_bit 16 (cfg (cfg_addr (b, i))) AND 0xFFFF), s\<lparr>trace := h\<rparr>)"
    "\<exists>h. ReadWord d (of_nat b) (of_nat i) 0 0x24 s = (cfg (cfg_addr (b, i) OR 0x24), s\<lparr>trace := h\<rparr>)"
    "\<exists>h. pci_get_ven d (of_nat b) (of_nat i) 0 s = (ucast (cfg (cfg_addr (b, i))), s\<lparr>trace := h\<rparr>)"
    "\<exists>h. pci_get_dev d (of_nat b) (of_nat i) 0 s
       = (ucast (drop_bit 16 (cfg (cfg_addr (b, i))) AND 0xFFFF), s\<lparr>trace := h\<rparr>)"
    "\<exists>h. pci_get_bar d (of_nat b) (of_nat i) 0 0x24 s = (cfg (cfg_addr (b, i) OR 0x24), s\<lparr>trace := h\<rparr>)"
    by (simp_all add: c) (auto intro: exI)+
qed

lemma ahci_found_Cons: "ahci_found cfg (p # ps) = (if is_ahci cfg p then Some (cfg (cfg_addr p OR 0x24)) else ahci_found cfg ps)"
  by (simp add: ahci_found_def)

lemma scan_slots_find:
  assumes d: "answers_config d cfg"
  shows "\<forall>p\<in>set ps. fst p < 256 \<and> snd p < 32 \<Longrightarrow> \<exists>h. scan_slots d ps s = (ahci_found cfg ps, s\<lparr>trace := h\<rparr>)
    \<and> (\<exists>h. scan_slots_p32 d ps s' = (ahci_found cfg ps, s'\<lparr>trace := h\<rparr>))"
proof (induction ps arbitrary: s s')
  case Nil
  show ?case
    by (rule exI [of _ "trace s"], rule conjI [OF _ exI [of _ "trace s'"]]) (simp_all add: ahci_found_def)
next
  case (Cons p ps)
  obtain b i where p: "p = (b, i)" "b < 256" "i < 32" using Cons.prems by (cases p) auto
  note c = config_reads [OF d p(2,3)]
  have ps: "\<forall>p\<in>set ps. fst p < 256 \<and> snd p < 32" using Cons.prems by simp
  obtain h1 where h1: "pciConfigReadWord d (of_nat b) (of_nat i) 0 0 s = (ucast (cfg (cfg_addr p)), s\<lparr>trace := h1\<rparr>)"
    using c(1) [of s] p(1) by auto
  obtain h2 where h2: "pciConfigReadWord d (of_nat b) (of_nat i) 0 2 (s\<lparr>trace := h1\<rparr>)
      = (ucast (drop_bit 16 (cfg (cfg_addr p)) AND 0xFFFF), s\<lparr>trace := h2\<rparr>)"
    using c(2) [of "s\<lparr>trace := h1\<rparr>"] p(1) by auto
  obtain h3 where h3: "ReadWord d (of_nat b) (of_nat i) 0 0x24 (s\<lparr>trace := h2\<rparr>) = (cfg (cfg_addr p OR 0x24), s\<lparr>trace := h3\<rparr>)"
    using c(3) [of "s\<lparr>trace := h2\<rparr>"] p(1) by auto
  obtain k1 where k1: "pci_get_ven d (of_nat b) (of_nat i) 0 s' = (ucast (cfg (cfg_addr p)), s'\<lparr>trace := k1\<rparr>)"
    using c(4) [of s'] p(1) by auto
  obtain k2 where k2: "pci_get_dev d (of_nat b) (of_nat i) 0 (s'\<lparr>trace := k1\<rparr>)
      = (ucast (drop_bit 16 (cfg (cfg_addr p)) AND 0xFFFF), s'\<lparr>trace := k2\<rparr>)"
    using c(5) [of "s'\<lparr>trace := k1\<rparr>"] p(1) by auto
  obtain k3 where k3: "pci_get_bar d (of_nat b) (of_nat i) 0 0x24 (s'\<lparr>trace := k2\<rparr>) = (cfg (cfg_addr p OR 0x24), s'\<lparr>trace := k3\<rparr>)"
    using c(6) [of "s'\<lparr>trace := k2\<rparr>"] p(1) by auto
  show ?case
    using Cons.IH [OF ps, of "s\<lparr>trace := h2\<rparr>" "s'\<lparr>trace := k2\<rparr>"] ids_eq [of "cfg (cfg_addr p)"]
    by (auto simp: p(1) ahci_found_Cons is_ahci_def h1 [unfolded p(1)] h2 [unfolded p(1)] h3 [unfolded p(1)]
        k1 [unfolded p(1)] k2 [unfolded p(1)] k3 [unfolded p(1)])
qed

abbreviation pci_slots :: "(nat \<times> nat) list" where
  "pci_slots \<equiv> [(b, i). b \<leftarrow> [0..<256], i \<leftarrow> [0..<32]]"

definition located :: "(u32 \<Rightarrow> u32) \<Rightarrow> addr \<Rightarrow> int \<times> addr" where
  "located cfg a = (case ahci_found cfg pci_slots of Some b \<Rightarrow> (0, b) | None \<Rightarrow> (-19, a))"

text \<open>C29: Both drivers find the same controller, the first one in the order of buses and slots that
  identifies itself as Intel's, and take its address from its fifth base address register; when there is
  none both answer \<open>-ENODEV\<close> and leave the pointer alone.  They change nothing but the history of accesses.\<close>

theorem find_ahci_device_versions_agree:
  assumes "answers_config d cfg"
  shows "\<exists>h h'. find_ahci_device d a s = (fst (located cfg a), snd (located cfg a), s\<lparr>trace := h\<rparr>)
    \<and> find_ahci_device_p32 d a s = (fst (located cfg a), snd (located cfg a), s\<lparr>trace := h'\<rparr>)"
proof -
  have "\<forall>p\<in>set pci_slots. fst p < 256 \<and> snd p < 32" by auto
  from scan_slots_find [OF assms this, of s s]
  obtain h h' where "scan_slots d pci_slots s = (ahci_found cfg pci_slots, s\<lparr>trace := h\<rparr>)"
    "scan_slots_p32 d pci_slots s = (ahci_found cfg pci_slots, s\<lparr>trace := h'\<rparr>)" by blast
  then show ?thesis
    unfolding find_ahci_device_def find_ahci_device_p32_def located_def
    by (cases "ahci_found cfg pci_slots") auto
qed

definition ich9_space :: "u32 \<Rightarrow> u32" where
  "ich9_space a = (if a = 0x80000800 then 0x29228086 else if a = 0x80000824 then 0xFEBF1000 else 0xFFFFFFFF)"

definition config_ports :: "(u32 \<Rightarrow> u32) \<Rightarrow> device" where
  "config_ports cfg h e = (case rev h of OutP _ _ a # _ \<Rightarrow> cfg a | _ \<Rightarrow> 0)"

lemma ich9_located: "located ich9_space 0 = (0, 0xFEBF1000)"
proof -
  have "[0..<256] = 0 # [1..<256]" "[0..<32] = 0 # 1 # [2..<32]" by (simp_all add: upt_conv_Cons)
  then show ?thesis
    by (simp only: located_def list.map concat.simps append.simps ahci_found_Cons)
      (simp add: is_ahci_def cfg_addr_def pci_config_addr_def ich9_space_def)
qed

lemma find_ahci_device_versions_agree_witness:
  "\<exists>h h'. find_ahci_device (config_ports ich9_space) 0 machine0 = (0, 0xFEBF1000, machine0\<lparr>trace := h\<rparr>)
    \<and> find_ahci_device_p32 (config_ports ich9_space) 0 machine0 = (0, 0xFEBF1000, machine0\<lparr>trace := h'\<rparr>)"
proof -
  have "answers_config (config_ports ich9_space) ich9_space"
    by (simp add: answers_config_def config_ports_def)
  from find_ahci_device_versions_agree [OF this, of 0 machine0] show ?thesis by (simp add: ich9_located)
qed

end
