(* ===== verification/Fat.thy ===== *)
theory Fat
  imports Bstree Cstring Cmath
begin

text \<open>
  Directory entries of the FAT file system (\<open>fs/fat.c\<close>): long and short names, check sums, the
  conversion of names to entries and back, and the comparison functions of the directory tree.  Files,
  directories and entries are in memory.  A local array has its address as a parameter; an access to
  an element it does not have is undefined where the code computes the element's address from the
  array, and just another address where it goes on from a pointer.
\<close>

subsection \<open>Layout\<close>

text \<open>\<open>struct fat_file\<close>, 500 bytes, and \<open>struct fat_dir\<close>, 524 bytes, on the 32-bit machine.\<close>

abbreviation FILE_SIZE :: nat where "FILE_SIZE \<equiv> 500"
abbreviation DIR_SIZE :: nat where "DIR_SIZE \<equiv> 524"

definition f_attr :: "addr \<Rightarrow> addr" where "f_attr f = f + 12"
definition f_name :: "addr \<Rightarrow> addr" where "f_name f = f + 16"
definition f_crc :: "addr \<Rightarrow> addr" where "f_crc f = f + 272"
definition f_chain :: "addr \<Rightarrow> addr" where "f_chain f = f + 280"
definition f_clus :: "addr \<Rightarrow> addr" where "f_clus f = f + 480"
definition f_size :: "addr \<Rightarrow> addr" where "f_size f = f + 484"
definition d_num :: "addr \<Rightarrow> addr" where "d_num d = d + 500"
definition d_fl :: "addr \<Rightarrow> addr" where "d_fl d = d + 504"
definition d_node :: "addr \<Rightarrow> addr" where "d_node d = d + 512"
definition dir_of :: "addr \<Rightarrow> addr" where "dir_of node = node - 512"

abbreviation FAT_LFN_MAX_LEN :: int where "FAT_LFN_MAX_LEN \<equiv> 256"
abbreviation FAT_ENTRY_SIZE :: nat where "FAT_ENTRY_SIZE \<equiv> 32"
abbreviation F32_SFN_LEN :: int where "F32_SFN_LEN \<equiv> 11"
abbreviation F32_LFN_LEN :: nat where "F32_LFN_LEN \<equiv> 13"
abbreviation FAT_LAST_LONG_ENTRY :: u8 where "FAT_LAST_LONG_ENTRY \<equiv> 0x40"
abbreviation FAT_ATTR_LFN :: u8 where "FAT_ATTR_LFN \<equiv> 0x0F"

definition fat_free :: "u8 \<Rightarrow> bool" where "fat_free x \<longleftrightarrow> x = 0 \<or> x = 0xE5"

definition lfn_ost :: "nat list" where
  "lfn_ost = [1, 3, 5, 7, 9, 14, 16, 18, 20, 22, 24, 28, 30]"

definition lfn_pad :: "u16 list" where
  "lfn_pad = 0 # replicate 12 0xFFFF"

subsection \<open>The directory tree's comparisons\<close>

definition fat_search_comp :: "mem \<Rightarrow> addr \<Rightarrow> addr \<Rightarrow> int option" where
  "fat_search_comp m node key = do {
     diff \<leftarrow> strcmp_root m key (f_name (dir_of node));
     Some (if diff \<noteq> 0 then (if diff < 0 then BST_LEFT else BST_RIGHT) else BST_MATCH) }"

definition fat_insert_comp :: "mem \<Rightarrow> addr \<Rightarrow> addr \<Rightarrow> int option" where
  "fat_insert_comp m node new =
     (if m (f_name (dir_of node)) = 0 \<or> m (f_name (dir_of new)) = 0 then Some BST_ERROR
      else do {
        diff \<leftarrow> strcmp_root m (f_name (dir_of new)) (f_name (dir_of node));
        Some (if diff \<noteq> 0 then (if diff < 0 then BST_LEFT else BST_RIGHT) else BST_ERROR) })"

subsection \<open>Sizes of entries\<close>

definition fat_get_ost :: "mem \<Rightarrow> addr \<Rightarrow> int" where
  "fat_get_ost m ent =
     (if ent = NULL then 0
      else if (m ent AND FAT_LAST_LONG_ENTRY) = FAT_LAST_LONG_ENTRY then int (unat (m ent AND 0xBF))
      else 1)"

definition fat_get_lfns :: "u32 \<Rightarrow> int" where
  "fat_get_lfns n = to_s32 ((n + 12) div 13)"

definition fat_determine_type :: "u32 \<Rightarrow> u32 \<Rightarrow> int" where
  "fat_determine_type sector_size total_clus =
     (if sector_size = 0 then 3
      else if total_clus < 4085 then 0
      else if total_clus < 65525 then 1
      else 2)"

subsection \<open>Short names\<close>

definition fat_crt_sfn_raw :: "mem \<Rightarrow> addr \<Rightarrow> addr \<Rightarrow> addr \<Rightarrow> (int \<times> mem) option" where
  "fat_crt_sfn_raw m pad name sfn = do {
     c \<leftarrow> strchr m name 46;
     let dot = (if c \<noteq> NULL then to_s32 (c - name) else -1);
     let m = snd (memset m pad 0x20 12);
     let m = st8 m (pad + 11) 0;
     m \<leftarrow> (if dot > -1 then do {
             (p, m) \<leftarrow> strncpy m pad name (c_min dot 8);
             n \<leftarrow> strlen m (name + to_u32 dot + 1);
             (p, m) \<leftarrow> strncpy m (pad + 8) (name + to_u32 dot + 1) (c_min n 3);
             Some m }
           else do {
             n \<leftarrow> strlen m name;
             (p, m) \<leftarrow> strncpy m pad name (if n \<ge> F32_SFN_LEN then F32_SFN_LEN else n);
             Some m });
     (p, m) \<leftarrow> strncpy m sfn pad F32_SFN_LEN;
     Some (0, m) }"

text \<open>
  \<open>fat_vali_sfn\<close> looks every character up in a table of 128 entries and ignores what it finds; a
  character that is negative as a \<open>char\<close> is outside the table.
\<close>

function vali_loop :: "mem \<Rightarrow> addr \<Rightarrow> nat \<Rightarrow> bool option" where
  "vali_loop m name i =
     (if i > 2147483647 then None
      else if m (name + of_nat i) = 0 then Some True
      else if unat (m (name + of_nat i)) \<ge> 128 then None
      else vali_loop m name (Suc i))"
  by pat_completeness auto
termination
  by (relation "measure (\<lambda>(m, name, i). 2147483648 - i)") auto

declare vali_loop.simps [simp del]

definition fat_vali_sfn :: "mem \<Rightarrow> addr \<Rightarrow> int option" where
  "fat_vali_sfn m name =
     (if name = NULL then Some (-1) else do { b \<leftarrow> vali_loop m name 0; Some 0 })"

definition fat_crt_sfn :: "mem \<Rightarrow> addr \<Rightarrow> addr \<Rightarrow> addr \<Rightarrow> (int \<times> mem) option" where
  "fat_crt_sfn m pad file sfn = do {
     err \<leftarrow> fat_vali_sfn m (f_name file);
     if err < 0 then Some (err, m)
     else do {
       (err, m) \<leftarrow> fat_crt_sfn_raw m pad (f_name file) sfn;
       if err < 0 then Some (err, m)
       else Some (0, st8 m (sfn + 11) (ucast (ld32 m (f_attr file)))) } }"

definition fat_calc_crc :: "mem \<Rightarrow> addr \<Rightarrow> u8" where
  "fat_calc_crc m sfn =
     fold (\<lambda>i crc. (if (crc AND 1) \<noteq> 0 then 0x80 else 0) + drop_bit 1 crc + m (sfn + of_nat i)) [0..<11] 0"

subsection \<open>Long names\<close>

definition fat_pad_lfn :: "mem \<Rightarrow> addr \<Rightarrow> int \<Rightarrow> int \<times> mem" where
  "fat_pad_lfn m lfn len =
     (if lfn = NULL \<or> len < 1 then (-1, m)
      else
        let n = nat (len mod 13) in
        if n = 0 then (-4, m)
        else (0, fold (\<lambda>i m. st16 m (lfn + of_nat (lfn_ost ! i)) (lfn_pad ! (i - n))) [n..<13] m))"

definition fat_crt_lfn_raw :: "mem \<Rightarrow> addr \<Rightarrow> addr \<Rightarrow> nat \<Rightarrow> (int \<times> mem) option" where
  "fat_crt_lfn_raw m dst s n = do {
     len \<leftarrow> strlen m s;
     Some (0, fold (\<lambda>i m. st8 m (dst + of_nat (lfn_ost ! i)) (m (s + of_nat (i + 13 * n)))) [0..<13] m) }"

text \<open>The index of the entry is passed on as a byte.\<close>

fun crt_lfn_loop :: "mem \<Rightarrow> addr \<Rightarrow> addr \<Rightarrow> u8 \<Rightarrow> nat list \<Rightarrow> mem option" where
  "crt_lfn_loop m tmps name crc [] = Some m"
| "crt_lfn_loop m tmps name crc (i # is) = do {
     let e = tmps + of_nat (32 * i);
     let m = st8 m e (of_nat (i + 1));
     let m = st8 m (e + 11) (m (e + 11) OR FAT_ATTR_LFN);
     let m = st8 m (e + 13) crc;
     (err, m) \<leftarrow> fat_crt_lfn_raw m e name (i mod 256);
     crt_lfn_loop m tmps name crc is }"

text \<open>Without an entry the last store goes below the array.\<close>

definition fat_crt_lfn :: "mem \<Rightarrow> addr \<Rightarrow> addr \<Rightarrow> u8 \<Rightarrow> addr \<Rightarrow> (int \<times> mem) option" where
  "fat_crt_lfn m tmps name crc lfns = do {
     len \<leftarrow> strlen m name;
     let n = nat (fat_get_lfns (to_u32 len));
     let m = snd (memset m tmps 0 (int (32 * n)));
     m \<leftarrow> crt_lfn_loop m tmps name crc [0..<n];
     if n = 0 then None
     else
       let e = tmps + of_nat (32 * (n - 1));
           m = snd (fat_pad_lfn m e len);
           m = st8 m e (m e OR FAT_LAST_LONG_ENTRY);
           m = snd (memcpy m lfns tmps (int (32 * n)))
       in Some (0, m) }"

definition fat_comb :: "mem \<Rightarrow> addr \<Rightarrow> addr \<Rightarrow> addr \<Rightarrow> nat \<Rightarrow> int \<times> mem" where
  "fat_comb m lfns sfn rde n =
     (let m = fold (\<lambda>i m. snd (memcpy m (rde + of_nat (32 * i)) (lfns + of_nat (32 * (n - i - 1))) 32)) [0..<n] m
      in (0, snd (memcpy m (rde + of_nat (32 * n)) sfn 32)))"

text \<open>The entries are read from the last one down; \<open>tmp\<close> has 256 bytes, too few for twenty entries.\<close>

definition fat_parse_lfn :: "mem \<Rightarrow> addr \<Rightarrow> addr \<Rightarrow> int \<Rightarrow> addr \<Rightarrow> (int \<times> mem) option" where
  "fat_parse_lfn m tmp base ost name =
     (if 13 * nat ost > 256 then None
      else let m = snd (memset m tmp 0 256);
          ent = base + to_u32 ((ost - 1) * 32);
          m = fold (\<lambda>i m. fold (\<lambda>j m. st8 m (tmp + of_nat (13 * i + j)) (m (ent - of_nat (32 * i) + of_nat (lfn_ost ! j)))) [0..<13] m)
                [0..<nat ost] m
      in Some (0, snd (memcpy m name tmp (ost * 13))))"

text \<open>\<open>fat_parse_sfn\<close> does nothing.\<close>

definition fat_parse_name :: "mem \<Rightarrow> addr \<Rightarrow> addr \<Rightarrow> int \<Rightarrow> addr \<Rightarrow> (int \<times> mem) option" where
  "fat_parse_name m tmp base ost file =
     (if base = NULL \<or> file = NULL then Some (0, m)
      else if ost < -1 then Some (-1, m)
      else if (m base AND FAT_LAST_LONG_ENTRY) \<noteq> 0 then do {
        (r, m) \<leftarrow> fat_parse_lfn m tmp base ost (f_name file);
        Some (0, m) }
      else Some (0, m))"

definition fat_parse_path :: "mem \<Rightarrow> addr \<Rightarrow> addr \<Rightarrow> (int \<times> mem) option" where
  "fat_parse_path m path file_name = do {
     c \<leftarrow> strrchr m path 47;
     let name = (if c \<noteq> NULL then c + 1 else path);
     if name = NULL then Some (-4, m)
     else do {
       n \<leftarrow> strlen m name;
       (p, m) \<leftarrow> strncpy m file_name name n;
       Some (0, m) } }"

definition fat_add_d2p :: "mem \<Rightarrow> addr \<Rightarrow> int option" where
  "fat_add_d2p m path =
     (if path = NULL then Some (-1)
      else do { c \<leftarrow> strchr m path 47; Some (if c = NULL then -1 else 0) })"

subsection \<open>Logical files to entries\<close>

text \<open>
  \<open>pad\<close>, \<open>tmps\<close>, \<open>lfns\<close> and \<open>sfn\<close> are the local arrays of \<open>_fat_crt_sfn\<close>, \<open>fat_crt_lfn\<close> and
  \<open>fat_conv_f2e\<close>.  Errors on the way are only reported.
\<close>

record fat_locals =
  l_pad :: addr
  l_tmps :: addr
  l_lfns :: addr
  l_sfn :: addr
  l_tmp :: addr

definition fat_conv_f2e :: "fat_locals \<Rightarrow> mem \<Rightarrow> addr \<Rightarrow> addr \<Rightarrow> (int \<times> mem) option" where
  "fat_conv_f2e l m de file = do {
     len \<leftarrow> strlen m (f_name file);
     let n = fat_get_lfns (to_u32 len);
     let m = snd (memset m (l_lfns l) 0 (32 * n));
     let m = snd (memset m (l_sfn l) 0 32);
     (err, m) \<leftarrow> fat_crt_sfn m (l_pad l) file (l_sfn l);
     (err, m) \<leftarrow> fat_crt_lfn m (l_tmps l) (f_name file) (m (f_crc file)) (l_lfns l);
     let clus = ld32 m (ld32 m (f_clus file));
     let m = st16 m (l_sfn l + 20) (ucast (drop_bit 16 clus));
     let m = st16 m (l_sfn l + 26) (ucast clus);
     let m = snd (fat_comb m (l_lfns l) (l_sfn l) de (nat n));
     Some (n + 1, m) }"

end
