(* ===== verification/Fat_Names.thy ===== *)
theory Fat_Names
  imports Fat
begin

text \<open>
  What \<open>fat_conv_f2e\<close> makes of a name and what \<open>fat_parse_name\<close> makes of that: the form of a long
  name on the disk, the proof that the encoder writes it and the proof that the decoder reads it back.
\<close>

subsection \<open>Stores in a loop\<close>

lemma st8_at: "st8 m a v x = (if x = a then v else m x)"
  by (simp add: st8_def)

lemma fold_st8:
  assumes inj: "inj_on f (set xs)" and d: "distinct xs"
    and g: "\<And>m' i. i \<in> set xs \<Longrightarrow> (\<forall>x. x \<notin> f ` set xs \<longrightarrow> m' x = m x) \<Longrightarrow> g m' i = v i"
  shows "i \<in> set xs \<Longrightarrow> fold (\<lambda>i m. st8 m (f i) (g m i)) xs m (f i) = v i"
    and "x \<notin> f ` set xs \<Longrightarrow> fold (\<lambda>i m. st8 m (f i) (g m i)) xs m x = m x"
proof -
  have *: "(\<forall>i\<in>set ys. fold (\<lambda>i m. st8 m (f i) (g m i)) ys m (f i) = v i)
      \<and> (\<forall>x. x \<notin> f ` set ys \<longrightarrow> fold (\<lambda>i m. st8 m (f i) (g m i)) ys m x = m x)"
    if "set ys \<subseteq> set xs" "distinct ys" for ys
    using that
  proof (induction ys rule: rev_induct)
    case (snoc i ys)
    define M where "M = fold (\<lambda>i m. st8 m (f i) (g m i)) ys m"
    have IH: "\<forall>i\<in>set ys. M (f i) = v i" "\<forall>x. x \<notin> f ` set ys \<longrightarrow> M x = m x" using snoc by (auto simp: M_def)
    have "g M i = v i" using IH(2) snoc.prems by (intro g) auto
    moreover have "fold (\<lambda>i m. st8 m (f i) (g m i)) (ys @ [i]) m = st8 M (f i) (g M i)" by (simp add: M_def)
    ultimately have e: "fold (\<lambda>i m. st8 m (f i) (g m i)) (ys @ [i]) m x = (if x = f i then v i else M x)" for x
      by (simp only: st8_at)
    have n: "f j \<noteq> f i" if "j \<in> set ys" for j
      using inj snoc.prems that by (auto dest!: inj_onD)
    show ?case
    proof (intro conjI ballI allI impI)
      fix j assume "j \<in> set (ys @ [i])"
      then show "fold (\<lambda>i m. st8 m (f i) (g m i)) (ys @ [i]) m (f j) = v j"
        unfolding e using IH(1) n by (cases "j = i") auto
    next
      fix x assume "x \<notin> f ` set (ys @ [i])"
      then show "fold (\<lambda>i m. st8 m (f i) (g m i)) (ys @ [i]) m x = m x" unfolding e using IH(2) by simp
    qed
  qed simp
  show "i \<in> set xs \<Longrightarrow> fold (\<lambda>i m. st8 m (f i) (g m i)) xs m (f i) = v i"
    "x \<notin> f ` set xs \<Longrightarrow> fold (\<lambda>i m. st8 m (f i) (g m i)) xs m x = m x"
    using * [OF subset_refl d] by auto
qed

lemma fold_st8_other:
  "(\<And>i. i \<in> set xs \<Longrightarrow> x \<noteq> f i) \<Longrightarrow> fold (\<lambda>i m. st8 m (f i) (g m i)) xs m x = m x"
proof (induction xs arbitrary: m)
  case (Cons i xs)
  then have "fold (\<lambda>i m. st8 m (f i) (g m i)) xs (st8 m (f i) (g m i)) x = st8 m (f i) (g m i) x" by simp
  also have "\<dots> = m x" using Cons.prems [of i] by (simp add: st8_at)
  finally show ?case by simp
qed simp

lemma offset_inj: "p < 2 ^ 32 \<Longrightarrow> q < 2 ^ 32 \<Longrightarrow> (a :: u32) + of_nat p = a + of_nat q \<longleftrightarrow> p = q"
proof
  assume "p < 2 ^ 32" "q < 2 ^ 32" "a + of_nat p = a + of_nat q"
  then have "unat (of_nat p :: u32) = unat (of_nat q :: u32)" by simp
  then show "p = q" using \<open>p < 2 ^ 32\<close> \<open>q < 2 ^ 32\<close> by (simp add: unat_of_nat_lt)
qed simp

lemma offset_nonnull: "a \<noteq> NULL \<Longrightarrow> unat a + n \<le> 2 ^ 32 \<Longrightarrow> i < n \<Longrightarrow> a + of_nat i \<noteq> NULL"
proof
  assume a: "a \<noteq> NULL" "unat a + n \<le> 2 ^ 32" "i < n" "a + of_nat i = NULL"
  then have "unat (of_nat i :: u32) = i" by (simp add: unat_of_nat_lt)
  then have "unat (a + of_nat i) = unat a + i" using a(2,3) by (simp add: unat_word_ariths)
  moreover have "unat a \<noteq> 0" using a(1) by (simp add: unat_eq_0)
  ultimately show False using a(4) by simp
qed

lemma strlen_bound:
  assumes "m (a + of_nat k) = 0" "k < 2147483647"
  shows "\<exists>n. strlen m a = Some n \<and> 0 \<le> n \<and> n \<le> int k"
proof -
  have "\<exists>n. strlen_loop m a i = Some n \<and> n \<le> k" if "i \<le> k" for i
    using that
  proof (induction "k - i" arbitrary: i)
    case 0
    then show ?case using assms by (subst strlen_loop.simps) simp
  next
    case (Suc d)
    then have "\<exists>n. strlen_loop m a (Suc i) = Some n \<and> n \<le> k" by simp
    then show ?case using Suc.prems assms by (subst strlen_loop.simps) auto
  qed
  from this [of 0] obtain n where "strlen_loop m a 0 = Some n" "n \<le> k" by auto
  then show ?thesis using assms(2) by (simp add: strlen_def)
qed

lemma strncpy_bound:
  assumes "m (src + of_nat k) = 0" "k < 2147483647" "cnt < 2 ^ 32"
  shows "\<exists>p m'. strncpy m dst src cnt = Some (p, m') \<and> (\<forall>x. \<not> inside dst (nat cnt) x \<longrightarrow> m' x = m x)"
proof -
  obtain n where n: "strlen m src = Some n" "0 \<le> n" using strlen_bound [of m src k] assms by blast
  have "fold (\<lambda>i m. st8 m (dst + of_nat i) (m (src + of_nat i))) [0..<nat (c_min n cnt)] m x = m x"
    if "\<not> inside dst (nat cnt) x" for x
  proof (rule fold_st8_other)
    fix i assume "i \<in> set [0..<nat (c_min n cnt)]"
    then have "i < nat cnt" by (auto simp: c_min_def split: if_splits)
    then have "inside dst (nat cnt) (dst + of_nat i)" using assms(3) by (simp add: inside_def unat_of_nat_lt)
    then show "x \<noteq> dst + of_nat i" using that by blast
  qed
  then show ?thesis using n by (auto simp: strncpy_def Let_def)
qed

subsection \<open>The form of a long name\<close>

text \<open>
  The entries of a name \<open>bs\<close> on the disk, the last one first: each has its number, with bit 6 in the
  first entry, and thirteen characters of the name; behind the name a zero and \<open>0xFF\<close>.
\<close>

abbreviation entries :: "u8 list \<Rightarrow> nat" where "entries bs \<equiv> (length bs + 12) div 13"

definition lfn_byte :: "u8 list \<Rightarrow> nat \<Rightarrow> u8" where
  "lfn_byte bs p = (if p < length bs then bs ! p else if p = length bs then 0 else 0xFF)"

definition lfn_ord :: "nat \<Rightarrow> nat \<Rightarrow> u8" where
  "lfn_ord k i = (if Suc i = k then of_nat (Suc i) OR FAT_LAST_LONG_ENTRY else of_nat (Suc i))"

text \<open>Entry \<open>i\<close> of the name, numbered from 0, at an address.\<close>

definition lfn_at :: "mem \<Rightarrow> addr \<Rightarrow> u8 list \<Rightarrow> nat \<Rightarrow> bool" where
  "lfn_at m e bs i \<longleftrightarrow> m e = lfn_ord (entries bs) i
     \<and> (\<forall>j<13. m (e + of_nat (lfn_ost ! j)) = lfn_byte bs (13 * i + j))"

definition holds_name :: "mem \<Rightarrow> addr \<Rightarrow> u8 list \<Rightarrow> bool" where
  "holds_name m de bs \<longleftrightarrow> (\<forall>i<entries bs. lfn_at m (de + of_nat (32 * (entries bs - Suc i))) bs i)"

lemma length_lfn_ost [simp]: "length lfn_ost = 13"
  by (simp add: lfn_ost_def)

lemma lfn_ost_set: "j < 13 \<Longrightarrow> lfn_ost ! j \<in> {1, 3, 5, 7, 9, 14, 16, 18, 20, 22, 24, 28, 30}"
  using nth_mem [of j lfn_ost] by (simp add: lfn_ost_def)

lemma lfn_ost_bounds: "j < 13 \<Longrightarrow> 0 < lfn_ost ! j \<and> lfn_ost ! j < 31 \<and> lfn_ost ! j \<noteq> 11 \<and> lfn_ost ! j \<noteq> 13"
  using lfn_ost_set [of j] by auto

lemma lfn_ost_lt: "j < 13 \<Longrightarrow> lfn_ost ! j < 32"
  using lfn_ost_bounds [of j] by simp

lemma lfn_ost_inj: "i < 13 \<Longrightarrow> j < 13 \<Longrightarrow> lfn_ost ! i = lfn_ost ! j \<longleftrightarrow> i = j"
  by (rule nth_eq_iff_index_eq) (simp_all add: lfn_ost_def)

lemma lfn_ost_gap: "i < 13 \<Longrightarrow> j < 13 \<Longrightarrow> lfn_ost ! i \<noteq> Suc (lfn_ost ! j)"
  using lfn_ost_set [of i] lfn_ost_set [of j] by auto

lemma lfn_at_cong:
  assumes "\<And>p. p < 32 \<Longrightarrow> m' (d + of_nat p) = m (e + of_nat p)"
  shows "lfn_at m' d bs i \<longleftrightarrow> lfn_at m e bs i"
proof -
  have "m' (d + of_nat (lfn_ost ! j)) = m (e + of_nat (lfn_ost ! j))" if "j < 13" for j
    using lfn_ost_bounds [OF that] by (intro assms) simp
  then show ?thesis using assms [of 0] by (simp add: lfn_at_def)
qed

subsection \<open>Encoding\<close>

text \<open>One entry: the characters of the name go to their places.\<close>

lemma crt_lfn_raw:
  assumes s: "strlen m s = Some len" and ap: "\<And>p. p < n \<Longrightarrow> \<not> inside dst 32 (s + of_nat p)"
  shows "\<exists>m'. fat_crt_lfn_raw m dst s q = Some (0, m')
    \<and> (\<forall>j<13. j + 13 * q < n \<longrightarrow> m' (dst + of_nat (lfn_ost ! j)) = m (s + of_nat (j + 13 * q)))
    \<and> (\<forall>x. (\<forall>j<13. x \<noteq> dst + of_nat (lfn_ost ! j)) \<longrightarrow> m' x = m x)"
proof -
  define f where "f = (\<lambda>j. dst + of_nat (lfn_ost ! j))"
  define g where "g = (\<lambda>m :: mem. \<lambda>j. m (s + of_nat (j + 13 * q)))"
  define F where "F = (\<lambda>xs. fold (\<lambda>i m. st8 m (f i) (g m i)) xs)"
  define c where "c = min 13 (n - 13 * q)"
  have f: "f i = f j \<longleftrightarrow> i = j" if "i < 13" "j < 13" for i j
    using offset_inj [of "lfn_ost ! i" "lfn_ost ! j" dst] lfn_ost_bounds [OF that(1)] lfn_ost_bounds [OF that(2)]
      lfn_ost_inj [OF that] by (simp add: f_def)
  have fin: "inside dst 32 (f i)" if "i < 13" for i
    using lfn_ost_bounds [OF that] by (simp add: f_def inside_def unat_of_nat_lt)
  have split: "[0..<13] = [0..<c] @ [c..<13]"
    using upt_add_eq_append [of 0 c "13 - c"] by (simp add: c_def)
  have first: "F [0..<c] m (f j) = g m j" if "j < c" for j
    unfolding F_def
  proof (rule fold_st8(1))
    show "inj_on f (set [0..<c])" using f by (auto simp: inj_on_def c_def)
    show "g m' i = g m i" if "i \<in> set [0..<c]" "\<forall>x. x \<notin> f ` set [0..<c] \<longrightarrow> m' x = m x" for m' i
    proof -
      have "\<not> inside dst 32 (s + of_nat (i + 13 * q))" using that(1) by (intro ap) (simp add: c_def, linarith)
      then have "s + of_nat (i + 13 * q) \<notin> f ` set [0..<c]" using fin by (auto simp: c_def)
      then show ?thesis using that(2) unfolding g_def by blast
    qed
  qed (use that in auto)
  have "F [0..<13] m (f j) = g m j" if "j < c" for j
  proof -
    have "F [c..<13] (F [0..<c] m) (f j) = F [0..<c] m (f j)"
      unfolding F_def by (rule fold_st8_other) (use f that in \<open>auto simp: c_def\<close>)
    then show ?thesis using first [OF that] by (simp add: split F_def)
  qed
  moreover have "F [0..<13] m x = m x" if "\<forall>j<13. x \<noteq> f j" for x
    unfolding F_def by (rule fold_st8_other) (use that in auto)
  moreover have "fat_crt_lfn_raw m dst s q = Some (0, F [0..<13] m)"
    using s by (simp add: fat_crt_lfn_raw_def F_def f_def g_def)
  ultimately show ?thesis by (auto simp: f_def g_def c_def)
qed

lemma inside_part: "inside (a + of_nat d) n x \<Longrightarrow> d + n \<le> k \<Longrightarrow> k \<le> 2 ^ 32 \<Longrightarrow> inside a k x"
  by (rule inside_offset)

lemma crt_lfn_loop:
  assumes "cstr m name bs" "name \<noteq> NULL" "length bs < 2147483647" "k < 256"
    and "apart name (Suc (length bs)) tmps (32 * k)" "s \<le> k"
  shows "\<exists>m'. crt_lfn_loop m tmps name crc [s..<k] = Some m'
    \<and> (\<forall>i. s \<le> i \<longrightarrow> i < k \<longrightarrow> m' (tmps + of_nat (32 * i)) = of_nat (Suc i)
          \<and> (\<forall>j<13. 13 * i + j < length bs \<longrightarrow> m' (tmps + of_nat (32 * i) + of_nat (lfn_ost ! j)) = bs ! (13 * i + j)))
    \<and> (\<forall>x. \<not> inside (tmps + of_nat (32 * s)) (32 * (k - s)) x \<longrightarrow> m' x = m x)"
  using assms
proof (induction "k - s" arbitrary: m s)
  case 0
  then show ?case by simp
next
  case (Suc d)
  define e where "e = tmps + of_nat (32 * s)"
  have s: "s < k" "[s..<k] = s # [Suc s..<k]" using Suc.hyps(2) by (simp_all add: upt_conv_Cons)
  define m1 where "m1 = st8 m e (of_nat (s + 1))"
  define m2 where "m2 = st8 m1 (e + 11) (m1 (e + 11) OR FAT_ATTR_LFN)"
  define m3 where "m3 = st8 m2 (e + 13) crc"
  have m3: "m3 x = m x" if "\<not> inside e 32 x" for x
    using that by (auto simp: m3_def m2_def m1_def st8_at inside_def)
  have ord: "m3 e = of_nat (Suc s)" by (simp add: m3_def m2_def m1_def st8_at)
  have sub: "inside tmps (32 * k) x" if "inside e 32 x" for x
    using inside_offset [of tmps "32 * s" 32 x "32 * k"] that s(1) Suc.prems(4) by (simp add: e_def)
  have out: "\<not> inside e 32 (name + of_nat p)" if "p < Suc (length bs)" for p
  proof -
    have "inside name (Suc (length bs)) (name + of_nat p)" using that Suc.prems(3) by (intro inside_add) simp_all
    then show ?thesis using apart_inside [OF Suc.prems(5)] sub by blast
  qed
  have keep: "cstr m' name bs" if "\<And>x. \<not> inside e 32 x \<Longrightarrow> m' x = m x" for m'
    using Suc.prems(1) that out by (simp add: cstr_iff)
  have "strlen m3 name = Some (int (length bs))"
    by (rule strlen_cstr [OF keep [OF m3] Suc.prems(2,3)])
  then obtain m4 where m4: "fat_crt_lfn_raw m3 e name s = Some (0, m4)"
    "\<forall>j<13. j + 13 * s < Suc (length bs) \<longrightarrow> m4 (e + of_nat (lfn_ost ! j)) = m3 (name + of_nat (j + 13 * s))"
    "\<forall>x. (\<forall>j<13. x \<noteq> e + of_nat (lfn_ost ! j)) \<longrightarrow> m4 x = m3 x"
    using crt_lfn_raw [of m3 name "int (length bs)" "Suc (length bs)" e s] out by blast
  have m4_out: "m4 x = m x" if "\<not> inside e 32 x" for x
  proof -
    have "x \<noteq> e + of_nat (lfn_ost ! j)" if "j < 13" for j
      using \<open>\<not> inside e 32 x\<close> lfn_ost_bounds [OF that] inside_add [of 32 "lfn_ost ! j" e] by auto
    then show ?thesis using m4(3) m3 [OF that] by simp
  qed
  have m4_ord: "m4 e = of_nat (Suc s)"
  proof -
    have "e \<noteq> e + of_nat (lfn_ost ! j)" if "j < 13" for j
      using offset_inj [of 0 "lfn_ost ! j" e] lfn_ost_bounds [OF that] by simp
    then show ?thesis using m4(3) ord by simp
  qed
  have m4_char: "m4 (e + of_nat (lfn_ost ! j)) = bs ! (13 * s + j)" if "j < 13" "13 * s + j < length bs" for j
  proof -
    have "m3 (name + of_nat (j + 13 * s)) = m (name + of_nat (j + 13 * s))" using that(2) by (intro m3 out) simp
    moreover have "m (name + of_nat (j + 13 * s)) = bs ! (j + 13 * s)"
      using Suc.prems(1) that(2) unfolding cstr_iff by (metis add.commute)
    moreover have "m4 (e + of_nat (lfn_ost ! j)) = m3 (name + of_nat (j + 13 * s))"
      using m4(2) that by (simp del: of_nat_add of_nat_mult)
    ultimately show ?thesis by (simp only: add.commute [of j])
  qed
  have ap: "\<not> inside e 32 x" if "inside (tmps + of_nat (32 * Suc s)) (32 * (k - Suc s)) x" for x
  proof -
    have "k \<noteq> Suc s" using that by (auto simp: inside_def)
    then have "apart (tmps + of_nat (32 * s)) 32 (tmps + of_nat (32 * Suc s)) (32 * (k - Suc s))"
      by (intro apart_offsets) (use s(1) Suc.prems(4) in auto)
    then show ?thesis using apart_inside [OF iffD1 [OF apart_sym] that] by (simp add: e_def)
  qed
  have d: "d = k - Suc s" using Suc.hyps(2) s(1) by simp
  have "cstr m4 name bs" by (rule keep) (rule m4_out)
  obtain m5 where m5: "crt_lfn_loop m4 tmps name crc [Suc s..<k] = Some m5"
    "\<forall>i. Suc s \<le> i \<longrightarrow> i < k \<longrightarrow> m5 (tmps + of_nat (32 * i)) = of_nat (Suc i)
          \<and> (\<forall>j<13. 13 * i + j < length bs \<longrightarrow> m5 (tmps + of_nat (32 * i) + of_nat (lfn_ost ! j)) = bs ! (13 * i + j))"
    "\<forall>x. \<not> inside (tmps + of_nat (32 * Suc s)) (32 * (k - Suc s)) x \<longrightarrow> m5 x = m4 x"
    using Suc.hyps(1) [OF d \<open>cstr m4 name bs\<close> Suc.prems(2-5) Suc_leI [OF s(1)]] by (elim exE conjE) (rule that)
  have "crt_lfn_loop m tmps name crc [s..<k] = Some m5"
    using m4(1) m5(1) by (simp add: s(2) Let_def m3_def m2_def m1_def e_def Suc.prems(4) order_less_trans [OF s(1)])
  moreover have "m5 (tmps + of_nat (32 * i)) = of_nat (Suc i)
      \<and> (\<forall>j<13. 13 * i + j < length bs \<longrightarrow> m5 (tmps + of_nat (32 * i) + of_nat (lfn_ost ! j)) = bs ! (13 * i + j))"
    if "s \<le> i" "i < k" for i
  proof (cases "i = s")
    case True
    have "m5 (e + of_nat b) = m4 (e + of_nat b)" if "b < 32" for b
    proof -
      have "inside e 32 (e + of_nat b)" using that by (intro inside_add) simp_all
      then show ?thesis using m5(3) ap by blast
    qed
    from this [of 0] this have "m5 e = of_nat (Suc s)"
      "\<forall>j<13. 13 * s + j < length bs \<longrightarrow> m5 (e + of_nat (lfn_ost ! j)) = bs ! (13 * s + j)"
      using m4_ord m4_char lfn_ost_lt by simp_all
    then show ?thesis by (simp add: True e_def)
  qed (use m5(2) that in auto)
  moreover have "m5 x = m x" if "\<not> inside (tmps + of_nat (32 * s)) (32 * (k - s)) x" for x
  proof -
    have "inside (tmps + of_nat (32 * s)) (32 * (k - s)) x" if "inside (tmps + of_nat (32 * Suc s)) (32 * (k - Suc s)) x"
      using that by (rule inside_sub [where d = 32]) (use s(1) Suc.prems(4) in auto)
    then have "\<not> inside (tmps + of_nat (32 * Suc s)) (32 * (k - Suc s)) x" using that by blast
    moreover have "\<not> inside e 32 x" using that s(1) by (auto simp: e_def inside_def)
    ultimately show ?thesis using m5(3) m4_out by simp
  qed
  ultimately show ?case by (intro exI [of _ m5] conjI allI impI) simp_all
qed

text \<open>What is behind the name in the last entry.\<close>

lemma pad_loop:
  assumes "t \<le> 13"
  shows "\<forall>j<13. fold (\<lambda>i m. st16 m (e + of_nat (lfn_ost ! i)) (w i)) [n..<t] m (e + of_nat (lfn_ost ! j))
       = (if n \<le> j \<and> j < t then ucast (w j) else m (e + of_nat (lfn_ost ! j)))"
    and "fold (\<lambda>i m. st16 m (e + of_nat (lfn_ost ! i)) (w i)) [n..<t] m e = m e"
    and "\<not> inside e 32 x \<Longrightarrow> fold (\<lambda>i m. st16 m (e + of_nat (lfn_ost ! i)) (w i)) [n..<t] m x = m x"
proof -
  let ?F = "\<lambda>t. fold (\<lambda>i m. st16 m (e + of_nat (lfn_ost ! i)) (w i)) [n..<t] m"
  have "(\<forall>j<13. ?F t (e + of_nat (lfn_ost ! j)) = (if n \<le> j \<and> j < t then ucast (w j) else m (e + of_nat (lfn_ost ! j))))
      \<and> ?F t e = m e \<and> (\<forall>x. \<not> inside e 32 x \<longrightarrow> ?F t x = m x)"
    using assms
  proof (induction t)
    case (Suc t)
    show ?case
    proof (cases "n \<le> t")
      case True
      have b: "0 < lfn_ost ! t" "lfn_ost ! t < 31" using lfn_ost_bounds [of t] Suc.prems by auto
      have step: "?F (Suc t) x = (if x = e + of_nat (lfn_ost ! t) then ucast (w t)
          else if x = e + of_nat (Suc (lfn_ost ! t)) then ucast (drop_bit 8 (w t)) else ?F t x)" for x
        using True by (simp add: st16_def ac_simps)
      have "e + of_nat (lfn_ost ! j) = e + of_nat (lfn_ost ! t) \<longleftrightarrow> j = t"
        "e + of_nat (lfn_ost ! j) \<noteq> e + of_nat (Suc (lfn_ost ! t))" if "j < 13" for j
        using offset_inj [of "lfn_ost ! j" "lfn_ost ! t" e] offset_inj [of "lfn_ost ! j" "Suc (lfn_ost ! t)" e]
          lfn_ost_bounds [OF that] lfn_ost_inj [OF that, of t] lfn_ost_gap [OF that, of t] b Suc.prems by auto
      moreover have "e \<noteq> e + of_nat (lfn_ost ! t)" "e \<noteq> e + of_nat (Suc (lfn_ost ! t))"
        using offset_inj [of 0 "lfn_ost ! t" e] offset_inj [of 0 "Suc (lfn_ost ! t)" e] b by auto
      moreover have "inside e 32 (e + of_nat (lfn_ost ! t))" "inside e 32 (e + of_nat (Suc (lfn_ost ! t)))"
        using b by (intro inside_add; simp)+
      ultimately show ?thesis using Suc.IH Suc.prems True unfolding step by (auto simp: less_Suc_eq)
    qed (use Suc in auto)
  qed simp
  then show "\<forall>j<13. ?F t (e + of_nat (lfn_ost ! j)) = (if n \<le> j \<and> j < t then ucast (w j) else m (e + of_nat (lfn_ost ! j)))"
    "?F t e = m e" "\<not> inside e 32 x \<Longrightarrow> ?F t x = m x" by blast+
qed

lemma get_lfns: "n < 2147483648 - 13 \<Longrightarrow> fat_get_lfns (to_u32 (int n)) = int ((n + 12) div 13)"
proof -
  assume n: "n < 2147483648 - 13"
  have "to_u32 (int n) + 12 = of_nat (n + 12)" by (simp add: to_u32_def)
  moreover have "(of_nat (n + 12) :: u32) div of_nat 13 = of_nat ((n + 12) div 13)"
    using n by (intro u32_div) simp_all
  moreover have "(n + 12) div 13 < 2147483648" using n by simp
  ultimately show ?thesis unfolding fat_get_lfns_def by (simp del: of_nat_add)
qed

lemma lfn_pad_nth: "d < 13 \<Longrightarrow> ucast (lfn_pad ! d) = (if d = 0 then 0 else 0xFF :: u8)"
  by (auto simp: lfn_pad_def nth_Cons')

text \<open>The last entry after the padding: \<open>c\<close> characters of the name are in it.\<close>

lemma pad_lfn:
  assumes "e \<noteq> NULL" "0 < c" "c \<le> 13"
  shows "j < 13 \<Longrightarrow> snd (fat_pad_lfn m e (int (13 * q + c))) (e + of_nat (lfn_ost ! j))
       = (if j < c then m (e + of_nat (lfn_ost ! j)) else if j = c then 0 else 0xFF)"
    and "snd (fat_pad_lfn m e (int (13 * q + c))) e = m e"
    and "\<not> inside e 32 x \<Longrightarrow> snd (fat_pad_lfn m e (int (13 * q + c))) x = m x"
proof -
  have "(13 * q + c) mod 13 = (if c = 13 then 0 else c)" using assms(3) by simp
  moreover have "int (13 * q + c) mod 13 = int ((13 * q + c) mod 13)" by (simp only: zmod_int of_nat_numeral)
  ultimately have n: "nat (int (13 * q + c) mod 13) = (if c = 13 then 0 else c)" by (simp only: nat_int)
  have F: "snd (fat_pad_lfn m e (int (13 * q + c))) = (if c = 13 then m
      else fold (\<lambda>i m. st16 m (e + of_nat (lfn_ost ! i)) (lfn_pad ! (i - c))) [c..<13] m)"
    unfolding fat_pad_lfn_def Let_def n using assms by simp
  have p: "ucast (lfn_pad ! (j - c)) = (if j = c then 0 else 0xFF :: u8)" if "c \<le> j" "j < 13" for j
    using lfn_pad_nth [of "j - c"] that by simp
  have l: "(13 :: nat) \<le> 13" by simp
  note loop = pad_loop [OF l, where e = e and w = "\<lambda>i. lfn_pad ! (i - c)" and n = c and m = m]
  show "snd (fat_pad_lfn m e (int (13 * q + c))) (e + of_nat (lfn_ost ! j))
       = (if j < c then m (e + of_nat (lfn_ost ! j)) else if j = c then 0 else 0xFF)" if "j < 13"
    unfolding F using loop(1) p [of j] that assms(3) by (cases "c = 13") simp_all
  show "snd (fat_pad_lfn m e (int (13 * q + c))) e = m e"
    unfolding F using loop(2) by (cases "c = 13") simp_all
  show "snd (fat_pad_lfn m e (int (13 * q + c))) x = m x" if "\<not> inside e 32 x"
    unfolding F using loop(3) [OF that] by (cases "c = 13") simp_all
qed

lemma crt_lfn:
  fixes m name bs tmps lfns
  defines "k \<equiv> entries bs"
  assumes s: "cstr m name bs" "bs \<noteq> []" "length bs \<le> 247" and nn: "name \<noteq> NULL" "lfns \<noteq> NULL" "tmps \<noteq> NULL"
    and ap: "apart name (Suc (length bs)) tmps (32 * k)" "apart lfns (32 * k) tmps (32 * k)" "unat tmps + 32 * k \<le> 2 ^ 32"
  shows "\<exists>m'. fat_crt_lfn m tmps name crc lfns = Some (0, m')
    \<and> (\<forall>i<k. lfn_at m' (lfns + of_nat (32 * i)) bs i)
    \<and> (\<forall>x. \<not> inside tmps (32 * k) x \<longrightarrow> \<not> inside lfns (32 * k) x \<longrightarrow> m' x = m x)"
proof -
  let ?n = "length bs"
  have k: "0 < k" "k < 20" "?n \<le> 13 * k" "13 * (k - 1) < ?n"
    using s(2,3) by (cases bs; auto simp: k_def)+
  define m1 where "m1 = fill m tmps (32 * k) 0"
  have m1: "snd (memset m tmps 0 (int (32 * k))) = m1" 
    using memset_eq [of "int (32 * k)" m tmps 0] k by (simp only: m1_def nat_int) simp
  have "cstr m1 name bs"
  proof (rule iffD1 [OF cstr_cong s(1)])
    show "m x = m1 x" if "inside name (Suc ?n) x" for x
      using apart_inside [OF ap(1) that] by (simp add: m1_def fill_def)
  qed (use s in simp)
  then obtain m2 where m2: "crt_lfn_loop m1 tmps name crc [0..<k] = Some m2"
    "\<forall>i<k. m2 (tmps + of_nat (32 * i)) = of_nat (Suc i)
          \<and> (\<forall>j<13. 13 * i + j < ?n \<longrightarrow> m2 (tmps + of_nat (32 * i) + of_nat (lfn_ost ! j)) = bs ! (13 * i + j))"
    "\<forall>x. \<not> inside tmps (32 * k) x \<longrightarrow> m2 x = m1 x"
    using crt_lfn_loop [of m1 name bs k tmps 0 crc] nn(1) s(3) k(2) ap(1) by auto
  define e where "e = tmps + of_nat (32 * (k - 1))"
  define m3 where "m3 = snd (fat_pad_lfn m2 e (int ?n))"
  define m4 where "m4 = st8 m3 e (m3 e OR FAT_LAST_LONG_ENTRY)"
  have sl: "strlen m name = Some (int ?n)" using s nn(1) by (intro strlen_cstr) auto
  have num: "nat (fat_get_lfns (to_u32 (int ?n))) = k" using get_lfns [of ?n] s(3) by (simp add: k_def)
  have mc: "snd (memcpy m4 lfns tmps (int (32 * k))) = blit m4 lfns tmps (32 * k)"
    using memcpy_eq [of lfns tmps "int (32 * k)" m4] nn ap(2) k by (simp only: nat_int) simp
  have res: "fat_crt_lfn m tmps name crc lfns = Some (0, blit m4 lfns tmps (32 * k))"
    using k(1) by (simp only: fat_crt_lfn_def Let_def sl num m1 m2(1) bind.bind_lunit mc if_not_P gr_implies_not0 not_False_eq_True
      flip: e_def m3_def m4_def)
  define c where "c = ?n - 13 * (k - 1)"
  have c: "0 < c" "c \<le> 13" "?n = 13 * (k - 1) + c" using k by (auto simp: c_def)
  have "e \<noteq> NULL" unfolding e_def by (rule offset_nonnull [OF nn(3) ap(3)]) (use k in simp)
  note pad = pad_lfn [OF this c(1,2), where m = m2 and q = "k - 1", folded c(3) m3_def]
  have off: "\<not> inside e 32 (tmps + of_nat (32 * i) + of_nat p)" if "i < k - 1" "p < 32" for i p
  proof -
    have "apart (tmps + of_nat (32 * i)) 32 e 32" unfolding e_def by (rule apart_offsets) (use that k in auto)
    moreover have "inside (tmps + of_nat (32 * i)) 32 (tmps + of_nat (32 * i) + of_nat p)"
      using that(2) by (intro inside_add) simp_all
    ultimately show ?thesis by (rule apart_inside)
  qed
  have same: "m4 (tmps + of_nat (32 * i) + of_nat p) = m2 (tmps + of_nat (32 * i) + of_nat p)" if "i < k - 1" "p < 32" for i p
    using off [OF that] pad(3) by (auto simp: m4_def st8_at inside_def)
  have at: "lfn_at m4 (tmps + of_nat (32 * i)) bs i" if "i < k" for i
  proof (cases "i = k - 1")
    case True
    have "m2 e = of_nat (Suc (k - 1))" unfolding e_def using m2(2) k(1) by (meson diff_less zero_less_one)
    then have "m4 e = of_nat k OR FAT_LAST_LONG_ENTRY" using pad(2) k(1) by (simp add: m4_def st8_at)
    moreover have "m4 (e + of_nat (lfn_ost ! j)) = lfn_byte bs (13 * i + j)" if "j < 13" for j
    proof -
      have "e + of_nat (lfn_ost ! j) \<noteq> e"
        using offset_inj [of 0 "lfn_ost ! j" e] lfn_ost_bounds [OF that] by auto
      then have "m4 (e + of_nat (lfn_ost ! j)) = m3 (e + of_nat (lfn_ost ! j))" by (simp add: m4_def st8_at)
      moreover have "m2 (e + of_nat (lfn_ost ! j)) = bs ! (13 * i + j)" if "j < c"
        using m2(2) \<open>i < k\<close> True \<open>j < 13\<close> that c(3) unfolding e_def by (simp del: of_nat_mult)
      ultimately show ?thesis using pad(1) [OF that] c True by (auto simp: lfn_byte_def)
    qed
    ultimately show ?thesis using True k by (simp add: lfn_at_def lfn_ord_def e_def flip: k_def)
  next
    case False
    then have i: "i < k - 1" using that by simp
    have n: "13 * i + j < ?n" if "j < 13" for j using i that k(4) by simp
    have "Suc i \<noteq> k" using i by simp
    then show ?thesis
      using same [OF i, of 0] same [OF i lfn_ost_lt] m2(2) that False n
      by (simp add: lfn_at_def lfn_ord_def lfn_byte_def del: of_nat_mult flip: k_def)
  qed
  have "lfn_at (blit m4 lfns tmps (32 * k)) (lfns + of_nat (32 * i)) bs i" if "i < k" for i
  proof (rule iffD2 [OF lfn_at_cong at [OF that]])
    fix p :: nat assume "p < 32"
    then have "inside lfns (32 * k) (lfns + of_nat (32 * i + p))" using that k(2) by (intro inside_add) auto
    then show "blit m4 lfns tmps (32 * k) (lfns + of_nat (32 * i) + of_nat p) = m4 (tmps + of_nat (32 * i) + of_nat p)"
      by (simp add: blit_def add.assoc)
  qed
  moreover have "blit m4 lfns tmps (32 * k) x = m x" if "\<not> inside tmps (32 * k) x" "\<not> inside lfns (32 * k) x" for x
  proof -
    have "inside tmps (32 * k) x" if "inside e 32 x"
      by (rule inside_offset [OF that [unfolded e_def]]) (use k in auto)
    then have "\<not> inside e 32 x" using that(1) by blast
    then have "m4 x = m1 x" using pad(3) m2(3) that(1) by (auto simp: m4_def st8_at inside_def)
    then show ?thesis using that by (simp add: blit_def m1_def fill_def)
  qed
  ultimately show ?thesis using res by blast
qed

lemma memcpy_other: "cnt < 2 ^ 32 \<Longrightarrow> \<not> inside d (nat cnt) x \<Longrightarrow> snd (memcpy m d s cnt) x = m x"
  by (auto simp: memcpy_def inside_def unat_of_nat_lt intro!: fold_st8_other)

text \<open>The short name only touches its entry and the local array.\<close>

lemma vali_loop_cstr:
  assumes "cstr m a bs" "\<forall>b\<in>set bs. unat b < 128" "length bs \<le> 2147483647" "i \<le> length bs"
  shows "vali_loop m a i = Some True"
  using assms(4)
proof (induction "length bs - i" arbitrary: i)
  case 0
  then show ?case using assms(1,3) by (subst vali_loop.simps) (simp add: cstr_iff)
next
  case (Suc d)
  then have "i < length bs" by simp
  then have "m (a + of_nat i) = bs ! i" "unat (bs ! i) < 128" using assms(1,2) by (simp_all add: cstr_iff)
  moreover have "vali_loop m a (Suc i) = Some True" using Suc by simp
  ultimately show ?case using \<open>i < length bs\<close> assms(3) by (subst vali_loop.simps) simp
qed

lemma strchr_loop_result:
  "strchr_loop m a ch n i = NULL \<or> (\<exists>j<n. strchr_loop m a ch n i = a + of_nat j)"
proof (induction m a ch n i rule: strchr_loop.induct)
  case (1 m a ch n i)
  then show ?case by (subst (1 2) strchr_loop.simps) auto
qed

lemma strchr_result:
  assumes "cstr m a bs" "a \<noteq> NULL" "length bs < 2147483647"
  shows "\<exists>c. strchr m a ch = Some c \<and> (c = NULL \<or> (\<exists>j<length bs. c = a + of_nat j))"
  using strlen_cstr [OF assms] strchr_loop_result [of m a ch "length bs" 0] by (auto simp: strchr_def)

lemma crt_sfn_pad:
  assumes s: "cstr m name bs" "length bs \<le> 247" and nn: "name \<noteq> NULL"
    and ap: "apart name (Suc (length bs)) pad 12"
  shows "\<exists>m'. fat_crt_sfn_raw m pad name sfn = Some (0, m') \<and> (\<forall>x. \<not> inside pad 12 x \<longrightarrow> \<not> inside sfn 11 x \<longrightarrow> m' x = m x)"
proof -
  let ?n = "length bs"
  define good where "good m' \<longleftrightarrow> (\<forall>x. \<not> inside pad 12 x \<longrightarrow> m' x = m x) \<and> m' (pad + of_nat 11) = 0" for m'
  have stop: "m' (name + of_nat j + of_nat (?n - j)) = 0" if "good m'" "j \<le> ?n" for m' j
  proof -
    have "inside name (Suc ?n) (name + of_nat ?n)" using s(2) by (intro inside_add) simp_all
    then have "\<not> inside pad 12 (name + of_nat ?n)" by (rule apart_inside [OF ap])
    then have "m' (name + of_nat ?n) = 0" using that(1) s(1) by (simp add: good_def cstr_iff)
    moreover have "name + of_nat j + of_nat (?n - j) = name + of_nat ?n"
      by (simp only: add.assoc of_nat_add [symmetric] le_add_diff_inverse that(2))
    ultimately show ?thesis by (simp only:)
  qed
  define m2 where "m2 = st8 (snd (memset m pad 0x20 12)) (pad + 11) 0"
  have g2: "good m2" by (auto simp: good_def m2_def st8_at fill_def inside_def)
  have copy: "\<exists>p m''. strncpy m' (pad + of_nat d) (name + of_nat j) cnt = Some (p, m'') \<and> good m''"
    if g: "good m'" "j \<le> ?n" and d: "d + nat cnt \<le> 11" for m' d j cnt
  proof -
    have "nat cnt \<le> 11" "?n - j < 2147483647" using d s(2) by linarith+
    moreover then have "cnt < 2 ^ 32" by (simp add: nat_le_iff)
    ultimately obtain p m'' where m'': "strncpy m' (pad + of_nat d) (name + of_nat j) cnt = Some (p, m'')"
      "\<forall>x. \<not> inside (pad + of_nat d) (nat cnt) x \<longrightarrow> m'' x = m' x"
      using strncpy_bound [where m = m' and src = "name + of_nat j" and k = "?n - j" and cnt = cnt and dst = "pad + of_nat d"]
        stop [OF g] d s(2) by auto
    have "\<not> inside (pad + of_nat d) (nat cnt) (pad + of_nat 11)"
    proof -
      have "pad + of_nat 11 - (pad + of_nat d) = (of_nat (11 - d) :: u32)" using d by (simp add: of_nat_diff)
      moreover have "unat (of_nat (11 - d) :: u32) = 11 - d" by (rule unat_of_nat_lt) simp
      ultimately show ?thesis unfolding inside_def using d by (metis add_le_imp_le_diff add.commute leD)
    qed
    moreover have "inside pad 12 x" if "inside (pad + of_nat d) (nat cnt) x" for x
      using that by (rule inside_offset) (use \<open>d + nat cnt \<le> 11\<close> in auto)
    ultimately have "good m''" using m''(2) g(1) unfolding good_def by metis
    then show ?thesis using m''(1) by blast
  qed
  have len: "\<exists>l. strlen m' (name + of_nat j) = Some l \<and> 0 \<le> l" if "good m'" "j \<le> ?n" for m' j
  proof -
    have "?n - j < 2147483647" using s(2) by linarith
    then show ?thesis
      using strlen_bound [where m = m' and a = "name + of_nat j" and k = "?n - j"] stop [OF that] by blast
  qed
  obtain c where c: "strchr m name 46 = Some c" "c = NULL \<or> (\<exists>j<?n. c = name + of_nat j)"
    using strchr_result [OF s(1) nn, of 46] s(2) by auto
  define dot where "dot = (if c \<noteq> NULL then to_s32 (c - name) else -1)"
  obtain m3 where m3: "(if dot > -1 then do {
             (p, m) \<leftarrow> strncpy m2 pad name (c_min dot 8);
             n \<leftarrow> strlen m (name + to_u32 dot + 1);
             (p, m) \<leftarrow> strncpy m (pad + 8) (name + to_u32 dot + 1) (c_min n 3);
             Some m }
           else do {
             n \<leftarrow> strlen m2 name;
             (p, m) \<leftarrow> strncpy m2 pad name (if n \<ge> F32_SFN_LEN then F32_SFN_LEN else n);
             Some m }) = Some m3" and g3: "good m3"
  proof (cases "c = NULL")
    case True
    obtain l where l: "strlen m2 name = Some l" "0 \<le> l" using len [OF g2, of 0] by auto
    obtain p m3 where "strncpy m2 pad name (if l \<ge> F32_SFN_LEN then F32_SFN_LEN else l) = Some (p, m3)" "good m3"
      using copy [OF g2, of 0 0 "if l \<ge> F32_SFN_LEN then F32_SFN_LEN else l"]
      by (cases "F32_SFN_LEN \<le> l") (auto simp: nat_le_iff)
    then show ?thesis using True l that by (simp add: dot_def)
  next
    case False
    then obtain j where j: "j < ?n" "c = name + of_nat j" using c(2) by blast
    then have dot: "dot = int j" "to_u32 (int j) = of_nat j" using s(2) False by (simp_all add: dot_def to_u32_def)
    obtain p m3 where m3: "strncpy m2 pad name (c_min (int j) 8) = Some (p, m3)" "good m3"
      using copy [OF g2, of 0 0 "c_min (int j) 8"] by (auto simp: nat_le_iff min_le_iff_disj)
    have e: "name + of_nat j + 1 = name + of_nat (Suc j)" by (simp add: add.assoc)
    obtain l where l: "strlen m3 (name + of_nat (Suc j)) = Some l" "0 \<le> l" using len [OF m3(2), of "Suc j"] j(1) by auto
    obtain q m4 where "strncpy m3 (pad + of_nat 8) (name + of_nat (Suc j)) (c_min l 3) = Some (q, m4)" "good m4"
      using copy [OF m3(2), of "Suc j" 8 "c_min l 3"] j(1)
      by (auto simp: nat_le_iff min_le_iff_disj le_diff_conv2)
    then show ?thesis using m3(1) l(1) that unfolding dot by (simp add: e del: of_nat_Suc)
  qed
  obtain p m5 where m5: "strncpy m3 sfn pad F32_SFN_LEN = Some (p, m5)" "\<forall>x. \<not> inside sfn 11 x \<longrightarrow> m5 x = m3 x"
    using strncpy_bound [where m = m3 and src = pad and k = 11 and cnt = 11 and dst = sfn] g3 by (auto simp: good_def)
  have "fat_crt_sfn_raw m pad name sfn = Some (0, m5)"
    unfolding fat_crt_sfn_raw_def c(1) bind.bind_lunit Let_def dot_def [symmetric] m2_def [symmetric] m3 m5(1) by simp
  then show ?thesis using m5(2) g3 by (auto simp: good_def)
qed

lemma crt_sfn:
  assumes s: "cstr m (f_name file) bs" "\<forall>b\<in>set bs. unat b < 128" "length bs \<le> 247"
    and nn: "f_name file \<noteq> NULL"
    and ap: "apart (f_name file) (Suc (length bs)) pad 12"
  shows "\<exists>m'. fat_crt_sfn m pad file sfn = Some (0, m') \<and> (\<forall>x. \<not> inside pad 12 x \<longrightarrow> \<not> inside sfn 32 x \<longrightarrow> m' x = m x)"
proof -
  obtain m' where m': "fat_crt_sfn_raw m pad (f_name file) sfn = Some (0, m')"
    "\<forall>x. \<not> inside pad 12 x \<longrightarrow> \<not> inside sfn 11 x \<longrightarrow> m' x = m x"
    using crt_sfn_pad [OF s(1,3) nn ap] by blast
  moreover have "vali_loop m (f_name file) 0 = Some True" by (rule vali_loop_cstr [OF s(1,2)]) (use s(3) in auto)
  ultimately have "fat_crt_sfn m pad file sfn = Some (0, st8 m' (sfn + 11) (ucast (ld32 m' (f_attr file))))"
    using nn by (simp add: fat_crt_sfn_def fat_vali_sfn_def)
  moreover have "st8 m' (sfn + 11) b x = m x" if "\<not> inside pad 12 x" "\<not> inside sfn 32 x" for x b
    using m'(2) that by (auto simp: st8_at inside_def)
  ultimately show ?thesis by blast
qed

lemma comb_loop:
  assumes "32 * n < 2 ^ 31" "unat lfns + 32 * n \<le> 2 ^ 32" "unat de + 32 * Suc n \<le> 2 ^ 32" "lfns \<noteq> NULL" "de \<noteq> NULL"
    and ap: "apart lfns (32 * n) de (32 * Suc n)" and "t \<le> n"
  shows "(\<forall>i<t. \<forall>p<32. fold (\<lambda>i m. snd (memcpy m (de + of_nat (32 * i)) (lfns + of_nat (32 * (n - i - 1))) 32)) [0..<t] m
             (de + of_nat (32 * i) + of_nat p) = m (lfns + of_nat (32 * (n - i - 1)) + of_nat p))
    \<and> (\<forall>x. \<not> inside de (32 * t) x \<longrightarrow>
        fold (\<lambda>i m. snd (memcpy m (de + of_nat (32 * i)) (lfns + of_nat (32 * (n - i - 1))) 32)) [0..<t] m x = m x)"
  using assms(7)
proof (induction t)
  case (Suc t)
  define M where "M = fold (\<lambda>i m. snd (memcpy m (de + of_nat (32 * i)) (lfns + of_nat (32 * (n - i - 1))) 32)) [0..<t] m"
  define d where "d = de + of_nat (32 * t)"
  define s where "s = lfns + of_nat (32 * (n - t - 1))"
  have IH: "\<And>i p. i < t \<Longrightarrow> p < 32 \<Longrightarrow> M (de + of_nat (32 * i) + of_nat p) = m (lfns + of_nat (32 * (n - i - 1)) + of_nat p)"
    "\<And>x. \<not> inside de (32 * t) x \<Longrightarrow> M x = m x"
    using Suc unfolding M_def by auto
  have "apart s 32 d 32" unfolding s_def d_def by (rule apart_sub [OF ap]) (use Suc.prems assms(1) in auto)
  then have ap': "apart d (nat 32) s (nat 32)" using apart_sym by simp
  have "d \<noteq> NULL" unfolding d_def by (rule offset_nonnull [OF assms(5,3)]) (use Suc.prems in simp)
  moreover have "s \<noteq> NULL" unfolding s_def by (rule offset_nonnull [OF assms(4,2)]) (use Suc.prems in simp)
  ultimately have "snd (memcpy M d s 32) = blit M d s 32" using memcpy_eq [OF _ _ _ _ ap', of M] by simp
  then have step: "fold (\<lambda>i m. snd (memcpy m (de + of_nat (32 * i)) (lfns + of_nat (32 * (n - i - 1))) 32)) [0..<Suc t] m = blit M d s 32"
    unfolding M_def d_def s_def by simp
  have src: "M (s + of_nat p) = m (s + of_nat p)" if "p < 32" for p
  proof (rule IH(2))
    have "inside s 32 (s + of_nat p)" using that by (intro inside_add) simp_all
    then have "inside lfns (32 * n) (s + of_nat p)"
      unfolding s_def by (rule inside_offset) (use Suc.prems assms(1) in auto)
    then have "\<not> inside de (32 * Suc n) (s + of_nat p)" by (rule apart_inside [OF ap])
    then show "\<not> inside de (32 * t) (s + of_nat p)" using Suc.prems by (auto simp: inside_def)
  qed
  have old: "\<not> inside d 32 (de + of_nat (32 * i) + of_nat p)" if "i < t" "p < 32" for i p
  proof -
    have "apart (de + of_nat (32 * i)) 32 d 32" unfolding d_def by (rule apart_offsets) (use that Suc.prems assms(1) in auto)
    moreover have "inside (de + of_nat (32 * i)) 32 (de + of_nat (32 * i) + of_nat p)"
      using that(2) by (intro inside_add) simp_all
    ultimately show ?thesis by (rule apart_inside)
  qed
  show ?case
    unfolding step
  proof (intro conjI allI impI)
    fix i p assume i: "i < Suc t" and p: "p < (32 :: nat)"
    show "blit M d s 32 (de + of_nat (32 * i) + of_nat p) = m (lfns + of_nat (32 * (n - i - 1)) + of_nat p)"
    proof (cases "i = t")
      case True
      have "inside d 32 (d + of_nat p)" using p by (intro inside_add) simp_all
      then show ?thesis using src [OF p] unfolding True d_def [symmetric] s_def [symmetric] by (simp add: blit_def)
    next
      case False
      then have "i < t" using i by simp
      then show ?thesis using IH(1) [OF _ p, of i] blit_other [OF old [OF _ p], of i M s] by (simp only:)
    qed
  next
    fix x assume x: "\<not> inside de (32 * Suc t) x"
    have "inside de (32 * Suc t) x" if "inside d 32 x"
      using that unfolding d_def by (rule inside_offset) (use Suc.prems assms(1) in auto)
    moreover have "\<not> inside de (32 * t) x" using x by (auto simp: inside_def)
    ultimately show "blit M d s 32 x = m x" using x IH(2) by (auto simp: blit_def)
  qed
qed simp

text \<open>
  The string, the local arrays and the entries are apart from each other, none at address 0 and none
  over the end of memory.
\<close>

definition f2e_ok :: "fat_locals \<Rightarrow> addr \<Rightarrow> u8 list \<Rightarrow> addr \<Rightarrow> bool" where
  "f2e_ok l name bs de \<longleftrightarrow>
     (let k = entries bs;
          rs = [(name, Suc (length bs)), (l_pad l, 12), (l_tmps l, 32 * k), (l_lfns l, 32 * k), (l_sfn l, 32), (de, 32 * Suc k)]
      in (\<forall>(a, n)\<in>set rs. a \<noteq> NULL \<and> unat a + n \<le> 2 ^ 32) \<and> sorted_wrt (\<lambda>(a, n) (b, k). apart a n b k) rs)"

lemma cstr_keep:
  assumes "cstr m a bs" "length bs < 2 ^ 31" "\<And>x. inside a (Suc (length bs)) x \<Longrightarrow> m' x = m x"
  shows "cstr m' a bs"
proof (rule iffD1 [OF cstr_cong assms(1)])
  show "m x = m' x" if "inside a (Suc (length bs)) x" for x using assms(3) [OF that] by simp
qed (use assms(2) in simp)

lemma conv_f2e:
  fixes bs l de
  defines "k \<equiv> entries bs"
  assumes s: "cstr m (f_name file) bs" "bs \<noteq> []" "\<forall>b\<in>set bs. unat b < 128" "length bs \<le> 247"
    and ok: "f2e_ok l (f_name file) bs de"
  shows "\<exists>m'. fat_conv_f2e l m de file = Some (int k + 1, m') \<and> holds_name m' de bs"
proof -
  let ?n = "length bs" and ?name = "f_name file"
  have k: "0 < k" "k < 20" using s(2,4) by (cases bs; auto simp: k_def)+
  note ok = ok [unfolded f2e_ok_def Let_def, folded k_def, simplified]
  have sl: "strlen m ?name = Some (int ?n)" using s ok by (intro strlen_cstr) auto
  have num: "fat_get_lfns (to_u32 (int ?n)) = int k" using get_lfns [of ?n] s(4) by (simp add: k_def)
  define m1 where "m1 = snd (memset (snd (memset m (l_lfns l) 0 (32 * int k))) (l_sfn l) 0 32)"
  have m1: "m1 x = m x" if "\<not> inside (l_lfns l) (32 * k) x" "\<not> inside (l_sfn l) 32 x" for x
    using memset_eq [of "32 * int k" m "l_lfns l" 0] k that by (simp add: m1_def fill_def nat_mult_distrib)
  have out: "\<not> inside (l_lfns l) (32 * k) x" "\<not> inside (l_sfn l) 32 x" "\<not> inside (l_pad l) 12 x"
    if "inside ?name (Suc ?n) x" for x
    using ok that by (auto dest: apart_inside)
  have s1: "cstr m1 ?name bs" by (rule cstr_keep [OF s(1)]) (use s(4) out m1 in auto)
  obtain m2 where m2: "fat_crt_sfn m1 (l_pad l) file (l_sfn l) = Some (0, m2)"
    "\<forall>x. \<not> inside (l_pad l) 12 x \<longrightarrow> \<not> inside (l_sfn l) 32 x \<longrightarrow> m2 x = m1 x"
    using crt_sfn [OF s1 s(3,4), of "l_pad l" "l_sfn l"] ok by auto
  have s2: "cstr m2 ?name bs" by (rule cstr_keep [OF s1]) (use s(4) out m2(2) in auto)
  obtain m3 where m3: "fat_crt_lfn m2 (l_tmps l) ?name (m2 (f_crc file)) (l_lfns l) = Some (0, m3)"
    "\<forall>i<k. lfn_at m3 (l_lfns l + of_nat (32 * i)) bs i"
    using crt_lfn [OF s2 s(2,4), of "l_lfns l" "l_tmps l" "m2 (f_crc file)"] ok apart_sym unfolding k_def by auto
  define clus where "clus = ld32 m3 (ld32 m3 (f_clus file))"
  define m4 where "m4 = st16 (st16 m3 (l_sfn l + 20) (ucast (drop_bit 16 clus))) (l_sfn l + 26) (ucast clus)"
  have m4: "m4 x = m3 x" if "inside (l_lfns l) (32 * k) x" for x
  proof -
    have "\<not> inside (l_sfn l) 32 x" using ok that by (auto dest: apart_inside)
    then have "\<not> inside (l_sfn l + of_nat 20) 2 x" "\<not> inside (l_sfn l + of_nat 26) 2 x"
      using inside_offset [of "l_sfn l" 20 2 x 32] inside_offset [of "l_sfn l" 26 2 x 32] by auto
    then show ?thesis by (simp add: m4_def st16_other)
  qed
  define m5 where "m5 = fold (\<lambda>i m. snd (memcpy m (de + of_nat (32 * i)) (l_lfns l + of_nat (32 * (k - i - 1))) 32)) [0..<k] m4"
  define m6 where "m6 = snd (memcpy m5 (de + of_nat (32 * k)) (l_sfn l) 32)"
  have res: "fat_conv_f2e l m de file = Some (int k + 1, m6)"
    unfolding fat_conv_f2e_def sl num bind.bind_lunit Let_def m1_def [symmetric] m2(1) m3(1) prod.case fat_comb_def nat_int
    by (simp only: prod.case bind.bind_lunit m3(1) clus_def [symmetric] m4_def [symmetric] m5_def [symmetric] m6_def [symmetric] snd_conv)
  have "lfn_at m6 (de + of_nat (32 * (k - Suc i))) bs i" if i: "i < k" for i
  proof (rule iffD2 [OF lfn_at_cong])
    show "lfn_at m3 (l_lfns l + of_nat (32 * i)) bs i" using m3(2) i by simp
    fix p :: nat assume p: "p < 32"
    let ?a = "de + of_nat (32 * (k - Suc i)) + of_nat p"
    have "apart (de + of_nat (32 * (k - Suc i))) 32 (de + of_nat (32 * k)) 32"
      by (rule apart_offsets) (use i k in auto)
    moreover have "inside (de + of_nat (32 * (k - Suc i))) 32 ?a" using p by (intro inside_add) simp_all
    ultimately have "\<not> inside (de + of_nat (32 * k)) 32 ?a" by (rule apart_inside)
    then have "m6 ?a = m5 ?a" by (simp add: m6_def memcpy_other del: of_nat_mult)
    also have "\<dots> = m4 (l_lfns l + of_nat (32 * (k - (k - Suc i) - 1)) + of_nat p)"
      using comb_loop [where n = k and t = k and m = m4 and lfns = "l_lfns l" and de = de] ok k i p
      unfolding m5_def by (auto simp del: of_nat_mult of_nat_diff)
    also have "k - (k - Suc i) - 1 = i" using i by simp
    also have "inside (l_lfns l) (32 * k) (l_lfns l + of_nat (32 * i) + of_nat p)"
    proof (rule inside_offset)
      show "inside (l_lfns l + of_nat (32 * i)) 32 (l_lfns l + of_nat (32 * i) + of_nat p)"
        using p by (intro inside_add) simp_all
    qed (use i k in auto)
    then have "m4 (l_lfns l + of_nat (32 * i) + of_nat p) = m3 (l_lfns l + of_nat (32 * i) + of_nat p)" by (rule m4)
    finally show "m6 ?a = m3 (l_lfns l + of_nat (32 * i) + of_nat p)" .
  qed
  then have "holds_name m6 de bs" by (simp add: holds_name_def k_def)
  with res show ?thesis by blast
qed

subsection \<open>Decoding\<close>

lemma fold_nested: "fold (\<lambda>i. fold (h i) ys) xs m = fold (\<lambda>(i, j). h i j) (List.product xs ys) m"
  by (induction xs arbitrary: m) (simp_all add: fold_map o_def)

lemma parse_lfn:
  fixes bs base
  defines "k \<equiv> entries bs"
  assumes h: "holds_name m base bs" and n: "bs \<noteq> []" "length bs \<le> 247" "0 \<notin> set bs"
    and z: "13 dvd length bs \<Longrightarrow> m (name + of_nat (length bs)) = 0"
    and nn: "tmp \<noteq> NULL" "name \<noteq> NULL"
    and ap: "apart base (32 * k) tmp 256" "apart name (Suc (13 * k)) tmp 256"
  shows "\<exists>m'. fat_parse_lfn m tmp base (int k) name = Some (0, m') \<and> cstr m' name bs"
proof -
  let ?n = "length bs"
  have k: "0 < k" "k < 20" "?n \<le> 13 * k" "13 * (k - 1) < ?n" using n(1,2) by (cases bs; auto simp: k_def)+
  define m1 where "m1 = snd (memset m tmp 0 256)"
  have m1: "m1 x = m x" if "\<not> inside tmp 256 x" for x using that by (simp add: m1_def fill_def)
  define ent where "ent = base + to_u32 ((int k - 1) * 32)"
  have ent: "ent - of_nat (32 * i) = base + of_nat (32 * (k - Suc i))" if "i < k" for i
  proof -
    have "to_u32 ((int k - 1) * 32) = of_nat (32 * (k - 1))" using k(1) by (simp add: to_u32_def of_nat_diff)
    moreover have "32 * (k - 1) = 32 * (k - Suc i) + 32 * i" using that by simp
    ultimately show ?thesis by (simp only: ent_def of_nat_add) simp
  qed
  define f where "f = (\<lambda>(i, j). tmp + of_nat (13 * i + j))"
  define g where "g = (\<lambda>m :: mem. \<lambda>(i, j). m (ent - of_nat (32 * i) + of_nat (lfn_ost ! j)))"
  define ps where "ps = List.product [0..<k] [0..<13]"
  define m2 where "m2 = fold (\<lambda>p m. st8 m (f p) (g m p)) ps m1"
  have fp: "inside tmp 256 (f p)" if "p \<in> set ps" for p
    using that k(2) unfolding f_def ps_def by (auto simp: inside_def unat_of_nat_lt simp del: of_nat_add of_nat_mult)
  have at: "m2 (tmp + of_nat (13 * i + j)) = lfn_byte bs (13 * i + j)" if "i < k" "j < 13" for i j
  proof -
    have "m2 (f (i, j)) = (\<lambda>(i, j). lfn_byte bs (13 * i + j)) (i, j)"
      unfolding m2_def
    proof (rule fold_st8(1))
      show "inj_on f (set ps)"
      proof (rule inj_onI)
        fix p q assume pq: "p \<in> set ps" "q \<in> set ps" "f p = f q"
        obtain i j i' j' where e: "p = (i, j)" "q = (i', j')" by (cases p; cases q)
        have b: "i < 20" "i' < 20" "j < 13" "j' < 13" using pq(1,2) k(2) by (auto simp: ps_def e)
        then have eq: "13 * i + j = 13 * i' + j'"
          using pq(3) offset_inj [of "13 * i + j" "13 * i' + j'" tmp] by (simp add: f_def e del: of_nat_add of_nat_mult)
        have "i = (13 * i + j) div 13" "i' = (13 * i' + j') div 13" using b by simp_all
        then have "i = i'" unfolding eq by simp
        then show "p = q" using eq by (simp add: e)
      qed
      show "g m' p = (\<lambda>(i, j). lfn_byte bs (13 * i + j)) p"
        if p: "p \<in> set ps" and m': "\<forall>x. x \<notin> f ` set ps \<longrightarrow> m' x = m1 x" for m' p
      proof -
        obtain i j where ij: "p = (i, j)" by (cases p)
        have e: "p = (i, j)" "i < k" "j < 13" using p by (auto simp: ps_def ij)
        let ?e = "base + of_nat (32 * (k - Suc i))"
        have "inside ?e 32 (?e + of_nat (lfn_ost ! j))" using lfn_ost_lt [OF e(3)] by (intro inside_add) simp_all
        then have "inside base (32 * k) (?e + of_nat (lfn_ost ! j))" by (rule inside_offset) (use e(2) k(2) in auto)
        then have o: "\<not> inside tmp 256 (?e + of_nat (lfn_ost ! j))" by (rule apart_inside [OF ap(1)])
        then have "?e + of_nat (lfn_ost ! j) \<notin> f ` set ps" using fp by force
        then have "m' (?e + of_nat (lfn_ost ! j)) = m (?e + of_nat (lfn_ost ! j))" using m' m1 [OF o] by simp
        also have "\<dots> = lfn_byte bs (13 * i + j)"
          using h e(2,3) unfolding holds_name_def lfn_at_def k_def by blast
        finally show ?thesis unfolding g_def e(1) prod.case ent [OF e(2)] .
      qed
    qed (use that in \<open>auto simp: ps_def distinct_product\<close>)
    then show ?thesis by (simp add: f_def)
  qed
  have chars: "m2 (tmp + of_nat p) = lfn_byte bs p" if "p < 13 * k" for p
    using at [of "p div 13" "p mod 13"] that by (simp add: less_mult_imp_div_less mult.commute del: of_nat_add of_nat_mult)
  have other: "m2 x = m x" if "\<not> inside tmp 256 x" for x
  proof -
    have "m2 x = m1 x" unfolding m2_def by (rule fold_st8_other) (use fp that in blast)
    then show ?thesis using m1 [OF that] by simp
  qed
  have "apart name (13 * k) tmp (13 * k)" using ap(2) k(2) by (auto simp: apart_def)
  then have mc: "snd (memcpy m2 name tmp (int (13 * k))) = blit m2 name tmp (13 * k)"
    using memcpy_eq [of name tmp "int (13 * k)" m2] nn k by (simp only: nat_int) simp
  have res: "fat_parse_lfn m tmp base (int k) name = Some (0, blit m2 name tmp (13 * k))"
    using mc k(2) by (simp add: fat_parse_lfn_def Let_def m2_def ps_def f_def g_def m1_def ent_def fold_nested
      case_prod_beta' mult.commute)
  have copy: "blit m2 name tmp (13 * k) (name + of_nat p) = lfn_byte bs p" if "p < 13 * k" for p
  proof -
    have "inside name (13 * k) (name + of_nat p)" using that k(2) by (intro inside_add) simp_all
    then show ?thesis using chars [OF that] by (simp add: blit_def)
  qed
  have "blit m2 name tmp (13 * k) (name + of_nat ?n) = 0"
  proof (cases "?n = 13 * k")
    case True
    have "inside name (Suc (13 * k)) (name + of_nat ?n)" unfolding True using k(2) by (intro inside_add) simp_all
    then have "\<not> inside tmp 256 (name + of_nat ?n)" by (rule apart_inside [OF ap(2)])
    then have "m2 (name + of_nat ?n) = 0" using other z True by simp
    moreover have "\<not> inside name (13 * k) (name + of_nat ?n)"
      unfolding True using k(2) unat_of_nat_lt [of "13 * k"] by (simp add: inside_def del: of_nat_mult)
    ultimately show ?thesis by (simp add: blit_other)
  next
    case False
    then show ?thesis using copy [of ?n] k(3) by (simp add: lfn_byte_def)
  qed
  moreover have "blit m2 name tmp (13 * k) (name + of_nat p) = bs ! p" if "p < ?n" for p
    using copy [of p] that k(3) by (simp add: lfn_byte_def)
  ultimately have "cstr (blit m2 name tmp (13 * k)) name bs" unfolding cstr_iff using n(3) by blast
  then show ?thesis using res by blast
qed

lemma last_ord:
  assumes "0 < k" "k < 64"
  shows "lfn_ord k (k - 1) AND FAT_LAST_LONG_ENTRY = FAT_LAST_LONG_ENTRY" "unat (lfn_ord k (k - 1) AND 0xBF) = k"
proof -
  have "\<forall>k\<in>set [1..<64]. ((of_nat k OR 0x40 :: u8) AND 0x40) = 0x40 \<and> unat ((of_nat k OR 0x40 :: u8) AND 0xBF) = k"
    by code_simp
  then have "((of_nat k OR 0x40 :: u8) AND 0x40) = 0x40 \<and> unat ((of_nat k OR 0x40 :: u8) AND 0xBF) = k"
    using assms by auto
  then show "lfn_ord k (k - 1) AND FAT_LAST_LONG_ENTRY = FAT_LAST_LONG_ENTRY" "unat (lfn_ord k (k - 1) AND 0xBF) = k"
    using assms(1) by (auto simp: lfn_ord_def)
qed

end
