(* ===== verification/Stack.thy ===== *)
theory Stack
  imports Prelude
begin

text \<open>
  \<open>stack.c\<close>: stacks of pointers in memory.  \<open>STK_EMPTY\<close> is -1 in an unsigned \<open>top\<close>.  \<open>mm_alloc\<close> has an
  empty body, so the pointer it returns is a parameter.  A \<open>struct stack *\<close> is an option.
\<close>

abbreviation STK_EMPTY :: u32 where "STK_EMPTY \<equiv> 0xFFFFFFFF"

record stack =
  top :: u32
  stk :: addr

text \<open>The boolean tells whether the result is the stack or \<open>NULL\<close>.\<close>

definition stack_init :: "addr \<Rightarrow> stack option \<Rightarrow> int \<Rightarrow> bool \<times> stack option" where
  "stack_init mm_alloc ptr sz =
     (case ptr of
        None \<Rightarrow> (False, None)
      | Some p \<Rightarrow>
          if sz < 1 then (False, Some p)
          else
            let p = p\<lparr>stk := mm_alloc\<rparr>
            in if stk p = NULL then (False, Some p) else (True, Some (p\<lparr>top := STK_EMPTY\<rparr>)))"

definition stack_pop :: "mem \<Rightarrow> stack option \<Rightarrow> addr \<times> stack option" where
  "stack_pop m ptr =
     (case ptr of
        None \<Rightarrow> (NULL, None)
      | Some p \<Rightarrow>
          if stk p = NULL then (NULL, Some p)
          else if top p = STK_EMPTY then (NULL, Some p)
          else (ld32 m (stk p + 4 * top p), Some (p\<lparr>top := top p - 1\<rparr>)))"

definition stack_push :: "mem \<Rightarrow> stack option \<Rightarrow> addr \<Rightarrow> addr \<times> stack option \<times> mem" where
  "stack_push m ptr data =
     (case ptr of
        None \<Rightarrow> (NULL, None, m)
      | Some p \<Rightarrow>
          if stk p = NULL then (NULL, Some p, m)
          else if data = NULL then (NULL, Some p, m)
          else
            let p = p\<lparr>top := top p + 1\<rparr>
            in (data, Some p, st32 m (stk p + 4 * top p) data))"

text \<open>\<open>stack_peek\<close> takes the index 0, which is the first element, for the empty stack.\<close>

definition stack_peek :: "mem \<Rightarrow> stack option \<Rightarrow> addr" where
  "stack_peek m ptr =
     (case ptr of
        None \<Rightarrow> NULL
      | Some p \<Rightarrow>
          if stk p = NULL then NULL
          else if top p = 0 then NULL
          else ld32 m (stk p + 4 * top p))"

subsection \<open>The sequence a stack stands for\<close>

text \<open>The last element is on top.\<close>

definition stack_holds :: "mem \<Rightarrow> stack \<Rightarrow> addr list \<Rightarrow> bool" where
  "stack_holds m p xs \<longleftrightarrow> stk p \<noteq> NULL \<and> top p = of_nat (length xs) - 1 \<and> length xs < 2 ^ 30
     \<and> (\<forall>i<length xs. ld32 m (stk p + 4 * of_nat i) = xs ! i)"

lemma slots_apart: "i < j \<Longrightarrow> j < 2 ^ 30 \<Longrightarrow> apart (a + 4 * of_nat i) 4 (a + 4 * of_nat j) 4"
  using apart_offsets [of "4 * i" 4 "4 * j" 4 a] by simp

lemma stack_push_holds:
  assumes h: "stack_holds m p xs" and x: "x \<noteq> NULL" and room: "Suc (length xs) < 2 ^ 30"
  shows "\<exists>p' m'. stack_push m (Some p) x = (x, Some p', m') \<and> stack_holds m' p' (xs @ [x])"
proof -
  let ?n = "length xs"
  let ?m = "st32 m (stk p + 4 * of_nat ?n) x"
  have "ld32 ?m (stk p + 4 * of_nat i) = (xs @ [x]) ! i" if "i < Suc ?n" for i
  proof (cases "i = ?n")
    case False
    then have "apart (stk p + 4 * of_nat i) 4 (stk p + 4 * of_nat ?n) 4" using slots_apart that room by simp
    then show ?thesis using h that False by (simp add: ld32_st32_apart nth_append stack_holds_def)
  qed simp
  then show ?thesis using h x room by (simp add: stack_push_def stack_holds_def Let_def)
qed

lemma stack_pop_holds:
  assumes "stack_holds m p (xs @ [x])"
  shows "\<exists>p'. stack_pop m (Some p) = (x, Some p') \<and> stack_holds m p' xs"
proof -
  have "top p = of_nat (length xs)" using assms by (simp add: stack_holds_def)
  moreover have "(of_nat (length xs) :: u32) \<noteq> 0xFFFFFFFF"
    using assms by (simp add: u32_eq_iff unat_of_nat_lt stack_holds_def)
  moreover have "ld32 m (stk p + 4 * of_nat (length xs)) = x" "\<forall>i<length xs. ld32 m (stk p + 4 * of_nat i) = xs ! i"
    using assms by (auto simp: stack_holds_def nth_append dest: spec [of _ "length xs"])
  ultimately show ?thesis using assms by (simp add: stack_pop_def stack_holds_def)
qed

lemma stack_pop_empty: "stack_holds m p [] \<Longrightarrow> stack_pop m (Some p) = (NULL, Some p)"
  by (simp add: stack_pop_def stack_holds_def)

text \<open>With one element \<open>stack_peek\<close> sees nothing; on the empty stack it reads below the first slot.\<close>

lemma stack_peek_single: "stack_holds m p [x] \<Longrightarrow> stack_peek m (Some p) = NULL"
  by (simp add: stack_peek_def stack_holds_def)

end
