(* ===== verification/Fat_Fs.thy ===== *)
theory Fat_Fs
  imports Fat Stack Ahci
begin

text \<open>
  The FAT file system proper (\<open>fs/fat.c\<close>): the information read from the boot sector, clusters, the
  FAT chain, files, directories and their tree, on the heap and the disk driver.  Where the code only
  reports an error (a bare \<open>err_dbg\<close>) it goes on; what it then does through a null pointer is
  undefined.  The functions that only print, or have an empty body, are left out.
\<close>

subsection \<open>State\<close>

record fat_info =
  ts :: u32
  tc :: u32
  bps :: u32
  spc :: u32
  ds :: u32
  fat_type :: u8
  ffs :: u32
  fsn :: u32
  rsn :: u32
  dfs :: u32
  dsn :: u32
  cfs :: u32
  csn :: u32
  lfn :: bool

record fat_region =
  r_nums :: u32
  r_frees :: u32
  r_bp :: addr
  r_cp :: addr
  r_bit :: bitmap

record fat_mem =
  fm_cd :: addr
  fm_f :: fat_region
  fm_c :: fat_region

text \<open>\<open>root_at\<close> is the address of the variable \<open>root\<close>.\<close>

record fat_state = machine +
  fat :: fat_info
  fmm :: fat_mem
  root_at :: addr
  sfn_inval_tbl :: "bool list"
  fstk :: stack
  mgr :: ahci_manager

text \<open>
  The hardware, what the functions of the driver leave as their result, the result of \<open>mm_alloc\<close>, the
  integers in memory behind the table \<open>sfn_inval\<close>, and the places of the local variables: the name of
  \<open>fat_set_dir\<close>, the table of \<open>fat_get_next_entry\<close>, the file of \<open>fat_crt_file\<close>, the files of
  \<open>fat_parse_dir\<close> and of \<open>fat_crt_dir_tree\<close>, and the string \<open>"$"\<close>.
\<close>

record fat_env =
  hw :: hardware
  junk :: int
  mm_alloc :: addr
  beyond :: "nat \<Rightarrow> int"
  locs :: fat_locals
  l_name :: addr
  l_table :: addr
  l_file :: addr
  l_files :: addr
  l_tree :: addr
  l_dollar :: addr

subsection \<open>Clusters on the disk\<close>

definition fat_read_dir_n :: "fat_env \<Rightarrow> int \<Rightarrow> int \<Rightarrow> addr \<Rightarrow> 'a fat_state_scheme \<Rightarrow> (int \<times> 'a fat_state_scheme) option" where
  "fat_read_dir_n e ost n from s =
     (if from = NULL then Some (-1, s)
      else if ost < -2 \<or> n < 1 then Some (-4, s)
      else ahci_read (hw e) (mgr s) (junk e) (ucast (cfs (fat s) + to_u32 ost)) (to_u32 n) from s)"

definition fat_read_dir :: "fat_env \<Rightarrow> int \<Rightarrow> addr \<Rightarrow> 'a fat_state_scheme \<Rightarrow> (int \<times> 'a fat_state_scheme) option" where
  "fat_read_dir e ost from s = fat_read_dir_n e ost (to_s32 (spc (fat s))) from s"

definition fat_write_dir :: "fat_env \<Rightarrow> int \<Rightarrow> addr \<Rightarrow> 'a fat_state_scheme \<Rightarrow> (int \<times> 'a fat_state_scheme) option" where
  "fat_write_dir e ost to s =
     ahci_write (hw e) (mgr s) (junk e) (ucast (cfs (fat s) + to_u32 ost)) (spc (fat s)) to s"

subsection \<open>The FAT\<close>

definition fat_offset :: "u8 list" where "fat_offset = [2, 2, 4, 0]"

definition fat_check_overflow :: "'a fat_state_scheme \<Rightarrow> u32 \<Rightarrow> u32 \<Rightarrow> int option" where
  "fat_check_overflow s cur_sec_num next_fat_entry = do {
     next_fsn \<leftarrow> udiv next_fat_entry (bps (fat s));
     Some (to_s32 next_fsn) }"

definition fat_entry_offset :: "'a fat_state_scheme \<Rightarrow> u32 \<Rightarrow> u32 option" where
  "fat_entry_offset s clus =
     (if unat (fat_type (fat s)) < 4 then Some (clus * ucast (fat_offset ! unat (fat_type (fat s)))) else None)"

text \<open>The bytes per sector go through a 16-bit variable.\<close>

definition fat_clus_to_sec :: "'a fat_state_scheme \<Rightarrow> u32 \<Rightarrow> int option" where
  "fat_clus_to_sec s clus = do {
     ost \<leftarrow> fat_entry_offset s clus;
     q \<leftarrow> udiv ost (ucast (ucast (bps (fat s)) :: u16));
     Some (to_s32 q) }"

definition fat_clus_to_byte :: "'a fat_state_scheme \<Rightarrow> u32 \<Rightarrow> int option" where
  "fat_clus_to_byte s clus = do {
     ost \<leftarrow> fat_entry_offset s clus;
     r \<leftarrow> umod ost (ucast (ucast (bps (fat s)) :: u16));
     Some (to_s32 r) }"

definition fat_write_fat_region :: "fat_env \<Rightarrow> u32 \<Rightarrow> addr \<Rightarrow> 'a fat_state_scheme \<Rightarrow> (int \<times> 'a fat_state_scheme) option" where
  "fat_write_fat_region e sec_num fat_table s = do {
     (r, s) \<leftarrow> ahci_write_sector (hw e) (mgr s) (junk e) (ucast (ffs (fat s) + sec_num)) fat_table s;
     Some (0, s) }"

definition fat_read_fat_region :: "fat_env \<Rightarrow> u32 \<Rightarrow> addr \<Rightarrow> 'a fat_state_scheme \<Rightarrow> (int \<times> 'a fat_state_scheme) option" where
  "fat_read_fat_region e sec_num fat_table s = do {
     (r, s) \<leftarrow> ahci_read_sector (hw e) (mgr s) (junk e) (ucast (ffs (fat s) + sec_num)) fat_table s;
     Some (0, s) }"

definition fat_update_table :: "fat_env \<Rightarrow> u32 \<Rightarrow> addr \<Rightarrow> 'a fat_state_scheme \<Rightarrow> (int \<times> 'a fat_state_scheme) option" where
  "fat_update_table e next_fsn fat_table s =
     (if next_fsn = 0 then Some (0, s) else fat_read_fat_region e next_fsn fat_table s)"

text \<open>The chain has 50 elements; its index starts uninitialised.  For any other type than FAT32 the loop never ends.\<close>

partial_function (option) chain_loop :: "fat_env \<Rightarrow> u32 \<Rightarrow> addr \<Rightarrow> u16 \<Rightarrow> u16 \<Rightarrow> u32 \<Rightarrow> 'a fat_state_scheme
    \<Rightarrow> (int \<times> 'a fat_state_scheme) option" where
  "chain_loop e fsec file bps16 ost i s =
     (if fat_type (fat s) = 2 then
        (if i \<ge> 50 then None
         else let next = ld32 (km s) (l_table e + ucast ost) AND 0x0FFFFFFF;
             s = s\<lparr>km := st32 (km s) (f_chain file + 4 * i) next\<rparr>
         in if next \<ge> 0x0FFFFFF8 \<and> next \<le> 0x0FFFFFFF then Some (0, s)
            else do {
              next_fsn \<leftarrow> fat_check_overflow s fsec next;
              (r, s) \<leftarrow> fat_update_table e (to_u32 next_fsn) (l_table e) s;
              o' \<leftarrow> umod next (ucast bps16);
              chain_loop e fsec file bps16 (ucast o') (i + 1) s })
      else chain_loop e fsec file bps16 ost i s)"

definition fat_get_next_entry :: "fat_env \<Rightarrow> u32 \<Rightarrow> u32 \<Rightarrow> addr \<Rightarrow> 'a fat_state_scheme \<Rightarrow> (int \<times> 'a fat_state_scheme) option" where
  "fat_get_next_entry e i clus file s = do {
     fsec \<leftarrow> fat_clus_to_sec s clus;
     b \<leftarrow> fat_clus_to_byte s clus;
     (r, s) \<leftarrow> fat_read_fat_region e (to_u32 fsec) (l_table e) s;
     chain_loop e (to_u32 fsec) file (ucast (bps (fat s))) (ucast (to_u32 b)) i s }"

text \<open>
  The file is a local variable; \<open>fat_read_data_region\<close> has an empty body, so what it returns is as
  unknown as what the function does, which has no return statement at its end.
\<close>

definition fat_search_clus_chains :: "fat_env \<Rightarrow> u32 \<Rightarrow> u32 \<Rightarrow> int \<Rightarrow> addr \<Rightarrow> 'a fat_state_scheme
    \<Rightarrow> (int \<times> 'a fat_state_scheme) option" where
  "fat_search_clus_chains e i clus rd_result file s = do {
     fsec \<leftarrow> fat_clus_to_sec s clus;
     if bps (fat s) = 0 then None
     else do {
       (err, s) \<leftarrow> fat_get_next_entry e i clus file s;
       if err < 0 then Some (err, s)
       else if rd_result < 0 then Some (rd_result, s)
       else Some (junk e, s) } }"

subsection \<open>Clusters in use\<close>

text \<open>The region is always \<open>fmm.c\<close>; a null \<open>file\<close> or a null cluster list is written through.\<close>

definition fat_set_clus :: "int \<Rightarrow> 'a fat_state_scheme \<Rightarrow> (int \<times> 'a fat_state_scheme) option" where
  "fat_set_clus ost s =
     (if ost < 0 then Some (-4, s)
      else do {
        (r, m) \<leftarrow> bitmap_set (km s) (Some (r_bit (fm_c (fmm s)))) (to_u32 ost) True;
        let s = s\<lparr>km := m\<rparr>;
        if r < 0 then Some (-7, s)
        else Some (0, s\<lparr>fmm := (fmm s)\<lparr>fm_c := (fm_c (fmm s))\<lparr>r_frees := r_frees (fm_c (fmm s)) - 1\<rparr>\<rparr>\<rparr>) })"

definition fat_alloc_clus :: "addr \<Rightarrow> 'a fat_state_scheme \<Rightarrow> (int \<times> 'a fat_state_scheme) option" where
  "fat_alloc_clus file s = do {
     ost \<leftarrow> bitmap_get_free (km s) (Some (r_bit (fm_c (fmm s))));
     if r_frees (fm_c (fmm s)) = 0 then Some (-12, s)
     else if file = NULL then None
     else do {
       (a, s) \<leftarrow> yalloc s 4;
       let s = s\<lparr>km := st32 (km s) (f_clus file) a\<rparr>;
       (r, m) \<leftarrow> bitmap_set (km s) (Some (r_bit (fm_c (fmm s)))) (to_u32 ost) True;
       if a = NULL then None
       else
         let s = s\<lparr>km := st32 m a (to_u32 ost)\<rparr>
         in Some (ost, s\<lparr>fmm := (fmm s)\<lparr>fm_c := (fm_c (fmm s))\<lparr>r_frees := r_frees (fm_c (fmm s)) - 1\<rparr>\<rparr>\<rparr>) } }"

definition fat_parse_clus :: "addr \<Rightarrow> int \<Rightarrow> 'a fat_state_scheme \<Rightarrow> (int \<times> 'a fat_state_scheme) option" where
  "fat_parse_clus file clus s =
     (if file = NULL then Some (-1, s)
      else do {
        s \<leftarrow> (if ld32 (km s) (f_clus file) = NULL then do {
                (a, s) \<leftarrow> yalloc s 4;
                Some (s\<lparr>km := st32 (km s) (f_clus file) a\<rparr>) }
              else Some s);
        let a = ld32 (km s) (f_clus file);
        if a = NULL then Some (-1, s)
        else if clus < -1 then Some (-4, s)
        else Some (0, s\<lparr>km := st32 (km s) a (to_u32 clus)\<rparr>) })"

subsection \<open>Directories on the disk\<close>

text \<open>The high half of the cluster is shifted as an \<open>int\<close>.\<close>

definition fat_conv_e2f :: "fat_env \<Rightarrow> addr \<Rightarrow> int \<Rightarrow> addr \<Rightarrow> 'a fat_state_scheme \<Rightarrow> (int \<times> 'a fat_state_scheme) option" where
  "fat_conv_e2f e base ost file s =
     (if base = NULL \<or> file = NULL then None
      else do {
        (r, m) \<leftarrow> fat_parse_name (km s) (l_tmp (locs e)) base ost file;
        let s = s\<lparr>km := m\<rparr>;
        let sfn = base + 32 * to_u32 ost;
        let s = s\<lparr>km := st32 (km s) (f_attr file) (ucast (km s (sfn + 11)))\<rparr>;
        let clus = to_s32 (push_bit 16 (ucast (ld16 (km s) (sfn + 20))) OR ucast (ld16 (km s) (sfn + 26)));
        (err, s) \<leftarrow> fat_parse_clus file clus s;
        Some (0, s) })"

partial_function (option) parse_loop :: "fat_env \<Rightarrow> addr \<Rightarrow> addr \<Rightarrow> nat \<Rightarrow> 'a fat_state_scheme
    \<Rightarrow> (int \<times> 'a fat_state_scheme) option" where
  "parse_loop e ent files n s =
     (if km s ent = 0 then Some (int n, s)
      else
        let ost = fat_get_ost (km s) ent;
            next = ent + to_u32 ((ost + 1) * 32)
        in if fat_free (km s ent) then parse_loop e next files n s
           else do {
             (err, s) \<leftarrow> fat_conv_e2f e ent ost (files + of_nat (500 * n)) s;
             parse_loop e next files (Suc n) s })"

definition fat_parse_entry :: "fat_env \<Rightarrow> addr \<Rightarrow> addr \<Rightarrow> 'a fat_state_scheme \<Rightarrow> (int \<times> 'a fat_state_scheme) option" where
  "fat_parse_entry e base files s =
     (if base = NULL \<or> files = NULL then None else parse_loop e base files 0 s)"

partial_function (option) count_loop :: "mem \<Rightarrow> addr \<Rightarrow> nat \<Rightarrow> (nat \<times> addr) option" where
  "count_loop m ent n =
     (if m ent = 0 then Some (n, ent)
      else count_loop m (ent + to_u32 ((fat_get_ost m ent + 1) * 32)) (if fat_free (m ent) then n else Suc n))"

text \<open>The pointer given back is the one the loop has moved.\<close>

definition fat_get_entries :: "fat_env \<Rightarrow> int \<Rightarrow> 'a fat_state_scheme \<Rightarrow> (int \<times> 'a fat_state_scheme) option" where
  "fat_get_entries e clu s = do {
     (ent, s) \<leftarrow> yalloc s (int (unat (ds (fat s))));
     if ent = NULL then None
     else do {
       let s = s\<lparr>km := snd (memset (km s) ent 0 (to_s32 (ds (fat s))))\<rparr>;
       (err, s) \<leftarrow> fat_read_dir e clu ent s;
       (n, ent) \<leftarrow> count_loop (km s) ent 0;
       s \<leftarrow> yfree s ent;
       Some (int n, s) } }"

fun link_files :: "addr \<Rightarrow> addr \<Rightarrow> addr \<Rightarrow> nat list \<Rightarrow> 'a fat_state_scheme \<Rightarrow> 'a fat_state_scheme option" where
  "link_files dir f tmps [] s = Some s"
| "link_files dir f tmps (i # is) s = do {
     (r, s) \<leftarrow> fat_set_clus (to_s32 (ld32 (km s) (ld32 (km s) (f_clus (f + of_nat (500 * i)))))) s;
     let s = s\<lparr>km := snd (list_add (km s) (d_fl dir) (tmps + of_nat (500 * i)))\<rparr>;
     link_files dir f tmps is s }"

text \<open>The nodes linked into the directory are those of the local array.\<close>

definition fat_parse_dir :: "fat_env \<Rightarrow> addr \<Rightarrow> 'a fat_state_scheme \<Rightarrow> (int \<times> 'a fat_state_scheme) option" where
  "fat_parse_dir e dir s =
     (if dir = NULL then None
      else do {
        (base, s) \<leftarrow> yalloc s (int (unat (ds (fat s))));
        if base = NULL then None
        else do {
          let m = snd (memset (km s) (l_files e) 0 128000);
          let m = snd (memset m base 0 4);
          let s = s\<lparr>km := m\<rparr>;
          (err, s) \<leftarrow> fat_read_dir e (to_s32 (ld32 (km s) (ld32 (km s) (f_clus dir)))) base s;
          (n, s) \<leftarrow> fat_parse_entry e base (l_files e) s;
          let s = s\<lparr>km := st32 (km s) (d_num dir) (to_u32 n)\<rparr>;
          let bytes = 500 * ld32 (km s) (d_num dir);
          (f, s) \<leftarrow> yalloc s (int (unat bytes));
          let s = s\<lparr>km := snd (memcpy (km s) f (l_files e) (to_s32 bytes))\<rparr>;
          s \<leftarrow> link_files dir f (l_files e) [0..<nat n] s;
          Some (0, s) } })"

fun insert_dirs :: "addr \<Rightarrow> addr \<Rightarrow> addr \<Rightarrow> nat list \<Rightarrow> mem \<Rightarrow> mem option" where
  "insert_dirs root darr files [] m = Some m"
| "insert_dirs root darr files (i # is) m = do {
     let dir = darr + of_nat (524 * i);
     let m = snd (memcpy m dir (files + of_nat (500 * i)) 500);
     (r, m) \<leftarrow> bst_insert m root (d_node dir) (Some fat_insert_comp);
     insert_dirs root darr files is m }"

text \<open>With no entry nothing is allocated and nothing inserted.\<close>

definition fat_crt_dir_tree :: "fat_env \<Rightarrow> addr \<Rightarrow> 'a fat_state_scheme \<Rightarrow> (int \<times> 'a fat_state_scheme) option" where
  "fat_crt_dir_tree e root s =
     (let sz = ds (fat s) div 32;
          s = s\<lparr>km := snd (memset (km s) (l_tree e) 0 (to_s32 (500 * sz)))\<rparr>
      in do {
        (err, s) \<leftarrow> fat_read_dir e 0 (r_bp (fm_c (fmm s))) s;
        (n, s) \<leftarrow> fat_parse_entry e (r_bp (fm_c (fmm s))) (l_tree e) s;
        (darr, s) \<leftarrow> (if n \<noteq> 0 then yalloc s (int (unat (524 * to_u32 n))) else Some (NULL, s));
        m \<leftarrow> insert_dirs root darr (l_tree e) [0..<nat n] (km s);
        Some (0, s\<lparr>km := m\<rparr>) })"

partial_function (option) sync_loop :: "fat_env \<Rightarrow> addr \<Rightarrow> addr \<Rightarrow> addr \<Rightarrow> mem \<Rightarrow> mem option" where
  "sync_loop e head node de m =
     (if node \<noteq> NULL \<and> node \<noteq> head then do {
        (ost, m) \<leftarrow> fat_conv_f2e (locs e) m de node;
        sync_loop e head (l_next m node) (de + to_u32 (ost * 32)) m }
      else Some m)"

definition fat_sync :: "fat_env \<Rightarrow> 'a fat_state_scheme \<Rightarrow> (int \<times> 'a fat_state_scheme) option" where
  "fat_sync e s = do {
     (base, s) \<leftarrow> yalloc s (int (unat (ds (fat s) * 4)));
     if base = NULL then None
     else do {
       let m = snd (memset (km s) base 0 (to_s32 (ds (fat s))));
       let head = d_fl (fm_cd (fmm s));
       m \<leftarrow> sync_loop e head (l_next m head) base m;
       (err, s) \<leftarrow> fat_write_dir e 0 base (s\<lparr>km := m\<rparr>);
       s \<leftarrow> yfree s base;
       Some (0, s) } }"

subsection \<open>Creating files and directories\<close>

definition fat_crt :: "addr \<Rightarrow> addr \<Rightarrow> 'a fat_state_scheme \<Rightarrow> (int \<times> 'a fat_state_scheme) option" where
  "fat_crt path file s = do {
     (err, m) \<leftarrow> fat_parse_path (km s) path (f_name file);
     let crc = fat_calc_crc m (f_name file);
     (err, s) \<leftarrow> fat_alloc_clus file (s\<lparr>km := m\<rparr>);
     let cd = fm_cd (fmm s);
     let m = st8 (km s) (f_crc file) crc;
     let m = snd (list_add m (d_fl cd) file);
     let m = st32 m (d_num cd) (ld32 m (d_num cd) + 1);
     Some (err, s\<lparr>km := m\<rparr>) }"

text \<open>The file is a local variable.\<close>

definition fat_crt_file :: "fat_env \<Rightarrow> addr \<Rightarrow> 'a fat_state_scheme \<Rightarrow> (int \<times> 'a fat_state_scheme) option" where
  "fat_crt_file e path s = do {
     let m = snd (memset (km s) (l_file e) 0 500);
     let m = st32 m (f_attr (l_file e)) (ld32 m (f_attr (l_file e)) OR 0x20);
     (err, s) \<leftarrow> fat_crt path (l_file e) (s\<lparr>km := m\<rparr>);
     Some (0, s) }"

definition fat_crt_dir_raw :: "addr \<Rightarrow> addr \<Rightarrow> u8 \<Rightarrow> 'a fat_state_scheme \<Rightarrow> (int \<times> 'a fat_state_scheme) option" where
  "fat_crt_dir_raw path dir attr s = do {
     (tmp, s) \<leftarrow> yalloc s 524;
     if tmp = NULL then None
     else do {
       let m = snd (memset (km s) tmp 0 524);
       let m = st32 m (f_attr tmp) 0x10;
       let m = st32 m (f_attr tmp) (ld32 m (f_attr tmp) OR ucast attr);
       let m = st32 m (f_size tmp) 0;
       (clus, s) \<leftarrow> fat_crt path tmp (s\<lparr>km := m\<rparr>);
       Some (0, if dir \<noteq> NULL then s\<lparr>km := snd (memcpy (km s) dir tmp 524)\<rparr> else s) } }"

definition fat_crt_dir :: "addr \<Rightarrow> 'a fat_state_scheme \<Rightarrow> 'a fat_state_scheme option" where
  "fat_crt_dir path s = map_option snd (fat_crt_dir_raw path NULL 0 s)"

subsection \<open>The current directory\<close>

definition fat_set_dir_raw :: "addr \<Rightarrow> 'a fat_state_scheme \<Rightarrow> int \<times> 'a fat_state_scheme" where
  "fat_set_dir_raw dir s = (0, s\<lparr>fmm := (fmm s)\<lparr>fm_cd := dir\<rparr>\<rparr>)"

text \<open>A directory that is not found is only reported.\<close>

definition fat_set_dir :: "fat_env \<Rightarrow> addr \<Rightarrow> 'a fat_state_scheme \<Rightarrow> (int \<times> 'a fat_state_scheme) option" where
  "fat_set_dir e path s = do {
     len \<leftarrow> strlen (km s) path;
     let m = snd (memset (km s) (l_name e) 0 FAT_LFN_MAX_LEN);
     (err, m) \<leftarrow> fat_parse_path m path (l_name e);
     node \<leftarrow> bst_search m (d_node (root_at s)) (l_name e) (Some fat_search_comp);
     Some (0, snd (fat_set_dir_raw (dir_of node) (s\<lparr>km := m\<rparr>))) }"

subsection \<open>Start\<close>

definition fat_init_rootfs :: "fat_env \<Rightarrow> 'a fat_state_scheme \<Rightarrow> (int \<times> 'a fat_state_scheme) option" where
  "fat_init_rootfs e s = do {
     let root = root_at s;
     let s = s\<lparr>km := snd (memset (km s) root 0 524)\<rparr>;
     let (err, s) = fat_set_dir_raw root s;
     let s = (case stack_init (mm_alloc e) (Some (fstk s)) 104800 of
                (ok, Some k) \<Rightarrow> s\<lparr>fstk := k\<rparr> | (ok, None) \<Rightarrow> s);
     (ent, s) \<leftarrow> yalloc s (int (unat (ds (fat s))));
     if ent = NULL then None
     else do {
       (err, s) \<leftarrow> fat_crt_dir_raw (l_dollar e) root 0x04 s;
       let s = s\<lparr>km := snd (bst_node_init (km s) (d_node root))\<rparr>;
       (n, m) \<leftarrow> fat_conv_f2e (locs e) (km s) ent root;
       (err, s) \<leftarrow> fat_write_dir e (-1) ent (s\<lparr>km := m\<rparr>);
       s \<leftarrow> yfree s ent;
       let s = s\<lparr>km := list_init_head (km s) (d_fl root)\<rparr>;
       (err, s) \<leftarrow> fat_parse_dir e root s;
       (err, s) \<leftarrow> fat_crt_dir_tree e (d_node root) s;
       Some (0, s) } }"

definition sfn_inval :: "int list" where
  "sfn_inval = [0x22, 0x2A, 0x2B, 0x2C, 0x2E, 0x2F, 0x3A, 0x3B, 0x3C, 0x3D, 0x3E, 0x3F, 0x5B, 0x5C, 0x5D, 0x7C]"

text \<open>\<open>sizeof(sfn_inval) / sizeof(char)\<close> is 64: the loop goes on behind the 16 integers of the table.\<close>

fun mark_inval :: "(nat \<Rightarrow> int) \<Rightarrow> nat list \<Rightarrow> bool list \<Rightarrow> bool list option" where
  "mark_inval bey [] t = Some t"
| "mark_inval bey (i # is) t =
     (let c = (if i < 16 then sfn_inval ! i else bey i) in
      if 0 \<le> c \<and> c < 128 then mark_inval bey is (t[nat c := True]) else None)"

definition fat_init :: "fat_env \<Rightarrow> addr \<Rightarrow> 'a fat_state_scheme \<Rightarrow> (int \<times> 'a fat_state_scheme) option" where
  "fat_init e b s = do {
     let m = km s;
     let t = (if ld16 m (b + 19) = 0 then ld32 m (b + 32) else ucast (ld16 m (b + 19)));
     let bp = ucast (ld16 m (b + 11));
     let sp = ucast (m (b + 13));
     let fats = ucast (m (b + 16));
     let ff = ucast (ld16 m (b + 14));
     let fn = (if ld16 m (b + 22) \<noteq> 0 then ucast (ld16 m (b + 22)) else ld32 m (b + 36)) * fats;
     r \<leftarrow> udiv (ucast (ld16 m (b + 17)) * 32 + (bp - 1)) bp;
     let df = ff + fn;
     let cf = df + sp * 2 + 1;
     let dn = t - df;
     let cn = dn - (sp * 2 + 1);
     clusters \<leftarrow> udiv dn sp;
     fn' \<leftarrow> udiv fn fats;
     let fn' = fn' - 3;
     let s = s\<lparr>fat := \<lparr>ts = t, tc = clusters, bps = bp, spc = sp, ds = bp * sp,
       fat_type = of_int (fat_determine_type 1 t), ffs = ff + 3, fsn = fn', rsn = r, dfs = df, dsn = dn,
       cfs = cf, csn = cn, lfn = True\<rparr>\<rparr>;
     let tbl = replicate 32 True @ drop 32 (sfn_inval_tbl s);
     tbl \<leftarrow> mark_inval (beyond e) [0..<64] tbl;
     let s = s\<lparr>sfn_inval_tbl := tbl\<rparr>;
     nc \<leftarrow> udiv cn sp;
     let nf = (fn' * bp) div 4;
     let c = (fm_c (fmm s))\<lparr>r_nums := nc, r_frees := nc\<rparr>;
     let f = (fm_f (fmm s))\<lparr>r_nums := nf, r_frees := nf\<rparr>;
     (err, fb, s) \<leftarrow> bitmap_alloc s (Some (r_bit f)) 32 ((nf + 31) div 32);
     (err, cb, s) \<leftarrow> bitmap_alloc s (Some (r_bit c)) 32 ((nc + 31) div 32);
     (a, s) \<leftarrow> yalloc s (int (unat (8 * (bp * sp))));
     let s = s\<lparr>fmm := (fmm s)\<lparr>fm_f := f\<lparr>r_bit := (case fb of Some x \<Rightarrow> x | None \<Rightarrow> r_bit f)\<rparr>, fm_c := c\<lparr>r_bit := (case cb of Some x \<Rightarrow> x | None \<Rightarrow> r_bit c), r_bp := a\<rparr>\<rparr>\<rparr>;
     if a = NULL then Some (-10, s)
     else do {
       let s = s\<lparr>km := snd (memset (km s) a 0 4)\<rparr>;
       (err, s) \<leftarrow> fat_init_rootfs e s;
       if err < 0 then Some (err, s) else Some (0, s) } }"

end
