(* ===== verification/Fat_Props.thy ===== *)
theory Fat_Props
  imports Fat_Names Fat_Fs Console_Props
begin

text \<open>
  The FAT file system: the names of files survive the way to the disk and back, the tree of
  directories stays a search tree in which every directory is found under its name, and what
  \<open>fat_set_dir\<close> does with the result of the search.
\<close>

subsection \<open>Names\<close>

text \<open>C9: The entries \<open>fat_conv_f2e\<close> makes for a file with a name of up to 247 ASCII characters are counted
  right by \<open>fat_get_ost\<close>, and \<open>fat_parse_name\<close> reads the name back from them, wherever they have been
  moved meanwhile.\<close>

theorem fat_name_roundtrip:
  assumes s: "cstr m (f_name file) bs" "bs \<noteq> []" "\<forall>b\<in>set bs. unat b < 128" "length bs \<le> 247"
    and ok: "f2e_ok l (f_name file) bs de"
  shows "\<exists>m'. fat_conv_f2e l m de file = Some (int (entries bs) + 1, m') \<and> fat_get_ost m' de = int (entries bs)
    \<and> (\<forall>m2 base tmp file2.
         (\<forall>p < 32 * entries bs. m2 (base + of_nat p) = m' (de + of_nat p)) \<and> base \<noteq> NULL \<and> tmp \<noteq> NULL
         \<and> file2 \<noteq> NULL \<and> f_name file2 \<noteq> NULL \<and> apart base (32 * entries bs) tmp 256
         \<and> apart (f_name file2) (Suc (13 * entries bs)) tmp 256 \<and> m2 (f_name file2 + of_nat (length bs)) = 0
         \<longrightarrow> (\<exists>m3. fat_parse_name m2 tmp base (fat_get_ost m' de) file2 = Some (0, m3) \<and> cstr m3 (f_name file2) bs))"
proof -
  let ?k = "entries bs"
  have k: "0 < ?k" "?k < 64" using s(2,4) by (cases bs; auto)+
  obtain m' where m': "fat_conv_f2e l m de file = Some (int ?k + 1, m')" "holds_name m' de bs"
    using conv_f2e [OF s ok] by blast
  have first: "m'' b = lfn_ord ?k (?k - 1)" if "holds_name m'' b bs" for m'' b
    using that k(1) by (auto simp: holds_name_def lfn_at_def dest: spec [of _ "?k - 1"])
  have de: "de \<noteq> NULL" using ok by (simp add: f2e_ok_def Let_def)
  have ost: "fat_get_ost m' de = int ?k"
    using first [OF m'(2)] last_ord [OF k] de by (simp add: fat_get_ost_def)
  have "\<exists>m3. fat_parse_name m2 tmp base (int ?k) file2 = Some (0, m3) \<and> cstr m3 (f_name file2) bs"
    if same: "\<forall>p < 32 * ?k. m2 (base + of_nat p) = m' (de + of_nat p)" and nn: "base \<noteq> NULL" "tmp \<noteq> NULL"
      "file2 \<noteq> NULL" "f_name file2 \<noteq> NULL" and ap: "apart base (32 * ?k) tmp 256"
      "apart (f_name file2) (Suc (13 * ?k)) tmp 256" and z: "m2 (f_name file2 + of_nat (length bs)) = 0"
    for m2 base tmp file2
  proof -
    have h: "holds_name m2 base bs"
      unfolding holds_name_def
    proof (intro allI impI)
      fix i assume i: "i < ?k"
      have "m2 (base + of_nat (32 * (?k - Suc i)) + of_nat p) = m' (de + of_nat (32 * (?k - Suc i)) + of_nat p)"
        if "p < 32" for p
        using same [rule_format, of "32 * (?k - Suc i) + p"] i that by (simp add: add.assoc)
      then show "lfn_at m2 (base + of_nat (32 * (?k - Suc i))) bs i"
        using lfn_at_cong m'(2) i unfolding holds_name_def by blast
    qed
    have "0 \<notin> set bs" using s(1) by (simp add: cstr_def)
    from parse_lfn [OF h s(2,4) this z nn(2,4) ap] show ?thesis
      using first [OF h] last_ord(1) [OF k] nn by (auto simp: fat_parse_name_def)
  qed
  then show ?thesis using m'(1) ost by auto
qed

definition name_locals :: fat_locals where
  "name_locals = \<lparr>l_pad = 0x3000, l_tmps = 0x4000, l_lfns = 0x5000, l_sfn = 0x6000, l_tmp = 0x7000\<rparr>"

lemma fat_name_roundtrip_witness:
  "\<exists>m'. fat_conv_f2e name_locals (put (\<lambda>_. 0) 0x1010 [97, 98]) 0x8000 0x1000 = Some (2, m')
    \<and> (\<exists>m3. fat_parse_name (\<lambda>x. if inside 0x8000 64 x then m' x else 0) 0x7000 0x8000 (fat_get_ost m' 0x8000) 0x9000
          = Some (0, m3) \<and> cstr m3 (f_name 0x9000) [97, 98])"
proof -
  let ?m = "put (\<lambda>_. 0) 0x1010 [97, 98]"
  have s: "cstr ?m (f_name 0x1000) [97, 98]"
    by (simp add: cstr_iff f_name_def put_def inside_def less_Suc_eq all_conj_distrib)
  have "f2e_ok name_locals (f_name 0x1000) [97, 98] 0x8000"
    by (simp add: f2e_ok_def name_locals_def f_name_def apart_def Let_def)
  note rt = fat_name_roundtrip [OF s _ _ _ this]
  have e: "entries [97, 98 :: u8] = 1" "length [97, 98 :: u8] = 2" by simp_all
  obtain m' where m': "fat_conv_f2e name_locals ?m 0x8000 0x1000 = Some (2, m')"
    and all: "\<forall>m2 base tmp file2.
         (\<forall>p < 32 * 1. m2 (base + of_nat p) = m' (0x8000 + of_nat p)) \<and> base \<noteq> NULL \<and> tmp \<noteq> NULL
         \<and> file2 \<noteq> NULL \<and> f_name file2 \<noteq> NULL \<and> apart base (32 * 1) tmp 256
         \<and> apart (f_name file2) (Suc (13 * 1)) tmp 256 \<and> m2 (f_name file2 + of_nat 2) = 0
         \<longrightarrow> (\<exists>m3. fat_parse_name m2 tmp base (fat_get_ost m' 0x8000) file2 = Some (0, m3) \<and> cstr m3 (f_name file2) [97, 98])"
    using rt unfolding e by auto
  let ?m2 = "\<lambda>x. if inside 0x8000 64 x then m' x else 0"
  have "?m2 (0x8000 + of_nat p) = m' (0x8000 + of_nat p)" if "p < 32" for p
    using inside_add [of 64 p "0x8000"] that by simp
  moreover have "?m2 (f_name 0x9000 + of_nat 2) = 0" by (simp add: f_name_def inside_def)
  moreover have "f_name 0x9000 \<noteq> NULL" "apart 0x8000 32 0x7000 256" "apart (f_name 0x9000) 14 0x7000 256"
    by (simp_all add: f_name_def apart_def)
  ultimately have "\<exists>m3. fat_parse_name ?m2 0x7000 0x8000 (fat_get_ost m' 0x8000) 0x9000 = Some (0, m3)
      \<and> cstr m3 (f_name 0x9000) [97, 98]"
    using all [rule_format, where ?m2.0 = ?m2 and base = "0x8000" and tmp = "0x7000" and ?file2.0 = "0x9000"] by simp
  then show ?thesis using m' by blast
qed

subsection \<open>The directory tree\<close>

text \<open>
  Directories are compared by their names, and two names of which one is the beginning of the other
  compare as equal.
\<close>

definition comp_dir :: "u8 list \<Rightarrow> u8 list \<Rightarrow> int" where
  "comp_dir xs ys = (if first_diff xs ys = 0 then BST_MATCH else if first_diff xs ys < 0 then BST_LEFT else BST_RIGHT)"

definition named :: "mem \<Rightarrow> addr \<Rightarrow> u8 list \<Rightarrow> bool" where
  "named m a bs \<longleftrightarrow> cstr m (f_name (dir_of a)) bs \<and> bs \<noteq> [] \<and> length bs < 256 \<and> f_name (dir_of a) \<noteq> NULL"

text \<open>The directions the two comparison functions give, as total functions.\<close>

definition insert_dir :: "mem \<Rightarrow> addr \<Rightarrow> addr \<Rightarrow> int" where
  "insert_dir m a new = (case fat_insert_comp m a new of None \<Rightarrow> BST_MATCH | Some d \<Rightarrow> d)"

definition search_dir :: "mem \<Rightarrow> addr \<Rightarrow> addr \<Rightarrow> int" where
  "search_dir m a key = (case fat_search_comp m a key of None \<Rightarrow> BST_MATCH | Some d \<Rightarrow> d)"

lemma strncmp_loop_self: "strncmp_loop m a a n i = 0"
proof (induction "n - i" arbitrary: i)
  case 0
  then show ?case by (subst strncmp_loop.simps) simp
next
  case (Suc d)
  then show ?case by (subst strncmp_loop.simps) simp
qed

lemma strcmp_self: "strcmp m a a = None \<or> strcmp m a a = Some 0"
  by (cases "strlen m a") (auto simp: strcmp_def strncmp_def strncmp_loop_self Let_def)

interpretation fat_tree: bst_order "\<lambda>a. m (f_name (dir_of a)) \<noteq> 0" "\<lambda>a. f_name (dir_of a)" "insert_dir m" "search_dir m"
  for m :: mem
proof
  show "search_dir m a (f_name (dir_of b)) = insert_dir m a b"
    if "m (f_name (dir_of a)) \<noteq> 0" "m (f_name (dir_of b)) \<noteq> 0" for a b
    using that by (simp add: search_dir_def insert_dir_def fat_search_comp_def fat_insert_comp_def split: Option.bind_splits)
  show "search_dir m a (f_name (dir_of a)) = BST_MATCH" for a
    using strcmp_self [of m "f_name (dir_of a)"] by (auto simp: search_dir_def fat_search_comp_def strcmp_root_eq)
  show "search_dir m a k \<in> dirs" for a k
    by (auto simp: search_dir_def fat_search_comp_def split: option.splits Option.bind_splits)
qed

lemma strcmp_named:
  assumes "cstr m a xs" "cstr m b ys" "a \<noteq> NULL" "b \<noteq> NULL" "xs \<noteq> []" "ys \<noteq> []" "length xs < 256" "length ys < 256"
  shows "strcmp_root m a b = Some (first_diff xs ys)"
  using strcmp_correct [OF assms(1-4)] assms(5-) by (simp add: strcmp_root_eq)

lemma search_comp:
  assumes "named m a xs" "cstr m key ys" "key \<noteq> NULL" "ys \<noteq> []" "length ys < 256"
  shows "fat_search_comp m a key = Some (comp_dir ys xs)"
  using strcmp_named [OF assms(2) _ assms(3) _ assms(4) _ assms(5), of "f_name (dir_of a)" xs] assms(1)
  by (simp add: fat_search_comp_def comp_dir_def named_def)

lemma named_first: "named m a xs \<Longrightarrow> m (f_name (dir_of a)) \<noteq> 0"
  by (cases xs) (auto simp: named_def cstr_iff dest: spec [of _ 0])

lemma insert_comp:
  assumes "named m a xs" "named m b ys"
  shows "fat_insert_comp m a b = Some (comp_dir ys xs)"
  using strcmp_named [of m "f_name (dir_of b)" ys "f_name (dir_of a)" xs] assms named_first [OF assms(1)] named_first [OF assms(2)]
  by (simp add: fat_insert_comp_def comp_dir_def named_def)

lemma named_unique: "named m a xs \<Longrightarrow> named m a ys \<Longrightarrow> xs = ys"
  by (auto simp: named_def dest: cstr_unique)

text \<open>
  A tree of directories: the directories are apart from each other and have names, and each is what
  a search for its name ends at.
\<close>

definition dirs_apart :: "addr set \<Rightarrow> bool" where
  "dirs_apart S \<longleftrightarrow> (\<forall>a\<in>S. \<forall>b\<in>S. a = b \<or> apart (dir_of a) DIR_SIZE (dir_of b) DIR_SIZE)"

definition fat_tree_ok :: "mem \<Rightarrow> addr \<Rightarrow> addr tree \<Rightarrow> bool" where
  "fat_tree_ok m root t \<longleftrightarrow> is_bst m root t \<and> root \<noteq> NULL \<and> distinct (inorder t) \<and> dirs_apart (set_tree t)
     \<and> (\<forall>a\<in>set_tree t. (\<exists>bs. named m a bs) \<and> t_find (\<lambda>b. search_dir m b (f_name (dir_of a))) t = Some a)"

lemma sorted_wrt_pairs:
  "distinct xs \<Longrightarrow> (\<forall>a\<in>set xs. \<forall>b\<in>set xs. a = b \<or> P a b) \<Longrightarrow> sorted_wrt P xs"
  by (induction xs) auto

lemma node_in_dir: "a = dir_of a + of_nat 512" "f_name (dir_of a) = dir_of a + of_nat 16"
  by (simp_all add: dir_of_def f_name_def)

lemma dirs_nodes_ok: "distinct ns \<Longrightarrow> dirs_apart (set ns) \<Longrightarrow> bst_nodes_ok ns"
proof -
  assume d: "distinct ns" "dirs_apart (set ns)"
  have "apart a 12 b 12" if "apart (dir_of a) DIR_SIZE (dir_of b) DIR_SIZE" for a b
    using apart_sub [OF that, of 512 12 512 12] node_in_dir(1) [symmetric] by simp
  then show ?thesis using d unfolding bst_nodes_ok_def dirs_apart_def by (intro sorted_wrt_pairs) blast+
qed

text \<open>Writing the links of directories leaves the names alone.\<close>

lemma named_keep:
  assumes "named m a bs" "dirs_apart S" "a \<in> S" "\<And>x. (\<forall>b\<in>S. \<not> inside b 12 x) \<Longrightarrow> m' x = m x"
  shows "named m' a bs"
proof -
  have "\<not> inside b 12 x" if x: "inside (f_name (dir_of a)) (Suc (length bs)) x" and b: "b \<in> S" for b x
  proof -
    have len: "16 + Suc (length bs) \<le> 512" using assms(1) by (simp add: named_def)
    show ?thesis
    proof (cases "a = b")
      case True
      have "apart (dir_of b + of_nat 16) (Suc (length bs)) (dir_of b + of_nat 512) 12"
        by (rule apart_offsets) (use len in auto)
      then show ?thesis using x apart_inside unfolding True node_in_dir(2) node_in_dir(1) [of b, symmetric] by blast
    next
      case False
      then have "apart (dir_of a) DIR_SIZE (dir_of b) DIR_SIZE" using assms(2,3) b by (auto simp: dirs_apart_def)
      then have "apart (dir_of a + of_nat 16) (Suc (length bs)) (dir_of b + of_nat 512) 12"
        by (rule apart_sub) (use len in auto)
      then show ?thesis using x apart_inside unfolding node_in_dir(2) node_in_dir(1) [of b, symmetric] by blast
    qed
  qed
  then show ?thesis
    using assms(1,4) cstr_keep [of m "f_name (dir_of a)" bs m'] by (auto simp: named_def)
qed

lemma t_find_cong: "(\<And>a. a \<in> set_tree t \<Longrightarrow> f a = g a) \<Longrightarrow> t_find f t = t_find g t"
  by (induction t) auto

lemma t_find_in: "t_find f t = Some a \<Longrightarrow> a \<in> set_tree t \<and> f a \<noteq> BST_LEFT \<and> f a \<noteq> BST_RIGHT"
  by (induction t) (auto split: if_splits)

lemma t_insert_set:
  "t_find dir t = None \<Longrightarrow> set_tree (t_insert dir x t) = insert x (set_tree t)"
  by (induction t) (auto split: if_splits)

lemma t_insert_distinct:
  "distinct (inorder t) \<Longrightarrow> x \<notin> set_tree t \<Longrightarrow> distinct (inorder (t_insert dir x t))
     \<and> set_tree (t_insert dir x t) \<subseteq> insert x (set_tree t)"
proof (induction t)
  case (Node l a r)
  then show ?case by auto
qed simp

lemma search_dir_named:
  assumes "named m a xs" "cstr m key ys" "key \<noteq> NULL" "ys \<noteq> []" "length ys < 256"
  shows "search_dir m a key = comp_dir ys xs"
  using search_comp [OF assms] by (simp add: search_dir_def)

lemma insert_dir_named: "named m a xs \<Longrightarrow> named m b ys \<Longrightarrow> insert_dir m a b = comp_dir ys xs"
  using insert_comp by (simp add: insert_dir_def)

lemma comp_dir_dirs: "comp_dir xs ys \<in> dirs"
  by (simp add: comp_dir_def)

text \<open>C11: Inserting a directory with a name keeps the tree: it stays a search tree in which every directory is
  found under its own name, and the new one is added, unless the search for its name ends at another
  directory, whose name then is the beginning of the new name or has it as its beginning; in that
  case \<open>NULL\<close> is returned and the tree is as before.\<close>

theorem fat_tree_insert:
  assumes ok: "fat_tree_ok m root t" and new: "named m new bs" "new \<noteq> NULL" "new \<notin> set_tree t"
    and ap: "dirs_apart (insert new (set_tree t))"
  shows "\<exists>m' r t'. bst_insert m root new (Some fat_insert_comp) = Some (r, m') \<and> fat_tree_ok m' root t'
    \<and> (case t_find (\<lambda>a. insert_dir m a new) t of
         None \<Rightarrow> r = new \<and> set_tree t' = insert new (set_tree t)
       | Some a \<Rightarrow> r = NULL \<and> t' = t
           \<and> (\<forall>xs. named m a xs \<longrightarrow> take (length bs) xs = take (length xs) bs))"
proof -
  let ?S = "insert new (set_tree t)" and ?dir = "\<lambda>a. insert_dir m a new"
  define m1 where "m1 = snd (bst_node_init m new)"
  note t = ok [unfolded fat_tree_ok_def]
  obtain nm where nm: "\<And>a. a \<in> ?S \<Longrightarrow> named m a (nm a)"
  proof -
    have "\<forall>a\<in>?S. \<exists>xs. named m a xs" using t new(1) by auto
    then show ?thesis using that by metis
  qed
  have m1: "named m1 a (nm a)" if "a \<in> ?S" for a
    by (rule named_keep [OF nm [OF that] ap that]) (simp add: m1_def node_init_other)
  have nodes: "bst_nodes_ok (new # inorder t)" by (rule dirs_nodes_ok) (use t new(3) ap in auto)
  have dir: "fat_insert_comp m1 a new = Some (?dir a) \<and> ?dir a \<in> dirs" if "a \<in> set_tree t" for a
    using insert_comp [OF m1 m1] insert_dir_named [OF nm nm] comp_dir_dirs that by simp
  obtain m' where m': "bst_insert m root new (Some fat_insert_comp) = Some (if t_find ?dir t = None then new else NULL, m')"
    "is_bst m' root (t_insert ?dir new t)"
    "\<forall>x. (\<forall>a\<in>set (new # inorder t). \<not> inside a 12 x) \<longrightarrow> m' x = m x"
    using bst_insert_eq [of m root t new fat_insert_comp ?dir] t new(2) nodes dir unfolding m1_def by auto
  have keep: "named m' a (nm a)" if "a \<in> ?S" for a
    by (rule named_keep [OF nm [OF that] ap that]) (use m'(3) in simp)
  have same: "search_dir m' b (f_name (dir_of a)) = search_dir m b (f_name (dir_of a))" if "a \<in> ?S" "b \<in> ?S" for a b
    using search_dir_named [OF nm [OF that(2)], of "f_name (dir_of a)" "nm a"] nm [OF that(1)]
      search_dir_named [OF keep [OF that(2)], of "f_name (dir_of a)" "nm a"] keep [OF that(1)]
    by (simp add: named_def)
  have reach: "fat_tree.reachable m (t_insert ?dir new t)"
    by (rule fat_tree.reachable_insert) (use t nm new(1) named_first in \<open>auto simp: fat_tree.reachable_def\<close>)
  have sub: "distinct (inorder (t_insert ?dir new t))" "set_tree (t_insert ?dir new t) \<subseteq> ?S"
    using t_insert_distinct [of t new ?dir] t new(3) by blast+
  have "fat_tree_ok m' root (t_insert ?dir new t)"
    unfolding fat_tree_ok_def
  proof (intro conjI ballI)
    show "dirs_apart (set_tree (t_insert ?dir new t))" using ap sub(2) unfolding dirs_apart_def by blast
    fix a assume a: "a \<in> set_tree (t_insert ?dir new t)"
    then have aS: "a \<in> ?S" using sub(2) by blast
    then show "\<exists>bs. named m' a bs" using keep by blast
    have "t_find (\<lambda>b. search_dir m' b (f_name (dir_of a))) (t_insert ?dir new t)
        = t_find (\<lambda>b. search_dir m b (f_name (dir_of a))) (t_insert ?dir new t)"
      by (rule t_find_cong) (use same aS sub(2) in blast)
    then show "t_find (\<lambda>b. search_dir m' b (f_name (dir_of a))) (t_insert ?dir new t) = Some a"
      using reach a unfolding fat_tree.reachable_def by simp
  qed (use m'(2) t sub in auto)
  moreover have "case t_find ?dir t of None \<Rightarrow> set_tree (t_insert ?dir new t) = insert new (set_tree t)
       | Some a \<Rightarrow> t_insert ?dir new t = t \<and> (\<forall>xs. named m a xs \<longrightarrow> take (length bs) xs = take (length xs) bs)"
  proof (cases "t_find ?dir t")
    case None
    then show ?thesis using t_insert_set by simp
  next
    case (Some a)
    have "t_insert ?dir new t = t"
      using t Some dir by (cases "t = Leaf") (auto intro!: t_insert_stop simp: t_find_stop split: if_splits)
    moreover have "take (length bs) xs = take (length xs) bs" if "named m a xs" for xs
    proof -
      have "comp_dir bs xs = BST_MATCH"
        using t_find_in [OF Some] dir insert_dir_named [OF that new(1)] comp_dir_dirs [of bs xs] by auto
      then show ?thesis using first_diff_eq_0 [of bs xs] by (auto simp: comp_dir_def split: if_splits)
    qed
    ultimately show ?thesis using Some by simp
  qed
  ultimately show ?thesis using m'(1) by (cases "t_find ?dir t") auto
qed

text \<open>A memory with one directory \<open>"a"\<close>, a directory \<open>"b"\<close> outside the tree and the path \<open>"/a"\<close>.\<close>

definition one_dir :: mem where
  "one_dir = put (put (put (\<lambda>_. 0) 0x10010 [97]) 0x20010 [98]) 0x30000 [47, 97]"

lemma one_dir_tree: "fat_tree_ok one_dir 0x10200 (Node Leaf 0x10200 Leaf)" "named one_dir 0x10200 [97]"
  "named one_dir 0x20200 [98]"
proof -
  show n: "named one_dir 0x10200 [97]" "named one_dir 0x20200 [98]"
    by (simp_all add: named_def cstr_iff one_dir_def f_name_def dir_of_def put_def inside_def)
  have c: "bst_child one_dir 0x10200 BST_LEFT = 0" "bst_child one_dir 0x10200 BST_RIGHT = 0"
    "bst_child one_dir 0x10200 BST_MATCH = 0"
    by (simp_all add: bst_child_def ld32_def one_dir_def put_def inside_def to_u32_def)
  have "search_dir one_dir 0x10200 (f_name (dir_of 0x10200)) = BST_MATCH"
    by (rule fat_tree.match_self) (rule named_first [OF n(1)])
  then have "t_find (\<lambda>b. search_dir one_dir b (f_name (dir_of 0x10200))) (Node Leaf 0x10200 Leaf) = Some 0x10200" by simp
  moreover have "is_bst one_dir 0x10200 (Node Leaf 0x10200 Leaf)" using c by simp
  ultimately show "fat_tree_ok one_dir 0x10200 (Node Leaf 0x10200 Leaf)"
    unfolding fat_tree_ok_def dirs_apart_def using n(1) by (intro conjI ballI) (simp_all, blast)
qed

lemma fat_tree_insert_witness:
  "\<exists>m' t'. bst_insert one_dir 0x10200 0x20200 (Some fat_insert_comp) = Some (0x20200, m') \<and> fat_tree_ok m' 0x10200 t'
    \<and> set_tree t' = {0x20200, 0x10200}"
proof -
  have d: "dirs_apart (insert 0x20200 (set_tree (Node Leaf (0x10200 :: addr) Leaf)))"
    by (simp add: dirs_apart_def dir_of_def apart_def)
  have "insert_dir one_dir 0x10200 0x20200 = BST_RIGHT"
    using insert_dir_named [OF one_dir_tree(2,3)] by (simp add: comp_dir_def)
  then have none: "t_find (\<lambda>a. insert_dir one_dir a 0x20200) (Node Leaf 0x10200 Leaf) = None" by simp
  have "(0x20200 :: addr) \<noteq> NULL" "0x20200 \<notin> set_tree (Node Leaf (0x10200 :: addr) Leaf)" by simp_all
  from fat_tree_insert [OF one_dir_tree(1,3) this d] obtain m' r t' where
    "bst_insert one_dir 0x10200 0x20200 (Some fat_insert_comp) = Some (r, m')" "fat_tree_ok m' 0x10200 t'"
    "r = 0x20200 \<and> set_tree t' = insert 0x20200 (set_tree (Node Leaf 0x10200 Leaf))"
    unfolding none option.case by blast
  then show ?thesis by auto
qed

subsection \<open>Searching and setting the current directory\<close>

lemma bst_child_cong:
  assumes "d \<in> dirs" "\<And>x. inside a 12 x \<Longrightarrow> m x = m' x"
  shows "bst_child m a d = bst_child m' a d"
  unfolding bst_child_def
proof (rule ld32_cong)
  fix x assume x: "inside (a + 4 * to_u32 d) 4 x"
  have "4 * to_u32 d = of_nat (4 * nat d)" "4 * nat d + 4 \<le> 12" using assms(1) by (auto simp: to_u32_def)
  then have "inside a 12 x" using x inside_offset [of a "4 * nat d" 4 x 12] by simp
  then show "m x = m' x" by (rule assms(2))
qed

text \<open>A tree does not change with memory outside its directories.\<close>

lemma fat_tree_keep:
  assumes ok: "fat_tree_ok m root t" and same: "\<And>a x. a \<in> set_tree t \<Longrightarrow> inside (dir_of a) DIR_SIZE x \<Longrightarrow> m' x = m x"
  shows "is_bst m' root t" "a \<in> set_tree t \<Longrightarrow> named m a bs \<Longrightarrow> named m' a bs"
proof -
  have node: "inside (dir_of a) DIR_SIZE x" if "inside a 12 x" for a x
    by (rule inside_sub [OF that node_in_dir(1)]) simp_all
  have "bst_child m a d = bst_child m' a d" if "a \<in> set_tree t" "d \<in> dirs" for a d
    by (rule bst_child_cong) (use that node same in auto)
  then have "is_bst m root t \<longleftrightarrow> is_bst m' root t" by (rule is_bst_cong)
  then show "is_bst m' root t" using ok by (simp add: fat_tree_ok_def)
  assume a: "a \<in> set_tree t" "named m a bs"
  have "m' x = m x" if x: "inside (f_name (dir_of a)) (Suc (length bs)) x" for x
  proof -
    have "16 + Suc (length bs) \<le> DIR_SIZE" using a(2) by (simp add: named_def)
    then have "inside (dir_of a) DIR_SIZE x" by (intro inside_sub [OF x node_in_dir(2)]) simp_all
    then show ?thesis by (rule same [OF a(1)])
  qed
  then show "named m' a bs" using a(2) cstr_keep [of m "f_name (dir_of a)" bs m'] by (simp add: named_def)
qed

lemma strrchr_loop_skip:
  "k \<le> i \<Longrightarrow> (\<And>j. k < j \<Longrightarrow> j \<le> i \<Longrightarrow> m (a + of_nat j) \<noteq> ch) \<Longrightarrow> strrchr_loop m a ch i = strrchr_loop m a ch k"
proof (induction i)
  case (Suc i)
  then show ?case by (cases "k = Suc i") (simp_all add: le_Suc_eq del: of_nat_Suc)
qed simp

lemma parse_path:
  assumes p: "cstr m path (pre @ bs)" "path \<noteq> NULL" "unat path + length (pre @ bs) < 2 ^ 32" "length (pre @ bs) < 2147483647"
    and pre: "pre = [] \<or> last pre = 47" and bs: "47 \<notin> set bs" "bs \<noteq> []"
    and dst: "dst \<noteq> NULL" "apart dst (length bs) (path + of_nat (length pre)) (length bs)"
  shows "fat_parse_path m path dst = Some (0, blit m dst (path + of_nat (length pre)) (length bs))"
proof -
  let ?n = "length (pre @ bs)" and ?name = "path + of_nat (length pre)"
  have sl: "strlen m path = Some (int ?n)" by (rule strlen_cstr [OF p(1,2,4)])
  have at: "m (path + of_nat j) = (pre @ bs) ! j" if "j < ?n" for j using p(1) that by (simp add: cstr_iff)
  have fin: "m (path + of_nat ?n) = 0" using p(1) by (simp add: cstr_iff)
  have no: "m (path + of_nat j) \<noteq> 47" if "length pre \<le> j" "j \<le> ?n" for j
  proof (cases "j = ?n")
    case False
    then have "j < ?n" using that by simp
    then have "m (path + of_nat j) = bs ! (j - length pre)" using at that by (simp add: nth_append)
    moreover have "bs ! (j - length pre) \<in> set bs" using that False by (intro nth_mem) auto
    ultimately show ?thesis using bs(1) by auto
  qed (use fin in simp)
  have c: "\<exists>c. strrchr m path 47 = Some c \<and> (if c \<noteq> NULL then c + 1 else path) = ?name"
  proof (cases "pre = []")
    case True
    have "strrchr_loop m path 47 ?n = strrchr_loop m path 47 0" by (rule strrchr_loop_skip) (use no True in auto)
    also have "\<dots> = NULL" using no [of 0] True by simp
    finally show ?thesis using sl p(2) True by (simp add: strrchr_def del: length_append)
  next
    case False
    define k where "k = length pre - 1"
    have k: "Suc k = length pre" using False by (simp add: k_def)
    have "strrchr_loop m path 47 ?n = strrchr_loop m path 47 k"
      by (rule strrchr_loop_skip) (use no k in auto)
    also have "\<dots> = path + of_nat k"
    proof -
      have "pre ! k = 47" using pre False last_conv_nth [OF False] by (simp add: k_def)
      moreover have "k < length pre" using k by simp
      ultimately have "m (path + of_nat k) = 47" using at [of k] by (simp add: nth_append)
      then show ?thesis by (cases k) (auto simp del: of_nat_Suc)
    qed
    finally have "strrchr m path 47 = Some (path + of_nat k)" using sl p(2) by (simp add: strrchr_def del: length_append)
    moreover have "path + of_nat k \<noteq> NULL" by (rule offset_nonnull [OF p(2), of ?n]) (use p(3) k in auto)
    moreover have "path + of_nat k + 1 = ?name" unfolding k [symmetric] by simp
    ultimately show ?thesis by simp
  qed
  have nn: "?name \<noteq> NULL" by (rule offset_nonnull [OF p(2), of ?n]) (use p(3) bs(2) in auto)
  have s: "cstr m ?name bs"
    using p(1) by (auto simp: cstr_iff nth_append add.assoc simp flip: of_nat_add dest: spec [of _ "length pre + _"])
  have "strlen m ?name = Some (int (length bs))" by (rule strlen_cstr [OF s nn]) (use p(4) in simp)
  moreover have "strncpy m dst ?name (int (length bs)) = Some (dst, blit m dst ?name (length bs))"
    using strncpy_eq [OF s dst(1) nn _ _ _ dst(2) bs(2), of "int (length bs)"] bs(2) p(4) by (cases bs) auto
  ultimately show ?thesis using c nn by (auto simp: fat_parse_path_def)
qed

text \<open>
  A path whose last component is \<open>bs\<close>, apart from the local array of \<open>fat_set_dir\<close>, which is apart
  from the directories.
\<close>

definition set_dir_ok :: "fat_env \<Rightarrow> addr \<Rightarrow> u8 list \<Rightarrow> u8 list \<Rightarrow> addr tree \<Rightarrow> mem \<Rightarrow> bool" where
  "set_dir_ok e path pre bs t m \<longleftrightarrow> cstr m path (pre @ bs) \<and> path \<noteq> NULL
     \<and> unat path + length (pre @ bs) < 2 ^ 32 \<and> length (pre @ bs) < 2147483647
     \<and> (pre = [] \<or> last pre = 47) \<and> 47 \<notin> set bs \<and> bs \<noteq> [] \<and> length bs < 256 \<and> l_name e \<noteq> NULL
     \<and> apart path (Suc (length (pre @ bs))) (l_name e) 256
     \<and> (\<forall>a\<in>set_tree t. apart (dir_of a) DIR_SIZE (l_name e) 256)"

lemma set_dir_search:
  assumes tree: "fat_tree_ok (km s) (d_node (root_at s)) t" and p: "set_dir_ok e path pre bs t (km s)"
  shows "\<exists>m'. fat_set_dir e path s = Some (0, s\<lparr>km := m', fmm := (fmm s)\<lparr>fm_cd := dir_of
        (case t_find (\<lambda>a. search_dir m' a (l_name e)) t of None \<Rightarrow> NULL | Some a \<Rightarrow> a)\<rparr>\<rparr>)
    \<and> cstr m' (l_name e) bs \<and> (\<forall>x. \<not> inside (l_name e) 256 x \<longrightarrow> m' x = km s x)"
proof -
  let ?n = "length (pre @ bs)" and ?name = "path + of_nat (length pre)"
  note p = p [unfolded set_dir_ok_def]
  define m1 where "m1 = snd (memset (km s) (l_name e) 0 FAT_LFN_MAX_LEN)"
  have m1: "m1 x = (if inside (l_name e) 256 x then 0 else km s x)" for x by (simp add: m1_def fill_def)
  have p1: "cstr m1 path (pre @ bs)"
    by (rule cstr_keep [where m = "km s"]) (use p m1 apart_inside in auto)
  have ap: "apart (l_name e) (length bs) ?name (length bs)"
  proof -
    have "apart (path + of_nat (length pre)) (length bs) (l_name e + of_nat 0) (length bs)"
      by (rule apart_sub [of _ "Suc ?n" _ 256]) (use p in auto)
    then show ?thesis by (simp add: apart_sym)
  qed
  define m' where "m' = blit m1 (l_name e) ?name (length bs)"
  have pp: "fat_parse_path m1 path (l_name e) = Some (0, m')"
    unfolding m'_def by (rule parse_path [OF p1 _ _ _ _ _ _ _ ap]) (use p in auto)
  have out: "m' x = km s x" if "\<not> inside (l_name e) 256 x" for x
    using that p m1 by (auto simp: m'_def blit_def inside_def)
  have key: "cstr m' (l_name e) bs"
    unfolding cstr_iff
  proof (intro conjI allI impI)
    fix i assume i: "i < length bs"
    then have "inside (l_name e) (length bs) (l_name e + of_nat i)" using p by (intro inside_add) auto
    then have "m' (l_name e + of_nat i) = m1 (path + of_nat (length pre + i))" by (simp add: m'_def blit_def add.assoc)
    then show "m' (l_name e + of_nat i) = bs ! i" using p1 i by (simp add: cstr_iff nth_append del: of_nat_add)
  next
    have "\<not> inside (l_name e) (length bs) (l_name e + of_nat (length bs))"
      using p by (simp add: inside_def unat_of_nat_lt)
    moreover have "inside (l_name e) 256 (l_name e + of_nat (length bs))" using p by (intro inside_add) auto
    ultimately show "m' (l_name e + of_nat (length bs)) = 0" by (simp add: m'_def blit_def m1)
    show "0 \<notin> set bs" using p by (simp add: cstr_def)
  qed
  have same: "m' x = km s x" if "a \<in> set_tree t" "inside (dir_of a) DIR_SIZE x" for a x
    by (rule out) (use p that apart_inside in blast)
  have bst: "is_bst m' (d_node (root_at s)) t" by (rule fat_tree_keep(1) [OF tree]) (rule same)
  have cmp: "fat_search_comp m' a (l_name e) = Some (search_dir m' a (l_name e)) \<and> search_dir m' a (l_name e) \<in> dirs"
    if a: "a \<in> set_tree t" for a
  proof -
    obtain xs where xs: "named (km s) a xs" using tree a by (auto simp: fat_tree_ok_def)
    have "named m' a xs" by (rule fat_tree_keep(2) [OF tree _ a xs]) (rule same)
    then show ?thesis using search_comp [OF _ key] comp_dir_dirs p by (simp add: search_dir_def)
  qed
  have "d_node (root_at s) \<noteq> NULL" using tree by (simp add: fat_tree_ok_def)
  then have "bst_search m' (d_node (root_at s)) (l_name e) (Some fat_search_comp) =
      Some (case t_find (\<lambda>a. search_dir m' a (l_name e)) t of Some a \<Rightarrow> a | None \<Rightarrow> NULL)"
    by (rule bst_search_eq [OF bst]) (use cmp p in blast)+
  moreover have "strlen (km s) path = Some (int ?n)" by (rule strlen_cstr) (use p in auto)
  ultimately have "fat_set_dir e path s = Some (0, s\<lparr>km := m', fmm := (fmm s)\<lparr>fm_cd := dir_of
        (case t_find (\<lambda>a. search_dir m' a (l_name e)) t of None \<Rightarrow> NULL | Some a \<Rightarrow> a)\<rparr>\<rparr>)"
    using pp by (simp add: fat_set_dir_def fat_set_dir_raw_def m1_def Let_def)
  then show ?thesis using key out by blast
qed

text \<open>C32: \<open>fat_set_dir\<close> with a path, absolute or not, makes the directory whose name is the last component
  the current one.\<close>

theorem fat_set_dir_found:
  assumes tree: "fat_tree_ok (km s) (d_node (root_at s)) t" and p: "set_dir_ok e path pre bs t (km s)"
    and a: "a \<in> set_tree t" "named (km s) a bs"
  shows "\<exists>m'. fat_set_dir e path s = Some (0, s\<lparr>km := m', fmm := (fmm s)\<lparr>fm_cd := dir_of a\<rparr>\<rparr>)"
proof -
  obtain m' where m': "fat_set_dir e path s = Some (0, s\<lparr>km := m', fmm := (fmm s)\<lparr>fm_cd := dir_of
        (case t_find (\<lambda>a. search_dir m' a (l_name e)) t of None \<Rightarrow> NULL | Some a \<Rightarrow> a)\<rparr>\<rparr>)"
    "cstr m' (l_name e) bs" "\<forall>x. \<not> inside (l_name e) 256 x \<longrightarrow> m' x = km s x"
    using set_dir_search [OF tree p] by blast
  have ne: "l_name e \<noteq> NULL" "bs \<noteq> []" "length bs < 256" using p by (simp_all add: set_dir_ok_def)
  have same: "m' x = km s x" if "b \<in> set_tree t" "inside (dir_of b) DIR_SIZE x" for b x
    using m'(3) p that apart_inside unfolding set_dir_ok_def by blast
  have "search_dir m' b (l_name e) = search_dir (km s) b (f_name (dir_of a))" if b: "b \<in> set_tree t" for b
  proof -
    obtain xs where xs: "named (km s) b xs" using tree b by (auto simp: fat_tree_ok_def)
    have "search_dir m' b (l_name e) = comp_dir bs xs"
      by (rule search_dir_named [OF fat_tree_keep(2) [OF tree same b xs] m'(2) ne])
    also have "\<dots> = search_dir (km s) b (f_name (dir_of a))"
      using search_dir_named [OF xs, of "f_name (dir_of a)" bs] a(2) by (simp add: named_def)
    finally show ?thesis .
  qed
  then have "t_find (\<lambda>b. search_dir m' b (l_name e)) t = t_find (\<lambda>b. search_dir (km s) b (f_name (dir_of a))) t"
    by (rule t_find_cong)
  also have "\<dots> = Some a" using tree a(1) by (simp add: fat_tree_ok_def)
  finally show ?thesis using m'(1) by auto
qed

definition fat0 :: fat_state where
  "fat0 = machine.extend (machine0\<lparr>km := one_dir\<rparr>)
     \<lparr>fat = \<lparr>ts = 0, tc = 0, bps = 512, spc = 8, ds = 4096, fat_type = 2, ffs = 0, fsn = 0, rsn = 0, dfs = 0, dsn = 0,
        cfs = 0, csn = 0, lfn = True\<rparr>,
      fmm = \<lparr>fm_cd = 0, fm_f = \<lparr>r_nums = 0, r_frees = 0, r_bp = 0, r_cp = 0, r_bit = \<lparr>bmp_base = 0, bmp_bit = 32, bmp_size = 0\<rparr>\<rparr>,
        fm_c = \<lparr>r_nums = 0, r_frees = 0, r_bp = 0, r_cp = 0, r_bit = \<lparr>bmp_base = 0, bmp_bit = 32, bmp_size = 0\<rparr>\<rparr>\<rparr>,
      root_at = 0x10000, sfn_inval_tbl = [], fstk = \<lparr>top = 0, stk = 0\<rparr>,
      mgr = \<lparr>active_port = 0, abar_at = 0\<rparr>\<rparr>"

definition fat_env0 :: fat_env where
  "fat_env0 = \<lparr>hw = \<lparr>dev = \<lambda>_ _. 0, dma = \<lambda>_ _ m. m, shl_full = id\<rparr>, junk = 0, mm_alloc = 0, beyond = \<lambda>_. 0,
     locs = name_locals, l_name = 0x40000, l_table = 0x50000, l_file = 0x60000, l_files = 0x70000, l_tree = 0x80000,
     l_dollar = 0x90000\<rparr>"

lemma fat0_fields [simp]: "km fat0 = one_dir" "root_at fat0 = 0x10000" "d_node 0x10000 = 0x10200"
  by (simp_all add: fat0_def machine.defs d_node_def)

lemma one_dir_path: "set_dir_ok fat_env0 0x30000 [47] [97] (Node Leaf 0x10200 Leaf) one_dir"
  "set_dir_ok fat_env0 0x20010 [] [98] (Node Leaf 0x10200 Leaf) one_dir"
  by (simp_all add: set_dir_ok_def fat_env0_def cstr_iff one_dir_def put_def inside_def apart_def dir_of_def
      less_Suc_eq all_conj_distrib)

lemma fat_set_dir_found_witness:
  "\<exists>m'. fat_set_dir fat_env0 0x30000 fat0 = Some (0, fat0\<lparr>km := m', fmm := (fmm fat0)\<lparr>fm_cd := 0x10000\<rparr>\<rparr>)"
  using fat_set_dir_found [of fat0 "Node Leaf 0x10200 Leaf" fat_env0 "0x30000" "[47]" "[97]" "0x10200"]
    one_dir_tree one_dir_path by (simp add: dir_of_def)

text \<open>C33: When no directory has a name that agrees with the last component, \<open>fat_set_dir\<close> still returns 0,
  and the current directory becomes address \<open>0xFFFFFE00\<close>.\<close>

theorem fat_set_dir_unknown:
  assumes tree: "fat_tree_ok (km s) (d_node (root_at s)) t" and p: "set_dir_ok e path pre bs t (km s)"
    and none: "\<forall>a\<in>set_tree t. \<forall>xs. named (km s) a xs \<longrightarrow> take (length bs) xs \<noteq> take (length xs) bs"
  shows "\<exists>m'. fat_set_dir e path s = Some (0, s\<lparr>km := m', fmm := (fmm s)\<lparr>fm_cd := 0xFFFFFE00\<rparr>\<rparr>)"
proof -
  obtain m' where m': "fat_set_dir e path s = Some (0, s\<lparr>km := m', fmm := (fmm s)\<lparr>fm_cd := dir_of
        (case t_find (\<lambda>a. search_dir m' a (l_name e)) t of None \<Rightarrow> NULL | Some a \<Rightarrow> a)\<rparr>\<rparr>)"
    "cstr m' (l_name e) bs" "\<forall>x. \<not> inside (l_name e) 256 x \<longrightarrow> m' x = km s x"
    using set_dir_search [OF tree p] by blast
  have ne: "l_name e \<noteq> NULL" "bs \<noteq> []" "length bs < 256" using p by (simp_all add: set_dir_ok_def)
  have same: "m' x = km s x" if "b \<in> set_tree t" "inside (dir_of b) DIR_SIZE x" for b x
    using m'(3) p that apart_inside unfolding set_dir_ok_def by blast
  have "t_find (\<lambda>a. search_dir m' a (l_name e)) t = None"
  proof (cases "t_find (\<lambda>a. search_dir m' a (l_name e)) t")
    case (Some a)
    note a = t_find_in [OF Some]
    obtain xs where xs: "named (km s) a xs" using tree a by (auto simp: fat_tree_ok_def)
    have "search_dir m' a (l_name e) = comp_dir bs xs"
      by (rule search_dir_named [OF fat_tree_keep(2) [OF tree same _ xs] m'(2) ne]) (use a in blast)+
    then have "first_diff bs xs = 0" using a by (auto simp: comp_dir_def split: if_splits)
    then show ?thesis using none a xs first_diff_eq_0 [of bs xs] by metis
  qed
  moreover have "dir_of NULL = 0xFFFFFE00" by (simp add: dir_of_def)
  ultimately show ?thesis using m'(1) by auto
qed

lemma fat_set_dir_unknown_witness:
  "\<exists>m'. fat_set_dir fat_env0 0x20010 fat0 = Some (0, fat0\<lparr>km := m', fmm := (fmm fat0)\<lparr>fm_cd := 0xFFFFFE00\<rparr>\<rparr>)"
proof -
  have "take (length [98 :: u8]) xs \<noteq> take (length xs) [98]" if "named one_dir 0x10200 xs" for xs
    using named_unique [OF that one_dir_tree(2)] by simp
  then show ?thesis
    using fat_set_dir_unknown [of fat0 "Node Leaf 0x10200 Leaf" fat_env0 "0x20010" "[]" "[98]"]
      one_dir_tree(1) one_dir_path(2) by simp
qed

end
