(* ===== verification/Fat_Clus.thy ===== *)
theory Fat_Clus
  imports Fat_Fs Console_Props
begin

text \<open>
  Clusters of the FAT file system, on the heap and the bitmap of clusters: \<open>fat_alloc_clus\<close> takes the
  first cluster that is free.
\<close>

text \<open>What \<open>fat_alloc_clus\<close> does once the heap has served it.\<close>

abbreviation clus_bits :: "'a fat_state_scheme \<Rightarrow> bitmap" where
  "clus_bits s \<equiv> r_bit (fm_c (fmm s))"

definition clus_taken :: "'a fat_state_scheme \<Rightarrow> nat \<Rightarrow> bool" where
  "clus_taken s i \<longleftrightarrow> bm_bit (km s) (clus_bits s) i"

lemma alloc_clus_eq:
  assumes wf: "bm_wf (clus_bits s)" and i: "first_free (clus_taken s) (bm_cap (clus_bits s)) = Some i"
    and fr: "r_frees (fm_c (fmm s)) \<noteq> 0" "file \<noteq> NULL" and a: "yalloc s 4 = Some (a, s1)" "a \<noteq> NULL"
    and only: "heap_only s s1"
  shows "fat_alloc_clus file s = Some (int i,
      s1\<lparr>km := st32 (bm_put (st32 (km s1) (f_clus file) a) (clus_bits s) i True) a (of_nat i),
         fmm := (fmm s)\<lparr>fm_c := (fm_c (fmm s))\<lparr>r_frees := r_frees (fm_c (fmm s)) - 1\<rparr>\<rparr>\<rparr>)"
proof -
  have lt: "i < bm_cap (clus_bits s)" using i by (auto simp: first_free_Some)
  have g: "bitmap_get_free (km s) (Some (clus_bits s)) = Some (int i)"
    using bitmap_get_free_eq [OF wf, of "km s"] i by (simp add: clus_taken_def [abs_def])
  have f: "fmm s1 = fmm s" using only by (auto simp: heap_only_def)
  show ?thesis
    using fr a bitmap_set_eq [OF wf lt, of _ True]
    by (simp add: fat_alloc_clus_def g f to_u32_def)
qed

text \<open>C12: \<open>fat_alloc_clus\<close> takes the first free cluster: it is what the function returns, it is in use
  afterwards and all others are as before, one less counts as free, and the number is in a new piece of the
  heap the file points to, which is none of those in use.\<close>

theorem fat_alloc_clus_takes_first:
  assumes R: "heap_regions s R" and fits: "heap_fits s R 4" and wf: "bm_wf (clus_bits s)"
    and B: "B \<in> R" "\<forall>x. inside (bmp_base (clus_bits s)) (4 * unat (bmp_size (clus_bits s))) x \<longrightarrow> inside (fst B) (snd B) x"
    and F: "Fl \<in> R" "\<forall>x. inside (f_clus file) 4 x \<longrightarrow> inside (fst Fl) (snd Fl) x"
    and ap: "apart (f_clus file) 4 (bmp_base (clus_bits s)) (4 * unat (bmp_size (clus_bits s)))"
    and fr: "r_frees (fm_c (fmm s)) \<noteq> 0" "file \<noteq> NULL"
    and i: "first_free (clus_taken s) (bm_cap (clus_bits s)) = Some i"
  shows "\<exists>a n s'. fat_alloc_clus file s = Some (int i, s') \<and> (a, n) \<notin> R \<and> heap_regions s' (insert (a, n) R)
    \<and> (\<forall>j<bm_cap (clus_bits s). clus_taken s' j \<longleftrightarrow> j = i \<or> clus_taken s j)
    \<and> clus_bits s' = clus_bits s \<and> r_frees (fm_c (fmm s')) = r_frees (fm_c (fmm s)) - 1
    \<and> ld32 (km s') (f_clus file) = a \<and> ld32 (km s') a = of_nat i"
proof -
  let ?b = "clus_bits s"
  obtain a n s1 where s1: "yalloc s 4 = Some (a, s1)" "4 \<le> n" "(a, n) \<notin> R" "heap_regions s1 (insert (a, n) R)"
    "\<And>r x. r \<in> R \<Longrightarrow> inside (fst r) (snd r) x \<Longrightarrow> km s1 x = km s x" "heap_only s s1"
    using heap_alloc_law [OF R fits] by auto
  have nn: "a \<noteq> NULL" using region_nonnull [OF s1(4), of "(a, n)"] s1(2) by simp
  define m where "m = st32 (bm_put (st32 (km s1) (f_clus file) a) ?b i True) a (of_nat i)"
  define s' where "s' = s1\<lparr>km := m, fmm := (fmm s)\<lparr>fm_c := (fm_c (fmm s))\<lparr>r_frees := r_frees (fm_c (fmm s)) - 1\<rparr>\<rparr>\<rparr>"
  have alloc: "fat_alloc_clus file s = Some (int i, s')"
    unfolding s'_def m_def by (rule alloc_clus_eq [OF wf i fr s1(1) nn s1(6)])
  have lt: "i < bm_cap ?b" using i by (auto simp: first_free_Some)
  have out: "\<not> inside a n x" if "r \<in> R" "inside (fst r) (snd r) x" for r x
    using heap.regions_disjoint [OF s1(4), of r "(a, n)" x] that s1(3) by auto
  have n4: "inside a n x" if "inside a 4 x" for x using that s1(2) by (rule inside_mono)
  have outs: "\<not> inside a 4 x" if "inside (f_clus file) 4 x \<or> inside (bmp_base ?b) (4 * unat (bmp_size ?b)) x" for x
    using that B F out n4 by blast
  define m2 where "m2 = st32 (km s1) (f_clus file) a"
  have m: "m = st32 (bm_put m2 ?b i True) a (of_nat i)" by (simp add: m_def m2_def)
  have clus: "ld32 m (f_clus file) = a"
  proof -
    have "ld32 m (f_clus file) = ld32 m2 (f_clus file)"
      unfolding m
    proof (rule ld32_cong)
      fix x assume x: "inside (f_clus file) 4 x"
      then have "\<not> inside (bmp_base ?b) (4 * unat (bmp_size ?b)) x" using ap apart_inside by blast
      then show "st32 (bm_put m2 ?b i True) a (of_nat i) x = m2 x"
        using x outs by (simp add: st32_other bm_put_other [OF wf lt])
    qed
    then show ?thesis by (simp add: m2_def)
  qed
  have bits: "bm_bit m ?b j \<longleftrightarrow> j = i \<or> bm_bit (km s) ?b j" if j: "j < bm_cap ?b" for j
  proof -
    have "bm_bit m ?b j = bm_bit (bm_put m2 ?b i True) ?b j"
      unfolding m by (rule bm_bit_cong [OF wf j]) (use outs in \<open>simp add: st32_other\<close>)
    also have "\<dots> \<longleftrightarrow> j = i \<or> bm_bit m2 ?b j" by (simp add: bm_bit_put [OF wf lt j])
    also have "bm_bit m2 ?b j = bm_bit (km s) ?b j"
    proof (rule bm_bit_cong [OF wf j])
      fix x assume x: "inside (bmp_base ?b) (4 * unat (bmp_size ?b)) x"
      then have "\<not> inside (f_clus file) 4 x" using ap apart_inside by blast
      then show "m2 x = km s x" using B s1(5) x by (simp add: m2_def st32_other)
    qed
    finally show ?thesis .
  qed
  have "heap_regions (s1\<lparr>km := m\<rparr>) (insert (a, n) R)"
  proof (rule heap_regions_write [OF s1(4)])
    fix x assume "m x \<noteq> km s1 x"
    then have "inside a 4 x \<or> inside (bmp_base ?b) (4 * unat (bmp_size ?b)) x \<or> inside (f_clus file) 4 x"
      using st32_other [of a x] bm_put_other [OF wf lt, of x] st32_other [of "f_clus file" x] unfolding m m2_def by metis
    then show "\<exists>(b, k)\<in>insert (a, n) R. inside b k x" using B F n4 by force
  qed
  then have heap: "heap_regions s' (insert (a, n) R)" by (rule heap_regions_cong) (simp_all add: s'_def)
  have "clus_bits s' = clus_bits s" by (simp add: s'_def)
  then show ?thesis using alloc s1(3) heap bits clus
    by (intro exI [of _ a] exI [of _ n] exI [of _ s']) (simp add: s'_def clus_taken_def m)
qed

lemma fat_alloc_clus_takes_first_witness:
  "\<exists>(s :: fat_state) R file a s'. heap_regions s R \<and> fat_alloc_clus file s = Some (0, s')
     \<and> ld32 (km s') (f_clus file) = a \<and> ld32 (km s') a = 0 \<and> clus_taken s' 0 \<and> \<not> clus_taken s' 1
     \<and> r_frees (fm_c (fmm s')) = 63"
proof -
  obtain s0 :: fat_state and r where s0: "heap_regions s0 {r}" "5000 \<le> snd r" "bm_heap_size (bm s0) = 12574988"
    "\<forall>i<7. 128 \<le> nslots (pools s0 ! i)" "fst r \<noteq> NULL" "unat (fst r) + snd r < 4294967296"
    using one_region by blast
  define b where "b = \<lparr>bmp_base = fst r, bmp_bit = 32, bmp_size = 2\<rparr>"
  define c where "c = \<lparr>r_nums = 64, r_frees = 64, r_bp = 0, r_cp = 0, r_bit = b\<rparr>"
  define m where "m x = (if inside (fst r) 8 x then 0 else km s0 x)" for x
  define s where "s = s0\<lparr>km := m, fmm := \<lparr>fm_cd = 0, fm_f = c, fm_c = c\<rparr>\<rparr>"
  have sb: "clus_bits s = b" "fmm s = \<lparr>fm_cd = 0, fm_f = c, fm_c = c\<rparr>" by (simp_all add: s_def c_def)
  have wf: "bm_wf b" "bm_cap b = 64" using s0(5) by (simp_all add: bm_wf_def bm_cap_def b_def)
  have "heap_regions (s0\<lparr>km := m\<rparr>) {r}"
    by (rule heap_regions_write [OF s0(1)]) (use s0(2) in \<open>auto simp: m_def inside_def split: if_splits\<close>)
  then have R: "heap_regions s {r}" by (rule heap_regions_cong) (simp_all add: s_def)
  have fits: "heap_fits s {r} 4"
    by (rule small_fits [OF R, of _ 128]) (use s0(2-4) in \<open>auto simp: s_def cells_def intro: le_less_trans [OF card_mono [of "{r}"]]\<close>)
  have clear: "\<not> bm_bit m b j" if "j < 64" for j
  proof -
    have "bm_bit m b j = bm_bit (\<lambda>_. 0) b j"
      by (rule bm_bit_cong [OF wf(1)]) (use that wf(2) in \<open>simp_all add: m_def b_def\<close>)
    then show ?thesis by (simp add: bm_bit_def ld32_def)
  qed
  have i: "first_free (clus_taken s) (bm_cap (clus_bits s)) = Some 0"
    using clear [of 0] wf(2) by (simp add: first_free_Some clus_taken_def sb(1)) (simp add: s_def)
  define fl where "fl = fst r + of_nat 100"
  have fc: "f_clus fl = fst r + of_nat 580" by (simp add: fl_def f_clus_def)
  have "unat fl = unat (fst r) + 100" unfolding fl_def unat_word_ariths using s0(2,6) by simp
  then have nn: "fl \<noteq> NULL" by auto
  have inF: "inside (fst r) (snd r) x" if "inside (f_clus fl) 4 x" for x
    by (rule inside_sub [OF that fc]) (use s0(2,6) in simp_all)
  have ap: "apart (f_clus fl) 4 (fst r) 8"
    unfolding fc using apart_offsets [of 0 8 580 4 "fst r"] by (simp add: apart_sym)
  obtain a n s' where al: "fat_alloc_clus fl s = Some (int 0, s')"
    "\<forall>j<bm_cap (clus_bits s). clus_taken s' j \<longleftrightarrow> j = 0 \<or> clus_taken s j"
    "r_frees (fm_c (fmm s')) = r_frees (fm_c (fmm s)) - 1"
    "ld32 (km s') (f_clus fl) = a" "ld32 (km s') a = of_nat 0"
    using fat_alloc_clus_takes_first [OF R fits, where B = r and Fl = r and i = 0, of fl]
      wf s0(2) inF ap nn i by (auto simp: sb b_def c_def inside_def)
  have "\<not> clus_taken s 1" using clear [of 1] by (simp add: clus_taken_def sb(1)) (simp add: s_def)
  then show ?thesis using R al wf(2)
    by (intro exI [of _ s] exI [of _ "{r}"] exI [of _ fl] exI [of _ a] exI [of _ s']) (simp add: sb c_def)
qed

end
