(* ===== verification/Boot.thy ===== *)
theory Boot
  imports Sched Drivers
begin

text \<open>
  What the kernel reads and sets up at its start: the information of the boot loader
  (\<open>parse_multiboot\<close> of \<open>main.c\<close>), the tables of a multi-processor machine (\<open>mp.c\<close>), segment
  descriptors (\<open>gdt.c\<close>), and \<open>main\<close> itself, which calls the initialisers one after the other.
\<close>

subsection \<open>The boot loader's information\<close>

text \<open>
  A tag is a type and a size; the next one starts at the next multiple of eight.  A memory map has its
  entries, of \<open>entry_size\<close> bytes, from offset 16 on; they are only printed.
\<close>

partial_function (option) mmap_loop :: "mem \<Rightarrow> addr \<Rightarrow> addr \<Rightarrow> unit option" where
  "mmap_loop m mmap entries =
     (if entries < mmap + ld32 m (mmap + 4) then mmap_loop m mmap (entries + ld32 m (mmap + 8)) else Some ())"

partial_function (option) tag_loop :: "mem \<Rightarrow> addr \<Rightarrow> int option" where
  "tag_loop m tag =
     (let type = ld32 m tag;
          next = tag + ((ld32 m (tag + 4) + 7) AND NOT 7)
      in if type = 0 then Some 0
         else if type = 6 then do { _ \<leftarrow> mmap_loop m tag (tag + 16); tag_loop m next }
         else if type > 21 then Some (-5)
         else tag_loop m next)"

definition parse_multiboot :: "mem \<Rightarrow> u32 \<Rightarrow> addr \<Rightarrow> int option" where
  "parse_multiboot m magic mbi_base =
     (if magic \<noteq> 0x36d76289 then Some (-1)
      else if mbi_base AND 7 \<noteq> 0 then Some (-2)
      else tag_loop m (mbi_base + 8))"

subsection \<open>Multi-processor tables\<close>

record cpu =
  cpu_id :: u8
  intrn :: u32
  intr :: u8
  current :: addr

record cpu_mgr =
  ioapic :: addr
  lapic_addr :: addr
  ncpu :: u32
  cpus_tab :: "cpu list"

record gdt_mgr =
  gdt_bp :: addr
  gdt_cp :: addr
  gdt_num :: int

record boot_state = sched_state +
  cpus :: cpu_mgr
  gmt :: gdt_mgr

text \<open>\<open>struct mp_fps\<close> has 16 bytes, \<open>struct mp_conf_tab\<close> 44, an entry for a processor 20 and any other 8.\<close>

definition mp_checksum :: "mem \<Rightarrow> addr \<Rightarrow> nat \<Rightarrow> u8" where
  "mp_checksum m fps len = fold (\<lambda>i sum. sum + m (fps + of_nat i)) [0..<len] 0"

definition mp_validate :: "mem \<Rightarrow> addr \<Rightarrow> addr \<Rightarrow> int option" where
  "mp_validate m sig mp = do {
     c \<leftarrow> strcmp m mp sig;
     if c \<noteq> 0 then Some (-1)
     else
       let len = (if m sig = 0x50 then unat (ld16 m (mp + 4)) else unat (m (mp + 8)) * 16)
       in Some (if mp_checksum m mp len \<noteq> 0 then -2 else 0) }"

partial_function (option) fps_loop :: "mem \<Rightarrow> addr \<Rightarrow> addr \<Rightarrow> addr \<Rightarrow> addr option" where
  "fps_loop m sig p fin =
     (if p < fin then do {
        r \<leftarrow> mp_validate m sig p;
        if r = 0 then Some p else fps_loop m sig (p + 16) fin }
      else Some NULL)"

text \<open>\<open>sig_mp\<close> and \<open>sig_pcmp\<close> are the addresses of the strings \<open>"_MP_"\<close> and \<open>"PCMP"\<close>.\<close>

definition mp_parse :: "addr \<Rightarrow> 'a machine_scheme \<Rightarrow> u32 \<Rightarrow> int \<Rightarrow> addr option" where
  "mp_parse sig_mp s base sz =
     (let fps = vmm_phy_to_virt s base in fps_loop (km s) sig_mp fps (fps + to_u32 sz))"

definition mp_search :: "addr \<Rightarrow> 'a machine_scheme \<Rightarrow> addr option" where
  "mp_search sig_mp s = do {
     mp \<leftarrow> mp_parse sig_mp s (push_bit 4 (ucast (vmm_get_uint16 s (0x400 + 0x0E)))) 1024;
     if mp \<noteq> NULL then Some mp
     else do {
       mp \<leftarrow> mp_parse sig_mp s (ucast (vmm_get_uint16 s (0x400 + 0x13)) * 1024 - 1024) 1024;
       if mp \<noteq> NULL then Some mp
       else mp_parse sig_mp s 0xF0000 0x10000 } }"

text \<open>The table and, where there is one, the structure that points to it.\<close>

definition mp_config :: "addr \<Rightarrow> addr \<Rightarrow> 'a machine_scheme \<Rightarrow> (addr \<times> addr) option" where
  "mp_config sig_mp sig_pcmp s = do {
     fps \<leftarrow> mp_search sig_mp s;
     if fps = NULL then Some (NULL, NULL)
     else if ld32 (km s) (fps + 4) = 0 then Some (NULL, NULL)
     else do {
       let conf = vmm_phy_to_virt s (ld32 (km s) (fps + 4));
       r \<leftarrow> mp_validate (km s) sig_pcmp conf;
       Some (if r \<noteq> 0 then (NULL, NULL) else (conf, fps)) } }"

text \<open>An entry of unknown type is only reported, and looked at again until the count runs out.\<close>

fun mp_entries :: "mem \<Rightarrow> nat \<Rightarrow> addr \<Rightarrow> cpu_mgr \<Rightarrow> cpu_mgr option" where
  "mp_entries m 0 p c = Some c"
| "mp_entries m (Suc n) p c =
     (if m p = 0 then
        (if ncpu c < 4 then
           (if unat (ncpu c) < length (cpus_tab c) then
              mp_entries m n (p + 20) (c\<lparr>cpus_tab := (cpus_tab c)[unat (ncpu c) := (cpus_tab c ! unat (ncpu c))\<lparr>cpu_id := m (p + 1)\<rparr>],
                ncpu := ncpu c + 1\<rparr>)
            else None)
         else mp_entries m n (p + 20) c)
      else if m p = 2 then mp_entries m n (p + 8) (c\<lparr>ioapic := p\<rparr>)
      else if m p = 1 \<or> m p = 3 \<or> m p = 4 then mp_entries m n (p + 8) c
      else mp_entries m n p c)"

text \<open>That there is no table is only reported; the code then reads it through \<open>NULL\<close>.\<close>

definition mp_init :: "device \<Rightarrow> addr \<Rightarrow> addr \<Rightarrow> 'a boot_state_scheme \<Rightarrow> 'a boot_state_scheme option" where
  "mp_init d sig_mp sig_pcmp s = do {
     (conf, fps) \<leftarrow> mp_config sig_mp sig_pcmp s;
     if conf = NULL then None
     else do {
       let c = (cpus s)\<lparr>lapic_addr := ld32 (km s) (conf + 36)\<rparr>;
       c \<leftarrow> mp_entries (km s) (unat (ld16 (km s) (conf + 34))) (conf + 44) c;
       let s = s\<lparr>cpus := c\<rparr>;
       if km s (fps + 12) \<noteq> 0 then
         let s = outb 0x22 0x70 s;
             (b, s) = inb d 0x23 s
         in Some (outb 0x23 (b OR 1) s)
       else Some s } }"

subsection \<open>Segment descriptors\<close>

text \<open>The flags go through a 16-bit parameter.\<close>

abbreviation GDT_CODE :: u16 where "GDT_CODE \<equiv> 0x9E00"
abbreviation GDT_DATA :: u16 where "GDT_DATA \<equiv> 0x9200"
abbreviation GDT_MAX_NUM :: int where "GDT_MAX_NUM \<equiv> 8192"
abbreviation GDT_MAX_LIMIT :: u32 where "GDT_MAX_LIMIT \<equiv> 0x000FFFFF"

definition gdt_crt32 :: "u32 \<Rightarrow> u32 \<Rightarrow> u16 \<Rightarrow> 'a boot_state_scheme \<Rightarrow> addr \<times> 'a boot_state_scheme" where
  "gdt_crt32 base limit flag s =
     (let desc = gdt_cp (gmt s) in
      if gdt_num (gmt s) > GDT_MAX_NUM then (NULL, s)
      else
        let m = st32 (km s) desc (limit OR 0x0000FFFF);
            m = st32 m desc (ld32 m desc OR push_bit 16 (base OR 0x0000FFFF));
            desc = desc + 4;
            m = st32 m desc (drop_bit 16 (base OR 0x00FF0000));
            m = st32 m desc (ld32 m desc OR ucast flag);
            m = st32 m desc (ld32 m desc OR (limit OR 0x000F0000));
            m = st32 m desc (ld32 m desc OR (base OR 0xFF000000));
            desc = desc + 4
        in (desc, s\<lparr>km := m, gmt := (gmt s)\<lparr>gdt_cp := desc, gdt_num := gdt_num (gmt s) + 1\<rparr>\<rparr>))"

text \<open>The high half of the base goes to the descriptor behind the one that was written.\<close>

definition gdt_crt64 :: "u64 \<Rightarrow> u32 \<Rightarrow> u16 \<Rightarrow> 'a boot_state_scheme \<Rightarrow> addr \<times> 'a boot_state_scheme" where
  "gdt_crt64 base limit flag s =
     (if limit < 1 \<or> limit > GDT_MAX_LIMIT then (NULL, s)
      else
        let (desc, s) = gdt_crt32 (ucast base) limit flag s in
        if desc = NULL then (NULL, s)
        else
          let m = st32 (km s) desc (ld32 (km s) desc OR ucast (drop_bit 32 base))
          in (desc, s\<lparr>km := m, gmt := (gmt s)\<lparr>gdt_cp := desc\<rparr>\<rparr>))"

definition gdt_crt_kern64_code :: "u64 \<Rightarrow> u32 \<Rightarrow> 'a boot_state_scheme \<Rightarrow> int \<times> 'a boot_state_scheme" where
  "gdt_crt_kern64_code base limit s =
     (let (p, s) = gdt_crt64 base limit GDT_CODE s in (if p = NULL then -1 else 0, s))"

definition get_crt_kern64_data :: "u64 \<Rightarrow> u32 \<Rightarrow> 'a boot_state_scheme \<Rightarrow> int \<times> 'a boot_state_scheme" where
  "get_crt_kern64_data base limit s =
     (let (p, s) = gdt_crt64 base limit GDT_DATA s in (if p = NULL then -1 else 0, s))"

text \<open>The 32-bit ones have no result.\<close>

definition gdt_crt_kern32_code :: "u32 \<Rightarrow> u32 \<Rightarrow> 'a boot_state_scheme \<Rightarrow> 'a boot_state_scheme" where
  "gdt_crt_kern32_code base limit s = snd (gdt_crt32 base limit GDT_CODE s)"

definition get_crt_kern32_data :: "u32 \<Rightarrow> u32 \<Rightarrow> 'a boot_state_scheme \<Rightarrow> 'a boot_state_scheme" where
  "get_crt_kern32_data base limit s = snd (gdt_crt32 base limit GDT_DATA s)"

definition gdt_init :: "'a boot_state_scheme \<Rightarrow> 'a boot_state_scheme" where
  "gdt_init s = s\<lparr>gmt := (gmt s)\<lparr>gdt_bp := 0x200000, gdt_cp := 0x200000\<rparr>\<rparr>"

subsection \<open>Start\<close>

text \<open>
  \<open>main\<close> up to the call of \<open>sched\<close>, without the processor's own set-up (\<open>cpu_init\<close>, \<open>sti\<close>).  The results of
  the initialisers are not looked at.  \<open>utk\<close> is the address a new process starts at, \<open>t1\<close> and \<open>t2\<close> are those
  of \<open>test1\<close> and \<open>test2\<close>; \<open>magic\<close> and \<open>mbi\<close> come from the boot loader.
\<close>

record boot_env =
  be_dev :: device
  be_isr :: isr_addrs
  be_idt :: u32
  be_virt :: u32
  be_junk :: int
  be_mp :: addr
  be_pcmp :: addr
  be_utk :: u32
  be_t1 :: u32
  be_t2 :: u32

definition kmain :: "boot_env \<Rightarrow> u32 \<Rightarrow> u32 \<Rightarrow> 'a boot_state_scheme \<Rightarrow> 'a boot_state_scheme option" where
  "kmain e magic mbi s = do {
     let s = vmm_init (be_virt e) s;
     let s = vga_text_init s;
     (r, s) \<leftarrow> mm_init s (be_junk e) (vmm_base (vm s)) (0x100000 * 512);
     _ \<leftarrow> parse_multiboot (km s) magic (vmm_phy_to_virt s mbi);
     s \<leftarrow> mp_init (be_dev e) (be_mp e) (be_pcmp e) s;
     let s = pic_init (be_dev e) s;
     s \<leftarrow> interrupt_init (be_isr e) (be_idt e) s;
     s \<leftarrow> pit_init (be_isr e) s;
     s \<leftarrow> keyboard_init (be_dev e) (be_isr e) s;
     s \<leftarrow> proc_init s;
     s \<leftarrow> sched_init s;
     let (p, s) = proc_create (be_utk e) s (be_t1 e);
     let (p, s) = proc_create (be_utk e) s (be_t2 e);
     Some s }"

end
