(* ===== verification/Boot_Props.thy ===== *)
theory Boot_Props
  imports Boot Sched_Props
begin

text \<open>What \<open>mp_init\<close> makes of the tables of a multi-processor machine, and what is wrong with the segment descriptors.\<close>

subsection \<open>Multi-processor tables\<close>

datatype mp_entry = Proc u8 | Ioapic | Other u8

fun entries_at :: "mem \<Rightarrow> addr \<Rightarrow> mp_entry list \<Rightarrow> bool" where
  "entries_at m p [] \<longleftrightarrow> True"
| "entries_at m p (Proc i # es) \<longleftrightarrow> m p = 0 \<and> m (p + 1) = i \<and> entries_at m (p + 20) es"
| "entries_at m p (Ioapic # es) \<longleftrightarrow> m p = 2 \<and> entries_at m (p + 8) es"
| "entries_at m p (Other t # es) \<longleftrightarrow> m p = t \<and> (t = 1 \<or> t = 3 \<or> t = 4) \<and> entries_at m (p + 8) es"

fun proc_ids :: "mp_entry list \<Rightarrow> u8 list" where
  "proc_ids [] = []"
| "proc_ids (Proc i # es) = i # proc_ids es"
| "proc_ids (e # es) = proc_ids es"

definition known_ids :: "cpu_mgr \<Rightarrow> u8 list" where
  "known_ids c = map cpu_id (take (unat (ncpu c)) (cpus_tab c))"

lemma mp_entries_ids:
  assumes "entries_at m p es" "length (cpus_tab c) = 4" "unat (ncpu c) \<le> 4"
  shows "\<exists>c'. mp_entries m (length es) p c = Some c' \<and> known_ids c' = take 4 (known_ids c @ proc_ids es)
    \<and> unat (ncpu c') = length (known_ids c') \<and> lapic_addr c' = lapic_addr c"
  using assms
proof (induction es arbitrary: p c)
  case Nil
  then show ?case by (simp add: known_ids_def)
next
  case (Cons e es)
  show ?case
  proof (cases e)
    case (Proc i)
    show ?thesis
    proof (cases "ncpu c < 4")
      case True
      then have n: "unat (ncpu c) < 4" by (simp add: word_less_nat_alt)
      then have u: "unat (ncpu c + 1) = Suc (unat (ncpu c))" by (simp add: unat_word_ariths)
      let ?c = "c\<lparr>cpus_tab := (cpus_tab c)[unat (ncpu c) := (cpus_tab c ! unat (ncpu c))\<lparr>cpu_id := i\<rparr>], ncpu := ncpu c + 1\<rparr>"
      have ids: "known_ids ?c = known_ids c @ [i]"
        using n u Cons.prems(2) by (simp add: known_ids_def take_Suc_conv_app_nth take_update_cancel)
      have "\<exists>c'. mp_entries m (length es) (p + 20) ?c = Some c' \<and> known_ids c' = take 4 (known_ids ?c @ proc_ids es)
          \<and> unat (ncpu c') = length (known_ids c') \<and> lapic_addr c' = lapic_addr ?c"
        by (rule Cons.IH) (use Cons.prems Proc n u in auto)
      then show ?thesis using Cons.prems Proc True n unfolding ids by simp
    next
      case False
      then have n: "unat (ncpu c) = 4" using Cons.prems(3) by (simp add: word_less_nat_alt)
      have "\<exists>c'. mp_entries m (length es) (p + 20) c = Some c' \<and> known_ids c' = take 4 (known_ids c @ proc_ids es)
          \<and> unat (ncpu c') = length (known_ids c') \<and> lapic_addr c' = lapic_addr c"
        by (rule Cons.IH) (use Cons.prems Proc in auto)
      then show ?thesis using Cons.prems Proc False n by (simp add: known_ids_def)
    qed
  next
    case Ioapic
    have "\<exists>c'. mp_entries m (length es) (p + 8) (c\<lparr>ioapic := p\<rparr>) = Some c'
        \<and> known_ids c' = take 4 (known_ids (c\<lparr>ioapic := p\<rparr>) @ proc_ids es)
        \<and> unat (ncpu c') = length (known_ids c') \<and> lapic_addr c' = lapic_addr (c\<lparr>ioapic := p\<rparr>)"
      by (rule Cons.IH) (use Cons.prems Ioapic in auto)
    then show ?thesis using Cons.prems Ioapic by (simp add: known_ids_def)
  next
    case (Other t)
    then show ?thesis using Cons.IH [of "p + 8" c] Cons.prems by auto
  qed
qed

text \<open>C38: When the search finds a valid table, \<open>mp_init\<close> knows the processors of its first four processor entries,
  in their order, and the address of the local interrupt controllers.\<close>

theorem mp_init_processors:
  assumes "mp_config sig_mp sig_pcmp s = Some (conf, fps)" "conf \<noteq> NULL"
    and "length es = unat (ld16 (km s) (conf + 34))" "entries_at (km s) (conf + 44) es"
    and "length (cpus_tab (cpus s)) = 4" "ncpu (cpus s) = 0"
  shows "\<exists>s'. mp_init d sig_mp sig_pcmp s = Some s' \<and> known_ids (cpus s') = take 4 (proc_ids es)
    \<and> unat (ncpu (cpus s')) = min 4 (length (proc_ids es)) \<and> lapic_addr (cpus s') = ld32 (km s) (conf + 36)"
proof -
  let ?c = "(cpus s)\<lparr>lapic_addr := ld32 (km s) (conf + 36)\<rparr>"
  obtain c' where c': "mp_entries (km s) (length es) (conf + 44) ?c = Some c'"
    "known_ids c' = take 4 (known_ids ?c @ proc_ids es)" "unat (ncpu c') = length (known_ids c')"
    "lapic_addr c' = lapic_addr ?c"
    using mp_entries_ids [OF assms(4), of ?c] assms(5,6) by auto
  have "known_ids ?c = []" using assms(6) by (simp add: known_ids_def)
  then show ?thesis using c' assms(1-3) by (simp add: mp_init_def Let_def outb_def inb_def min.commute)
qed

definition boot_mem :: mem where
  "boot_mem = put (put (put (put (put (\<lambda>_. 0) 0x100 [95, 77, 80, 95, 0]) 0x110 [80, 67, 77, 80, 0]) 0x40E [0x50, 0])
     0x500 [95, 77, 80, 95, 0, 6, 0, 0, 1, 4, 154, 0, 0, 0, 0, 0])
     0x600 ([80, 67, 77, 80, 64, 0, 4, 166] @ replicate 26 0 @ [1, 0, 0, 0, 0xE0, 0xFE, 0, 0, 0, 0, 0, 7] @ replicate 18 0)"

definition boot0 :: boot_state where
  "boot0 = sched_state.extend (sched0\<lparr>km := boot_mem, vm := \<lparr>vmm_base = 0, vmm_inited = True\<rparr>\<rparr>)
     \<lparr>cpus = \<lparr>ioapic = 0, lapic_addr = 0, ncpu = 0, cpus_tab = replicate 4 \<lparr>cpu_id = 0, intrn = 0, intr = 0, current = 0\<rparr>\<rparr>,
      gmt = \<lparr>gdt_bp = 0, gdt_cp = 0, gdt_num = 0\<rparr>\<rparr>"

lemma boot0_fields [simp]: "km boot0 = boot_mem" "vm boot0 = \<lparr>vmm_base = 0, vmm_inited = True\<rparr>"
  "cpus boot0 = \<lparr>ioapic = 0, lapic_addr = 0, ncpu = 0, cpus_tab = replicate 4 \<lparr>cpu_id = 0, intrn = 0, intr = 0, current = 0\<rparr>\<rparr>"
  by (simp_all add: boot0_def sched_state.defs)

lemma rd_put_apart: "n \<le> 2 ^ 32 \<Longrightarrow> apart a n b (length cs) \<Longrightarrow> rd (put m b cs) a n = rd m a n"
  by (rule rd_cong) (auto simp: put_def dest: apart_inside)

lemma rd_byte: "rd m a n = xs \<Longrightarrow> i < n \<Longrightarrow> m (a + of_nat i) = xs ! i"
  by auto

lemma rd_take: "rd m a n = xs \<Longrightarrow> k \<le> n \<Longrightarrow> rd m a k = take k xs"
  by (auto simp: rd_def take_map)

lemma cstr_block: "rd m a n = bs @ [0] \<Longrightarrow> 0 \<notin> set bs \<Longrightarrow> cstr m a bs"
  using length_rd [of m a n] by (simp add: cstr_def)

lemma checksum_sum: "mp_checksum m a n = sum_list (rd m a n)"
proof -
  have "fold (\<lambda>i sum. sum + m (a + of_nat i)) [0..<n] v = v + sum_list (rd m a n)" for v
    by (induction n arbitrary: v) (simp_all add: rd_def ac_simps)
  then show ?thesis by (simp add: mp_checksum_def)
qed

lemma boot_blocks: "rd boot_mem 0x100 5 = [95, 77, 80, 95, 0]" "rd boot_mem 0x110 5 = [80, 67, 77, 80, 0]"
  "rd boot_mem 0x40E 2 = [0x50, 0]" "rd boot_mem 0x500 16 = [95, 77, 80, 95, 0, 6, 0, 0, 1, 4, 154, 0, 0, 0, 0, 0]"
  "rd boot_mem 0x600 64 = [80, 67, 77, 80, 64, 0, 4, 166] @ replicate 26 0 @ [1, 0, 0, 0, 0xE0, 0xFE, 0, 0, 0, 0, 0, 7] @ replicate 18 0"
proof -
  have r: "rd (put m a xs) a n = xs" if "length xs = n" "n \<le> 64" for m a n xs using rd_put [of xs m a] that by simp
  show "rd boot_mem 0x100 5 = [95, 77, 80, 95, 0]" "rd boot_mem 0x110 5 = [80, 67, 77, 80, 0]"
    "rd boot_mem 0x40E 2 = [0x50, 0]" "rd boot_mem 0x500 16 = [95, 77, 80, 95, 0, 6, 0, 0, 1, 4, 154, 0, 0, 0, 0, 0]"
    by (simp_all add: boot_mem_def rd_put_apart apart_def r)
  show "rd boot_mem 0x600 64 = [80, 67, 77, 80, 64, 0, 4, 166] @ replicate 26 0 @ [1, 0, 0, 0, 0xE0, 0xFE, 0, 0, 0, 0, 0, 7] @ replicate 18 0"
    unfolding boot_mem_def by (rule r) simp_all
qed

text \<open>Whatever the rest of memory holds, the blocks below \<open>0x1000\<close> are what the tables are read from.\<close>

definition boot_low :: "mem \<Rightarrow> bool" where
  "boot_low m \<longleftrightarrow> (\<forall>x. inside 0 0x1000 x \<longrightarrow> m x = boot_mem x)"

lemma low_rd: "boot_low m \<Longrightarrow> unat a + n \<le> 0x1000 \<Longrightarrow> rd m a n = rd boot_mem a n"
proof (rule rd_cong)
  fix x assume m: "boot_low m" and n: "unat a + n \<le> 0x1000" and x: "inside a n x"
  have "inside 0 0x1000 x" by (rule inside_sub [OF x, where d = "unat a"]) (use n in simp_all)
  then show "m x = boot_mem x" using m by (simp add: boot_low_def)
qed simp

lemma low_blocks:
  assumes "boot_low m"
  shows "rd m 0x100 5 = [95, 77, 80, 95, 0]" "rd m 0x110 5 = [80, 67, 77, 80, 0]"
    "rd m 0x40E 2 = [0x50, 0]" "rd m 0x500 16 = [95, 77, 80, 95, 0, 6, 0, 0, 1, 4, 154, 0, 0, 0, 0, 0]"
    "rd m 0x600 64 = [80, 67, 77, 80, 64, 0, 4, 166] @ replicate 26 0 @ [1, 0, 0, 0, 0xE0, 0xFE, 0, 0, 0, 0, 0, 7] @ replicate 18 0"
  using boot_blocks by (simp_all add: low_rd [OF assms])

lemma low_strings:
  assumes "boot_low m"
  shows "cstr m 0x100 [95, 77, 80, 95]" "cstr m 0x110 [80, 67, 77, 80]"
    "cstr m 0x500 [95, 77, 80, 95]" "cstr m 0x600 [80, 67, 77, 80, 64]"
  using low_blocks(1,2) [OF assms] rd_take [OF low_blocks(4) [OF assms], of 5] rd_take [OF low_blocks(5) [OF assms], of 6]
  by (auto intro!: cstr_block)

lemma low_sums:
  assumes "boot_low m"
  shows "mp_checksum m 0x500 16 = 0" "mp_checksum m 0x600 64 = 0"
  by (simp_all add: checksum_sum low_blocks [OF assms] sum_list_replicate)

lemma low_bytes:
  assumes low: "boot_low m"
  shows "m 0x100 = 95" "m 0x110 = 80" "m 0x508 = 1" "m 0x62C = 0" "m 0x62D = 7"
    "ld16 m 0x604 = 64" "ld32 m 0x504 = 0x600" "ld16 m 0x40E = 0x50"
    "ld16 m 0x622 = 1" "ld32 m 0x624 = 0xFEE00000"
proof -
  note blocks = low_blocks [OF low]
  have a: "m (0x500 + of_nat i) = [95, 77, 80, 95, 0, 6, 0, 0, 1, 4, 154, 0, 0, 0, 0, 0] ! i" if "i < 16" for i
    by (rule rd_byte [OF blocks(4) that])
  have b: "m (0x600 + of_nat i) = ([80, 67, 77, 80, 64, 0, 4, 166] @ replicate 26 0
      @ [1, 0, 0, 0, 0xE0, 0xFE, 0, 0, 0, 0, 0, 7] @ replicate 18 0) ! i" if "i < 64" for i
    by (rule rd_byte [OF blocks(5) that])
  show "m 0x100 = 95" "m 0x110 = 80"
    using rd_byte [OF blocks(1), of 0] rd_byte [OF blocks(2), of 0] by simp_all
  show "m 0x508 = 1" "ld32 m 0x504 = 0x600" using a [of 8] a [of 4] a [of 5] a [of 6] a [of 7] by (simp_all add: ld32_def)
  show "m 0x62C = 0" "m 0x62D = 7" "ld16 m 0x604 = 64" "ld16 m 0x622 = 1" "ld32 m 0x624 = 0xFEE00000"
    using b [of 44] b [of 45] b [of 4] b [of 5] b [of 34] b [of 35] b [of 36] b [of 37] b [of 38] b [of 39]
    by (simp_all add: ld16_def ld32_def nth_append)
  show "ld16 m 0x40E = 0x50"
    using rd_byte [OF blocks(3), of 0] rd_byte [OF blocks(3), of 1] by (simp add: ld16_def)
qed

lemma low_config:
  fixes s :: "'a machine_scheme"
  assumes low: "boot_low (km s)" and v: "vmm_base (vm s) = 0"
  shows "mp_config 0x100 0x110 s = Some (0x600, 0x500)"
proof -
  note b = low_bytes [OF low] and st = low_strings [OF low]
  have "strcmp (km s) 0x500 0x100 = Some 0" "strcmp (km s) 0x600 0x110 = Some 0"
    using strcmp_correct [OF st(3,1)] strcmp_correct [OF st(4,2)] by simp_all
  then have v: "mp_validate (km s) 0x100 0x500 = Some 0" "mp_validate (km s) 0x110 0x600 = Some 0" "vmm_base (vm s) = 0"
    using low_sums [OF low] b v by (simp_all add: mp_validate_def)
  have "fps_loop (km s) 0x100 0x500 0x900 = Some 0x500"
    by (subst fps_loop.simps) (simp add: v)
  then have "mp_search 0x100 s = Some 0x500"
    using b v by (simp add: mp_search_def mp_parse_def vmm_get_uint16_def vmm_phy_to_virt_def to_u32_def)
  then show ?thesis using v b by (simp add: mp_config_def vmm_phy_to_virt_def)
qed

lemma mp_init_processors_witness:
  "\<exists>s'. mp_init (\<lambda>_ _. 0) 0x100 0x110 boot0 = Some s' \<and> known_ids (cpus s') = [7] \<and> unat (ncpu (cpus s')) = 1
    \<and> lapic_addr (cpus s') = 0xFEE00000"
proof -
  have low: "boot_low (km boot0)" by (simp add: boot_low_def)
  note b = low_bytes [OF low] and conf = low_config [OF low]
  have "length [Proc 7] = unat (ld16 (km boot0) (0x600 + 34))" "entries_at (km boot0) (0x600 + 44) [Proc 7]"
    using b by simp_all
  from mp_init_processors [OF conf _ this] show ?thesis using b by simp
qed

subsection \<open>Segment descriptors\<close>

text \<open>
  The limit and the base are combined with their masks by \<open>OR\<close>, so a descriptor's low word is all ones
  whatever was asked for.
\<close>

lemma ld16_ld32: "ld16 m a = ucast (ld32 m a)"
  unfolding ld16_def ld32_def by (rule bit_word_eqI) (auto simp: bit_simps)

lemma ones16: "(0xFFFF :: u32) = mask 16" "(0xFFFF :: u16) = mask 16"
  by (simp_all add: mask_eq_exp_minus_1)

lemma gdt_low_word:
  assumes "gdt_num (gmt s) \<le> GDT_MAX_NUM" "gdt_crt32 addr limit flag s = (p, s')"
  shows "ld16 (km s') (gdt_cp (gmt s)) = 0xFFFF"
proof -
  let ?d = "gdt_cp (gmt s)"
  have "apart ?d 4 (?d + 4) 4" by (simp add: apart_def)
  then have "ld32 (km s') ?d = (limit OR 0xFFFF) OR push_bit 16 (addr OR 0xFFFF)"
    using assms by (auto simp: gdt_crt32_def Let_def ld32_st32_apart)
  then show ?thesis unfolding ld16_ld32 ones16
    by (simp only:) (rule bit_word_eqI, auto simp: bit_simps)
qed

end
