(* ===== verification/Boot_Steps.thy ===== *)
theory Boot_Steps
  imports Boot_Props Drivers_Props
begin

text \<open>
  The steps of the start: a lemma for each initialiser \<open>main\<close> calls, which says what it computes from the
  state the one before it leaves, and which bytes of memory and which fields it does not touch.
  \<open>Boot_Main\<close> puts them together.
\<close>

subsection \<open>The heap\<close>

text \<open>Half a gigabyte: the eleven orders there can be at most.\<close>

lemma data_size_main: "data_size 536870912 11 = 536543000"
proof -
  have "{..<11} = insert 10 {..<10 :: nat}" by auto
  also have "{..<10} = {0, 1, 2, 3, 4, 5, 6, 7, 8, 9 :: nat}" by auto
  finally show ?thesis by (simp add: data_size_def bmp_off_def qn_def bmp_words_def)
qed

lemma full_depth:
  assumes "k \<le> 11" "k < 11 \<longrightarrow> X < 8 * (2048 * 2 ^ k)" "16777216 \<le> (X :: nat)"
  shows "k = 11"
proof (rule ccontr)
  assume "k \<noteq> 11"
  then have k: "k \<le> 10" "X < 8 * (2048 * 2 ^ k)" using assms(1,2) by auto
  have "(2 :: nat) ^ k \<le> 2 ^ 10" using k(1) by (intro power_increasing) auto
  then show False using k(2) assms(3) by simp
qed

lemma main_buddies:
  fixes s :: "'a pool_state_scheme"
  assumes base: "hb \<noteq> NULL" "unat hb + 536870912 < 4294967296"
    and heads: "apart (lz_frees (lazy s)) 8 hb 536870912" "apart (lz_inuses (lazy s)) 8 hb 536870912"
  obtains r s1 where "bud_init_raw s hb (int 536870912) 2048 = Some (r, s1)" "bud_rep s1 {}" "nord s1 = 11"
    "bm_ll (bm s1) = 2048" "bm_heap_size (bm s1) = 536543000" "pool_state.more s1 = pool_state.more s"
    "\<forall>x. in_heap s1 x \<longrightarrow> inside hb 536870912 x"
    "\<forall>x. \<not> inside hb 536870912 x \<longrightarrow> \<not> inside (lz_frees (lazy s)) 8 x \<longrightarrow> \<not> inside (lz_inuses (lazy s)) 8 x
        \<longrightarrow> km s1 x = km s x"
proof -
  have H: "131072 \<le> (536870912 :: nat)" "(536870912 :: nat) < 2147483648" by simp_all
  from bud_init_state [OF base H heads] obtain s1 rmd D n where
    init: "bud_init_raw s hb (int 536870912) 2048 = Some (int rmd, s1)" and st: "init_state (unat hb) D n s1"
    and sum: "24 * n + bmp_off D 2048 n + D div 2048 + D + rmd = 536870912"
    and n: "0 < n" "n \<le> 11" "\<forall>d<n. 8 * (2048 * 2 ^ d) \<le> D" "n < 11 \<longrightarrow> D < 8 * (2048 * 2 ^ n)"
    and j: "\<exists>j\<le>11. D = data_size 536870912 j \<and> (\<forall>d<j. 8 * (2048 * 2 ^ d) \<le> (536870912 :: nat))
      \<and> (j < 11 \<longrightarrow> (536870912 :: nat) < 8 * (2048 * 2 ^ j))"
    and more: "bud_state.more s1 = bud_state.more s"
    and fr: "\<forall>x. \<not> inside hb 536870912 x \<longrightarrow> \<not> inside (lz_frees (lazy s)) 8 x
        \<longrightarrow> \<not> inside (lz_inuses (lazy s)) 8 x \<longrightarrow> km s1 x = km s x"
    by blast
  have D: "D = 536543000" using j full_depth [of _ 536870912] data_size_main by auto
  then have n11: "n = 11" using full_depth [OF n(2,4)] by simp
  have S: "nord s1 = 11" "bm_heap_size (bm s1) = 536543000" "bm_ll (bm s1) = 2048"
    using st by (simp_all add: init_state_def D n11)
  have "536543000 div 2048 div 2 ^ i mod 32 \<noteq> (0 :: nat)" if "i < 11" for i
  proof -
    have "i < 5 \<or> 5 \<le> i \<and> i < 10 \<or> i = 10" using that by linarith
    then show ?thesis
    proof (elim disjE)
      assume "i < 5"
      then have "i = 0 \<or> i = 1 \<or> i = 2 \<or> i = 3 \<or> i = 4" by auto
      then show ?thesis by auto
    next
      assume "5 \<le> i \<and> i < 10"
      then have "i = 5 \<or> i = 6 \<or> i = 7 \<or> i = 8 \<or> i = 9" by auto
      then show ?thesis by auto
    qed simp
  qed
  then have "\<forall>i<nord s1. nblk s1 i mod 32 \<noteq> 0" using S by (simp add: nblk_def units_total_def)
  then have rep: "bud_rep s1 {}" by (rule init_state_rep [OF base H st sum n(1-3)])
  have "\<forall>x. in_heap s1 x \<longrightarrow> inside hb 536870912 x"
    using init_in_heap [OF base H(2) st sum n(2,3)] by blast
  moreover have "pool_state.more s1 = pool_state.more s"
    using more by (cases s, cases s1) simp
  ultimately show ?thesis using that init rep S fr by blast
qed

text \<open>What \<open>mm_init\<close> makes of it, and which bytes it may write to.\<close>

definition boot_heap_zone :: "u32 \<Rightarrow> 'a bud_state_scheme \<Rightarrow> addr \<Rightarrow> bool" where
  "boot_heap_zone virt s x \<longleftrightarrow> inside (MM_BASE + virt) 536870912 x \<or> inside (lz_frees (lazy s)) 8 x
     \<or> inside (lz_inuses (lazy s)) 8 x"

lemma main_heap:
  fixes s :: "'a pool_state_scheme"
  assumes virt: "MM_BASE + virt \<noteq> NULL" "unat (MM_BASE + virt) + 536870912 < 4294967296" and junk: "0 \<le> junk" "junk \<le> INT_MAX - 2560"
    and heads: "apart (lz_frees (lazy s)) 8 (MM_BASE + virt) 536870912" "apart (lz_inuses (lazy s)) 8 (MM_BASE + virt) 536870912"
  obtains s' where "mm_init s junk virt (0x100000 * 512) = Some (0, s')" "heap_regions s' {}" "nord s' = 11"
    "bm_ll (bm s') = 2048" "bm_heap_size (bm s') = 536543000" "\<forall>i<7. \<forall>k<128. (i, k) \<in> cells s'"
    "pool_state.more s' = pool_state.more s" "\<forall>x. in_heap s' x \<longrightarrow> inside (MM_BASE + virt) 536870912 x"
    "\<forall>x. \<not> boot_heap_zone virt s x \<longrightarrow> km s' x = km s x"
proof -
  let ?s = "s\<lparr>mmm := (mmm s)\<lparr>org_size := int 536870912\<rparr>\<rparr>"
  have h: "apart (lz_frees (lazy ?s)) 8 (MM_BASE + virt) 536870912" "apart (lz_inuses (lazy ?s)) 8 (MM_BASE + virt) 536870912"
    using heads by simp_all
  obtain r s1 where s1: "bud_init_raw ?s (MM_BASE + virt) (int 536870912) 2048 = Some (r, s1)" "bud_rep s1 {}" "nord s1 = 11"
    "bm_ll (bm s1) = 2048" "bm_heap_size (bm s1) = 536543000" "pool_state.more s1 = pool_state.more ?s"
    "\<forall>x. in_heap s1 x \<longrightarrow> inside (MM_BASE + virt) 536870912 x"
    "\<forall>x. \<not> inside (MM_BASE + virt) 536870912 x \<longrightarrow> \<not> inside (lz_frees (lazy ?s)) 8 x \<longrightarrow> \<not> inside (lz_inuses (lazy ?s)) 8 x
        \<longrightarrow> km s1 x = km ?s x"
    by (rule main_buddies [OF virt h])
  have n: "9 \<le> nord s1" using s1(3) by simp
  obtain s' where s': "mm_init s junk virt (int 536870912) = Some (0, s')" "heap_regions s' {}" "bm s' = bm s1" "nord s' = nord s1"
    "\<forall>i<7. \<forall>k<128. (i, k) \<in> cells s'"
    "pool_state.more s' = pool_state.more s1" "in_heap s' = in_heap s1" "\<forall>x. \<not> in_heap s1 x \<longrightarrow> km s' x = km s1 x"
    by (rule mm_init_heap [OF virt(1) _ _ junk s1(1,2,4) n]) simp_all
  have "km s' x = km s x" if "\<not> boot_heap_zone virt s x" for x
    using that s'(8) s1(7,8) by (auto simp: boot_heap_zone_def)
  then show ?thesis using that [of s'] s' s1 by simp
qed

subsection \<open>Processes and scheduler\<close>

text \<open>\<open>proc_init\<close> gets the stacks for 128 processes as the first region of the heap.\<close>

lemma stack_order:
  fixes s :: "'a pool_state_scheme"
  assumes "nord s = 11" "bm_ll (bm s) = 2048" "bm_heap_size (bm s) = 536543000"
  shows "heap_fits s {} 262144"
proof -
  have "[0..<11] = [0, 1, 2, 3, 4, 5, 6, 7] @ [8..<11 :: nat]" using upt_add_eq_append [of 0 8 3] by (simp add: upt_rec)
  then have "ord_for s 262144 = Some 7" by (simp add: ord_for_def chunk_of_def assms)
  then show ?thesis by (rule first_fits [rotated 3]) (simp_all add: assms nblk_def units_total_def)
qed

lemma proc_init_run:
  fixes s :: "'a sched_state_scheme"
  assumes R: "heap_regions s {}" and heap: "nord s = 11" "bm_ll (bm s) = 2048" "bm_heap_size (bm s) = 536543000"
  obtains a n s1 where "proc_init s = Some (s1\<lparr>pmgr := (pmgr s)\<lparr>proc_stack := a, proc_inited := True\<rparr>\<rparr>)"
    "262144 \<le> n" "heap_regions s1 {(a, n)}" "heap_only s s1"
proof -
  obtain a n s1 where s1: "yalloc s (int 262144) = Some (a, s1)" "262144 \<le> n" "heap_regions s1 {(a, n)}" "heap_only s s1"
    using heap_alloc_law [OF R stack_order [OF heap]] by blast
  have "pmgr s1 = pmgr s" using s1(4) by (auto simp: heap_only_def)
  then have "proc_init s = Some (s1\<lparr>pmgr := (pmgr s)\<lparr>proc_stack := a, proc_inited := True\<rparr>\<rparr>)"
    using s1(1) by (simp add: proc_init_def)
  then show ?thesis using that s1 by blast
qed

text \<open>\<open>sched_init\<close> gets its two list heads from the pools.\<close>

lemma list_init_head_other: "\<not> inside h 8 x \<Longrightarrow> list_init_head m h x = m x"
  by (simp add: list_init_head_def Let_def set_next_other set_prev_other)

lemma sched_init_run:
  fixes s :: "'a sched_state_scheme"
  assumes R: "heap_regions s {(a, n)}" and n: "1024 < n" and slots: "\<forall>i<7. \<forall>k<128. (i, k) \<in> cells s"
    and size: "1024 \<le> bm_heap_size (bm s)"
  obtains s' b k c l where "sched_init s = Some s'" "heap_regions s' {(c, l), (b, k), (a, n)}" "8 \<le> k" "b \<noteq> NULL"
    "(b, k) \<noteq> (a, n)" "dlist (km s') b []" "sc s' = (sc s)\<lparr>ready_list := b, block_list := c, readys := 0, blocks := 0, sc_inited := True\<rparr>"
    "s' = s\<lparr>km := km s', bud := bud s', pools := pools s', sc := sc s'\<rparr>" "in_heap s' = in_heap s"
    "\<forall>x. \<not> in_heap s x \<longrightarrow> km s' x = km s x"
proof -
  have "{r \<in> {(a, n)}. snd r \<le> 1024} = {}" using n by auto
  then have few: "card {r \<in> {(a, n)}. snd r \<le> 1024} < 128" by (simp only: card.empty)
  have "heap_fits s {(a, n)} 8" using size by (intro small_fits [OF R _ _ _ slots _ few]) simp_all
  from heap_alloc_law [OF R this] obtain b k s1 where s1: "yalloc s (int 8) = Some (b, s1)" "8 \<le> k" "(b, k) \<notin> {(a, n)}"
    "heap_regions s1 {(b, k), (a, n)}" "heap_only s s1"
    by blast
  define s2 where "s2 = s1\<lparr>sc := (sc s1)\<lparr>ready_list := b\<rparr>\<rparr>"
  have R2: "heap_regions s2 {(b, k), (a, n)}" by (rule heap_regions_cong [OF s1(4)]) (simp_all add: s2_def)
  have c2: "cells s2 = cells s" "bm s2 = bm s" using heap_only_simps [OF s1(5)] by (simp_all add: s2_def cells_def)
  have "card {r \<in> {(b, k), (a, n)}. snd r \<le> 1024} \<le> card {(b, k), (a, n)}" by (rule card_mono) auto
  also have "\<dots> < 128" by (simp add: card_insert_if)
  finally have few2: "card {r \<in> {(b, k), (a, n)}. snd r \<le> 1024} < 128" .
  have "heap_fits s2 {(b, k), (a, n)} 8" using size slots c2 by (intro small_fits [OF R2 _ _ _ _ _ few2]) simp_all
  from heap_alloc_law [OF R2 this] obtain c l s3 where s3: "yalloc s2 (int 8) = Some (c, s3)" "8 \<le> l"
    "heap_regions s3 {(c, l), (b, k), (a, n)}" "(c, l) \<notin> {(b, k), (a, n)}" "heap_only s2 s3"
    by blast
  have nn: "b \<noteq> NULL" "c \<noteq> NULL"
    using region_nonnull [OF s3(3), of "(b, k)"] region_nonnull [OF s3(3), of "(c, l)"] s1(2) s3(2) by simp_all
  define m where "m = list_init_head (list_init_head (km s3) b) c"
  define s' where "s' = s3\<lparr>km := m, sc := (sc s3)\<lparr>block_list := c, readys := 0, blocks := 0, sc_inited := True\<rparr>\<rparr>"
  have run: "sched_init s = Some s'"
    using s1(1) s3(1) nn by (simp add: sched_init_def Let_def s'_def m_def flip: s2_def)
  have in8: "inside b k x" if "inside b 8 x" for x using that s1(2) by (rule inside_mono)
  have in8': "inside c l x" if "inside c 8 x" for x using that s3(2) by (rule inside_mono)
  have ch: "m x = km s3 x" if "\<not> inside b k x" "\<not> inside c l x" for x
    using that in8 in8' unfolding m_def by (metis list_init_head_other)
  have "heap_regions (s3\<lparr>km := m\<rparr>) {(c, l), (b, k), (a, n)}"
    by (rule heap_regions_write [OF s3(3)]) (use ch in auto)
  then have R': "heap_regions s' {(c, l), (b, k), (a, n)}" by (rule heap_regions_cong) (simp_all add: s'_def)
  have "apart b k c l" using heap_regions_apart [OF s3(3), of "(b, k)" "(c, l)"] s3(4) by auto
  then have "apart (b + of_nat 0) 8 (c + of_nat 0) 8" if "k \<le> 2 ^ 32" "l \<le> 2 ^ 32"
    using apart_sub [of b k c l 0 8 0 8] that s1(2) s3(2) by simp
  moreover have "\<not> inside c 8 x" if "inside b 8 x" for x
    using apart_inside [OF \<open>apart b k c l\<close> in8 [OF that]] in8' by blast
  ultimately have dl: "dlist m b []"
    using dlist_init [OF nn(1), of "km s3"] dlist_cong [of b "[]" m "list_init_head (km s3) b"]
    by (simp add: m_def list_init_head_other in_nodes_def)
  have scs: "sc s3 = (sc s)\<lparr>ready_list := b\<rparr>" using s1(5) s3(5) by (auto simp: heap_only_def s2_def)
  have eq: "s' = s\<lparr>km := km s', bud := bud s', pools := pools s', sc := sc s'\<rparr>"
    using s1(5) s3(5) by (auto simp: heap_only_def s2_def s'_def)
  have ih2: "in_heap s2 = in_heap s" using heap_only_simps(6) [OF s1(5)] in_heap_same [of s2 s1] by (simp add: s2_def)
  have ih: "in_heap s3 = in_heap s" using heap_only_simps(6) [OF s3(5)] ih2 by simp
  then have ih': "in_heap s' = in_heap s" using in_heap_same [of s' s3] by (simp add: s'_def)
  have fr: "km s' x = km s x" if x: "\<not> in_heap s x" for x
  proof -
    have "\<not> inside b k x" "\<not> inside c l x"
      using region_in_heap [OF s3(3), of "(b, k)" x] region_in_heap [OF s3(3), of "(c, l)" x] x ih by auto
    then have "km s' x = km s3 x" using ch by (simp add: s'_def)
    also have "\<dots> = km s2 x" using heap_only_simps(7) [OF s3(5)] x ih2 by simp
    also have "\<dots> = km s x" using heap_only_simps(7) [OF s1(5)] x by (simp add: s2_def)
    finally show ?thesis .
  qed
  show ?thesis
    by (rule that [OF run R' s1(2) nn(1) _ _ _ eq ih']) (use s1(3) dl fr scs in \<open>simp_all add: s'_def\<close>)
qed

subsection \<open>Devices and interrupts\<close>

lemma register_handler_run:
  assumes "length (idt_tbl s) = 256" "0 \<le> v" "v < 256"
  obtains g where "interrupt_register_handler v f a s = Some (s\<lparr>idt_tbl := (idt_tbl s)[nat v := g]\<rparr>)" "gate_target g = f"
proof -
  let ?g = "(idt_tbl s ! nat v)\<lparr>loffset := ucast f, hoffset := ucast (drop_bit 16 f), selector := 0x08, idt_attr := a\<rparr>"
  have "interrupt_register_handler v f a s = Some (s\<lparr>idt_tbl := (idt_tbl s)[nat v := ?g]\<rparr>)"
    using assms by (simp add: interrupt_register_handler_def)
  moreover have "gate_target ?g = f" by (simp add: gate_target_def gate_halves)
  ultimately show ?thesis by (rule that)
qed

lemma mp_entries_total: "length (cpus_tab c) = 4 \<Longrightarrow> \<exists>c'. mp_entries m n p c = Some c'"
  by (induction n arbitrary: p c) (auto simp: word_less_nat_alt)

lemma mp_init_run:
  fixes s :: "'a boot_state_scheme"
  assumes "mp_config sig_mp sig_pcmp s = Some (conf, fps)" "conf \<noteq> NULL" "length (cpus_tab (cpus s)) = 4"
  obtains c tr where "mp_init d sig_mp sig_pcmp s = Some (s\<lparr>cpus := c, trace := tr\<rparr>)"
proof -
  obtain c where c: "mp_entries (km s) (unat (ld16 (km s) (conf + 34))) (conf + 44) ((cpus s)\<lparr>lapic_addr := ld32 (km s) (conf + 36)\<rparr>) = Some c"
    using mp_entries_total [where c = "(cpus s)\<lparr>lapic_addr := ld32 (km s) (conf + 36)\<rparr>" and m = "km s"
      and n = "unat (ld16 (km s) (conf + 34))" and p = "conf + 44"] assms(3) by auto
  show ?thesis
  proof (cases "km s (fps + 12) = 0")
    case True
    then have "mp_init d sig_mp sig_pcmp s = Some (s\<lparr>cpus := c, trace := trace s\<rparr>)"
      using assms(1,2) c by (simp add: mp_init_def Let_def)
    then show ?thesis by (rule that)
  next
    case False
    then have "\<exists>tr. mp_init d sig_mp sig_pcmp s = Some (s\<lparr>cpus := c, trace := tr\<rparr>)"
      using assms(1,2) c by (auto simp: mp_init_def Let_def outb_def inb_def)
    then show ?thesis using that by blast
  qed
qed

lemma pic_init_run: "\<exists>tr. pic_init d s = s\<lparr>trace := tr\<rparr>"
  by (auto simp: pic_init_def Let_def port_defs)

lemma pit_over: "s\<lparr>pit := p, trace := tr\<rparr> = s\<lparr>trace := tr, pit := p\<rparr>"
  by simp

lemma pit_set_freq_run: "\<exists>tr p. pit_set_freq f s = s\<lparr>trace := tr, pit := p\<rparr>"
  by (rule exI [of _ "trace (pit_set_freq f s)"], rule exI [of _ "pit (pit_set_freq f s)"])
    (simp add: pit_set_freq_def Let_def outb_def)

lemma pic_get_imr_run: "\<exists>mask tr. pic_get_imr d s = (mask, s\<lparr>trace := tr\<rparr>)"
  by (auto simp: pic_get_imr_def Let_def port_defs)

lemma pic_set_mask_run: "\<exists>tr. pic_set_mask d m b s = s\<lparr>trace := tr\<rparr>"
  by (rule exI [of _ "trace (pic_set_mask d m b s)"])
    (simp add: pic_set_mask_def pic_get_imr_def Let_def port_defs)

lemma pit_init_run:
  fixes s :: "'a machine_scheme"
  assumes "length (idt_tbl s) = 256"
  obtains tr p g where "pit_init isr s = Some (s\<lparr>trace := tr, pit := p, idt_tbl := (idt_tbl s)[32 := g]\<rparr>)" "gate_target g = isr_timer isr"
proof -
  obtain tr p where f: "pit_set_freq 1193 (s\<lparr>pit := (pit s)\<lparr>tps := to_u32 (PIT_DEF_HZ div PIT_MAX_FREQ)\<rparr>\<rparr>) = s\<lparr>trace := tr, pit := p\<rparr>"
    using pit_set_freq_run [of 1193 "s\<lparr>pit := (pit s)\<lparr>tps := to_u32 (PIT_DEF_HZ div PIT_MAX_FREQ)\<rparr>\<rparr>"] by (auto simp: pit_over)
  obtain g where "interrupt_register_handler 0x20 (isr_timer isr) 0x8F (s\<lparr>trace := tr, pit := p\<rparr>)
      = Some (s\<lparr>trace := tr, pit := p, idt_tbl := (idt_tbl s)[32 := g]\<rparr>)" "gate_target g = isr_timer isr"
    using register_handler_run [of "s\<lparr>trace := tr, pit := p\<rparr>" "0x20" "isr_timer isr" "0x8F"] assms by auto
  moreover from this have "pit_init isr s = Some (s\<lparr>trace := tr, pit := p\<lparr>pit_inited := True\<rparr>, idt_tbl := (idt_tbl s)[32 := g]\<rparr>)"
    using f by (simp add: pit_init_def Let_def)
  ultimately show ?thesis using that by blast
qed

lemma keyboard_init_run:
  fixes s :: "'a machine_scheme"
  assumes "length (idt_tbl s) = 256"
  obtains tr g where "keyboard_init d isr s = Some (s\<lparr>trace := tr, idt_tbl := (idt_tbl s)[33 := g]\<rparr>)" "gate_target g = isr_keyboard isr"
proof -
  obtain mask tr0 where m: "pic_get_imr d s = (mask, s\<lparr>trace := tr0\<rparr>)" using pic_get_imr_run by blast
  obtain tr where "(if mask AND 0x02 \<noteq> 0 then pic_set_mask d 0x02 False (s\<lparr>trace := tr0\<rparr>) else s\<lparr>trace := tr0\<rparr>) = s\<lparr>trace := tr\<rparr>"
    using pic_set_mask_run [of d "0x02" False "s\<lparr>trace := tr0\<rparr>"] by (cases "mask AND 0x02 = 0") auto
  moreover obtain g where g: "interrupt_register_handler 0x21 (isr_keyboard isr) 0x8F (s\<lparr>trace := tr\<rparr>)
      = Some (s\<lparr>trace := tr, idt_tbl := (idt_tbl s)[33 := g]\<rparr>)" "gate_target g = isr_keyboard isr"
    using register_handler_run [of "s\<lparr>trace := tr\<rparr>" "0x21" "isr_keyboard isr" "0x8F"] assms by auto
  ultimately have "keyboard_init d isr s = Some (s\<lparr>trace := tr, idt_tbl := (idt_tbl s)[33 := g]\<rparr>)"
    using m by (simp add: keyboard_init_def)
  then show ?thesis using g(2) by (rule that)
qed

text \<open>The gates the kernel has set when it starts the scheduler.\<close>

definition boot_gates :: "isr_addrs \<Rightarrow> intr_desc_tbl_entry32 list \<Rightarrow> bool" where
  "boot_gates isr t \<longleftrightarrow> length t = 256 \<and> gate_target (t ! 0) = isr_division_error isr \<and> gate_target (t ! 2) = isr_nmi isr
     \<and> gate_target (t ! 13) = isr_gpf isr \<and> gate_target (t ! 14) = isr_pf isr
     \<and> gate_target (t ! 32) = isr_timer isr \<and> gate_target (t ! 33) = isr_keyboard isr
     \<and> (\<forall>v<129. v \<notin> {0, 2, 13, 14, 32, 33} \<longrightarrow> gate_target (t ! v) = isr_common isr)"

lemma devices_run:
  fixes s :: "'a boot_state_scheme"
  assumes mp: "mp_config (be_mp e) (be_pcmp e) s = Some (conf, fps)" "conf \<noteq> NULL" "length (cpus_tab (cpus s)) = 4"
    and idt: "length (idt_tbl s) = 256"
  obtains c tr r t p where "do {
       s \<leftarrow> mp_init (be_dev e) (be_mp e) (be_pcmp e) s;
       let s = pic_init (be_dev e) s;
       s \<leftarrow> interrupt_init (be_isr e) (be_idt e) s;
       s \<leftarrow> pit_init (be_isr e) s;
       keyboard_init (be_dev e) (be_isr e) s } = Some (s\<lparr>cpus := c, trace := tr, idtr := r, idt_tbl := t, pit := p\<rparr>)"
    "boot_gates (be_isr e) t"
proof -
  obtain c tr1 where 1: "mp_init (be_dev e) (be_mp e) (be_pcmp e) s = Some (s\<lparr>cpus := c, trace := tr1\<rparr>)"
    by (rule mp_init_run [OF mp])
  obtain tr2 where 2: "pic_init (be_dev e) (s\<lparr>cpus := c, trace := tr1\<rparr>) = s\<lparr>cpus := c, trace := tr2\<rparr>"
    using pic_init_run [of "be_dev e" "s\<lparr>cpus := c, trace := tr1\<rparr>"] by auto
  obtain t0 where 3: "interrupt_init (be_isr e) (be_idt e) (s\<lparr>cpus := c, trace := tr2\<rparr>)
      = Some (s\<lparr>cpus := c, trace := tr2, idtr := \<lparr>idtr_limit = 2047, idtr_base = be_idt e\<rparr>, idt_tbl := t0\<rparr>)"
    and g: "gates_set (be_isr e) (idt_tbl s) t0"
    using interrupt_init_run [of "s\<lparr>cpus := c, trace := tr2\<rparr>" "be_isr e" "be_idt e"] idt by auto
  let ?s3 = "s\<lparr>cpus := c, trace := tr2, idtr := \<lparr>idtr_limit = 2047, idtr_base = be_idt e\<rparr>, idt_tbl := t0\<rparr>"
  have l: "length (idt_tbl ?s3) = 256" using g by (simp add: gates_set_def)
  obtain tr4 p g4 where 4: "pit_init (be_isr e) ?s3 = Some (?s3\<lparr>trace := tr4, pit := p, idt_tbl := (idt_tbl ?s3)[32 := g4]\<rparr>)"
      "gate_target g4 = isr_timer (be_isr e)"
    by (rule pit_init_run [OF l])
  let ?s4 = "?s3\<lparr>trace := tr4, pit := p, idt_tbl := t0[32 := g4]\<rparr>"
  have l4: "length (idt_tbl ?s4) = 256" using l by simp
  obtain tr5 g5 where 5: "keyboard_init (be_dev e) (be_isr e) ?s4 = Some (?s4\<lparr>trace := tr5, idt_tbl := (idt_tbl ?s4)[33 := g5]\<rparr>)"
      "gate_target g5 = isr_keyboard (be_isr e)"
    by (rule keyboard_init_run [OF l4])
  have "boot_gates (be_isr e) (t0[32 := g4, 33 := g5])"
    using g 4(2) 5(2) by (simp add: boot_gates_def gates_set_def nth_list_update)
  moreover have "do {
       s \<leftarrow> mp_init (be_dev e) (be_mp e) (be_pcmp e) s;
       let s = pic_init (be_dev e) s;
       s \<leftarrow> interrupt_init (be_isr e) (be_idt e) s;
       s \<leftarrow> pit_init (be_isr e) s;
       keyboard_init (be_dev e) (be_isr e) s } = Some (s\<lparr>cpus := c, trace := tr5,
         idtr := \<lparr>idtr_limit = 2047, idtr_base = be_idt e\<rparr>, idt_tbl := t0[32 := g4, 33 := g5], pit := p\<rparr>)"
    using 1 2 3 4(1) 5(1) by (simp add: Let_def)
  ultimately show ?thesis using that by blast
qed

subsection \<open>The first two processes\<close>

lemma proc_create_run:
  fixes s :: "'a sched_state_scheme"
  assumes b: "base b s a" and ini: "proc_inited (pmgr s)" and i: "i < 128" "i \<notin> set (tq a)"
    and free: "p_state (km s) (pcb s i) = PROC_FREE" "\<forall>j<i. p_state (km s) (pcb s j) \<noteq> PROC_FREE"
    and entry: "entry \<noteq> NULL"
  obtains s' where "proc_create utk s entry = (pcb s i, s')"
    "base b s' (a\<lparr>tq := tq a @ [i], ctx := (ctx a)(i := fresh_ctx s i entry)\<rparr>)" "p_state (km s') (pcb s i) = PROC_READY"
    "\<forall>x. \<not> inside (proc_table (pmgr s)) 3584 x \<longrightarrow> \<not> inside (proc_stack (pmgr s)) 262144 x
       \<longrightarrow> \<not> inside (ready_list (sc s)) 8 x \<longrightarrow> km s' x = km s x"
    "\<forall>j<128. j \<noteq> i \<longrightarrow> p_state (km s') (pcb s j) = p_state (km s) (pcb s j)"
    "s' = s\<lparr>km := km s', sc := (sc s)\<lparr>readys := readys (sc s) + 1\<rparr>, pmgr := (pmgr s)\<lparr>next_pid := next_pid (pmgr s) + 1\<rparr>\<rparr>"
proof -
  have l: "layout s b" and q: "set (tq a @ [i]) \<subseteq> {..<128}" and si: "sc_inited (sc s)"
    using b i by (auto simp: base_def queue_def)
  have ff: "find_free (km s) (proc_table (pmgr s)) 0 = i"
    using proc_find_free [of 0 "km s" "proc_table (pmgr s)" _, OF _ refl] free i(1)
    by (metis (no_types, lifting) le0 linorder_neqE_nat order_less_trans pcb_def)
  define s1 where "s1 = s\<lparr>km := proc_setup (next_pid (pmgr s)) entry (km s) (pcb s i) (pstk s i),
      pmgr := (pmgr s)\<lparr>next_pid := next_pid (pmgr s) + 1\<rparr>\<rparr>"
  define s2 where "s2 = sched_add_ready_raw s1 (pcb s i)"
  note C = create_base [OF b i s1_def s2_def]
  have "proc_create utk s entry = (pcb s i, s2)"
    using proc_create_eq [OF ini ff i(1), of utk entry] entry si pcb_nonnull(1) [OF l i(1)]
    by (simp add: sched_add_ready_def s2_def s1_def)
  moreover have "km s2 x = km s x"
    if "\<not> inside (proc_table (pmgr s)) 3584 x" "\<not> inside (proc_stack (pmgr s)) 262144 x" "\<not> inside (ready_list (sc s)) 8 x" for x
  proof (rule C(4))
    show "\<not> inside (pcb s i) 20 x" using pcb_inside [OF i(1), of s 0 20 x] that(1) by auto
    show "\<not> inside (pstk s i + 1948) 20 x" using stk_inside [OF i(1), of s 1948 20 x] that(2) by auto
    show "\<not> qzone s (tq a @ [i]) x" using zone_cases [OF _ q] pcb_table(3) that(1,3) by metis
  qed
  moreover have "p_state (km s2) (pcb s j) = p_state (km s) (pcb s j)" if "j < 128" "j \<noteq> i" for j
    by (rule create_states [OF l i(1) that q C(4)])
  moreover have "s2 = s\<lparr>km := km s2, sc := (sc s)\<lparr>readys := readys (sc s) + 1\<rparr>, pmgr := (pmgr s)\<lparr>next_pid := next_pid (pmgr s) + 1\<rparr>\<rparr>"
    by (simp add: s2_def s1_def sched_add_ready_raw_def Let_def)
  ultimately show ?thesis using that C(1,2) by blast
qed

lemma create_two:
  fixes s :: "'a sched_state_scheme"
  assumes b: "base b s \<lparr>tq = [], running = None, ctx = K\<rparr>" and ini: "proc_inited (pmgr s)"
    and free: "p_state (km s) (pcb s 0) = PROC_FREE" "p_state (km s) (pcb s 1) = PROC_FREE"
    and entry: "t1 \<noteq> NULL" "t2 \<noteq> NULL"
  obtains s1 s2 where "proc_create utk s t1 = (pcb s 0, s1)" "proc_create utk s1 t2 = (pcb s 1, s2)"
    "base b s2 \<lparr>tq = [0, 1], running = None, ctx = K(0 := fresh_ctx s 0 t1, 1 := fresh_ctx s 1 t2)\<rparr>"
    "\<forall>x. \<not> inside (proc_table (pmgr s)) 3584 x \<longrightarrow> \<not> inside (proc_stack (pmgr s)) 262144 x
       \<longrightarrow> \<not> inside (ready_list (sc s)) 8 x \<longrightarrow> km s2 x = km s x"
    "s2 = s\<lparr>km := km s2, sc := sc s2, pmgr := (pmgr s)\<lparr>next_pid := next_pid (pmgr s) + 2\<rparr>\<rparr>"
    "ready_list (sc s2) = ready_list (sc s)"
proof -
  let ?a = "\<lparr>tq = [], running = None, ctx = K\<rparr>"
  let ?a1 = "\<lparr>tq = [0], running = None, ctx = K(0 := fresh_ctx s 0 t1)\<rparr>"
  have z: "0 < (128 :: nat)" "0 \<notin> set (tq ?a)" "\<forall>j<0. p_state (km s) (pcb s j) \<noteq> PROC_FREE" by simp_all
  obtain s1 where s1: "proc_create utk s t1 = (pcb s 0, s1)"
    "base b s1 (?a\<lparr>tq := tq ?a @ [0], ctx := (ctx ?a)(0 := fresh_ctx s 0 t1)\<rparr>)"
    "p_state (km s1) (pcb s 0) = PROC_READY"
    "\<forall>x. \<not> inside (proc_table (pmgr s)) 3584 x \<longrightarrow> \<not> inside (proc_stack (pmgr s)) 262144 x
       \<longrightarrow> \<not> inside (ready_list (sc s)) 8 x \<longrightarrow> km s1 x = km s x"
    "\<forall>j<128. j \<noteq> 0 \<longrightarrow> p_state (km s1) (pcb s j) = p_state (km s) (pcb s j)"
    "s1 = s\<lparr>km := km s1, sc := (sc s)\<lparr>readys := readys (sc s) + 1\<rparr>, pmgr := (pmgr s)\<lparr>next_pid := next_pid (pmgr s) + 1\<rparr>\<rparr>"
    by (rule proc_create_run [OF b ini z(1,2) free(1) z(3) entry(1), of utk])
  have p1: "pmgr s1 = (pmgr s)\<lparr>next_pid := next_pid (pmgr s) + 1\<rparr>" "sc s1 = (sc s)\<lparr>readys := readys (sc s) + 1\<rparr>"
    by (subst s1(6), simp)+
  then have pl: "pcb s1 = pcb s" "pstk s1 = pstk s" by (simp_all add: fun_eq_iff pcb_def pstk_def)
  then have fc: "fresh_ctx s1 i t = fresh_ctx s i t" for i t by (simp add: fresh_ctx_def)
  have b1: "base b s1 ?a1" using s1(2) by simp
  have o: "1 < (128 :: nat)" "1 \<notin> set (tq ?a1)" by simp_all
  have f1: "p_state (km s1) (pcb s1 1) = PROC_FREE" "\<forall>j<1. p_state (km s1) (pcb s1 j) \<noteq> PROC_FREE"
    using s1(3,5) free(2) pl by simp_all
  have ini1: "proc_inited (pmgr s1)" using ini p1 by simp
  obtain s2 where s2: "proc_create utk s1 t2 = (pcb s1 1, s2)"
    "base b s2 (?a1\<lparr>tq := tq ?a1 @ [1], ctx := (ctx ?a1)(1 := fresh_ctx s1 1 t2)\<rparr>)"
    "p_state (km s2) (pcb s1 1) = PROC_READY"
    "\<forall>x. \<not> inside (proc_table (pmgr s1)) 3584 x \<longrightarrow> \<not> inside (proc_stack (pmgr s1)) 262144 x
       \<longrightarrow> \<not> inside (ready_list (sc s1)) 8 x \<longrightarrow> km s2 x = km s1 x"
    "\<forall>j<128. j \<noteq> 1 \<longrightarrow> p_state (km s2) (pcb s1 j) = p_state (km s1) (pcb s1 j)"
    "s2 = s1\<lparr>km := km s2, sc := (sc s1)\<lparr>readys := readys (sc s1) + 1\<rparr>, pmgr := (pmgr s1)\<lparr>next_pid := next_pid (pmgr s1) + 1\<rparr>\<rparr>"
    by (rule proc_create_run [OF b1 ini1 o f1 entry(2), of utk])
  have scs: "sc s2 = (sc s1)\<lparr>readys := readys (sc s1) + 1\<rparr>" by (subst s2(6), simp)
  have pms: "pmgr s2 = (pmgr s1)\<lparr>next_pid := next_pid (pmgr s1) + 1\<rparr>" by (subst s2(6), simp)
  have up: "s2 = s1\<lparr>km := km s2, sc := sc s2, pmgr := pmgr s2\<rparr>" unfolding scs pms by (rule s2(6))
  have "s1\<lparr>km := m, sc := c, pmgr := p\<rparr> = s\<lparr>km := m, sc := c, pmgr := p\<rparr>" for m c p
    by (subst s1(6)) simp
  then have eq: "s2 = s\<lparr>km := km s2, sc := sc s2, pmgr := (pmgr s)\<lparr>next_pid := next_pid (pmgr s) + 2\<rparr>\<rparr>"
    using up pms p1 by (simp add: add.assoc)
  have B: "base b s2 \<lparr>tq = [0, 1], running = None, ctx = K(0 := fresh_ctx s 0 t1, 1 := fresh_ctx s 1 t2)\<rparr>"
    using s2(2) fc by simp
  have fr: "\<forall>x. \<not> inside (proc_table (pmgr s)) 3584 x \<longrightarrow> \<not> inside (proc_stack (pmgr s)) 262144 x
       \<longrightarrow> \<not> inside (ready_list (sc s)) 8 x \<longrightarrow> km s2 x = km s x"
    using s1(4) s2(4) p1 by simp
  have "proc_create utk s1 t2 = (pcb s 1, s2)" "ready_list (sc s2) = ready_list (sc s)"
    using s2(1) scs p1 pl by simp_all
  then show ?thesis using that [OF s1(1) _ B fr eq] by blast
qed

end
