(* ===== verification/Boot_Main.thy ===== *)
theory Boot_Main
  imports Boot_Steps
begin

text \<open>
  The start of the kernel as a whole: \<open>main\<close> takes a machine with cleared tables to a state in which the heap
  serves requests, the gates are set, and the scheduler has the two first processes to run.
\<close>

subsection \<open>The scheduler's tables\<close>

text \<open>
  What becomes of the scheduler's static data \<open>T\<close> (the table), \<open>C\<close> (the context) and \<open>b\<close> (the stack of the
  idle loop): they stay apart from the heap, so that \<open>proc_init\<close> and \<open>sched_init\<close> leave an empty queue.
\<close>

definition static_data :: "addr \<Rightarrow> 'a sched_state_scheme \<Rightarrow> addr \<Rightarrow> bool" where
  "static_data b s x \<longleftrightarrow> inside (proc_table (pmgr s)) 3584 x \<or> inside (context_at (sc s)) 4 x \<or> inside b 28 x"

definition static_apart :: "addr \<Rightarrow> 'a sched_state_scheme \<Rightarrow> bool" where
  "static_apart b s \<longleftrightarrow> apart (proc_table (pmgr s)) 3584 (context_at (sc s)) 4 \<and> apart (proc_table (pmgr s)) 3584 b 28
     \<and> apart (context_at (sc s)) 4 b 28 \<and> proc_table (pmgr s) \<noteq> 0 \<and> unat (proc_table (pmgr s)) + 3584 \<le> 2 ^ 32"

lemma tables_run:
  fixes s :: "'a sched_state_scheme"
  assumes R: "heap_regions s {}" and heap: "nord s = 11" "bm_ll (bm s) = 2048" "bm_heap_size (bm s) = 536543000"
    and slots: "\<forall>i<7. \<forall>k<128. (i, k) \<in> cells s" and st: "static_apart b s" "\<And>x. static_data b s x \<Longrightarrow> \<not> in_heap s x"
  obtains s' R n k where "(do { s \<leftarrow> proc_init s; sched_init s }) = Some s'"
    "base b s' \<lparr>tq = [], running = None, ctx = K\<rparr>" "heap_regions s' R" "(proc_stack (pmgr s'), n) \<in> R" "262144 \<le> n"
    "(ready_list (sc s'), k) \<in> R" "8 \<le> k" "pmgr s' = (pmgr s)\<lparr>proc_stack := proc_stack (pmgr s'), proc_inited := True\<rparr>"
    "s' = s\<lparr>km := km s', bud := bud s', pools := pools s', sc := sc s', pmgr := pmgr s'\<rparr>" "in_heap s' = in_heap s"
    "\<forall>x. \<not> in_heap s x \<longrightarrow> km s' x = km s x"
proof -
  obtain a n s1 where s1: "proc_init s = Some (s1\<lparr>pmgr := (pmgr s)\<lparr>proc_stack := a, proc_inited := True\<rparr>\<rparr>)"
    "262144 \<le> n" "heap_regions s1 {(a, n)}" "heap_only s s1"
    by (rule proc_init_run [OF R heap])
  define s2 where "s2 = s1\<lparr>pmgr := (pmgr s)\<lparr>proc_stack := a, proc_inited := True\<rparr>\<rparr>"
  have R2: "heap_regions s2 {(a, n)}" by (rule heap_regions_cong [OF s1(3)]) (simp_all add: s2_def)
  have c2: "cells s2 = cells s" "bm s2 = bm s" using heap_only_simps [OF s1(4)] by (simp_all add: s2_def cells_def)
  have ih2: "in_heap s2 = in_heap s" using heap_only_simps(6) [OF s1(4)] in_heap_same [of s2 s1] by (simp add: s2_def)
  have e2: "s2 = s\<lparr>km := km s1, bud := bud s1, pools := pools s1, pmgr := (pmgr s)\<lparr>proc_stack := a, proc_inited := True\<rparr>\<rparr>"
    using s1(4) by (auto simp: heap_only_def s2_def)
  have n2: "1024 < n" "\<forall>i<7. \<forall>k<128. (i, k) \<in> cells s2" "1024 \<le> bm_heap_size (bm s2)" using s1(2) slots heap c2 by simp_all
  obtain s' h k c l where s': "sched_init s2 = Some s'" "heap_regions s' {(c, l), (h, k), (a, n)}" "8 \<le> k" "h \<noteq> NULL"
    "(h, k) \<noteq> (a, n)" "dlist (km s') h []" "sc s' = (sc s2)\<lparr>ready_list := h, block_list := c, readys := 0, blocks := 0, sc_inited := True\<rparr>"
    "s' = s2\<lparr>km := km s', bud := bud s', pools := pools s', sc := sc s'\<rparr>" "in_heap s' = in_heap s2"
    "\<forall>x. \<not> in_heap s2 x \<longrightarrow> km s' x = km s2 x"
    by (rule sched_init_run [OF R2 n2])
  have pm: "pmgr s' = (pmgr s)\<lparr>proc_stack := a, proc_inited := True\<rparr>" by (subst s'(8)) (simp add: s2_def)
  have scs: "sc s2 = sc s" by (subst e2) simp
  have "s2\<lparr>km := m, bud := u, pools := w, sc := v\<rparr> = s\<lparr>km := m, bud := u, pools := w, sc := v, pmgr := (pmgr s)\<lparr>proc_stack := a, proc_inited := True\<rparr>\<rparr>"
    for m u w v
    by (subst e2) simp
  then have eq: "s' = s\<lparr>km := km s', bud := bud s', pools := pools s', sc := sc s', pmgr := pmgr s'\<rparr>"
    using s'(8) unfolding pm by simp
  have fr: "\<forall>x. \<not> in_heap s x \<longrightarrow> km s' x = km s x" using s'(10) heap_only_simps(7) [OF s1(4)] ih2 by (simp add: s2_def)
  have ih: "in_heap s' = in_heap s" using s'(9) ih2 by simp
  have in_stack: "in_heap s x" if "inside a 262144 x" for x
    using region_in_heap [OF s'(2), of "(a, n)" x] inside_mono [OF that s1(2)] ih by simp
  have in_head: "in_heap s x" if "inside h 8 x" for x
    using region_in_heap [OF s'(2), of "(h, k)" x] inside_mono [OF that s'(3)] ih by simp
  have head_stack: "apart h k a n" using heap_regions_apart [OF s'(2), of "(h, k)" "(a, n)"] s'(5) by simp
  have ap: "apart p i q j" if "\<And>x. inside p i x \<Longrightarrow> static_data b s x" "\<And>x. inside q j x \<Longrightarrow> in_heap s x"
    "0 < i" "0 < j" "i \<le> 2 ^ 32" "j \<le> 2 ^ 32" for p i q j
    using that st(2) by (intro inside_apartI) blast+
  have "\<not> inside a 262144 x" if "inside h 8 x" for x
    using apart_inside [OF head_stack inside_mono [OF that s'(3)]] inside_mono [OF _ s1(2), of a x] by argo
  then have "apart h 8 a 262144" by (intro inside_apartI) simp_all
  moreover have A: "apart (proc_table (pmgr s)) 3584 a 262144" "apart (proc_table (pmgr s)) 3584 h 8"
    "apart (context_at (sc s)) 4 a 262144" "apart (context_at (sc s)) 4 h 8" "apart b 28 a 262144" "apart b 28 h 8"
    by (rule ap; simp add: static_data_def in_stack in_head)+
  ultimately have "layout s' b"
    using st(1) s'(4,7) apart_sym [of h 8 "context_at (sc s)" 4] apart_sym [of h 8 b 28]
    unfolding layout_def static_apart_def pm scs by simp
  moreover have "queue s' []" using s'(6,7) by (simp add: queue_def)
  ultimately have "base b s' \<lparr>tq = [], running = None, ctx = K\<rparr>" using s'(7) by (simp add: base_def)
  moreover have "do { s \<leftarrow> proc_init s; sched_init s } = Some s'" using s1(1) s'(1) by (simp add: s2_def)
  ultimately show ?thesis using that [of s' "{(c, l), (h, k), (a, n)}" n k] s1(2) s'(2,3,7) pm eq ih fr by simp
qed

subsection \<open>From the boot loader to the scheduler\<close>

text \<open>The screen is cleared; nothing else in memory changes.\<close>

lemma vga_init_run:
  fixes s :: "'a machine_scheme"
  obtains m v where "vga_text_init s = s\<lparr>km := m, vga := v\<rparr>"
    "\<forall>x. \<not> inside (0xB8000 + vmm_base (vm s)) 4000 x \<longrightarrow> m x = km s x"
proof -
  let ?b = "0xB8000 + vmm_base (vm s)"
  have "\<exists>v. vga_text_init s = s\<lparr>km := fill (km s) ?b 4000 0, vga := v\<rparr>"
    by (simp add: vga_text_init_def vt_cls_def vmm_phy_to_virt_def Let_def) (metis (no_types))
  then show ?thesis using that by (auto simp: fill_def)
qed

lemma mp_config_reads:
  fixes s s' :: "'a machine_scheme"
  assumes eq: "km s' = km s" "vm s' = vm s"
  shows "mp_config a b s' = mp_config a b s"
proof -
  have v: "vmm_phy_to_virt s' = vmm_phy_to_virt s" "vmm_get_uint16 s' = vmm_get_uint16 s"
    unfolding vmm_phy_to_virt_def vmm_get_uint16_def eq by simp_all
  then have p: "mp_parse a s' = mp_parse a s" unfolding mp_parse_def v eq by simp
  show ?thesis unfolding mp_config_def mp_search_def p v eq by (rule refl)
qed

lemma more_fields:
  fixes s s' :: "'a boot_state_scheme"
  assumes "pool_state.more s' = pool_state.more s"
  shows "vm s' = vm s" "idt_tbl s' = idt_tbl s" "sc s' = sc s" "pmgr s' = pmgr s" "cpus s' = cpus s"
  using assms by (cases s, cases s', simp)+

text \<open>
  The memory \<open>main\<close> starts with: room for the heap, the kernel's static data outside of it and of the screen, the
  process table cleared.  Until the first process is created, only the heap and the screen are written to.
\<close>

definition boot_zone :: "u32 \<Rightarrow> 'a bud_state_scheme \<Rightarrow> addr \<Rightarrow> bool" where
  "boot_zone virt s x \<longleftrightarrow> boot_heap_zone virt s x \<or> inside (0xB8000 + virt) 4000 x"

definition boot_keeps :: "u32 \<Rightarrow> 'a bud_state_scheme \<Rightarrow> mem \<Rightarrow> bool" where
  "boot_keeps virt s m \<longleftrightarrow> (\<forall>x. \<not> boot_zone virt s x \<longrightarrow> m x = km s x)"

definition boot_layout :: "u32 \<Rightarrow> addr \<Rightarrow> 'a boot_state_scheme \<Rightarrow> bool" where
  "boot_layout virt b s \<longleftrightarrow> MM_BASE + virt \<noteq> NULL \<and> unat (MM_BASE + virt) + 536870912 < 4294967296
     \<and> apart (lz_frees (lazy s)) 8 (MM_BASE + virt) 536870912 \<and> apart (lz_inuses (lazy s)) 8 (MM_BASE + virt) 536870912
     \<and> static_apart b s \<and> (\<forall>x. static_data b s x \<longrightarrow> \<not> boot_zone virt s x)
     \<and> (\<forall>x. inside (proc_table (pmgr s)) 3584 x \<longrightarrow> km s x = 0)
     \<and> \<not> vmm_inited (vm s) \<and> length (idt_tbl s) = 256 \<and> length (cpus_tab (cpus s)) = 4"

text \<open>The initialisers up to the first process, as one run.\<close>

lemma kmain_setup:
  fixes s :: "'a boot_state_scheme"
  assumes lay: "boot_layout (be_virt e) b s" and junk: "0 \<le> be_junk e" "be_junk e \<le> INT_MAX - 2560"
    and info: "\<And>m. boot_keeps (be_virt e) s m \<Longrightarrow> parse_multiboot m magic (mbi + be_virt e) \<noteq> None"
    and mp: "\<And>m. boot_keeps (be_virt e) s m \<Longrightarrow>
      \<exists>conf fps. conf \<noteq> NULL \<and> mp_config (be_mp e) (be_pcmp e) (s\<lparr>km := m, vm := \<lparr>vmm_base = be_virt e, vmm_inited = True\<rparr>\<rparr>) = Some (conf, fps)"
  obtains s4 where "kmain e magic mbi s = do {
       s \<leftarrow> (do { s \<leftarrow> proc_init s4; sched_init s });
       let (p, s) = proc_create (be_utk e) s (be_t1 e);
       let (p, s) = proc_create (be_utk e) s (be_t2 e);
       Some s }"
    "heap_regions s4 {}" "nord s4 = 11" "bm_ll (bm s4) = 2048" "bm_heap_size (bm s4) = 536543000"
    "\<forall>i<7. \<forall>k<128. (i, k) \<in> cells s4" "\<forall>x. in_heap s4 x \<longrightarrow> inside (MM_BASE + be_virt e) 536870912 x"
    "boot_keeps (be_virt e) s (km s4)" "boot_gates (be_isr e) (idt_tbl s4)" "sc s4 = sc s" "pmgr s4 = pmgr s"
proof -
  let ?v = "\<lparr>vmm_base = be_virt e, vmm_inited = True\<rparr>"
  note L = lay [unfolded boot_layout_def]
  have v0: "vmm_init (be_virt e) s = s\<lparr>vm := ?v\<rparr>" using L by (simp add: vmm_init_def)
  obtain m2 g where g: "vga_text_init (s\<lparr>vm := ?v\<rparr>) = s\<lparr>vm := ?v\<rparr>\<lparr>km := m2, vga := g\<rparr>"
    "\<forall>x. \<not> inside (0xB8000 + vmm_base (vm (s\<lparr>vm := ?v\<rparr>))) 4000 x \<longrightarrow> m2 x = km (s\<lparr>vm := ?v\<rparr>) x"
    by (rule vga_init_run [of "s\<lparr>vm := ?v\<rparr>"])
  define s2 where "s2 = s\<lparr>vm := ?v\<rparr>\<lparr>km := m2, vga := g\<rparr>"
  have heads: "apart (lz_frees (lazy s2)) 8 (MM_BASE + be_virt e) 536870912" "apart (lz_inuses (lazy s2)) 8 (MM_BASE + be_virt e) 536870912"
    using L by (simp_all add: s2_def)
  have virt: "MM_BASE + be_virt e \<noteq> NULL" "unat (MM_BASE + be_virt e) + 536870912 < 4294967296" using L by blast+
  obtain s3 where s3: "mm_init s2 (be_junk e) (be_virt e) (0x100000 * 512) = Some (0, s3)" "heap_regions s3 {}" "nord s3 = 11"
    "bm_ll (bm s3) = 2048" "bm_heap_size (bm s3) = 536543000" "\<forall>i<7. \<forall>k<128. (i, k) \<in> cells s3"
    "pool_state.more s3 = pool_state.more s2" "\<forall>x. in_heap s3 x \<longrightarrow> inside (MM_BASE + be_virt e) 536870912 x"
    "\<forall>x. \<not> boot_heap_zone (be_virt e) s2 x \<longrightarrow> km s3 x = km s2 x"
    by (rule main_heap [OF virt junk heads])
  have keep: "boot_keeps (be_virt e) s (km s3)"
    using s3(9) g(2) by (simp add: boot_keeps_def boot_zone_def boot_heap_zone_def s2_def)
  note mf = more_fields [OF s3(7)]
  have vm3: "vm s3 = ?v" using mf by (simp add: s2_def)
  obtain conf fps where c: "conf \<noteq> NULL" "mp_config (be_mp e) (be_pcmp e) (s\<lparr>km := km s3, vm := ?v\<rparr>) = Some (conf, fps)"
    using mp [OF keep] by blast
  have c3: "mp_config (be_mp e) (be_pcmp e) s3 = Some (conf, fps)"
    using c(2) mp_config_reads [of s3 "s\<lparr>km := km s3, vm := ?v\<rparr>"] vm3 by simp
  have l3: "length (cpus_tab (cpus s3)) = 4" "length (idt_tbl s3) = 256" using mf L by (simp_all add: s2_def)
  obtain c' tr r t p where dev: "do {
       s \<leftarrow> mp_init (be_dev e) (be_mp e) (be_pcmp e) s3;
       let s = pic_init (be_dev e) s;
       s \<leftarrow> interrupt_init (be_isr e) (be_idt e) s;
       s \<leftarrow> pit_init (be_isr e) s;
       keyboard_init (be_dev e) (be_isr e) s } = Some (s3\<lparr>cpus := c', trace := tr, idtr := r, idt_tbl := t, pit := p\<rparr>)"
    "boot_gates (be_isr e) t"
    by (rule devices_run [OF c3 c(1) l3])
  define s4 where "s4 = s3\<lparr>cpus := c', trace := tr, idtr := r, idt_tbl := t, pit := p\<rparr>"
  obtain i where i: "parse_multiboot (km s3) magic (mbi + be_virt e) = Some i" using info [OF keep] by blast
  have "kmain e magic mbi s = do {
       s \<leftarrow> (do {
         s \<leftarrow> mp_init (be_dev e) (be_mp e) (be_pcmp e) s3;
         let s = pic_init (be_dev e) s;
         s \<leftarrow> interrupt_init (be_isr e) (be_idt e) s;
         s \<leftarrow> pit_init (be_isr e) s;
         keyboard_init (be_dev e) (be_isr e) s });
       s \<leftarrow> (do { s \<leftarrow> proc_init s; sched_init s });
       let (p, s) = proc_create (be_utk e) s (be_t1 e);
       let (p, s) = proc_create (be_utk e) s (be_t2 e);
       Some s }"
    using s3(1) i v0 g(1) vm3 by (simp add: kmain_def vmm_phy_to_virt_def Let_def s2_def)
  also have "\<dots> = do {
       s \<leftarrow> (do { s \<leftarrow> proc_init s4; sched_init s });
       let (p, s) = proc_create (be_utk e) s (be_t1 e);
       let (p, s) = proc_create (be_utk e) s (be_t2 e);
       Some s }"
    unfolding dev(1) s4_def by simp
  finally have run: "kmain e magic mbi s = \<dots>" .
  have R: "heap_regions s4 {}" by (rule heap_regions_cong [OF s3(2)]) (simp_all add: s4_def)
  have "in_heap s4 = in_heap s3" using in_heap_same [of s4 s3] by (simp add: s4_def)
  then have ih: "\<forall>x. in_heap s4 x \<longrightarrow> inside (MM_BASE + be_virt e) 536870912 x" using s3(8) by simp
  have b4: "bud s4 = bud s3" "bm s4 = bm s3" "pools s4 = pools s3" "km s4 = km s3" "idt_tbl s4 = t" "sc s4 = sc s3" "pmgr s4 = pmgr s3"
    "nord s4 = nord s3"
    by (simp_all add: s4_def nord_def)
  show ?thesis
    by (rule that [OF run R _ _ _ _ ih]) (use s3(3-6) b4 keep dev(2) mf in \<open>simp_all add: cells_def s2_def\<close>)
qed

text \<open>What \<open>main\<close> brings about, as one state for the properties below.\<close>

lemma kmain_reaches:
  fixes s :: "'a boot_state_scheme"
  assumes lay: "boot_layout (be_virt e) b s" and junk: "0 \<le> be_junk e" "be_junk e \<le> INT_MAX - 2560"
    and info: "\<And>m. boot_keeps (be_virt e) s m \<Longrightarrow> parse_multiboot m magic (mbi + be_virt e) \<noteq> None"
    and mp: "\<And>m. boot_keeps (be_virt e) s m \<Longrightarrow>
      \<exists>conf fps. conf \<noteq> NULL \<and> mp_config (be_mp e) (be_pcmp e) (s\<lparr>km := m, vm := \<lparr>vmm_base = be_virt e, vmm_inited = True\<rparr>\<rparr>) = Some (conf, fps)"
    and entry: "be_t1 e \<noteq> NULL" "be_t2 e \<noteq> NULL" and c: "esp c = b + 28"
  shows "\<exists>s' a R n. kmain e magic mbi s = Some s' \<and> refines b (In_sched, c, s') a \<and> tq a = [0, 1]
    \<and> ctx a 0 = fresh_ctx s' 0 (be_t1 e) \<and> ctx a 1 = fresh_ctx s' 1 (be_t2 e)
    \<and> heap_regions s' R \<and> (proc_stack (pmgr s'), n) \<in> R \<and> 262144 \<le> n \<and> boot_gates (be_isr e) (idt_tbl s')"
proof -
  note L = lay [unfolded boot_layout_def]
  obtain s4 where run: "kmain e magic mbi s = do {
       s \<leftarrow> (do { s \<leftarrow> proc_init s4; sched_init s });
       let (p, s) = proc_create (be_utk e) s (be_t1 e);
       let (p, s) = proc_create (be_utk e) s (be_t2 e);
       Some s }"
    and R4: "heap_regions s4 {}" and h4: "nord s4 = 11" "bm_ll (bm s4) = 2048" "bm_heap_size (bm s4) = 536543000"
    and c4: "\<forall>i<7. \<forall>k<128. (i, k) \<in> cells s4" and ih4: "\<forall>x. in_heap s4 x \<longrightarrow> inside (MM_BASE + be_virt e) 536870912 x"
    and k4: "boot_keeps (be_virt e) s (km s4)" and g4: "boot_gates (be_isr e) (idt_tbl s4)" and t4: "sc s4 = sc s" "pmgr s4 = pmgr s"
    by (rule kmain_setup [OF lay junk info mp])
  have out: "\<not> in_heap s4 x" if "static_data b s4 x" for x
    using that L ih4 t4 by (auto simp: static_data_def boot_zone_def boot_heap_zone_def)
  have sa: "static_apart b s4" using L t4 by (simp add: static_apart_def)
  obtain s5 R n k where s5: "(do { s \<leftarrow> proc_init s4; sched_init s }) = Some s5"
    "base b s5 \<lparr>tq = [], running = None, ctx = \<lambda>_. c\<rparr>" "heap_regions s5 R" "(proc_stack (pmgr s5), n) \<in> R" "262144 \<le> n"
    "(ready_list (sc s5), k) \<in> R" "8 \<le> k" "pmgr s5 = (pmgr s4)\<lparr>proc_stack := proc_stack (pmgr s5), proc_inited := True\<rparr>"
    "s5 = s4\<lparr>km := km s5, bud := bud s5, pools := pools s5, sc := sc s5, pmgr := pmgr s5\<rparr>" "in_heap s5 = in_heap s4"
    "\<forall>x. \<not> in_heap s4 x \<longrightarrow> km s5 x = km s4 x"
    by (rule tables_run [OF R4 h4 c4 sa out])
  have pt: "proc_table (pmgr s5) = proc_table (pmgr s)" using s5(8) t4 by (metis proc_mgmt.select_convs proc_mgmt.surjective proc_mgmt.update_convs)
  have ini: "proc_inited (pmgr s5)" by (subst s5(8)) simp
  have zero: "km s5 x = 0" if "inside (proc_table (pmgr s)) 3584 x" for x
  proof -
    have st: "static_data b s x" using that by (simp add: static_data_def)
    then have "\<not> boot_zone (be_virt e) s x" "km s x = 0" using L that by blast+
    moreover have "\<not> in_heap s4 x" using out st t4 by (simp add: static_data_def)
    ultimately show ?thesis using s5(11) k4 by (simp add: boot_keeps_def)
  qed
  have free: "p_state (km s5) (pcb s5 i) = PROC_FREE" if "i < 128" for i
    using zero [of "pcb s5 i + 4"] pcb_inside [OF that, of s5 4 1 "pcb s5 i + 4"] pt by (simp add: p_state_def inside_def)
  obtain s6 s7 where s7: "proc_create (be_utk e) s5 (be_t1 e) = (pcb s5 0, s6)" "proc_create (be_utk e) s6 (be_t2 e) = (pcb s5 1, s7)"
    "base b s7 \<lparr>tq = [0, 1], running = None, ctx = (\<lambda>_. c)(0 := fresh_ctx s5 0 (be_t1 e), 1 := fresh_ctx s5 1 (be_t2 e))\<rparr>"
    "\<forall>x. \<not> inside (proc_table (pmgr s5)) 3584 x \<longrightarrow> \<not> inside (proc_stack (pmgr s5)) 262144 x
       \<longrightarrow> \<not> inside (ready_list (sc s5)) 8 x \<longrightarrow> km s7 x = km s5 x"
    "s7 = s5\<lparr>km := km s7, sc := sc s7, pmgr := (pmgr s5)\<lparr>next_pid := next_pid (pmgr s5) + 2\<rparr>\<rparr>"
    "ready_list (sc s7) = ready_list (sc s5)"
    by (rule create_two [OF s5(2) ini free free entry, of "be_utk e"]) simp_all
  have sp: "proc_stack (pmgr s7) = proc_stack (pmgr s5)" by (subst s7(5)) simp
  then have fc: "fresh_ctx s7 i t = fresh_ctx s5 i t" for i t by (simp add: fresh_ctx_def pstk_def)
  have it: "idt_tbl s7 = idt_tbl s4" by (subst s7(5), subst s5(9)) simp
  have R7: "heap_regions s7 R"
  proof (rule heap_regions_keep [OF s5(3)])
    show "bm s7 = bm s5" "bud s7 = bud s5" "pools s7 = pools s5" "pmm s7 = pmm s5" "mmm s7 = mmm s5"
      by (subst s7(5), simp)+
    show "\<exists>(q, l)\<in>R. inside q l x" if x: "in_heap s5 x" "km s7 x \<noteq> km s5 x" for x
    proof -
      have "\<not> inside (proc_table (pmgr s5)) 3584 x" using out x(1) s5(10) t4 pt by (auto simp: static_data_def)
      then have "inside (proc_stack (pmgr s5)) 262144 x \<or> inside (ready_list (sc s5)) 8 x" using x(2) s7(4) by blast
      then have "inside (proc_stack (pmgr s5)) n x \<or> inside (ready_list (sc s5)) k x"
        using inside_mono s5(5,7) by blast
      then show ?thesis using s5(4,6) by blast
    qed
  qed
  let ?a = "\<lparr>tq = [0, 1], running = None, ctx = (\<lambda>_. c)(0 := fresh_ctx s5 0 (be_t1 e), 1 := fresh_ctx s5 1 (be_t2 e))\<rparr>"
  have k: "kmain e magic mbi s = Some s7" unfolding run s5(1) using s7(1,2) by simp
  have "refines b (In_sched, c, s7) ?a" using s7(3) c by simp
  moreover have "ctx ?a 0 = fresh_ctx s7 0 (be_t1 e)" "ctx ?a 1 = fresh_ctx s7 1 (be_t2 e)" "tq ?a = [0, 1]" by (simp_all add: fc)
  moreover have "(proc_stack (pmgr s7), n) \<in> R" "boot_gates (be_isr e) (idt_tbl s7)" using s5(4) g4 sp it by simp_all
  ultimately show ?thesis using k R7 s5(5) by blast
qed

text \<open>C2: the start of the kernel.  From a machine whose boot information can be read, whose tables are clear and whose
  static data lies apart from the heap and the screen, \<open>main\<close> reaches the call of \<open>sched\<close> in a state in which the
  scheduler refines the abstract threads with exactly the two first processes queued, in order, each with a fresh
  context at its entry point; the process stacks are a region of the heap, which still serves requests; and all
  the gates are set.\<close>

theorem kmain_starts:
  fixes s :: "'a boot_state_scheme"
  assumes lay: "boot_layout (be_virt e) b s" and junk: "0 \<le> be_junk e" "be_junk e \<le> INT_MAX - 2560"
    and info: "\<And>m. boot_keeps (be_virt e) s m \<Longrightarrow> parse_multiboot m magic (mbi + be_virt e) \<noteq> None"
    and mp: "\<And>m. boot_keeps (be_virt e) s m \<Longrightarrow>
      \<exists>conf fps. conf \<noteq> NULL \<and> mp_config (be_mp e) (be_pcmp e) (s\<lparr>km := m, vm := \<lparr>vmm_base = be_virt e, vmm_inited = True\<rparr>\<rparr>) = Some (conf, fps)"
    and entry: "be_t1 e \<noteq> NULL" "be_t2 e \<noteq> NULL" and c: "esp c = b + 28"
  shows "\<exists>s' a R n. kmain e magic mbi s = Some s' \<and> refines b (In_sched, c, s') a \<and> tq a = [0, 1]
    \<and> ctx a 0 = fresh_ctx s' 0 (be_t1 e) \<and> ctx a 1 = fresh_ctx s' 1 (be_t2 e)
    \<and> heap_regions s' R \<and> (proc_stack (pmgr s'), n) \<in> R \<and> 262144 \<le> n \<and> boot_gates (be_isr e) (idt_tbl s')"
  by (rule kmain_reaches [OF assms])

text \<open>C3: the kernel as a whole.  After \<open>main\<close> has brought the machine up, every run of the scheduler and its
  processes dispatches the two first processes in turn, for ever: the run can always go on from the scheduler's
  loop, and each process enters its own function first, on its own stack with zeroed registers.\<close>

theorem kernel_alternates:
  fixes s :: "'a boot_state_scheme"
  assumes lay: "boot_layout (be_virt e) b s" and junk: "0 \<le> be_junk e" "be_junk e \<le> INT_MAX - 2560"
    and info: "\<And>m. boot_keeps (be_virt e) s m \<Longrightarrow> parse_multiboot m magic (mbi + be_virt e) \<noteq> None"
    and mp: "\<And>m. boot_keeps (be_virt e) s m \<Longrightarrow>
      \<exists>conf fps. conf \<noteq> NULL \<and> mp_config (be_mp e) (be_pcmp e) (s\<lparr>km := m, vm := \<lparr>vmm_base = be_virt e, vmm_inited = True\<rparr>\<rparr>) = Some (conf, fps)"
    and entry: "be_t1 e \<noteq> NULL" "be_t2 e \<noteq> NULL" and c: "esp c = b + 28"
  shows "\<exists>s'. kmain e magic mbi s = Some s' \<and> (\<forall>rs ls k'. steps (kstep rs) (In_sched, c, s') ls k' \<longrightarrow>
      dispatches ls = map (\<lambda>k. k mod 2) [0..<length (dispatches ls)]
      \<and> (fst k' = In_sched \<longrightarrow> (\<exists>l k2. kstep rs k' l k2))
      \<and> (\<forall>as i c' bs. ls = as @ Dispatch i c' # bs \<and> i \<notin> set (dispatches as) \<longrightarrow>
          c' = fresh_ctx s' i (if i = 0 then be_t1 e else be_t2 e)))"
proof -
  obtain s' a where k: "kmain e magic mbi s = Some s'" and r: "refines b (In_sched, c, s') a" and q: "tq a = [0, 1]"
    and x: "ctx a 0 = fresh_ctx s' 0 (be_t1 e)" "ctx a 1 = fresh_ctx s' 1 (be_t2 e)"
    using kmain_reaches [OF assms] by blast
  have "dispatches ls = map (\<lambda>k. k mod 2) [0..<length (dispatches ls)]"
    and "fst k' = In_sched \<longrightarrow> (\<exists>l k2. kstep rs k' l k2)"
    and "\<forall>as i c' bs. ls = as @ Dispatch i c' # bs \<and> i \<notin> set (dispatches as) \<longrightarrow>
          c' = fresh_ctx s' i (if i = 0 then be_t1 e else be_t2 e)"
    if st: "steps (kstep rs) (In_sched, c, s') ls k'" for rs ls k'
  proof -
    have two: "[0, 1] ! j = j" if "j < 2" for j :: nat using that by (cases j) auto
    have "tq a ! (k mod length (tq a)) = k mod 2" for k using two [of "k mod 2"] by (simp add: q numeral_2_eq_2)
    then show d: "dispatches ls = map (\<lambda>k. k mod 2) [0..<length (dispatches ls)]"
      using run_dispatches [OF r st] by (simp only:)
    show "fst k' = In_sched \<longrightarrow> (\<exists>l k2. kstep rs k' l k2)" using run_progress [OF r st] q by simp
    obtain a' where a': "steps tstep a ls a'" using refines_steps [OF st r] by blast
    have "c' = fresh_ctx s' i (if i = 0 then be_t1 e else be_t2 e)"
      if ls: "ls = as @ Dispatch i c' # bs" "i \<notin> set (dispatches as)" for as i c' bs
    proof -
      have "i \<in> set (dispatches ls)" using ls(1) by (simp add: dispatches_append)
      then have "i = 0 \<or> i = 1" by (subst (asm) d) auto
      moreover have "c' = ctx a i" by (rule first_dispatch [of a as i c' bs a']) (use a' ls r in simp_all)
      ultimately show ?thesis using x by auto
    qed
    then show "\<forall>as i c' bs. ls = as @ Dispatch i c' # bs \<and> i \<notin> set (dispatches as) \<longrightarrow>
          c' = fresh_ctx s' i (if i = 0 then be_t1 e else be_t2 e)" by blast
  qed
  then show ?thesis using k by blast
qed

text \<open>A machine as the boot loader leaves it, and what it starts with: identity mapped, tables below one megabyte.\<close>

definition loaded :: boot_state where
  "loaded = boot0\<lparr>vm := \<lparr>vmm_base = 0, vmm_inited = False\<rparr>,
     sc := \<lparr>sc_inited = False, ready_list = 0, readys = 0, block_list = 0, blocks = 0, context_at = 0x20000, cur_proc = 0\<rparr>,
     pmgr := \<lparr>proc_table = 0x10000, proc_stack = 0, next_pid = 0, proc_inited = False\<rparr>\<rparr>"

definition boot_env0 :: boot_env where
  "boot_env0 = \<lparr>be_dev = \<lambda>_ _. 0, be_isr = \<lparr>isr_common = 1, isr_division_error = 2, isr_nmi = 3, isr_gpf = 4, isr_pf = 5,
       isr_timer = 6, isr_keyboard = 7, isr_syscall = 8\<rparr>,
     be_idt = 0x40000, be_virt = 0, be_junk = 0, be_mp = 0x100, be_pcmp = 0x110, be_utk = 0x50000, be_t1 = 0x60000, be_t2 = 0x70000\<rparr>"

lemma loaded_fields [simp]: "km loaded = boot_mem" "lazy loaded = lazy reset_state"
  "vm loaded = \<lparr>vmm_base = 0, vmm_inited = False\<rparr>"
  "sc loaded = \<lparr>sc_inited = False, ready_list = 0, readys = 0, block_list = 0, blocks = 0, context_at = 0x20000, cur_proc = 0\<rparr>"
  "pmgr loaded = \<lparr>proc_table = 0x10000, proc_stack = 0, next_pid = 0, proc_inited = False\<rparr>"
  "length (idt_tbl loaded) = 256" "length (cpus_tab (cpus loaded)) = 4"
  by (simp_all add: loaded_def boot0_def sched0_def machine0_def sched_state.defs machine.defs pool_state.defs)

lemma in_range: "inside a n x \<Longrightarrow> unat a + n \<le> 2 ^ 32 \<Longrightarrow> unat a \<le> unat x \<and> unat x < unat a + n"
  unfolding inside_def unat_sub_if' by (simp split: if_splits)

lemma loaded_zone: "boot_zone 0 loaded x \<Longrightarrow> 0x1000 \<le> unat x \<and> unat x < 0x1010 \<or> 0xB8000 \<le> unat x"
  unfolding boot_zone_def boot_heap_zone_def
  by (auto simp: reset_state_def dest!: in_range)

lemma loaded_layout: "boot_layout 0 0x30000 loaded"
proof -
  have "apart (lz_frees (lazy reset_state)) 8 0x2000000 536870912" "apart (lz_inuses (lazy reset_state)) 8 0x2000000 536870912"
    by (rule reset_heads; simp)+
  moreover have "static_apart 0x30000 loaded" by (simp add: static_apart_def apart_def)
  moreover have "\<not> boot_zone 0 loaded x" if "static_data 0x30000 loaded x" for x
    using that loaded_zone [of x] by (auto simp: static_data_def dest!: in_range)
  moreover have "boot_mem x = 0" if "inside 0x10000 3584 x" for x
    using in_range [OF that] by (auto simp: boot_mem_def put_def dest!: in_range)
  ultimately show ?thesis by (simp add: boot_layout_def)
qed

lemma loaded_keeps: "boot_keeps 0 loaded m \<Longrightarrow> boot_low m"
  unfolding boot_keeps_def boot_low_def using loaded_zone in_range by fastforce

lemma boot_env0_fields [simp]: "be_virt boot_env0 = 0" "be_mp boot_env0 = 0x100" "be_pcmp boot_env0 = 0x110"
  "be_t1 boot_env0 = 0x60000" "be_t2 boot_env0 = 0x70000" "be_junk boot_env0 = 0"
  by (simp_all add: boot_env0_def)

lemma loaded_info:
  assumes "boot_keeps 0 loaded m"
  shows "parse_multiboot m 0x36d76289 0x700 \<noteq> None"
proof -
  have "rd m 0x708 4 = rd boot_mem 0x708 4" by (rule low_rd [OF loaded_keeps [OF assms]]) simp
  also have "\<dots> = [0, 0, 0, 0]" by (simp add: rd_def boot_mem_def put_def inside_def upt_rec)
  finally have z: "m (0x708 + of_nat i) = [0, 0, 0, 0] ! i" if "i < 4" for i using that by (rule rd_byte)
  have "ld32 m 0x708 = 0" using z [of 0] z [of 1] z [of 2] z [of 3] by (simp add: ld32_def)
  then show ?thesis unfolding parse_multiboot_def by (subst tag_loop.simps) simp
qed

lemma loaded_tables:
  assumes "boot_keeps 0 loaded m"
  shows "\<exists>conf fps. conf \<noteq> NULL \<and> mp_config 0x100 0x110 (loaded\<lparr>km := m, vm := \<lparr>vmm_base = 0, vmm_inited = True\<rparr>\<rparr>) = Some (conf, fps)"
  using low_config [of "loaded\<lparr>km := m, vm := \<lparr>vmm_base = 0, vmm_inited = True\<rparr>\<rparr>"] loaded_keeps [OF assms] by simp

definition idle_regs :: cpu_regs where
  "idle_regs = \<lparr>edi = 0, esi = 0, ebx = 0, ebp = 0, esp = 0x3001C, eip = 0\<rparr>"

lemma esp_idle [simp]: "esp idle_regs = 0x3001C"
  by (simp add: idle_regs_def)

lemma kmain_starts_witness:
  "\<exists>s' a R n. kmain boot_env0 0x36d76289 0x700 loaded = Some s'
    \<and> refines 0x30000 (In_sched, idle_regs, s') a \<and> tq a = [0, 1]
    \<and> ctx a 0 = fresh_ctx s' 0 0x60000 \<and> ctx a 1 = fresh_ctx s' 1 0x70000
    \<and> heap_regions s' R \<and> (proc_stack (pmgr s'), n) \<in> R \<and> 262144 \<le> n \<and> boot_gates (be_isr boot_env0) (idt_tbl s')"
  using kmain_starts [where e = boot_env0 and b = "0x30000" and s = loaded and magic = "0x36d76289" and mbi = "0x700"
      and c = idle_regs] loaded_layout loaded_info loaded_tables by simp

lemma kernel_alternates_witness:
  "\<exists>s'. kmain boot_env0 0x36d76289 0x700 loaded = Some s' \<and> (\<exists>k2. kstep 5 (In_sched, idle_regs, s') (Dispatch 0 (fresh_ctx s' 0 0x60000)) k2)"
proof -
  from kernel_alternates [where e = boot_env0 and b = "0x30000" and s = loaded and magic = "0x36d76289" and mbi = "0x700"
      and c = idle_regs] obtain s' where k: "kmain boot_env0 0x36d76289 0x700 loaded = Some s'"
    and run: "\<And>rs ls k'. steps (kstep rs) (In_sched, idle_regs, s') ls k' \<Longrightarrow>
      dispatches ls = map (\<lambda>k. k mod 2) [0..<length (dispatches ls)]
      \<and> (fst k' = In_sched \<longrightarrow> (\<exists>l k2. kstep rs k' l k2))
      \<and> (\<forall>as i c' bs. ls = as @ Dispatch i c' # bs \<and> i \<notin> set (dispatches as) \<longrightarrow>
          c' = fresh_ctx s' i (if i = 0 then be_t1 boot_env0 else be_t2 boot_env0))"
    using loaded_layout loaded_info loaded_tables by auto
  obtain l k2 where st: "kstep 5 (In_sched, idle_regs, s') l k2"
    using run [of 5 "[]", OF done_] by auto
  then obtain i c' where l: "l = Dispatch i c'" by (cases rule: kstep.cases) auto
  have ls: "steps (kstep 5) (In_sched, idle_regs, s') [Dispatch i c'] k2" using st l by (blast intro: steps.intros)
  have "i = 0" using run [OF ls] by simp
  moreover have "c' = fresh_ctx s' i (if i = 0 then be_t1 boot_env0 else be_t2 boot_env0)"
    using run [OF ls] by (metis append_Nil empty_iff dispatches.simps(1) list.set(1))
  ultimately have "kstep 5 (In_sched, idle_regs, s') (Dispatch 0 (fresh_ctx s' 0 0x60000)) k2" using st l by simp
  then show ?thesis using k by blast
qed

end
