(* ===== verification/Uart.thy ===== *)
theory Uart
  imports Machine
begin

text \<open>
  The kernel for the Raspberry Pi (\<open>arm/src/main.c\<close>): the serial port through memory mapped registers.
  The program keeps the base address of the registers only; its accesses are recorded as for the
  other drivers.  \<open>mbox\<close> is the address of the message for the video controller; the delay loops have no effect.
\<close>

record arm_state =
  MMIO_BASE :: u32
  bus :: "event list"

abbreviation GPPUD :: u32 where "GPPUD \<equiv> 0x200094"
abbreviation GPPUDCLK0 :: u32 where "GPPUDCLK0 \<equiv> 0x200098"
abbreviation UART0_DR :: u32 where "UART0_DR \<equiv> 0x201000"
abbreviation UART0_FR :: u32 where "UART0_FR \<equiv> 0x201018"
abbreviation UART0_IBRD :: u32 where "UART0_IBRD \<equiv> 0x201024"
abbreviation UART0_FBRD :: u32 where "UART0_FBRD \<equiv> 0x201028"
abbreviation UART0_LCRH :: u32 where "UART0_LCRH \<equiv> 0x20102C"
abbreviation UART0_CR :: u32 where "UART0_CR \<equiv> 0x201030"
abbreviation UART0_IMSC :: u32 where "UART0_IMSC \<equiv> 0x201038"
abbreviation UART0_ICR :: u32 where "UART0_ICR \<equiv> 0x201044"
abbreviation MBOX_READ :: u32 where "MBOX_READ \<equiv> 0xB880"
abbreviation MBOX_STATUS :: u32 where "MBOX_STATUS \<equiv> 0xB898"
abbreviation MBOX_WRITE :: u32 where "MBOX_WRITE \<equiv> 0xB8A0"

subsection \<open>Operations\<close>

definition mmio_init :: "int \<Rightarrow> arm_state \<Rightarrow> arm_state" where
  "mmio_init raspi s = s\<lparr>MMIO_BASE :=
     (if raspi = 2 \<or> raspi = 3 then 0x3F000000 else if raspi = 4 then 0xFE000000 else 0x20000000)\<rparr>"

definition mmio_write :: "u32 \<Rightarrow> u32 \<Rightarrow> arm_state \<Rightarrow> arm_state" where
  "mmio_write reg data s = s\<lparr>bus := bus s @ [WrReg (MMIO_BASE s + reg) data]\<rparr>"

definition mmio_read :: "device \<Rightarrow> u32 \<Rightarrow> arm_state \<Rightarrow> u32 \<times> arm_state" where
  "mmio_read d reg s =
     (d (bus s) (RdReg (MMIO_BASE s + reg)), s\<lparr>bus := bus s @ [RdReg (MMIO_BASE s + reg)]\<rparr>)"

text \<open>\<open>while (mmio_read(reg) & bits) { }\<close>\<close>

partial_function (option) wait_bits :: "device \<Rightarrow> u32 \<Rightarrow> u32 \<Rightarrow> arm_state \<Rightarrow> arm_state option" where
  "wait_bits d reg bits s =
     (let (v, s) = mmio_read d reg s in if v AND bits \<noteq> 0 then wait_bits d reg bits s else Some s)"

partial_function (option) wait_mbox :: "device \<Rightarrow> u32 \<Rightarrow> arm_state \<Rightarrow> arm_state option" where
  "wait_mbox d r s =
     (let (v, s) = mmio_read d MBOX_STATUS s in
      if v AND 0x40000000 \<noteq> 0 then wait_mbox d r s
      else let (w, s) = mmio_read d MBOX_READ s in if w \<noteq> r then wait_mbox d r s else Some s)"

definition uart_init :: "device \<Rightarrow> addr \<Rightarrow> int \<Rightarrow> arm_state \<Rightarrow> arm_state option" where
  "uart_init d mbox raspi s = do {
     let s = mmio_init raspi s;
     let s = mmio_write UART0_CR 0 s;
     let s = mmio_write GPPUD 0 s;
     let s = mmio_write GPPUDCLK0 (push_bit 14 1 OR push_bit 15 1) s;
     let s = mmio_write GPPUDCLK0 0 s;
     let s = mmio_write UART0_ICR 0x7FF s;
     s \<leftarrow> (if raspi \<ge> 3 then do {
             let r = (mbox AND NOT 0xF) OR 8;
             s \<leftarrow> wait_bits d MBOX_STATUS 0x80000000 s;
             wait_mbox d r (mmio_write MBOX_WRITE r s) }
           else Some s);
     let s = mmio_write UART0_IBRD 1 s;
     let s = mmio_write UART0_FBRD 40 s;
     let s = mmio_write UART0_LCRH (push_bit 4 1 OR push_bit 5 1 OR push_bit 6 1) s;
     let s = mmio_write UART0_IMSC (push_bit 1 1 OR push_bit 4 1 OR push_bit 5 1 OR push_bit 6 1
                 OR push_bit 7 1 OR push_bit 8 1 OR push_bit 9 1 OR push_bit 10 1) s;
     Some (mmio_write UART0_CR (push_bit 0 1 OR push_bit 8 1 OR push_bit 9 1) s) }"

definition uart_putc :: "device \<Rightarrow> u8 \<Rightarrow> arm_state \<Rightarrow> arm_state option" where
  "uart_putc d c s = do {
     s \<leftarrow> wait_bits d UART0_FR 0x20 s;
     Some (mmio_write UART0_DR (ucast c) s) }"

definition uart_getc :: "device \<Rightarrow> arm_state \<Rightarrow> (u8 \<times> arm_state) option" where
  "uart_getc d s = do {
     s \<leftarrow> wait_bits d UART0_FR 0x10 s;
     let (v, s) = mmio_read d UART0_DR s;
     Some (ucast v, s) }"

text \<open>The string is read as it is sent, up to its terminating zero.\<close>

partial_function (option) puts_loop :: "device \<Rightarrow> mem \<Rightarrow> addr \<Rightarrow> u32 \<Rightarrow> arm_state \<Rightarrow> arm_state option" where
  "puts_loop d m str i s =
     (if m (str + i) = 0 then Some s
      else do { s \<leftarrow> uart_putc d (m (str + i)) s; puts_loop d m str (i + 1) s })"

definition uart_puts :: "device \<Rightarrow> mem \<Rightarrow> addr \<Rightarrow> arm_state \<Rightarrow> arm_state option" where
  "uart_puts d m str s = puts_loop d m str 0 s"

text \<open>\<open>kernel_main\<close> up to its endless loop, and one round of it; the string literal lies at \<open>lit\<close>.\<close>

definition hello :: "u8 list" where
  "hello = [72, 101, 108, 108, 111, 44, 32, 107, 101, 114, 110, 101, 108, 32, 87, 111, 114, 108, 100, 33, 13, 10]"

definition kernel_main :: "device \<Rightarrow> mem \<Rightarrow> addr \<Rightarrow> addr \<Rightarrow> arm_state \<Rightarrow> arm_state option" where
  "kernel_main d m lit mbox s = do { s \<leftarrow> uart_init d mbox 2 s; uart_puts d (put m lit (hello @ [0])) lit s }"

definition echo :: "device \<Rightarrow> arm_state \<Rightarrow> arm_state option" where
  "echo d s = do { (c, s) \<leftarrow> uart_getc d s; uart_putc d c s }"

subsection \<open>What is sent\<close>

text \<open>
  A serial port that becomes ready for output after \<open>n\<close> looks at its flags at the latest, whatever
  happened before, and that has a character when asked for one.
\<close>

fun sent :: "u32 \<Rightarrow> event list \<Rightarrow> u32 list" where
  "sent b [] = []"
| "sent b (WrReg a v # es) = (if a = b + UART0_DR then v # sent b es else sent b es)"
| "sent b (e # es) = sent b es"

lemma sent_append [simp]: "sent b (xs @ ys) = sent b xs @ sent b ys"
  by (induction b xs rule: sent.induct) auto

lemma sent_reads [simp]: "sent b (replicate n (RdReg a)) = []"
  by (induction n) auto

definition ready_within :: "device \<Rightarrow> u32 \<Rightarrow> u32 \<Rightarrow> nat \<Rightarrow> bool" where
  "ready_within d b bits n \<longleftrightarrow>
     (\<forall>es. \<exists>k<n. d (es @ replicate k (RdReg (b + UART0_FR))) (RdReg (b + UART0_FR)) AND bits = 0)"

text \<open>Waiting ends with the first look that finds the bits clear.\<close>

lemma wait_bits_returns:
  assumes "d (bus s @ replicate k (RdReg (MMIO_BASE s + reg))) (RdReg (MMIO_BASE s + reg)) AND bits = 0"
  shows "\<exists>n\<le>k. wait_bits d reg bits s = Some (s\<lparr>bus := bus s @ replicate n (RdReg (MMIO_BASE s + reg)) @ [RdReg (MMIO_BASE s + reg)]\<rparr>)
    \<and> d (bus s @ replicate n (RdReg (MMIO_BASE s + reg))) (RdReg (MMIO_BASE s + reg)) AND bits = 0"
  using assms
proof (induction k arbitrary: s)
  case 0
  then show ?case by (simp add: wait_bits.simps [of d reg bits s] mmio_read_def)
next
  case (Suc k)
  let ?e = "RdReg (MMIO_BASE s + reg)" and ?s = "s\<lparr>bus := bus s @ [RdReg (MMIO_BASE s + reg)]\<rparr>"
  show ?case
  proof (cases "d (bus s) ?e AND bits = 0")
    case True
    then show ?thesis by (intro exI [of _ 0]) (simp add: wait_bits.simps [of d reg bits s] mmio_read_def)
  next
    case False
    obtain n where "n \<le> k" "wait_bits d reg bits ?s = Some (?s\<lparr>bus := bus ?s @ replicate n ?e @ [?e]\<rparr>)"
      "d (bus ?s @ replicate n ?e) ?e AND bits = 0"
      using Suc.IH [of ?s] Suc.prems by auto
    then show ?thesis using False
      by (intro exI [of _ "Suc n"]) (simp add: wait_bits.simps [of d reg bits s] mmio_read_def)
  qed
qed

text \<open>Every character is written right after a look at the flags that found the port ready.\<close>

definition polled :: "device \<Rightarrow> u32 \<Rightarrow> event list \<Rightarrow> event list \<Rightarrow> bool" where
  "polled d b h es \<longleftrightarrow> (\<forall>pre v post. es = pre @ WrReg (b + UART0_DR) v # post \<longrightarrow>
     (\<exists>looks. pre = looks @ [RdReg (b + UART0_FR)] \<and> d (h @ looks) (RdReg (b + UART0_FR)) AND 0x20 = 0))"

lemma later_split: "l @ w = pre @ x # post \<Longrightarrow> x \<notin> set l \<Longrightarrow> \<exists>us. pre = l @ us \<and> w = us @ x # post"
proof (induction l arbitrary: pre)
  case (Cons y l)
  then show ?case by (cases pre) auto
qed simp

lemma polled_putc:
  assumes "d (h @ replicate k (RdReg (b + UART0_FR))) (RdReg (b + UART0_FR)) AND 0x20 = 0"
    and "polled d b (h @ replicate k (RdReg (b + UART0_FR)) @ [RdReg (b + UART0_FR), WrReg (b + UART0_DR) c]) es"
  shows "polled d b h (replicate k (RdReg (b + UART0_FR)) @ RdReg (b + UART0_FR) # WrReg (b + UART0_DR) c # es)"
  unfolding polled_def
proof (intro allI impI)
  fix pre v post
  let ?l = "replicate k (RdReg (b + UART0_FR)) @ [RdReg (b + UART0_FR)]" and ?w = "WrReg (b + UART0_DR) c"
  assume "replicate k (RdReg (b + UART0_FR)) @ RdReg (b + UART0_FR) # ?w # es = pre @ WrReg (b + UART0_DR) v # post"
  then have e: "?l @ ?w # es = pre @ WrReg (b + UART0_DR) v # post" by simp
  have no: "WrReg (b + UART0_DR) v \<notin> set ?l" by auto
  obtain us where us: "pre = ?l @ us" "?w # es = us @ WrReg (b + UART0_DR) v # post" using later_split [OF e no] by blast
  show "\<exists>looks. pre = looks @ [RdReg (b + UART0_FR)] \<and> d (h @ looks) (RdReg (b + UART0_FR)) AND 0x20 = 0"
  proof (cases us)
    case Nil
    then show ?thesis using us assms(1) by auto
  next
    case (Cons u us')
    then have "es = us' @ WrReg (b + UART0_DR) v # post" "u = ?w" using us(2) by auto
    then obtain looks where "us' = looks @ [RdReg (b + UART0_FR)]"
      "d ((h @ replicate k (RdReg (b + UART0_FR)) @ [RdReg (b + UART0_FR), ?w]) @ looks) (RdReg (b + UART0_FR)) AND 0x20 = 0"
      using assms(2) unfolding polled_def by blast
    then show ?thesis using us(1) Cons \<open>u = ?w\<close> by (intro exI [of _ "?l @ ?w # looks"]) simp
  qed
qed

lemma uart_putc_sends:
  assumes "ready_within d (MMIO_BASE s) 0x20 n"
  shows "\<exists>k<n. uart_putc d c s = Some (s\<lparr>bus := bus s @ replicate k (RdReg (MMIO_BASE s + UART0_FR))
      @ [RdReg (MMIO_BASE s + UART0_FR), WrReg (MMIO_BASE s + UART0_DR) (ucast c)]\<rparr>)
    \<and> d (bus s @ replicate k (RdReg (MMIO_BASE s + UART0_FR))) (RdReg (MMIO_BASE s + UART0_FR)) AND 0x20 = 0"
proof -
  obtain k where k: "k < n" "d (bus s @ replicate k (RdReg (MMIO_BASE s + UART0_FR))) (RdReg (MMIO_BASE s + UART0_FR)) AND 0x20 = 0"
    using assms unfolding ready_within_def by blast
  obtain j where "j \<le> k" "wait_bits d UART0_FR 0x20 s = Some (s\<lparr>bus := bus s @ replicate j (RdReg (MMIO_BASE s + UART0_FR)) @ [RdReg (MMIO_BASE s + UART0_FR)]\<rparr>)"
    "d (bus s @ replicate j (RdReg (MMIO_BASE s + UART0_FR))) (RdReg (MMIO_BASE s + UART0_FR)) AND 0x20 = 0"
    using wait_bits_returns [where d = d and s = s and k = k and reg = UART0_FR and bits = "0x20"] k(2) by blast
  then show ?thesis using k(1) by (intro exI [of _ j]) (simp add: uart_putc_def mmio_write_def)
qed

lemma cstr_step: "cstr m a [] \<longleftrightarrow> m a = 0" "cstr m a (c # cs) \<longleftrightarrow> c \<noteq> 0 \<and> m a = c \<and> cstr m (a + 1) cs"
proof -
  show "cstr m a [] \<longleftrightarrow> m a = 0" by (simp add: cstr_def rd_def)
  have "rd m a (Suc n) = m a # rd m (a + 1) n" for n
    unfolding rd_def by (simp add: upt_conv_Cons map_Suc_upt [symmetric] ac_simps del: upt_Suc)
  then show "cstr m a (c # cs) \<longleftrightarrow> c \<noteq> 0 \<and> m a = c \<and> cstr m (a + 1) cs" by (auto simp: cstr_def)
qed

lemma puts_loop_sends:
  "ready_within d (MMIO_BASE s) 0x20 n \<Longrightarrow> cstr m (str + of_nat i) cs \<Longrightarrow> i + length cs < 2 ^ 32 \<Longrightarrow>
   \<exists>es. puts_loop d m str (of_nat i) s = Some (s\<lparr>bus := bus s @ es\<rparr>) \<and> sent (MMIO_BASE s) es = map ucast cs
     \<and> polled d (MMIO_BASE s) (bus s) es \<and> length es \<le> length cs * Suc n"
proof (induction cs arbitrary: i s)
  case Nil
  then show ?case by (intro exI [of _ "[]"]) (simp add: puts_loop.simps [of d m str] polled_def cstr_step)
next
  case (Cons c cs)
  have c: "m (str + of_nat i) = c" "c \<noteq> 0" "cstr m (str + of_nat (Suc i)) cs" using Cons.prems(2) by (auto simp: cstr_step ac_simps)
  let ?r = "RdReg (MMIO_BASE s + UART0_FR)" and ?w = "WrReg (MMIO_BASE s + UART0_DR) (ucast c)"
  obtain k where k: "k < n" "uart_putc d c s = Some (s\<lparr>bus := bus s @ replicate k ?r @ [?r, ?w]\<rparr>)" (is "_ = Some ?s")
    "d (bus s @ replicate k ?r) ?r AND 0x20 = 0"
    using uart_putc_sends [OF Cons.prems(1)] by blast
  obtain es where es: "puts_loop d m str (of_nat (Suc i)) ?s = Some (?s\<lparr>bus := bus ?s @ es\<rparr>)" "sent (MMIO_BASE s) es = map ucast cs"
    "polled d (MMIO_BASE s) (bus ?s) es" "length es \<le> length cs * Suc n"
    using Cons.IH [of ?s "Suc i"] Cons.prems(1,3) c(3) by auto
  have "polled d (MMIO_BASE s) (bus s) (replicate k ?r @ ?r # ?w # es)"
    using polled_putc [of d "bus s" k "MMIO_BASE s" "ucast c" es] k(3) es(3) by simp
  then show ?case using k(1,2) es(1,2,4) c
    by (intro exI [of _ "replicate k ?r @ ?r # ?w # es"]) (simp add: puts_loop.simps [of d m str "of_nat i"] add.commute)
qed

text \<open>C39: On a port that is always ready within \<open>n\<close> looks, \<open>uart_puts\<close> of a zero-terminated string in memory returns, has
  sent exactly its characters in their order, each right after a look at the flags register that found the port ready
  for it, and has made at most \<open>n\<close> looks for each.\<close>

theorem uart_puts_sends:
  assumes "ready_within d (MMIO_BASE s) 0x20 n" and "cstr m str cs" and "length cs < 2 ^ 32"
  shows "\<exists>es. uart_puts d m str s = Some (s\<lparr>bus := bus s @ es\<rparr>) \<and> sent (MMIO_BASE s) es = map ucast cs
    \<and> (\<forall>pre v post. es = pre @ WrReg (MMIO_BASE s + UART0_DR) v # post \<longrightarrow>
         (\<exists>looks. pre = looks @ [RdReg (MMIO_BASE s + UART0_FR)]
            \<and> d (bus s @ looks) (RdReg (MMIO_BASE s + UART0_FR)) AND 0x20 = 0))
    \<and> length es \<le> length cs * Suc n"
  using puts_loop_sends [OF assms(1), of m str 0 cs] assms(2,3) unfolding polled_def uart_puts_def by simp

lemma uart_puts_sends_witness:
  "\<exists>es. uart_puts (\<lambda>es e. if es = [] then 0x20 else 0) (put (\<lambda>_. 0) 0x8000 [72, 105]) 0x8000 \<lparr>MMIO_BASE = 0x3F000000, bus = []\<rparr>
      = Some \<lparr>MMIO_BASE = 0x3F000000, bus = es\<rparr> \<and> sent 0x3F000000 es = [72, 105]"
proof -
  have "ready_within (\<lambda>es e. if es = [] then 0x20 else 0) 0x3F000000 0x20 2"
    unfolding ready_within_def by (intro allI exI [of _ 1]) simp
  note rw = this
  have "cstr (put (\<lambda>_. 0) 0x8000 [72, 105]) 0x8000 [72, 105]" by (simp add: cstr_step put_def inside_def)
  from uart_puts_sends [OF _ this, of _ "\<lparr>MMIO_BASE = 0x3F000000, bus = []\<rparr>", simplified, OF rw] show ?thesis by auto
qed

end
