(* ===== verification/Kernel64.thy ===== *)
theory Kernel64
  imports Cstring
begin

text \<open>
  The 64-bit kernel (\<open>archtecture/x86/p64\<close>): its own string routines, number printers, text screen and
  formatted printing, and its \<open>main\<close>.  Pointers have 64 bits; \<open>int\<close> and \<open>u32\<close> are as before, so the
  memory is a function from 64-bit addresses to bytes.  \<open>math.c\<close> has no pointers: it is \<open>Cmath\<close>.
\<close>

type_synonym addr64 = "64 word"
type_synonym mem64 = "addr64 \<Rightarrow> u8"

subsection \<open>Strings\<close>

function strlen64_loop :: "mem64 \<Rightarrow> addr64 \<Rightarrow> nat \<Rightarrow> nat option" where
  "strlen64_loop m str n =
     (if n > 2147483647 then None
      else if m (str + of_nat n) = 0 then Some n
      else strlen64_loop m str (Suc n))"
  by pat_completeness auto
termination
  by (relation "measure (\<lambda>(m, str, n). 2147483648 - n)") auto

declare strlen64_loop.simps [simp del]

definition strlen64 :: "mem64 \<Rightarrow> addr64 \<Rightarrow> int option" where
  "strlen64 m str =
     (if str = 0 then Some 0
      else map_option (\<lambda>n. if int n \<noteq> INT_MAX then int n else 0) (strlen64_loop m str 0))"

fun strrchr64_loop :: "mem64 \<Rightarrow> addr64 \<Rightarrow> u8 \<Rightarrow> nat \<Rightarrow> addr64" where
  "strrchr64_loop m str ch 0 = (if m str = ch then str else 0)"
| "strrchr64_loop m str ch (Suc i) =
     (if m (str + of_nat (Suc i)) = ch then str + of_nat (Suc i) else strrchr64_loop m str ch i)"

definition strrchr64 :: "mem64 \<Rightarrow> addr64 \<Rightarrow> u8 \<Rightarrow> addr64 option" where
  "strrchr64 m str ch =
     (if str = 0 then Some 0
      else do { len \<leftarrow> strlen64 m str; Some (strrchr64_loop m str ch (nat len)) })"

fun strchr64_loop :: "mem64 \<Rightarrow> addr64 \<Rightarrow> u8 \<Rightarrow> nat list \<Rightarrow> addr64" where
  "strchr64_loop m str ch [] = 0"
| "strchr64_loop m str ch (i # is) =
     (if m (str + of_nat i) = ch then str + of_nat i else strchr64_loop m str ch is)"

definition strchr64 :: "mem64 \<Rightarrow> addr64 \<Rightarrow> u8 \<Rightarrow> addr64 option" where
  "strchr64 m str ch = do {
     len \<leftarrow> strlen64 m str;
     if str = 0 \<or> len = 0 then Some 0
     else Some (strchr64_loop m str ch [0..<nat len]) }"

definition memset64 :: "mem64 \<Rightarrow> addr64 \<Rightarrow> int \<Rightarrow> int \<Rightarrow> addr64 \<times> mem64" where
  "memset64 m dst ch cnt =
     (if cnt < 1 then (0, m)
      else (dst, fold (\<lambda>n m. m(dst + of_nat n := word_of_int ch)) (rev [0..<nat cnt]) m))"

definition memcpy64 :: "mem64 \<Rightarrow> addr64 \<Rightarrow> addr64 \<Rightarrow> int \<Rightarrow> addr64 \<times> mem64" where
  "memcpy64 m dst src cnt =
     (if dst = 0 \<or> src = 0 then (0, m)
      else if cnt < 1 then (0, m)
      else (dst, fold (\<lambda>i m. m(dst + of_nat i := m (src + of_nat i))) [0..<nat cnt] m))"

definition strncpy64 :: "mem64 \<Rightarrow> addr64 \<Rightarrow> addr64 \<Rightarrow> int \<Rightarrow> (addr64 \<times> mem64) option" where
  "strncpy64 m dst src cnt =
     (if dst = 0 \<or> src = 0 then Some (0, m)
      else if cnt < 1 then Some (0, m)
      else do {
        n \<leftarrow> strlen64 m src;
        let len = c_min n cnt;
        Some (dst, fold (\<lambda>i m. m(dst + of_nat i := m (src + of_nat i))) [0..<nat len] m) })"

definition reverse64 :: "mem64 \<Rightarrow> addr64 \<Rightarrow> addr64 \<Rightarrow> mem64 option" where
  "reverse64 m rb str = do {
     len \<leftarrow> strlen64 m str;
     let n = nat len;
     let m = fold (\<lambda>i m. m(rb + of_nat (n - 1 - i) := m (str + of_nat i))) [0..<n] m;
     Some (snd (memcpy64 m str rb len)) }"

text \<open>This \<open>strcmp\<close> has its loop inside; there is no \<open>strncmp\<close> here.\<close>

fun strcmp64_loop :: "mem64 \<Rightarrow> addr64 \<Rightarrow> addr64 \<Rightarrow> nat list \<Rightarrow> int" where
  "strcmp64_loop m s1 s2 [] = 0"
| "strcmp64_loop m s1 s2 (i # is) =
     (let s = sint (m (s1 + of_nat i)) - sint (m (s2 + of_nat i)) in
      if s \<noteq> 0 then s else strcmp64_loop m s1 s2 is)"

definition strcmp64 :: "mem64 \<Rightarrow> addr64 \<Rightarrow> addr64 \<Rightarrow> int option" where
  "strcmp64 m s1 s2 = do {
     n1 \<leftarrow> strlen64 m s1;
     n2 \<leftarrow> strlen64 m s2;
     let len = c_min n1 n2;
     if len = 0 then Some (sint (m s1) - sint (m s2))
     else Some (strcmp64_loop m s1 s2 [0..<nat len]) }"

text \<open>The three static variables of \<open>strtok\<close>.\<close>

record strtok_state64 =
  tk64_stk :: addr64
  tk64_len :: int
  tk64_i :: int

function strtok64_loop :: "mem64 \<Rightarrow> addr64 \<Rightarrow> u8 \<Rightarrow> int \<Rightarrow> int \<Rightarrow> int \<times> mem64" where
  "strtok64_loop m stk delim len i =
     (if i < len then
        (if m (stk + word_of_int i) = delim then (i + 1, m(stk + word_of_int i := 0))
         else strtok64_loop m stk delim len (i + 1))
      else (i, m))"
  by pat_completeness auto
termination
  by (relation "measure (\<lambda>(m, stk, delim, len, i). nat (len - i))") auto

declare strtok64_loop.simps [simp del]

definition strtok64 :: "mem64 \<Rightarrow> strtok_state64 \<Rightarrow> addr64 \<Rightarrow> addr64 \<Rightarrow> (addr64 \<times> mem64 \<times> strtok_state64) option" where
  "strtok64 m s str delim =
     (if tk64_stk s = 0 \<and> str = 0 then Some (0, m, s)
      else do {
        s \<leftarrow> (if str \<noteq> 0 then
                 map_option (\<lambda>l. s\<lparr>tk64_i := 0, tk64_stk := str, tk64_len := l\<rparr>) (strlen64 m str)
               else Some s);
        let tmp = (if tk64_i s < tk64_len s then tk64_stk s + word_of_int (tk64_i s) else 0);
        let (i, m) = strtok64_loop m (tk64_stk s) (m delim) (tk64_len s) (tk64_i s);
        Some (tmp, m, s\<lparr>tk64_i := i\<rparr>) })"

subsection \<open>Numbers\<close>

function itoa64_loop :: "mem64 \<Rightarrow> addr64 \<Rightarrow> nat \<Rightarrow> nat \<Rightarrow> nat \<times> mem64" where
  "itoa64_loop m buf i nxt =
     (let m' = m(buf + of_nat i := of_nat (nxt mod 10) + 48) in
      if nxt div 10 \<noteq> 0 then itoa64_loop m' buf (Suc i) (nxt div 10) else (Suc i, m'))"
  by pat_completeness auto
termination
  by (relation "measure (\<lambda>(m, buf, i, nxt). nxt)") auto

declare itoa64_loop.simps [simp del]

definition itoa64 :: "mem64 \<Rightarrow> addr64 \<Rightarrow> addr64 \<Rightarrow> int \<Rightarrow> addr64 \<Rightarrow> mem64 option" where
  "itoa64 m buf rb n s = do {
     nxt \<leftarrow> (if n < 0 then s32_ok (- n) else Some n);
     let m = snd (memset64 m buf 0 (int INT_MAX_DIG));
     let (i, m) = itoa64_loop m buf 0 (nat nxt);
     let m = (if n < 0 then m(buf + of_nat i := 45) else m);
     m \<leftarrow> reverse64 m rb buf;
     Some (snd (memcpy64 m s buf (int INT_MAX_DIG))) }"

function itoh64_loop :: "mem64 \<Rightarrow> addr64 \<Rightarrow> nat \<Rightarrow> nat \<Rightarrow> nat \<times> mem64" where
  "itoh64_loop m buf i d =
     (let r = d mod 16;
          m' = m(buf + of_nat i := (if r < 10 then of_nat r + 48 else of_nat (r - 10) + 65)) in
      if d div 16 \<noteq> 0 then itoh64_loop m' buf (Suc i) (d div 16) else (Suc i, m'))"
  by pat_completeness auto
termination
  by (relation "measure (\<lambda>(m, buf, i, d). d)") auto

declare itoh64_loop.simps [simp del]

definition itoh64 :: "mem64 \<Rightarrow> addr64 \<Rightarrow> addr64 \<Rightarrow> u32 \<Rightarrow> addr64 \<Rightarrow> mem64 option" where
  "itoh64 m buf rb n s = do {
     let m = snd (memset64 m buf 0 (int INT_MAX_DIG));
     let (i, m) = itoh64_loop m buf 0 (unat n);
     m \<leftarrow> reverse64 m rb buf;
     Some (snd (memcpy64 m s buf (int INT_MAX_DIG))) }"

subsection \<open>The text screen\<close>

text \<open>
  A pixel has two bytes.  The cursor is a pointer that only line feeds take back to the beginning of a
  row; \<open>cl\<close> counts the line feeds.  Nothing bounds it.
\<close>

record kernel64 =
  km64 :: mem64
  vga_text_bp :: addr64
  vga_text_cp :: addr64
  vga_cl :: int

partial_function (option) vga64_loop :: "addr64 \<Rightarrow> u8 \<Rightarrow> kernel64 \<Rightarrow> kernel64 option" where
  "vga64_loop c attr s =
     (if km64 s c = 0 then Some s
      else if km64 s c = 10 then do {
        l \<leftarrow> s32_ok (vga_cl s + 1);
        k \<leftarrow> s32_ok (80 * l);
        vga64_loop (c + 1) attr (s\<lparr>vga_cl := l, vga_text_cp := vga_text_bp s + 2 * word_of_int k\<rparr>) }
      else
        let m = (km64 s)(vga_text_cp s := km64 s c, vga_text_cp s + 1 := attr)
        in vga64_loop (c + 1) attr (s\<lparr>km64 := m, vga_text_cp := vga_text_cp s + 2\<rparr>))"

definition vga_text_write64_raw :: "addr64 \<Rightarrow> u8 \<Rightarrow> u8 \<Rightarrow> kernel64 \<Rightarrow> (int \<times> kernel64) option" where
  "vga_text_write64_raw c fg bg s = do { s \<leftarrow> vga64_loop c (push_bit 4 bg OR fg) s; Some (0, s) }"

definition vga_text_write64 :: "addr64 \<Rightarrow> kernel64 \<Rightarrow> (int \<times> kernel64) option" where
  "vga_text_write64 c s = do { (_, s) \<leftarrow> vga_text_write64_raw c 0xF 0x0 s; Some (0, s) }"

definition vga_text_init64 :: "kernel64 \<Rightarrow> int \<times> kernel64" where
  "vga_text_init64 s =
     (let s = s\<lparr>vga_text_bp := 0xB8000, vga_text_cp := 0xB8000\<rparr>
      in (0, s\<lparr>km64 := snd (memset64 (km64 s) (vga_text_bp s) 0 (25 * 80 * 2))\<rparr>))"

subsection \<open>Formatted printing\<close>

definition printable64 :: "u8 \<Rightarrow> bool" where
  "printable64 c \<longleftrightarrow> c = 10 \<or> c = 13 \<or> 32 \<le> c \<and> c < 127"

text \<open>
  The local array \<open>pi.buf\<close> of 4096 bytes, and those of \<open>itoa\<close>/\<open>itoh\<close> and \<open>reverse\<close>.  An argument has eight
  bytes; taking one that is not there, or a \<open>char\<close>, which is never passed as such, is undefined, as is a text
  without an end inside the array.
\<close>

record locals64 =
  l64_buf :: addr64
  l64_nb :: addr64
  l64_rb :: addr64

text \<open>
  What \<open>stdarg.h\<close> makes of \<open>va_list\<close> is the compiler's affair, a parameter.  \<open>vkprintf\<close> stores the address of its
  parameter \<open>args\<close> in \<open>pi\<close> as that of a list.  Where \<open>va_list\<close> is a pointer it is; where it is an array, as it is for
  \<open>x86_64-elf-gcc\<close>, with which the kernel is built, the parameter is a pointer to the caller's list and its
  address that of no list: to take an argument from there is undefined.
\<close>

datatype va_abi = Va_pointer | Va_array

datatype conv64 = Pre_comm | Pre_int | Pre_char | Pre_str | Pre_hex

definition select_conv64 :: "u8 \<Rightarrow> conv64" where
  "select_conv64 c =
     (if c = 0x64 then Pre_int
      else if c = 0x63 then Pre_char
      else if c = 0x73 then Pre_str
      else if c = 0x78 \<or> c = 0x58 then Pre_hex
      else Pre_comm)"

fun run_pre64 :: "va_abi \<Rightarrow> locals64 \<Rightarrow> conv64 \<Rightarrow> u64 list \<Rightarrow> mem64 \<Rightarrow> (u64 list \<times> mem64) option" where
  "run_pre64 abi l Pre_comm args m = Some (args, m)"
| "run_pre64 Va_pointer l Pre_int (a # args) m = do {
     m \<leftarrow> itoa64 m (l64_nb l) (l64_rb l) (to_s32 (ucast a)) (l64_buf l); Some (args, m) }"
| "run_pre64 Va_pointer l Pre_hex (a # args) m = do {
     m \<leftarrow> itoh64 m (l64_nb l) (l64_rb l) (ucast a) (l64_buf l); Some (args, m) }"
| "run_pre64 Va_pointer l Pre_str (a # args) m = do {
     len \<leftarrow> strlen64 m a;
     if len > 4096 then None else Some (args, snd (memcpy64 m (l64_buf l) a len)) }"
| "run_pre64 abi l f args m = None"

partial_function (option) vkprintf64_loop ::
    "va_abi \<Rightarrow> locals64 \<Rightarrow> addr64 \<Rightarrow> nat \<Rightarrow> bool \<Rightarrow> u64 list \<Rightarrow> kernel64 \<Rightarrow> kernel64 option" where
  "vkprintf64_loop abi l fmt i conv args s =
     (if i \<ge> 2147483647 then None
      else
        let c = km64 s (fmt + of_nat i) in
        if c = 0 then Some s
        else if c \<ge> 128 then None
        else if \<not> printable64 c then vkprintf64_loop abi l fmt (i + 1) conv args s
        else
          let m = (snd (memset64 (km64 s) (l64_buf l) 0 4096))(l64_buf l := c) in
          if \<not> conv \<and> c = 37 then vkprintf64_loop abi l fmt (i + 1) True args (s\<lparr>km64 := m\<rparr>)
          else do {
            (args, m) \<leftarrow> run_pre64 abi l (if conv then select_conv64 c else Pre_comm) args m;
            n \<leftarrow> strlen64 m (l64_buf l);
            if n \<ge> 4096 then None
            else do {
              (_, s) \<leftarrow> vga_text_write64 (l64_buf l) (s\<lparr>km64 := m\<rparr>);
              vkprintf64_loop abi l fmt (i + 1) False args s } })"

definition vkprintf64 :: "va_abi \<Rightarrow> locals64 \<Rightarrow> addr64 \<Rightarrow> u64 list \<Rightarrow> kernel64 \<Rightarrow> kernel64 option" where
  "vkprintf64 abi l fmt args s = vkprintf64_loop abi l fmt 0 False args s"

text \<open>
  \<open>kprintf\<close> starts the list \<open>args\<close> and passes \<open>args2\<close>, which was never started: there is no argument to be taken
  from it.
\<close>

definition kprintf64 :: "va_abi \<Rightarrow> locals64 \<Rightarrow> addr64 \<Rightarrow> u64 list \<Rightarrow> kernel64 \<Rightarrow> kernel64 option" where
  "kprintf64 abi l fmt args s = (let args2 = [] in vkprintf64 abi l fmt args2 s)"

subsection \<open>Start\<close>

text \<open>
  \<open>main\<close> up to its endless loop: \<open>debug\<close> prints the name of the function and the number of the line.  \<open>fmt\<close> is the
  address of the format, \<open>fn\<close> that of the function's name.
\<close>

definition main64 :: "va_abi \<Rightarrow> locals64 \<Rightarrow> addr64 \<Rightarrow> addr64 \<Rightarrow> kernel64 \<Rightarrow> kernel64 option" where
  "main64 abi l fmt fn s = do {
     let (_, s) = vga_text_init64 s;
     kprintf64 abi l fmt [fn, 9] s }"

end
