(* ===== verification/Kernel64_Props.thy ===== *)
theory Kernel64_Props
  imports Kernel64 Console_Spec
begin

text \<open>
  The 64-bit kernel.  Its routines are the 32-bit ones at wider addresses: on any window of 4 GB, in which
  the addresses of the arguments do not wrap, they do what those do.  The screen is described by a machine that
  types characters; \<open>vga_text_write64\<close> refines it.
\<close>

subsection \<open>Windows of 32 bits\<close>

definition at64 :: "u64 \<Rightarrow> addr \<Rightarrow> addr64" where
  "at64 B a = B + ucast a"

definition win :: "u64 \<Rightarrow> mem64 \<Rightarrow> mem" where
  "win B m = (\<lambda>a. m (at64 B a))"

definition glue :: "u64 \<Rightarrow> mem64 \<Rightarrow> mem \<Rightarrow> mem64" where
  "glue B m w = (\<lambda>x. if unat (x - B) < 4294967296 then w (ucast (x - B)) else m x)"

lemma unat_ucast_32_64: "unat (ucast (a :: u32) :: u64) = unat a"
  using unat_bound [of a] by (simp add: unsigned_ucast_eq take_bit_nat_eq_self)

lemma ucast_back: "ucast (ucast (a :: u32) :: u64) = a"
  by (rule bit_word_eqI) (auto simp: bit_simps)

lemma at64_iff: "x = at64 B a \<longleftrightarrow> unat (x - B) < 4294967296 \<and> ucast (x - B) = a"
proof
  assume "x = at64 B a"
  then have "x - B = ucast a" by (simp add: at64_def)
  then show "unat (x - B) < 4294967296 \<and> ucast (x - B) = a"
    using unat_bound [of a] unat_ucast_32_64 ucast_back by simp
next
  assume a: "unat (x - B) < 4294967296 \<and> ucast (x - B) = a"
  have "unat (ucast (x - B) :: u32) = unat (x - B)"
    by (simp add: unsigned_ucast_eq take_bit_nat_eq_self conjunct1 [OF a])
  then have "unat (ucast a :: u64) = unat (x - B)" using a by (simp only: unat_ucast_32_64)
  then have "ucast a = x - B" by (simp only: word_unat_eq_iff)
  then show "x = at64 B a" by (simp add: at64_def)
qed

lemma at64_add: "unat a + i < 4294967296 \<Longrightarrow> at64 B a + of_nat i = at64 B (a + of_nat i)"
proof -
  assume i: "unat a + i < 4294967296"
  have "unat (ucast (a + of_nat i) :: u64) = unat (ucast a + of_nat i :: u64)"
    using i by (simp add: unat_ucast_32_64 unat_word_ariths unsigned_of_nat take_bit_nat_eq_self)
  then have "(ucast (a + of_nat i) :: u64) = ucast a + of_nat i" by (simp only: word_unat_eq_iff)
  then show ?thesis by (simp add: at64_def add.assoc)
qed

lemma glue_at [simp]: "glue B m w (at64 B a) = w a"
  using at64_iff [of "at64 B a" B a] by (simp add: glue_def)

lemma glue_upd: "(glue B m w)(at64 B a := v) = glue B m (w(a := v))"
  by (rule ext) (auto simp: glue_def at64_iff)

lemma glue_win [simp]: "glue B m (win B m) = m"
  by (rule ext) (metis at64_iff glue_at glue_def win_def)

lemma glue_st8: "(glue B m w)(at64 B a := v) = glue B m (st8 w a v)"
  by (simp add: glue_upd st8_def)

lemma win_glue [simp]: "win B (glue B m w) = w"
  by (rule ext) (simp add: win_def)

lemma fill_glue:
  "\<forall>n\<in>set ns. unat d + n < 4294967296 \<Longrightarrow>
     fold (\<lambda>n m. m(at64 B d + of_nat n := v)) ns (glue B m w) = glue B m (fold (\<lambda>n m. st8 m (d + of_nat n) v) ns w)"
  by (induction ns arbitrary: w) (simp_all add: at64_add glue_upd st8_def)

lemma copy_glue:
  "\<forall>i\<in>set is. unat d + f i < 4294967296 \<and> unat s + i < 4294967296 \<Longrightarrow>
     fold (\<lambda>i m. m(at64 B d + of_nat (f i) := m (at64 B s + of_nat i))) is (glue B m w)
       = glue B m (fold (\<lambda>i m. st8 m (d + of_nat (f i)) (m (s + of_nat i))) is w)"
  by (induction "is" arbitrary: w) (simp_all add: at64_add glue_upd st8_def)

subsection \<open>The routines on a window\<close>

lemma memset64_glue:
  assumes "unat d + nat cnt \<le> 4294967296"
  shows "snd (memset64 (glue B m w) (at64 B d) ch cnt) = glue B m (snd (memset w d ch cnt))"
proof -
  have "\<forall>n\<in>set (rev [0..<nat cnt]). unat d + n < 4294967296" using assms by auto
  from fill_glue [OF this] show ?thesis by (simp add: memset64_def memset_def)
qed

lemma memcpy64_glue:
  assumes "unat d + nat cnt \<le> 4294967296" "unat s + nat cnt \<le> 4294967296"
    and "at64 B d \<noteq> 0" "at64 B s \<noteq> 0" "d \<noteq> 0" "s \<noteq> 0"
  shows "snd (memcpy64 (glue B m w) (at64 B d) (at64 B s) cnt) = glue B m (snd (memcpy w d s cnt))"
proof -
  have "\<forall>i\<in>set [0..<nat cnt]. unat d + i < 4294967296 \<and> unat s + i < 4294967296" using assms(1,2) by auto
  from copy_glue [where f = "\<lambda>i. i", OF this] show ?thesis using assms(3-6) by (simp add: memcpy64_def memcpy_def)
qed

lemma strlen_loop_le: "strlen_loop w a n = Some k \<Longrightarrow> n \<le> k"
proof (induction w a n rule: strlen_loop.induct)
  case (1 w a n)
  show ?case
  proof (cases "n > 2147483647 \<or> w (a + of_nat n) = 0")
    case True
    then show ?thesis using 1(2) by (simp add: strlen_loop.simps [of w a n] split: if_splits)
  next
    case False
    then show ?thesis using 1 by (simp add: strlen_loop.simps [of w a n])
  qed
qed

lemma strlen64_loop_glue:
  "strlen_loop w a n = Some k \<Longrightarrow> unat a + k < 4294967296 \<Longrightarrow> strlen64_loop (glue B m w) (at64 B a) n = Some k"
proof (induction w a n rule: strlen_loop.induct)
  case (1 w a n)
  have "n > 2147483647 \<Longrightarrow> strlen_loop w a n = None" by (subst strlen_loop.simps) simp
  then have n: "n \<le> k" "\<not> n > 2147483647" using 1(2) strlen_loop_le by auto
  then have at: "at64 B a + of_nat n = at64 B (a + of_nat n)" using 1(3) by (intro at64_add) simp
  show ?case
  proof (cases "w (a + of_nat n) = 0")
    case True
    then show ?thesis using 1(2) n at by (subst strlen64_loop.simps) (simp add: strlen_loop.simps [of w a n])
  next
    case False
    then have "strlen_loop w a (Suc n) = Some k" using 1(2) n(2) by (simp add: strlen_loop.simps [of w a n])
    then show ?thesis using 1(1) [OF n(2) False] 1(3) False n(2) at by (subst strlen64_loop.simps) simp
  qed
qed

lemma strlen64_glue:
  assumes "cstr w a bs" "length bs < 2147483647" "unat a + length bs < 4294967296" "at64 B a \<noteq> 0"
  shows "strlen64 (glue B m w) (at64 B a) = Some (int (length bs))"
proof -
  have "strlen_loop w a 0 = Some (length bs)" by (rule strlen_loop_cstr [OF assms(1)]) (use assms(2) in simp_all)
  from strlen64_loop_glue [OF this assms(3)] show ?thesis using assms(2,4) by (simp add: strlen64_def)
qed

lemma reverse64_glue:
  assumes s: "cstr w str bs" "length bs < 2147483647" "unat str + length bs < 4294967296" "unat rb + length bs \<le> 4294967296"
    and nn: "at64 B rb \<noteq> 0" "at64 B str \<noteq> 0" "rb \<noteq> 0" "str \<noteq> 0"
  shows "reverse64 (glue B m w) (at64 B rb) (at64 B str) = map_option (glue B m) (reverse w rb str)"
proof -
  let ?n = "length bs"
  have l: "strlen w str = Some (int ?n)" by (rule strlen_cstr [OF s(1) nn(4) s(2)])
  have "\<forall>i\<in>set [0..<?n]. unat rb + (?n - 1 - i) < 4294967296 \<and> unat str + i < 4294967296" using s by auto
  then have "\<forall>i\<in>set [0..<?n]. unat rb + (?n - Suc i) < 4294967296 \<and> unat str + i < 4294967296" by simp
  note c = copy_glue [where f = "\<lambda>i. ?n - Suc i", OF this]
  show ?thesis
    using l strlen64_glue [OF s(1-3) nn(2)] s(3,4) nn
    by (simp add: reverse64_def reverse_def Let_def c memcpy64_glue)
qed

lemma itoa64_loop_glue:
  "unat buf + i + length (digs n) \<le> 4294967296 \<Longrightarrow>
     itoa64_loop (glue B m w) (at64 B buf) i n = (let (j, w') = itoa_loop w buf i n in (j, glue B m w'))"
proof (induction w buf i n rule: itoa_loop.induct)
  case (1 w buf i n)
  have "0 < length (digs n)" by simp
  then have at: "at64 B buf + of_nat i = at64 B (buf + of_nat i)" using 1(2) by (intro at64_add) linarith
  show ?case
  proof (cases "n div 10 = 0")
    case True
    then show ?thesis by (subst itoa64_loop.simps, subst itoa_loop.simps) (simp add: at glue_st8)
  next
    case False
    then have d: "length (digs n) = Suc (length (digs (n div 10)))" by (subst digs.simps) simp
    show ?thesis
      using 1(1) [OF refl False] 1(2) False d
      by (subst itoa64_loop.simps, subst itoa_loop.simps) (simp add: at glue_st8)
  qed
qed

lemma itoh64_loop_glue:
  "unat buf + i + length (hexs n) \<le> 4294967296 \<Longrightarrow>
     itoh64_loop (glue B m w) (at64 B buf) i n = (let (j, w') = itoh_loop w buf i n in (j, glue B m w'))"
proof (induction w buf i n rule: itoh_loop.induct)
  case (1 w buf i n)
  note step = itoh_loop.simps [of w buf i n, folded hexdig_def] itoh64_loop.simps [of "glue B m w" "at64 B buf" i n, folded hexdig_def]
  have "0 < length (hexs n)" by simp
  then have at: "at64 B buf + of_nat i = at64 B (buf + of_nat i)" using 1(2) by (intro at64_add) linarith
  show ?case
  proof (cases "n div 16 = 0")
    case True
    then show ?thesis by (subst step(2), subst step(1)) (simp add: at glue_st8 Let_def)
  next
    case False
    then have d: "length (hexs n) = Suc (length (hexs (n div 16)))" by (subst hexs.simps) simp
    show ?thesis
      using 1(1) [folded hexdig_def, OF refl refl False] 1(2) False d
      by (subst step(2), subst step(1)) (simp add: at glue_st8 Let_def)
  qed
qed

text \<open>The second half of both printers: turn the buffer around and copy it.\<close>

lemma print_buffer64:
  assumes bs: "cstr w nb bs" "length bs < 12"
    and room: "unat nb + 12 \<le> 4294967296" "unat rb + 12 \<le> 4294967296" "unat s + 12 \<le> 4294967296"
    and nn: "at64 B nb \<noteq> 0" "at64 B rb \<noteq> 0" "at64 B s \<noteq> 0" "nb \<noteq> 0" "rb \<noteq> 0" "s \<noteq> 0"
  shows "(do { m' \<leftarrow> reverse64 (glue B m w) (at64 B rb) (at64 B nb); Some (snd (memcpy64 m' (at64 B s) (at64 B nb) 12)) })
    = map_option (glue B m) (do { w' \<leftarrow> reverse w rb nb; Some (snd (memcpy w' s nb 12)) })"
proof -
  have "reverse64 (glue B m w) (at64 B rb) (at64 B nb) = map_option (glue B m) (reverse w rb nb)"
    using bs room nn by (intro reverse64_glue [OF bs(1)]) simp_all
  then show ?thesis using room nn by (cases "reverse w rb nb") (simp_all add: memcpy64_glue)
qed

lemma itoa64_win:
  assumes n: "INT_MIN \<le> n" "n \<le> INT_MAX"
    and room: "unat nb + 12 \<le> 4294967296" "unat rb + 12 \<le> 4294967296" "unat s + 12 \<le> 4294967296"
    and nn: "at64 B nb \<noteq> 0" "at64 B rb \<noteq> 0" "at64 B s \<noteq> 0" "nb \<noteq> 0" "rb \<noteq> 0" "s \<noteq> 0"
  shows "itoa64 m (at64 B nb) (at64 B rb) n (at64 B s) = map_option (glue B m) (itoa (win B m) nb rb n s)"
proof (cases "if n < 0 then s32_ok (- n) else Some n")
  case None
  then show ?thesis by (simp add: itoa64_def itoa_def)
next
  case (Some k)
  then have k: "nat k < 10 ^ 10" "0 \<le> k" using n by (auto simp: s32_ok_def split: if_splits)
  let ?w = "fill (win B m) nb 12 0" and ?ds = "map (\<lambda>d. of_nat d + 48 :: u8) (digs (nat k))"
  let ?bs = "?ds @ (if n < 0 then [45] else [])"
  have len: "length (digs (nat k)) \<le> 10" by (rule length_digs [OF _ k(1)]) simp
  have m0: "snd (memset64 m (at64 B nb) 0 12) = glue B m ?w"
    using memset64_glue [where m = m and w = "win B m" and d = nb and cnt = 12 and ch = 0 and B = B] room by simp
  have l32: "itoa_loop ?w nb 0 (nat k) = (length (digs (nat k)), put ?w nb ?ds)"
    using itoa_loop_eq [of 0 "nat k" ?w nb] len by simp
  then have l64: "itoa64_loop (glue B m ?w) (at64 B nb) 0 (nat k) = (length (digs (nat k)), glue B m (put ?w nb ?ds))"
    using itoa64_loop_glue [of nb 0 "nat k" B m ?w] len room by simp
  have "st8 (put ?w nb ?ds) (nb + of_nat (length (digs (nat k)))) 45 = put ?w nb (?ds @ [45])"
    using put_snoc [of ?ds ?w nb 45] len by simp
  moreover have "at64 B nb + of_nat (length (digs (nat k))) = at64 B (nb + of_nat (length (digs (nat k))))"
    using len room by (intro at64_add) simp
  ultimately have sign: "(if n < 0 then (glue B m (put ?w nb ?ds))(at64 B nb + of_nat (length (digs (nat k))) := 45)
      else glue B m (put ?w nb ?ds)) = glue B m (put ?w nb ?bs)"
    "(if n < 0 then st8 (put ?w nb ?ds) (nb + of_nat (length (digs (nat k)))) 45 else put ?w nb ?ds) = put ?w nb ?bs"
    by (simp_all add: glue_st8)
  have bs: "cstr (put ?w nb ?bs) nb ?bs" "length ?bs < 12"
    using len dec_bytes_nz by (auto intro!: cstr_put_fill)
  show ?thesis
    using print_buffer64 [OF bs room nn, of m] Some m0 l32 l64 sign by (simp add: itoa64_def itoa_def Let_def)
qed

lemma itoh64_win:
  assumes room: "unat nb + 12 \<le> 4294967296" "unat rb + 12 \<le> 4294967296" "unat s + 12 \<le> 4294967296"
    and nn: "at64 B nb \<noteq> 0" "at64 B rb \<noteq> 0" "at64 B s \<noteq> 0" "nb \<noteq> 0" "rb \<noteq> 0" "s \<noteq> 0"
  shows "itoh64 m (at64 B nb) (at64 B rb) n (at64 B s) = map_option (glue B m) (itoh (win B m) nb rb n s)"
proof -
  let ?w = "fill (win B m) nb 12 0" and ?bs = "map hexdig (hexs (unat n))"
  have "unat n < 16 ^ 8" using unsigned_less [of n] by simp
  then have len: "length (hexs (unat n)) \<le> 8" by (rule length_hexs [rotated]) (rule zero_less_numeral)
  have m0: "snd (memset64 m (at64 B nb) 0 12) = glue B m ?w"
    using memset64_glue [where m = m and w = "win B m" and d = nb and cnt = 12 and ch = 0 and B = B] room by simp
  have l32: "itoh_loop ?w nb 0 (unat n) = (length (hexs (unat n)), put ?w nb ?bs)"
    using itoh_loop_eq [of 0 "unat n" ?w nb] len by simp
  then have l64: "itoh64_loop (glue B m ?w) (at64 B nb) 0 (unat n) = (length (hexs (unat n)), glue B m (put ?w nb ?bs))"
    using itoh64_loop_glue [of nb 0 "unat n" B m ?w] len room by simp
  have bs: "cstr (put ?w nb ?bs) nb ?bs" "length ?bs < 12"
    using len hex_bytes_nz by (auto intro!: cstr_put_fill)
  show ?thesis
    using print_buffer64 [OF bs room nn, of m] m0 l32 l64 by (simp add: itoh64_def itoh_def Let_def)
qed

subsection \<open>Blocks of the wide memory\<close>

definition in64 :: "addr64 \<Rightarrow> nat \<Rightarrow> addr64 \<Rightarrow> bool" where
  "in64 a n x \<longleftrightarrow> unat (x - a) < n"

definition cstr64 :: "mem64 \<Rightarrow> addr64 \<Rightarrow> u8 list \<Rightarrow> bool" where
  "cstr64 m a bs \<longleftrightarrow> (\<forall>i<length bs. m (a + of_nat i) = bs ! i) \<and> m (a + of_nat (length bs)) = 0 \<and> 0 \<notin> set bs"

lemma unat_of_nat64: "i < 18446744073709551616 \<Longrightarrow> unat (of_nat i :: u64) = i"
  by (simp add: unsigned_of_nat take_bit_nat_eq_self)

lemma in64_iff: "n \<le> 18446744073709551616 \<Longrightarrow> in64 a n x \<longleftrightarrow> (\<exists>i<n. x = a + of_nat i)"
proof
  assume "in64 a n x"
  then have "unat (x - a) < n" by (simp add: in64_def)
  moreover have "x = a + of_nat (unat (x - a))" by simp
  ultimately show "\<exists>i<n. x = a + of_nat i" by blast
next
  assume "n \<le> 18446744073709551616" and "\<exists>i<n. x = a + of_nat i"
  then show "in64 a n x" by (auto simp: in64_def unat_of_nat64)
qed

lemma in64_add [simp]: "i < n \<Longrightarrow> n \<le> 18446744073709551616 \<Longrightarrow> in64 a n (a + of_nat i)"
  by (auto simp: in64_iff)

lemma in64_Suc: "k < 18446744073709551616 \<Longrightarrow> in64 d (Suc k) x \<longleftrightarrow> in64 d k x \<or> x = d + of_nat k"
  unfolding in64_def
  by (metis add_diff_cancel_left' diff_add_cancel add.commute less_Suc_eq unat_of_nat64 word_unat_eq_iff)

lemma memset64_eq:
  assumes "1 \<le> cnt" "cnt \<le> INT_MAX"
  shows "memset64 m d ch cnt = (d, \<lambda>x. if in64 d (nat cnt) x then word_of_int ch else m x)"
proof -
  have "fold (\<lambda>n m. m(d + of_nat n := v)) (rev [0..<n]) m = (\<lambda>x. if in64 d n x then v else m x)"
    if "n \<le> 2147483647" for n v
    using that
  proof (induction n arbitrary: m)
    case 0
    then show ?case by (simp add: in64_def)
  next
    case (Suc n)
    then show ?case by (auto simp: fun_eq_iff in64_Suc)
  qed
  then show ?thesis using assms by (simp add: memset64_def)
qed

lemma memcpy64_eq:
  assumes nn: "d \<noteq> 0" "s \<noteq> 0" and n: "1 \<le> cnt" "cnt \<le> INT_MAX" and ap: "\<And>i. i < nat cnt \<Longrightarrow> \<not> in64 d (nat cnt) (s + of_nat i)"
  shows "memcpy64 m d s cnt = (d, \<lambda>x. if in64 d (nat cnt) x then m (s + (x - d)) else m x)"
proof -
  have "fold (\<lambda>i m. m(d + of_nat i := m (s + of_nat i))) [0..<k] m = (\<lambda>x. if in64 d k x then m (s + (x - d)) else m x)"
    if "k \<le> nat cnt" for k
    using that
  proof (induction k)
    case 0
    then show ?case by (simp add: in64_def)
  next
    case (Suc k)
    have "\<not> in64 d (nat cnt) (s + of_nat k)" using ap Suc(2) by simp
    then have o: "\<not> in64 d k (s + of_nat k)" using Suc(2) by (simp add: in64_def)
    have "k < 18446744073709551616" using Suc(2) n by simp
    then show ?case using Suc o by (auto simp: fun_eq_iff in64_Suc)
  qed
  then show ?thesis using nn n by (simp add: memcpy64_def)
qed

lemma strlen64_cstr:
  assumes s: "cstr64 m a bs" "a \<noteq> 0" "length bs < 2147483647"
  shows "strlen64 m a = Some (int (length bs))"
proof -
  have "strlen64_loop m a n = Some (length bs)" if "n \<le> length bs" for n
    using that
  proof (induction "length bs - n" arbitrary: n)
    case 0
    then show ?case using s by (subst strlen64_loop.simps) (simp add: cstr64_def)
  next
    case (Suc d)
    then have n: "n < length bs" by simp
    then have "m (a + of_nat n) \<noteq> 0" using s(1) by (metis cstr64_def nth_mem)
    then show ?case using Suc.hyps(1) [of "Suc n"] Suc.hyps(2) n s(3) by (subst strlen64_loop.simps) simp
  qed
  then show ?thesis using s(2,3) by (simp add: strlen64_def)
qed

lemma cstr64_cong: "cstr64 m a bs \<Longrightarrow> (\<And>i. i \<le> length bs \<Longrightarrow> m' (a + of_nat i) = m (a + of_nat i)) \<Longrightarrow> cstr64 m' a bs"
  by (simp add: cstr64_def)

lemma cstr64_glue: "cstr w a bs \<Longrightarrow> unat a + length bs < 4294967296 \<Longrightarrow> cstr64 (glue B m w) (at64 B a) bs"
  by (simp add: cstr64_def cstr_iff at64_add)

subsection \<open>The screen as a page\<close>

text \<open>
  Typing a character on a page: what its cells hold, the cell of the cursor and the number of line feeds.  A
  line feed goes to the row after as many rows as there were line feeds, wherever the cursor is.
\<close>

type_synonym page = "(nat \<Rightarrow> u8 \<times> u8) \<times> nat \<times> nat"

fun type_char :: "page \<Rightarrow> u8 \<Rightarrow> page" where
  "type_char (f, pos, line) c =
     (if c = 10 then (f, 80 * (line + 1), line + 1) else (f(pos := (c, 0x0F)), pos + 1, line))"

fun page_room :: "nat \<Rightarrow> page \<Rightarrow> u8 list \<Rightarrow> bool" where
  "page_room N pg [] \<longleftrightarrow> True"
| "page_room N (f, pos, line) (c # cs) \<longleftrightarrow> (if c = 10 then line < 26843544 else pos < N)
     \<and> page_room N (type_char (f, pos, line) c) cs"

fun scr64 :: "nat \<Rightarrow> kernel64 \<Rightarrow> page \<Rightarrow> bool" where
  "scr64 N s (f, pos, line) \<longleftrightarrow> vga_text_cp s = vga_text_bp s + of_nat (2 * pos) \<and> vga_cl s = int line
     \<and> (\<forall>k<N. km64 s (vga_text_bp s + of_nat (2 * k)) = fst (f k) \<and> km64 s (vga_text_bp s + of_nat (2 * k + 1)) = snd (f k))"

lemma page_room_append: "page_room N pg (xs @ ys) \<longleftrightarrow> page_room N pg xs \<and> page_room N (foldl type_char pg xs) ys"
  by (induction N pg xs rule: page_room.induct) auto

text \<open>Writing one cell.\<close>

lemma u64_offset_eq: "i < 18446744073709551616 \<Longrightarrow> j < 18446744073709551616 \<Longrightarrow> (b :: u64) + of_nat i = b + of_nat j \<longleftrightarrow> i = j"
  using unat_of_nat64 [of i] unat_of_nat64 [of j] by (metis add_left_cancel)

lemma put_cell:
  assumes r: "scr64 N s (f, pos, line)" and pos: "pos < N" "2 * N \<le> 4294967296"
  shows "scr64 N (s\<lparr>km64 := (km64 s)(vga_text_cp s := c, vga_text_cp s + 1 := a), vga_text_cp := vga_text_cp s + 2\<rparr>)
    (f(pos := (c, a)), pos + 1, line)"
proof -
  let ?b = "vga_text_bp s" and ?m = "(km64 s)(vga_text_cp s := c, vga_text_cp s + 1 := a)"
  have cp: "vga_text_cp s = ?b + of_nat (2 * pos)" "vga_text_cp s + 1 = ?b + of_nat (2 * pos + 1)"
    "vga_text_cp s + 2 = ?b + of_nat (2 * (pos + 1))"
    using r by simp_all
  have "?m (?b + of_nat (2 * k)) = fst ((f(pos := (c, a))) k)" "?m (?b + of_nat (2 * k + 1)) = snd ((f(pos := (c, a))) k)"
    if k: "k < N" for k
  proof -
    have n: "2 * k \<noteq> 2 * pos + 1" "2 * k + 1 \<noteq> 2 * pos" by presburger+
    have e: "?b + of_nat i = ?b + of_nat j \<longleftrightarrow> i = j" if "i \<le> 2 * N" "j \<le> 2 * N" for i j
      using that pos(2) by (intro u64_offset_eq) simp_all
    have "?b + of_nat (2 * k) = ?b + of_nat (2 * pos) \<longleftrightarrow> k = pos" "?b + of_nat (2 * k + 1) \<noteq> ?b + of_nat (2 * pos)"
      by (subst e; use k pos(1) n in auto)+
    moreover have "?b + of_nat (2 * k) \<noteq> ?b + of_nat (2 * pos + 1)" "?b + of_nat (2 * k + 1) = ?b + of_nat (2 * pos + 1) \<longleftrightarrow> k = pos"
      by (subst e; use k pos(1) n in auto)+
    ultimately have o: "?b + of_nat (2 * k) = vga_text_cp s \<longleftrightarrow> k = pos" "?b + of_nat (2 * k + 1) \<noteq> vga_text_cp s"
      "?b + of_nat (2 * k) \<noteq> vga_text_cp s + 1" "?b + of_nat (2 * k + 1) = vga_text_cp s + 1 \<longleftrightarrow> k = pos"
      unfolding cp(1,2) [symmetric] by blast+
    show "?m (?b + of_nat (2 * k)) = fst ((f(pos := (c, a))) k)" "?m (?b + of_nat (2 * k + 1)) = snd ((f(pos := (c, a))) k)"
      using o r k by (simp_all del: of_nat_mult of_nat_add)
  qed
  moreover have "vga_cl s = int line" using r by simp
  ultimately show ?thesis using cp by (simp del: of_nat_mult of_nat_add fun_upd_apply)
qed

lemma put_line:
  assumes "scr64 N s (f, pos, line)"
  shows "scr64 N (s\<lparr>vga_cl := int line + 1, vga_text_cp := vga_text_bp s + 2 * word_of_int (80 * (int line + 1))\<rparr>) (f, 80 * (line + 1), line + 1)"
proof -
  have "(2 * word_of_int (80 * (int line + 1)) :: u64) = of_nat (2 * (80 * (line + 1)))" by (simp add: algebra_simps)
  then show ?thesis using assms by (simp del: of_nat_mult of_nat_add)
qed

lemma cstr64_tail: "cstr64 m a (b # bs) \<Longrightarrow> cstr64 m (a + 1) bs \<and> m a = b \<and> b \<noteq> 0"
  unfolding cstr64_def by (auto simp: add.assoc dest: spec [of _ 0] spec [of _ "Suc _"])

lemma vga64_refines:
  assumes N: "2 * N \<le> 4294967296" and r: "scr64 N s pg" and s: "cstr64 (km64 s) c bs"
    and ap: "\<forall>i\<le>length bs. \<not> in64 (vga_text_bp s) (2 * N) (c + of_nat i)" and room: "page_room N pg bs"
  shows "\<exists>s'. vga64_loop c 0x0F s = Some s' \<and> scr64 N s' (foldl type_char pg bs) \<and> vga_text_bp s' = vga_text_bp s
    \<and> (\<forall>x. \<not> in64 (vga_text_bp s) (2 * N) x \<longrightarrow> km64 s' x = km64 s x)"
  using r s ap room
proof (induction bs arbitrary: c s pg)
  case Nil
  then show ?case by (subst vga64_loop.simps) (simp add: cstr64_def)
next
  case (Cons ch cs)
  obtain f pos line where pg: "pg = (f, pos, line)" by (cases pg) auto
  have c: "cstr64 (km64 s) (c + 1) cs" "km64 s c = ch" "ch \<noteq> 0" using cstr64_tail [OF Cons(3)] by simp_all
  have ap: "\<forall>i\<le>length cs. \<not> in64 (vga_text_bp s) (2 * N) (c + 1 + of_nat i)"
  proof (intro allI impI)
    fix i assume "i \<le> length cs"
    then show "\<not> in64 (vga_text_bp s) (2 * N) (c + 1 + of_nat i)" using Cons(4) [rule_format, of "Suc i"] by (simp add: add.assoc)
  qed
  have r: "scr64 N s (f, pos, line)" using Cons(2) pg by simp
  define s1 where "s1 = (if ch = 10 then s\<lparr>vga_cl := int line + 1, vga_text_cp := vga_text_bp s + 2 * word_of_int (80 * (int line + 1))\<rparr>
    else s\<lparr>km64 := (km64 s)(vga_text_cp s := ch, vga_text_cp s + 1 := 0x0F), vga_text_cp := vga_text_cp s + 2\<rparr>)"
  have pos: "ch \<noteq> 10 \<Longrightarrow> pos < N" "ch = 10 \<Longrightarrow> line < 26843544" and rest: "page_room N (type_char pg ch) cs"
    using Cons(5) by (auto simp: pg split: if_splits)
  have "80 * int line \<le> 2147483567" "line \<le> 2147483646" if "ch = 10" using pos(2) [OF that] by simp_all
  then have step: "vga64_loop c 0x0F s = vga64_loop (c + 1) 0x0F s1"
    using c(2,3) r pos by (subst vga64_loop.simps) (simp add: s1_def s32_ok_def Let_def)
  have r1: "scr64 N s1 (type_char pg ch)"
    using put_line [OF r] put_cell [OF r _ N, of ch "0x0F"] pos(1) by (simp add: s1_def pg del: scr64.simps)
  have cell: "in64 (vga_text_bp s) (2 * N) (vga_text_cp s)" "in64 (vga_text_bp s) (2 * N) (vga_text_cp s + 1)" if "pos < N"
  proof -
    have cp: "vga_text_cp s = vga_text_bp s + of_nat (2 * pos)" "vga_text_cp s + 1 = vga_text_bp s + of_nat (2 * pos + 1)"
      using r by simp_all
    show "in64 (vga_text_bp s) (2 * N) (vga_text_cp s)" unfolding cp(1) by (rule in64_add) (use that N in simp_all)
    show "in64 (vga_text_bp s) (2 * N) (vga_text_cp s + 1)" unfolding cp(2) by (rule in64_add) (use that N in simp_all)
  qed
  have bp: "vga_text_bp s1 = vga_text_bp s" by (simp add: s1_def)
  have fr: "\<forall>x. \<not> in64 (vga_text_bp s) (2 * N) x \<longrightarrow> km64 s1 x = km64 s x" using cell pos(1) by (auto simp: s1_def)
  have c1: "cstr64 (km64 s1) (c + 1) cs" by (rule cstr64_cong [OF c(1)]) (use fr ap in blast)
  show ?case using Cons.IH [OF r1 c1 _ rest] ap fr bp unfolding step by fastforce
qed

lemma vga_text_write64_shows:
  assumes "2 * N \<le> 4294967296" "scr64 N s pg" "cstr64 (km64 s) c bs"
    and "\<forall>i\<le>length bs. \<not> in64 (vga_text_bp s) (2 * N) (c + of_nat i)" "page_room N pg bs"
  obtains s' where "vga_text_write64 c s = Some (0, s')" "scr64 N s' (foldl type_char pg bs)" "vga_text_bp s' = vga_text_bp s"
    "\<forall>x. \<not> in64 (vga_text_bp s) (2 * N) x \<longrightarrow> km64 s' x = km64 s x"
  using vga64_refines [OF assms] by (auto simp: vga_text_write64_def vga_text_write64_raw_def)

text \<open>
  A text that wraps around the end of its row is overwritten by what follows its line feed: the cursor goes to the
  second row, where the text already is.
\<close>

lemma type_text: "10 \<notin> set bs \<Longrightarrow>
    foldl type_char (f, pos, line) bs = ((\<lambda>k. if pos \<le> k \<and> k < pos + length bs then (bs ! (k - pos), 0x0F) else f k), pos + length bs, line)"
proof (induction bs arbitrary: f pos)
  case (Cons b bs)
  have "((f(pos := (b, 0x0F))) k = (if k = pos then (b, 0x0F) else f k))" for k by simp
  then show ?case using Cons by (auto simp: fun_eq_iff nth_Cons' Suc_le_eq)
qed (auto simp: fun_eq_iff)

lemma text_room: "10 \<notin> set bs \<Longrightarrow> pos + length bs \<le> N \<Longrightarrow> page_room N (f, pos, line) bs"
  by (induction bs arbitrary: f pos) auto

lemma vga64_overwrites_wrapped:
  assumes N: "2 * N \<le> 4294967296" and r: "scr64 N s (f, 0, 0)" and s: "cstr64 (km64 s) c (bs @ [10, ch])"
    and ap: "\<forall>i\<le>length bs + 2. \<not> in64 (vga_text_bp s) (2 * N) (c + of_nat i)"
    and bs: "82 \<le> length bs" "length bs \<le> N" "10 \<notin> set bs" "ch \<noteq> 10"
  shows "\<exists>s'. vga_text_write64 c s = Some (0, s') \<and> km64 s' (vga_text_bp s + 160) = ch \<and> km64 s' (vga_text_bp s + 162) = bs ! 81
    \<and> vga_text_cp s' = vga_text_bp s + 162"
proof -
  have room: "page_room N (f, 0, 0) (bs @ [10, ch])"
    using text_room [of bs 0 N f 0] bs by (simp add: page_room_append type_text)
  have ap': "\<forall>i\<le>length (bs @ [10, ch]). \<not> in64 (vga_text_bp s) (2 * N) (c + of_nat i)" using ap by simp
  obtain s' where s': "vga_text_write64 c s = Some (0, s')" "scr64 N s' (foldl type_char (f, 0, 0) (bs @ [10, ch]))"
    "vga_text_bp s' = vga_text_bp s"
    by (rule vga_text_write64_shows [OF N r s ap' room])
  then have cells: "km64 s' (vga_text_bp s + of_nat (2 * k)) = (if k = 80 then ch else bs ! k)" if "k < length bs" for k
    using bs that by (simp add: type_text del: of_nat_mult)
  show ?thesis using s' cells [of 80] cells [of 81] bs by (simp add: type_text)
qed

subsection \<open>Formats\<close>

definition locals64_ok :: "locals64 \<Rightarrow> bool" where
  "locals64_ok l \<longleftrightarrow> (\<exists>B b nb rb. l64_buf l = at64 B b \<and> l64_nb l = at64 B nb \<and> l64_rb l = at64 B rb
     \<and> unat b + 4096 \<le> 4294967296 \<and> unat nb + 12 \<le> 4294967296 \<and> unat rb + 12 \<le> 4294967296
     \<and> b \<noteq> 0 \<and> nb \<noteq> 0 \<and> rb \<noteq> 0 \<and> l64_buf l \<noteq> 0 \<and> l64_nb l \<noteq> 0 \<and> l64_rb l \<noteq> 0
     \<and> apart rb 12 nb 12 \<and> apart b 12 nb 12)"

definition local64 :: "locals64 \<Rightarrow> addr64 \<Rightarrow> bool" where
  "local64 l x \<longleftrightarrow> in64 (l64_buf l) 4096 x \<or> in64 (l64_nb l) 12 x \<or> in64 (l64_rb l) 12 x"

lemma inside_in64: "inside a n y \<Longrightarrow> unat a + n \<le> 4294967296 \<Longrightarrow> in64 (at64 B a) n (at64 B y)"
  by (auto simp: inside_iff in64_iff at64_add [symmetric])

lemma glue_frame:
  assumes "\<And>a. at64 B a = x \<Longrightarrow> w' a = m x"
  shows "glue B m w' x = m x"
  using assms at64_iff [of x B "ucast (x - B)"] by (auto simp: glue_def)

lemma number64:
  assumes l: "locals64_ok l"
    and w: "\<And>B b nb rb. at64 B nb = l64_nb l \<Longrightarrow> at64 B rb = l64_rb l \<Longrightarrow> at64 B b = l64_buf l \<Longrightarrow>
      unat nb + 12 \<le> 4294967296 \<Longrightarrow> unat rb + 12 \<le> 4294967296 \<Longrightarrow> unat b + 12 \<le> 4294967296 \<Longrightarrow>
      nb \<noteq> 0 \<Longrightarrow> rb \<noteq> 0 \<Longrightarrow> b \<noteq> 0 \<Longrightarrow> apart rb 12 nb 12 \<Longrightarrow> apart b 12 nb 12 \<Longrightarrow>
      \<exists>w'. conv m = Some (glue B m w') \<and> cstr w' b bs
        \<and> (\<forall>x. \<not> inside rb 12 x \<longrightarrow> \<not> inside nb 12 x \<longrightarrow> \<not> inside b 12 x \<longrightarrow> w' x = win B m x)"
    and len: "length bs < 12"
  shows "\<exists>m'. conv m = Some m' \<and> cstr64 m' (l64_buf l) bs \<and> (\<forall>x. \<not> local64 l x \<longrightarrow> m' x = m x)"
proof -
  obtain B b nb rb where B: "at64 B nb = l64_nb l" "at64 B rb = l64_rb l" "at64 B b = l64_buf l"
    and room: "unat nb + 12 \<le> 4294967296" "unat rb + 12 \<le> 4294967296" "unat b + 4096 \<le> 4294967296"
    and ok: "nb \<noteq> 0" "rb \<noteq> 0" "b \<noteq> 0" "apart rb 12 nb 12" "apart b 12 nb 12"
    using l by (auto simp: locals64_ok_def)
  have "unat b + 12 \<le> 4294967296" using room by simp
  from w [OF B room(1,2) this ok] obtain w' where w': "conv m = Some (glue B m w')" "cstr w' b bs"
    "\<And>x. \<not> inside rb 12 x \<Longrightarrow> \<not> inside nb 12 x \<Longrightarrow> \<not> inside b 12 x \<Longrightarrow> w' x = win B m x"
    by blast
  have "glue B m w' x = m x" if x: "\<not> local64 l x" for x
  proof (rule glue_frame)
    fix a assume a: "at64 B a = x"
    have "\<not> inside b 4096 a" "\<not> inside nb 12 a" "\<not> inside rb 12 a"
      using x inside_in64 [of _ _ a B] room unfolding local64_def B [symmetric] a [symmetric] by blast+
    then have "w' a = win B m a" using w'(3) by (simp add: inside_def)
    then show "w' a = m x" by (simp add: win_def a)
  qed
  moreover have "cstr64 (glue B m w') (l64_buf l) bs"
    using cstr64_glue [OF w'(2), of B m] room(3) len B(3) by simp
  ultimately show ?thesis using w'(1) by blast
qed

lemma length_dec_string: "INT_MIN < n \<Longrightarrow> n \<le> INT_MAX \<Longrightarrow> length (dec_string n) < 12"
  using itoa_correct [of n "0x100" "0x200" "0x300" "\<lambda>_. 0"] by (simp add: apart_def) blast

lemma length_hex_string: "length (hex_string n) < 12"
  using itoh_correct [of "0x100" "0x200" "0x300" "\<lambda>_. 0" n] by (simp add: apart_def) blast

lemma itoa64_text:
  assumes l: "locals64_ok l" and n: "INT_MIN < n" "n \<le> INT_MAX"
  shows "\<exists>m'. itoa64 m (l64_nb l) (l64_rb l) n (l64_buf l) = Some m' \<and> cstr64 m' (l64_buf l) (dec_string n)
    \<and> (\<forall>x. \<not> local64 l x \<longrightarrow> m' x = m x)"
proof (rule number64 [OF l, where conv = "\<lambda>m. itoa64 m (l64_nb l) (l64_rb l) n (l64_buf l)"])
  have nz: "l64_nb l \<noteq> 0" "l64_rb l \<noteq> 0" "l64_buf l \<noteq> 0" using l by (auto simp: locals64_ok_def)
  fix B b nb rb
  assume B: "at64 B nb = l64_nb l" "at64 B rb = l64_rb l" "at64 B b = l64_buf l"
    and room: "unat nb + 12 \<le> 4294967296" "unat rb + 12 \<le> 4294967296" "unat b + 12 \<le> 4294967296"
    and nn: "nb \<noteq> 0" "rb \<noteq> 0" "b \<noteq> 0" and ap: "apart rb 12 nb 12" "apart b 12 nb 12"
  show "\<exists>w'. itoa64 m (l64_nb l) (l64_rb l) n (l64_buf l) = Some (glue B m w') \<and> cstr w' b (dec_string n)
      \<and> (\<forall>x. \<not> inside rb 12 x \<longrightarrow> \<not> inside nb 12 x \<longrightarrow> \<not> inside b 12 x \<longrightarrow> w' x = win B m x)"
    using itoa64_win [OF _ n(2) room, of B m] itoa_correct [OF n nn ap, of "win B m"] nz n(1) nn
    unfolding B [symmetric] by auto
qed (rule length_dec_string [OF n])

lemma itoh64_text:
  assumes l: "locals64_ok l"
  shows "\<exists>m'. itoh64 m (l64_nb l) (l64_rb l) n (l64_buf l) = Some m' \<and> cstr64 m' (l64_buf l) (hex_string n)
    \<and> (\<forall>x. \<not> local64 l x \<longrightarrow> m' x = m x)"
proof (rule number64 [OF l, where conv = "\<lambda>m. itoh64 m (l64_nb l) (l64_rb l) n (l64_buf l)"])
  have nz: "l64_nb l \<noteq> 0" "l64_rb l \<noteq> 0" "l64_buf l \<noteq> 0" using l by (auto simp: locals64_ok_def)
  fix B b nb rb
  assume B: "at64 B nb = l64_nb l" "at64 B rb = l64_rb l" "at64 B b = l64_buf l"
    and room: "unat nb + 12 \<le> 4294967296" "unat rb + 12 \<le> 4294967296" "unat b + 12 \<le> 4294967296"
    and nn: "nb \<noteq> 0" "rb \<noteq> 0" "b \<noteq> 0" and ap: "apart rb 12 nb 12" "apart b 12 nb 12"
  show "\<exists>w'. itoh64 m (l64_nb l) (l64_rb l) n (l64_buf l) = Some (glue B m w') \<and> cstr w' b (hex_string n)
      \<and> (\<forall>x. \<not> inside rb 12 x \<longrightarrow> \<not> inside nb 12 x \<longrightarrow> \<not> inside b 12 x \<longrightarrow> w' x = win B m x)"
    using itoh64_win [OF room, of B m n] itoh_correct [OF nn ap, of "win B m" n] nz nn
    unfolding B [symmetric] by auto
qed (rule length_hex_string)

text \<open>The text of a format, with arguments of eight bytes.\<close>

fun render64 :: "(addr64 \<Rightarrow> u8 list) \<Rightarrow> piece list \<Rightarrow> u64 list \<Rightarrow> u8 list" where
  "render64 str (Lit c # ps) args = c # render64 str ps args"
| "render64 str (Dec # ps) (a # args) = dec_string (to_s32 (ucast a)) @ render64 str ps args"
| "render64 str (Hex # ps) (a # args) = hex_string (ucast a) @ render64 str ps args"
| "render64 str (Str # ps) (a # args) = str a @ render64 str ps args"
| "render64 str ps args = []"

text \<open>What the printing may write to: its arrays and \<open>N\<close> cells from \<open>bp\<close> on.\<close>

definition busy64 :: "locals64 \<Rightarrow> addr64 \<Rightarrow> nat \<Rightarrow> addr64 \<Rightarrow> bool" where
  "busy64 l bp N x \<longleftrightarrow> local64 l x \<or> in64 bp (2 * N) x"

fun pieces64_ok :: "(addr64 \<Rightarrow> bool) \<Rightarrow> mem64 \<Rightarrow> (addr64 \<Rightarrow> u8 list) \<Rightarrow> piece list \<Rightarrow> u64 list \<Rightarrow> bool" where
  "pieces64_ok W m str [] args \<longleftrightarrow> True"
| "pieces64_ok W m str (Lit c # ps) args \<longleftrightarrow> printable64 c \<and> c \<noteq> 37 \<and> pieces64_ok W m str ps args"
| "pieces64_ok W m str (Dec # ps) (a # args) \<longleftrightarrow> to_s32 (ucast a) \<noteq> INT_MIN \<and> pieces64_ok W m str ps args"
| "pieces64_ok W m str (Hex # ps) (a # args) \<longleftrightarrow> pieces64_ok W m str ps args"
| "pieces64_ok W m str (Str # ps) (a # args) \<longleftrightarrow> a \<noteq> 0 \<and> cstr64 m a (str a) \<and> str a \<noteq> [] \<and> length (str a) < 4096
     \<and> (\<forall>i\<le>length (str a). \<not> W (a + of_nat i)) \<and> pieces64_ok W m str ps args"
| "pieces64_ok W m str ps args \<longleftrightarrow> False"

lemma pieces64_ok_frame:
  "pieces64_ok W m str ps args \<Longrightarrow> (\<And>x. \<not> W x \<Longrightarrow> m' x = m x) \<Longrightarrow> pieces64_ok W m' str ps args"
  by (induction W m str ps args rule: pieces64_ok.induct) (auto intro: cstr64_cong)

text \<open>The array at the beginning of an iteration, and a string copied into it.\<close>

definition fresh64 :: "locals64 \<Rightarrow> u8 \<Rightarrow> mem64 \<Rightarrow> mem64" where
  "fresh64 l c m = (\<lambda>x. if x = l64_buf l then c else if in64 (l64_buf l) 4096 x then 0 else m x)"

lemma fresh64_eq: "(snd (memset64 m (l64_buf l) 0 4096))(l64_buf l := c) = fresh64 l c m"
  by (auto simp: fresh64_def memset64_eq)

lemma fresh64_frame: "\<not> local64 l x \<Longrightarrow> fresh64 l c m x = m x"
  by (auto simp: fresh64_def local64_def in64_def)

lemma fresh64_char: "c \<noteq> 0 \<Longrightarrow> cstr64 (fresh64 l c m) (l64_buf l) [c]"
  by (auto simp: cstr64_def fresh64_def in64_def)

lemma str64_text:
  assumes a: "a \<noteq> 0" "l64_buf l \<noteq> 0" "cstr64 m a bs" "bs \<noteq> []" "length bs < 4096" "\<And>i. i \<le> length bs \<Longrightarrow> \<not> local64 l (a + of_nat i)"
  shows "\<exists>m'. run_pre64 Va_pointer l Pre_str (a # args) (fresh64 l c m) = Some (args, m') \<and> cstr64 m' (l64_buf l) bs
    \<and> (\<forall>x. \<not> local64 l x \<longrightarrow> m' x = m x)"
proof -
  let ?m = "fresh64 l c m" and ?b = "l64_buf l" and ?n = "length bs"
  let ?m' = "\<lambda>x. if in64 ?b ?n x then ?m (a + (x - ?b)) else ?m x"
  have same: "?m (a + of_nat i) = m (a + of_nat i)" if "i \<le> ?n" for i using a(6) [OF that] by (rule fresh64_frame)
  have cs: "cstr64 ?m a bs" by (rule cstr64_cong [OF a(3) same])
  have len: "strlen64 ?m a = Some (int ?n)" by (rule strlen64_cstr [OF cs a(1)]) (use a(5) in simp)
  have "\<not> in64 ?b ?n (a + of_nat i)" if "i < ?n" for i using a(6) [of i] a(5) that by (auto simp: local64_def in64_def)
  then have cp: "memcpy64 ?m ?b a (int ?n) = (?b, ?m')"
    using memcpy64_eq [OF a(2,1), of "int ?n" ?m] a(4,5) by (simp add: Suc_le_eq)
  have "cstr64 ?m' ?b bs"
    unfolding cstr64_def
  proof (intro conjI allI impI)
    show "?m' (?b + of_nat i) = bs ! i" if "i < ?n" for i
      using that a(5) cs by (simp add: cstr64_def)
    have "?b + of_nat ?n \<noteq> ?b" using u64_offset_eq [of ?n 0 ?b] a(4,5) by simp
    moreover have "\<not> in64 ?b ?n (?b + of_nat ?n)" "in64 ?b 4096 (?b + of_nat ?n)" using a(5) by (simp_all add: in64_def unat_of_nat64)
    ultimately show "?m' (?b + of_nat ?n) = 0" by (simp add: fresh64_def)
    show "0 \<notin> set bs" using a(3) by (simp add: cstr64_def)
  qed
  moreover have "?m' x = m x" if "\<not> local64 l x" for x
  proof -
    have "\<not> in64 ?b ?n x" using that a(5) by (auto simp: local64_def in64_def)
    then show ?thesis using fresh64_frame [OF that] by simp
  qed
  ultimately show ?thesis using len cp a(5) by (intro exI [of _ ?m']) simp
qed

lemma scr64_local:
  assumes N: "2 * N \<le> 4294967296" and r: "scr64 N s pg" and off: "\<And>x. in64 (vga_text_bp s) (2 * N) x \<Longrightarrow> \<not> local64 l x"
    and fr: "\<forall>x. \<not> local64 l x \<longrightarrow> m' x = km64 s x"
  shows "scr64 N (s\<lparr>km64 := m'\<rparr>) pg"
proof -
  let ?bp = "vga_text_bp s"
  obtain f pos line where pg: "pg = (f, pos, line)" by (cases pg) auto
  have cells: "m' (?bp + of_nat j) = km64 s (?bp + of_nat j)" if "j < 2 * N" for j
    using fr off in64_add [OF that, of ?bp] N by simp
  have "m' (?bp + of_nat (2 * k)) = km64 s (?bp + of_nat (2 * k))" "m' (?bp + of_nat (2 * k + 1)) = km64 s (?bp + of_nat (2 * k + 1))"
    if "k < N" for k by (rule cells, use that in simp)+
  then show ?thesis using r by (simp add: pg del: of_nat_mult of_nat_add)
qed

text \<open>One iteration that prints: the array holds the text \<open>bs\<close>, which goes to the screen.\<close>

lemma print_step64:
  assumes N: "2 * N \<le> 4294967296" and r: "scr64 N s pg" and buf: "l64_buf l \<noteq> 0"
    and off: "\<And>x. in64 (vga_text_bp s) (2 * N) x \<Longrightarrow> \<not> local64 l x"
    and i: "i < 2147483647" and c: "km64 s (fmt + of_nat i) = c" "c \<noteq> 0" "c < 128" "printable64 c" "conv \<or> c \<noteq> 37"
    and run: "run_pre64 abi l (if conv then select_conv64 c else Pre_comm) args (fresh64 l c (km64 s)) = Some (args', m')"
    and bs: "cstr64 m' (l64_buf l) bs" "length bs < 4096" and fr: "\<forall>x. \<not> local64 l x \<longrightarrow> m' x = km64 s x"
    and room: "page_room N pg bs"
  obtains s' where "vkprintf64_loop abi l fmt i conv args s = vkprintf64_loop abi l fmt (i + 1) False args' s'"
    "scr64 N s' (foldl type_char pg bs)" "vga_text_bp s' = vga_text_bp s"
    "\<forall>x. \<not> busy64 l (vga_text_bp s) N x \<longrightarrow> km64 s' x = km64 s x"
proof -
  let ?s = "s\<lparr>km64 := m'\<rparr>" and ?bp = "vga_text_bp s"
  have r': "scr64 N ?s pg" by (rule scr64_local [OF N r off fr])
  have "\<not> in64 ?bp (2 * N) (l64_buf l + of_nat i)" if "i \<le> length bs" for i
    using off [of "l64_buf l + of_nat i"] that bs(2) by (auto simp: local64_def)
  then have ap: "\<forall>i\<le>length bs. \<not> in64 (vga_text_bp ?s) (2 * N) (l64_buf l + of_nat i)" by simp
  have b': "cstr64 (km64 ?s) (l64_buf l) bs" using bs(1) by simp
  obtain s' where s': "vga_text_write64 (l64_buf l) ?s = Some (0, s')" "scr64 N s' (foldl type_char pg bs)"
    "vga_text_bp s' = vga_text_bp ?s" "\<forall>x. \<not> in64 (vga_text_bp ?s) (2 * N) x \<longrightarrow> km64 s' x = km64 ?s x"
    by (rule vga_text_write64_shows [OF N r' b' ap room])
  have "strlen64 m' (l64_buf l) = Some (int (length bs))" by (rule strlen64_cstr [OF bs(1) buf]) (use bs(2) in simp)
  then have "vkprintf64_loop abi l fmt i conv args s = vkprintf64_loop abi l fmt (i + 1) False args' s'"
    using i c run s'(1) bs(2) by (subst vkprintf64_loop.simps) (auto simp: Let_def fresh64_eq)
  moreover have "\<forall>x. \<not> busy64 l ?bp N x \<longrightarrow> km64 s' x = km64 s x" using s'(4) fr by (simp add: busy64_def)
  ultimately show ?thesis using that s'(2,3) by simp
qed

text \<open>A conversion takes two iterations.\<close>

lemma conv_step64:
  assumes N: "2 * N \<le> 4294967296" and r: "scr64 N s pg" and buf: "l64_buf l \<noteq> 0"
    and off: "\<And>x. in64 (vga_text_bp s) (2 * N) x \<Longrightarrow> \<not> local64 l x"
    and i: "i + 1 < 2147483647" and c: "km64 s (fmt + of_nat i) = 37" "km64 s (fmt + of_nat (i + 1)) = d" "d \<in> {100, 120, 115}"
    and out: "\<not> local64 l (fmt + of_nat (i + 1))"
    and run: "run_pre64 abi l (select_conv64 d) args (fresh64 l d (fresh64 l 37 (km64 s))) = Some (args', m')"
    and bs: "cstr64 m' (l64_buf l) bs" "length bs < 4096" and fr: "\<forall>x. \<not> local64 l x \<longrightarrow> m' x = km64 s x"
    and room: "page_room N pg bs"
  obtains s' where "vkprintf64_loop abi l fmt i False args s = vkprintf64_loop abi l fmt (i + 2) False args' s'"
    "scr64 N s' (foldl type_char pg bs)" "vga_text_bp s' = vga_text_bp s"
    "\<forall>x. \<not> busy64 l (vga_text_bp s) N x \<longrightarrow> km64 s' x = km64 s x"
proof -
  let ?s = "s\<lparr>km64 := fresh64 l 37 (km64 s)\<rparr>"
  have r1: "scr64 N ?s pg" by (rule scr64_local [OF N r off]) (simp_all add: fresh64_frame)
  have off1: "\<And>x. in64 (vga_text_bp ?s) (2 * N) x \<Longrightarrow> \<not> local64 l x" using off by simp
  have d: "km64 ?s (fmt + of_nat (i + 1)) = d" using c(2) fresh64_frame [OF out] by simp
  have p: "d \<noteq> 0" "d < 128" "printable64 d" using c(3) by (auto simp: printable64_def)
  have run1: "run_pre64 abi l (if True then select_conv64 d else Pre_comm) args (fresh64 l d (km64 ?s)) = Some (args', m')"
    using run by simp
  have fr1: "\<forall>x. \<not> local64 l x \<longrightarrow> m' x = km64 ?s x" using fr by (simp add: fresh64_frame)
  obtain s' where s': "vkprintf64_loop abi l fmt (i + 1) True args ?s = vkprintf64_loop abi l fmt (i + 1 + 1) False args' s'"
    "scr64 N s' (foldl type_char pg bs)" "vga_text_bp s' = vga_text_bp ?s"
    "\<forall>x. \<not> busy64 l (vga_text_bp ?s) N x \<longrightarrow> km64 s' x = km64 ?s x"
    by (rule print_step64 [OF N r1 buf off1 i d p disjI1 [OF TrueI] run1 bs fr1 room])
  have "vkprintf64_loop abi l fmt i False args s = vkprintf64_loop abi l fmt (i + 1) True args ?s"
    using i c(1) by (subst vkprintf64_loop.simps) (simp add: Let_def fresh64_eq printable64_def)
  moreover have "\<forall>x. \<not> busy64 l (vga_text_bp s) N x \<longrightarrow> km64 s' x = km64 s x" using s'(4) by (simp add: busy64_def fresh64_frame)
  ultimately show ?thesis using that s' by simp
qed

lemma printable64_ascii: "printable64 c \<Longrightarrow> c \<noteq> 0 \<and> c < 128"
  by (auto simp: printable64_def word_less_nat_alt word_le_nat_alt)

text \<open>What a piece of a format prints, and what is left of the arguments.\<close>

fun piece_text :: "(addr64 \<Rightarrow> u8 list) \<Rightarrow> piece \<Rightarrow> u64 list \<Rightarrow> u8 list \<times> u64 list" where
  "piece_text str (Lit c) args = ([c], args)"
| "piece_text str Dec args = (dec_string (to_s32 (ucast (hd args))), tl args)"
| "piece_text str Hex args = (hex_string (ucast (hd args)), tl args)"
| "piece_text str Str args = (str (hd args), tl args)"

lemma piece_run64:
  assumes l: "locals64_ok l" and ok: "pieces64_ok (busy64 l bp N) m str (p # ps) args" and p: "\<forall>c. p \<noteq> Lit c"
  obtains d m' where "fmt_of (p # ps) = 37 # d # fmt_of ps" "d \<in> {100, 120, 115}"
    "run_pre64 Va_pointer l (select_conv64 d) args (fresh64 l d (fresh64 l 37 m)) = Some (snd (piece_text str p args), m')"
    "cstr64 m' (l64_buf l) (fst (piece_text str p args))" "length (fst (piece_text str p args)) < 4096"
    "\<forall>x. \<not> local64 l x \<longrightarrow> m' x = m x"
proof -
  have buf: "l64_buf l \<noteq> 0" using l by (auto simp: locals64_ok_def)
  obtain a as where as: "args = a # as" using ok p by (cases p; cases args) auto
  have fr: "\<forall>x. \<not> local64 l x \<longrightarrow> m' x = m x" if "\<forall>x. \<not> local64 l x \<longrightarrow> m' x = fresh64 l d (fresh64 l 37 m) x" for m' d
    using that by (simp add: fresh64_frame)
  show ?thesis
  proof (cases p)
    case Dec
    have "INT_MIN \<le> to_s32 (ucast a)" "to_s32 (ucast a) \<le> INT_MAX"
      using sint_greater_eq [of "ucast a :: u32"] sint_less [of "ucast a :: u32"] by (simp_all add: to_s32_def)
    then have n: "INT_MIN < to_s32 (ucast a)" "to_s32 (ucast a) \<le> INT_MAX" using ok Dec as by simp_all
    obtain m' where "itoa64 (fresh64 l 100 (fresh64 l 37 m)) (l64_nb l) (l64_rb l) (to_s32 (ucast a)) (l64_buf l) = Some m'"
      "cstr64 m' (l64_buf l) (dec_string (to_s32 (ucast a)))" "\<forall>x. \<not> local64 l x \<longrightarrow> m' x = fresh64 l 100 (fresh64 l 37 m) x"
      using itoa64_text [OF l n] by blast
    then show ?thesis using that [of 100 m'] fr length_dec_string [OF n] Dec as by (simp add: select_conv64_def)
  next
    case Hex
    obtain m' where "itoh64 (fresh64 l 120 (fresh64 l 37 m)) (l64_nb l) (l64_rb l) (ucast a) (l64_buf l) = Some m'"
      "cstr64 m' (l64_buf l) (hex_string (ucast a))" "\<forall>x. \<not> local64 l x \<longrightarrow> m' x = fresh64 l 120 (fresh64 l 37 m) x"
      using itoh64_text [OF l] by blast
    then show ?thesis using that [of 120 m'] fr length_hex_string [of "ucast a"] Hex as by (simp add: select_conv64_def)
  next
    case Str
    have s: "a \<noteq> 0" "cstr64 m a (str a)" "str a \<noteq> []" "length (str a) < 4096" "\<And>i. i \<le> length (str a) \<Longrightarrow> \<not> local64 l (a + of_nat i)"
      using ok Str as by (simp_all add: busy64_def)
    have "cstr64 (fresh64 l 37 m) a (str a)" by (rule cstr64_cong [OF s(2)]) (use s(5) in \<open>simp add: fresh64_frame\<close>)
    then obtain m' where "run_pre64 Va_pointer l Pre_str (a # as) (fresh64 l 115 (fresh64 l 37 m)) = Some (as, m')"
      "cstr64 m' (l64_buf l) (str a)" "\<forall>x. \<not> local64 l x \<longrightarrow> m' x = fresh64 l 37 m x"
      using str64_text [OF s(1) buf _ s(3,4,5), of "fresh64 l 37 m" as 115] by blast
    then show ?thesis using that [of 115 m'] s(4) Str as by (simp add: select_conv64_def fresh64_frame)
  next
    case Chr
    then show ?thesis using ok by (cases args) simp_all
  qed (use p in simp)
qed

lemma piece_rest:
  assumes "pieces64_ok W m str (p # ps) args"
  shows "render64 str (p # ps) args = fst (piece_text str p args) @ render64 str ps (snd (piece_text str p args))"
    "pieces64_ok W m str ps (snd (piece_text str p args))"
  using assms by (cases p; cases args; simp)+

definition literal :: "piece \<Rightarrow> bool" where
  "literal p \<longleftrightarrow> (case p of Lit c \<Rightarrow> True | _ \<Rightarrow> False)"

lemma literal_iff: "literal p \<longleftrightarrow> (\<exists>c. p = Lit c)"
  by (cases p) (simp_all add: literal_def)

lemma vkprintf64_loop_shows:
  assumes l: "locals64_ok l" and N: "2 * N \<le> 4294967296" and off: "\<And>x. in64 bp (2 * N) x \<Longrightarrow> \<not> local64 l x"
    and w: "\<And>j. j \<le> length w \<Longrightarrow> \<not> busy64 l bp N (fmt + of_nat j)" "length w < 2147483647"
  shows "cstr64 (km64 s) fmt w \<Longrightarrow> drop i w = fmt_of ps @ rest \<Longrightarrow> i \<le> length w \<Longrightarrow> vga_text_bp s = bp \<Longrightarrow> scr64 N s pg \<Longrightarrow>
    pieces64_ok (busy64 l bp N) (km64 s) str ps args \<Longrightarrow> page_room N pg (render64 str ps args) \<Longrightarrow>
    abi = Va_pointer \<or> (\<forall>p\<in>set ps. literal p) \<Longrightarrow>
    \<exists>s' as'. vkprintf64_loop abi l fmt i False args s = vkprintf64_loop abi l fmt (i + length (fmt_of ps)) False as' s'
      \<and> length as' \<le> length args \<and> scr64 N s' (foldl type_char pg (render64 str ps args)) \<and> vga_text_bp s' = bp \<and> (\<forall>x. \<not> busy64 l bp N x \<longrightarrow> km64 s' x = km64 s x)"
proof (induction ps arbitrary: i s pg args)
  case Nil
  then show ?case by auto
next
  case (Cons p ps)
  have buf: "l64_buf l \<noteq> 0" using l by (auto simp: locals64_ok_def)
  have off': "\<And>x. in64 (vga_text_bp s) (2 * N) x \<Longrightarrow> \<not> local64 l x" using off Cons.prems(4) by simp
  have at: "km64 s (fmt + of_nat (i + j)) = fmt_of (p # ps) ! j" "i + j < 2147483646" "i + j < length w"
    if "j < length (fmt_of (p # ps))" for j
  proof -
    have "length (drop i w) = length (fmt_of (p # ps)) + length rest" using Cons.prems(2) by simp
    then show k: "i + j < length w" using that by simp
    then show "i + j < 2147483646" using w(2) by simp
    have "fmt_of (p # ps) ! j = w ! (i + j)" using Cons.prems(2,3) that by (metis nth_append nth_drop)
    then show "km64 s (fmt + of_nat (i + j)) = fmt_of (p # ps) ! j"
      using Cons.prems(1) k by (simp add: cstr64_def del: of_nat_add)
  qed
  have go: ?case
    if st: "vkprintf64_loop abi l fmt i False args s = vkprintf64_loop abi l fmt k False args' s'" "scr64 N s' (foldl type_char pg bs)"
      "vga_text_bp s' = vga_text_bp s" "\<forall>x. \<not> busy64 l (vga_text_bp s) N x \<longrightarrow> km64 s' x = km64 s x"
    and re: "render64 str (p # ps) args = bs @ render64 str ps args'" and ok: "pieces64_ok (busy64 l bp N) (km64 s) str ps args'"
    and le: "length args' \<le> length args"
    and k: "drop k w = fmt_of ps @ rest" "k \<le> length w" "k + length (fmt_of ps) = i + length (fmt_of (p # ps))" for k args' s' bs
  proof -
    have fr: "\<And>x. \<not> busy64 l bp N x \<Longrightarrow> km64 s' x = km64 s x" using st(4) Cons.prems(4) by simp
    have "cstr64 (km64 s') fmt w" by (rule cstr64_cong [OF Cons.prems(1)]) (use fr w(1) in simp)
    moreover have "pieces64_ok (busy64 l bp N) (km64 s') str ps args'" by (rule pieces64_ok_frame [OF ok fr])
    moreover have "page_room N (foldl type_char pg bs) (render64 str ps args')"
      using Cons.prems(7) re by (simp add: page_room_append)
    moreover have "abi = Va_pointer \<or> (\<forall>p\<in>set ps. literal p)" using Cons.prems(8) by auto
    ultimately obtain s2 as2 where s2: "vkprintf64_loop abi l fmt k False args' s' = vkprintf64_loop abi l fmt (k + length (fmt_of ps)) False as2 s2"
      "length as2 \<le> length args'" "scr64 N s2 (foldl type_char (foldl type_char pg bs) (render64 str ps args'))" "vga_text_bp s2 = bp"
      "\<forall>x. \<not> busy64 l bp N x \<longrightarrow> km64 s2 x = km64 s' x"
      using Cons.IH [of s' k "foldl type_char pg bs" args'] k(1,2) st(2,3) Cons.prems(4) by auto
    show ?thesis
      by (intro exI [of _ s2] exI [of _ as2]) (use s2 st(1) le k(3) re fr in simp)
  qed
  have loc: "\<not> local64 l (fmt + of_nat (i + j))" if "j < length (fmt_of (p # ps))" for j
    using w(1) [of "i + j"] at(3) [OF that] by (simp add: busy64_def)
  have nx: "drop (i + j) w = drop j (fmt_of (p # ps) @ rest)" for j using Cons.prems(2) by (metis add.commute drop_drop)
  note re = piece_rest [OF Cons.prems(6)]
  let ?t = "fst (piece_text str p args)" and ?as = "snd (piece_text str p args)"
  have room: "page_room N pg ?t" using Cons.prems(7) re(1) by (simp add: page_room_append)
  show ?case
  proof (cases "\<exists>c. p = Lit c")
    case True
    then obtain c where Lit: "p = Lit c" by blast
    then have c: "printable64 c" "c \<noteq> 37" "c \<noteq> 0" "c < 128" using Cons.prems(6) printable64_ascii [of c] by simp_all
    have f: "km64 s (fmt + of_nat i) = c" "i < 2147483647" "i < length w" using at [of 0] Lit by simp_all
    have run: "run_pre64 abi l (if False then select_conv64 c else Pre_comm) args (fresh64 l c (km64 s)) = Some (args, fresh64 l c (km64 s))"
      by simp
    have fr: "\<forall>x. \<not> local64 l x \<longrightarrow> fresh64 l c (km64 s) x = km64 s x" by (simp add: fresh64_frame)
    have r: "page_room N pg [c]" using room Lit by simp
    obtain s' where s': "vkprintf64_loop abi l fmt i False args s = vkprintf64_loop abi l fmt (i + 1) False args s'"
      "scr64 N s' (foldl type_char pg [c])" "vga_text_bp s' = vga_text_bp s"
      "\<forall>x. \<not> busy64 l (vga_text_bp s) N x \<longrightarrow> km64 s' x = km64 s x"
      by (rule print_step64 [OF N Cons.prems(5) buf off' f(2,1) c(3,4,1) disjI2 [OF c(2)] run fresh64_char [OF c(3)] _ fr r]) simp_all
    show ?thesis by (rule go [OF s' _ _ order_refl]) (use Lit re nx [of 1] f in simp_all)
  next
    case False
    then have abi: "abi = Va_pointer" using Cons.prems(8) by (auto simp: literal_iff)
    from False have "\<forall>c. p \<noteq> Lit c" by blast
    from piece_run64 [OF l Cons.prems(6) this] obtain d m' where d: "fmt_of (p # ps) = 37 # d # fmt_of ps" "d \<in> {100, 120, 115}"
      and run: "run_pre64 abi l (select_conv64 d) args (fresh64 l d (fresh64 l 37 (km64 s))) = Some (?as, m')"
      and t: "cstr64 m' (l64_buf l) ?t" "length ?t < 4096" and fr: "\<forall>x. \<not> local64 l x \<longrightarrow> m' x = km64 s x"
      unfolding abi by blast
    have le: "length ?as \<le> length args" using False Cons.prems(6) by (cases p; cases args) simp_all
    have f: "km64 s (fmt + of_nat i) = 37" "km64 s (fmt + of_nat (i + 1)) = d" "i + 1 < 2147483647" "i + 1 < length w"
      "\<not> local64 l (fmt + of_nat (i + 1))"
      using at [of 0] at [of 1] loc [of 1] d(1) by (simp_all del: of_nat_add)
    obtain s' where s': "vkprintf64_loop abi l fmt i False args s = vkprintf64_loop abi l fmt (i + 2) False ?as s'"
      "scr64 N s' (foldl type_char pg ?t)" "vga_text_bp s' = vga_text_bp s"
      "\<forall>x. \<not> busy64 l (vga_text_bp s) N x \<longrightarrow> km64 s' x = km64 s x"
      by (rule conv_step64 [OF N Cons.prems(5) buf off' f(3,1,2) d(2) f(5) run t fr room])
    show ?thesis by (rule go [OF s' re le]) (use d nx [of 2] f(4) in simp_all)
  qed
qed

text \<open>C34: the number printers of the two kernels agree: on any window of 4 GB of the 64-bit address space
  \<open>itoa\<close> and \<open>itoh\<close> of the 64-bit kernel do to the memory what those of the 32-bit kernel do to the window, also
  in that they have no result for the smallest \<open>int\<close>, and change nothing outside of it.\<close>

theorem number_printers_agree:
  assumes n: "INT_MIN \<le> n" "n \<le> INT_MAX"
    and room: "unat nb + 12 \<le> 4294967296" "unat rb + 12 \<le> 4294967296" "unat s + 12 \<le> 4294967296"
    and nn: "at64 B nb \<noteq> 0" "at64 B rb \<noteq> 0" "at64 B s \<noteq> 0" "nb \<noteq> 0" "rb \<noteq> 0" "s \<noteq> 0"
  shows "itoa64 m (at64 B nb) (at64 B rb) n (at64 B s) = map_option (glue B m) (itoa (win B m) nb rb n s)
    \<and> itoh64 m (at64 B nb) (at64 B rb) h (at64 B s) = map_option (glue B m) (itoh (win B m) nb rb h s)"
  using itoa64_win [OF n room nn] itoh64_win [OF room nn] by simp

lemma number_printers_agree_witness:
  "\<exists>m'. itoa64 (\<lambda>_. 7) 0xFFFFFFFF80001000 0xFFFFFFFF80002000 (- 42) 0xFFFFFFFF80003000 = Some m'
    \<and> cstr64 m' 0xFFFFFFFF80003000 [45, 52, 50] \<and> m' 0xFFFFFFFF80004000 = 7"
proof -
  let ?B = "0xFFFFFFFF80000000 :: u64" and ?w = "win 0xFFFFFFFF80000000 (\<lambda>_. 7)"
  have a: "at64 ?B 0x1000 = 0xFFFFFFFF80001000" "at64 ?B 0x2000 = 0xFFFFFFFF80002000" "at64 ?B 0x3000 = 0xFFFFFFFF80003000"
    "at64 ?B 0x4000 = 0xFFFFFFFF80004000" by (simp_all add: at64_def)
  have ap: "apart (0x2000 :: u32) 12 0x1000 12" "apart (0x3000 :: u32) 12 0x1000 12" by (simp_all add: apart_def)
  obtain w' where w': "itoa ?w 0x1000 0x2000 (- 42) 0x3000 = Some w'" "cstr w' 0x3000 (dec_string (- 42))"
    "\<forall>x. \<not> inside 0x2000 12 x \<longrightarrow> \<not> inside 0x1000 12 x \<longrightarrow> \<not> inside 0x3000 12 x \<longrightarrow> w' x = ?w x"
    using itoa_correct [of "- 42" "0x1000" "0x2000" "0x3000" ?w] ap by auto
  have d: "dec_string (- 42) = [45, 52, 50]" by (simp add: dec_string_def digs.simps)
  have "cstr64 (glue ?B (\<lambda>_. 7) w') (at64 ?B 0x3000) [45, 52, 50]"
    using w'(2) by (intro cstr64_glue) (simp_all add: d)
  moreover have "glue ?B (\<lambda>_. 7) w' (at64 ?B 0x4000) = 7" using w'(3) by (simp add: inside_def win_def)
  moreover have "itoa64 (\<lambda>_. 7) (at64 ?B 0x1000) (at64 ?B 0x2000) (- 42) (at64 ?B 0x3000) = Some (glue ?B (\<lambda>_. 7) w')"
    using number_printers_agree [of "- 42" "0x1000" "0x2000" "0x3000" ?B "\<lambda>_. 7"] w'(1) by (simp add: a)
  ultimately show ?thesis unfolding a by blast
qed

text \<open>A format that begins with these pieces is printed up to their end.\<close>

lemma vkprintf64_prefix:
  assumes l: "locals64_ok l" and N: "2 * N \<le> 4294967296" and off: "\<And>x. in64 (vga_text_bp s) (2 * N) x \<Longrightarrow> \<not> local64 l x"
    and fmt: "cstr64 (km64 s) fmt (fmt_of ps @ rest)" "length (fmt_of ps @ rest) < 2147483647"
      "\<And>j. j \<le> length (fmt_of ps @ rest) \<Longrightarrow> \<not> busy64 l (vga_text_bp s) N (fmt + of_nat j)"
    and args: "pieces64_ok (busy64 l (vga_text_bp s) N) (km64 s) str ps args"
    and page: "scr64 N s pg" "page_room N pg (render64 str ps args)"
    and abi: "abi = Va_pointer \<or> (\<forall>p\<in>set ps. literal p)"
  obtains s' as' where "vkprintf64 abi l fmt args s = vkprintf64_loop abi l fmt (length (fmt_of ps)) False as' s'"
    "length as' \<le> length args" "scr64 N s' (foldl type_char pg (render64 str ps args))" "vga_text_bp s' = vga_text_bp s"
    "\<forall>x. \<not> busy64 l (vga_text_bp s) N x \<longrightarrow> km64 s' x = km64 s x"
  using vkprintf64_loop_shows [OF l N off fmt(3,2,1), of 0 ps rest pg str args abi] args page abi
  by (simp add: vkprintf64_def del: scr64.simps) blast

text \<open>A conversion finds no argument in a list that was never started, nor anywhere where a list is an array.\<close>

lemma vkprintf64_no_argument:
  assumes l: "locals64_ok l" and N: "2 * N \<le> 4294967296" and off: "\<And>x. in64 (vga_text_bp s) (2 * N) x \<Longrightarrow> \<not> local64 l x"
    and fmt: "cstr64 (km64 s) fmt (fmt_of ps @ 37 # d # cs)" "length (fmt_of ps @ 37 # d # cs) < 2147483647"
      "\<And>j. j \<le> length (fmt_of ps @ 37 # d # cs) \<Longrightarrow> \<not> busy64 l (vga_text_bp s) N (fmt + of_nat j)"
    and d: "d \<in> {100, 99, 115, 120, 88}" and args: "pieces64_ok (busy64 l (vga_text_bp s) N) (km64 s) str ps args"
    and page: "scr64 N s pg" "page_room N pg (render64 str ps args)"
    and lits: "\<forall>p\<in>set ps. literal p" and none: "args = [] \<or> abi = Va_array"
  shows "vkprintf64 abi l fmt args s = None"
proof -
  let ?w = "fmt_of ps @ 37 # d # cs" and ?n = "length (fmt_of ps)"
  obtain s' as' where s': "vkprintf64 abi l fmt args s = vkprintf64_loop abi l fmt ?n False as' s'" "length as' \<le> length args"
      "\<forall>x. \<not> busy64 l (vga_text_bp s) N x \<longrightarrow> km64 s' x = km64 s x"
    by (rule vkprintf64_prefix [OF l N off fmt args page disjI2 [OF lits]])
  have at: "km64 s' (fmt + of_nat j) = ?w ! j" if "j < length ?w" for j
    using s'(3) fmt(3) [of j] fmt(1) that by (simp add: cstr64_def)
  have c: "km64 s' (fmt + of_nat ?n) = 37" "km64 s' (fmt + of_nat (?n + 1)) = d" "?n + 1 < 2147483647"
    using at [of ?n] at [of "?n + 1"] fmt(2) by (simp_all add: nth_append del: of_nat_add of_nat_Suc)
  have loc: "\<not> local64 l (fmt + of_nat (?n + 1))" using fmt(3) [of "?n + 1"] by (simp add: busy64_def)
  let ?s = "s'\<lparr>km64 := fresh64 l 37 (km64 s')\<rparr>"
  have d': "d \<noteq> 0" "d < 128" "printable64 d" using d by (auto simp: printable64_def)
  have "as' = [] \<or> abi = Va_array" using none s'(2) by auto
  then have "run_pre64 abi l (select_conv64 d) as' m = None" for m using d by (cases as') (auto simp: select_conv64_def)
  then have "vkprintf64_loop abi l fmt (?n + 1) True as' ?s = None"
    using c(2,3) d' fresh64_frame [OF loc] by (subst vkprintf64_loop.simps) (simp add: Let_def)
  moreover have "vkprintf64_loop abi l fmt ?n False as' s' = vkprintf64_loop abi l fmt (?n + 1) True as' ?s"
    using c(1,3) by (subst vkprintf64_loop.simps) (simp add: Let_def fresh64_eq printable64_def)
  ultimately show ?thesis using s'(1) by simp
qed

lemma vkprintf64_text:
  assumes l: "locals64_ok l" and N: "2 * N \<le> 4294967296" and off: "\<And>x. in64 (vga_text_bp s) (2 * N) x \<Longrightarrow> \<not> local64 l x"
    and fmt: "cstr64 (km64 s) fmt (fmt_of ps)" "length (fmt_of ps) < 2147483647"
      "\<And>j. j \<le> length (fmt_of ps) \<Longrightarrow> \<not> busy64 l (vga_text_bp s) N (fmt + of_nat j)"
    and args: "pieces64_ok (busy64 l (vga_text_bp s) N) (km64 s) str ps args"
    and page: "scr64 N s pg" "page_room N pg (render64 str ps args)"
    and abi: "abi = Va_pointer \<or> (\<forall>p\<in>set ps. literal p)"
  shows "\<exists>s'. vkprintf64 abi l fmt args s = Some s' \<and> scr64 N s' (foldl type_char pg (render64 str ps args))
    \<and> vga_text_bp s' = vga_text_bp s \<and> (\<forall>x. \<not> busy64 l (vga_text_bp s) N x \<longrightarrow> km64 s' x = km64 s x)"
proof -
  have f: "cstr64 (km64 s) fmt (fmt_of ps @ [])" "length (fmt_of ps @ []) < 2147483647" using fmt(1,2) by simp_all
  obtain s' as' where s': "vkprintf64 abi l fmt args s = vkprintf64_loop abi l fmt (length (fmt_of ps)) False as' s'"
      "scr64 N s' (foldl type_char pg (render64 str ps args))" "vga_text_bp s' = vga_text_bp s"
      "\<forall>x. \<not> busy64 l (vga_text_bp s) N x \<longrightarrow> km64 s' x = km64 s x"
    by (rule vkprintf64_prefix [OF l N off f _ args page abi]) (use fmt(3) in simp_all)
  have "km64 s' (fmt + of_nat (length (fmt_of ps))) = 0"
    using s'(4) fmt(3) [of "length (fmt_of ps)"] fmt(1) by (simp add: cstr64_def)
  then have "vkprintf64_loop abi l fmt (length (fmt_of ps)) False as' s' = Some s'"
    using fmt(2) by (subst vkprintf64_loop.simps) simp
  then show ?thesis using s' by (intro exI [of _ s']) simp
qed

text \<open>A format with a conversion begins with literal text and the first conversion.\<close>

lemma first_conversion:
  assumes "pieces64_ok W m str ps args" "\<not> (\<forall>p\<in>set ps. literal p)"
  obtains qs d cs where "fmt_of ps = fmt_of qs @ 37 # d # cs" "d \<in> {100, 99, 115, 120, 88}" "\<forall>p\<in>set qs. literal p"
    "pieces64_ok W m str qs args" "\<exists>out. render64 str ps args = render64 str qs args @ out"
proof -
  have "\<exists>qs d cs. fmt_of ps = fmt_of qs @ 37 # d # cs \<and> d \<in> {100, 99, 115, 120, 88} \<and> (\<forall>p\<in>set qs. literal p)
    \<and> pieces64_ok W m str qs args \<and> (\<exists>out. render64 str ps args = render64 str qs args @ out)"
    using assms
  proof (induction ps)
    case (Cons p ps)
    show ?case
    proof (cases p)
      case (Lit c)
      then have "pieces64_ok W m str ps args" "\<not> (\<forall>p\<in>set ps. literal p)" "printable64 c" "c \<noteq> 37"
        using Cons.prems by (simp_all add: literal_def)
      with Cons.IH obtain qs d cs out where "fmt_of ps = fmt_of qs @ 37 # d # cs" "d \<in> {100, 99, 115, 120, 88}"
        "\<forall>p\<in>set qs. literal p" "pieces64_ok W m str qs args" "render64 str ps args = render64 str qs args @ out" by blast
      then show ?thesis using Lit \<open>printable64 c\<close> \<open>c \<noteq> 37\<close>
        by (intro exI [of _ "Lit c # qs"] exI [of _ d] exI [of _ cs]) (simp add: literal_def)
    qed (rule exI [of _ "[]"], simp)+
  qed simp
  then show ?thesis using that by blast
qed


text \<open>The format of the first message: \<open>"[f:%s][l:%d]64bit-kernel start\n"\<close>.\<close>

definition start_format :: "u8 list" where
  "start_format = [91, 102, 58, 37, 115, 93, 91, 108, 58, 37, 100, 93, 54, 52, 98, 105, 116, 45, 107, 101, 114, 110, 101, 108,
     32, 115, 116, 97, 114, 116, 10]"

text \<open>C22: the 64-bit kernel never gets its first message out: with that format anywhere outside of the screen and
  the arrays of the printing, \<open>main\<close> takes an argument from a list that was never started, which is undefined.\<close>

theorem main64_undefined:
  assumes l: "locals64_ok l" and off: "\<And>x. in64 0xB8000 4000 x \<Longrightarrow> \<not> local64 l x" and cl: "vga_cl s = 0"
    and fmt: "cstr64 (km64 s) fmt start_format" "\<And>j. j \<le> length start_format \<Longrightarrow> \<not> busy64 l 0xB8000 2000 (fmt + of_nat j)"
  shows "main64 abi l fmt fn s = None"
proof -
  define s1 where "s1 = snd (vga_text_init64 s)"
  have s1: "vga_text_bp s1 = 0xB8000" "vga_text_cp s1 = 0xB8000" "vga_cl s1 = 0"
    "km64 s1 = (\<lambda>x. if in64 0xB8000 4000 x then 0 else km64 s x)"
    using cl by (auto simp: s1_def vga_text_init64_def Let_def memset64_eq)
  have "in64 0xB8000 4000 (0xB8000 + of_nat j)" if "j < 4000" for j using that by (rule in64_add) simp
  then have page: "scr64 2000 s1 (\<lambda>_. (0, 0), 0, 0)" by (simp add: s1 del: of_nat_mult of_nat_add of_nat_Suc)
  have f: "start_format = fmt_of [Lit 91, Lit 102, Lit 58] @ 37 # 115 # drop 5 start_format" "length start_format = 31"
    by (simp_all add: start_format_def)
  have c1: "cstr64 (km64 s1) fmt start_format"
    by (rule cstr64_cong [OF fmt(1)]) (use fmt(2) in \<open>simp add: s1(4) busy64_def\<close>)
  have "vkprintf64 abi l fmt [] s1 = None"
  proof (rule vkprintf64_no_argument [OF l _ _ _ _ _ _ _ page, where args = "[]" and ps = "[Lit 91, Lit 102, Lit 58]" and d = 115 and cs = "drop 5 start_format"])
    show "cstr64 (km64 s1) fmt (fmt_of [Lit 91, Lit 102, Lit 58] @ 37 # 115 # drop 5 start_format)" using c1 by (simp only: f(1) [symmetric])
    show "\<not> busy64 l (vga_text_bp s1) 2000 (fmt + of_nat j)"
      if "j \<le> length (fmt_of [Lit 91, Lit 102, Lit 58] @ 37 # 115 # drop 5 start_format)" for j
      using fmt(2) [of j] that unfolding f(1) [symmetric] s1(1) by blast
  qed (use off f(2) in \<open>simp_all add: s1 printable64_def literal_def\<close>)
  then show ?thesis by (simp add: main64_def kprintf64_def s1_def [symmetric] split: prod.split) (metis s1_def snd_conv)
qed

text \<open>A kernel with its stack below two megabytes and a string in the upper half of the address space.\<close>

definition blk64 :: "addr64 \<Rightarrow> u8 list \<Rightarrow> mem64" where
  "blk64 a bs = (\<lambda>x. if in64 a (length bs) x then bs ! unat (x - a) else 0)"

definition kern64 :: "u8 list \<Rightarrow> kernel64" where
  "kern64 bs = \<lparr>km64 = blk64 0xFFFFFFFF80200000 bs, vga_text_bp = 0xB8000, vga_text_cp = 0xB8000, vga_cl = 0\<rparr>"

definition locs64 :: locals64 where
  "locs64 = \<lparr>l64_buf = 0x100000, l64_nb = 0x102000, l64_rb = 0x103000\<rparr>"

lemma cstr64_blk: "length bs < 18446744073709551616 \<Longrightarrow> 0 \<notin> set bs \<Longrightarrow> cstr64 (blk64 a bs) a bs"
  by (auto simp: cstr64_def blk64_def in64_def unat_of_nat64)

lemma in64_range: "in64 a n x \<Longrightarrow> unat a + n \<le> 18446744073709551616 \<Longrightarrow> unat a \<le> unat x \<and> unat x < unat a + n"
  unfolding in64_def unat_sub_if' by (simp split: if_splits)

lemma locs64_ok: "locals64_ok locs64"
  unfolding locals64_ok_def
  by (rule exI [of _ 0], rule exI [of _ "0x100000"], rule exI [of _ "0x102000"], rule exI [of _ "0x103000"])
    (simp add: locs64_def at64_def apart_def)

lemma locs64_screen: "in64 0xB8000 4000 x \<Longrightarrow> \<not> local64 locs64 x"
  by (auto simp: local64_def locs64_def dest!: in64_range)

lemma kern64_string:
  assumes "j < 256"
  shows "\<not> busy64 locs64 0xB8000 2000 (0xFFFFFFFF80200000 + of_nat j)"
proof -
  have "unat (0xFFFFFFFF80200000 + of_nat j :: u64) = 0xFFFFFFFF80200000 + j"
    using assms by (simp add: unat_word_ariths unat_of_nat64)
  then show ?thesis by (auto simp: busy64_def local64_def locs64_def dest!: in64_range)
qed

lemma main64_undefined_witness: "main64 Va_array locs64 0xFFFFFFFF80200000 0xFFFFFFFF80201000 (kern64 start_format) = None
    \<and> main64 Va_pointer locs64 0xFFFFFFFF80200000 0xFFFFFFFF80201000 (kern64 start_format) = None"
proof -
  have n: "length start_format = 31" "0 \<notin> set start_format" by (simp_all add: start_format_def)
  have c: "cstr64 (km64 (kern64 start_format)) 0xFFFFFFFF80200000 start_format" using n by (simp add: kern64_def cstr64_blk)
  have f: "\<And>j. j \<le> length start_format \<Longrightarrow> \<not> busy64 locs64 0xB8000 2000 (0xFFFFFFFF80200000 + of_nat j)"
    using n(1) kern64_string by simp
  have cl: "vga_cl (kern64 start_format) = 0" by (simp add: kern64_def)
  show ?thesis using main64_undefined [OF locs64_ok locs64_screen cl c f] by blast
qed


end
