(* ===== verification/Spec2Isabelle.thy ===== *)
theory Spec2Isabelle
  imports Base_Props Test_Procs Buddy_Props Heap_Props Drivers_Props Sched_Props Ahci_Props Ahci_P32 Fat_Props Fat_Clus Boot_Main Uart Kernel64_Props
begin

text \<open>
  A verification development for Yohda-OS, a hobby kernel for 32-bit x86 written in C.

  \<^bold>\<open>The program.\<close>  \<open>main.c\<close> brings up the screen, memory, the processors' tables, interrupts, timer,
  keyboard and processes in that order, and starts the scheduler; the disk drivers and the file system are
  there, with their initialisation still commented out.  Memory is given out by \<open>yalloc\<close> and taken back by \<open>yfree\<close> (\<open>mmi.c\<close>), which pass a
  request to a buddy allocator (\<open>buddy.c\<close>) or to pools of small slots (\<open>pool.c\<close>); the sizes and limits
  the two share are kept by \<open>mm.c\<close>.  The allocators rest on bitmaps (\<open>bitmap.c\<close>), linked lists
  (\<open>list.c\<close>), powers and logarithms (\<open>math.c\<close>) and the string routines (\<open>string.c\<close>, \<open>stdlib.c\<close>).
  Drivers reach devices through port instructions (\<open>port.asm\<close>) or memory mapped registers: interrupt
  controller, timer, keyboard, text screen, PCI, ATA and SATA.  The scheduler (\<open>sched.c\<close>, \<open>proc.c\<close>)
  switches between processes on their own stacks (\<open>task.asm\<close>).  The FAT file system (\<open>fs/fat.c\<close>)
  keeps directories in a binary search tree (\<open>bstree.c\<close>) and files in lists, in memory from the heap,
  and reads and writes clusters through the SATA driver (\<open>block/ahci.c\<close>).

  \<^bold>\<open>How the code is modelled.\<close>  Memory is a function from 32-bit addresses to bytes, with
  little-endian loads and stores, so that aliasing, headers in front of blocks, list nodes inside
  other structures and stacks are what they are in the code.  Global structures that nothing points
  into are records; the state grows by record extension: \<open>kernel\<close> (memory and \<open>mm.c\<close>), \<open>bud_state\<close>,
  \<open>pool_state\<close>, \<open>machine\<close> (devices, console, timer), and from there \<open>sched_state\<close> and \<open>fat_state\<close>.
  Operations take and return the state and are polymorphic in its extension, so the allocator runs
  unchanged under the file system.  \<open>u32\<close> and the like are words; C's \<open>int\<close> is \<open>int\<close>, and where it may
  overflow the result goes through \<open>s32_ok\<close>.  A result \<open>None\<close> is a C execution with no defined result: a
  loop that never ends, a trap, signed overflow, the use of a pointer the code has just found to be null, an
  index behind the end of an array.  Error codes
  are values as in the code; where the code reports an error without returning, the model goes on.  A
  function that forgets to return a value takes what it leaves as a parameter \<open>junk\<close>.  A local array
  whose address is passed on has its address as a parameter.  A device is a function of the accesses
  made so far; the SATA controller may also write memory.

  \<^bold>\<open>Theories.\<close>
  \<^item> \<open>Prelude\<close>: types, memory, blocks of bytes and the frame lemmas every other theory uses.
  \<^item> \<open>Cmath\<close>, \<open>Cstring\<close>, \<open>Lists\<close>, \<open>Bitmap\<close>, \<open>Bstree\<close>, \<open>Stack\<close>: the base library (\<open>math.c\<close>, \<open>string.c\<close> and
    \<open>stdlib.c\<close>, \<open>list.c\<close>, \<open>bitmap.c\<close>, \<open>bstree.c\<close>, \<open>stack.c\<close>), each with what its structures stand for: a C
    string for a list of bytes (\<open>cstr\<close>), a chain of nodes for a list of addresses (\<open>dlist\<close>), a bitmap for
    a set of indices, nodes for a tree (\<open>is_bst\<close>).  \<open>Base_Props\<close> has their properties.
  \<^item> \<open>Mm\<close>, \<open>Buddy\<close>, \<open>Pool\<close>, \<open>Mmi\<close>: the operations of the memory manager.  \<open>Blocks\<close> is the abstract buddy
    system: blocks are pairs of an order and an index.  \<open>Buddy_Spec\<close> relates the bitmaps to a set of
    blocks in use (\<open>bud_rep\<close>), \<open>Buddy_Init\<close> proves the layout the initialisation makes, \<open>Pool_Spec\<close> and
    \<open>Pool_Init\<close> do the same for the pools, \<open>Mmi_Spec\<close> and \<open>Heap_Init\<close> for both together.  \<open>Alloc\<close> states the
    interface of an allocator as the locale \<open>heap_alloc\<close>: a state stands for a set of regions, an allocation
    adds a region apart from all others, a free removes it, and the owner of a region may write to it; what
    holds over whole runs of requests is proved there once.  \<open>heap_memory\<close> extends it by the bytes in the
    regions, which only their owners change.  \<open>Buddy_Alloc\<close> and \<open>Pool_Alloc\<close> interpret the first on the
    buddy allocator and on the pools, \<open>Heap\<close> both on \<open>yalloc\<close> and \<open>yfree\<close>.
    \<open>Buddy_Props\<close> and \<open>Heap_Props\<close> have the properties.
  \<^item> \<open>Machine\<close>, \<open>Console\<close>, \<open>Drivers\<close>, \<open>Pci\<close>: ports, virtual addresses and the interrupt table; text screen
    and \<open>kprintf\<close>; interrupt controller, timer, keyboard and exceptions; PCI and ATA.  \<open>Console_Spec\<close> gives the text a
    format denotes and proves that it appears on the screen.  \<open>Console_Props\<close>, \<open>Drivers_Props\<close>: properties.
    \<open>Console_Line\<close>: whole lines, over scrolling, up to the last row of the buffer.
  \<^item> \<open>Sched\<close>: processes, scheduler and context switch.  \<open>Sched_Spec\<close> is the abstract machine of threads,
    \<open>Threads\<close> the simulation between the two step relations, \<open>Sched_Props\<close> the properties.  A running
    process may change whatever does not belong to the scheduler (\<open>sched_owned\<close>).  \<open>Test_Procs\<close>: \<open>test1\<close> and \<open>test2\<close> of
    \<open>main.c\<close> on the scheduler, with printing, sleeping and switching together.
  \<^item> \<open>Ahci\<close>: the SATA driver.  \<open>Ahci_Spec\<close> is the controller's side: the command it fetches from memory.
    \<open>Ahci_Props\<close>: the properties, also of driver and controller together.  \<open>Ahci_P32\<close>: what the older copy
    of the driver (\<open>p32/ahci.c\<close>) does differently, and that it finds the same controller.
  \<^item> \<open>Fat\<close>, \<open>Fat_Fs\<close>: names and directory entries, and the file system on disk, heap and tree.  \<open>Fat_Names\<close>
    gives the form of a long name on the disk (\<open>holds_name\<close>) and proves encoder and decoder against it;
    \<open>Fat_Props\<close> interprets the contract of comparison functions (\<open>bst_order\<close>, in \<open>Bstree\<close>) on the file
    system's own, and has the properties.  \<open>Fat_Clus\<close>: clusters are taken from the bitmap and recorded on
    the heap, by the laws of both.
  \<^item> \<open>Boot\<close>, \<open>Boot_Props\<close>: the boot loader's information, the tables of a multi-processor machine, segment
    descriptors, and \<open>main\<close> (\<open>kmain\<close>), which composes the initialisers of the theories above.  \<open>Boot_Steps\<close> says
    what each initialiser computes and leaves alone, \<open>Boot_Main\<close> what the whole of \<open>main\<close> brings about.
  \<^item> \<open>Kernel64\<close>, \<open>Kernel64_Props\<close>: the 64-bit kernel (\<open>p64\<close>), its string routines, screen and printing on 64-bit
    addresses.  A window of 4 GB relates them to the 32-bit ones; the screen refines a page that is typed on.
  \<^item> \<open>Uart\<close>: the ARM kernel, which sends what it receives on a serial port (\<open>arm/src/main.c\<close>).

  \<^bold>\<open>What is shown.\<close>  The allocators refine sets of disjoint blocks: every request that fits is served
  with a region apart from all others, over any run of requests and frees, from initialisation on, and what
  was written to a region is there until it is freed; the
  heaps, orders and sizes for which this fails are theorems of their own.  The scheduler refines threads with
  saved registers: processes run round and round in order and go on with the registers they had, and none
  is lost from the ready list.
  Formatted printing shows the text it denotes, and nothing else in memory changes.  So the two first processes
  really print in turn, until, after 399 lines, the rows of the screen's buffer are used up.  The command the SATA driver builds is
  the transfer asked for up to 16 sectors, and a read then fills the buffer with the sectors of the disk.
  File names survive the way into directory entries and back; the directory tree stays a search tree; a
  new cluster is the first free one.
  Interrupt controller, timer and keyboard make the accesses the devices expect.  The start of the kernel
  composes them: from a machine with clear tables, \<open>main\<close> establishes what the theorems on heap and
  scheduler assume.  That rests on frames: which bytes belong to the heap's own use is \<open>in_heap\<close>
  (\<open>Buddy_Alloc\<close>), and no operation of the heap changes a byte outside of it (\<open>heap_only\<close>, \<open>Mmi_Spec\<close>).

  \<^bold>\<open>Loops, bounds and fuel.\<close>  Loops over an \<open>int\<close> index are structural or have a measure; loops that
  may not end (such as \<open>bst_walk\<close>, the loops over entries and lists of the file system, over the boot
  loader's tags, and the waits for a device that have no bound in the code) are \<open>partial_function (option)\<close>,
  so that a theorem with a result is also one that the loop ends.  The bounded wait of \<open>issue_cmd\<close> 
  takes a million looks, and its model has fuel for a million and one.  The area loop of a command has 65536 steps of fuel, one more than a 16-bit count of
  areas allows.

  \<^bold>\<open>Not modelled.\<close>  The boot loaders, the stubs in assembly, \<open>cpu.asm\<close>, \<open>lock.c\<close> and \<open>sys.c\<close>: processor instructions.
  \<open>page.c\<close> and \<open>shell.c\<close>: commented out and empty.  \<open>mm64.c\<close> and \<open>buddy64.c\<close>, which nothing builds, differ from \<open>mm.c\<close> and \<open>buddy.c\<close> in the width of some types only.
  Debug printing is left out but in the handlers of exceptions, the two first processes and the main of the 64-bit kernel, \<open>test.c\<close> altogether.
  Interrupts do not preempt the modelled operations.
\<close>

end
